(* ===== verification/Pintos_Prelude.thy ===== *)
theory Pintos_Prelude
  imports Main "HOL-Library.Word" "HOL-Library.Signed_Division" "HOL-Library.Monad_Syntax"
    "HOL-Library.Multiset"
begin

text \<open>
  The prelude of the development: the model's view of C machine integers, of a kernel
  operation that may stop the machine, and the generic lemmas that the component
  theories share.

  \<^item> A kernel operation has a result of type \<open>'a option\<close>. \<open>None\<close> is the kernel stopping: a
    failed \<open>ASSERT\<close>, a \<open>PANIC\<close>, a \<open>NOT_REACHED\<close> or an access through a null or dangling
    pointer. Every error that the code returns to its caller (\<open>false\<close>, \<open>NULL\<close>, \<open>-1\<close>,
    \<open>BITMAP_ERROR\<close>, \<open>TID_ERROR\<close>) is an ordinary value of the model.
  \<^item> \<open>uint32_t\<close> and \<open>unsigned long\<close> (32 bits on the i386 the kernel is built for) are
    \<open>32 word\<close> where bits or wrap-around matter; \<open>size_t\<close> counters are \<open>nat\<close>, with the
    reduction modulo \<open>2 ^ 32\<close> written out where a sum can wrap.
  \<^item> \<open>int\<close> is \<open>int\<close>; \<open>s32\<close> is the two's complement value an i386 register keeps of a
    mathematical integer, and division of signed values truncates (\<open>sdiv\<close>, \<open>smod\<close>).
\<close>

section \<open>Kernel results\<close>

definition ASSERT :: "bool \<Rightarrow> unit option" where
  "ASSERT b = (if b then Some () else None)"

lemma ASSERT_simps [simp]: "ASSERT True = Some ()" "ASSERT False = None"
  by (simp_all add: ASSERT_def)

lemma ASSERT_eq_Some [simp]: "ASSERT b = Some u \<longleftrightarrow> b"
  by (simp add: ASSERT_def)

lemma ASSERT_eq_None [simp]: "ASSERT b = None \<longleftrightarrow> \<not> b"
  by (simp add: ASSERT_def)

lemma ASSERT_bind_eq_Some [simp]: "Option.bind (ASSERT b) f = Some y \<longleftrightarrow> b \<and> f () = Some y"
  by (simp add: ASSERT_def)

lemma ASSERT_True_bind [simp]: "b \<Longrightarrow> Option.bind (ASSERT b) f = f ()"
  by (simp add: ASSERT_def)

text \<open>Addresses are natural numbers.\<close>

abbreviation NULL :: nat where
  "NULL \<equiv> 0"

section \<open>Machine integers\<close>

type_synonym u8 = "8 word"
type_synonym u32 = "32 word"

definition s32 :: "int \<Rightarrow> int" where
  "s32 x = (x + 2 ^ 31) mod 2 ^ 32 - 2 ^ 31"

definition s32_range :: "int \<Rightarrow> bool" where
  "s32_range x \<longleftrightarrow> - (2 ^ 31) \<le> x \<and> x < 2 ^ 31"

lemma s32_in_range [simp]: "s32_range (s32 x)"
  by (simp add: s32_def s32_range_def)

lemma s32_id: "s32_range x \<Longrightarrow> s32 x = x"
  by (simp add: s32_def s32_range_def)

definition wrap32 :: "nat \<Rightarrow> nat" where
  "wrap32 x = x mod 2 ^ 32"

lemma wrap32_code [code]: "wrap32 x = nat (int x mod 4294967296)"
  by (simp add: wrap32_def nat_mod_distrib)

lemma wrap32_le: "wrap32 x \<le> x"
  by (simp add: wrap32_def)

lemma wrap32_id: "x < 2 ^ 32 \<Longrightarrow> wrap32 x = x"
  by (simp add: wrap32_def)

lemma wrap32_1 [simp]: "wrap32 1 = 1" "wrap32 (Suc 0) = Suc 0" "wrap32 0 = 0"
  by (simp_all add: wrap32_def)

definition DIV_ROUND_UP :: "nat \<Rightarrow> nat \<Rightarrow> nat" where
  "DIV_ROUND_UP x step = (x + step - 1) div step"

definition ROUND_UP :: "nat \<Rightarrow> nat \<Rightarrow> nat" where
  "ROUND_UP x step = (x + step - 1) div step * step"

lemma DIV_ROUND_UP_bounds:
  assumes "0 < step"
  shows "x \<le> DIV_ROUND_UP x step * step" and "DIV_ROUND_UP x step * step < x + step"
proof -
  let ?y = "x + step - 1"
  have eq: "?y div step * step + ?y mod step = ?y"
    by (rule div_mult_mod_eq)
  have lt: "?y mod step < step"
    using assms by simp
  show "x \<le> DIV_ROUND_UP x step * step"
    using assms eq lt unfolding DIV_ROUND_UP_def by linarith
  show "DIV_ROUND_UP x step * step < x + step"
    using assms eq unfolding DIV_ROUND_UP_def by linarith
qed

section \<open>Blocks of a list\<close>

text \<open>\<open>overlay xs p ys\<close> puts \<open>ys\<close> over the elements of \<open>xs\<close> from position \<open>p\<close> on; \<open>chunk\<close> reads a block.\<close>

definition overlay :: "'a list \<Rightarrow> nat \<Rightarrow> 'a list \<Rightarrow> 'a list" where
  "overlay xs p ys = take p xs @ ys @ drop (p + length ys) xs"

definition chunk :: "'a list \<Rightarrow> nat \<Rightarrow> nat \<Rightarrow> 'a list" where
  "chunk xs p n = take n (drop p xs)"

lemma length_overlay [simp]: "p + length ys \<le> length xs \<Longrightarrow> length (overlay xs p ys) = length xs"
  by (simp add: overlay_def)

lemma nth_overlay:
  "p + length ys \<le> length xs \<Longrightarrow> i < length xs \<Longrightarrow>
   overlay xs p ys ! i = (if p \<le> i \<and> i < p + length ys then ys ! (i - p) else xs ! i)"
  by (auto simp: overlay_def nth_append min_def)

lemma overlay_Nil [simp]: "overlay xs p [] = xs"
  by (simp add: overlay_def)

lemma length_chunk [simp]: "p + n \<le> length xs \<Longrightarrow> length (chunk xs p n) = n"
  by (simp add: chunk_def)

lemma nth_chunk: "p + n \<le> length xs \<Longrightarrow> i < n \<Longrightarrow> chunk xs p n ! i = xs ! (p + i)"
  by (simp add: chunk_def)

lemma chunk_0 [simp]: "chunk xs p 0 = []"
  by (simp add: chunk_def)

lemma chunk_overlay_same [simp]: "p + length ys \<le> length xs \<Longrightarrow> chunk (overlay xs p ys) p (length ys) = ys"
  by (simp add: chunk_def overlay_def)

lemma chunk_overlay_other:
  "p + length ys \<le> length xs \<Longrightarrow> q + n \<le> length xs \<Longrightarrow> q + n \<le> p \<or> p + length ys \<le> q \<Longrightarrow>
   chunk (overlay xs p ys) q n = chunk xs q n"
  by (rule nth_equalityI) (auto simp: nth_chunk nth_overlay)

lemma overlay_chunk_same [simp]: "p + n \<le> length xs \<Longrightarrow> overlay xs p (chunk xs p n) = xs"
  by (rule nth_equalityI) (auto simp: nth_overlay nth_chunk)

lemma drop_chunk_Cons: "p < length xs \<Longrightarrow> chunk xs p (Suc n) = xs ! p # chunk xs (Suc p) n"
  by (simp add: chunk_def Cons_nth_drop_Suc [symmetric])

lemma chunk_append: "chunk xs p m @ chunk xs (p + m) n = chunk xs p (m + n)"
  by (simp add: chunk_def take_add add.commute drop_drop [symmetric] del: drop_drop)

lemma chunk_chunk: "q + n \<le> m \<Longrightarrow> chunk (chunk xs p m) q n = chunk xs (p + q) n"
  by (simp add: chunk_def drop_take min_absorb1 add.commute)

lemma overlay_append:
  "p + length ys + length zs \<le> length xs \<Longrightarrow>
   overlay (overlay xs p ys) (p + length ys) zs = overlay xs p (ys @ zs)"
  by (rule nth_equalityI) (auto simp: nth_overlay nth_append)

lemma overlay_inside:
  "q + length ys \<le> n \<Longrightarrow> p + n \<le> length xs \<Longrightarrow>
   overlay xs p (overlay (chunk xs p n) q ys) = overlay xs (p + q) ys"
  by (rule nth_equalityI) (auto simp: nth_overlay nth_chunk)

lemma chunk_overlay_inside:
  "p \<le> q \<Longrightarrow> q + length ys \<le> p + n \<Longrightarrow> p + n \<le> length xs \<Longrightarrow>
   chunk (overlay xs q ys) p n = overlay (chunk xs p n) (q - p) ys"
  by (rule nth_equalityI) (auto simp: nth_overlay nth_chunk add.commute)

end
