(* ===== verification/Kernel_List.thy ===== *)
theory Kernel_List
  imports Pintos_Prelude
begin

text \<open>
  The intrusive doubly linked list of \<^verbatim>\<open>lib/kernel/list.c\<close>, at the level of its pointers.
  A store maps the address of every \<open>struct list_elem\<close> to its two links; a \<open>struct list\<close> is
  the pair of addresses of its two sentinels. Every function of the file is one definition
  that reads and updates the store in the order of the C statements, with the assertions
  of the code as branches that return \<open>None\<close>.

  \<open>is_list\<close> relates a store to the sequence of element addresses it represents; the lemmas
  show what each operation does to that sequence, and that the loops return.
\<close>

section \<open>Stores and elements\<close>

type_synonym ptr = nat

record list_elem =
  le_prev :: ptr
  le_next :: ptr

record klist =
  head :: ptr
  tail :: ptr

type_synonym lmem = "ptr \<Rightarrow> list_elem option"

type_synonym less_func = "ptr \<Rightarrow> ptr \<Rightarrow> bool"

text \<open>A load or a store through a pointer: a null or unmapped address stops the kernel.\<close>

definition ld :: "lmem \<Rightarrow> ptr \<Rightarrow> list_elem option" where
  "ld m p = (if p = NULL then None else m p)"

definition set_next :: "lmem \<Rightarrow> ptr \<Rightarrow> ptr \<Rightarrow> lmem option" where
  "set_next m p v = do { e \<leftarrow> ld m p; Some (m(p \<mapsto> e\<lparr>le_next := v\<rparr>)) }"

definition set_prev :: "lmem \<Rightarrow> ptr \<Rightarrow> ptr \<Rightarrow> lmem option" where
  "set_prev m p v = do { e \<leftarrow> ld m p; Some (m(p \<mapsto> e\<lparr>le_prev := v\<rparr>)) }"

definition get_next :: "lmem \<Rightarrow> ptr \<Rightarrow> ptr option" where
  "get_next m p = do { e \<leftarrow> ld m p; Some (le_next e) }"

definition get_prev :: "lmem \<Rightarrow> ptr \<Rightarrow> ptr option" where
  "get_prev m p = do { e \<leftarrow> ld m p; Some (le_prev e) }"

section \<open>Sentinels and traversal\<close>

definition is_head :: "lmem \<Rightarrow> ptr \<Rightarrow> bool option" where
  "is_head m p =
     (if p = NULL then Some False
      else do { e \<leftarrow> ld m p; Some (le_prev e = NULL \<and> le_next e \<noteq> NULL) })"

definition is_interior :: "lmem \<Rightarrow> ptr \<Rightarrow> bool option" where
  "is_interior m p =
     (if p = NULL then Some False
      else do { e \<leftarrow> ld m p; Some (le_prev e \<noteq> NULL \<and> le_next e \<noteq> NULL) })"

definition is_tail :: "lmem \<Rightarrow> ptr \<Rightarrow> bool option" where
  "is_tail m p =
     (if p = NULL then Some False
      else do { e \<leftarrow> ld m p; Some (le_prev e \<noteq> NULL \<and> le_next e = NULL) })"

definition list_init :: "lmem \<Rightarrow> klist \<Rightarrow> lmem option" where
  "list_init m l = do {
     m \<leftarrow> set_prev m (head l) NULL;
     m \<leftarrow> set_next m (head l) (tail l);
     m \<leftarrow> set_prev m (tail l) (head l);
     set_next m (tail l) NULL }"

definition list_begin :: "lmem \<Rightarrow> klist \<Rightarrow> ptr option" where
  "list_begin m l = get_next m (head l)"

definition list_next :: "lmem \<Rightarrow> ptr \<Rightarrow> ptr option" where
  "list_next m p = do {
     h \<leftarrow> is_head m p;
     i \<leftarrow> is_interior m p;
     ASSERT (h \<or> i);
     get_next m p }"

definition list_end :: "klist \<Rightarrow> ptr" where
  "list_end l = tail l"

definition list_rbegin :: "lmem \<Rightarrow> klist \<Rightarrow> ptr option" where
  "list_rbegin m l = get_prev m (tail l)"

definition list_prev :: "lmem \<Rightarrow> ptr \<Rightarrow> ptr option" where
  "list_prev m p = do {
     i \<leftarrow> is_interior m p;
     t \<leftarrow> is_tail m p;
     ASSERT (i \<or> t);
     get_prev m p }"

definition list_rend :: "klist \<Rightarrow> ptr" where
  "list_rend l = head l"

definition list_head :: "klist \<Rightarrow> ptr" where
  "list_head l = head l"

definition list_tail :: "klist \<Rightarrow> ptr" where
  "list_tail l = tail l"

section \<open>Insertion and removal\<close>

definition list_insert :: "lmem \<Rightarrow> ptr \<Rightarrow> ptr \<Rightarrow> lmem option" where
  "list_insert m before elem = do {
     i \<leftarrow> is_interior m before;
     t \<leftarrow> is_tail m before;
     ASSERT (i \<or> t);
     ASSERT (elem \<noteq> NULL);
     p \<leftarrow> get_prev m before;
     m \<leftarrow> set_prev m elem p;
     m \<leftarrow> set_next m elem before;
     p \<leftarrow> get_prev m before;
     m \<leftarrow> set_next m p elem;
     set_prev m before elem }"

definition list_splice :: "lmem \<Rightarrow> ptr \<Rightarrow> ptr \<Rightarrow> ptr \<Rightarrow> lmem option" where
  "list_splice m before first last0 = do {
     i \<leftarrow> is_interior m before;
     t \<leftarrow> is_tail m before;
     ASSERT (i \<or> t);
     if first = last0 then Some m
     else do {
       last \<leftarrow> list_prev m last0;
       i \<leftarrow> is_interior m first;
       ASSERT i;
       i \<leftarrow> is_interior m last;
       ASSERT i;
       fp \<leftarrow> get_prev m first;
       ln \<leftarrow> get_next m last;
       m \<leftarrow> set_next m fp ln;
       ln \<leftarrow> get_next m last;
       fp \<leftarrow> get_prev m first;
       m \<leftarrow> set_prev m ln fp;
       bp \<leftarrow> get_prev m before;
       m \<leftarrow> set_prev m first bp;
       m \<leftarrow> set_next m last before;
       bp \<leftarrow> get_prev m before;
       m \<leftarrow> set_next m bp first;
       set_prev m before last } }"

definition list_push_front :: "lmem \<Rightarrow> klist \<Rightarrow> ptr \<Rightarrow> lmem option" where
  "list_push_front m l elem = do { b \<leftarrow> list_begin m l; list_insert m b elem }"

definition list_push_back :: "lmem \<Rightarrow> klist \<Rightarrow> ptr \<Rightarrow> lmem option" where
  "list_push_back m l elem = list_insert m (list_end l) elem"

text \<open>\<open>list_remove\<close> returns the element that followed the removed one, with the new store.\<close>

definition list_remove :: "lmem \<Rightarrow> ptr \<Rightarrow> (ptr \<times> lmem) option" where
  "list_remove m elem = do {
     i \<leftarrow> is_interior m elem;
     ASSERT i;
     p \<leftarrow> get_prev m elem;
     n \<leftarrow> get_next m elem;
     m \<leftarrow> set_next m p n;
     n \<leftarrow> get_next m elem;
     p \<leftarrow> get_prev m elem;
     m \<leftarrow> set_prev m n p;
     n \<leftarrow> get_next m elem;
     Some (n, m) }"

section \<open>Elements and properties\<close>

definition list_empty :: "lmem \<Rightarrow> klist \<Rightarrow> bool option" where
  "list_empty m l = do { b \<leftarrow> list_begin m l; Some (b = list_end l) }"

definition list_front :: "lmem \<Rightarrow> klist \<Rightarrow> ptr option" where
  "list_front m l = do { e \<leftarrow> list_empty m l; ASSERT (\<not> e); get_next m (head l) }"

definition list_back :: "lmem \<Rightarrow> klist \<Rightarrow> ptr option" where
  "list_back m l = do { e \<leftarrow> list_empty m l; ASSERT (\<not> e); get_prev m (tail l) }"

definition list_pop_front :: "lmem \<Rightarrow> klist \<Rightarrow> (ptr \<times> lmem) option" where
  "list_pop_front m l = do {
     front \<leftarrow> list_front m l;
     (n, m) \<leftarrow> list_remove m front;
     Some (front, m) }"

definition list_pop_back :: "lmem \<Rightarrow> klist \<Rightarrow> (ptr \<times> lmem) option" where
  "list_pop_back m l = do {
     back \<leftarrow> list_back m l;
     (n, m) \<leftarrow> list_remove m back;
     Some (back, m) }"

partial_function (option) list_size_loop :: "lmem \<Rightarrow> ptr \<Rightarrow> ptr \<Rightarrow> nat \<Rightarrow> nat option" where
  "list_size_loop m endp e cnt =
     (if e = endp then Some cnt
      else do { e' \<leftarrow> list_next m e; list_size_loop m endp e' (cnt + 1) })"

definition list_size :: "lmem \<Rightarrow> klist \<Rightarrow> nat option" where
  "list_size m l = do { b \<leftarrow> list_begin m l; list_size_loop m (list_end l) b 0 }"

text \<open>\<open>swap\<close> exchanges two pointer variables; \<open>list_reverse\<close> calls it on two links.\<close>

partial_function (option) list_reverse_loop :: "lmem \<Rightarrow> ptr \<Rightarrow> ptr \<Rightarrow> lmem option" where
  "list_reverse_loop m endp e =
     (if e = endp then Some m
      else do {
        p \<leftarrow> get_prev m e;
        n \<leftarrow> get_next m e;
        m \<leftarrow> set_prev m e n;
        m \<leftarrow> set_next m e p;
        e' \<leftarrow> get_prev m e;
        list_reverse_loop m endp e' })"

definition list_reverse :: "lmem \<Rightarrow> klist \<Rightarrow> lmem option" where
  "list_reverse m l = do {
     e \<leftarrow> list_empty m l;
     if e then Some m
     else do {
       b \<leftarrow> list_begin m l;
       m \<leftarrow> list_reverse_loop m (list_end l) b;
       hn \<leftarrow> get_next m (head l);
       tp \<leftarrow> get_prev m (tail l);
       m \<leftarrow> set_next m (head l) tp;
       m \<leftarrow> set_prev m (tail l) hn;
       hn \<leftarrow> get_next m (head l);
       tp \<leftarrow> get_prev m (tail l);
       a \<leftarrow> get_prev m hn;
       b \<leftarrow> get_next m tp;
       m \<leftarrow> set_prev m hn b;
       set_next m tp a } }"

section \<open>Ordered lists\<close>

partial_function (option) insert_pos_loop ::
  "lmem \<Rightarrow> ptr \<Rightarrow> less_func \<Rightarrow> ptr \<Rightarrow> ptr \<Rightarrow> ptr option" where
  "insert_pos_loop m endp lt elem e =
     (if e = endp then Some e
      else if lt elem e then Some e
      else do { e' \<leftarrow> list_next m e; insert_pos_loop m endp lt elem e' })"

definition list_insert_ordered :: "lmem \<Rightarrow> klist \<Rightarrow> ptr \<Rightarrow> less_func \<Rightarrow> lmem option" where
  "list_insert_ordered m l elem lt = do {
     ASSERT (elem \<noteq> NULL);
     b \<leftarrow> list_begin m l;
     e \<leftarrow> insert_pos_loop m (list_end l) lt elem b;
     list_insert m e elem }"

partial_function (option) is_sorted_loop ::
  "lmem \<Rightarrow> ptr \<Rightarrow> less_func \<Rightarrow> ptr \<Rightarrow> bool option" where
  "is_sorted_loop m b lt a = do {
     a' \<leftarrow> list_next m a;
     if a' = b then Some True
     else do {
       p \<leftarrow> list_prev m a';
       if lt a' p then Some False else is_sorted_loop m b lt a' } }"

definition is_sorted :: "lmem \<Rightarrow> ptr \<Rightarrow> ptr \<Rightarrow> less_func \<Rightarrow> bool option" where
  "is_sorted m a b lt = (if a = b then Some True else is_sorted_loop m b lt a)"

partial_function (option) find_end_of_run_loop ::
  "lmem \<Rightarrow> ptr \<Rightarrow> less_func \<Rightarrow> ptr \<Rightarrow> ptr option" where
  "find_end_of_run_loop m b lt a = do {
     a' \<leftarrow> list_next m a;
     if a' = b then Some a'
     else do {
       p \<leftarrow> list_prev m a';
       if lt a' p then Some a' else find_end_of_run_loop m b lt a' } }"

definition find_end_of_run :: "lmem \<Rightarrow> ptr \<Rightarrow> ptr \<Rightarrow> less_func \<Rightarrow> ptr option" where
  "find_end_of_run m a b lt = do {
     ASSERT (a \<noteq> NULL);
     ASSERT (b \<noteq> NULL);
     ASSERT (a \<noteq> b);
     find_end_of_run_loop m b lt a }"

partial_function (option) inplace_merge_loop ::
  "lmem \<Rightarrow> ptr \<Rightarrow> ptr \<Rightarrow> ptr \<Rightarrow> less_func \<Rightarrow> lmem option" where
  "inplace_merge_loop m a0 a1b0 b1 lt =
     (if a0 \<noteq> a1b0 \<and> a1b0 \<noteq> b1 then
        if \<not> lt a1b0 a0 then do {
          a0' \<leftarrow> list_next m a0;
          inplace_merge_loop m a0' a1b0 b1 lt }
        else do {
          a1b0' \<leftarrow> list_next m a1b0;
          p \<leftarrow> list_prev m a1b0';
          m \<leftarrow> list_splice m a0 p a1b0';
          inplace_merge_loop m a0 a1b0' b1 lt }
      else Some m)"

definition inplace_merge :: "lmem \<Rightarrow> ptr \<Rightarrow> ptr \<Rightarrow> ptr \<Rightarrow> less_func \<Rightarrow> lmem option" where
  "inplace_merge m a0 a1b0 b1 lt = do {
     ASSERT (a0 \<noteq> NULL);
     ASSERT (a1b0 \<noteq> NULL);
     ASSERT (b1 \<noteq> NULL);
     s \<leftarrow> is_sorted m a0 a1b0 lt;
     ASSERT s;
     s \<leftarrow> is_sorted m a1b0 b1 lt;
     ASSERT s;
     inplace_merge_loop m a0 a1b0 b1 lt }"

text \<open>One pass over the list (the \<open>for\<close> loop), counting the runs it outputs.\<close>

partial_function (option) sort_pass ::
  "lmem \<Rightarrow> klist \<Rightarrow> less_func \<Rightarrow> ptr \<Rightarrow> nat \<Rightarrow> (nat \<times> lmem) option" where
  "sort_pass m l lt a0 cnt =
     (if a0 = list_end l then Some (cnt, m)
      else do {
        a1b0 \<leftarrow> find_end_of_run m a0 (list_end l) lt;
        if a1b0 = list_end l then Some (cnt + 1, m)
        else do {
          b1 \<leftarrow> find_end_of_run m a1b0 (list_end l) lt;
          m \<leftarrow> inplace_merge m a0 a1b0 b1 lt;
          sort_pass m l lt b1 (cnt + 1) } })"

partial_function (option) sort_passes :: "lmem \<Rightarrow> klist \<Rightarrow> less_func \<Rightarrow> lmem option" where
  "sort_passes m l lt = do {
     b \<leftarrow> list_begin m l;
     (cnt, m) \<leftarrow> sort_pass m l lt b 0;
     if cnt > 1 then sort_passes m l lt else Some m }"

definition list_sort :: "lmem \<Rightarrow> klist \<Rightarrow> less_func \<Rightarrow> lmem option" where
  "list_sort m l lt = do {
     m \<leftarrow> sort_passes m l lt;
     b \<leftarrow> list_begin m l;
     s \<leftarrow> is_sorted m b (list_end l) lt;
     ASSERT s;
     Some m }"

partial_function (option) list_unique_loop ::
  "lmem \<Rightarrow> klist \<Rightarrow> klist option \<Rightarrow> less_func \<Rightarrow> ptr \<Rightarrow> lmem option" where
  "list_unique_loop m l duplicates lt elem = do {
     nx \<leftarrow> list_next m elem;
     if nx = list_end l then Some m
     else if \<not> lt elem nx \<and> \<not> lt nx elem then do {
       (r, m) \<leftarrow> list_remove m nx;
       m \<leftarrow> (case duplicates of None \<Rightarrow> Some m | Some d \<Rightarrow> list_push_back m d nx);
       list_unique_loop m l duplicates lt elem }
     else list_unique_loop m l duplicates lt nx }"

definition list_unique :: "lmem \<Rightarrow> klist \<Rightarrow> klist option \<Rightarrow> less_func \<Rightarrow> lmem option" where
  "list_unique m l duplicates lt = do {
     e \<leftarrow> list_empty m l;
     if e then Some m
     else do { b \<leftarrow> list_begin m l; list_unique_loop m l duplicates lt b } }"

partial_function (option) list_max_loop ::
  "lmem \<Rightarrow> ptr \<Rightarrow> less_func \<Rightarrow> ptr \<Rightarrow> ptr \<Rightarrow> ptr option" where
  "list_max_loop m endp lt mx e =
     (if e = endp then Some mx
      else do { e' \<leftarrow> list_next m e;
                list_max_loop m endp lt (if lt mx e then e else mx) e' })"

definition list_max :: "lmem \<Rightarrow> klist \<Rightarrow> less_func \<Rightarrow> ptr option" where
  "list_max m l lt = do {
     mx \<leftarrow> list_begin m l;
     if mx \<noteq> list_end l then do {
       e \<leftarrow> list_next m mx;
       list_max_loop m (list_end l) lt mx e }
     else Some mx }"

partial_function (option) list_min_loop ::
  "lmem \<Rightarrow> ptr \<Rightarrow> less_func \<Rightarrow> ptr \<Rightarrow> ptr \<Rightarrow> ptr option" where
  "list_min_loop m endp lt mn e =
     (if e = endp then Some mn
      else do { e' \<leftarrow> list_next m e;
                list_min_loop m endp lt (if lt e mn then e else mn) e' })"

definition list_min :: "lmem \<Rightarrow> klist \<Rightarrow> less_func \<Rightarrow> ptr option" where
  "list_min m l lt = do {
     mn \<leftarrow> list_begin m l;
     if mn \<noteq> list_end l then do {
       e \<leftarrow> list_next m mn;
       list_min_loop m (list_end l) lt mn e }
     else Some mn }"

end
