(* ===== verification/Merge_Runs.thy ===== *)
theory Merge_Runs
  imports Pintos_Prelude
begin

text \<open>
  The natural merge sort that \<open>list_sort\<close> of \<^verbatim>\<open>lib/kernel/list.c\<close> performs, as functions on
  sequences: the run at the front of a sequence, the merge of two runs, one pass that merges
  runs pairwise and counts the runs it outputs. For a comparison that is given by a key into
  a linear order, passes are stable and at least halve the number of runs, so repeating
  them ends in the stable sort of the sequence.
\<close>

section \<open>Runs, merges and passes\<close>

text \<open>Consecutive elements in order: what \<open>is_sorted\<close> tests.\<close>

fun consec :: "('a \<Rightarrow> 'a \<Rightarrow> bool) \<Rightarrow> 'a list \<Rightarrow> bool" where
  "consec lt (x # y # xs) \<longleftrightarrow> \<not> lt y x \<and> consec lt (y # xs)"
| "consec lt _ \<longleftrightarrow> True"

fun run_split :: "('a \<Rightarrow> 'a \<Rightarrow> bool) \<Rightarrow> 'a list \<Rightarrow> 'a list \<times> 'a list" where
  "run_split lt (x # y # xs) =
     (if lt y x then ([x], y # xs)
      else (x # fst (run_split lt (y # xs)), snd (run_split lt (y # xs))))"
| "run_split lt xs = (xs, [])"

fun merge :: "('a \<Rightarrow> 'a \<Rightarrow> bool) \<Rightarrow> 'a list \<Rightarrow> 'a list \<Rightarrow> 'a list" where
  "merge lt [] bs = bs"
| "merge lt as [] = as"
| "merge lt (a # as) (b # bs) =
     (if \<not> lt b a then a # merge lt as (b # bs) else b # merge lt (a # as) bs)"

lemma run_split_append: "fst (run_split lt xs) @ snd (run_split lt xs) = xs"
  by (induction lt xs rule: run_split.induct) auto

lemma run_split_nonempty: "xs \<noteq> [] \<Longrightarrow> fst (run_split lt xs) \<noteq> []"
  by (cases "(lt, xs)" rule: run_split.cases) auto

lemma run_split_length: "xs \<noteq> [] \<Longrightarrow> length (snd (run_split lt xs)) < length xs"
  using run_split_append [of lt xs] run_split_nonempty [of xs lt]
  by (metis length_append length_greater_0_conv less_add_same_cancel2)

lemma run_split_consec: "consec lt (fst (run_split lt xs))"
proof (induction lt xs rule: run_split.induct)
  case (1 lt x y xs)
  show ?case
  proof (cases "lt y x")
    case False
    obtain r rs where "fst (run_split lt (y # xs)) = r # rs" and "r = y"
      using run_split_append [of lt "y # xs"] run_split_nonempty [of "y # xs" lt]
      by (cases "fst (run_split lt (y # xs))") auto
    then show ?thesis using 1 False by simp
  qed simp
qed auto

function run_pass :: "('a \<Rightarrow> 'a \<Rightarrow> bool) \<Rightarrow> 'a list \<Rightarrow> nat \<times> 'a list" where
  "run_pass lt xs =
     (if xs = [] then (0, [])
      else let r1 = fst (run_split lt xs); rest = snd (run_split lt xs)
           in if rest = [] then (1, xs)
              else let r2 = fst (run_split lt rest);
                       p = run_pass lt (snd (run_split lt rest))
                   in (fst p + 1, merge lt r1 r2 @ snd p))"
  by pat_completeness auto
termination
proof (relation "measure (\<lambda>(lt, xs). length xs)", goal_cases)
  case (2 lt xs r1 rest r2)
  then have "length rest < length xs" "length (snd (run_split lt rest)) < length rest"
    using run_split_length by blast+
  with 2 show ?case by simp
qed simp

declare run_pass.simps [simp del]

lemma set_merge: "set (merge lt as bs) = set as \<union> set bs"
  by (induction lt as bs rule: merge.induct) auto

lemma mset_merge: "mset (merge lt as bs) = mset as + mset bs"
  by (induction lt as bs rule: merge.induct) auto

lemma mset_run_pass: "mset (snd (run_pass lt xs)) = mset xs"
proof (induction lt xs rule: run_pass.induct)
  case (1 lt xs)
  let ?rest = "snd (run_split lt xs)"
  show ?case
  proof (cases "xs = [] \<or> ?rest = []")
    case True
    then show ?thesis by (auto simp: run_pass.simps [of lt xs] Let_def)
  next
    case False
    then have "mset (snd (run_pass lt xs))
        = mset (fst (run_split lt xs)) + (mset (fst (run_split lt ?rest)) + mset (snd (run_split lt ?rest)))"
      using 1 by (simp add: run_pass.simps [of lt xs] Let_def mset_merge)
    then show ?thesis
      by (metis mset_append run_split_append)
  qed
qed

text \<open>The number of places where the order is broken; a non-empty sequence has one run more.\<close>

fun descents :: "('a \<Rightarrow> 'a \<Rightarrow> bool) \<Rightarrow> 'a list \<Rightarrow> nat" where
  "descents lt (x # y # xs) = (if lt y x then 1 else 0) + descents lt (y # xs)"
| "descents lt _ = 0"

lemma descents_0: "descents lt xs = 0 \<longleftrightarrow> consec lt xs"
  by (induction lt xs rule: descents.induct) auto

lemma descents_consec [simp]: "consec lt xs \<Longrightarrow> descents lt xs = 0"
  by (simp add: descents_0)

lemma descents_append_le: "descents lt (xs @ ys) \<le> descents lt xs + descents lt ys + 1"
proof (induction xs rule: induct_list012)
  case (2 x)
  then show ?case by (cases ys) auto
qed auto

lemma descents_run_split:
  "snd (run_split lt xs) \<noteq> [] \<Longrightarrow> descents lt xs = Suc (descents lt (snd (run_split lt xs)))"
proof (induction lt xs rule: run_split.induct)
  case (1 lt x y xs)
  then show ?case by (cases "lt y x") (auto simp: run_split_nonempty)
qed auto

lemma consec_run_split: "snd (run_split lt xs) = [] \<Longrightarrow> consec lt xs"
  by (induction lt xs rule: run_split.induct) (auto split: if_splits)

lemma run_pass_count: "xs \<noteq> [] \<Longrightarrow> 2 * fst (run_pass lt xs) \<le> descents lt xs + 2"
proof (induction lt xs rule: run_pass.induct)
  case (1 lt xs)
  let ?rest = "snd (run_split lt xs)" and ?rest2 = "snd (run_split lt (snd (run_split lt xs)))"
  show ?case
  proof (cases "?rest = []")
    case True
    then show ?thesis using "1.prems" by (simp add: run_pass.simps [of lt xs])
  next
    case False
    then have d: "descents lt xs = Suc (descents lt ?rest)"
      by (rule descents_run_split)
    show ?thesis
    proof (cases "?rest2 = []")
      case True
      then show ?thesis using False "1.prems" d
        by (simp add: run_pass.simps [of lt xs] run_pass.simps [of lt "[]"] Let_def)
    next
      case r2: False
      then have "descents lt ?rest = Suc (descents lt ?rest2)"
        by (rule descents_run_split)
      moreover have "2 * fst (run_pass lt ?rest2) \<le> descents lt ?rest2 + 2"
        using 1 False r2 by simp
      ultimately show ?thesis using False "1.prems" d
        by (simp add: run_pass.simps [of lt xs] Let_def)
    qed
  qed
qed

lemma run_pass_pos: "xs \<noteq> [] \<Longrightarrow> 0 < fst (run_pass lt xs)"
  by (simp add: run_pass.simps [of lt xs] Let_def)

section \<open>Ordered insertion\<close>

definition insert_ordered :: "('a \<Rightarrow> 'a \<Rightarrow> bool) \<Rightarrow> 'a \<Rightarrow> 'a list \<Rightarrow> 'a list" where
  "insert_ordered lt x xs =
     takeWhile (\<lambda>e. \<not> lt x e) xs @ x # dropWhile (\<lambda>e. \<not> lt x e) xs"

lemma insert_ordered_simps [simp]:
  "insert_ordered lt x [] = [x]"
  "insert_ordered lt x (y # ys) = (if lt x y then x # y # ys else y # insert_ordered lt x ys)"
  by (simp_all add: insert_ordered_def)

lemma set_insert_ordered [simp]: "set (insert_ordered lt x xs) = insert x (set xs)"
  by (induction xs) auto

lemma mset_insert_ordered [simp]: "mset (insert_ordered lt x xs) = add_mset x (mset xs)"
  by (induction xs) auto

lemma insert_ordered_not_Nil [simp]: "insert_ordered lt x xs \<noteq> []"
  by (simp add: insert_ordered_def)

lemma length_insert_ordered [simp]: "length (insert_ordered lt x xs) = Suc (length xs)"
  by (induction xs) auto

lemma distinct_insert_ordered [simp]:
  "distinct (insert_ordered lt x xs) \<longleftrightarrow> x \<notin> set xs \<and> distinct xs"
  by (induction xs) auto

section \<open>Comparisons given by a key\<close>

text \<open>
  The contract a comparison function of \<^verbatim>\<open>list.h\<close> must meet for ordered lists: it compares a
  key of the elements in a linear order.
\<close>

locale keyed_less =
  fixes lt :: "'a \<Rightarrow> 'a \<Rightarrow> bool" and key :: "'a \<Rightarrow> 'k::linorder"
  assumes lt_key: "lt x y \<longleftrightarrow> key x < key y"
begin

lemma consec_sorted: "consec lt xs \<longleftrightarrow> sorted (map key xs)"
  by (induction xs rule: induct_list012) (auto simp: lt_key not_less dest: order_trans)

lemma sorted_merge:
  "sorted (map key as) \<Longrightarrow> sorted (map key bs) \<Longrightarrow> sorted (map key (merge lt as bs))"
proof (induction lt' \<equiv> lt as bs rule: merge.induct)
  case (3 a as b bs)
  then show ?case by (auto simp: lt_key set_merge not_less dest: order_trans)
qed auto

lemma filter_merge:
  "sorted (map key as) \<Longrightarrow> sorted (map key bs) \<Longrightarrow>
   filter (\<lambda>x. key x = k) (merge lt as bs) = filter (\<lambda>x. key x = k) (as @ bs)"
proof (induction lt' \<equiv> lt as bs rule: merge.induct)
  case (3 a as b bs)
  show ?case
  proof (cases "lt b a")
    case False
    with 3 show ?thesis by simp
  next
    case True
    then have "\<forall>x \<in> set (a # as). key b < key x"
      using 3 by (auto simp: lt_key)
    then have "key b = k \<Longrightarrow> filter (\<lambda>x. key x = k) (a # as) = []"
      by (auto simp: filter_empty_conv)
    with 3 True show ?thesis by auto
  qed
qed auto

lemma sorted_run_split: "sorted (map key (fst (run_split lt xs)))"
  using run_split_consec [of lt xs] by (simp add: consec_sorted)

lemma run_pass_descents:
  "xs \<noteq> [] \<Longrightarrow> descents lt (snd (run_pass lt xs)) < fst (run_pass lt xs)"
proof (induction lt' \<equiv> lt xs rule: run_pass.induct)
  case (1 xs)
  let ?r1 = "fst (run_split lt xs)" and ?rest = "snd (run_split lt xs)"
  let ?r2 = "fst (run_split lt ?rest)" and ?rest2 = "snd (run_split lt ?rest)"
  show ?case
  proof (cases "?rest = []")
    case True
    then have "descents lt xs = 0" by (simp add: consec_run_split)
    with True "1.prems" show ?thesis by (simp add: run_pass.simps [of lt xs])
  next
    case False
    have "consec lt (merge lt ?r1 ?r2)"
      by (simp add: consec_sorted sorted_merge sorted_run_split)
    then have m0: "descents lt (merge lt ?r1 ?r2) = 0" by simp
    show ?thesis
    proof (cases "?rest2 = []")
      case True
      with False "1.prems" m0 show ?thesis
        by (simp add: run_pass.simps [of lt xs] run_pass.simps [of lt "[]"] Let_def)
    next
      case r2: False
      have "descents lt (snd (run_pass lt ?rest2)) < fst (run_pass lt ?rest2)"
        using 1 False r2 by simp
      with False "1.prems" m0 descents_append_le [of lt "merge lt ?r1 ?r2" "snd (run_pass lt ?rest2)"]
      show ?thesis by (simp add: run_pass.simps [of lt xs] Let_def)
    qed
  qed
qed

lemma run_pass_decreases:
  assumes "1 < fst (run_pass lt xs)"
  shows "descents lt (snd (run_pass lt xs)) < descents lt xs"
proof -
  have ne: "xs \<noteq> []" using assms by (auto simp: run_pass.simps [of lt "[]"])
  show ?thesis
    using run_pass_descents [OF ne] run_pass_count [OF ne, of lt] assms by linarith
qed

lemma filter_run_pass:
  "filter (\<lambda>x. key x = k) (snd (run_pass lt xs)) = filter (\<lambda>x. key x = k) xs"
proof (induction lt' \<equiv> lt xs rule: run_pass.induct)
  case (1 xs)
  let ?r1 = "fst (run_split lt xs)" and ?rest = "snd (run_split lt xs)"
  let ?r2 = "fst (run_split lt ?rest)" and ?rest2 = "snd (run_split lt ?rest)"
  show ?case
  proof (cases "xs = [] \<or> ?rest = []")
    case True
    then show ?thesis by (auto simp: run_pass.simps [of lt xs] Let_def)
  next
    case False
    have split: "?r1 @ ?r2 @ ?rest2 = xs"
      by (simp add: run_split_append)
    have "filter (\<lambda>x. key x = k) (snd (run_pass lt xs)) = filter (\<lambda>x. key x = k) (?r1 @ ?r2 @ ?rest2)"
      using 1 False
      by (simp add: run_pass.simps [of lt xs] Let_def filter_merge sorted_run_split)
    then show ?thesis by (simp only: split)
  qed
qed

lemma key_flip: "filter (\<lambda>x. k = key x) xs = filter (\<lambda>x. key x = k) xs"
  by (rule filter_cong) auto

lemma sort_key_run_pass: "sort_key key (snd (run_pass lt xs)) = sort_key key xs"
  by (intro properties_for_sort_key)
     (simp_all add: mset_run_pass filter_run_pass key_flip sort_key_stable)

text \<open>The last pass leaves a sorted sequence: it is the stable sort.\<close>

lemma run_pass_final:
  assumes "fst (run_pass lt xs) \<le> 1"
  shows "snd (run_pass lt xs) = sort_key key xs"
proof -
  have "sorted (map key (snd (run_pass lt xs)))"
  proof (cases "xs = []")
    case False
    with run_pass_descents [of xs] assms have "descents lt (snd (run_pass lt xs)) = 0" by linarith
    then show ?thesis by (simp add: consec_sorted descents_0)
  qed (simp add: run_pass.simps [of lt "[]"])
  then show ?thesis
    by (intro properties_for_sort_key [symmetric]) (simp_all add: mset_run_pass filter_run_pass key_flip)
qed

lemma sorted_insert_ordered:
  "sorted (map key (insert_ordered lt x xs)) \<longleftrightarrow> sorted (map key xs)"
  by (induction xs) (auto simp: lt_key)

lemma filter_insert_ordered:
  "sorted (map key ys) \<Longrightarrow>
   filter (\<lambda>y. key y = k) (insert_ordered lt x ys) = filter (\<lambda>y. key y = k) (ys @ [x])"
proof (induction ys)
  case (Cons y ys)
  show ?case
  proof (cases "lt x y")
    case True
    then have "key x = k \<Longrightarrow> filter (\<lambda>z. key z = k) (y # ys) = []"
      using Cons.prems by (auto simp: filter_empty_conv lt_key)
    then show ?thesis using True by (cases "key x = k") auto
  next
    case False
    then show ?thesis using Cons by simp
  qed
qed simp

lemma insert_ordered_sort_key: "insert_ordered lt x (sort_key key xs) = sort_key key (xs @ [x])"
  by (intro properties_for_sort_key [symmetric])
     (simp_all add: sorted_insert_ordered filter_insert_ordered sort_key_stable key_flip)

end

end
