(* ===== verification/List_Refinement.thy ===== *)
theory List_Refinement
  imports Kernel_List Merge_Runs
begin

text \<open>
  What the pointer operations of \<^verbatim>\<open>lib/kernel/list.c\<close> do to the sequence of elements a store
  represents. \<open>chain m ns\<close> says that the elements \<open>ns\<close> are linked in that order, with null at
  both ends; \<open>is_list m l xs\<close> that \<open>xs\<close> are the interior elements of the list \<open>l\<close>.
\<close>

section \<open>Links as functions of the store\<close>

definition live :: "lmem \<Rightarrow> ptr \<Rightarrow> bool" where
  "live m x \<longleftrightarrow> x \<noteq> NULL \<and> m x \<noteq> None"

definition pv :: "lmem \<Rightarrow> ptr \<Rightarrow> ptr" where
  "pv m x = le_prev (the (m x))"

definition nv :: "lmem \<Rightarrow> ptr \<Rightarrow> ptr" where
  "nv m x = le_next (the (m x))"

definition wp :: "lmem \<Rightarrow> ptr \<Rightarrow> ptr \<Rightarrow> lmem" where
  "wp m x v = m(x \<mapsto> the (m x)\<lparr>le_prev := v\<rparr>)"

definition wn :: "lmem \<Rightarrow> ptr \<Rightarrow> ptr \<Rightarrow> lmem" where
  "wn m x v = m(x \<mapsto> the (m x)\<lparr>le_next := v\<rparr>)"

lemmas link_defs = ld_def get_next_def get_prev_def set_next_def set_prev_def
  is_head_def is_interior_def is_tail_def

named_theorems mem_simps

lemma live_eval [mem_simps]:
  assumes "live m x"
  shows "get_prev m x = Some (pv m x)" and "get_next m x = Some (nv m x)"
    and "set_prev m x v = Some (wp m x v)" and "set_next m x v = Some (wn m x v)"
    and "is_head m x = Some (pv m x = NULL \<and> nv m x \<noteq> NULL)"
    and "is_interior m x = Some (pv m x \<noteq> NULL \<and> nv m x \<noteq> NULL)"
    and "is_tail m x = Some (pv m x \<noteq> NULL \<and> nv m x = NULL)"
  using assms by (auto simp: live_def link_defs pv_def nv_def wp_def wn_def)

lemma upd_eval [mem_simps]:
  "live m y \<Longrightarrow> live (wp m x v) y" "live m y \<Longrightarrow> live (wn m x v) y"
  "pv (wp m x v) y = (if y = x then v else pv m y)" "pv (wn m x v) y = pv m y"
  "nv (wn m x v) y = (if y = x then v else nv m y)" "nv (wp m x v) y = nv m y"
  by (auto simp: live_def pv_def nv_def wp_def wn_def)

lemma upd_other: "y \<noteq> x \<Longrightarrow> wp m x v y = m y" "y \<noteq> x \<Longrightarrow> wn m x v y = m y"
  by (simp_all add: wp_def wn_def)

section \<open>Chains of elements\<close>

fun dseg :: "lmem \<Rightarrow> ptr \<Rightarrow> ptr list \<Rightarrow> ptr \<Rightarrow> bool" where
  "dseg m p [] n \<longleftrightarrow> True"
| "dseg m p (x # xs) n \<longleftrightarrow>
     live m x \<and> pv m x = p \<and> nv m x = hd (xs @ [n]) \<and> dseg m x xs n"

definition chain :: "lmem \<Rightarrow> ptr list \<Rightarrow> bool" where
  "chain m ns \<longleftrightarrow> dseg m NULL ns NULL \<and> distinct ns"

definition is_list :: "lmem \<Rightarrow> klist \<Rightarrow> ptr list \<Rightarrow> bool" where
  "is_list m l xs \<longleftrightarrow> chain m (head l # xs @ [tail l])"

lemma dseg_append [simp]:
  "dseg m p (xs @ ys) n \<longleftrightarrow> dseg m p xs (hd (ys @ [n])) \<and> dseg m (last (p # xs)) ys n"
  by (induction xs arbitrary: p) (auto simp: hd_append)

lemma dseg_upd [mem_simps]:
  "x \<notin> set xs \<Longrightarrow> dseg (wp m x v) p xs n = dseg m p xs n"
  "x \<notin> set xs \<Longrightarrow> dseg (wn m x v) p xs n = dseg m p xs n"
  by (induction xs arbitrary: p) (auto simp: live_def pv_def nv_def wp_def wn_def)

lemma dseg_live: "dseg m p xs n \<Longrightarrow> x \<in> set xs \<Longrightarrow> live m x"
  by (induction xs arbitrary: p) auto

lemma dseg_interior:
  "dseg m p xs n \<Longrightarrow> x \<in> set xs \<Longrightarrow> n \<noteq> NULL \<Longrightarrow> nv m x \<noteq> NULL"
  "dseg m p xs n \<Longrightarrow> x \<in> set xs \<Longrightarrow> p \<noteq> NULL \<Longrightarrow> pv m x \<noteq> NULL"
proof -
  show "dseg m p xs n \<Longrightarrow> x \<in> set xs \<Longrightarrow> n \<noteq> NULL \<Longrightarrow> nv m x \<noteq> NULL"
  proof (induction xs arbitrary: p)
    case (Cons y ys)
    then show ?case by (cases ys) (auto simp: live_def)
  qed simp
  show "dseg m p xs n \<Longrightarrow> x \<in> set xs \<Longrightarrow> p \<noteq> NULL \<Longrightarrow> pv m x \<noteq> NULL"
    by (induction xs arbitrary: p) (auto simp: live_def)
qed

lemma dseg_ends:
  "dseg m p xs n \<Longrightarrow> xs \<noteq> [] \<Longrightarrow> pv m (hd xs) = p"
  "dseg m p xs n \<Longrightarrow> xs \<noteq> [] \<Longrightarrow> nv m (last xs) = n"
  by (cases xs, simp_all) (cases xs rule: rev_cases, simp_all)

lemma chain_nodes:
  assumes "chain m (us @ x # vs)"
  shows "live m x" and "pv m x = last (NULL # us)" and "nv m x = hd (vs @ [NULL])"
  using assms by (auto simp: chain_def)

lemma live_neq_NULL [dest]: "live m x \<Longrightarrow> x \<noteq> NULL"
  by (simp add: live_def)

lemma dseg_wp_first: "dseg m p xs n \<Longrightarrow> distinct xs \<Longrightarrow> xs \<noteq> [] \<Longrightarrow> dseg (wp m (hd xs) p') p' xs n"
  by (cases xs) (auto simp: mem_simps)

lemma dseg_wn_last: "dseg m p xs n \<Longrightarrow> distinct xs \<Longrightarrow> xs \<noteq> [] \<Longrightarrow> dseg (wn m (last xs) n') p xs n'"
  by (cases xs rule: rev_cases) (auto simp: mem_simps)

lemma list_next_chain: "chain m (us @ x # y # vs) \<Longrightarrow> list_next m x = Some y"
  using chain_nodes [of m us x "y # vs"] chain_nodes [of m "us @ [x]" y vs]
  by (auto simp: list_next_def mem_simps)

lemma list_prev_chain: "chain m (us @ x # y # vs) \<Longrightarrow> list_prev m y = Some x"
  using chain_nodes [of m us x "y # vs"] chain_nodes [of m "us @ [x]" y vs]
  by (auto simp: list_prev_def mem_simps)

lemma chain_link:
  assumes "chain m (us @ p # q # vs)"
  shows "live m p" "live m q" "nv m p = q" "pv m q = p" "p \<noteq> q" "p \<noteq> NULL" "q \<noteq> NULL"
proof -
  show p: "live m p" and "nv m p = q"
    using chain_nodes [OF assms] by simp_all
  have "chain m ((us @ [p]) @ q # vs)" using assms by simp
  from chain_nodes [OF this] show q: "live m q" and "pv m q = p" by simp_all
  show "p \<noteq> q" using assms by (simp add: chain_def)
  show "p \<noteq> NULL" "q \<noteq> NULL" using p q by (auto dest: live_neq_NULL)
qed

lemma list_insert_chain:
  assumes c: "chain m (us @ p # q # vs)" and e: "e \<notin> set (us @ p # q # vs)" "live m e"
  obtains m' where "list_insert m q e = Some m'" "chain m' (us @ p # e # q # vs)"
    "\<And>a. a \<notin> {p, q, e} \<Longrightarrow> m' a = m a"
proof -
  note pq = chain_link [OF c]
  let ?m = "wp (wn (wn (wp m e p) e q) p e) q e"
  have "list_insert m q e = Some ?m"
    using pq e by (auto simp: list_insert_def mem_simps live_def [of m e])
  moreover have "chain ?m (us @ p # e # q # vs)"
    using c e pq by (auto simp: chain_def mem_simps)
  ultimately show ?thesis
    by (rule that) (simp add: upd_other)
qed

lemma list_remove_chain:
  assumes c: "chain m (us @ p # x # q # vs)"
  obtains m' where "list_remove m x = Some (q, m')" "chain m' (us @ p # q # vs)"
    "live m' x" "\<And>a. a \<notin> {p, q} \<Longrightarrow> m' a = m a"
proof -
  note px = chain_link [OF c]
  have xq: "live m q" "nv m x = q" "pv m q = x" "x \<noteq> q" "q \<noteq> NULL"
    using chain_link [of m "us @ [p]" x q vs] c by simp_all
  have "p \<noteq> q" using c by (simp add: chain_def)
  let ?m = "wp (wn m p q) q p"
  have "list_remove m x = Some (q, ?m)"
    using px xq \<open>p \<noteq> q\<close> by (simp add: list_remove_def mem_simps)
  moreover have "chain ?m (us @ p # q # vs)"
    using c \<open>p \<noteq> q\<close> by (auto simp: chain_def mem_simps)
  moreover have "live ?m x"
    using px by (simp add: mem_simps)
  ultimately show ?thesis
    by (rule that) (simp add: upd_other)
qed

lemma list_splice_chain:
  assumes c: "chain m (us @ p # B @ F @ y # vs)" and ne: "B \<noteq> []" "F \<noteq> []"
  obtains m' where "list_splice m (hd B) (hd F) y = Some m'" "chain m' (us @ p # F @ B @ y # vs)"
    "\<And>a. a \<notin> set (p # B @ F @ [y]) \<Longrightarrow> m' a = m a"
proof -
  define f g b r where fgbr: "f = hd F" "g = last F" "b = hd B" "r = last B"
  have d: "distinct (us @ p # B @ F @ y # vs)"
    using c by (simp_all add: chain_def)
  have seg: "dseg m NULL (us @ [p]) b" "dseg m p B f" "dseg m r F y" "dseg m g (y # vs) NULL"
    using c ne by (auto simp: chain_def fgbr hd_append)
  have mem: "f \<in> set F" "g \<in> set F" "b \<in> set B" "r \<in> set B"
    using ne by (simp_all add: fgbr)
  have lv: "live m p" "live m b" "live m r" "live m f" "live m g" "live m y"
    using seg mem by (auto dest: dseg_live)
  have out: "p \<notin> set B" "p \<notin> set F" "y \<notin> set B" "y \<notin> set F" "p \<noteq> y" "set B \<inter> set F = {}"
     "distinct B" "distinct F" "y \<notin> set us" "y \<notin> set vs" "p \<notin> set us" "p \<notin> set vs"
     "b \<notin> set us" "b \<notin> set vs" "f \<notin> set us" "f \<notin> set vs"
     "r \<notin> set us" "r \<notin> set vs" "g \<notin> set us" "g \<notin> set vs"
     "b \<notin> set F" "r \<notin> set F" "f \<notin> set B" "g \<notin> set B"
    using d mem by auto
  let ?m = "wp (wn (wn (wp (wp (wn m r y) y r) f p) g b) p f) b g"
  have "dseg ?m NULL (us @ [p]) f"
    using seg(1) out mem by (auto simp: mem_simps)
  moreover have "dseg ?m p F b"
  proof -
    have "dseg (wp (wn m r y) y r) r F y"
      using seg(3) out by (simp add: mem_simps)
    from dseg_wn_last [OF dseg_wp_first [OF this]] have "dseg (wn (wp (wp (wn m r y) y r) f p) g b) p F b"
      using out ne by (simp add: fgbr)
    then show ?thesis using out by (simp add: mem_simps)
  qed
  moreover have "dseg ?m g B y"
  proof -
    have "dseg (wn m r y) p B y"
      using dseg_wn_last [OF seg(2)] out ne by (simp add: fgbr)
    then have "dseg (wn (wn (wp (wp (wn m r y) y r) f p) g b) p f) p B y"
      using out by (simp add: mem_simps)
    from dseg_wp_first [OF this] show ?thesis using out ne by (simp add: fgbr)
  qed
  moreover have "dseg ?m r (y # vs) NULL"
    using seg(4) out mem by (auto simp: mem_simps)
  ultimately have ch: "chain ?m (us @ p # F @ B @ y # vs)"
    using d ne by (auto simp: chain_def fgbr hd_append)
  have nn: "p \<noteq> NULL" "f \<noteq> NULL" "r \<noteq> NULL" "y \<noteq> NULL" "b \<noteq> NULL" "g \<noteq> NULL"
    using lv by (auto simp: live_def)
  have links: "pv m b = p" "nv m b \<noteq> NULL" "pv m f = r" "nv m f \<noteq> NULL" "pv m g \<noteq> NULL" "nv m g = y"
    using dseg_ends [OF seg(2)] dseg_ends [OF seg(3)] dseg_interior [OF seg(2), of b]
      dseg_interior [OF seg(3), of f] dseg_interior [OF seg(3), of g] mem ne nn by (simp_all add: fgbr)
  have py: "list_prev m y = Some g"
    using seg(4) lv nn by (auto simp: list_prev_def mem_simps)
  have "f \<noteq> y" "g \<noteq> y" "b \<noteq> y" "b \<noteq> f" "b \<noteq> g" "r \<noteq> g" "r \<noteq> f" "p \<noteq> b" "p \<noteq> f" "p \<noteq> g" "p \<noteq> r" "r \<noteq> y"
    using out mem by auto
  then have "list_splice m b f y = Some ?m"
    using lv links nn py by (simp add: list_splice_def mem_simps)
  then have "list_splice m (hd B) (hd F) y = Some ?m"
    by (simp add: fgbr)
  from this ch show ?thesis
  proof (rule that)
    fix a assume "a \<notin> set (p # B @ F @ [y])"
    then have "a \<noteq> p" "a \<noteq> b" "a \<noteq> r" "a \<noteq> f" "a \<noteq> g" "a \<noteq> y" using mem by auto
    then show "?m a = m a" by (simp add: upd_other)
  qed
qed

section \<open>Traversals\<close>

lemma list_next_seg: "chain m (us @ x # xs @ t # vs) \<Longrightarrow> list_next m x = Some (hd (xs @ [t]))"
  by (cases xs) (auto intro: list_next_chain)

lemma list_prev_seg: "chain m (us @ p # xs @ y # vs) \<Longrightarrow> list_prev m y = Some (last (p # xs))"
proof (cases xs rule: rev_cases)
  case Nil
  moreover assume "chain m (us @ p # xs @ y # vs)"
  ultimately show ?thesis using list_prev_chain [of m us p y vs] by simp
next
  case (snoc ys z)
  moreover assume "chain m (us @ p # xs @ y # vs)"
  ultimately show ?thesis using list_prev_chain [of m "us @ p # ys" z y vs] by simp
qed

lemma list_size_loop_chain:
  "chain m (us @ xs @ t # vs) \<Longrightarrow> list_size_loop m t (hd (xs @ [t])) c = Some (c + length xs)"
proof (induction xs arbitrary: us c)
  case Nil
  show ?case by (subst list_size_loop.simps) simp
next
  case (Cons x xs)
  have "x \<noteq> t" using Cons.prems by (auto simp: chain_def)
  moreover have "list_next m x = Some (hd (xs @ [t]))"
    using Cons.prems by (auto intro: list_next_seg)
  moreover have "list_size_loop m t (hd (xs @ [t])) (c + 1) = Some (c + 1 + length xs)"
    using Cons.IH [of "us @ [x]" "c + 1"] Cons.prems by simp
  ultimately show ?case
    by (subst list_size_loop.simps) simp
qed

lemma insert_pos_loop_chain:
  "chain m (us @ xs @ t # vs) \<Longrightarrow>
   insert_pos_loop m t lt e (hd (xs @ [t])) = Some (hd (dropWhile (\<lambda>x. \<not> lt e x) xs @ [t]))"
proof (induction xs arbitrary: us)
  case Nil
  show ?case by (subst insert_pos_loop.simps) simp
next
  case (Cons x xs)
  have "x \<noteq> t" using Cons.prems by (auto simp: chain_def)
  moreover have "list_next m x = Some (hd (xs @ [t]))"
    using Cons.prems by (auto intro: list_next_seg)
  moreover have "insert_pos_loop m t lt e (hd (xs @ [t])) = Some (hd (dropWhile (\<lambda>x. \<not> lt e x) xs @ [t]))"
    using Cons.IH [of "us @ [x]"] Cons.prems by simp
  ultimately show ?case
    by (subst insert_pos_loop.simps) simp
qed

lemma list_max_loop_chain:
  "chain m (us @ xs @ t # vs) \<Longrightarrow>
   list_max_loop m t lt mx (hd (xs @ [t])) = Some (fold (\<lambda>e mx. if lt mx e then e else mx) xs mx)"
proof (induction xs arbitrary: us mx)
  case Nil
  show ?case by (subst list_max_loop.simps) simp
next
  case (Cons x xs)
  have "x \<noteq> t" using Cons.prems by (auto simp: chain_def)
  moreover have "list_next m x = Some (hd (xs @ [t]))"
    using Cons.prems by (auto intro: list_next_seg)
  ultimately show ?case
    using Cons.IH [of "us @ [x]"] Cons.prems by (subst list_max_loop.simps) simp
qed

lemma list_min_loop_chain:
  "chain m (us @ xs @ t # vs) \<Longrightarrow>
   list_min_loop m t lt mn (hd (xs @ [t])) = Some (fold (\<lambda>e mn. if lt e mn then e else mn) xs mn)"
proof (induction xs arbitrary: us mn)
  case Nil
  show ?case by (subst list_min_loop.simps) simp
next
  case (Cons x xs)
  have "x \<noteq> t" using Cons.prems by (auto simp: chain_def)
  moreover have "list_next m x = Some (hd (xs @ [t]))"
    using Cons.prems by (auto intro: list_next_seg)
  ultimately show ?case
    using Cons.IH [of "us @ [x]"] Cons.prems by (subst list_min_loop.simps) simp
qed

lemma is_sorted_loop_chain:
  "chain m (us @ x # xs @ t # vs) \<Longrightarrow> is_sorted_loop m t lt x = Some (consec lt (x # xs))"
proof (induction xs arbitrary: us x)
  case Nil
  then show ?case
    by (subst is_sorted_loop.simps) (simp add: list_next_chain)
next
  case (Cons y xs)
  have "y \<noteq> t" using Cons.prems by (auto simp: chain_def)
  moreover have "list_next m x = Some y" "list_prev m y = Some x"
    using Cons.prems by (auto intro: list_next_chain list_prev_chain)
  ultimately show ?case
    using Cons.IH [of "us @ [x]" y] Cons.prems by (subst is_sorted_loop.simps) simp
qed

lemma is_sorted_chain:
  "chain m (us @ xs @ t # vs) \<Longrightarrow> is_sorted m (hd (xs @ [t])) t lt = Some (consec lt xs)"
proof (cases xs)
  case Nil
  then show ?thesis by (simp add: is_sorted_def)
next
  case (Cons x ys)
  moreover assume "chain m (us @ xs @ t # vs)"
  ultimately show ?thesis
    using is_sorted_loop_chain [of m us x ys t vs lt] by (auto simp: is_sorted_def chain_def)
qed
section \<open>Sorting\<close>

lemma find_end_of_run_loop_chain:
  "chain m (us @ x # xs @ t # vs) \<Longrightarrow>
   find_end_of_run_loop m t lt x = Some (hd (snd (run_split lt (x # xs)) @ [t]))"
proof (induction xs arbitrary: us x)
  case Nil
  then show ?case
    by (subst find_end_of_run_loop.simps) (simp add: list_next_chain)
next
  case (Cons y xs)
  have "y \<noteq> t" using Cons.prems by (auto simp: chain_def)
  moreover have "list_next m x = Some y" "list_prev m y = Some x"
    using Cons.prems by (auto intro: list_next_chain list_prev_chain)
  ultimately show ?case
    using Cons.IH [of "us @ [x]" y] Cons.prems by (subst find_end_of_run_loop.simps) simp
qed

lemma find_end_of_run_chain:
  assumes "chain m (us @ xs @ t # vs)" "xs \<noteq> []"
  shows "find_end_of_run m (hd xs) t lt = Some (hd (snd (run_split lt xs) @ [t]))"
proof -
  obtain x ys where xs: "xs = x # ys" using assms(2) by (cases xs) auto
  have "x \<noteq> t" using assms xs by (auto simp: chain_def)
  moreover have "x \<noteq> NULL" "t \<noteq> NULL"
    using assms xs by (auto simp: chain_def dest: live_neq_NULL)
  ultimately show ?thesis
    using find_end_of_run_loop_chain [of m us x ys t vs lt] assms xs
    by (simp add: find_end_of_run_def)
qed

lemma inplace_merge_loop_chain:
  "chain m (us @ p # as @ bs @ t # vs) \<Longrightarrow>
   \<exists>m'. inplace_merge_loop m (hd (as @ bs @ [t])) (hd (bs @ [t])) t lt = Some m' \<and>
        chain m' (us @ p # merge lt as bs @ t # vs) \<and>
        (\<forall>a. a \<notin> set (p # as @ bs @ [t]) \<longrightarrow> m' a = m a)"
proof (induction lt as bs arbitrary: us p m rule: merge.induct)
  case (1 lt bs)
  then show ?case by (subst inplace_merge_loop.simps) simp
next
  case (2 lt a as)
  then show ?case by (subst inplace_merge_loop.simps) simp
next
  case (3 lt a as b bs)
  have ne: "a \<noteq> b" "b \<noteq> t" using "3.prems" by (auto simp: chain_def)
  show ?case
  proof (cases "lt b a")
    case False
    have "list_next m a = Some (hd (as @ b # bs @ [t]))"
      using list_next_seg [of m "us @ [p]" a "as @ b # bs" t vs] "3.prems" by simp
    moreover from 3(1) [of m "us @ [p]" a] False "3.prems"
    obtain m' where "inplace_merge_loop m (hd (as @ b # bs @ [t])) b t lt = Some m'"
        "chain m' (us @ p # a # merge lt as (b # bs) @ t # vs)"
        "\<forall>x. x \<notin> set (a # as @ b # bs @ [t]) \<longrightarrow> m' x = m x"
      by auto
    ultimately show ?thesis
      using ne False by (subst inplace_merge_loop.simps) auto
  next
    case True
    have nb: "list_next m b = Some (hd (bs @ [t]))"
      using list_next_seg [of m "us @ p # a # as" b bs t vs] "3.prems" by simp
    have pb: "list_prev m (hd (bs @ [t])) = Some b"
      using list_prev_chain [of m "us @ p # a # as" b "hd (bs @ [t])" "tl (bs @ t # vs)"] "3.prems"
      by (cases bs) simp_all
    have e: "hd (bs @ [t]) # tl (bs @ t # vs) = bs @ t # vs"
      by (cases bs) simp_all
    have "chain m (us @ p # (a # as) @ [b] @ hd (bs @ [t]) # tl (bs @ t # vs))"
      using "3.prems" by (simp add: e)
    from list_splice_chain [OF this]
    obtain m1 where m1: "list_splice m a b (hd (bs @ [t])) = Some m1"
        "chain m1 (us @ p # b # (a # as) @ bs @ t # vs)"
        "\<And>x. x \<notin> set (p # a # as @ b # [hd (bs @ [t])]) \<Longrightarrow> m1 x = m x"
      by (auto simp: e)
    from 3(2) [of m1 "us @ [p]" b] True m1(2)
    obtain m' where "inplace_merge_loop m1 a (hd (bs @ [t])) t lt = Some m'"
        "chain m' (us @ p # b # merge lt (a # as) bs @ t # vs)"
        "\<forall>x. x \<notin> set (b # a # as @ bs @ [t]) \<longrightarrow> m' x = m1 x"
      by auto
    moreover have "\<forall>x. x \<notin> set (p # (a # as) @ (b # bs) @ [t]) \<longrightarrow> m1 x = m x"
      using m1(3) by (cases bs) auto
    ultimately show ?thesis
      using ne True nb pb m1(1) by (subst inplace_merge_loop.simps) auto
  qed
qed

lemma inplace_merge_chain:
  assumes c: "chain m (us @ p # as @ bs @ t # vs)" and ne: "as \<noteq> []" "bs \<noteq> []"
    and s: "consec lt as" "consec lt bs"
  obtains m' where "inplace_merge m (hd as) (hd bs) t lt = Some m'"
    "chain m' (us @ p # merge lt as bs @ t # vs)"
    "\<And>a. a \<notin> set (p # as @ bs @ [t]) \<Longrightarrow> m' a = m a"
proof -
  have "is_sorted m (hd as) (hd bs) lt = Some True"
    using is_sorted_chain [of m "us @ [p]" as "hd bs" "tl bs @ t # vs" lt] c ne s
    by (cases bs) (simp_all add: hd_append)
  moreover have "is_sorted m (hd bs) t lt = Some True"
    using is_sorted_chain [of m "us @ p # as" bs t vs lt] c ne s
    by (simp add: hd_append)
  moreover have "hd as \<noteq> NULL" "hd bs \<noteq> NULL" "t \<noteq> NULL"
    using c ne by (auto simp: chain_def neq_Nil_conv dest: live_neq_NULL)
  ultimately show ?thesis
    using inplace_merge_loop_chain [OF c, of lt] ne that
    by (auto simp: inplace_merge_def hd_append)
qed

lemma run_splitD:
  assumes "run_split lt xs = (r, rest)" "xs \<noteq> []"
  shows "xs = r @ rest" "r \<noteq> []" "consec lt r" "length rest < length xs"
  using run_split_append [of lt xs] run_split_nonempty [of xs lt] run_split_consec [of lt xs]
    run_split_length [of xs lt] assms by simp_all

text \<open>One iteration of a pass: two runs are found and merged in place.\<close>

lemma two_runs_chain:
  assumes c: "chain m (us @ p # xs @ [t])" and xs: "xs \<noteq> []"
    and r1: "run_split lt xs = (r1, rest)" and rest: "rest \<noteq> []"
    and r2: "run_split lt rest = (r2, rest2)"
  obtains m1 ms q where
    "find_end_of_run m (hd xs) t lt = Some (hd rest)" "hd rest \<noteq> t"
    "find_end_of_run m (hd rest) t lt = Some (hd (rest2 @ [t]))"
    "inplace_merge m (hd xs) (hd rest) (hd (rest2 @ [t])) lt = Some m1"
    "chain m1 ((us @ ms) @ q # rest2 @ [t])" "p # merge lt r1 r2 = ms @ [q]"
    "q \<in> set (p # r1 @ r2)"
    "\<And>a. a \<notin> set (p # xs @ [t]) \<Longrightarrow> m1 a = m a"
proof -
  note d1 = run_splitD [OF r1 xs] and d2 = run_splitD [OF r2 rest]
  have c1: "chain m (us @ p # r1 @ r2 @ rest2 @ [t])"
    using c d1(1) d2(1) by simp
  have hds: "hd rest = hd r2" "hd xs = hd r1" and "hd rest \<noteq> t"
    using c1 d1 d2 by (auto simp: chain_def neq_Nil_conv)
  have f1: "find_end_of_run m (hd xs) t lt = Some (hd rest)"
    using find_end_of_run_chain [of m "us @ [p]" xs t "[]" lt] c xs r1 rest by (simp add: hd_append)
  have f2: "find_end_of_run m (hd rest) t lt = Some (hd (rest2 @ [t]))"
    using find_end_of_run_chain [of m "us @ p # r1" rest t "[]" lt] c1 rest r2 d2(1) by simp
  have e: "hd (rest2 @ [t]) # tl (rest2 @ [t]) = rest2 @ [t]"
    by (cases rest2) simp_all
  have "chain m (us @ p # r1 @ r2 @ hd (rest2 @ [t]) # tl (rest2 @ [t]))"
    using c1 by (simp only: e)
  from inplace_merge_chain [OF this d1(2) d2(2) d1(3) d2(3)]
  obtain m1 where m1: "inplace_merge m (hd xs) (hd rest) (hd (rest2 @ [t])) lt = Some m1"
    "chain m1 (us @ (p # merge lt r1 r2) @ rest2 @ [t])"
    "\<And>a. a \<notin> set (p # r1 @ r2 @ [hd (rest2 @ [t])]) \<Longrightarrow> m1 a = m a"
    by (auto simp: e hds)
  obtain ms q where q: "p # merge lt r1 r2 = ms @ [q]"
    by (cases "p # merge lt r1 r2" rule: rev_cases) auto
  have "q \<in> set (p # merge lt r1 r2)" by (simp only: q) simp
  then have mem: "q \<in> set (p # r1 @ r2)" by (simp add: set_merge)
  have c2: "chain m1 ((us @ ms) @ q # rest2 @ [t])"
    using m1(2) unfolding q by simp
  have fr: "m1 a = m a" if "a \<notin> set (p # xs @ [t])" for a
    by (rule m1(3)) (use that d1(1) d2(1) in \<open>auto simp: hd_append split: if_splits\<close>)
  show thesis
    using f1 \<open>hd rest \<noteq> t\<close> f2 m1(1) c2 q mem fr by (rule that)
qed

lemma sort_pass_chain:
  "chain m (us @ p # xs @ [tail l]) \<Longrightarrow>
   \<exists>m'. sort_pass m l lt (hd (xs @ [tail l])) c = Some (c + fst (run_pass lt xs), m') \<and>
        chain m' (us @ p # snd (run_pass lt xs) @ [tail l]) \<and>
        (\<forall>a. a \<notin> set (p # xs @ [tail l]) \<longrightarrow> m' a = m a)"
proof (induction lt xs arbitrary: us p m c rule: run_pass.induct)
  case (1 lt xs)
  let ?t = "tail l"
  have t: "xs \<noteq> [] \<Longrightarrow> hd xs \<noteq> ?t"
    using "1.prems" by (auto simp: chain_def neq_Nil_conv)
  show ?case
  proof (cases "xs = [] \<or> snd (run_split lt xs) = []")
    case True
    then show ?thesis
      using "1.prems" find_end_of_run_chain [of m "us @ [p]" xs ?t "[]" lt] t
      by (subst sort_pass.simps) (auto simp: list_end_def run_pass.simps [of lt xs] hd_append)
  next
    case False
    obtain r1 rest where r1: "run_split lt xs = (r1, rest)" by force
    obtain r2 rest2 where r2: "run_split lt rest = (r2, rest2)" by force
    have xs: "xs \<noteq> []" and rest: "rest \<noteq> []" using False r1 by auto
    note d = run_splitD [OF r1 xs] run_splitD [OF r2 rest]
    obtain m1 ms q where it: "find_end_of_run m (hd xs) ?t lt = Some (hd rest)" "hd rest \<noteq> ?t"
      "find_end_of_run m (hd rest) ?t lt = Some (hd (rest2 @ [?t]))"
      "inplace_merge m (hd xs) (hd rest) (hd (rest2 @ [?t])) lt = Some m1"
      and c1: "chain m1 ((us @ ms) @ q # rest2 @ [?t])" and q: "p # merge lt r1 r2 = ms @ [q]"
      and fr1: "q \<in> set (p # r1 @ r2)" "\<And>a. a \<notin> set (p # xs @ [?t]) \<Longrightarrow> m1 a = m a"
      using two_runs_chain [OF "1.prems" xs r1 rest r2] by blast
    have "\<exists>m'. sort_pass m1 l lt (hd (rest2 @ [?t])) (c + 1)
           = Some (c + 1 + fst (run_pass lt rest2), m') \<and>
        chain m' ((us @ ms) @ q # snd (run_pass lt rest2) @ [?t]) \<and>
        (\<forall>a. a \<notin> set (q # rest2 @ [?t]) \<longrightarrow> m' a = m1 a)"
      by (rule "1.IH" [OF xs, of r1 rest r2, unfolded r1 r2 fst_conv snd_conv, OF refl refl rest refl c1])
    then obtain m2 where m2: "sort_pass m1 l lt (hd (rest2 @ [?t])) (c + 1)
            = Some (c + 1 + fst (run_pass lt rest2), m2)"
        "chain m2 (us @ (ms @ [q]) @ snd (run_pass lt rest2) @ [?t])"
        "\<And>a. a \<notin> set (q # rest2 @ [?t]) \<Longrightarrow> m2 a = m1 a"
      by auto
    have rp: "run_pass lt xs = (fst (run_pass lt rest2) + 1, merge lt r1 r2 @ snd (run_pass lt rest2))"
      using xs rest r1 r2 by (simp add: run_pass.simps [of lt xs] Let_def)
    have "sort_pass m l lt (hd (xs @ [?t])) c = Some (c + fst (run_pass lt xs), m2)"
      using xs t it m2(1) by (subst sort_pass.simps) (simp add: list_end_def rp hd_append)
    moreover have "chain m2 (us @ p # snd (run_pass lt xs) @ [?t])"
      using m2(2) unfolding q [symmetric] by (simp add: rp)
    moreover have "m2 a = m a" if "a \<notin> set (p # xs @ [?t])" for a
      using m2(3) [of a] fr1 that d by auto
    ultimately show ?thesis by blast
  qed
qed

text \<open>
  The comparison function of an ordered list: it compares a key of the element that an
  address belongs to.
\<close>

locale elem_less = keyed_less lt key
  for lt :: less_func and key :: "ptr \<Rightarrow> 'k::linorder"
begin

lemma sort_passes_chain:
  "chain m (head l # xs @ [tail l]) \<Longrightarrow>
    \<exists>m'. sort_passes m l lt = Some m' \<and> chain m' (head l # sort_key key xs @ [tail l]) \<and>
        (\<forall>a. a \<notin> set (head l # xs @ [tail l]) \<longrightarrow> m' a = m a)"
proof (induction "descents lt xs" arbitrary: m xs rule: less_induct)
  case less
  let ?ys = "snd (run_pass lt xs)"
  have b: "list_begin m l = Some (hd (xs @ [tail l]))"
    using chain_nodes [of m "[]" "head l" "xs @ [tail l]"] less.prems
    by (simp add: list_begin_def mem_simps hd_append)
  obtain m1 where m1: "sort_pass m l lt (hd (xs @ [tail l])) 0 = Some (fst (run_pass lt xs), m1)"
    "chain m1 (head l # ?ys @ [tail l])" "\<forall>a. a \<notin> set (head l # xs @ [tail l]) \<longrightarrow> m1 a = m a"
    using sort_pass_chain [of m "[]" "head l" xs l lt 0] less.prems by auto
  show ?case
  proof (cases "1 < fst (run_pass lt xs)")
    case True
    have "set ?ys = set xs"
      using mset_run_pass [of lt xs] by (metis set_mset_mset)
    moreover obtain m2 where "sort_passes m1 l lt = Some m2"
      "chain m2 (head l # sort_key key ?ys @ [tail l])"
      "\<forall>a. a \<notin> set (head l # ?ys @ [tail l]) \<longrightarrow> m2 a = m1 a"
      using less.hyps [OF run_pass_decreases [OF True] m1(2)] by blast
    ultimately show ?thesis
      using True b m1 by (subst sort_passes.simps) (simp add: sort_key_run_pass)
  next
    case False
    then show ?thesis
      using b m1 run_pass_final [of xs] by (subst sort_passes.simps) simp
  qed
qed

lemma list_sort_refines:
  assumes "is_list m l xs"
  obtains m' where "list_sort m l lt = Some m'" "is_list m' l (sort_key key xs)"
    "\<And>a. a \<notin> set (head l # xs @ [tail l]) \<Longrightarrow> m' a = m a"
proof -
  obtain m' where m': "sort_passes m l lt = Some m'" "chain m' (head l # sort_key key xs @ [tail l])"
        "\<And>a. a \<notin> set (head l # xs @ [tail l]) \<Longrightarrow> m' a = m a"
    using sort_passes_chain [of m l xs] assms by (auto simp: is_list_def)
  have "list_begin m' l = Some (hd (sort_key key xs @ [tail l]))"
    using chain_nodes [of m' "[]" "head l" "sort_key key xs @ [tail l]"] m'(2)
    by (simp add: list_begin_def mem_simps hd_append)
  moreover have "is_sorted m' (hd (sort_key key xs @ [tail l])) (tail l) lt = Some True"
    using is_sorted_chain [of m' "[head l]" "sort_key key xs" "tail l" "[]" lt] m'(2)
    by (simp add: consec_sorted)
  ultimately show thesis
    using m' that by (simp add: list_sort_def list_end_def is_list_def)
qed

end
section \<open>Operations on a list\<close>

text \<open>The element addresses of a list together with its two sentinels.\<close>

definition list_nodes :: "klist \<Rightarrow> ptr list \<Rightarrow> ptr set" where
  "list_nodes l xs = set (head l # xs @ [tail l])"

lemma is_list_nodes:
  assumes "is_list m l xs"
  shows "distinct xs" "head l \<notin> set xs" "tail l \<notin> set xs" "head l \<noteq> tail l"
    and "a \<in> list_nodes l xs \<Longrightarrow> live m a"
  using assms by (auto simp: is_list_def chain_def list_nodes_def dest: dseg_live)

lemma list_begin_is_list: "is_list m l xs \<Longrightarrow> list_begin m l = Some (hd (xs @ [tail l]))"
  using chain_nodes [of m "[]" "head l" "xs @ [tail l]"]
  by (simp add: is_list_def list_begin_def mem_simps hd_append)

lemma list_init_is_list:
  assumes "live m (head l)" "live m (tail l)" "head l \<noteq> tail l"
  obtains m' where "list_init m l = Some m'" "is_list m' l []"
    "\<And>a. a \<notin> {head l, tail l} \<Longrightarrow> m' a = m a"
proof -
  let ?m = "wn (wp (wn (wp m (head l) NULL) (head l) (tail l)) (tail l) (head l)) (tail l) NULL"
  have "list_init m l = Some ?m"
    using assms by (simp add: list_init_def mem_simps)
  moreover have "is_list ?m l []"
    using assms by (simp add: is_list_def chain_def mem_simps)
  ultimately show ?thesis
    by (rule that) (simp add: upd_other)
qed

text \<open>Insertion at any position; the other insertions are instances.\<close>

lemma list_insert_is_list:
  assumes l: "is_list m l (as @ bs)" and e: "live m e" "e \<notin> list_nodes l (as @ bs)"
  obtains m' where "list_insert m (hd (bs @ [tail l])) e = Some m'" "is_list m' l (as @ e # bs)"
    "\<And>a. a \<notin> insert e (list_nodes l (as @ bs)) \<Longrightarrow> m' a = m a"
proof -
  obtain us p where up: "head l # as = us @ [p]"
    by (cases "head l # as" rule: rev_cases) auto
  have e1: "hd (bs @ [tail l]) # tl (bs @ [tail l]) = bs @ [tail l]"
    by (cases bs) simp_all
  have eq: "us @ p # zs = head l # as @ zs" for zs
    using up by (metis append.assoc append_Cons append_Nil)
  have "chain m (us @ p # hd (bs @ [tail l]) # tl (bs @ [tail l]))"
    using l by (simp add: is_list_def eq e1)
  moreover have "e \<notin> set (us @ p # hd (bs @ [tail l]) # tl (bs @ [tail l]))"
    using e(2) by (simp only: eq e1 list_nodes_def) simp
  ultimately obtain m' where m': "list_insert m (hd (bs @ [tail l])) e = Some m'"
      "chain m' (us @ p # e # hd (bs @ [tail l]) # tl (bs @ [tail l]))"
      "\<And>a. a \<notin> {p, hd (bs @ [tail l]), e} \<Longrightarrow> m' a = m a"
    using e(1) by (rule list_insert_chain) blast
  have "is_list m' l (as @ e # bs)"
    using m'(2) by (simp add: is_list_def eq e1)
  moreover have "p \<in> list_nodes l (as @ bs)" "hd (bs @ [tail l]) \<in> list_nodes l (as @ bs)"
  proof -
    have "p \<in> set (us @ p # bs)" by simp
    then show "p \<in> list_nodes l (as @ bs)" by (simp only: eq) (auto simp: list_nodes_def)
    show "hd (bs @ [tail l]) \<in> list_nodes l (as @ bs)" by (cases bs) (auto simp: list_nodes_def)
  qed
  ultimately show ?thesis
    by (intro that [OF m'(1)] m'(3)) auto
qed

lemma list_push_back_is_list:
  assumes "is_list m l xs" "live m e" "e \<notin> list_nodes l xs"
  obtains m' where "list_push_back m l e = Some m'" "is_list m' l (xs @ [e])"
    "\<And>a. a \<notin> insert e (list_nodes l xs) \<Longrightarrow> m' a = m a"
  using list_insert_is_list [of m l xs "[]" e] assms that
  by (auto simp: list_push_back_def list_end_def)

lemma list_push_front_is_list:
  assumes "is_list m l xs" "live m e" "e \<notin> list_nodes l xs"
  obtains m' where "list_push_front m l e = Some m'" "is_list m' l (e # xs)"
    "\<And>a. a \<notin> insert e (list_nodes l xs) \<Longrightarrow> m' a = m a"
  using list_insert_is_list [of m l "[]" xs e] assms that
  by (auto simp: list_push_front_def list_begin_is_list)

lemma list_insert_ordered_is_list:
  assumes l: "is_list m l xs" and e: "live m e" "e \<notin> list_nodes l xs"
  obtains m' where "list_insert_ordered m l e lt = Some m'" "is_list m' l (insert_ordered lt e xs)"
    "\<And>a. a \<notin> insert e (list_nodes l xs) \<Longrightarrow> m' a = m a"
proof -
  let ?as = "takeWhile (\<lambda>x. \<not> lt e x) xs" and ?bs = "dropWhile (\<lambda>x. \<not> lt e x) xs"
  have "insert_pos_loop m (tail l) lt e (hd (xs @ [tail l])) = Some (hd (?bs @ [tail l]))"
    using insert_pos_loop_chain [of m "[head l]" xs "tail l" "[]"] l by (simp add: is_list_def)
  moreover obtain m' where "list_insert m (hd (?bs @ [tail l])) e = Some m'"
      "is_list m' l (?as @ e # ?bs)" "\<And>a. a \<notin> insert e (list_nodes l (?as @ ?bs)) \<Longrightarrow> m' a = m a"
    using list_insert_is_list [of m l ?as ?bs e] l e by auto
  ultimately show ?thesis
    using that l e
    by (auto simp: list_insert_ordered_def list_begin_is_list list_end_def insert_ordered_def live_def)
qed

lemma list_remove_is_list:
  assumes l: "is_list m l (as @ x # bs)"
  obtains m' where "list_remove m x = Some (hd (bs @ [tail l]), m')" "is_list m' l (as @ bs)"
    "live m' x" "\<And>a. a \<notin> list_nodes l (as @ bs) \<Longrightarrow> m' a = m a"
proof -
  obtain us p where up: "head l # as = us @ [p]"
    by (cases "head l # as" rule: rev_cases) auto
  have e1: "hd (bs @ [tail l]) # tl (bs @ [tail l]) = bs @ [tail l]"
    by (cases bs) simp_all
  have eq: "us @ p # zs = head l # as @ zs" for zs
    using up by (metis append.assoc append_Cons append_Nil)
  have "chain m (us @ p # x # hd (bs @ [tail l]) # tl (bs @ [tail l]))"
    using l by (simp add: is_list_def eq e1)
  then obtain m' where m': "list_remove m x = Some (hd (bs @ [tail l]), m')"
      "chain m' (us @ p # hd (bs @ [tail l]) # tl (bs @ [tail l]))" "live m' x"
      "\<And>a. a \<notin> {p, hd (bs @ [tail l])} \<Longrightarrow> m' a = m a"
    by (rule list_remove_chain) blast
  have "is_list m' l (as @ bs)"
    using m'(2) by (simp add: is_list_def eq e1)
  moreover have "p \<in> list_nodes l (as @ bs)" "hd (bs @ [tail l]) \<in> list_nodes l (as @ bs)"
  proof -
    have "p \<in> set (us @ p # bs)" by simp
    then show "p \<in> list_nodes l (as @ bs)" by (simp only: eq) (auto simp: list_nodes_def)
    show "hd (bs @ [tail l]) \<in> list_nodes l (as @ bs)" by (cases bs) (auto simp: list_nodes_def)
  qed
  ultimately show ?thesis
    by (intro that [OF m'(1) _ m'(3)] m'(4)) auto
qed

lemma list_empty_is_list: "is_list m l xs \<Longrightarrow> list_empty m l = Some (xs = [])"
  using is_list_nodes(3) [of m l xs]
  by (cases xs) (auto simp: list_empty_def list_begin_is_list list_end_def)

lemma list_front_is_list: "is_list m l (x # xs) \<Longrightarrow> list_front m l = Some x"
  using list_begin_is_list [of m l "x # xs"]
  by (simp add: list_front_def list_empty_is_list list_begin_def)

lemma list_back_is_list:
  assumes "is_list m l (xs @ [x])"
  shows "list_back m l = Some x"
proof -
  have "chain m ((head l # xs) @ x # tail l # [])" using assms by (simp add: is_list_def)
  from chain_link [OF this] show ?thesis
    using assms by (simp add: list_back_def list_empty_is_list mem_simps)
qed

lemma list_pop_front_is_list:
  assumes "is_list m l (x # xs)"
  obtains m' where "list_pop_front m l = Some (x, m')" "is_list m' l xs" "live m' x"
    "\<And>a. a \<notin> list_nodes l xs \<Longrightarrow> m' a = m a"
proof -
  have "is_list m l ([] @ x # xs)" using assms by simp
  then obtain m' where "list_remove m x = Some (hd (xs @ [tail l]), m')" and m': "is_list m' l ([] @ xs)"
      "live m' x" "\<And>a. a \<notin> list_nodes l ([] @ xs) \<Longrightarrow> m' a = m a"
    by (rule list_remove_is_list) blast
  then have "list_pop_front m l = Some (x, m')"
    using assms by (simp add: list_pop_front_def list_front_is_list)
  then show ?thesis using m' unfolding append_Nil by (rule that)
qed

lemma list_pop_back_is_list:
  assumes "is_list m l (xs @ [x])"
  obtains m' where "list_pop_back m l = Some (x, m')" "is_list m' l xs" "live m' x"
    "\<And>a. a \<notin> list_nodes l xs \<Longrightarrow> m' a = m a"
proof -
  obtain m' where "list_remove m x = Some (hd ([] @ [tail l]), m')" and m': "is_list m' l (xs @ [])"
      "live m' x" "\<And>a. a \<notin> list_nodes l (xs @ []) \<Longrightarrow> m' a = m a"
    using assms by (rule list_remove_is_list) blast
  then have "list_pop_back m l = Some (x, m')"
    using assms by (simp add: list_pop_back_def list_back_is_list)
  then show ?thesis using m' unfolding append_Nil2 by (rule that)
qed

lemma list_size_is_list: "is_list m l xs \<Longrightarrow> list_size m l = Some (length xs)"
  using list_size_loop_chain [of m "[head l]" xs "tail l" "[]" 0]
  by (simp add: list_size_def list_begin_is_list list_end_def is_list_def)

section \<open>Reversal\<close>

definition swap_links :: "list_elem \<Rightarrow> list_elem" where
  "swap_links e = \<lparr>le_prev = le_next e, le_next = le_prev e\<rparr>"

definition swap_all :: "lmem \<Rightarrow> ptr list \<Rightarrow> lmem" where
  "swap_all m xs = (\<lambda>a. if a \<in> set xs then map_option swap_links (m a) else m a)"

lemma swap_all_simps:
  "live (swap_all m xs) a = live m a"
  "live m a \<Longrightarrow> pv (swap_all m xs) a = (if a \<in> set xs then nv m a else pv m a)"
  "live m a \<Longrightarrow> nv (swap_all m xs) a = (if a \<in> set xs then pv m a else nv m a)"
  by (auto simp: swap_all_def live_def pv_def nv_def swap_links_def)

lemma swap_all_step:
  assumes "live m x" "x \<notin> set xs"
  shows "swap_all (wn (wp m x (nv m x)) x (pv m x)) xs = swap_all m (x # xs)"
  using assms
  by (auto simp: swap_all_def wn_def wp_def live_def pv_def nv_def swap_links_def intro!: ext)

lemma list_reverse_loop_dseg:
  "dseg m p xs t \<Longrightarrow> distinct xs \<Longrightarrow> t \<notin> set xs \<Longrightarrow>
   list_reverse_loop m t (hd (xs @ [t])) = Some (swap_all m xs)"
proof (induction xs arbitrary: m p)
  case Nil
  show ?case by (subst list_reverse_loop.simps) (simp add: swap_all_def)
next
  case (Cons x xs)
  let ?m = "wn (wp m x (nv m x)) x (pv m x)"
  have lx: "live m x" "x \<noteq> t" "x \<notin> set xs" "nv m x = hd (xs @ [t])" using Cons.prems by auto
  have "list_reverse_loop ?m t (hd (xs @ [t])) = Some (swap_all ?m xs)"
    using Cons.prems by (intro Cons.IH [of _ x]) (auto simp: mem_simps)
  then show ?case
    using lx swap_all_step [OF lx(1,3)] by (subst list_reverse_loop.simps) (simp add: mem_simps)
qed

lemma dseg_reversed:
  "dseg m p xs n \<Longrightarrow> (\<And>a. a \<in> set xs \<Longrightarrow> live m' a \<and> pv m' a = nv m a \<and> nv m' a = pv m a) \<Longrightarrow>
   dseg m' n (rev xs) p"
proof (induction xs arbitrary: p)
  case (Cons x xs)
  then show ?case by (auto simp: hd_append last_rev)
qed simp

lemma dseg_swap_all: "dseg m p xs n \<Longrightarrow> dseg (swap_all m xs) n (rev xs) p"
  by (rule dseg_reversed) (simp_all add: swap_all_simps dseg_live)

lemma list_reverse_is_list:
  assumes l: "is_list m l xs"
  obtains m' where "list_reverse m l = Some m'" "is_list m' l (rev xs)"
    "\<And>a. a \<notin> list_nodes l xs \<Longrightarrow> m' a = m a"
proof (cases "xs = []")
  case True
  with l that show ?thesis by (auto simp: list_reverse_def list_empty_is_list)
next
  case False
  define f g h t where fght: "f = hd xs" "g = last xs" "h = head l" "t = tail l"
  have seg: "dseg m NULL [h] f" "dseg m h xs t" "dseg m g [t] NULL"
    using l False by (auto simp: is_list_def chain_def fght hd_append)
  have d: "distinct xs" "h \<notin> set xs" "t \<notin> set xs" "h \<noteq> t" "f \<in> set xs" "g \<in> set xs"
    using is_list_nodes [OF l] False by (auto simp: fght)
  have ne: "f \<noteq> h" "f \<noteq> t" "g \<noteq> h" "g \<noteq> t" using d by auto
  have ends: "pv m f = h" "nv m g = t"
    using dseg_ends [OF seg(2) False] by (simp_all add: fght)
  have lv: "live m h" "live m t" "live m f" "live m g"
    using seg d by (auto dest: dseg_live)
  let ?m1 = "swap_all m xs"
  let ?m = "wn (wp (wp (wn ?m1 h g) t f) g h) f t"
  have "list_reverse_loop m t f = Some ?m1"
    using list_reverse_loop_dseg [OF seg(2)] d False by (simp add: fght hd_append)
  then have "list_reverse m l = Some ?m"
    using l lv seg d ne ends False list_begin_is_list [OF l]
    by (simp add: list_reverse_def list_empty_is_list list_end_def mem_simps swap_all_simps
          fght [symmetric] hd_append)
  moreover have "dseg ?m h (rev xs) t"
  proof -
    have "dseg (wp (wn ?m1 h g) t f) t (rev xs) h"
      using dseg_swap_all [OF seg(2)] d by (simp add: mem_simps)
    from dseg_wn_last [OF dseg_wp_first [OF this]] show ?thesis
      using d False by (simp add: fght hd_rev last_rev)
  qed
  then have "is_list ?m l (rev xs)"
    using d ne seg lv False
    by (auto simp: is_list_def chain_def mem_simps swap_all_simps fght [symmetric] hd_append hd_rev last_rev)
  moreover have "?m a = m a" if "a \<notin> list_nodes l xs" for a
  proof -
    have "a \<noteq> h" "a \<noteq> t" "a \<noteq> f" "a \<noteq> g" "a \<notin> set xs"
      using that d by (auto simp: list_nodes_def fght)
    then show ?thesis by (simp add: upd_other swap_all_def)
  qed
  ultimately show ?thesis by (rule that)
qed

section \<open>Extreme elements\<close>

lemma fold_max_key:
  fixes key :: "'a \<Rightarrow> 'k::linorder"
  assumes "\<And>x y. lt x y \<longleftrightarrow> key x < key y"
  shows "\<exists>as bs. x # xs = as @ fold (\<lambda>e mx. if lt mx e then e else mx) xs x # bs \<and>
           (\<forall>a \<in> set as. key a < key (fold (\<lambda>e mx. if lt mx e then e else mx) xs x)) \<and>
           (\<forall>b \<in> set bs. key b \<le> key (fold (\<lambda>e mx. if lt mx e then e else mx) xs x))"
    (is "\<exists>as bs. _ = as @ ?r # bs \<and> _")
proof (induction xs rule: rev_induct)
  case Nil
  show ?case by (rule exI [of _ "[]"]) simp
next
  case (snoc y xs)
  let ?r = "fold (\<lambda>e mx. if lt mx e then e else mx) xs x"
  from snoc obtain as bs where IH: "x # xs = as @ ?r # bs"
    "\<forall>a \<in> set as. key a < key ?r" "\<forall>b \<in> set bs. key b \<le> key ?r" by auto
  show ?case
  proof (cases "lt ?r y")
    case True
    have "x # xs @ [y] = (as @ ?r # bs) @ y # []" using IH(1) by simp
    moreover have "\<forall>a \<in> set (as @ ?r # bs). key a < key y"
      using IH(2,3) True by (auto simp: assms)
    ultimately show ?thesis
      using True by (intro exI [of _ "as @ ?r # bs"] exI [of _ "[]"]) simp
  next
    case False
    have "x # xs @ [y] = as @ ?r # (bs @ [y])" using IH(1) by simp
    moreover have "\<forall>b \<in> set (bs @ [y]). key b \<le> key ?r"
      using IH(3) False by (auto simp: assms)
    ultimately show ?thesis
      using IH(2) False by (intro exI [of _ as] exI [of _ "bs @ [y]"]) simp
  qed
qed

context elem_less
begin

lemma list_max_is_list:
  assumes "is_list m l (x # xs)"
  obtains y as bs where "list_max m l lt = Some y" "x # xs = as @ y # bs"
    "\<forall>a \<in> set as. key a < key y" "\<forall>b \<in> set bs. key b \<le> key y"
proof -
  let ?y = "fold (\<lambda>e mx. if lt mx e then e else mx) xs x"
  have c: "chain m ([head l] @ x # xs @ tail l # [])" using assms by (simp add: is_list_def)
  have "list_max_loop m (tail l) lt x (hd (xs @ [tail l])) = Some ?y"
    using list_max_loop_chain [of m "[head l, x]" xs "tail l" "[]" lt x] c by simp
  moreover have "list_next m x = Some (hd (xs @ [tail l]))"
    using list_next_seg [OF c] by simp
  moreover have "x \<noteq> tail l" using is_list_nodes [OF assms] by auto
  ultimately have "list_max m l lt = Some ?y"
    using assms by (simp add: list_max_def list_begin_is_list list_end_def)
  then show ?thesis
    using fold_max_key [of lt key x xs, OF lt_key] that by blast
qed

end

section \<open>The queue contract\<close>

text \<open>
  What the kernel's users of a list rely on when they use it as a queue. \<open>rep s A xs\<close>: the
  state \<open>s\<close> holds the queue \<open>xs\<close>, and the elements of \<open>A\<close> can be enqueued.
\<close>

locale fifo_queue =
  fixes rep :: "'s \<Rightarrow> 'a set \<Rightarrow> 'a list \<Rightarrow> bool"
    and enq :: "'s \<Rightarrow> 'a \<Rightarrow> 's option"
    and deq :: "'s \<Rightarrow> ('a \<times> 's) option"
  assumes enq_rep: "rep s A xs \<Longrightarrow> a \<in> A \<Longrightarrow> \<exists>s'. enq s a = Some s' \<and> rep s' (A - {a}) (xs @ [a])"
    and deq_rep: "rep s A (x # xs) \<Longrightarrow> \<exists>s'. deq s = Some (x, s') \<and> rep s' (insert x A) xs"

fun enq_all :: "('s \<Rightarrow> 'a \<Rightarrow> 's option) \<Rightarrow> 's \<Rightarrow> 'a list \<Rightarrow> 's option" where
  "enq_all f s [] = Some s"
| "enq_all f s (a # as) = do { s \<leftarrow> f s a; enq_all f s as }"

fun deq_many :: "('s \<Rightarrow> ('a \<times> 's) option) \<Rightarrow> 's \<Rightarrow> nat \<Rightarrow> ('a list \<times> 's) option" where
  "deq_many f s 0 = Some ([], s)"
| "deq_many f s (Suc n) = do { (a, s) \<leftarrow> f s; (as, s) \<leftarrow> deq_many f s n; Some (a # as, s) }"

context fifo_queue
begin

lemma enq_all_rep:
  "rep s A xs \<Longrightarrow> distinct as \<Longrightarrow> set as \<subseteq> A \<Longrightarrow>
   \<exists>s'. enq_all enq s as = Some s' \<and> rep s' (A - set as) (xs @ as)"
proof (induction as arbitrary: s A xs)
  case (Cons a as)
  then obtain s1 where s1: "enq s a = Some s1" "rep s1 (A - {a}) (xs @ [a])"
    using enq_rep [of s A xs a] by auto
  have "set as \<subseteq> A - {a}" using Cons.prems by auto
  moreover have "A - {a} - set as = A - set (a # as)" by auto
  ultimately show ?case
    using Cons.IH [OF s1(2)] Cons.prems s1(1) by simp
qed simp

lemma deq_many_rep:
  "rep s A xs \<Longrightarrow> \<exists>s'. deq_many deq s (length xs) = Some (xs, s') \<and> rep s' (A \<union> set xs) []"
proof (induction xs arbitrary: s A)
  case (Cons x xs)
  then obtain s1 where "deq s = Some (x, s1)" "rep s1 (insert x A) xs"
    using deq_rep by blast
  then show ?case using Cons.IH [of s1 "insert x A"] by auto
qed simp

lemma fifo:
  assumes "rep s A xs" "distinct as" "set as \<subseteq> A"
  shows "\<exists>s' s''. enq_all enq s as = Some s' \<and>
    deq_many deq s' (length xs + length as) = Some (xs @ as, s'') \<and> rep s'' (A \<union> set xs) []"
proof -
  obtain s' where s': "enq_all enq s as = Some s'" "rep s' (A - set as) (xs @ as)"
    using enq_all_rep [OF assms] by blast
  have "A - set as \<union> set (xs @ as) = A \<union> set xs" using assms(3) by auto
  with deq_many_rep [OF s'(2)] s'(1) show ?thesis by simp
qed

end

definition queue_rep :: "klist \<Rightarrow> lmem \<Rightarrow> ptr set \<Rightarrow> ptr list \<Rightarrow> bool" where
  "queue_rep l m A xs \<longleftrightarrow> is_list m l xs \<and> (\<forall>a \<in> A. live m a \<and> a \<notin> list_nodes l xs)"

interpretation push_pop: fifo_queue "queue_rep l" "\<lambda>m e. list_push_back m l e" "\<lambda>m. list_pop_front m l"
  for l
proof unfold_locales
  fix m A xs a assume r: "queue_rep l m A xs" and a: "a \<in> A"
  then have "is_list m l xs" "live m a" "a \<notin> list_nodes l xs"
    by (auto simp: queue_rep_def)
  then obtain m' where m': "list_push_back m l a = Some m'" "is_list m' l (xs @ [a])"
    "\<And>b. b \<notin> insert a (list_nodes l xs) \<Longrightarrow> m' b = m b"
    by (rule list_push_back_is_list) blast
  have "live m' b \<and> b \<notin> list_nodes l (xs @ [a])" if "b \<in> A - {a}" for b
  proof -
    have b: "live m b" "b \<notin> list_nodes l xs" "b \<noteq> a"
      using that r by (auto simp: queue_rep_def)
    then have "m' b = m b" by (intro m'(3)) simp
    with b show ?thesis by (simp add: live_def list_nodes_def)
  qed
  then have "queue_rep l m' (A - {a}) (xs @ [a])"
    using m'(2) by (simp add: queue_rep_def)
  with m'(1) show "\<exists>m'. list_push_back m l a = Some m' \<and> queue_rep l m' (A - {a}) (xs @ [a])"
    by blast
next
  fix m A x xs assume r: "queue_rep l m A (x # xs)"
  then have "is_list m l (x # xs)" by (simp add: queue_rep_def)
  then obtain m' where m': "list_pop_front m l = Some (x, m')" "is_list m' l xs" "live m' x"
    "\<And>b. b \<notin> list_nodes l xs \<Longrightarrow> m' b = m b"
    by (rule list_pop_front_is_list) blast
  have "x \<notin> list_nodes l xs"
    using r by (auto simp: queue_rep_def list_nodes_def is_list_def chain_def)
  moreover have "live m' b \<and> b \<notin> list_nodes l xs" if "b \<in> A" for b
  proof -
    have b: "live m b" "b \<notin> list_nodes l xs"
      using that r by (auto simp: queue_rep_def list_nodes_def)
    then have "m' b = m b" by (intro m'(4))
    with b show ?thesis by (simp add: live_def)
  qed
  ultimately have "queue_rep l m' (insert x A) xs"
    using m'(2,3) by (simp add: queue_rep_def)
  with m'(1) show "\<exists>m'. list_pop_front m l = Some (x, m') \<and> queue_rep l m' (insert x A) xs"
    by blast
qed

section \<open>What the list operations guarantee\<close>

text \<open>A store with one list of three elements, used to show that the hypotheses can hold.\<close>

definition sample_mem :: lmem where
  "sample_mem = map_of
     [(1, \<lparr>le_prev = NULL, le_next = 3\<rparr>), (3, \<lparr>le_prev = 1, le_next = 4\<rparr>),
      (4, \<lparr>le_prev = 3, le_next = 5\<rparr>), (5, \<lparr>le_prev = 4, le_next = 2\<rparr>),
      (2, \<lparr>le_prev = 5, le_next = NULL\<rparr>), (6, \<lparr>le_prev = NULL, le_next = NULL\<rparr>),
      (7, \<lparr>le_prev = NULL, le_next = NULL\<rparr>)]"

definition sample_list :: klist where
  "sample_list = \<lparr>head = 1, tail = 2\<rparr>"

lemma sample_is_list: "is_list sample_mem sample_list [3, 4, 5]"
  by (simp add: is_list_def chain_def live_def pv_def nv_def sample_mem_def sample_list_def)

lemma sample_live: "live sample_mem 6" "live sample_mem 7"
  by (simp_all add: live_def sample_mem_def)

text \<open>
  C18: \<open>list_sort\<close>, with any comparison that compares a key in a linear order, returns (no
  assertion fails and its passes end) with the list holding the stable sort of its elements
  and no link outside the list changed.
\<close>

theorem list_sort_stable:
  fixes key :: "ptr \<Rightarrow> 'k::linorder"
  assumes "\<And>x y. lt x y \<longleftrightarrow> key x < key y" and "is_list m l xs"
  shows "\<exists>m'. list_sort m l lt = Some m' \<and> is_list m' l (sort_key key xs) \<and>
    (\<forall>a. a \<notin> list_nodes l xs \<longrightarrow> m' a = m a)"
proof -
  have "elem_less lt key"
    using assms(1) by (simp add: elem_less_def keyed_less_def)
  from elem_less.list_sort_refines [OF this assms(2)] show ?thesis
    unfolding list_nodes_def by blast
qed

theorem list_sort_stable_witness:
  "is_list sample_mem sample_list [3, 4, 5] \<and>
   (\<exists>m'. list_sort sample_mem sample_list (\<lambda>x y. y < x) = Some m' \<and> is_list m' sample_list [5, 4, 3])"
  using list_sort_stable [where lt = "\<lambda>x y. y < x" and key = "\<lambda>x. - int x", OF _ sample_is_list]
    sample_is_list by (simp add: insort_key_def) blast

text \<open>
  \<open>list_insert_ordered\<close> puts the element before the first one that the comparison
  places after it (so behind its equals), and changes no link outside the list and the element.
\<close>

theorem list_insert_ordered_position:
  assumes "is_list m l xs" and "live m e" and "e \<notin> list_nodes l xs"
  shows "\<exists>m'. list_insert_ordered m l e lt = Some m' \<and> is_list m' l (insert_ordered lt e xs) \<and>
    (\<forall>a. a \<notin> insert e (list_nodes l xs) \<longrightarrow> m' a = m a)"
  using list_insert_ordered_is_list [OF assms] by blast

theorem list_insert_ordered_position_witness:
  "is_list sample_mem sample_list [3, 4, 5] \<and>
   (\<exists>m'. list_insert_ordered sample_mem sample_list 6 (\<lambda>x y. y = 4) = Some m' \<and>
      is_list m' sample_list [3, 6, 4, 5])"
  using list_insert_ordered_position [OF sample_is_list sample_live(1), of "\<lambda>x y. y = 4"] sample_is_list
  by (auto simp: list_nodes_def sample_list_def)

text \<open>
  used with \<open>list_push_back\<close> and \<open>list_pop_front\<close> a list is a first-in first-out queue:
  after pushing new elements, popping returns the old elements and then the new ones, in
  order, and leaves the list empty.
\<close>

theorem list_fifo:
  assumes "queue_rep l m A xs" and "distinct as" and "set as \<subseteq> A"
  shows "\<exists>m' m''. enq_all (\<lambda>m e. list_push_back m l e) m as = Some m' \<and>
    deq_many (\<lambda>m. list_pop_front m l) m' (length xs + length as) = Some (xs @ as, m'') \<and>
    is_list m'' l []"
  using push_pop.fifo [OF assms] by (auto simp: queue_rep_def)

theorem list_fifo_witness:
  "queue_rep sample_list sample_mem {6, 7} [3, 4, 5] \<and>
   (\<exists>m' m''. enq_all (\<lambda>m e. list_push_back m sample_list e) sample_mem [7, 6] = Some m' \<and>
    deq_many (\<lambda>m. list_pop_front m sample_list) m' 5 = Some ([3, 4, 5, 7, 6], m'') \<and>
    is_list m'' sample_list [])"
proof -
  have r: "queue_rep sample_list sample_mem {6, 7} [3, 4, 5]"
    using sample_is_list sample_live by (simp add: queue_rep_def list_nodes_def sample_list_def)
  show ?thesis
    using list_fifo [OF r, of "[7, 6]"] r by (simp add: eval_nat_numeral)
qed

end
