(* ===== verification/Bitmap.thy ===== *)
theory Bitmap
  imports Pintos_Prelude
begin

text \<open>
  The bitmaps of \<^verbatim>\<open>lib/kernel/bitmap.c\<close>: an array of 32-bit words that represents an array of
  bits. The operations are modelled on the words, with the masks the code computes; \<open>bit_at\<close>
  is the abstract array of bits, and the lemmas state every operation on that array.
  A write outside the array of words is a stop of the kernel. Reading and writing a bitmap
  as a file is in the theory of the free map.
\<close>

unbundle bit_operations_syntax

section \<open>Elements and masks\<close>

record bitmap =
  bit_cnt :: nat
  bits :: "u32 list"

definition ELEM_BITS :: nat where
  "ELEM_BITS = 32"

definition BITMAP_ERROR :: nat where
  "BITMAP_ERROR = 2 ^ 32 - 1"

definition elem_idx :: "nat \<Rightarrow> nat" where
  "elem_idx bit_idx = bit_idx div ELEM_BITS"

definition bit_mask :: "nat \<Rightarrow> u32" where
  "bit_mask bit_idx = push_bit (bit_idx mod ELEM_BITS) 1"

definition elem_cnt :: "nat \<Rightarrow> nat" where
  "elem_cnt n = DIV_ROUND_UP n ELEM_BITS"

definition byte_cnt :: "nat \<Rightarrow> nat" where
  "byte_cnt n = 4 * elem_cnt n"

definition last_mask :: "bitmap \<Rightarrow> u32" where
  "last_mask b =
     (let last_bits = bit_cnt b mod ELEM_BITS
      in if last_bits \<noteq> 0 then push_bit last_bits 1 - 1 else - 1)"

section \<open>Size, single bits\<close>

definition bitmap_buf_size :: "nat \<Rightarrow> nat" where
  "bitmap_buf_size n = 8 + byte_cnt n"

definition bitmap_size :: "bitmap \<Rightarrow> nat" where
  "bitmap_size b = bit_cnt b"

definition bitmap_mark :: "bitmap \<Rightarrow> nat \<Rightarrow> bitmap option" where
  "bitmap_mark b bit_idx =
     (let idx = elem_idx bit_idx; mask = bit_mask bit_idx
      in if idx < length (bits b)
         then Some (b\<lparr>bits := (bits b)[idx := bits b ! idx OR mask]\<rparr>) else None)"

definition bitmap_reset :: "bitmap \<Rightarrow> nat \<Rightarrow> bitmap option" where
  "bitmap_reset b bit_idx =
     (let idx = elem_idx bit_idx; mask = bit_mask bit_idx
      in if idx < length (bits b)
         then Some (b\<lparr>bits := (bits b)[idx := bits b ! idx AND NOT mask]\<rparr>) else None)"

definition bitmap_flip :: "bitmap \<Rightarrow> nat \<Rightarrow> bitmap option" where
  "bitmap_flip b bit_idx =
     (let idx = elem_idx bit_idx; mask = bit_mask bit_idx
      in if idx < length (bits b)
         then Some (b\<lparr>bits := (bits b)[idx := bits b ! idx XOR mask]\<rparr>) else None)"

definition bitmap_set :: "bitmap \<Rightarrow> nat \<Rightarrow> bool \<Rightarrow> bitmap option" where
  "bitmap_set b idx v = do {
     ASSERT (idx < bit_cnt b);
     if v then bitmap_mark b idx else bitmap_reset b idx }"

definition bitmap_test :: "bitmap \<Rightarrow> nat \<Rightarrow> bool option" where
  "bitmap_test b idx = do {
     ASSERT (idx < bit_cnt b);
     if elem_idx idx < length (bits b)
     then Some (bits b ! elem_idx idx AND bit_mask idx \<noteq> 0) else None }"

section \<open>Multiple bits\<close>

text \<open>The range assertions compare \<open>start + cnt\<close> as the code computes it, modulo \<open>2 ^ 32\<close>.\<close>

definition range_ok :: "bitmap \<Rightarrow> nat \<Rightarrow> nat \<Rightarrow> unit option" where
  "range_ok b start cnt = do {
     ASSERT (start \<le> bit_cnt b);
     ASSERT ((start + cnt) mod 2 ^ 32 \<le> bit_cnt b) }"

fun set_loop :: "bitmap \<Rightarrow> nat \<Rightarrow> nat \<Rightarrow> bool \<Rightarrow> bitmap option" where
  "set_loop b i 0 v = Some b"
| "set_loop b i (Suc n) v = do { b \<leftarrow> bitmap_set b i v; set_loop b (i + 1) n v }"

definition bitmap_set_multiple :: "bitmap \<Rightarrow> nat \<Rightarrow> nat \<Rightarrow> bool \<Rightarrow> bitmap option" where
  "bitmap_set_multiple b start cnt v = do { range_ok b start cnt; set_loop b start cnt v }"

definition bitmap_set_all :: "bitmap \<Rightarrow> bool \<Rightarrow> bitmap option" where
  "bitmap_set_all b v = bitmap_set_multiple b 0 (bitmap_size b) v"

fun count_loop :: "bitmap \<Rightarrow> nat \<Rightarrow> nat \<Rightarrow> bool \<Rightarrow> nat \<Rightarrow> nat option" where
  "count_loop b i 0 v c = Some c"
| "count_loop b i (Suc n) v c = do {
     t \<leftarrow> bitmap_test b i;
     count_loop b (i + 1) n v (if t = v then c + 1 else c) }"

definition bitmap_count :: "bitmap \<Rightarrow> nat \<Rightarrow> nat \<Rightarrow> bool \<Rightarrow> nat option" where
  "bitmap_count b start cnt v = do { range_ok b start cnt; count_loop b start cnt v 0 }"

fun contains_loop :: "bitmap \<Rightarrow> nat \<Rightarrow> nat \<Rightarrow> bool \<Rightarrow> bool option" where
  "contains_loop b i 0 v = Some False"
| "contains_loop b i (Suc n) v = do {
     t \<leftarrow> bitmap_test b i;
     if t = v then Some True else contains_loop b (i + 1) n v }"

definition bitmap_contains :: "bitmap \<Rightarrow> nat \<Rightarrow> nat \<Rightarrow> bool \<Rightarrow> bool option" where
  "bitmap_contains b start cnt v = do { range_ok b start cnt; contains_loop b start cnt v }"

definition bitmap_any :: "bitmap \<Rightarrow> nat \<Rightarrow> nat \<Rightarrow> bool option" where
  "bitmap_any b start cnt = bitmap_contains b start cnt True"

definition bitmap_none :: "bitmap \<Rightarrow> nat \<Rightarrow> nat \<Rightarrow> bool option" where
  "bitmap_none b start cnt = map_option Not (bitmap_contains b start cnt True)"

definition bitmap_all :: "bitmap \<Rightarrow> nat \<Rightarrow> nat \<Rightarrow> bool option" where
  "bitmap_all b start cnt = map_option Not (bitmap_contains b start cnt False)"

section \<open>Finding groups of bits\<close>

text \<open>The loop \<open>for (i = start; i <= last; i++)\<close>, with the number of iterations left.\<close>

fun scan_loop :: "bitmap \<Rightarrow> nat \<Rightarrow> nat \<Rightarrow> nat \<Rightarrow> bool \<Rightarrow> nat option" where
  "scan_loop b i 0 cnt v = Some BITMAP_ERROR"
| "scan_loop b i (Suc n) cnt v = do {
     c \<leftarrow> bitmap_contains b i cnt (\<not> v);
     if \<not> c then Some i else scan_loop b (i + 1) n cnt v }"

definition bitmap_scan :: "bitmap \<Rightarrow> nat \<Rightarrow> nat \<Rightarrow> bool \<Rightarrow> nat option" where
  "bitmap_scan b start cnt v = do {
     ASSERT (start \<le> bit_cnt b);
     if cnt \<le> bit_cnt b
     then let last = bit_cnt b - cnt in scan_loop b start (last + 1 - start) cnt v
     else Some BITMAP_ERROR }"

definition bitmap_scan_and_flip :: "bitmap \<Rightarrow> nat \<Rightarrow> nat \<Rightarrow> bool \<Rightarrow> (nat \<times> bitmap) option" where
  "bitmap_scan_and_flip b start cnt v = do {
     idx \<leftarrow> bitmap_scan b start cnt v;
     if idx \<noteq> BITMAP_ERROR
     then do { b \<leftarrow> bitmap_set_multiple b idx cnt (\<not> v); Some (idx, b) }
     else Some (idx, b) }"

text \<open>
  Creation: the two allocations of \<open>bitmap_create\<close> succeed or fail as the arguments say, and
  the memory \<open>malloc\<close> returns holds unknown words \<open>ws\<close>; \<open>bitmap_create_in_buf\<close> uses the words
  \<open>ws\<close> that lie behind the header in its block.
\<close>

definition bitmap_create :: "bool \<Rightarrow> bool \<Rightarrow> u32 list \<Rightarrow> nat \<Rightarrow> bitmap option option" where
  "bitmap_create ok1 ok2 ws n =
     (if ok1 \<and> (ok2 \<or> n = 0)
      then map_option Some (bitmap_set_all \<lparr>bit_cnt = n, bits = ws\<rparr> False)
      else Some None)"

definition bitmap_create_in_buf :: "nat \<Rightarrow> u32 list \<Rightarrow> nat \<Rightarrow> bitmap option" where
  "bitmap_create_in_buf n ws block_size = do {
     ASSERT (bitmap_buf_size n \<le> block_size);
     bitmap_set_all \<lparr>bit_cnt = n, bits = ws\<rparr> False }"

section \<open>The array of bits\<close>

definition bit_at :: "bitmap \<Rightarrow> nat \<Rightarrow> bool" where
  "bit_at b i = bit (bits b ! elem_idx i) (i mod ELEM_BITS)"

definition bitmap_wf :: "bitmap \<Rightarrow> bool" where
  "bitmap_wf b \<longleftrightarrow> length (bits b) = elem_cnt (bit_cnt b) \<and> bit_cnt b < 2 ^ 31"

lemma elem_idx_less: "i < n \<Longrightarrow> elem_idx i < elem_cnt n"
  by (auto simp: elem_idx_def elem_cnt_def DIV_ROUND_UP_def ELEM_BITS_def)

lemma bit_mask_bit: "bit (bit_mask i) k \<longleftrightarrow> k = i mod ELEM_BITS"
  by (auto simp: bit_mask_def bit_simps ELEM_BITS_def)

lemma and_mask_nonzero: "(w AND bit_mask i \<noteq> 0) = bit w (i mod ELEM_BITS)"
proof -
  have "w AND bit_mask i = (if bit w (i mod ELEM_BITS) then bit_mask i else 0)"
    by (rule bit_eqI) (auto simp: bit_simps bit_mask_bit)
  moreover have "bit_mask i \<noteq> 0"
    using bit_mask_bit [of i "i mod ELEM_BITS"] by auto
  ultimately show ?thesis by simp
qed

lemma elem_eq_iff: "i = j \<longleftrightarrow> elem_idx i = elem_idx j \<and> i mod ELEM_BITS = j mod ELEM_BITS"
  by (metis div_mult_mod_eq elem_idx_def)

lemma bitmap_test_bit: "bitmap_wf b \<Longrightarrow> i < bit_cnt b \<Longrightarrow> bitmap_test b i = Some (bit_at b i)"
  using elem_idx_less [of i "bit_cnt b"]
  by (simp add: bitmap_test_def bitmap_wf_def bit_at_def and_mask_nonzero)

text \<open>\<open>same_shape\<close>: only the values of bits may differ.\<close>

definition same_shape :: "bitmap \<Rightarrow> bitmap \<Rightarrow> bool" where
  "same_shape b b' \<longleftrightarrow> bit_cnt b' = bit_cnt b \<and> length (bits b') = length (bits b)"

lemma same_shape_wf: "same_shape b b' \<Longrightarrow> bitmap_wf b' = bitmap_wf b"
  by (simp add: same_shape_def bitmap_wf_def)

lemma same_shape_keeps: "same_shape b b' \<Longrightarrow> bitmap_wf b \<Longrightarrow> bitmap_wf b' \<and> bit_cnt b' = bit_cnt b"
  by (simp add: same_shape_def bitmap_wf_def)

lemma bitmap_set_bit:
  assumes "bitmap_wf b" "i < bit_cnt b"
  obtains b' where "bitmap_set b i v = Some b'" "same_shape b b'"
    "\<And>j. j < bit_cnt b \<Longrightarrow> bit_at b' j = (if j = i then v else bit_at b j)"
proof -
  have len: "elem_idx j < length (bits b)" if "j < bit_cnt b" for j
    using assms(1) that by (simp add: bitmap_wf_def elem_idx_less)
  let ?w = "\<lambda>w. if v then w OR bit_mask i else w AND NOT (bit_mask i)"
  let ?b = "b\<lparr>bits := (bits b)[elem_idx i := ?w (bits b ! elem_idx i)]\<rparr>"
  have "bitmap_set b i v = Some ?b"
    using assms len by (simp add: bitmap_set_def bitmap_mark_def bitmap_reset_def Let_def)
  moreover have "same_shape b ?b" by (simp add: same_shape_def)
  moreover have "bit_at ?b j = (if j = i then v else bit_at b j)" if "j < bit_cnt b" for j
  proof (cases "elem_idx j = elem_idx i")
    case True
    then show ?thesis
      using len [OF assms(2)] elem_eq_iff [of j i]
      by (auto simp: bit_at_def bit_simps bit_mask_bit ELEM_BITS_def)
  next
    case False
    then show ?thesis by (auto simp: bit_at_def)
  qed
  ultimately show ?thesis by (rule that)
qed

lemma range_ok_iff:
  assumes "bit_cnt b < 2 ^ 31" "start + cnt \<le> bit_cnt b"
  shows "range_ok b start cnt = Some ()"
proof -
  have "start + cnt < 2 ^ 32" using assms by simp
  then show ?thesis using assms by (simp add: range_ok_def)
qed

lemma set_loop_bits:
  "bitmap_wf b \<Longrightarrow> i + n \<le> bit_cnt b \<Longrightarrow>
   \<exists>b'. set_loop b i n v = Some b' \<and> same_shape b b' \<and>
     (\<forall>j < bit_cnt b. bit_at b' j = (if i \<le> j \<and> j < i + n then v else bit_at b j))"
proof (induction n arbitrary: b i)
  case 0
  then show ?case by (auto simp: same_shape_def)
next
  case (Suc n)
  obtain b1 where b1: "bitmap_set b i v = Some b1" "same_shape b b1"
    "\<And>j. j < bit_cnt b \<Longrightarrow> bit_at b1 j = (if j = i then v else bit_at b j)"
    using bitmap_set_bit [of b i v] Suc.prems by auto
  have "bitmap_wf b1" "i + 1 + n \<le> bit_cnt b1"
    using same_shape_wf [OF b1(2)] b1(2) Suc.prems by (auto simp: same_shape_def)
  from Suc.IH [OF this] obtain b' where "set_loop b1 (i + 1) n v = Some b'" "same_shape b1 b'"
     "\<forall>j < bit_cnt b1. bit_at b' j = (if i + 1 \<le> j \<and> j < i + 1 + n then v else bit_at b1 j)"
    by blast
  then show ?case using b1 by (auto simp: same_shape_def)
qed

lemma set_loop_panics:
  "bitmap_wf b \<Longrightarrow> i \<le> bit_cnt b \<Longrightarrow> bit_cnt b < i + n \<Longrightarrow> set_loop b i n v = None"
proof (induction n arbitrary: b i)
  case (Suc n)
  show ?case
  proof (cases "i < bit_cnt b")
    case True
    then obtain b1 where b1: "bitmap_set b i v = Some b1" "same_shape b b1"
      using bitmap_set_bit [of b i v] Suc.prems by blast
    have "bitmap_wf b1" "bit_cnt b1 = bit_cnt b"
      using same_shape_wf [OF b1(2)] b1(2) Suc.prems(1) by (auto simp: same_shape_def)
    then have "set_loop b1 (i + 1) n v = None"
      using Suc.prems True by (intro Suc.IH) auto
    then show ?thesis by (simp add: b1)
  next
    case False
    then show ?thesis by (simp add: bitmap_set_def)
  qed
qed simp

lemma bitmap_set_multiple_bits:
  assumes "bitmap_wf b" "start + cnt \<le> bit_cnt b"
  obtains b' where "bitmap_set_multiple b start cnt v = Some b'" "same_shape b b'"
    "\<And>j. j < bit_cnt b \<Longrightarrow> bit_at b' j = (if start \<le> j \<and> j < start + cnt then v else bit_at b j)"
  using set_loop_bits [OF assms, of v] range_ok_iff [of b start cnt] assms that
  by (auto simp: bitmap_set_multiple_def bitmap_wf_def)

lemma upt_step: "[i..<i + Suc n] = i # [i + 1..<i + 1 + n]"
  by (simp add: upt_rec)

lemma contains_loop_bits:
  "bitmap_wf b \<Longrightarrow> i + n \<le> bit_cnt b \<Longrightarrow>
   contains_loop b i n v = Some (\<exists>j\<in>set [i..<i + n]. bit_at b j = v)"
proof (induction n arbitrary: i)
  case (Suc n)
  then show ?case using Suc.IH [of "i + 1"] unfolding upt_step by (simp add: bitmap_test_bit)
qed simp

lemma bitmap_contains_bits:
  assumes "bitmap_wf b" "start + cnt \<le> bit_cnt b"
  shows "bitmap_contains b start cnt v =
     Some (\<exists>j. start \<le> j \<and> j < start + cnt \<and> bit_at b j = v)"
  using contains_loop_bits [OF assms] range_ok_iff [OF _ assms(2)] assms(1)
  by (auto simp: bitmap_contains_def bitmap_wf_def)

lemma bitmap_all_bits:
  "bitmap_wf b \<Longrightarrow> start + cnt \<le> bit_cnt b \<Longrightarrow>
   bitmap_all b start cnt = Some (\<forall>j. start \<le> j \<and> j < start + cnt \<longrightarrow> bit_at b j)"
  by (auto simp: bitmap_all_def bitmap_contains_bits)

lemma count_loop_bits:
  "bitmap_wf b \<Longrightarrow> i + n \<le> bit_cnt b \<Longrightarrow>
   count_loop b i n v c = Some (c + length (filter (\<lambda>j. bit_at b j = v) [i..<i + n]))"
proof (induction n arbitrary: i c)
  case (Suc n)
  then show ?case using Suc.IH [of "i + 1"] unfolding upt_step by (simp add: bitmap_test_bit)
qed simp

section \<open>Scanning\<close>

text \<open>\<open>is_group b i cnt v\<close>: the \<open>cnt\<close> bits at \<open>i\<close> lie inside the bitmap and all have value \<open>v\<close>.\<close>

definition is_group :: "bitmap \<Rightarrow> nat \<Rightarrow> nat \<Rightarrow> bool \<Rightarrow> bool" where
  "is_group b i cnt v \<longleftrightarrow> i + cnt \<le> bit_cnt b \<and> (\<forall>j. i \<le> j \<and> j < i + cnt \<longrightarrow> bit_at b j = v)"

lemma scan_loop_find:
  "bitmap_wf b \<Longrightarrow> i + n + cnt \<le> bit_cnt b + 1 \<Longrightarrow>
   scan_loop b i n cnt v =
     Some (case find (\<lambda>k. is_group b k cnt v) [i..<i + n] of None \<Rightarrow> BITMAP_ERROR | Some k \<Rightarrow> k)"
proof (induction n arbitrary: i)
  case (Suc n)
  have "bitmap_contains b i cnt (\<not> v) = Some (\<not> is_group b i cnt v)"
    using Suc.prems by (auto simp: bitmap_contains_bits is_group_def)
  then show ?case using Suc.prems Suc.IH [of "i + 1"] unfolding upt_step by simp
qed simp

lemma find_upt_Some:
  assumes "find P [i..<j] = Some k"
  shows "i \<le> k" "k < j" "P k" "\<And>l. i \<le> l \<Longrightarrow> l < k \<Longrightarrow> \<not> P l"
proof -
  obtain m where m: "m < j - i" "k = i + m" "P k" "\<And>l. l < m \<Longrightarrow> \<not> P ([i..<j] ! l)"
    using assms by (auto simp: find_Some_iff)
  from m show "i \<le> k" "k < j" "P k" by simp_all
  show "\<not> P l" if "i \<le> l" "l < k" for l
    using m(4) [of "l - i"] m(1,2) that by simp
qed

lemma find_upt_None: "find P [i..<j] = None \<longleftrightarrow> (\<forall>l. i \<le> l \<and> l < j \<longrightarrow> \<not> P l)"
  by (auto simp: find_None_iff)

lemma bitmap_scan_find:
  assumes "bitmap_wf b" "start \<le> bit_cnt b"
  shows "bitmap_scan b start cnt v =
     Some (case find (\<lambda>k. is_group b k cnt v) [start..<bit_cnt b + 1] of
             None \<Rightarrow> BITMAP_ERROR | Some k \<Rightarrow> k)"
proof (cases "start + cnt \<le> bit_cnt b")
  case True
  let ?P = "\<lambda>k. is_group b k cnt v" and ?n = "bit_cnt b - cnt + 1"
  have "[start..<bit_cnt b + 1] = [start..<?n] @ [?n..<bit_cnt b + 1]"
    using True upt_add_eq_append [of start ?n cnt] by simp
  moreover have "find ?P [?n..<bit_cnt b + 1] = None"
    unfolding find_upt_None by (auto simp: is_group_def)
  moreover have "find P (xs @ ys) = (case find P xs of None \<Rightarrow> find P ys | Some k \<Rightarrow> Some k)"
    for P :: "nat \<Rightarrow> bool" and xs ys by (induction xs) auto
  ultimately have "find ?P [start..<bit_cnt b + 1] = find ?P [start..<?n]"
    by (auto split: option.split)
  moreover have "bitmap_scan b start cnt v = scan_loop b start (?n - start) cnt v"
    using True assms by (simp add: bitmap_scan_def)
  moreover have "start + (?n - start) = ?n" using True by simp
  ultimately show ?thesis using True assms scan_loop_find [of b start "?n - start" cnt v]
    by (simp only:)
next
  case False
  then have "find (\<lambda>k. is_group b k cnt v) [start..<bit_cnt b + 1] = None"
    unfolding find_upt_None by (auto simp: is_group_def)
  then show ?thesis using False assms by (simp add: bitmap_scan_def)
qed

lemma bitmap_scan_result:
  assumes "bitmap_wf b" "start \<le> bit_cnt b"
  obtains (none) "bitmap_scan b start cnt v = Some BITMAP_ERROR"
      "\<And>k. start \<le> k \<Longrightarrow> \<not> is_group b k cnt v"
  | (found) i where "bitmap_scan b start cnt v = Some i" "i \<noteq> BITMAP_ERROR" "start \<le> i"
      "is_group b i cnt v" "\<And>k. start \<le> k \<Longrightarrow> k < i \<Longrightarrow> \<not> is_group b k cnt v"
proof (cases "find (\<lambda>k. is_group b k cnt v) [start..<bit_cnt b + 1]")
  case None
  then have "\<not> is_group b k cnt v" if "start \<le> k" for k
    using that unfolding find_upt_None by (cases "k < bit_cnt b + 1") (auto simp: is_group_def)
  then show ?thesis using None assms by (intro none) (simp_all add: bitmap_scan_find)
next
  case (Some i)
  note f = find_upt_Some [OF this]
  have "i \<noteq> BITMAP_ERROR"
    using f(2) assms(1) by (auto simp: BITMAP_ERROR_def bitmap_wf_def)
  then show ?thesis using Some assms f by (intro found) (simp_all add: bitmap_scan_find)
qed

section \<open>Allocation of ranges\<close>

text \<open>
  Physical pages (\<^verbatim>\<open>threads/palloc.c\<close>) and disk sectors (\<^verbatim>\<open>filesys/free-map.c\<close>) are handed out by the
  same pair of calls: \<open>bitmap_scan_and_flip\<close> from a run of false bits, and
  \<open>bitmap_set_multiple\<close> back to false. The locale states what the two promise to a client;
  \<open>serve\<close> runs a sequence of requests, each to take \<open>n\<close> units or to give back the \<open>k\<close>-th of
  the ranges held, and the client's theorem is that the held ranges never overlap.
\<close>

datatype range_req = Take nat | Give nat

fun serve ::
  "('s \<Rightarrow> nat \<Rightarrow> (nat \<times> 's) option) \<Rightarrow> ('s \<Rightarrow> nat \<Rightarrow> nat \<Rightarrow> 's option) \<Rightarrow> nat \<Rightarrow>
   's \<Rightarrow> (nat \<times> nat) list \<Rightarrow> range_req list \<Rightarrow> ('s \<times> (nat \<times> nat) list) option" where
  "serve acquire release err s held [] = Some (s, held)"
| "serve acquire release err s held (Take n # rs) = do {
     (i, s) \<leftarrow> acquire s n;
     serve acquire release err s (if i = err then held else (i, n) # held) rs }"
| "serve acquire release err s held (Give k # rs) =
     (if k < length held
      then do { s \<leftarrow> release s (fst (held ! k)) (snd (held ! k));
                serve acquire release err s (take k held @ drop (Suc k) held) rs }
      else serve acquire release err s held rs)"

definition span :: "nat \<times> nat \<Rightarrow> nat set" where
  "span r = {fst r..<fst r + snd r}"

definition spans :: "(nat \<times> nat) list \<Rightarrow> nat set" where
  "spans rs = (\<Union>r\<in>set rs. span r)"

fun separate :: "(nat \<times> nat) list \<Rightarrow> bool" where
  "separate [] \<longleftrightarrow> True"
| "separate (r # rs) \<longleftrightarrow> span r \<inter> spans rs = {} \<and> separate rs"

lemma spans_simps [simp]:
  "spans [] = {}" "spans (r # rs) = span r \<union> spans rs" "spans (rs @ ts) = spans rs \<union> spans ts"
  by (auto simp: spans_def)

lemma separate_append:
  "separate (rs @ ts) \<longleftrightarrow> separate rs \<and> separate ts \<and> spans rs \<inter> spans ts = {}"
  by (induction rs) auto

locale range_allocator =
  fixes used :: "'s \<Rightarrow> nat set" and limit :: "'s \<Rightarrow> nat" and ok :: "'s \<Rightarrow> bool"
    and acquire :: "'s \<Rightarrow> nat \<Rightarrow> (nat \<times> 's) option"
    and release :: "'s \<Rightarrow> nat \<Rightarrow> nat \<Rightarrow> 's option" and err :: nat
  assumes acquire_law: "ok s \<Longrightarrow> \<exists>i s'. acquire s n = Some (i, s') \<and> ok s' \<and> limit s' = limit s \<and>
      (if i = err then used s' = used s
       else i + n \<le> limit s \<and> used s \<inter> span (i, n) = {} \<and> used s' = used s \<union> span (i, n))"
    and release_law: "ok s \<Longrightarrow> i + n \<le> limit s \<Longrightarrow> span (i, n) \<subseteq> used s \<Longrightarrow>
      \<exists>s'. release s i n = Some s' \<and> ok s' \<and> limit s' = limit s \<and> used s' = used s - span (i, n)"
begin

text \<open>The units in use are those of the ranges held, which are disjoint, and the reserved ones.\<close>

definition accounts :: "nat set \<Rightarrow> 's \<Rightarrow> (nat \<times> nat) list \<Rightarrow> bool" where
  "accounts fixed s held \<longleftrightarrow> ok s \<and> separate held \<and> used s = spans held \<union> fixed \<and>
     spans held \<inter> fixed = {} \<and> (\<forall>r\<in>set held. fst r + snd r \<le> limit s)"

lemma acquire_accounts:
  assumes "accounts fixed s held"
  obtains i s' where "acquire s n = Some (i, s')"
    "accounts fixed s' (if i = err then held else (i, n) # held)"
proof -
  obtain i s1 where s1: "acquire s n = Some (i, s1)" "ok s1" "limit s1 = limit s"
      "if i = err then used s1 = used s
       else i + n \<le> limit s \<and> used s \<inter> span (i, n) = {} \<and> used s1 = used s \<union> span (i, n)"
    using acquire_law [of s n] assms unfolding accounts_def by blast
  have "accounts fixed s1 (if i = err then held else (i, n) # held)"
    using assms s1 by (auto simp: accounts_def)
  with s1 that show ?thesis by blast
qed

lemma release_accounts:
  assumes "accounts fixed s held" "k < length held"
  obtains s' where "release s (fst (held ! k)) (snd (held ! k)) = Some s'"
    "accounts fixed s' (take k held @ drop (Suc k) held)"
proof -
  let ?r = "held ! k" and ?rest = "take k held @ drop (Suc k) held"
  have held: "held = take k held @ ?r # drop (Suc k) held"
    using assms(2) by (simp add: id_take_nth_drop)
  have "separate (take k held @ ?r # drop (Suc k) held)"
    using assms(1) held by (simp add: accounts_def)
  then have out: "separate ?rest" "span ?r \<inter> spans ?rest = {}"
    by (auto simp: separate_append)
  have all: "spans held = span ?r \<union> spans ?rest"
    by (subst held) auto
  obtain s1 where s1: "release s (fst ?r) (snd ?r) = Some s1" "ok s1" "limit s1 = limit s"
      "used s1 = used s - span ?r"
    using release_law [of s "fst ?r" "snd ?r"] assms all by (auto simp: accounts_def)
  have "accounts fixed s1 ?rest"
    using s1 out all assms(1) unfolding accounts_def by (auto dest: in_set_takeD in_set_dropD)
  with s1 that show ?thesis by blast
qed

lemma serve_accounts:
  "accounts fixed s held \<Longrightarrow>
   \<exists>s' held'. serve acquire release err s held rs = Some (s', held') \<and> accounts fixed s' held'"
proof (induction rs arbitrary: s held)
  case (Cons r rs)
  show ?case
  proof (cases r)
    case (Take n)
    obtain i s1 where "acquire s n = Some (i, s1)"
        "accounts fixed s1 (if i = err then held else (i, n) # held)"
      using acquire_accounts [OF Cons.prems] by blast
    then show ?thesis using Cons.IH [of s1] Take by simp
  next
    case (Give k)
    show ?thesis
    proof (cases "k < length held")
      case True
      obtain s1 where "release s (fst (held ! k)) (snd (held ! k)) = Some s1"
          "accounts fixed s1 (take k held @ drop (Suc k) held)"
        using release_accounts [OF Cons.prems True] by blast
      then show ?thesis using Cons.IH [of s1] Give True by simp
    next
      case False
      with Cons Give show ?thesis by simp
    qed
  qed
qed simp

end

definition bits_set :: "bitmap \<Rightarrow> nat set" where
  "bits_set b = {i. i < bit_cnt b \<and> bit_at b i}"

lemma bits_set_multiple:
  assumes "bitmap_wf b" "start + cnt \<le> bit_cnt b"
  shows "\<exists>b'. bitmap_set_multiple b start cnt v = Some b' \<and> same_shape b b' \<and>
    bits_set b' = (if v then bits_set b \<union> span (start, cnt) else bits_set b - span (start, cnt))"
proof -
  obtain b' where b': "bitmap_set_multiple b start cnt v = Some b'" "same_shape b b'"
    "\<And>j. j < bit_cnt b \<Longrightarrow> bit_at b' j = (if start \<le> j \<and> j < start + cnt then v else bit_at b j)"
    using bitmap_set_multiple_bits [OF assms] by blast
  moreover have "bits_set b' =
      (if v then bits_set b \<union> span (start, cnt) else bits_set b - span (start, cnt))"
    using b'(2,3) assms(2) by (auto simp: bits_set_def span_def same_shape_def split: if_splits)
  ultimately show ?thesis by blast
qed

lemma scan_and_flip_result:
  assumes "bitmap_wf b" "start \<le> bit_cnt b"
  obtains (none) "bitmap_scan_and_flip b start cnt False = Some (BITMAP_ERROR, b)"
      "\<And>k. start \<le> k \<Longrightarrow> \<not> is_group b k cnt False"
  | (found) i b' where "bitmap_scan_and_flip b start cnt False = Some (i, b')" "i \<noteq> BITMAP_ERROR"
      "same_shape b b'" "start \<le> i" "i + cnt \<le> bit_cnt b" "bits_set b \<inter> span (i, cnt) = {}"
      "bits_set b' = bits_set b \<union> span (i, cnt)"
      "\<And>k. start \<le> k \<Longrightarrow> k < i \<Longrightarrow> \<not> is_group b k cnt False"
  using assms
proof (cases rule: bitmap_scan_result [of b start cnt False])
  case none
  then show ?thesis using that(1) by (simp add: bitmap_scan_and_flip_def)
next
  case (found i)
  then have "i + cnt \<le> bit_cnt b" "bits_set b \<inter> span (i, cnt) = {}"
    by (auto simp: is_group_def bits_set_def span_def)
  with bits_set_multiple [OF assms(1) this(1), of True] found show ?thesis
    using that(2) by (auto simp: bitmap_scan_and_flip_def)
qed

interpretation bitmap_ranges: range_allocator bits_set bit_cnt bitmap_wf
  "\<lambda>b n. bitmap_scan_and_flip b 0 n False" "\<lambda>b i n. bitmap_set_multiple b i n False" BITMAP_ERROR
proof
  fix b n assume wf: "bitmap_wf b"
  then show "\<exists>i b'. bitmap_scan_and_flip b 0 n False = Some (i, b') \<and> bitmap_wf b' \<and>
      bit_cnt b' = bit_cnt b \<and> (if i = BITMAP_ERROR then bits_set b' = bits_set b
       else i + n \<le> bit_cnt b \<and> bits_set b \<inter> span (i, n) = {} \<and> bits_set b' = bits_set b \<union> span (i, n))"
    by (cases rule: scan_and_flip_result [OF wf le0, of n]) (auto dest: same_shape_keeps)
next
  fix b i n assume "bitmap_wf b" and "i + n \<le> bit_cnt b" and "span (i, n) \<subseteq> bits_set b"
  then show "\<exists>b'. bitmap_set_multiple b i n False = Some b' \<and> bitmap_wf b' \<and>
      bit_cnt b' = bit_cnt b \<and> bits_set b' = bits_set b - span (i, n)"
    using bits_set_multiple [of b i n False] by (auto dest: same_shape_keeps)
qed

lemma bitmap_create_in_buf_clear:
  assumes "length ws = elem_cnt n" "n < 2 ^ 31" "bitmap_buf_size n \<le> block_size"
  obtains b where "bitmap_create_in_buf n ws block_size = Some b" "bitmap_wf b" "bit_cnt b = n"
    "bits_set b = {}"
proof -
  let ?b = "\<lparr>bit_cnt = n, bits = ws\<rparr>"
  have wf: "bitmap_wf ?b" using assms by (simp add: bitmap_wf_def)
  from bits_set_multiple [OF wf, of 0 n False] obtain b where
    b: "bitmap_set_multiple ?b 0 n False = Some b" "same_shape ?b b" "bits_set b = bits_set ?b - span (0, n)"
    by auto
  have "bits_set ?b \<subseteq> span (0, n)" by (auto simp: bits_set_def span_def)
  then have "bits_set b = {}" unfolding b(3) by blast
  moreover have "bitmap_create_in_buf n ws block_size = Some b"
    using b(1) assms(3) by (simp add: bitmap_create_in_buf_def bitmap_set_all_def bitmap_size_def)
  moreover have "bitmap_wf b" "bit_cnt b = n" using same_shape_keeps [OF b(2) wf] by simp_all
  ultimately show ?thesis using that by blast
qed

section \<open>Properties\<close>

definition sample_bitmap :: bitmap where
  "sample_bitmap = \<lparr>bit_cnt = 40, bits = [0xFFFFFFF3, 0xF1]\<rparr>"



text \<open>
  C26. The page pools and the free map allocate by \<open>bitmap_scan_and_flip\<close> and free by
  \<open>bitmap_set_multiple\<close>. Whatever sequence of requests is served, no call stops the kernel, no
  two ranges handed out and not yet given back overlap, none of them contains a unit that was
  marked before the first request, and the marked bits are exactly those of the held ranges
  and of the units marked before.
\<close>

theorem bitmap_ranges_never_overlap:
  assumes "bitmap_wf b"
  shows "\<exists>b' held. serve (\<lambda>b n. bitmap_scan_and_flip b 0 n False)
      (\<lambda>b i n. bitmap_set_multiple b i n False) BITMAP_ERROR b [] reqs = Some (b', held) \<and>
    bitmap_wf b' \<and> separate held \<and> spans held \<inter> bits_set b = {} \<and>
    bits_set b' = spans held \<union> bits_set b"
proof -
  have "bitmap_ranges.accounts (bits_set b) b []"
    using assms by (simp add: bitmap_ranges.accounts_def)
  from bitmap_ranges.serve_accounts [OF this, of reqs] show ?thesis
    by (auto simp: bitmap_ranges.accounts_def)
qed

theorem bitmap_ranges_never_overlap_witness:
  "\<exists>b' held. serve (\<lambda>b n. bitmap_scan_and_flip b 0 n False)
      (\<lambda>b i n. bitmap_set_multiple b i n False) BITMAP_ERROR sample_bitmap []
      [Take 2, Take 1, Give 1, Take 3] = Some (b', held) \<and>
    bitmap_wf b' \<and> separate held \<and> spans held \<inter> bits_set sample_bitmap = {} \<and>
    bits_set b' = spans held \<union> bits_set sample_bitmap"
proof -
  have "bitmap_wf sample_bitmap"
    by (simp add: sample_bitmap_def bitmap_wf_def elem_cnt_def DIV_ROUND_UP_def ELEM_BITS_def)
  then show ?thesis by (rule bitmap_ranges_never_overlap)
qed

text \<open>
  \<open>bitmap_set_multiple\<close> sets the given range and nothing else when the range lies in the
  bitmap, and stops the kernel when it does not, also when \<open>start + cnt\<close> wraps around in 32
  bits and passes the assertion on the sum: the assertion of the single-bit setter then fails.
\<close>

theorem bitmap_set_multiple_exact:
  assumes "bitmap_wf b"
  shows "case bitmap_set_multiple b start cnt v of
      None \<Rightarrow> bit_cnt b < start + cnt
    | Some b' \<Rightarrow> start + cnt \<le> bit_cnt b \<and> bitmap_wf b' \<and> bit_cnt b' = bit_cnt b \<and>
        (\<forall>j < bit_cnt b. bit_at b' j = (if start \<le> j \<and> j < start + cnt then v else bit_at b j))"
proof (cases "start + cnt \<le> bit_cnt b")
  case True
  obtain b' where b': "bitmap_set_multiple b start cnt v = Some b'" "same_shape b b'"
    "\<And>j. j < bit_cnt b \<Longrightarrow> bit_at b' j = (if start \<le> j \<and> j < start + cnt then v else bit_at b j)"
    using bitmap_set_multiple_bits [OF assms True] by blast
  with same_shape_keeps [OF b'(2) assms] True show ?thesis by simp
next
  case False
  then have "bitmap_set_multiple b start cnt v = None"
    using set_loop_panics [OF assms, of start cnt v]
    by (cases "start \<le> bit_cnt b")
       (auto simp: bitmap_set_multiple_def range_ok_def Option.bind_eq_None_conv)
  with False show ?thesis by simp
qed

theorem bitmap_set_multiple_exact_witness:
  "bitmap_set_multiple sample_bitmap 8 (2 ^ 32 - 4) True = None"
proof -
  have "bitmap_wf sample_bitmap" and [simp]: "bit_cnt sample_bitmap = 40"
    by (simp_all add: sample_bitmap_def bitmap_wf_def elem_cnt_def DIV_ROUND_UP_def ELEM_BITS_def)
  from bitmap_set_multiple_exact [OF this(1), of 8 "2 ^ 32 - 4" True] show ?thesis
    by (cases "bitmap_set_multiple sample_bitmap 8 (2 ^ 32 - 4) True") simp_all
qed

end
