(* ===== verification/Fixed_Point.thy ===== *)
theory Fixed_Point
  imports Pintos_Prelude
begin

text \<open>
  The 17.14 fixed-point arithmetic of \<^verbatim>\<open>threads/fixed-point.h\<close> and the three formulas of the
  multi-level feedback queue scheduler that \<^verbatim>\<open>threads/thread.c\<close> computes with it. A macro that
  casts to \<open>int64_t\<close> has a 64-bit result; the other sums and products, and every value stored in an
  \<open>int\<close>, keep 32 bits. Division truncates towards zero.
\<close>

section \<open>The macros\<close>

definition s64 :: "int \<Rightarrow> int" where
  "s64 x = (x + 2 ^ 63) mod 2 ^ 64 - 2 ^ 63"

definition FP_F :: int where
  "FP_F = 2 ^ 14"

definition FP_FROM_INT :: "int \<Rightarrow> int" where
  "FP_FROM_INT n = s32 (n * FP_F)"

definition FP_TO_INT_ZERO :: "int \<Rightarrow> int" where
  "FP_TO_INT_ZERO x = x sdiv FP_F"

definition FP_TO_INT_NEAR :: "int \<Rightarrow> int" where
  "FP_TO_INT_NEAR x =
     (if x \<ge> 0 then s32 (x + FP_F sdiv 2) sdiv FP_F else s32 (x - FP_F sdiv 2) sdiv FP_F)"

definition FP_ADD_INT :: "int \<Rightarrow> int \<Rightarrow> int" where
  "FP_ADD_INT x n = s32 (x + s32 (n * FP_F))"

definition FP_MUL :: "int \<Rightarrow> int \<Rightarrow> int" where
  "FP_MUL x y = s64 (x * y) sdiv FP_F"

definition FP_DIV :: "int \<Rightarrow> int \<Rightarrow> int" where
  "FP_DIV x y = s64 (x * FP_F) sdiv y"

definition FP_MUL_INT :: "int \<Rightarrow> int \<Rightarrow> int" where
  "FP_MUL_INT x n = s32 (x * n)"

definition FP_DIV_INT :: "int \<Rightarrow> int \<Rightarrow> int" where
  "FP_DIV_INT x n = x sdiv n"

section \<open>The scheduler's formulas\<close>

definition PRI_MIN :: int where
  "PRI_MIN = 0"

definition PRI_DEFAULT :: int where
  "PRI_DEFAULT = 31"

definition PRI_MAX :: int where
  "PRI_MAX = 63"

text \<open>The value \<open>mlfqs_calc_priority\<close> stores, from the thread's \<open>recent_cpu\<close> and \<open>nice\<close>.\<close>

definition mlfqs_priority :: "int \<Rightarrow> int \<Rightarrow> int" where
  "mlfqs_priority recent nice =
     (let p = s32 (s32 (PRI_MAX - FP_TO_INT_NEAR (FP_DIV_INT recent 4)) - s32 (nice * 2));
          p = (if p < PRI_MIN then PRI_MIN else p)
      in if p > PRI_MAX then PRI_MAX else p)"

text \<open>
  The value \<open>mlfqs_calc_recent_cpu\<close> stores. The sum with \<open>nice\<close> is of a 64-bit product and is cut
  to 32 bits by the assignment, which is what \<open>FP_ADD_INT\<close> computes.
\<close>

definition mlfqs_coeff :: "int \<Rightarrow> int" where
  "mlfqs_coeff load =
     (let twice_load = FP_MUL_INT load 2 in s32 (FP_DIV twice_load (FP_ADD_INT twice_load 1)))"

definition mlfqs_recent_cpu :: "int \<Rightarrow> int \<Rightarrow> int \<Rightarrow> int" where
  "mlfqs_recent_cpu load recent nice = FP_ADD_INT (FP_MUL (mlfqs_coeff load) recent) nice"

text \<open>
  The load average of \<open>mlfqs_update_load_avg_and_recent_cpu\<close>: both quotients are 64-bit values,
  so the whole right-hand side is computed in 64 bits and cut by the assignment.
\<close>

definition mlfqs_load_avg :: "int \<Rightarrow> nat \<Rightarrow> int" where
  "mlfqs_load_avg load ready_threads =
     (let l = s32 (s64 (FP_MUL (FP_DIV (FP_FROM_INT 59) (FP_FROM_INT 60)) load
                        + s64 (FP_DIV (FP_FROM_INT 1) (FP_FROM_INT 60) * int ready_threads)))
      in if l < 0 then 0 else l)"

section \<open>Values in range\<close>

lemma s64_id: "- (2 ^ 63) \<le> x \<Longrightarrow> x < 2 ^ 63 \<Longrightarrow> s64 x = x"
  by (simp add: s64_def)

lemma sdiv_nonneg: "0 \<le> x \<Longrightarrow> 0 < y \<Longrightarrow> x sdiv y = x div y" for x y :: int
  by (simp add: signed_divide_int_def sgn_if)

lemma sdiv_neg: "x < 0 \<Longrightarrow> 0 < y \<Longrightarrow> x sdiv y = - ((- x) div y)" for x y :: int
  by (simp add: signed_divide_int_def sgn_if)

lemma sdiv_mono: "0 < y \<Longrightarrow> x \<le> x' \<Longrightarrow> x sdiv y \<le> x' sdiv y" for x y :: int
proof -
  assume y: "0 < y" and le: "x \<le> x'"
  consider "0 \<le> x" | "x < 0" "0 \<le> x'" | "x' < 0" using le by linarith
  then show "x sdiv y \<le> x' sdiv y"
  proof cases
    case 1
    then show ?thesis using y le by (simp add: sdiv_nonneg zdiv_mono1)
  next
    case 2
    then have "0 \<le> (- x) div y" "0 \<le> x' div y" using y by (simp_all add: pos_imp_zdiv_nonneg_iff)
    then show ?thesis using 2 y by (simp add: sdiv_nonneg sdiv_neg)
  next
    case 3
    then show ?thesis using y le by (simp add: sdiv_neg zdiv_mono1)
  qed
qed

lemma abs_sdiv_le: "0 < y \<Longrightarrow> \<bar>x sdiv y\<bar> \<le> \<bar>x\<bar>" for x y :: int
proof -
  assume y: "0 < y"
  have "\<bar>x\<bar> div y \<le> \<bar>x\<bar>" using y zdiv_mono2 [of "\<bar>x\<bar>" 1 y] by simp
  moreover have "0 \<le> \<bar>x\<bar> div y" using y by (simp add: pos_imp_zdiv_nonneg_iff)
  ultimately show ?thesis using y by (cases "0 \<le> x") (simp_all add: sdiv_nonneg sdiv_neg)
qed

lemma div_less_pos: "x < k * y \<Longrightarrow> 0 < y \<Longrightarrow> x div y < k" for x y k :: int
  using div_mult_mod_eq [of x y] pos_mod_sign [of y x] mult_le_cancel_right_pos [of y k "x div y"]
  by linarith

lemma load_constants:
  "FP_DIV (FP_FROM_INT 59) (FP_FROM_INT 60) = 16110" "FP_DIV (FP_FROM_INT 1) (FP_FROM_INT 60) = 273"
  by (simp_all add: FP_DIV_def FP_FROM_INT_def FP_F_def s32_def s64_def signed_divide_int_def)

lemma mlfqs_load_avg_eq:
  assumes "0 \<le> load" "load < 2 ^ 31" "n \<le> 2 ^ 16"
    "16110 * load div FP_F + 273 * int n < 2 ^ 31"
  shows "mlfqs_load_avg load n = 16110 * load div FP_F + 273 * int n"
proof -
  have "s64 (16110 * load) = 16110 * load" using assms by (intro s64_id) simp_all
  then have mul: "FP_MUL 16110 load = 16110 * load div FP_F"
    using assms(1) by (simp add: FP_MUL_def FP_F_def sdiv_nonneg)
  have nn: "0 \<le> 16110 * load div FP_F" using assms(1) by (simp add: FP_F_def)
  have "s64 (273 * int n) = 273 * int n" using assms by (intro s64_id) simp_all
  moreover have "s64 (16110 * load div FP_F + 273 * int n) = 16110 * load div FP_F + 273 * int n"
    using assms(4) nn by (intro s64_id) simp_all
  moreover have "s32 (16110 * load div FP_F + 273 * int n) = 16110 * load div FP_F + 273 * int n"
    using assms(4) nn by (intro s32_id) (simp add: s32_range_def)
  ultimately show ?thesis
    using nn unfolding mlfqs_load_avg_def load_constants mul Let_def by simp
qed

lemma load_avg_step_le:
  assumes "0 \<le> load" "load \<le> int n * FP_F"
  shows "16110 * load div FP_F + 273 * int n \<le> int n * FP_F"
proof -
  have "16110 * load div FP_F \<le> (16110 * int n) * FP_F div FP_F"
    using assms(2) by (intro zdiv_mono1) (simp_all add: FP_F_def)
  then show ?thesis by (simp add: FP_F_def)
qed

lemma mlfqs_coeff_bounds:
  assumes "0 \<le> load" "load < 2 ^ 29"
  shows "0 \<le> mlfqs_coeff load" "mlfqs_coeff load < FP_F"
    "mlfqs_coeff load = 2 * load * FP_F div (2 * load + FP_F)"
proof -
  let ?q = "2 * load * FP_F div (2 * load + FP_F)"
  have twice: "FP_MUL_INT load 2 = 2 * load"
    using assms by (simp add: FP_MUL_INT_def s32_id s32_range_def)
  have plus: "FP_ADD_INT (2 * load) 1 = 2 * load + FP_F"
    using assms by (simp add: FP_ADD_INT_def FP_F_def s32_id s32_range_def)
  have q: "0 \<le> ?q" "?q < FP_F"
    using assms by (simp add: FP_F_def pos_imp_zdiv_nonneg_iff)
       (intro div_less_pos; use assms in \<open>simp add: FP_F_def algebra_simps\<close>)
  have "s64 (2 * load * FP_F) = 2 * load * FP_F"
    using assms by (intro s64_id) (simp_all add: FP_F_def)
  then have "FP_DIV (2 * load) (2 * load + FP_F) = ?q"
    using assms by (simp add: FP_DIV_def FP_F_def sdiv_nonneg)
  moreover have "s32 ?q = ?q" using q by (intro s32_id) (simp add: s32_range_def FP_F_def)
  ultimately show "mlfqs_coeff load = ?q"
    unfolding mlfqs_coeff_def twice plus Let_def by simp
  with q show "0 \<le> mlfqs_coeff load" "mlfqs_coeff load < FP_F" by simp_all
qed

lemma FP_MUL_coeff:
  assumes "0 \<le> c" "c < FP_F" "s32_range r"
  shows "\<bar>FP_MUL c r\<bar> \<le> \<bar>r\<bar>" "r \<noteq> 0 \<Longrightarrow> \<bar>FP_MUL c r\<bar> < \<bar>r\<bar>" "0 \<le> r * FP_MUL c r"
proof -
  have r: "\<bar>r\<bar> \<le> 2 ^ 31" using assms(3) by (auto simp: s32_range_def)
  have "\<bar>c * r\<bar> \<le> FP_F * 2 ^ 31"
    using assms(1,2) r unfolding abs_mult by (intro mult_mono) auto
  then have "s64 (c * r) = c * r" by (intro s64_id) (simp_all add: FP_F_def)
  moreover define q where "q = c * \<bar>r\<bar> div FP_F"
  ultimately have eq: "FP_MUL c r = (if 0 \<le> r then q else - q)"
    using assms(1) by (cases "c = 0"; cases "0 \<le> r")
      (simp_all add: FP_MUL_def FP_F_def sdiv_nonneg sdiv_neg mult_pos_neg)
  have nn: "0 \<le> q" using assms(1) by (simp add: q_def FP_F_def pos_imp_zdiv_nonneg_iff)
  have less: "q < \<bar>r\<bar>" if "r \<noteq> 0"
    using assms(2) that unfolding q_def by (intro div_less_pos) (simp_all add: FP_F_def mult.commute)
  show "\<bar>FP_MUL c r\<bar> < \<bar>r\<bar>" if "r \<noteq> 0"
    using less [OF that] nn unfolding eq by auto
  show "\<bar>FP_MUL c r\<bar> \<le> \<bar>r\<bar>"
    using less nn q_def unfolding eq by (cases "r = 0") auto
  show "0 \<le> r * FP_MUL c r" using nn unfolding eq by (simp add: mult_nonneg_nonneg mult_nonpos_nonneg)
qed

lemma FP_TO_INT_NEAR_mono:
  assumes "x \<le> y" "- (2 ^ 30) \<le> x" "y \<le> 2 ^ 30"
  shows "FP_TO_INT_NEAR x \<le> FP_TO_INT_NEAR y"
proof -
  have half: "FP_F sdiv 2 = 8192" by (simp add: FP_F_def signed_divide_int_def)
  have near: "FP_TO_INT_NEAR z = (if 0 \<le> z then z + 8192 else z - 8192) sdiv FP_F"
    if "x \<le> z" "z \<le> y" for z
    using assms that by (simp add: FP_TO_INT_NEAR_def half s32_id s32_range_def)
  show ?thesis
    using assms by (simp add: near) (intro conjI impI sdiv_mono; simp add: FP_F_def)
qed

lemma mlfqs_priority_range: "PRI_MIN \<le> mlfqs_priority r n \<and> mlfqs_priority r n \<le> PRI_MAX"
  by (simp add: mlfqs_priority_def PRI_MIN_def PRI_MAX_def Let_def)

lemma near_bounds:
  assumes "s32_range r"
  shows "- 32769 \<le> FP_TO_INT_NEAR (FP_DIV_INT r 4)" "FP_TO_INT_NEAR (FP_DIV_INT r 4) \<le> 32769"
proof -
  let ?q = "FP_DIV_INT r 4"
  have "(- (2 ^ 31)) sdiv 4 \<le> ?q" "?q \<le> 2 ^ 31 sdiv (4 :: int)"
    using assms unfolding FP_DIV_INT_def by (intro sdiv_mono; simp add: s32_range_def)+
  then have q: "- (2 ^ 29) \<le> ?q" "?q \<le> 2 ^ 29" by (simp_all add: signed_divide_int_def)
  have "FP_TO_INT_NEAR (- (2 ^ 29)) \<le> FP_TO_INT_NEAR ?q" "FP_TO_INT_NEAR ?q \<le> FP_TO_INT_NEAR (2 ^ 29)"
    using q by (intro FP_TO_INT_NEAR_mono; simp)+
  then show "- 32769 \<le> FP_TO_INT_NEAR ?q" "FP_TO_INT_NEAR ?q \<le> 32769"
    by (simp_all add: FP_TO_INT_NEAR_def FP_F_def s32_def signed_divide_int_def)
qed

lemma mlfqs_priority_eq:
  assumes "s32_range r" "\<bar>n\<bar> \<le> 2 ^ 20"
  shows "mlfqs_priority r n = max PRI_MIN (min PRI_MAX (PRI_MAX - FP_TO_INT_NEAR (FP_DIV_INT r 4) - n * 2))"
proof -
  let ?f = "FP_TO_INT_NEAR (FP_DIV_INT r 4)"
  note b = near_bounds [OF assms(1)]
  have "s32 (PRI_MAX - ?f) = PRI_MAX - ?f" "s32 (n * 2) = n * 2"
    "s32 (PRI_MAX - ?f - n * 2) = PRI_MAX - ?f - n * 2"
    using b assms(2) by (intro s32_id; simp add: s32_range_def PRI_MAX_def abs_le_iff)+
  then show ?thesis by (simp add: mlfqs_priority_def PRI_MAX_def PRI_MIN_def Let_def)
qed

section \<open>Properties\<close>



text \<open>
  The load average never overflows and never exceeds the number of competing threads: for
  every history of once-a-second updates from zero in which at most \<open>n\<close> threads were ready or
  running, it stays between 0 and \<open>n\<close> (in fixed point), for up to 65536 threads.
\<close>

theorem mlfqs_load_avg_bounded:
  assumes "\<forall>r\<in>set rs. r \<le> n" "n \<le> 2 ^ 16"
  shows "0 \<le> foldl mlfqs_load_avg 0 rs \<and> foldl mlfqs_load_avg 0 rs \<le> int n * FP_F"
  using assms(1)
proof (induction rs rule: rev_induct)
  case Nil
  then show ?case by (simp add: FP_F_def)
next
  case (snoc r rs)
  let ?l = "foldl mlfqs_load_avg 0 rs"
  have l: "0 \<le> ?l" "?l \<le> int n * FP_F" "r \<le> n" using snoc by simp_all
  have n: "int n * FP_F \<le> 2 ^ 30" using assms(2) by (simp add: FP_F_def)
  have step: "16110 * ?l div FP_F + 273 * int r \<le> int n * FP_F"
    using load_avg_step_le [OF l(1,2)] l(3) by linarith
  have "mlfqs_load_avg ?l r = 16110 * ?l div FP_F + 273 * int r"
    using l n step assms(2) by (intro mlfqs_load_avg_eq) simp_all
  then show ?case using step l(1) by (simp add: FP_F_def pos_imp_zdiv_nonneg_iff)
qed

theorem mlfqs_load_avg_bounded_witness:
  "foldl mlfqs_load_avg 0 [1, 3, 2] \<le> int 3 * FP_F"
  using mlfqs_load_avg_bounded [of "[1, 3, 2]" 3] by simp



end
