(* ===== verification/Threads.thy ===== *)
theory Threads
  imports List_Refinement Fixed_Point
begin

text \<open>
  The thread system of \<^verbatim>\<open>threads/thread.c\<close> with the interrupt bookkeeping of
  \<^verbatim>\<open>threads/interrupt.c\<close> and the timer interrupt of \<^verbatim>\<open>devices/timer.c\<close>.

  \<^item> A thread is named by the address of its page. \<open>thr\<close> gives the \<open>struct thread\<close> at an
    address, and \<open>magic\<close> is the test of \<open>is_thread\<close>: freeing the page destroys the magic number.
  \<^item> \<open>ready_list\<close>, \<open>all_list\<close> and \<open>sleep_list\<close> are lists of threads. The links through the
    \<open>elem\<close> members are those of the theory of kernel lists: \<open>list_insert_ordered\<close> is
    \<open>insert_ordered\<close> and \<open>list_sort\<close> is \<open>sort_key\<close> there, for both comparisons of this file (the
    interpretations below).
  \<^item> \<open>schedule\<close> switches the processor: \<open>cur\<close> is the running thread. What a thread does after it
    is switched back to is the part of the caller behind \<open>schedule\<close>, which the theory of kernel
    steps keeps for every thread.
\<close>

section \<open>State\<close>

type_synonym tptr = nat

datatype thread_status = THREAD_RUNNING | THREAD_READY | THREAD_BLOCKED | THREAD_DYING

record thread =
  tid :: int
  children :: "nat list"
  parent_tid :: int
  status :: thread_status
  thread_name :: string
  priority :: int
  exit_status :: int
  fd_table :: "nat option list"
  next_fd :: int
  exec_file :: "nat option"
  pagedir :: "nat option"
  wake_tick :: int
  base_priority :: int
  donations :: "tptr list"
  waiting_lock :: "nat option"
  nice :: int
  recent_cpu :: int
  magic :: bool

record kernel =
  thr :: "tptr \<Rightarrow> thread"
  ready_list :: "tptr list"
  all_list :: "tptr list"
  sleep_list :: "tptr list"
  cur :: tptr
  idle_thread :: "tptr option"
  initial_thread :: tptr
  load_avg :: int
  idle_ticks :: int
  kernel_ticks :: int
  user_ticks :: int
  thread_ticks :: nat
  thread_mlfqs :: bool
  ticks :: int
  next_tid :: int
  in_external_intr :: bool
  yield_on_return :: bool

definition TID_ERROR :: int where
  "TID_ERROR = - 1"

definition TIME_SLICE :: nat where
  "TIME_SLICE = 4"

definition TIMER_FREQ :: int where
  "TIMER_FREQ = 100"

definition upd :: "'a kernel_scheme \<Rightarrow> tptr \<Rightarrow> (thread \<Rightarrow> thread) \<Rightarrow> 'a kernel_scheme" where
  "upd k t f = k\<lparr>thr := (thr k)(t := f (thr k t))\<rparr>"

definition is_thread :: "'a kernel_scheme \<Rightarrow> tptr \<Rightarrow> bool" where
  "is_thread k t = magic (thr k t)"

definition thread_current :: "'a kernel_scheme \<Rightarrow> tptr option" where
  "thread_current k = do {
     ASSERT (is_thread k (cur k));
     ASSERT (status (thr k (cur k)) = THREAD_RUNNING);
     Some (cur k) }"

section \<open>Comparisons\<close>

definition thread_priority_greater :: "'a kernel_scheme \<Rightarrow> tptr \<Rightarrow> tptr \<Rightarrow> bool" where
  "thread_priority_greater k a b \<longleftrightarrow> priority (thr k a) > priority (thr k b)"

definition thread_wake_tick_less :: "'a kernel_scheme \<Rightarrow> tptr \<Rightarrow> tptr \<Rightarrow> bool" where
  "thread_wake_tick_less k a b \<longleftrightarrow> wake_tick (thr k a) < wake_tick (thr k b)"

section \<open>Scheduling\<close>

definition next_thread_to_run :: "'a kernel_scheme \<Rightarrow> tptr option \<times> 'a kernel_scheme" where
  "next_thread_to_run k =
     (case ready_list k of [] \<Rightarrow> (idle_thread k, k) | t # ts \<Rightarrow> (Some t, k\<lparr>ready_list := ts\<rparr>))"

text \<open>
  The last steps of a switch: a dying predecessor gives its page back, which destroys its magic
  number. Activating the address space is not part of this state.
\<close>

definition thread_schedule_tail :: "'a kernel_scheme \<Rightarrow> tptr option \<Rightarrow> 'a kernel_scheme option" where
  "thread_schedule_tail k prev =
     (let k = (upd k (cur k) (status_update (\<lambda>_. THREAD_RUNNING)))\<lparr>thread_ticks := 0\<rparr>
      in case prev of
           None \<Rightarrow> Some k
         | Some p \<Rightarrow>
             if status (thr k p) = THREAD_DYING \<and> p \<noteq> initial_thread k
             then do { ASSERT (p \<noteq> cur k); Some (upd k p (magic_update (\<lambda>_. False))) }
             else Some k)"

definition schedule :: "'a kernel_scheme \<Rightarrow> 'a kernel_scheme option" where
  "schedule k =
     (let c = cur k; (next, k) = next_thread_to_run k
      in do {
        ASSERT (status (thr k c) \<noteq> THREAD_RUNNING);
        n \<leftarrow> next;
        ASSERT (is_thread k n);
        if c \<noteq> n then thread_schedule_tail (k\<lparr>cur := n\<rparr>) (Some c) else thread_schedule_tail k None })"

definition thread_block :: "'a kernel_scheme \<Rightarrow> 'a kernel_scheme option" where
  "thread_block k = do {
     ASSERT (\<not> in_external_intr k);
     c \<leftarrow> thread_current k;
     schedule (upd k c (status_update (\<lambda>_. THREAD_BLOCKED))) }"

definition thread_unblock :: "'a kernel_scheme \<Rightarrow> tptr \<Rightarrow> 'a kernel_scheme option" where
  "thread_unblock k t = do {
     ASSERT (is_thread k t);
     ASSERT (status (thr k t) = THREAD_BLOCKED);
     Some (upd (k\<lparr>ready_list := insert_ordered (thread_priority_greater k) t (ready_list k)\<rparr>) t
             (status_update (\<lambda>_. THREAD_READY))) }"

definition thread_yield :: "'a kernel_scheme \<Rightarrow> 'a kernel_scheme option" where
  "thread_yield k = do {
     c \<leftarrow> thread_current k;
     ASSERT (\<not> in_external_intr k);
     let k = (if Some c \<noteq> idle_thread k
              then k\<lparr>ready_list := insert_ordered (thread_priority_greater k) c (ready_list k)\<rparr>
              else k);
     schedule (upd k c (status_update (\<lambda>_. THREAD_READY))) }"

text \<open>The part of \<open>thread_exit\<close> behind \<open>process_exit\<close>.\<close>

definition thread_exit :: "'a kernel_scheme \<Rightarrow> 'a kernel_scheme option" where
  "thread_exit k = do {
     ASSERT (\<not> in_external_intr k);
     c \<leftarrow> thread_current k;
     schedule (upd (k\<lparr>all_list := remove1 c (all_list k)\<rparr>) c (status_update (\<lambda>_. THREAD_DYING))) }"

section \<open>Sleeping\<close>

definition thread_sleep :: "'a kernel_scheme \<Rightarrow> int \<Rightarrow> 'a kernel_scheme option" where
  "thread_sleep k w = do {
     c \<leftarrow> thread_current k;
     ASSERT (\<not> in_external_intr k);
     let k = upd k c (wake_tick_update (\<lambda>_. w));
     thread_block (k\<lparr>sleep_list := insert_ordered (thread_wake_tick_less k) c (sleep_list k)\<rparr>) }"

fun thread_wake_loop :: "int \<Rightarrow> tptr list \<Rightarrow> 'a kernel_scheme \<Rightarrow> 'a kernel_scheme option" where
  "thread_wake_loop now [] k = Some (k\<lparr>sleep_list := []\<rparr>)"
| "thread_wake_loop now (t # ts) k =
     (if wake_tick (thr k t) > now then Some (k\<lparr>sleep_list := t # ts\<rparr>)
      else do { k \<leftarrow> thread_unblock (k\<lparr>sleep_list := ts\<rparr>) t; thread_wake_loop now ts k })"

definition thread_wake :: "'a kernel_scheme \<Rightarrow> int \<Rightarrow> 'a kernel_scheme option" where
  "thread_wake k now = thread_wake_loop now (sleep_list k) k"

section \<open>The feedback scheduler\<close>

definition thread_foreach ::
  "('a kernel_scheme \<Rightarrow> tptr \<Rightarrow> 'a kernel_scheme) \<Rightarrow> 'a kernel_scheme \<Rightarrow> 'a kernel_scheme" where
  "thread_foreach func k = foldl func k (all_list k)"

definition mlfqs_calc_priority :: "'a kernel_scheme \<Rightarrow> tptr \<Rightarrow> 'a kernel_scheme" where
  "mlfqs_calc_priority k t =
     (if Some t = idle_thread k then k
      else upd k t (\<lambda>r. r\<lparr>priority := mlfqs_priority (recent_cpu r) (nice r)\<rparr>))"

definition mlfqs_calc_recent_cpu :: "'a kernel_scheme \<Rightarrow> tptr \<Rightarrow> 'a kernel_scheme" where
  "mlfqs_calc_recent_cpu k t =
     (if Some t = idle_thread k then k
      else upd k t (\<lambda>r. r\<lparr>recent_cpu := mlfqs_recent_cpu (load_avg k) (recent_cpu r) (nice r)\<rparr>))"

definition mlfqs_update_load_avg_and_recent_cpu :: "'a kernel_scheme \<Rightarrow> 'a kernel_scheme" where
  "mlfqs_update_load_avg_and_recent_cpu k =
     (let ready_threads = length (ready_list k) + (if Some (cur k) \<noteq> idle_thread k then 1 else 0)
      in thread_foreach mlfqs_calc_recent_cpu
           (k\<lparr>load_avg := mlfqs_load_avg (load_avg k) ready_threads\<rparr>))"

definition mlfqs_update_all_priorities :: "'a kernel_scheme \<Rightarrow> 'a kernel_scheme" where
  "mlfqs_update_all_priorities k =
     (let k = thread_foreach mlfqs_calc_priority k
      in k\<lparr>ready_list := sort_key (\<lambda>t. - priority (thr k t)) (ready_list k)\<rparr>)"

section \<open>The timer interrupt\<close>

definition intr_yield_on_return :: "'a kernel_scheme \<Rightarrow> 'a kernel_scheme option" where
  "intr_yield_on_return k = do { ASSERT (in_external_intr k); Some (k\<lparr>yield_on_return := True\<rparr>) }"

definition thread_tick :: "'a kernel_scheme \<Rightarrow> 'a kernel_scheme option" where
  "thread_tick k = do {
     t \<leftarrow> thread_current k;
     let k = (if Some t = idle_thread k then k\<lparr>idle_ticks := idle_ticks k + 1\<rparr>
              else if pagedir (thr k t) \<noteq> None then k\<lparr>user_ticks := user_ticks k + 1\<rparr>
              else k\<lparr>kernel_ticks := kernel_ticks k + 1\<rparr>);
     let k = (if thread_mlfqs k \<and> Some t \<noteq> idle_thread k
              then upd k t (recent_cpu_update (\<lambda>r. FP_ADD_INT r 1)) else k);
     let current_ticks = idle_ticks k + kernel_ticks k + user_ticks k;
     let k = (if thread_mlfqs k \<and> current_ticks smod TIMER_FREQ = 0
              then mlfqs_update_all_priorities (mlfqs_update_load_avg_and_recent_cpu k)
              else if thread_mlfqs k \<and> current_ticks smod int TIME_SLICE = 0
              then mlfqs_update_all_priorities k else k);
     let k = k\<lparr>thread_ticks := wrap32 (thread_ticks k + 1)\<rparr>;
     if thread_ticks k \<ge> TIME_SLICE then intr_yield_on_return k else Some k }"

definition timer_interrupt :: "'a kernel_scheme \<Rightarrow> 'a kernel_scheme option" where
  "timer_interrupt k = do {
     let k = k\<lparr>ticks := ticks k + 1\<rparr>;
     k \<leftarrow> thread_tick k;
     thread_wake k (ticks k) }"

text \<open>
  The branch of \<open>intr_handler\<close> for an external interrupt, whose handler is the argument: the
  interrupted thread yields on return when the handler asked for it.
\<close>

definition external_interrupt ::
  "('a kernel_scheme \<Rightarrow> 'a kernel_scheme option) \<Rightarrow> 'a kernel_scheme \<Rightarrow> 'a kernel_scheme option" where
  "external_interrupt handler k = do {
     ASSERT (\<not> in_external_intr k);
     k \<leftarrow> handler (k\<lparr>in_external_intr := True, yield_on_return := False\<rparr>);
     let k = k\<lparr>in_external_intr := False\<rparr>;
     if yield_on_return k then thread_yield k else Some k }"

section \<open>Priorities\<close>

definition thread_get_effective_priority :: "'a kernel_scheme \<Rightarrow> tptr \<Rightarrow> int" where
  "thread_get_effective_priority k t =
     foldl (\<lambda>m d. if priority (thr k d) > m then priority (thr k d) else m)
       (base_priority (thr k t)) (donations (thr k t))"

text \<open>The test behind several operations: yield to a ready thread of higher priority.\<close>

definition yield_to_higher :: "'a kernel_scheme \<Rightarrow> 'a kernel_scheme option" where
  "yield_to_higher k =
     (case ready_list k of
        [] \<Rightarrow> Some k
      | front # _ \<Rightarrow> if priority (thr k front) > priority (thr k (cur k)) then thread_yield k else Some k)"

definition thread_set_priority :: "'a kernel_scheme \<Rightarrow> int \<Rightarrow> 'a kernel_scheme option" where
  "thread_set_priority k new_priority =
     (if thread_mlfqs k then Some k
      else do {
        c \<leftarrow> thread_current k;
        let k = upd k c (base_priority_update (\<lambda>_. new_priority));
        yield_to_higher (upd k c (priority_update (\<lambda>_. thread_get_effective_priority k c))) })"

definition thread_get_priority :: "'a kernel_scheme \<Rightarrow> int option" where
  "thread_get_priority k = do { c \<leftarrow> thread_current k; Some (priority (thr k c)) }"

definition thread_set_nice :: "'a kernel_scheme \<Rightarrow> int \<Rightarrow> 'a kernel_scheme option" where
  "thread_set_nice k n = do {
     c \<leftarrow> thread_current k;
     yield_to_higher (mlfqs_calc_priority (upd k c (nice_update (\<lambda>_. n))) c) }"

definition thread_get_nice :: "'a kernel_scheme \<Rightarrow> int option" where
  "thread_get_nice k = do { c \<leftarrow> thread_current k; Some (nice (thr k c)) }"

definition thread_get_load_avg :: "'a kernel_scheme \<Rightarrow> int" where
  "thread_get_load_avg k = FP_TO_INT_NEAR (FP_MUL_INT (load_avg k) 100)"

definition thread_get_recent_cpu :: "'a kernel_scheme \<Rightarrow> int option" where
  "thread_get_recent_cpu k = do {
     c \<leftarrow> thread_current k;
     Some (FP_TO_INT_NEAR (FP_MUL_INT (recent_cpu (thr k c)) 100)) }"

section \<open>Creation\<close>

definition init_thread :: "'a kernel_scheme \<Rightarrow> tptr \<Rightarrow> string \<Rightarrow> int \<Rightarrow> 'a kernel_scheme option" where
  "init_thread k t nm prio = do {
     ASSERT (PRI_MIN \<le> prio \<and> prio \<le> PRI_MAX);
     let r = \<lparr>tid = 0, children = [], parent_tid = TID_ERROR, status = THREAD_BLOCKED,
              thread_name = take 15 nm, priority = prio, exit_status = - 1,
              fd_table = replicate 128 None, next_fd = 2, exec_file = None, pagedir = None,
              wake_tick = 0, base_priority = prio, donations = [], waiting_lock = None,
              nice = 0, recent_cpu = FP_FROM_INT 0, magic = True\<rparr>;
     Some ((upd k t (\<lambda>_. r))\<lparr>all_list := all_list k @ [t]\<rparr>) }"

section \<open>The comparisons are keyed\<close>

definition neg_prio :: "'a kernel_scheme \<Rightarrow> tptr \<Rightarrow> int" where
  "neg_prio k t = - priority (thr k t)"

definition wake_key :: "'a kernel_scheme \<Rightarrow> tptr \<Rightarrow> int" where
  "wake_key k t = wake_tick (thr k t)"

interpretation by_priority: elem_less "thread_priority_greater k" "neg_prio k" for k
  by unfold_locales (simp add: thread_priority_greater_def neg_prio_def)

interpretation by_wake_tick: elem_less "thread_wake_tick_less k" "wake_key k" for k
  by unfold_locales (simp add: thread_wake_tick_less_def wake_key_def)

lemma upd_simps [simp]:
  "thr (upd k t f) = (thr k)(t := f (thr k t))" "ready_list (upd k t f) = ready_list k"
  "all_list (upd k t f) = all_list k" "sleep_list (upd k t f) = sleep_list k"
  "cur (upd k t f) = cur k" "idle_thread (upd k t f) = idle_thread k"
  "initial_thread (upd k t f) = initial_thread k" "load_avg (upd k t f) = load_avg k"
  "idle_ticks (upd k t f) = idle_ticks k" "kernel_ticks (upd k t f) = kernel_ticks k"
  "user_ticks (upd k t f) = user_ticks k" "thread_ticks (upd k t f) = thread_ticks k"
  "thread_mlfqs (upd k t f) = thread_mlfqs k" "ticks (upd k t f) = ticks k"
  "next_tid (upd k t f) = next_tid k" "in_external_intr (upd k t f) = in_external_intr k"
  "yield_on_return (upd k t f) = yield_on_return k" "kernel.more (upd k t f) = kernel.more k"
  by (simp_all add: upd_def)

end
