(* ===== verification/Scheduling.thy ===== *)
theory Scheduling
  imports Threads
begin

text \<open>
  The invariant of the thread system and the proofs that every operation of \<^verbatim>\<open>thread.c\<close> keeps it:
  the ready list holds exactly the ready threads, in descending order of priority; the list of
  all threads holds exactly the threads that have not exited; the sleep list holds blocked
  threads in the order of their wake-up; exactly one thread runs.
\<close>

section \<open>The invariant\<close>

definition lists_ok :: "'a kernel_scheme \<Rightarrow> bool" where
  "lists_ok k \<longleftrightarrow>
     distinct (ready_list k) \<and>
     (\<forall>t. t \<in> set (ready_list k) \<longleftrightarrow>
        is_thread k t \<and> status (thr k t) = THREAD_READY \<and> Some t \<noteq> idle_thread k) \<and>
     sorted (map (neg_prio k) (ready_list k)) \<and>
     distinct (all_list k) \<and>
     (\<forall>t. t \<in> set (all_list k) \<longleftrightarrow> is_thread k t \<and> status (thr k t) \<noteq> THREAD_DYING) \<and>
     distinct (sleep_list k) \<and>
     (\<forall>t\<in>set (sleep_list k). is_thread k t \<and> status (thr k t) = THREAD_BLOCKED \<and>
        Some t \<noteq> idle_thread k) \<and>
     sorted (map (wake_key k) (sleep_list k)) \<and>
     (\<forall>i. idle_thread k = Some i \<longrightarrow> is_thread k i \<and> status (thr k i) \<noteq> THREAD_DYING)"

definition sched_inv :: "'a kernel_scheme \<Rightarrow> bool" where
  "sched_inv k \<longleftrightarrow> lists_ok k \<and> is_thread k (cur k) \<and>
     (\<forall>t. is_thread k t \<longrightarrow> (status (thr k t) = THREAD_RUNNING \<longleftrightarrow> t = cur k)) \<and>
     (\<forall>t. is_thread k t \<and> t \<noteq> initial_thread k \<longrightarrow> status (thr k t) \<noteq> THREAD_DYING)"

text \<open>The state in which \<open>schedule\<close> is called: no thread is marked running.\<close>

definition switching :: "'a kernel_scheme \<Rightarrow> bool" where
  "switching k \<longleftrightarrow> lists_ok k \<and> is_thread k (cur k) \<and>
     (\<forall>t. is_thread k t \<longrightarrow> status (thr k t) \<noteq> THREAD_RUNNING) \<and>
     (\<forall>t. is_thread k t \<and> t \<noteq> initial_thread k \<and> t \<noteq> cur k \<longrightarrow> status (thr k t) \<noteq> THREAD_DYING) \<and>
     (ready_list k \<noteq> [] \<or> idle_thread k \<noteq> None)"

text \<open>
  A parked thread is blocked for another reason than sleep and is not the idle thread.
  \<open>preserves\<close> and \<open>keeps\<close> say what the operations leave alone: no thread is created or destroyed,
  the donation state is as before and, for \<open>keeps\<close>, the same threads are parked.
\<close>

definition parked :: "'a kernel_scheme \<Rightarrow> tptr \<Rightarrow> bool" where
  "parked k t \<longleftrightarrow> is_thread k t \<and> status (thr k t) = THREAD_BLOCKED \<and> t \<notin> set (sleep_list k) \<and>
     Some t \<noteq> idle_thread k"

definition preserves :: "'a kernel_scheme \<Rightarrow> 'a kernel_scheme \<Rightarrow> bool" where
  "preserves k k' \<longleftrightarrow> kernel.more k' = kernel.more k \<and> idle_thread k' = idle_thread k \<and>
     initial_thread k' = initial_thread k \<and> thread_mlfqs k' = thread_mlfqs k \<and>
     next_tid k' = next_tid k \<and> all_list k' = all_list k \<and>
     (\<forall>t. donations (thr k' t) = donations (thr k t) \<and> waiting_lock (thr k' t) = waiting_lock (thr k t)) \<and>
     (\<forall>t. is_thread k' t = is_thread k t)"

definition keeps :: "'a kernel_scheme \<Rightarrow> 'a kernel_scheme \<Rightarrow> bool" where
  "keeps k k' \<longleftrightarrow> preserves k k' \<and> (\<forall>t. parked k' t = parked k t)"

lemma lists_okD:
  assumes "lists_ok k"
  shows "distinct (ready_list k)"
    "\<And>t. t \<in> set (ready_list k) \<longleftrightarrow>
       is_thread k t \<and> status (thr k t) = THREAD_READY \<and> Some t \<noteq> idle_thread k"
    "sorted (map (neg_prio k) (ready_list k))" "distinct (all_list k)"
    "\<And>t. t \<in> set (all_list k) \<longleftrightarrow> is_thread k t \<and> status (thr k t) \<noteq> THREAD_DYING"
    "distinct (sleep_list k)"
    "\<And>t. t \<in> set (sleep_list k) \<Longrightarrow>
       is_thread k t \<and> status (thr k t) = THREAD_BLOCKED \<and> Some t \<noteq> idle_thread k"
    "sorted (map (wake_key k) (sleep_list k))"
    "\<And>i. idle_thread k = Some i \<Longrightarrow> is_thread k i \<and> status (thr k i) \<noteq> THREAD_DYING"
  using assms unfolding lists_ok_def by blast+

lemma preserves_trans [trans]: "preserves k k' \<Longrightarrow> preserves k' k'' \<Longrightarrow> preserves k k''"
  by (simp add: preserves_def)

lemma keeps_refl [simp]: "keeps k k"
  by (simp add: keeps_def preserves_def)

lemma keeps_trans [trans]: "keeps k k' \<Longrightarrow> keeps k' k'' \<Longrightarrow> keeps k k''"
  by (auto simp: keeps_def intro: preserves_trans)

section \<open>Switching\<close>

lemma next_thread_to_run_cases:
  assumes "switching k"
  obtains n k1 where "next_thread_to_run k = (Some n, k1)" "k1 = k\<lparr>ready_list := tl (ready_list k)\<rparr>"
    "is_thread k n" "status (thr k n) \<noteq> THREAD_DYING" "n \<notin> set (sleep_list k)"
    "ready_list k \<noteq> [] \<Longrightarrow> n = hd (ready_list k)" "ready_list k = [] \<Longrightarrow> Some n = idle_thread k"
proof (cases "ready_list k")
  case Nil
  with assms obtain i where "idle_thread k = Some i" by (auto simp: switching_def)
  with Nil assms show ?thesis
    by (intro that [of i k]) (auto simp: next_thread_to_run_def switching_def lists_ok_def)
next
  case (Cons t ts)
  moreover have "is_thread k t" "status (thr k t) = THREAD_READY"
    using assms Cons by (auto simp: switching_def lists_ok_def)
  ultimately show ?thesis using assms
    by (intro that [of t "k\<lparr>ready_list := ts\<rparr>"])
       (auto simp: next_thread_to_run_def switching_def lists_ok_def)
qed

lemma schedule_runs:
  assumes "switching k"
  obtains n k' where "schedule k = Some k'" "sched_inv k'" "cur k' = n"
    "ready_list k \<noteq> [] \<Longrightarrow> n = hd (ready_list k)" "ready_list k = [] \<Longrightarrow> Some n = idle_thread k"
    "ready_list k' = tl (ready_list k)" "sleep_list k' = sleep_list k" "all_list k' = all_list k"
    "kernel.more k' = kernel.more k" "idle_thread k' = idle_thread k"
    "initial_thread k' = initial_thread k" "thread_mlfqs k' = thread_mlfqs k"
    "next_tid k' = next_tid k" "ticks k' = ticks k" "in_external_intr k' = in_external_intr k"
    "thread_ticks k' = 0"
    "\<And>t. t \<noteq> n \<Longrightarrow> t \<noteq> cur k \<Longrightarrow> thr k' t = thr k t"
    "thr k' n = (thr k n)\<lparr>status := THREAD_RUNNING\<rparr>"
    "n \<noteq> cur k \<Longrightarrow> thr k' (cur k) = (if status (thr k (cur k)) = THREAD_DYING \<and> cur k \<noteq> initial_thread k
         then (thr k (cur k))\<lparr>magic := False\<rparr> else thr k (cur k))"
proof -
  obtain n k1 where n: "next_thread_to_run k = (Some n, k1)" "k1 = k\<lparr>ready_list := tl (ready_list k)\<rparr>"
    "is_thread k n" "status (thr k n) \<noteq> THREAD_DYING" "n \<notin> set (sleep_list k)"
    "ready_list k \<noteq> [] \<Longrightarrow> n = hd (ready_list k)" "ready_list k = [] \<Longrightarrow> Some n = idle_thread k"
    using next_thread_to_run_cases [OF assms] by blast
  let ?c = "cur k"
  let ?dead = "status (thr k ?c) = THREAD_DYING \<and> ?c \<noteq> initial_thread k"
  define k2 where "k2 = (upd (k\<lparr>ready_list := tl (ready_list k), cur := n\<rparr>) n
       (status_update (\<lambda>_. THREAD_RUNNING)))\<lparr>thread_ticks := 0\<rparr>"
  define k' where "k' = (if ?dead then upd k2 ?c (magic_update (\<lambda>_. False)) else k2)"
  have "status (thr k ?c) \<noteq> THREAD_RUNNING" using assms by (auto simp: switching_def)
  then have run: "schedule k = Some k'"
    using n(2-4) by (cases "?c = n")
      (simp_all add: schedule_def n(1) thread_schedule_tail_def is_thread_def k'_def k2_def
          upd_def Let_def)
  have dead_n: "\<not> (?dead \<and> n = ?c)" using n(4) by auto
  have thr: "thr k' t = (if t = n then (thr k n)\<lparr>status := THREAD_RUNNING\<rparr>
      else if ?dead \<and> t = ?c then (thr k t)\<lparr>magic := False\<rparr> else thr k t)" for t
    using dead_n by (simp add: k'_def k2_def) blast
  have other: "thr k' t = thr k t" if "t \<noteq> n" "t \<noteq> ?c" for t
    using that by (simp add: thr)
  have new: "thr k' n = (thr k n)\<lparr>status := THREAD_RUNNING\<rparr>"
    by (simp add: thr)
  have old: "thr k' ?c = (if ?dead then (thr k ?c)\<lparr>magic := False\<rparr> else thr k ?c)" if "n \<noteq> ?c"
    using that by (simp add: thr)
  have frame: "ready_list k' = tl (ready_list k)" "sleep_list k' = sleep_list k"
    "all_list k' = all_list k" "cur k' = n" "idle_thread k' = idle_thread k"
    "initial_thread k' = initial_thread k" "kernel.more k' = kernel.more k"
    "thread_mlfqs k' = thread_mlfqs k" "next_tid k' = next_tid k" "ticks k' = ticks k"
    "in_external_intr k' = in_external_intr k" "thread_ticks k' = 0"
    by (simp_all add: k'_def k2_def)
  have alive: "is_thread k' t = (is_thread k t \<and> \<not> (?dead \<and> t = ?c))" for t
    using dead_n n(3) by (simp add: thr is_thread_def)
  have stat: "status (thr k' t) = (if t = n then THREAD_RUNNING else status (thr k t))" for t
    by (simp add: thr)
  have keys: "neg_prio k' = neg_prio k" "wake_key k' = wake_key k"
    by (simp_all add: fun_eq_iff neg_prio_def wake_key_def thr)
  have L: "lists_ok k" using assms by (simp add: switching_def)
  have tl_ready: "t \<in> set (tl (ready_list k)) \<longleftrightarrow> t \<in> set (ready_list k) \<and> t \<noteq> n" for t
    using L n(6,7) by (cases "ready_list k") (auto simp: lists_ok_def)
  have "lists_ok k'"
    unfolding lists_ok_def frame keys tl_ready alive stat
  proof (intro conjI allI ballI)
    note D = lists_okD [OF L]
    show "distinct (tl (ready_list k))" "sorted (map (neg_prio k) (tl (ready_list k)))"
      "distinct (all_list k)" "distinct (sleep_list k)" "sorted (map (wake_key k) (sleep_list k))"
      using D(1,3,4,6,8) by (simp_all add: distinct_tl map_tl sorted_tl)
    show "(t \<in> set (ready_list k) \<and> t \<noteq> n) = ((is_thread k t \<and> \<not> (?dead \<and> t = ?c)) \<and>
        (if t = n then THREAD_RUNNING else status (thr k t)) = THREAD_READY \<and> Some t \<noteq> idle_thread k)" for t
      using D(2) [of t] by auto
    show "(t \<in> set (all_list k)) = ((is_thread k t \<and> \<not> (?dead \<and> t = ?c)) \<and>
        (if t = n then THREAD_RUNNING else status (thr k t)) \<noteq> THREAD_DYING)" for t
      using D(5) [of t] n(3,4) by auto
    show "is_thread k t" "\<not> (?dead \<and> t = ?c)" "Some t \<noteq> idle_thread k"
      "(if t = n then THREAD_RUNNING else status (thr k t)) = THREAD_BLOCKED"
      if "t \<in> set (sleep_list k)" for t
      using D(7) [OF that] n(5) that by auto
    show "idle_thread k = Some i \<longrightarrow> (is_thread k i \<and> \<not> (?dead \<and> i = ?c)) \<and>
        (if i = n then THREAD_RUNNING else status (thr k i)) \<noteq> THREAD_DYING" for i
      using D(9) [of i] by auto
  qed
  moreover have "\<forall>t. is_thread k' t \<longrightarrow> (status (thr k' t) = THREAD_RUNNING \<longleftrightarrow> t = n)"
    using assms by (auto simp: alive stat switching_def)
  moreover have "\<forall>t. is_thread k' t \<and> t \<noteq> initial_thread k \<longrightarrow> status (thr k' t) \<noteq> THREAD_DYING"
    using assms by (auto simp: alive stat switching_def)
  ultimately have inv: "sched_inv k'"
    using n(3) dead_n alive [of n] unfolding sched_inv_def frame by blast
  show ?thesis
    by (rule that [OF run inv frame(4) n(6,7) frame(1,2,3,7,5,6,8-12) other new old])
qed


section \<open>The operations keep the invariant\<close>

lemma sched_invD:
  assumes "sched_inv k"
  shows "lists_ok k" "is_thread k (cur k)" "status (thr k (cur k)) = THREAD_RUNNING"
    "thread_current k = Some (cur k)" "cur k \<notin> set (ready_list k)" "cur k \<notin> set (sleep_list k)"
    "cur k \<in> set (all_list k)"
  using assms by (auto simp: sched_inv_def thread_current_def lists_ok_def)

text \<open>The running thread may change its own fields other than the status and the magic number.\<close>

lemma lists_ok_upd_cur:
  assumes "sched_inv k" "\<And>r. status (f r) = status r" "\<And>r. magic (f r) = magic r"
  shows "sched_inv (upd k (cur k) f)"
proof -
  have [simp]: "is_thread (upd k (cur k) f) t = is_thread k t" for t
    by (simp add: is_thread_def assms)
  have [simp]: "status (((thr k)(cur k := f (thr k (cur k)))) t) = status (thr k t)" for t
    by (simp add: assms)
  have keys: "map (neg_prio (upd k (cur k) f)) (ready_list k) = map (neg_prio k) (ready_list k)"
    "map (wake_key (upd k (cur k) f)) (sleep_list k) = map (wake_key k) (sleep_list k)"
    using sched_invD(5,6) [OF assms(1)] by (auto simp: neg_prio_def wake_key_def)
  show ?thesis
    using assms(1) unfolding sched_inv_def lists_ok_def upd_simps keys by (simp add: assms(2))
qed

lemma ready_insert_sorted:
  "sorted (map (neg_prio k) (insert_ordered (thread_priority_greater k) t ts)) \<longleftrightarrow>
   sorted (map (neg_prio k) ts)"
  by (rule by_priority.sorted_insert_ordered)

lemma neg_prio_status [simp]:
  "neg_prio (upd k t (status_update f)) = neg_prio k" "wake_key (upd k t (status_update f)) = wake_key k"
  "is_thread (upd k t (status_update f)) = is_thread k"
  by (auto simp: fun_eq_iff neg_prio_def wake_key_def is_thread_def)

lemma state_indep [simp]:
  "neg_prio (k\<lparr>ready_list := x\<rparr>) = neg_prio k" "wake_key (k\<lparr>ready_list := x\<rparr>) = wake_key k"
  "is_thread (k\<lparr>ready_list := x\<rparr>) = is_thread k"
  "neg_prio (k\<lparr>sleep_list := x\<rparr>) = neg_prio k" "wake_key (k\<lparr>sleep_list := x\<rparr>) = wake_key k"
  "is_thread (k\<lparr>sleep_list := x\<rparr>) = is_thread k"
  "neg_prio (k\<lparr>all_list := x\<rparr>) = neg_prio k" "wake_key (k\<lparr>all_list := x\<rparr>) = wake_key k"
  "is_thread (k\<lparr>all_list := x\<rparr>) = is_thread k"
  by (auto simp: fun_eq_iff neg_prio_def wake_key_def is_thread_def)

lemma intr_indep [simp]:
  "parked (k\<lparr>in_external_intr := b\<rparr>) = parked k" "parked (k\<lparr>yield_on_return := c\<rparr>) = parked k"
  "parked (k\<lparr>in_external_intr := b, yield_on_return := c\<rparr>) = parked k"
  "is_thread (k\<lparr>in_external_intr := b\<rparr>) = is_thread k" "is_thread (k\<lparr>yield_on_return := c\<rparr>) = is_thread k"
  "is_thread (k\<lparr>in_external_intr := b, yield_on_return := c\<rparr>) = is_thread k"
  by (auto simp: fun_eq_iff parked_def is_thread_def)

lemma thread_block_switching:
  assumes "sched_inv k" "ready_list k \<noteq> [] \<or> idle_thread k \<noteq> None"
  shows "switching (upd k (cur k) (status_update (\<lambda>_. THREAD_BLOCKED)))"
  using assms sched_invD(5,6) [OF assms(1)]
  by (auto simp: sched_inv_def lists_ok_def switching_def)

lemma thread_yield_switching:
  assumes "sched_inv k"
  shows "switching (upd (if Some (cur k) \<noteq> idle_thread k
      then k\<lparr>ready_list := insert_ordered (thread_priority_greater k) (cur k) (ready_list k)\<rparr>
      else k) (cur k) (status_update (\<lambda>_. THREAD_READY)))"
  using assms sched_invD(5,6) [OF assms(1)]
  by (auto simp: sched_inv_def lists_ok_def switching_def ready_insert_sorted)

lemma thread_exit_switching:
  assumes "sched_inv k" "Some (cur k) \<noteq> idle_thread k" "ready_list k \<noteq> [] \<or> idle_thread k \<noteq> None"
  shows "switching (upd (k\<lparr>all_list := remove1 (cur k) (all_list k)\<rparr>) (cur k)
      (status_update (\<lambda>_. THREAD_DYING)))"
  using assms sched_invD(5,6) [OF assms(1)]
  by (auto simp: sched_inv_def lists_ok_def switching_def)

lemma schedule_keeps:
  assumes "switching k" "status (thr k (cur k)) \<noteq> THREAD_DYING \<or> cur k = initial_thread k"
  obtains k' where "schedule k = Some k'" "sched_inv k'" "keeps k k'"
    "in_external_intr k' = in_external_intr k" "sleep_list k' = sleep_list k" "ticks k' = ticks k"
    "all_list k' = all_list k" "ready_list k' = tl (ready_list k)"
    "ready_list k \<noteq> [] \<Longrightarrow> cur k' = hd (ready_list k)" "ready_list k = [] \<Longrightarrow> Some (cur k') = idle_thread k"
    "\<And>t. thr k' t = (if t = cur k' then (thr k t)\<lparr>status := THREAD_RUNNING\<rparr> else thr k t)"
proof (rule schedule_runs [OF assms(1)])
  fix n k'
  assume run: "schedule k = Some k'" "sched_inv k'" and n: "cur k' = n"
    and rd: "ready_list k \<noteq> [] \<Longrightarrow> n = hd (ready_list k)" "ready_list k = [] \<Longrightarrow> Some n = idle_thread k"
    and fr: "ready_list k' = tl (ready_list k)" "sleep_list k' = sleep_list k" "all_list k' = all_list k"
      "kernel.more k' = kernel.more k" "idle_thread k' = idle_thread k"
      "initial_thread k' = initial_thread k" "thread_mlfqs k' = thread_mlfqs k"
      "next_tid k' = next_tid k" "ticks k' = ticks k" "in_external_intr k' = in_external_intr k"
    and oth: "\<And>t. t \<noteq> n \<Longrightarrow> t \<noteq> cur k \<Longrightarrow> thr k' t = thr k t"
    and new: "thr k' n = (thr k n)\<lparr>status := THREAD_RUNNING\<rparr>"
    and old: "n \<noteq> cur k \<Longrightarrow> thr k' (cur k) =
        (if status (thr k (cur k)) = THREAD_DYING \<and> cur k \<noteq> initial_thread k
         then (thr k (cur k))\<lparr>magic := False\<rparr> else thr k (cur k))"
  have thr: "thr k' t = (if t = n then (thr k t)\<lparr>status := THREAD_RUNNING\<rparr> else thr k t)" for t
  proof -
    consider "t = n" | "t \<noteq> n" "t = cur k" | "t \<noteq> n" "t \<noteq> cur k" by blast
    then show ?thesis
    proof cases
      case 1
      then show ?thesis using new by simp
    next
      case 2
      then show ?thesis using old assms(2) by auto
    next
      case 3
      then show ?thesis using oth [of t] by simp
    qed
  qed
  have n_ready: "status (thr k n) = THREAD_READY \<or> Some n = idle_thread k"
    using rd assms(1) lists_okD(2) [of k n] by (cases "ready_list k") (auto simp: switching_def)
  then have "keeps k k'"
    unfolding keeps_def preserves_def parked_def fr by (auto simp: thr is_thread_def)
  moreover have "cur k' = hd (ready_list k)" if "ready_list k \<noteq> []" using rd(1) [OF that] n by simp
  moreover have "Some (cur k') = idle_thread k" if "ready_list k = []" using rd(2) [OF that] n by simp
  moreover have "thr k' t = (if t = cur k' then (thr k t)\<lparr>status := THREAD_RUNNING\<rparr> else thr k t)" for t
    using thr n by simp
  ultimately show ?thesis by (rule that [OF run _ fr(10,2,9,3,1)])
qed

lemma thread_block_inv:
  assumes "sched_inv k" "\<not> in_external_intr k" "ready_list k \<noteq> [] \<or> idle_thread k \<noteq> None"
  obtains k' where "thread_block k = Some k'" "sched_inv k'" "preserves k k'"
    "\<not> in_external_intr k'" "sleep_list k' = sleep_list k" "ticks k' = ticks k"
    "ready_list k \<noteq> [] \<Longrightarrow> cur k' = hd (ready_list k)"
    "\<And>t. parked k' t = (parked k t \<or> t = cur k \<and> Some t \<noteq> idle_thread k)"
proof -
  let ?k = "upd k (cur k) (status_update (\<lambda>_. THREAD_BLOCKED))"
  have sw: "switching ?k" by (rule thread_block_switching [OF assms(1,3)])
  obtain k' where k': "schedule ?k = Some k'" "sched_inv k'" "keeps ?k k'"
    "in_external_intr k' = in_external_intr k" "sleep_list k' = sleep_list k" "ticks k' = ticks k"
    "ready_list k \<noteq> [] \<Longrightarrow> cur k' = hd (ready_list k)" "ready_list k = [] \<Longrightarrow> Some (cur k') = idle_thread k"
    "\<And>t. thr k' t = (if t = cur k' then (thr ?k t)\<lparr>status := THREAD_RUNNING\<rparr> else thr ?k t)"
    using schedule_keeps [OF sw] by auto
  have "preserves k ?k" by (simp add: preserves_def)
  then have "preserves k k'" using k'(3) by (auto simp: keeps_def intro: preserves_trans)
  moreover have "parked k' t = (parked k t \<or> t = cur k \<and> Some t \<noteq> idle_thread k)" for t
    using k'(3) sched_invD(2,6) [OF assms(1)] by (auto simp: keeps_def parked_def)
  moreover have "thread_block k = Some k'"
    using assms sched_invD(4) [OF assms(1)] k'(1) by (simp add: thread_block_def)
  ultimately show ?thesis using k' assms(2) by (intro that) auto
qed

lemma thread_yield_inv:
  assumes "sched_inv k" "\<not> in_external_intr k"
  obtains k' where "thread_yield k = Some k'" "sched_inv k'" "keeps k k'"
    "\<not> in_external_intr k'" "sleep_list k' = sleep_list k" "ticks k' = ticks k"
proof -
  let ?l = "if Some (cur k) \<noteq> idle_thread k
      then k\<lparr>ready_list := insert_ordered (thread_priority_greater k) (cur k) (ready_list k)\<rparr> else k"
  let ?k = "upd ?l (cur k) (status_update (\<lambda>_. THREAD_READY))"
  have sw: "switching ?k" by (rule thread_yield_switching [OF assms(1)])
  have dy: "status (thr ?k (cur ?k)) \<noteq> THREAD_DYING \<or> cur ?k = initial_thread ?k" by simp
  obtain k' where k': "schedule ?k = Some k'" "sched_inv k'" "keeps ?k k'"
    "in_external_intr k' = in_external_intr ?k" "sleep_list k' = sleep_list ?k" "ticks k' = ticks ?k"
    by (rule schedule_keeps [OF sw dy]) blast
  have "keeps k ?k"
    using sched_invD(3) [OF assms(1)] by (auto simp: keeps_def preserves_def parked_def is_thread_def)
  then have "keeps k k'" using k'(3) by (rule keeps_trans)
  moreover have "thread_yield k = Some k'"
    using assms sched_invD(4) [OF assms(1)] k'(1) by (simp add: thread_yield_def Let_def)
  moreover have "\<not> in_external_intr k'" "sleep_list k' = sleep_list k" "ticks k' = ticks k"
    using k'(4-6) assms(2) by simp_all
  ultimately show ?thesis using k'(2) that by blast
qed

lemma thread_exit_inv:
  assumes "sched_inv k" "\<not> in_external_intr k" "Some (cur k) \<noteq> idle_thread k"
    "ready_list k \<noteq> [] \<or> idle_thread k \<noteq> None"
  obtains k' where "thread_exit k = Some k'" "sched_inv k'" "\<not> in_external_intr k'"
    "kernel.more k' = kernel.more k" "idle_thread k' = idle_thread k"
    "initial_thread k' = initial_thread k" "thread_mlfqs k' = thread_mlfqs k"
    "sleep_list k' = sleep_list k" "cur k' \<noteq> cur k"
    "\<And>t. t \<noteq> cur k \<Longrightarrow> is_thread k' t = is_thread k t \<and> donations (thr k' t) = donations (thr k t) \<and>
       waiting_lock (thr k' t) = waiting_lock (thr k t)"
    "\<And>t. parked k' t = parked k t" "all_list k' = remove1 (cur k) (all_list k)"
    "status (thr k' (cur k)) = THREAD_DYING" "is_thread k' (cur k) = (cur k = initial_thread k)"
proof -
  let ?k = "upd (k\<lparr>all_list := remove1 (cur k) (all_list k)\<rparr>) (cur k) (status_update (\<lambda>_. THREAD_DYING))"
  have sw: "switching ?k" by (rule thread_exit_switching [OF assms(1,3,4)])
  show ?thesis
  proof (rule schedule_runs [OF sw])
    fix n k'
    assume run: "schedule ?k = Some k'" "sched_inv k'" and n: "cur k' = n"
      and rd: "ready_list ?k \<noteq> [] \<Longrightarrow> n = hd (ready_list ?k)" "ready_list ?k = [] \<Longrightarrow> Some n = idle_thread ?k"
      and fr: "sleep_list k' = sleep_list ?k" "all_list k' = all_list ?k" "kernel.more k' = kernel.more ?k"
        "idle_thread k' = idle_thread ?k" "initial_thread k' = initial_thread ?k" "thread_mlfqs k' = thread_mlfqs ?k"
        "in_external_intr k' = in_external_intr ?k"
      and oth: "\<And>t. t \<noteq> n \<Longrightarrow> t \<noteq> cur ?k \<Longrightarrow> thr k' t = thr ?k t"
      and new: "thr k' n = (thr ?k n)\<lparr>status := THREAD_RUNNING\<rparr>"
      and old: "n \<noteq> cur ?k \<Longrightarrow> thr k' (cur ?k) =
        (if status (thr ?k (cur ?k)) = THREAD_DYING \<and> cur ?k \<noteq> initial_thread ?k
         then (thr ?k (cur ?k))\<lparr>magic := False\<rparr> else thr ?k (cur ?k))"
    have ne: "n \<noteq> cur k"
      using rd assms(3) sched_invD(5) [OF assms(1)] by (cases "ready_list k") auto
    have n_ready: "status (thr k n) = THREAD_READY \<or> Some n = idle_thread k"
      using rd lists_okD(2) [OF sched_invD(1) [OF assms(1)], of n] by (cases "ready_list k") auto
    have thr: "is_thread k' t = is_thread k t \<and> donations (thr k' t) = donations (thr k t) \<and>
       waiting_lock (thr k' t) = waiting_lock (thr k t)"
      "status (thr k' t) = (if t = n then THREAD_RUNNING else status (thr k t))" if "t \<noteq> cur k" for t
      using ne new oth [of t] that by (cases "t = n", auto simp: is_thread_def)+
    have dy: "status (thr k' (cur k)) = THREAD_DYING" "is_thread k' (cur k) = (cur k = initial_thread k)"
      using old ne sched_invD(2) [OF assms(1)] by (auto simp: is_thread_def)
    have "parked k' t = parked k t" for t
      using thr [of t] dy n_ready sched_invD(3) [OF assms(1)] fr
      by (cases "t = cur k"; cases "t = n") (auto simp: parked_def)
    moreover have "thread_exit k = Some k'"
      using assms(2) sched_invD(4) [OF assms(1)] run(1) by (simp add: thread_exit_def)
    ultimately show ?thesis using that run(2) n ne fr assms(2) thr(1) dy by simp
  qed
qed

lemma thread_unblock_inv:
  assumes "sched_inv k" "is_thread k t" "status (thr k t) = THREAD_BLOCKED" "t \<notin> set (sleep_list k)"
    "Some t \<noteq> idle_thread k"
  obtains k' where "thread_unblock k t = Some k'" "sched_inv k'" "cur k' = cur k"
    "sleep_list k' = sleep_list k" "ticks k' = ticks k" "in_external_intr k' = in_external_intr k"
    "kernel.more k' = kernel.more k" "idle_thread k' = idle_thread k"
    "initial_thread k' = initial_thread k" "thread_mlfqs k' = thread_mlfqs k" "next_tid k' = next_tid k"
    "thr k' = (thr k)(t := (thr k t)\<lparr>status := THREAD_READY\<rparr>)" "yield_on_return k' = yield_on_return k"
    "all_list k' = all_list k" "ready_list k' = insert_ordered (thread_priority_greater k) t (ready_list k)"
proof -
  let ?k = "upd (k\<lparr>ready_list := insert_ordered (thread_priority_greater k) t (ready_list k)\<rparr>) t
      (status_update (\<lambda>_. THREAD_READY))"
  note D = lists_okD [OF sched_invD(1) [OF assms(1)]]
  have "lists_ok ?k"
    using D assms(2-5) unfolding lists_ok_def
    by (auto simp: ready_insert_sorted)
  then have inv: "sched_inv ?k"
    using assms by (auto simp: sched_inv_def)
  have run: "thread_unblock k t = Some ?k"
    using assms by (simp add: thread_unblock_def)
  show ?thesis by (rule that [OF run inv]) simp_all
qed

section \<open>Waking sleepers\<close>

definition due :: "int \<Rightarrow> 'a kernel_scheme \<Rightarrow> tptr \<Rightarrow> bool" where
  "due now k t \<longleftrightarrow> wake_tick (thr k t) \<le> now"

lemma sleep_list_update_inv:
  assumes "sched_inv k" "sleep_list k = t # ts"
  shows "sched_inv (k\<lparr>sleep_list := ts\<rparr>)"
  using assms by (auto simp: sched_inv_def lists_ok_def)

lemma thread_wake_loop_inv:
  assumes "sched_inv k" "sleep_list k = ts"
  obtains k' where "thread_wake_loop now ts k = Some k'" "sched_inv k'" "cur k' = cur k"
    "sleep_list k' = filter (\<lambda>t. \<not> due now k t) ts" "ticks k' = ticks k"
    "in_external_intr k' = in_external_intr k" "yield_on_return k' = yield_on_return k"
    "kernel.more k' = kernel.more k" "idle_thread k' = idle_thread k"
    "initial_thread k' = initial_thread k" "thread_mlfqs k' = thread_mlfqs k" "next_tid k' = next_tid k"
    "all_list k' = all_list k" "\<And>t. thr k' t = (if t \<in> set ts \<and> due now k t then (thr k t)\<lparr>status := THREAD_READY\<rparr> else thr k t)"
proof -
  have "\<exists>k'. thread_wake_loop now ts k = Some k' \<and> sched_inv k' \<and> cur k' = cur k \<and>
    sleep_list k' = filter (\<lambda>t. \<not> due now k t) ts \<and> ticks k' = ticks k \<and>
    in_external_intr k' = in_external_intr k \<and> yield_on_return k' = yield_on_return k \<and>
    kernel.more k' = kernel.more k \<and> idle_thread k' = idle_thread k \<and>
    initial_thread k' = initial_thread k \<and> thread_mlfqs k' = thread_mlfqs k \<and> next_tid k' = next_tid k \<and>
    all_list k' = all_list k \<and> (\<forall>t. thr k' t = (if t \<in> set ts \<and> due now k t then (thr k t)\<lparr>status := THREAD_READY\<rparr> else thr k t))"
    using assms
  proof (induction ts arbitrary: k)
    case Nil
    have "k\<lparr>sleep_list := []\<rparr> = k" using Nil(2) by (cases k) simp
    then have "sched_inv (k\<lparr>sleep_list := []\<rparr>)" using Nil(1) by (simp only:)
    then show ?case by simp
  next
    case (Cons t ts)
    note D = lists_okD [OF sched_invD(1) [OF Cons.prems(1)]]
    show ?case
    proof (cases "due now k t")
      case False
      have "\<not> due now k u" if "u \<in> set ts" for u
        using D(8) Cons.prems(2) False that by (auto simp: due_def wake_key_def)
      then have "filter (\<lambda>t. \<not> due now k t) (t # ts) = t # ts" "\<And>u. u \<in> set (t # ts) \<Longrightarrow> \<not> due now k u"
        using False by (auto simp: filter_id_conv)
      moreover have "k\<lparr>sleep_list := t # ts\<rparr> = k" using Cons.prems(2) by (cases k) simp
      then have "thread_wake_loop now (t # ts) k = Some k" using False by (simp add: due_def)
      ultimately show ?thesis using Cons.prems by (intro exI [of _ k]) auto
    next
      case True
      let ?k = "k\<lparr>sleep_list := ts\<rparr>"
      have t: "is_thread k t" "status (thr k t) = THREAD_BLOCKED" "Some t \<noteq> idle_thread k" "t \<notin> set ts"
        using D(6) D(7) [of t] Cons.prems(2) by auto
      have inv: "sched_inv ?k" by (rule sleep_list_update_inv [OF Cons.prems])
      have u: "is_thread ?k t" "status (thr ?k t) = THREAD_BLOCKED" "t \<notin> set (sleep_list ?k)"
        "Some t \<noteq> idle_thread ?k" using t by simp_all
      obtain k1 where k1: "thread_unblock ?k t = Some k1" "sched_inv k1" "cur k1 = cur ?k"
        "sleep_list k1 = sleep_list ?k" "ticks k1 = ticks ?k" "in_external_intr k1 = in_external_intr ?k"
        "kernel.more k1 = kernel.more ?k" "idle_thread k1 = idle_thread ?k"
        "initial_thread k1 = initial_thread ?k" "thread_mlfqs k1 = thread_mlfqs ?k" "next_tid k1 = next_tid ?k"
        "thr k1 = (thr ?k)(t := (thr ?k t)\<lparr>status := THREAD_READY\<rparr>)" "yield_on_return k1 = yield_on_return ?k"
        "all_list k1 = all_list ?k"
        by (rule thread_unblock_inv [OF inv u]) blast
      have sl: "sleep_list k1 = ts" using k1(4) by simp
      have due1: "due now k1 u = due now k u" for u by (simp add: due_def k1(12))
      obtain k' where k': "thread_wake_loop now ts k1 = Some k'" "sched_inv k'" "cur k' = cur k1"
        "sleep_list k' = filter (\<lambda>t. \<not> due now k1 t) ts" "ticks k' = ticks k1"
        "in_external_intr k' = in_external_intr k1" "yield_on_return k' = yield_on_return k1"
        "kernel.more k' = kernel.more k1" "idle_thread k' = idle_thread k1"
        "initial_thread k' = initial_thread k1" "thread_mlfqs k' = thread_mlfqs k1" "next_tid k' = next_tid k1"
        "all_list k' = all_list k1" "\<And>u. thr k' u = (if u \<in> set ts \<and> due now k1 u then (thr k1 u)\<lparr>status := THREAD_READY\<rparr> else thr k1 u)"
        using Cons.IH [OF k1(2) sl] by blast
      have "thread_wake_loop now (t # ts) k = Some k'"
        using True k1(1) k'(1) by (simp add: due_def)
      moreover have "thr k' u = (if u \<in> set (t # ts) \<and> due now k u then (thr k u)\<lparr>status := THREAD_READY\<rparr>
          else thr k u)" for u
        using True t(4) by (simp add: k'(14) due1 k1(12))
      ultimately show ?thesis using k' True by (simp add: k1 due1)
    qed
  qed
  then show ?thesis using that by blast
qed

section \<open>The timer interrupt\<close>

lemma sched_inv_cong:
  assumes "sched_inv k"
    and "\<And>t. status (thr k' t) = status (thr k t) \<and> magic (thr k' t) = magic (thr k t) \<and>
          wake_tick (thr k' t) = wake_tick (thr k t)"
    and "all_list k' = all_list k" "sleep_list k' = sleep_list k" "cur k' = cur k"
      "idle_thread k' = idle_thread k" "initial_thread k' = initial_thread k"
      "mset (ready_list k') = mset (ready_list k)" "sorted (map (neg_prio k') (ready_list k'))"
  shows "sched_inv k'"
proof -
  have ready: "set (ready_list k') = set (ready_list k)" "distinct (ready_list k') = distinct (ready_list k)"
    by (rule mset_eq_setD [OF assms(8)], rule mset_eq_imp_distinct_iff [OF assms(8)])
  have thr: "is_thread k' = is_thread k" "wake_key k' = wake_key k" "\<And>t. status (thr k' t) = status (thr k t)"
    using assms(2) by (auto simp: is_thread_def wake_key_def)
  show ?thesis
    using assms(1,9) unfolding sched_inv_def lists_ok_def assms(3-7) ready thr
    by (elim conjE) (intro conjI; assumption)
qed

lemma foldl_upd:
  assumes "\<And>k t. func k t = (if Some t = idle_thread k then k else upd k t (f (load_avg k)))" "distinct ts"
  shows "foldl func k ts =
    k\<lparr>thr := \<lambda>t. if t \<in> set ts \<and> Some t \<noteq> idle_thread k then f (load_avg k) (thr k t) else thr k t\<rparr>"
  using assms(2)
proof (induction ts rule: rev_induct)
  case Nil
  then show ?case by simp
next
  case (snoc t ts)
  then show ?case by (auto simp: assms(1) upd_def fun_eq_iff intro!: kernel.fold_congs)
qed

lemma foreach_calc_priority:
  "distinct (all_list k) \<Longrightarrow> thread_foreach mlfqs_calc_priority k =
    k\<lparr>thr := \<lambda>t. if t \<in> set (all_list k) \<and> Some t \<noteq> idle_thread k
      then (thr k t)\<lparr>priority := mlfqs_priority (recent_cpu (thr k t)) (nice (thr k t))\<rparr> else thr k t\<rparr>"
  unfolding thread_foreach_def
  by (subst foldl_upd [where f = "\<lambda>_ r. r\<lparr>priority := mlfqs_priority (recent_cpu r) (nice r)\<rparr>"])
     (simp_all add: mlfqs_calc_priority_def)

lemma foreach_calc_recent_cpu:
  "distinct (all_list k) \<Longrightarrow> thread_foreach mlfqs_calc_recent_cpu k =
    k\<lparr>thr := \<lambda>t. if t \<in> set (all_list k) \<and> Some t \<noteq> idle_thread k
      then (thr k t)\<lparr>recent_cpu := mlfqs_recent_cpu (load_avg k) (recent_cpu (thr k t)) (nice (thr k t))\<rparr>
      else thr k t\<rparr>"
  unfolding thread_foreach_def
  by (subst foldl_upd [where f = "\<lambda>l r. r\<lparr>recent_cpu := mlfqs_recent_cpu l (recent_cpu r) (nice r)\<rparr>"])
     (simp_all add: mlfqs_calc_recent_cpu_def)

text \<open>\<open>quiet k k'\<close>: at most accounting, priorities and the order of the ready list have changed.\<close>

definition quiet :: "'a kernel_scheme \<Rightarrow> 'a kernel_scheme \<Rightarrow> bool" where
  "quiet k k' \<longleftrightarrow> kernel.more k' = kernel.more k \<and> cur k' = cur k \<and> idle_thread k' = idle_thread k \<and>
     initial_thread k' = initial_thread k \<and> thread_mlfqs k' = thread_mlfqs k \<and> next_tid k' = next_tid k \<and>
     in_external_intr k' = in_external_intr k \<and> ticks k' = ticks k \<and> all_list k' = all_list k \<and>
     sleep_list k' = sleep_list k \<and> mset (ready_list k') = mset (ready_list k) \<and>
     (\<forall>t. status (thr k' t) = status (thr k t) \<and> magic (thr k' t) = magic (thr k t) \<and>
        wake_tick (thr k' t) = wake_tick (thr k t) \<and> donations (thr k' t) = donations (thr k t) \<and>
        waiting_lock (thr k' t) = waiting_lock (thr k t))"

lemma quiet_refl [simp]: "quiet k k"
  by (simp add: quiet_def)

lemma quiet_trans [trans]: "quiet k k' \<Longrightarrow> quiet k' k'' \<Longrightarrow> quiet k k''"
  by (simp add: quiet_def)

lemma quiet_keeps: "quiet k k' \<Longrightarrow> keeps k k'"
  by (simp add: quiet_def keeps_def preserves_def parked_def is_thread_def)

lemma quiet_inv:
  assumes "sched_inv k" "quiet k k'" "sorted (map (neg_prio k') (ready_list k'))"
  shows "sched_inv k'"
  by (rule sched_inv_cong [OF assms(1)]) (use assms(2,3) in \<open>simp_all add: quiet_def\<close>)

lemma update_all_priorities_quiet:
  assumes "distinct (all_list k)"
  shows "quiet k (mlfqs_update_all_priorities k)"
    "sorted (map (neg_prio (mlfqs_update_all_priorities k)) (ready_list (mlfqs_update_all_priorities k)))"
proof -
  let ?k = "thread_foreach mlfqs_calc_priority k"
  have eq: "mlfqs_update_all_priorities k = ?k\<lparr>ready_list := sort_key (neg_prio ?k) (ready_list ?k)\<rparr>"
    by (simp add: mlfqs_update_all_priorities_def Let_def neg_prio_def [abs_def])
  show "quiet k (mlfqs_update_all_priorities k)"
    unfolding eq by (simp add: quiet_def foreach_calc_priority [OF assms])
  show "sorted (map (neg_prio (mlfqs_update_all_priorities k)) (ready_list (mlfqs_update_all_priorities k)))"
    unfolding eq by (simp add: state_indep)
qed

lemma update_load_avg_quiet:
  assumes "distinct (all_list k)"
  shows "quiet k (mlfqs_update_load_avg_and_recent_cpu k)"
  using assms by (simp add: mlfqs_update_load_avg_and_recent_cpu_def foreach_calc_recent_cpu quiet_def Let_def)

lemma thread_tick_inv:
  assumes "sched_inv k" "in_external_intr k"
  obtains k' where "thread_tick k = Some k'" "sched_inv k'" "quiet k k'"
proof -
  let ?c = "cur k"
  define k1 where "k1 = (if Some ?c = idle_thread k then k\<lparr>idle_ticks := idle_ticks k + 1\<rparr>
      else if pagedir (thr k ?c) \<noteq> None then k\<lparr>user_ticks := user_ticks k + 1\<rparr>
      else k\<lparr>kernel_ticks := kernel_ticks k + 1\<rparr>)"
  define k2 where "k2 = (if thread_mlfqs k1 \<and> Some ?c \<noteq> idle_thread k1
      then upd k1 ?c (recent_cpu_update (\<lambda>r. FP_ADD_INT r 1)) else k1)"
  define n where "n = idle_ticks k2 + kernel_ticks k2 + user_ticks k2"
  define k3 where "k3 = (if thread_mlfqs k2 \<and> n smod TIMER_FREQ = 0
      then mlfqs_update_all_priorities (mlfqs_update_load_avg_and_recent_cpu k2)
      else if thread_mlfqs k2 \<and> n smod int TIME_SLICE = 0 then mlfqs_update_all_priorities k2 else k2)"
  define k4 where "k4 = k3\<lparr>thread_ticks := wrap32 (thread_ticks k3 + 1)\<rparr>"
  define k5 where "k5 = (if thread_ticks k4 \<ge> TIME_SLICE then k4\<lparr>yield_on_return := True\<rparr> else k4)"
  have q2: "quiet k k2" "ready_list k2 = ready_list k" "neg_prio k2 = neg_prio k"
    by (auto simp: quiet_def k2_def k1_def neg_prio_def fun_eq_iff)
  have d: "distinct (all_list k2)"
    using q2(1) lists_okD(4) [OF sched_invD(1) [OF assms(1)]] by (simp add: quiet_def)
  have q: "quiet k2 (mlfqs_update_load_avg_and_recent_cpu k2)" by (rule update_load_avg_quiet [OF d])
  then have d': "distinct (all_list (mlfqs_update_load_avg_and_recent_cpu k2))"
    using d by (simp add: quiet_def)
  have sorted_k: "sorted (map (neg_prio k) (ready_list k))"
    by (rule lists_okD(3) [OF sched_invD(1) [OF assms(1)]])
  have "k3 = mlfqs_update_all_priorities (mlfqs_update_load_avg_and_recent_cpu k2) \<or>
      k3 = mlfqs_update_all_priorities k2 \<or> k3 = k2" by (simp add: k3_def)
  then have q3: "quiet k k3 \<and> sorted (map (neg_prio k3) (ready_list k3))"
  proof (elim disjE)
    assume "k3 = mlfqs_update_all_priorities (mlfqs_update_load_avg_and_recent_cpu k2)"
    then show ?thesis
      using quiet_trans [OF q2(1) quiet_trans [OF q update_all_priorities_quiet(1) [OF d']]]
        update_all_priorities_quiet(2) [OF d'] by simp
  next
    assume "k3 = mlfqs_update_all_priorities k2"
    then show ?thesis
      using quiet_trans [OF q2(1) update_all_priorities_quiet(1) [OF d]] update_all_priorities_quiet(2) [OF d]
      by simp
  next
    assume "k3 = k2"
    then show ?thesis using q2 sorted_k by simp
  qed
  have "quiet k3 k5" by (simp add: k5_def k4_def quiet_def)
  with q3 have q5: "quiet k k5" by (blast intro: quiet_trans)
  have k5: "neg_prio k5 = neg_prio k3" "ready_list k5 = ready_list k3"
    by (simp_all add: k5_def k4_def neg_prio_def fun_eq_iff)
  have "in_external_intr k4" using q3 assms(2) by (simp add: k4_def quiet_def)
  then have "thread_tick k = Some k5"
    unfolding thread_tick_def sched_invD(4) [OF assms(1)] Option.bind.simps Let_def
      k1_def [symmetric] k2_def [symmetric] n_def [symmetric] k3_def [symmetric] k4_def [symmetric]
    by (simp add: k5_def intr_yield_on_return_def)
  moreover have "sched_inv k5" using assms(1) q5 by (rule quiet_inv) (simp add: k5 q3)
  ultimately show ?thesis using q5 that by blast
qed

lemma timer_interrupt_inv:
  assumes "sched_inv k" "in_external_intr k"
  obtains k' where "timer_interrupt k = Some k'" "sched_inv k'" "keeps k k'" "cur k' = cur k"
    "in_external_intr k'" "ticks k' = ticks k + 1"
    "sleep_list k' = filter (\<lambda>t. \<not> due (ticks k + 1) k t) (sleep_list k)"
    "\<And>t. t \<in> set (sleep_list k) \<Longrightarrow> due (ticks k + 1) k t \<Longrightarrow> t \<in> set (ready_list k')"
    "\<And>t. wake_tick (thr k' t) = wake_tick (thr k t)"
proof -
  let ?k = "k\<lparr>ticks := ticks k + 1\<rparr>"
  have inv: "sched_inv ?k"
    by (rule sched_inv_cong [OF assms(1)])
       (use lists_okD(3) [OF sched_invD(1) [OF assms(1)]] in \<open>simp_all add: neg_prio_def [abs_def]\<close>)
  have ext: "in_external_intr ?k" using assms(2) by simp
  obtain k1 where k1: "thread_tick ?k = Some k1" "sched_inv k1" "quiet ?k k1"
    using thread_tick_inv [OF inv ext] .
  obtain k' where k': "thread_wake_loop (ticks k1) (sleep_list k1) k1 = Some k'" "sched_inv k'" "cur k' = cur k1"
    "sleep_list k' = filter (\<lambda>t. \<not> due (ticks k1) k1 t) (sleep_list k1)" "ticks k' = ticks k1"
    "in_external_intr k' = in_external_intr k1" "kernel.more k' = kernel.more k1"
    "idle_thread k' = idle_thread k1" "initial_thread k' = initial_thread k1"
    "thread_mlfqs k' = thread_mlfqs k1" "next_tid k' = next_tid k1" "all_list k' = all_list k1"
    "\<And>t. thr k' t = (if t \<in> set (sleep_list k1) \<and> due (ticks k1) k1 t
        then (thr k1 t)\<lparr>status := THREAD_READY\<rparr> else thr k1 t)"
    by (rule thread_wake_loop_inv [OF k1(2) refl, of "ticks k1"]) blast
  note q = k1(3) [unfolded quiet_def]
  have due1: "due (ticks k1) k1 t = due (ticks k + 1) k t" for t using q by (simp add: due_def)
  have "keeps k ?k" by (simp add: keeps_def preserves_def parked_def is_thread_def)
  moreover have "keeps k1 k'"
    unfolding keeps_def preserves_def parked_def using lists_okD(7) [OF sched_invD(1) [OF k1(2)]]
    by (auto simp: k'(4,7-13) is_thread_def)
  ultimately have "keeps k k'" using quiet_keeps [OF k1(3)] by (blast intro: keeps_trans)
  moreover have "timer_interrupt k = Some k'"
    using k1(1) k'(1) by (simp add: timer_interrupt_def thread_wake_def)
  moreover have "t \<in> set (ready_list k')" if "t \<in> set (sleep_list k)" "due (ticks k + 1) k t" for t
  proof -
    have t: "t \<in> set (sleep_list k1)" "due (ticks k1) k1 t" using that q due1 by simp_all
    have "is_thread k1 t" "Some t \<noteq> idle_thread k1"
      using lists_okD(7) [OF sched_invD(1) [OF k1(2)] t(1)] by simp_all
    then show ?thesis
      using lists_okD(2) [OF sched_invD(1) [OF k'(2)], of t] t by (simp add: k'(8,13) is_thread_def)
  qed
  moreover have "wake_tick (thr k' t) = wake_tick (thr k t)" for t using q by (simp add: k'(13))
  moreover have "sleep_list k' = filter (\<lambda>t. \<not> due (ticks k + 1) k t) (sleep_list k)"
    using k'(4) q unfolding due1 by simp
  moreover have "cur k' = cur k" "in_external_intr k'" "ticks k' = ticks k + 1"
    using k'(3,5,6) q assms(2) by simp_all
  ultimately show ?thesis using that k'(2) by blast
qed

text \<open>A tick as the interrupted thread sees it: the handler, then the yield it may have asked for.\<close>

lemma timer_tick_inv:
  assumes "sched_inv k" "\<not> in_external_intr k"
  obtains k' where "external_interrupt timer_interrupt k = Some k'" "sched_inv k'" "keeps k k'"
    "\<not> in_external_intr k'" "ticks k' = ticks k + 1"
    "sleep_list k' = filter (\<lambda>t. \<not> due (ticks k + 1) k t) (sleep_list k)"
proof -
  let ?k = "k\<lparr>in_external_intr := True, yield_on_return := False\<rparr>"
  have indep: "neg_prio (k\<lparr>in_external_intr := b, yield_on_return := c\<rparr>) = neg_prio k"
    "neg_prio (k\<lparr>in_external_intr := b\<rparr>) = neg_prio k" for k :: "'a kernel_scheme" and b c
    by (simp_all add: neg_prio_def [abs_def])
  have inv: "sched_inv ?k" and ext: "in_external_intr ?k"
    by (rule sched_inv_cong [OF assms(1)])
       (use lists_okD(3) [OF sched_invD(1) [OF assms(1)]] in \<open>simp_all add: indep\<close>)
  obtain k1 where k1: "timer_interrupt ?k = Some k1" "sched_inv k1" "keeps ?k k1" "ticks k1 = ticks ?k + 1"
      "sleep_list k1 = filter (\<lambda>t. \<not> due (ticks ?k + 1) ?k t) (sleep_list ?k)"
    by (rule timer_interrupt_inv [OF inv ext]) blast
  let ?k1 = "k1\<lparr>in_external_intr := False\<rparr>"
  have inv1: "sched_inv ?k1"
    by (rule sched_inv_cong [OF k1(2)])
       (use lists_okD(3) [OF sched_invD(1) [OF k1(2)]] in \<open>simp_all add: indep\<close>)
  have keep: "keeps k ?k1" using k1(3) by (simp add: keeps_def preserves_def)
  have sl: "sleep_list k1 = filter (\<lambda>t. \<not> due (ticks k + 1) k t) (sleep_list k)" "ticks k1 = ticks k + 1"
    using k1(4,5) by (simp_all add: due_def)
  show ?thesis
  proof (cases "yield_on_return k1")
    case False
    then have "external_interrupt timer_interrupt k = Some ?k1"
      using assms(2) k1(1) by (simp add: external_interrupt_def)
    then show ?thesis using that [of ?k1] inv1 keep sl by simp
  next
    case True
    have "\<not> in_external_intr ?k1" by simp
    from thread_yield_inv [OF inv1 this] obtain k' where k': "thread_yield ?k1 = Some k'" "sched_inv k'"
      "keeps ?k1 k'" "\<not> in_external_intr k'" "sleep_list k' = sleep_list ?k1" "ticks k' = ticks ?k1"
      by blast
    have "external_interrupt timer_interrupt k = Some k'"
      using True assms(2) k1(1) k'(1) by (simp add: external_interrupt_def)
    moreover have "keeps k k'" by (rule keeps_trans [OF keep k'(3)])
    ultimately show ?thesis using that [of k'] k'(2,4,5,6) sl by simp
  qed
qed

section \<open>Sleeping, priorities, creation\<close>

lemma thread_sleep_inv:
  assumes "sched_inv k" "\<not> in_external_intr k" "Some (cur k) \<noteq> idle_thread k"
    "ready_list k \<noteq> [] \<or> idle_thread k \<noteq> None"
  obtains k' where "thread_sleep k w = Some k'" "sched_inv k'" "keeps k k'" "\<not> in_external_intr k'"
    "ticks k' = ticks k" "set (sleep_list k') = insert (cur k) (set (sleep_list k))"
    "wake_tick (thr k' (cur k)) = w" "status (thr k' (cur k)) = THREAD_BLOCKED"
proof -
  let ?k1 = "upd k (cur k) (wake_tick_update (\<lambda>_. w))"
  let ?s = "insert_ordered (thread_wake_tick_less ?k1) (cur k) (sleep_list k)"
  let ?k2 = "?k1\<lparr>sleep_list := ?s\<rparr>"
  let ?k = "upd ?k2 (cur k) (status_update (\<lambda>_. THREAD_BLOCKED))"
  note D = lists_okD [OF sched_invD(1) [OF assms(1)]] and C = sched_invD(2-6) [OF assms(1)]
  have inv1: "sched_inv ?k1" by (rule lists_ok_upd_cur [OF assms(1)]) simp_all
  note D1 = lists_okD [OF sched_invD(1) [OF inv1]]
  have keys: "neg_prio ?k = neg_prio ?k1" "wake_key ?k = wake_key ?k1" "is_thread ?k = is_thread k"
    and alive1: "is_thread ?k1 = is_thread k"
    by (auto simp: fun_eq_iff neg_prio_def wake_key_def is_thread_def)
  have "lists_ok ?k"
    unfolding lists_ok_def keys
  proof (intro conjI allI ballI)
    show "sorted (map (wake_key ?k1) (sleep_list ?k))"
      using D1(8) by_wake_tick.sorted_insert_ordered [of ?k1 "cur k" "sleep_list k"] by simp
    show "sorted (map (neg_prio ?k1) (ready_list ?k))" using D1(3) by simp
  qed (use D(1,2,4,5,6,7,9) C assms(3) in \<open>auto\<close>)
  then have sw: "switching ?k"
    using assms by (auto simp: switching_def sched_inv_def alive1)
  have dy: "status (thr ?k (cur ?k)) \<noteq> THREAD_DYING \<or> cur ?k = initial_thread ?k" by simp
  obtain k' where k': "schedule ?k = Some k'" "sched_inv k'" "keeps ?k k'"
    "in_external_intr k' = in_external_intr ?k" "sleep_list k' = sleep_list ?k" "ticks k' = ticks ?k"
    "ready_list ?k \<noteq> [] \<Longrightarrow> cur k' = hd (ready_list ?k)" "ready_list ?k = [] \<Longrightarrow> Some (cur k') = idle_thread ?k"
    "\<And>t. thr k' t = (if t = cur k' then (thr ?k t)\<lparr>status := THREAD_RUNNING\<rparr> else thr ?k t)"
    by (rule schedule_keeps [OF sw dy]) blast
  have "cur k' \<noteq> cur k"
    using k'(7,8) assms(3) C(4) by (cases "ready_list k") auto
  then have "wake_tick (thr k' (cur k)) = w" "status (thr k' (cur k)) = THREAD_BLOCKED"
    using k'(9) by simp_all
  moreover have "thread_sleep k w = Some k'"
    using C(2,3) assms(2) sched_invD(2,4) [OF inv1] k'(1)
    by (simp add: thread_sleep_def thread_block_def thread_current_def Let_def)
  moreover have "keeps k ?k" using C(2) by (auto simp: keeps_def preserves_def parked_def is_thread_def)
  then have "keeps k k'" using k'(3) by (rule keeps_trans)
  ultimately show ?thesis using that k'(2,4,5,6) assms(2) by simp
qed

lemma yield_to_higher_inv:
  assumes "sched_inv k" "\<not> in_external_intr k"
  obtains k' where "yield_to_higher k = Some k'" "sched_inv k'" "keeps k k'" "\<not> in_external_intr k'"
    "sleep_list k' = sleep_list k" "ticks k' = ticks k"
proof (cases "yield_to_higher k = Some k")
  case True
  then show ?thesis using that [of k] assms by simp
next
  case False
  then have "yield_to_higher k = thread_yield k"
    by (auto simp: yield_to_higher_def split: list.splits if_splits)
  then show ?thesis using thread_yield_inv [OF assms] that by metis
qed

lemma upd_cur_keeps:
  assumes "sched_inv k" "\<And>r. status (f r) = status r" "\<And>r. magic (f r) = magic r"
    "\<And>r. donations (f r) = donations r" "\<And>r. waiting_lock (f r) = waiting_lock r"
  shows "keeps k (upd k (cur k) f)"
  using assms by (simp add: keeps_def preserves_def parked_def is_thread_def)

lemma thread_set_priority_inv:
  assumes "sched_inv k" "\<not> in_external_intr k"
  obtains k' where "thread_set_priority k p = Some k'" "sched_inv k'" "keeps k k'" "\<not> in_external_intr k'"
    "sleep_list k' = sleep_list k" "ticks k' = ticks k"
proof (cases "thread_mlfqs k")
  case True
  then show ?thesis using that [of k] assms by (simp add: thread_set_priority_def)
next
  case False
  let ?k1 = "upd k (cur k) (base_priority_update (\<lambda>_. p))"
  let ?k2 = "upd ?k1 (cur k) (priority_update (\<lambda>_. thread_get_effective_priority ?k1 (cur k)))"
  have i1: "sched_inv ?k1" and k1: "keeps k ?k1"
    by (rule lists_ok_upd_cur [OF assms(1)], simp_all) (rule upd_cur_keeps [OF assms(1)], simp_all)
  have i2: "sched_inv ?k2" and k2: "keeps ?k1 ?k2"
    using lists_ok_upd_cur [OF i1, of "priority_update (\<lambda>_. thread_get_effective_priority ?k1 (cur k))"]
      upd_cur_keeps [OF i1, of "priority_update (\<lambda>_. thread_get_effective_priority ?k1 (cur k))"] by simp_all
  have ext: "\<not> in_external_intr ?k2" using assms(2) by simp
  obtain k' where k': "yield_to_higher ?k2 = Some k'" "sched_inv k'" "keeps ?k2 k'" "\<not> in_external_intr k'"
      "sleep_list k' = sleep_list ?k2" "ticks k' = ticks ?k2"
    by (rule yield_to_higher_inv [OF i2 ext]) blast
  have "thread_set_priority k p = Some k'"
    using False k'(1) sched_invD(4) [OF assms(1)] by (simp add: thread_set_priority_def Let_def)
  moreover have "keeps k k'" by (rule keeps_trans [OF k1 keeps_trans [OF k2 k'(3)]])
  ultimately show ?thesis using that k'(2,4,5,6) by simp
qed

lemma thread_set_nice_inv:
  assumes "sched_inv k" "\<not> in_external_intr k"
  obtains k' where "thread_set_nice k n = Some k'" "sched_inv k'" "keeps k k'" "\<not> in_external_intr k'"
    "sleep_list k' = sleep_list k" "ticks k' = ticks k"
proof -
  let ?f = "\<lambda>r. (r\<lparr>nice := n\<rparr>)\<lparr>priority :=
      if Some (cur k) = idle_thread k then priority r else mlfqs_priority (recent_cpu r) n\<rparr>"
  let ?k2 = "upd k (cur k) ?f"
  have eq: "mlfqs_calc_priority (upd k (cur k) (nice_update (\<lambda>_. n))) (cur k) = ?k2"
    by (auto simp: mlfqs_calc_priority_def upd_def)
  have i2: "sched_inv ?k2" by (rule lists_ok_upd_cur [OF assms(1)]) simp_all
  have k2: "keeps k ?k2" by (rule upd_cur_keeps [OF assms(1)]) simp_all
  have ext: "\<not> in_external_intr ?k2" using assms(2) by simp
  obtain k' where k': "yield_to_higher ?k2 = Some k'" "sched_inv k'" "keeps ?k2 k'" "\<not> in_external_intr k'"
      "sleep_list k' = sleep_list ?k2" "ticks k' = ticks ?k2"
    by (rule yield_to_higher_inv [OF i2 ext]) blast
  have "thread_set_nice k n = Some k'"
    using k'(1) sched_invD(4) [OF assms(1)] by (simp add: thread_set_nice_def eq)
  moreover have "keeps k k'" by (rule keeps_trans [OF k2 k'(3)])
  ultimately show ?thesis using that k'(2,4,5,6) by simp
qed

lemma init_thread_inv:
  assumes "sched_inv k" "\<not> is_thread k t" "init_thread k t nm p = Some k'"
  shows "sched_inv k'" "is_thread k' t" "status (thr k' t) = THREAD_BLOCKED" "t \<notin> set (sleep_list k')"
    "cur k' = cur k" "sleep_list k' = sleep_list k" "in_external_intr k' = in_external_intr k"
    "kernel.more k' = kernel.more k" "idle_thread k' = idle_thread k" "initial_thread k' = initial_thread k"
    "thread_mlfqs k' = thread_mlfqs k" "all_list k' = all_list k @ [t]" "donations (thr k' t) = []" "waiting_lock (thr k' t) = None"
    "\<And>u. u \<noteq> t \<Longrightarrow> thr k' u = thr k u" "ready_list k' = ready_list k" "ticks k' = ticks k"
proof -
  obtain r where k': "k' = (upd k t (\<lambda>_. r))\<lparr>all_list := all_list k @ [t]\<rparr>"
    and r: "status r = THREAD_BLOCKED" "magic r" "donations r = []" "waiting_lock r = None"
    using assms(3) by (auto simp: init_thread_def Let_def)
  note D = lists_okD [OF sched_invD(1) [OF assms(1)]]
  have t: "t \<notin> set (ready_list k)" "t \<notin> set (sleep_list k)" "t \<notin> set (all_list k)" "Some t \<noteq> idle_thread k" "t \<noteq> cur k"
    using D(2,5) [of t] D(7) [of t] D(9) [of t] assms(2) sched_invD(2) [OF assms(1)] by auto
  have keys: "map (neg_prio k') (ready_list k) = map (neg_prio k) (ready_list k)"
      "map (wake_key k') (sleep_list k) = map (wake_key k) (sleep_list k)"
    using t by (auto simp: k' neg_prio_def wake_key_def)
  have alive: "is_thread k' u = (u = t \<or> is_thread k u)" for u using r by (simp add: k' is_thread_def)
  have stat: "status (thr k' u) = (if u = t then THREAD_BLOCKED else status (thr k u))" for u
    using r by (simp add: k')
  have fr: "ready_list k' = ready_list k" "sleep_list k' = sleep_list k" "all_list k' = all_list k @ [t]"
    "cur k' = cur k" "idle_thread k' = idle_thread k" "initial_thread k' = initial_thread k"
    by (simp_all add: k')
  have "lists_ok k'"
    unfolding lists_ok_def fr keys alive stat
  proof (intro conjI allI ballI)
    show "(u \<in> set (ready_list k)) = ((u = t \<or> is_thread k u) \<and>
        (if u = t then THREAD_BLOCKED else status (thr k u)) = THREAD_READY \<and> Some u \<noteq> idle_thread k)" for u
      using D(2) [of u] t by auto
    show "(u \<in> set (all_list k @ [t])) = ((u = t \<or> is_thread k u) \<and>
        (if u = t then THREAD_BLOCKED else status (thr k u)) \<noteq> THREAD_DYING)" for u
      using D(5) [of u] t by auto
  qed (use D(1,3,4,6,7,8,9) t in \<open>auto\<close>)
  then show "sched_inv k'"
    using assms(1,2) t unfolding sched_inv_def fr alive stat by auto
qed (use assms(3) sched_invD(1) [OF assms(1)] lists_okD(7) [OF sched_invD(1) [OF assms(1)], of t] assms(2) in
      \<open>auto simp: init_thread_def Let_def is_thread_def\<close>)

end
