(* ===== verification/Synch.thy ===== *)
theory Synch
  imports Scheduling
begin

text \<open>
  Semaphores, locks with priority donation and condition variables of \<^verbatim>\<open>threads/synch.c\<close>, thread
  creation and the idle thread of \<^verbatim>\<open>thread.c\<close>, and \<open>timer_sleep\<close>, as sections of code that run
  without a switch, and the interleaving of the sections of all threads.

  A thread that blocks in the middle of a function, or that can be preempted there, leaves the
  rest of the function to be done. \<open>konts\<close> holds it for every thread: a stack of \<open>kont\<close>s, each
  of which names the section to run next. One \<open>exec\<close> step runs the top section of the running
  thread, lets a thread whose stack is empty call an operation, or delivers an interrupt.
  Interrupts are possible between any two sections, also where the code has them switched
  off, so the model has every behaviour of the code at this granularity and some more.
\<close>

section \<open>State\<close>

record semaphore =
  sema_value :: nat
  waiters :: "tptr list"

text \<open>
  A semaphore is one of its own, the one inside a lock, or the one in the frame of the
  \<open>cond_wait\<close> of a thread.
\<close>

datatype sema_ref = Sema nat | Lock_sema nat | Waiter_sema tptr

datatype kont =
    K_sema_down sema_ref
  | K_sema_up sema_ref
  | K_yield_check
  | K_lock_acquire nat
  | K_lock_donate nat
  | K_donate_priority
  | K_lock_down nat
  | K_lock_own nat
  | K_lock_release nat
  | K_cond_broadcast nat nat
  | K_thread_sleep int
  | K_allocate_tid tptr
  | K_unblock_new tptr
  | K_create_yield int
  | K_idle_start sema_ref
  | K_idle

record sys = kernel +
  semas :: "sema_ref \<Rightarrow> semaphore"
  holder :: "nat \<Rightarrow> tptr option"
  conds :: "nat \<Rightarrow> tptr list"
  konts :: "tptr \<Rightarrow> kont list"

definition push :: "tptr \<Rightarrow> kont list \<Rightarrow> sys \<Rightarrow> sys" where
  "push t ks k = k\<lparr>konts := (konts k)(t := ks @ konts k t)\<rparr>"

definition set_sema :: "sema_ref \<Rightarrow> semaphore \<Rightarrow> sys \<Rightarrow> sys" where
  "set_sema s v k = k\<lparr>semas := (semas k)(s := v)\<rparr>"

section \<open>Semaphores\<close>

definition sema_init :: "sema_ref \<Rightarrow> nat \<Rightarrow> sys \<Rightarrow> sys" where
  "sema_init s v k = set_sema s \<lparr>sema_value = v, waiters = []\<rparr> k"

text \<open>
  One turn of the loop of \<open>sema_down\<close>: either the value is positive and is decremented, or the
  thread queues itself and blocks, to test again when it is woken.
\<close>

definition sema_down :: "sema_ref \<Rightarrow> sys \<Rightarrow> (bool \<times> sys) option" where
  "sema_down s k = do {
     ASSERT (\<not> in_external_intr k);
     let v = semas k s;
     if sema_value v = 0
     then do {
       c \<leftarrow> thread_current k;
       k \<leftarrow> thread_block (set_sema s
              (v\<lparr>waiters := insert_ordered (thread_priority_greater k) c (waiters v)\<rparr>) k);
       Some (False, k) }
     else Some (True, set_sema s (v\<lparr>sema_value := sema_value v - 1\<rparr>) k) }"

definition sema_try_down :: "sema_ref \<Rightarrow> sys \<Rightarrow> bool \<times> sys" where
  "sema_try_down s k =
     (let v = semas k s
      in if sema_value v > 0 then (True, set_sema s (v\<lparr>sema_value := sema_value v - 1\<rparr>) k)
         else (False, k))"

text \<open>The part of \<open>sema_up\<close> with interrupts off, and the whole; the yield is a section of its own.\<close>

definition sema_up_wake :: "sema_ref \<Rightarrow> sys \<Rightarrow> sys option" where
  "sema_up_wake s k = do {
     k \<leftarrow> (if waiters (semas k s) \<noteq> []
          then let ws = sort_key (neg_prio k) (waiters (semas k s))
               in thread_unblock (set_sema s ((semas k s)\<lparr>waiters := tl ws\<rparr>) k) (hd ws)
          else Some k);
     Some (set_sema s ((semas k s)\<lparr>sema_value := wrap32 (sema_value (semas k s) + 1)\<rparr>) k) }"

definition sema_up :: "sema_ref \<Rightarrow> sys \<Rightarrow> sys option" where
  "sema_up s k = do {
     k \<leftarrow> sema_up_wake s k;
     Some (if in_external_intr k then k else push (cur k) [K_yield_check] k) }"

definition yield_check :: "sys \<Rightarrow> sys option" where
  "yield_check k = do { c \<leftarrow> thread_current k; yield_to_higher k }"

section \<open>Locks\<close>

definition lock_init :: "nat \<Rightarrow> sys \<Rightarrow> sys" where
  "lock_init l k = sema_init (Lock_sema l) 1 (k\<lparr>holder := (holder k)(l := None)\<rparr>)"

definition lock_held_by_current_thread :: "nat \<Rightarrow> sys \<Rightarrow> bool option" where
  "lock_held_by_current_thread l k = do { c \<leftarrow> thread_current k; Some (holder k l = Some c) }"

text \<open>
  The loop of \<open>donate_priority\<close>, whose counter allows 8 turns. Reading a holder that has been
  destroyed, or unlinking one that is not on the ready list, stops the kernel.
\<close>

definition requeue_ready :: "tptr \<Rightarrow> sys \<Rightarrow> sys option" where
  "requeue_ready h k =
     (if status (thr k h) = THREAD_READY
      then do {
        ASSERT (h \<in> set (ready_list k));
        Some (k\<lparr>ready_list := insert_ordered (thread_priority_greater k) h
                               (remove1 h (ready_list k))\<rparr>) }
      else Some k)"

fun donate_loop :: "nat \<Rightarrow> tptr \<Rightarrow> sys \<Rightarrow> sys option" where
  "donate_loop 0 t k = Some k"
| "donate_loop (Suc n) t k =
     (case waiting_lock (thr k t) of
        None \<Rightarrow> Some k
      | Some l \<Rightarrow>
          (case holder k l of
             None \<Rightarrow> Some k
           | Some h \<Rightarrow> do {
               ASSERT (is_thread k h);
               if priority (thr k h) \<ge> priority (thr k t) then Some k
               else do {
                 k \<leftarrow> requeue_ready h (upd k h (priority_update (\<lambda>_. priority (thr k t))));
                 donate_loop n h k } }))"

definition donate_priority :: "tptr \<Rightarrow> sys \<Rightarrow> sys option" where
  "donate_priority t k = donate_loop 8 t k"

definition remove_donations_for_lock :: "tptr \<Rightarrow> nat \<Rightarrow> sys \<Rightarrow> sys option" where
  "remove_donations_for_lock t l k = do {
     ASSERT (list_all (is_thread k) (donations (thr k t)));
     Some (upd k t (donations_update (filter (\<lambda>d. waiting_lock (thr k d) \<noteq> Some l)))) }"

definition update_priority_after_release :: "tptr \<Rightarrow> sys \<Rightarrow> sys" where
  "update_priority_after_release t k =
     upd k t (priority_update (\<lambda>_.
       foldl (\<lambda>m d. if priority (thr k d) > m then priority (thr k d) else m)
         (base_priority (thr k t)) (donations (thr k t))))"

text \<open>
  \<open>lock_acquire\<close> in four sections: the test for a holder, the donation with its second read of
  the holder, the \<open>sema_down\<close>, and taking ownership.
\<close>

definition lock_acquire :: "nat \<Rightarrow> sys \<Rightarrow> sys option" where
  "lock_acquire l k = do {
     c \<leftarrow> thread_current k;
     ASSERT (\<not> in_external_intr k);
     held \<leftarrow> lock_held_by_current_thread l k;
     ASSERT (\<not> held);
     Some (push c (if \<not> thread_mlfqs k \<and> holder k l \<noteq> None
                   then [K_lock_donate l, K_lock_down l] else [K_lock_down l]) k) }"

definition lock_donate :: "nat \<Rightarrow> sys \<Rightarrow> sys option" where
  "lock_donate l k = do {
     c \<leftarrow> thread_current k;
     h \<leftarrow> holder k l;
     ASSERT (is_thread k h);
     let k = upd k c (waiting_lock_update (\<lambda>_. Some l));
     Some (push c [K_donate_priority] (upd k h (donations_update (\<lambda>ds. ds @ [c])))) }"

definition lock_own :: "nat \<Rightarrow> sys \<Rightarrow> sys option" where
  "lock_own l k = do {
     c \<leftarrow> thread_current k;
     Some ((upd k c (waiting_lock_update (\<lambda>_. None)))\<lparr>holder := (holder k)(l := Some c)\<rparr>) }"

definition lock_try_acquire :: "nat \<Rightarrow> sys \<Rightarrow> (bool \<times> sys) option" where
  "lock_try_acquire l k = do {
     held \<leftarrow> lock_held_by_current_thread l k;
     ASSERT (\<not> held);
     let (success, k) = sema_try_down (Lock_sema l) k;
     Some (success, if success then k\<lparr>holder := (holder k)(l := Some (cur k))\<rparr> else k) }"

definition lock_release :: "nat \<Rightarrow> sys \<Rightarrow> sys option" where
  "lock_release l k = do {
     held \<leftarrow> lock_held_by_current_thread l k;
     ASSERT held;
     let k = k\<lparr>holder := (holder k)(l := None)\<rparr>;
     k \<leftarrow> (if \<not> thread_mlfqs k
          then do { k \<leftarrow> remove_donations_for_lock (cur k) l k;
                    Some (update_priority_after_release (cur k) k) }
          else Some k);
     Some (push (cur k) [K_sema_up (Lock_sema l)] k) }"

section \<open>Condition variables\<close>

definition cond_init :: "nat \<Rightarrow> sys \<Rightarrow> sys" where
  "cond_init c k = k\<lparr>conds := (conds k)(c := [])\<rparr>"

definition cond_wait :: "nat \<Rightarrow> nat \<Rightarrow> sys \<Rightarrow> sys option" where
  "cond_wait cv l k = do {
     ASSERT (\<not> in_external_intr k);
     held \<leftarrow> lock_held_by_current_thread l k;
     ASSERT held;
     let k = sema_init (Waiter_sema (cur k)) 0 k;
     let k = k\<lparr>conds := (conds k)(cv := conds k cv @ [cur k])\<rparr>;
     Some (push (cur k) [K_lock_release l, K_sema_down (Waiter_sema (cur k)), K_lock_acquire l] k) }"

text \<open>
  The priority that \<open>cond_priority_greater\<close> reads for a waiter: that of the thread queued on the
  waiter's semaphore. A waiter that was preempted before its \<open>sema_down\<close> has no thread there;
  the code then reads whatever the frame holds, the argument \<open>garbage\<close>.
\<close>

definition cond_waiter_priority :: "(tptr \<Rightarrow> int) \<Rightarrow> sys \<Rightarrow> tptr \<Rightarrow> int" where
  "cond_waiter_priority garbage k w =
     (case waiters (semas k (Waiter_sema w)) of [] \<Rightarrow> garbage w | t # _ \<Rightarrow> priority (thr k t))"

definition cond_priority_greater :: "(tptr \<Rightarrow> int) \<Rightarrow> sys \<Rightarrow> tptr \<Rightarrow> tptr \<Rightarrow> bool" where
  "cond_priority_greater garbage k a b \<longleftrightarrow>
     cond_waiter_priority garbage k a > cond_waiter_priority garbage k b"

definition cond_signal :: "(tptr \<Rightarrow> int) \<Rightarrow> nat \<Rightarrow> nat \<Rightarrow> sys \<Rightarrow> sys option" where
  "cond_signal garbage cv l k = do {
     ASSERT (\<not> in_external_intr k);
     held \<leftarrow> lock_held_by_current_thread l k;
     ASSERT held;
     if conds k cv \<noteq> []
     then let ws = sort_key (\<lambda>w. - cond_waiter_priority garbage k w) (conds k cv)
          in Some (push (cur k) [K_sema_up (Waiter_sema (hd ws))]
                    (k\<lparr>conds := (conds k)(cv := tl ws)\<rparr>))
     else Some k }"

definition cond_broadcast :: "(tptr \<Rightarrow> int) \<Rightarrow> nat \<Rightarrow> nat \<Rightarrow> sys \<Rightarrow> sys option" where
  "cond_broadcast garbage cv l k =
     (if conds k cv = [] then Some k
      else do { c \<leftarrow> thread_current k; cond_signal garbage cv l (push c [K_cond_broadcast cv l] k) })"

interpretation by_cond_priority: elem_less "cond_priority_greater g k" "\<lambda>w. - cond_waiter_priority g k w"
  for g k
  by unfold_locales (simp add: cond_priority_greater_def)

section \<open>Threads that call\<close>

definition TID_LOCK :: nat where
  "TID_LOCK = 0"

definition IDLE_STARTED :: sema_ref where
  "IDLE_STARTED = Sema 0"

text \<open>
  \<open>thread_create\<close>: the page is the answer of \<open>palloc_get_page\<close>, and the last argument is the
  stack of the new thread, which stands for its function.
\<close>

definition thread_create :: "tptr option \<Rightarrow> string \<Rightarrow> int \<Rightarrow> kont list \<Rightarrow> sys \<Rightarrow> sys option" where
  "thread_create page nm prio f k =
     (case page of
        None \<Rightarrow> Some k
      | Some t \<Rightarrow> do {
          k \<leftarrow> init_thread k t nm prio;
          Some (push (cur k) [K_lock_acquire TID_LOCK, K_allocate_tid t, K_lock_release TID_LOCK,
                              K_unblock_new t, K_create_yield prio]
                 (k\<lparr>konts := (konts k)(t := f)\<rparr>)) })"

definition allocate_tid :: "tptr \<Rightarrow> sys \<Rightarrow> sys option" where
  "allocate_tid t k = Some ((upd k t (tid_update (\<lambda>_. next_tid k)))\<lparr>next_tid := s32 (next_tid k + 1)\<rparr>)"

definition create_yield :: "int \<Rightarrow> sys \<Rightarrow> sys option" where
  "create_yield prio k = do {
     p \<leftarrow> thread_get_priority k;
     if p < prio then thread_yield k else Some k }"

definition idle_start :: "sema_ref \<Rightarrow> sys \<Rightarrow> sys option" where
  "idle_start s k = do {
     c \<leftarrow> thread_current k;
     sema_up s (push c [K_idle] (k\<lparr>idle_thread := Some c\<rparr>)) }"

definition idle :: "sys \<Rightarrow> sys option" where
  "idle k = do { c \<leftarrow> thread_current k; thread_block (push c [K_idle] k) }"

definition timer_sleep :: "int \<Rightarrow> sys \<Rightarrow> sys option" where
  "timer_sleep n k = Some (if n \<le> 0 then k else push (cur k) [K_thread_sleep (ticks k + n)] k)"

text \<open>The state \<open>thread_init\<close> leaves for the main thread at \<open>m\<close>, all locks initialised.\<close>

definition no_thread :: thread where
  "no_thread = \<lparr>tid = 0, children = [], parent_tid = 0, status = THREAD_DYING, thread_name = [],
     priority = 0, exit_status = 0, fd_table = [], next_fd = 0, exec_file = None, pagedir = None,
     wake_tick = 0, base_priority = 0, donations = [], waiting_lock = None, nice = 0,
     recent_cpu = 0, magic = False\<rparr>"

definition thread_init :: "tptr \<Rightarrow> bool \<Rightarrow> sys option" where
  "thread_init m mlfqs = do {
     k \<leftarrow> init_thread
       \<lparr>thr = (\<lambda>_. no_thread), ready_list = [], all_list = [], sleep_list = [], cur = m,
        idle_thread = None, initial_thread = m, load_avg = FP_FROM_INT 0, idle_ticks = 0,
        kernel_ticks = 0, user_ticks = 0, thread_ticks = 0, thread_mlfqs = mlfqs, ticks = 0,
        next_tid = 1, in_external_intr = False, yield_on_return = False,
        semas = (\<lambda>s. case s of Lock_sema l \<Rightarrow> \<lparr>sema_value = 1, waiters = []\<rparr>
                             | _ \<Rightarrow> \<lparr>sema_value = 0, waiters = []\<rparr>),
        holder = (\<lambda>_. None), conds = (\<lambda>_. []), konts = (\<lambda>_. [])\<rparr> m ''main'' PRI_DEFAULT;
     let k = upd k m (status_update (\<lambda>_. THREAD_RUNNING));
     allocate_tid m k }"

definition thread_start :: "tptr option \<Rightarrow> sys \<Rightarrow> sys option" where
  "thread_start page k = do {
     let c = cur k;
     k \<leftarrow> thread_create page ''idle'' PRI_MIN [K_idle_start IDLE_STARTED]
            (push c [K_sema_down IDLE_STARTED] (sema_init IDLE_STARTED 0 k));
     Some k }"

section \<open>Steps\<close>

datatype call =
    C_sema_down nat | C_sema_try_down nat | C_sema_up nat
  | C_lock_acquire nat | C_lock_try_acquire nat | C_lock_release nat
  | C_cond_wait nat nat | C_cond_signal nat nat | C_cond_broadcast nat nat
  | C_thread_create "tptr option" string int | C_thread_set_priority int | C_thread_set_nice int
  | C_thread_yield | C_timer_sleep int | C_thread_exit

fun run_kont :: "(tptr \<Rightarrow> int) \<Rightarrow> kont \<Rightarrow> sys \<Rightarrow> sys option" where
  "run_kont g (K_sema_down s) k = do {
     (ok, k') \<leftarrow> sema_down s k;
     Some (if ok then k' else push (cur k) [K_sema_down s] k') }"
| "run_kont g (K_sema_up s) k = sema_up s k"
| "run_kont g K_yield_check k = yield_check k"
| "run_kont g (K_lock_acquire l) k = lock_acquire l k"
| "run_kont g (K_lock_donate l) k = lock_donate l k"
| "run_kont g K_donate_priority k = donate_priority (cur k) k"
| "run_kont g (K_lock_down l) k = do {
     (ok, k') \<leftarrow> sema_down (Lock_sema l) k;
     Some (push (cur k) [if ok then K_lock_own l else K_lock_down l] k') }"
| "run_kont g (K_lock_own l) k = lock_own l k"
| "run_kont g (K_lock_release l) k = lock_release l k"
| "run_kont g (K_cond_broadcast cv l) k = cond_broadcast g cv l k"
| "run_kont g (K_thread_sleep w) k = thread_sleep k w"
| "run_kont g (K_allocate_tid t) k = allocate_tid t k"
| "run_kont g (K_unblock_new t) k = thread_unblock k t"
| "run_kont g (K_create_yield p) k = create_yield p k"
| "run_kont g (K_idle_start s) k = idle_start s k"
| "run_kont g K_idle k = idle k"

fun run_call :: "(tptr \<Rightarrow> int) \<Rightarrow> call \<Rightarrow> sys \<Rightarrow> sys option" where
  "run_call g (C_sema_down n) k = Some (push (cur k) [K_sema_down (Sema n)] k)"
| "run_call g (C_sema_try_down n) k = Some (snd (sema_try_down (Sema n) k))"
| "run_call g (C_sema_up n) k = sema_up (Sema n) k"
| "run_call g (C_lock_acquire l) k = lock_acquire l k"
| "run_call g (C_lock_try_acquire l) k = map_option snd (lock_try_acquire l k)"
| "run_call g (C_lock_release l) k = lock_release l k"
| "run_call g (C_cond_wait cv l) k = cond_wait cv l k"
| "run_call g (C_cond_signal cv l) k = cond_signal g cv l k"
| "run_call g (C_cond_broadcast cv l) k = cond_broadcast g cv l k"
| "run_call g (C_thread_create page nm p) k = thread_create page nm p [] k"
| "run_call g (C_thread_set_priority p) k = thread_set_priority k p"
| "run_call g (C_thread_set_nice n) k = thread_set_nice k n"
| "run_call g C_thread_yield k = thread_yield k"
| "run_call g (C_timer_sleep n) k = timer_sleep n k"
| "run_call g C_thread_exit k = thread_exit k"

datatype event = Run "tptr \<Rightarrow> int" | Call "tptr \<Rightarrow> int" call | Tick | Irq nat

text \<open>
  \<open>enabled\<close>: the running thread has a section to run, or is in its own code and calls; a new
  page is not one that is in use. \<open>exec\<close> gives the next state, \<open>None\<close> when the kernel stops.
\<close>

fun enabled :: "event \<Rightarrow> sys \<Rightarrow> bool" where
  "enabled (Run g) k \<longleftrightarrow> konts k (cur k) \<noteq> []"
| "enabled (Call g c) k \<longleftrightarrow> konts k (cur k) = [] \<and>
     (case c of C_thread_create (Some t) _ _ \<Rightarrow> \<not> is_thread k t | _ \<Rightarrow> True)"
| "enabled Tick k \<longleftrightarrow> True"
| "enabled (Irq n) k \<longleftrightarrow> True"

fun exec :: "event \<Rightarrow> sys \<Rightarrow> sys option" where
  "exec (Run g) k = run_kont g (hd (konts k (cur k))) (k\<lparr>konts := (konts k)(cur k := tl (konts k (cur k)))\<rparr>)"
| "exec (Call g c) k = run_call g c k"
| "exec Tick k = external_interrupt timer_interrupt k"
| "exec (Irq n) k = external_interrupt (sema_up (Sema n)) k"

fun run :: "event list \<Rightarrow> sys \<Rightarrow> sys option" where
  "run [] k = Some k"
| "run (e # es) k = (if enabled e k then do { k \<leftarrow> exec e k; run es k } else None)"

end
