(* ===== verification/Interleaving.thy ===== *)
theory Interleaving
  imports Synch
begin

text \<open>
  The invariants of all interleavings: every reachable state of the thread system keeps the
  scheduler's invariant, every blocked thread is on exactly one list, every lock has exactly one
  token, and no wake-up is lost.
\<close>

section \<open>Fields that the scheduler does not read\<close>

lemma more_sys:
  fixes k k' :: sys
  assumes "kernel.more k' = kernel.more k"
  shows "semas k' = semas k" "holder k' = holder k" "conds k' = conds k" "konts k' = konts k"
  using assms by (cases k; cases k'; simp)+

lemma upd_sys [simp]:
  "semas (upd k t f) = semas k" "holder (upd k t f) = holder k" "conds (upd k t f) = conds k"
  "konts (upd k t f) = konts k"
  by (simp_all add: upd_def)

lemma sys_indep [simp]:
  "is_thread (semas_update f k) = is_thread k" "is_thread (holder_update g k) = is_thread k"
  "is_thread (conds_update h k) = is_thread k" "is_thread (konts_update j k) = is_thread k"
  "neg_prio (semas_update f k) = neg_prio k" "neg_prio (holder_update g k) = neg_prio k"
  "neg_prio (conds_update h k) = neg_prio k" "neg_prio (konts_update j k) = neg_prio k"
  "wake_key (semas_update f k) = wake_key k" "wake_key (holder_update g k) = wake_key k"
  "wake_key (conds_update h k) = wake_key k" "wake_key (konts_update j k) = wake_key k"
  "parked (semas_update f k) = parked k" "parked (holder_update g k) = parked k"
  "parked (conds_update h k) = parked k" "parked (konts_update j k) = parked k"
  by (auto simp: fun_eq_iff is_thread_def neg_prio_def wake_key_def parked_def)

lemma sys_indep_inv [simp]:
  "sched_inv (semas_update f k) = sched_inv k" "sched_inv (holder_update g k) = sched_inv k"
  "sched_inv (conds_update h k) = sched_inv k" "sched_inv (konts_update j k) = sched_inv k"
  by (simp_all add: sched_inv_def lists_ok_def)

lemma push_simps [simp]:
  "thr (push t ks k) = thr k" "ready_list (push t ks k) = ready_list k" "all_list (push t ks k) = all_list k"
  "sleep_list (push t ks k) = sleep_list k" "cur (push t ks k) = cur k" "ticks (push t ks k) = ticks k"
  "idle_thread (push t ks k) = idle_thread k" "initial_thread (push t ks k) = initial_thread k"
  "thread_mlfqs (push t ks k) = thread_mlfqs k" "in_external_intr (push t ks k) = in_external_intr k"
  "semas (push t ks k) = semas k" "holder (push t ks k) = holder k" "conds (push t ks k) = conds k"
  "konts (push t ks k) = (konts k)(t := ks @ konts k t)" "sched_inv (push t ks k) = sched_inv k"
  "parked (push t ks k) = parked k" "is_thread (push t ks k) = is_thread k"
  by (simp_all add: push_def)

lemma set_sema_simps [simp]:
  "thr (set_sema s v k) = thr k" "ready_list (set_sema s v k) = ready_list k"
  "all_list (set_sema s v k) = all_list k" "sleep_list (set_sema s v k) = sleep_list k"
  "cur (set_sema s v k) = cur k" "ticks (set_sema s v k) = ticks k"
  "idle_thread (set_sema s v k) = idle_thread k" "initial_thread (set_sema s v k) = initial_thread k"
  "thread_mlfqs (set_sema s v k) = thread_mlfqs k" "in_external_intr (set_sema s v k) = in_external_intr k"
  "semas (set_sema s v k) = (semas k)(s := v)" "holder (set_sema s v k) = holder k"
  "conds (set_sema s v k) = conds k" "konts (set_sema s v k) = konts k"
  "sched_inv (set_sema s v k) = sched_inv k" "parked (set_sema s v k) = parked k"
  "is_thread (set_sema s v k) = is_thread k"
  by (simp_all add: set_sema_def)

section \<open>The invariant\<close>

text \<open>The semaphore a thread tests when it runs next, and the threads it is about to start.\<close>

fun waits_on :: "kont list \<Rightarrow> sema_ref option" where
  "waits_on (K_sema_down s # _) = Some s"
| "waits_on (K_lock_down l # _) = Some (Lock_sema l)"
| "waits_on _ = None"

fun embryos :: "kont list \<Rightarrow> tptr list" where
  "embryos [] = []"
| "embryos (K_unblock_new t # ks) = t # embryos ks"
| "embryos (_ # ks) = embryos ks"

lemma embryos_append [simp]: "embryos (ks @ qs) = embryos ks @ embryos qs"
  by (induction ks rule: embryos.induct) simp_all

definition waiters_ok :: "sys \<Rightarrow> bool" where
  "waiters_ok k \<longleftrightarrow> (\<forall>s. distinct (waiters (semas k s)) \<and>
     (\<forall>t\<in>set (waiters (semas k s)). parked k t \<and> waits_on (konts k t) = Some s))"

definition embryos_ok :: "sys \<Rightarrow> bool" where
  "embryos_ok k \<longleftrightarrow> (\<forall>c. distinct (embryos (konts k c)) \<and>
     (\<forall>t\<in>set (embryos (konts k c)). parked k t \<and> waits_on (konts k t) = None \<and>
        (\<forall>c'. t \<in> set (embryos (konts k c')) \<longrightarrow> c' = c)))"

text \<open>Every parked thread is accounted for: it waits for a semaphore or is being created.\<close>

definition parked_ok :: "sys \<Rightarrow> bool" where
  "parked_ok k \<longleftrightarrow> (\<forall>t. parked k t \<longrightarrow>
     (\<exists>s. t \<in> set (waiters (semas k s))) \<or> (\<exists>c. t \<in> set (embryos (konts k c))))"

text \<open>Stacks: only live threads have one, and the idle thread at \<open>i\<close> does nothing but idle.\<close>

definition own_sema :: "tptr \<Rightarrow> kont \<Rightarrow> bool" where
  "own_sema t q \<longleftrightarrow> (\<forall>u. q = K_sema_down (Waiter_sema u) \<longrightarrow> u = t) \<and>
     (\<forall>l. q \<noteq> K_sema_down (Lock_sema l)) \<and> q \<noteq> K_idle \<and> (\<forall>s. q \<noteq> K_idle_start s)"

definition konts_ok :: "tptr \<Rightarrow> sys \<Rightarrow> bool" where
  "konts_ok i k \<longleftrightarrow> (\<forall>t. konts k t \<noteq> [] \<longrightarrow> t \<in> set (all_list k)) \<and>
     (\<forall>t. t \<noteq> i \<longrightarrow> list_all (own_sema t) (konts k t)) \<and> i \<notin> set (sleep_list k) \<and>
     (idle_thread k = None \<and> konts k i = [K_idle_start IDLE_STARTED] \<or>
      idle_thread k = Some i \<and> konts k i \<in> {[K_idle], [K_yield_check, K_idle]})"

definition sync_inv :: "tptr \<Rightarrow> sys \<Rightarrow> bool" where
  "sync_inv i k \<longleftrightarrow> sched_inv k \<and> \<not> in_external_intr k \<and> waiters_ok k \<and> embryos_ok k \<and>
     parked_ok k \<and> konts_ok i k"

lemma sync_invD:
  assumes "sync_inv i k"
  shows "sched_inv k" "\<not> in_external_intr k" "waiters_ok k" "embryos_ok k" "parked_ok k" "konts_ok i k"
    "\<not> parked k (cur k)" "\<And>s. cur k \<notin> set (waiters (semas k s))" "\<And>c. cur k \<notin> set (embryos (konts k c))"
    "thread_current k = Some (cur k)"
proof -
  show "sched_inv k" "\<not> in_external_intr k" "waiters_ok k" "embryos_ok k" "parked_ok k" "konts_ok i k"
    using assms by (simp_all add: sync_inv_def)
  then show p: "\<not> parked k (cur k)" "thread_current k = Some (cur k)"
    using sched_invD(3,4) [of k] by (auto simp: parked_def)
  show "cur k \<notin> set (waiters (semas k s))" for s
    using p(1) \<open>waiters_ok k\<close> by (auto simp: waiters_ok_def)
  show "cur k \<notin> set (embryos (konts k c))" for c
    using p(1) \<open>embryos_ok k\<close> by (auto simp: embryos_ok_def)
qed

text \<open>The scheduler's own operations.\<close>

lemma keeps_sync_inv:
  assumes "sync_inv i k" "keeps k k'" "sched_inv k'" "\<not> in_external_intr k'" "i \<notin> set (sleep_list k')"
  shows "sync_inv i k'"
proof -
  note p = assms(2) [unfolded keeps_def preserves_def]
  note m = more_sys [of k' k]
  have eq: "semas k' = semas k" "konts k' = konts k" using p m by simp_all
  have parked: "\<And>t. parked k' t = parked k t" and all: "all_list k' = all_list k" "idle_thread k' = idle_thread k"
    using p by simp_all
  show ?thesis
    using assms(1,3-5) unfolding sync_inv_def waiters_ok_def embryos_ok_def parked_ok_def konts_ok_def eq parked all
    by blast
qed

section \<open>Steps that touch stacks and semaphores only\<close>

lemma konts_cur_inv:
  assumes "sync_inv i k" "cur k \<noteq> i" "list_all (own_sema (cur k)) ks"
    "distinct (embryos ks)" "set (embryos ks) = set (embryos (konts k (cur k)))"
  shows "sync_inv i (k\<lparr>konts := (konts k)(cur k := ks)\<rparr>)"
proof -
  note D = sync_invD [OF assms(1)]
  let ?k = "k\<lparr>konts := (konts k)(cur k := ks)\<rparr>"
  have emb: "set (embryos (konts ?k c)) = set (embryos (konts k c))" for c
    using assms(5) by simp
  have "waiters_ok ?k"
    using D(3,8) by (auto simp: waiters_ok_def)
  moreover have "embryos_ok ?k"
    unfolding embryos_ok_def emb
  proof (intro allI conjI ballI)
    fix c
    show "distinct (embryos (konts ?k c))" using assms(4) D(4) by (simp add: embryos_ok_def)
    fix t assume t: "t \<in> set (embryos (konts k c))"
    then show "parked ?k t" "\<And>c'. t \<in> set (embryos (konts k c')) \<longrightarrow> c' = c"
      using D(4) by (auto simp: embryos_ok_def)
    from t have "t \<noteq> cur k" using D(9) by auto
    then show "waits_on (konts ?k t) = None" using t D(4) by (simp add: embryos_ok_def)
  qed
  moreover have "parked_ok ?k"
    using D(5) unfolding parked_ok_def emb by simp
  moreover have "konts_ok i ?k"
    using D(6) assms(2,3) sched_invD(7) [OF D(1)] by (auto simp: konts_ok_def)
  ultimately show ?thesis using D(1,2) by (simp add: sync_inv_def)
qed

lemma push_inv:
  assumes "sync_inv i k" "cur k \<noteq> i" "list_all (own_sema (cur k)) ks" "embryos ks = []"
  shows "sync_inv i (push (cur k) ks k)"
  unfolding push_def
  using assms sync_invD(4,6) [OF assms(1)]
  by (intro konts_cur_inv) (simp_all add: embryos_ok_def konts_ok_def)

lemma pop_inv:
  assumes "sync_inv i k" "cur k \<noteq> i" "konts k (cur k) = q # qs" "embryos [q] = []"
  shows "sync_inv i (k\<lparr>konts := (konts k)(cur k := qs)\<rparr>)"
proof -
  have "embryos (konts k (cur k)) = embryos qs"
    using assms(3,4) embryos_append [of "[q]" qs] by simp
  moreover have "distinct (embryos (konts k (cur k)))" "list_all (own_sema (cur k)) (konts k (cur k))"
    using sync_invD(4,6) [OF assms(1)] assms(2) by (simp_all add: embryos_ok_def konts_ok_def)
  ultimately show ?thesis
    using assms(1-3) by (intro konts_cur_inv) simp_all
qed

lemma set_sema_value_inv:
  assumes "waiters v = waiters (semas k s)"
  shows "sync_inv i (set_sema s v k) = sync_inv i k"
proof -
  have "waiters (semas (set_sema s v k) u) = waiters (semas k u)" for u
    using assms by simp
  then show ?thesis by (simp add: sync_inv_def waiters_ok_def embryos_ok_def parked_ok_def konts_ok_def)
qed

lemma holder_conds_inv [simp]:
  "sync_inv i (holder_update f k) = sync_inv i k" "sync_inv i (conds_update g k) = sync_inv i k"
  by (simp_all add: sync_inv_def waiters_ok_def embryos_ok_def parked_ok_def konts_ok_def)

lemma upd_inv:
  assumes "sync_inv i k" "\<And>r. status (f r) = status r" "\<And>r. magic (f r) = magic r"
    "\<And>r. wake_tick (f r) = wake_tick r" "(\<forall>r. priority (f r) = priority r) \<or> t = cur k"
  shows "sync_inv i (upd k t f)"
proof -
  note D = sync_invD [OF assms(1)]
  have ready: "map (neg_prio (upd k t f)) (ready_list k) = map (neg_prio k) (ready_list k)"
    using assms(5) sched_invD(5) [OF D(1)] by (auto simp: neg_prio_def)
  have "sorted (map (neg_prio (upd k t f)) (ready_list (upd k t f)))"
    unfolding upd_simps ready by (rule lists_okD(3) [OF sched_invD(1) [OF D(1)]])
  then have "sched_inv (upd k t f)"
    by (intro sched_inv_cong [OF D(1)]) (use assms(2-4) in \<open>simp_all\<close>)
  moreover have "parked (upd k t f) = parked k"
    using assms(2,3) by (auto simp: fun_eq_iff parked_def is_thread_def)
  ultimately show ?thesis
    using D by (simp add: sync_inv_def waiters_ok_def embryos_ok_def parked_ok_def konts_ok_def)
qed

section \<open>Semaphores\<close>

lemma thread_block_can_switch:
  "thread_block k = Some k' \<Longrightarrow> ready_list k \<noteq> [] \<or> idle_thread k \<noteq> None"
  by (auto simp: thread_block_def schedule_def next_thread_to_run_def bind_eq_Some_conv Let_def
      split: list.splits)

text \<open>What one turn of \<open>sema_down\<close> does when it blocks: the caller is parked and queued.\<close>

lemma sema_down_blocks:
  assumes "sync_inv i k" "cur k \<noteq> i" "sema_down s k = Some (False, k')"
  shows "sched_inv k'" "\<not> in_external_intr k'" "sleep_list k' = sleep_list k" "all_list k' = all_list k"
    "idle_thread k' = idle_thread k" "holder k' = holder k" "conds k' = conds k" "konts k' = konts k"
    "semas k' = (semas k)(s := (semas k s)\<lparr>waiters :=
        insert_ordered (thread_priority_greater k) (cur k) (waiters (semas k s))\<rparr>)"
    "\<And>t. parked k' t = (parked k t \<or> t = cur k)" "sema_value (semas k s) = 0"
    "\<And>t. donations (thr k' t) = donations (thr k t)" "\<And>t. waiting_lock (thr k' t) = waiting_lock (thr k t)"
    "\<And>t. is_thread k' t = is_thread k t" "thread_mlfqs k' = thread_mlfqs k"
proof -
  note D = sync_invD [OF assms(1)]
  define k1 where "k1 = set_sema s ((semas k s)\<lparr>waiters :=
        insert_ordered (thread_priority_greater k) (cur k) (waiters (semas k s))\<rparr>) k"
  have run: "thread_block k1 = Some k'" and zero: "sema_value (semas k s) = 0"
    using assms(3) D(2,10)
    by (auto simp: sema_down_def k1_def bind_eq_Some_conv Let_def split: if_splits)
  have inv: "sched_inv k1" "\<not> in_external_intr k1" using D(1,2) by (simp_all add: k1_def)
  obtain k2 where k2: "thread_block k1 = Some k2" "sched_inv k2" "preserves k1 k2"
      "\<not> in_external_intr k2" "sleep_list k2 = sleep_list k1"
      "\<And>t. parked k2 t = (parked k1 t \<or> t = cur k1 \<and> Some t \<noteq> idle_thread k1)"
    by (rule thread_block_inv [OF inv thread_block_can_switch [OF run]]) blast
  have k': "k2 = k'" using run k2(1) by simp
  note p = k2(3) [unfolded preserves_def k']
  have "Some (cur k) \<noteq> idle_thread k" using D(6) assms(2) by (auto simp: konts_ok_def)
  then show "\<And>t. parked k' t = (parked k t \<or> t = cur k)"
    using k2(6) by (simp add: k' k1_def) blast
  show "sched_inv k'" "\<not> in_external_intr k'" "sleep_list k' = sleep_list k"
    using k2(2,4,5) by (simp_all add: k' k1_def)
  show "all_list k' = all_list k" "idle_thread k' = idle_thread k"
    "\<And>t. donations (thr k' t) = donations (thr k t)" "\<And>t. waiting_lock (thr k' t) = waiting_lock (thr k t)"
    "\<And>t. is_thread k' t = is_thread k t" "thread_mlfqs k' = thread_mlfqs k"
    using p by (simp_all add: k1_def)
  show "holder k' = holder k" "conds k' = conds k" "konts k' = konts k"
    "semas k' = (semas k)(s := (semas k s)\<lparr>waiters :=
        insert_ordered (thread_priority_greater k) (cur k) (waiters (semas k s))\<rparr>)"
    using p more_sys [of k' k1] by (simp_all add: k1_def)
  show "sema_value (semas k s) = 0" by (rule zero)
qed

lemma sema_down_block_inv:
  assumes "sync_inv i k" "cur k \<noteq> i" "sema_down s k = Some (False, k')"
    "waits_on [q] = Some s" "own_sema (cur k) q"
  shows "sync_inv i (push (cur k) [q] k')"
proof -
  note D = sync_invD [OF assms(1)] and B = sema_down_blocks [OF assms(1-3)]
  let ?k = "push (cur k) [q] k'" and ?c = "cur k"
  have top: "waits_on (q # qs) = Some s" "embryos (q # qs) = embryos qs" for qs
    using assms(4) by (cases q; simp)+
  have emb: "embryos (konts ?k u) = embryos (konts k u)" for u by (simp add: top B(8))
  have parked: "parked ?k t = (parked k t \<or> t = ?c)" for t by (simp add: B(10))
  have "waiters_ok ?k"
    unfolding waiters_ok_def parked
  proof (intro allI conjI ballI)
    fix u
    show "distinct (waiters (semas ?k u))"
      using D(3,8) by (simp add: B(9) waiters_ok_def)
    fix t assume t: "t \<in> set (waiters (semas ?k u))"
    show "parked k t \<or> t = ?c" "waits_on (konts ?k t) = Some u"
      using t D(3,8) top by (auto simp: B(8,9) waiters_ok_def split: if_splits)
  qed
  moreover have "embryos_ok ?k"
    unfolding embryos_ok_def emb parked
    using D(4,9) by (auto simp: embryos_ok_def B(8))
  moreover have "parked_ok ?k"
    unfolding parked_ok_def parked emb
  proof (intro allI impI)
    fix t assume "parked k t \<or> t = ?c"
    then consider "t = ?c" | u where "t \<in> set (waiters (semas k u))" | c where "t \<in> set (embryos (konts k c))"
      using D(5) by (auto simp: parked_ok_def)
    then show "(\<exists>u. t \<in> set (waiters (semas ?k u))) \<or> (\<exists>c. t \<in> set (embryos (konts k c)))"
    proof cases
      case 1
      then have "t \<in> set (waiters (semas ?k s))" by (simp add: B(9))
      then show ?thesis by blast
    next
      case 2
      then have "t \<in> set (waiters (semas ?k u))" by (auto simp: B(9))
      then show ?thesis by blast
    next
      case 3
      then show ?thesis by blast
    qed
  qed
  moreover have "konts_ok i ?k"
    using D(6) assms(2,5) sched_invD(7) [OF D(1)] by (auto simp: konts_ok_def B(3,4,5,8))
  ultimately show ?thesis using B(1,2) by (simp add: sync_inv_def)
qed

lemma sema_down_pass_inv:
  assumes "sync_inv i k" "sema_down s k = Some (True, k')"
  shows "sync_inv i k'" "0 < sema_value (semas k s)"
    "k' = set_sema s ((semas k s)\<lparr>sema_value := sema_value (semas k s) - 1\<rparr>) k"
proof -
  show k': "k' = set_sema s ((semas k s)\<lparr>sema_value := sema_value (semas k s) - 1\<rparr>) k"
    and "0 < sema_value (semas k s)"
    using assms(2) by (auto simp: sema_down_def bind_eq_Some_conv Let_def split: if_splits)
  show "sync_inv i k'" unfolding k' using assms(1) by (subst set_sema_value_inv) simp_all
qed

text \<open>What \<open>sema_up\<close> does with interrupts off: the first waiter of the highest priority is made ready.\<close>

lemma ext_indep [simp]:
  "sched_inv (k\<lparr>in_external_intr := b\<rparr>) = sched_inv k" "waiters_ok (k'\<lparr>in_external_intr := b\<rparr>) = waiters_ok k'"
  "sched_inv (k\<lparr>yield_on_return := b\<rparr>) = sched_inv k" "waiters_ok (k'\<lparr>yield_on_return := b\<rparr>) = waiters_ok k'"
  "embryos_ok (k'\<lparr>in_external_intr := b\<rparr>) = embryos_ok k'" "parked_ok (k'\<lparr>in_external_intr := b\<rparr>) = parked_ok k'"
  "embryos_ok (k'\<lparr>yield_on_return := b\<rparr>) = embryos_ok k'" "parked_ok (k'\<lparr>yield_on_return := b\<rparr>) = parked_ok k'"
  "konts_ok i (k'\<lparr>in_external_intr := b\<rparr>) = konts_ok i k'" "konts_ok i (k'\<lparr>yield_on_return := b\<rparr>) = konts_ok i k'"
proof -
  have keys: "neg_prio (k\<lparr>in_external_intr := b\<rparr>) = neg_prio k" "wake_key (k\<lparr>in_external_intr := b\<rparr>) = wake_key k"
    "neg_prio (k\<lparr>yield_on_return := b\<rparr>) = neg_prio k" "wake_key (k\<lparr>yield_on_return := b\<rparr>) = wake_key k"
    by (auto simp: fun_eq_iff neg_prio_def wake_key_def)
  show "sched_inv (k\<lparr>in_external_intr := b\<rparr>) = sched_inv k" "sched_inv (k\<lparr>yield_on_return := b\<rparr>) = sched_inv k"
    by (simp_all add: sched_inv_def lists_ok_def keys)
qed (simp_all add: waiters_ok_def embryos_ok_def parked_ok_def konts_ok_def)

lemma sema_up_wake_effect:
  assumes "sched_inv k" "waiters_ok k" "sema_up_wake s k = Some k'"
  obtains (empty) "waiters (semas k s) = []"
      "k' = set_sema s ((semas k s)\<lparr>sema_value := wrap32 (sema_value (semas k s) + 1)\<rparr>) k"
  | (wake) t ts where "sort_key (neg_prio k) (waiters (semas k s)) = t # ts" "sched_inv k'"
      "semas k' = (semas k)(s := \<lparr>sema_value = wrap32 (sema_value (semas k s) + 1), waiters = ts\<rparr>)"
      "cur k' = cur k" "sleep_list k' = sleep_list k" "all_list k' = all_list k"
      "in_external_intr k' = in_external_intr k" "yield_on_return k' = yield_on_return k"
      "idle_thread k' = idle_thread k" "initial_thread k' = initial_thread k" "thread_mlfqs k' = thread_mlfqs k"
      "holder k' = holder k" "conds k' = conds k" "konts k' = konts k"
      "\<And>u. parked k' u = (parked k u \<and> u \<noteq> t)"
      "thr k' = (thr k)(t := (thr k t)\<lparr>status := THREAD_READY\<rparr>)" "t \<in> set (ready_list k')"
proof (cases "waiters (semas k s) = []")
  case True
  then show ?thesis using assms(3) by (intro empty) (simp_all add: sema_up_wake_def)
next
  case False
  define ws where "ws = sort_key (neg_prio k) (waiters (semas k s))"
  have "ws \<noteq> []" using False by (auto simp: ws_def dest: arg_cong [of _ _ length])
  then obtain t ts where ws: "ws = t # ts" by (cases ws) auto
  have "t \<in> set (waiters (semas k s))"
    using ws set_sort [of "neg_prio k" "waiters (semas k s)"] unfolding ws_def by auto
  then have t: "parked k t" using assms(2) by (simp add: waiters_ok_def)
  let ?k = "set_sema s ((semas k s)\<lparr>waiters := ts\<rparr>) k"
  have inv: "sched_inv ?k" using assms(1) by simp
  have u: "is_thread ?k t" "status (thr ?k t) = THREAD_BLOCKED" "t \<notin> set (sleep_list ?k)"
    "Some t \<noteq> idle_thread ?k" using t by (simp_all add: parked_def)
  obtain k1 where k1: "thread_unblock ?k t = Some k1" "sched_inv k1" "cur k1 = cur ?k"
    "sleep_list k1 = sleep_list ?k" "in_external_intr k1 = in_external_intr ?k"
    "kernel.more k1 = kernel.more ?k" "idle_thread k1 = idle_thread ?k"
    "initial_thread k1 = initial_thread ?k" "thread_mlfqs k1 = thread_mlfqs ?k"
    "thr k1 = (thr ?k)(t := (thr ?k t)\<lparr>status := THREAD_READY\<rparr>)" "yield_on_return k1 = yield_on_return ?k"
    "all_list k1 = all_list ?k" "ready_list k1 = insert_ordered (thread_priority_greater ?k) t (ready_list ?k)"
    by (rule thread_unblock_inv [OF inv u]) blast
  note m = more_sys [OF k1(6)]
  have k': "k' = set_sema s ((semas k1 s)\<lparr>sema_value := wrap32 (sema_value (semas k1 s) + 1)\<rparr>) k1"
    using assms(3) False ws k1(1) by (simp add: sema_up_wake_def Let_def ws_def)
  have "parked k' u = (parked k u \<and> u \<noteq> t)" for u
    unfolding k' by (auto simp: parked_def is_thread_def k1)
  moreover have "semas k' = (semas k)(s := \<lparr>sema_value = wrap32 (sema_value (semas k s) + 1), waiters = ts\<rparr>)"
    unfolding k' by (cases "semas k s") (simp add: m)
  moreover have "sched_inv k'" unfolding k' using k1(2) by simp
  moreover have "cur k' = cur k" "sleep_list k' = sleep_list k" "all_list k' = all_list k"
      "in_external_intr k' = in_external_intr k" "yield_on_return k' = yield_on_return k"
      "idle_thread k' = idle_thread k" "initial_thread k' = initial_thread k" "thread_mlfqs k' = thread_mlfqs k"
      "holder k' = holder k" "conds k' = conds k" "konts k' = konts k"
      "thr k' = (thr k)(t := (thr k t)\<lparr>status := THREAD_READY\<rparr>)" "t \<in> set (ready_list k')"
    unfolding k' by (simp_all add: k1 m) (simp add: k1 set_sema_def)+
  ultimately show ?thesis using wake ws unfolding ws_def by blast
qed

lemma sema_up_wake_inv:
  assumes "sync_inv i (k\<lparr>in_external_intr := False\<rparr>)" "sema_up_wake s k = Some k'"
  shows "sync_inv i (k'\<lparr>in_external_intr := False\<rparr>)" "in_external_intr k' = in_external_intr k"
    "cur k' = cur k" "yield_on_return k' = yield_on_return k" "konts k' = konts k"
proof -
  have D: "sched_inv k" "waiters_ok k" "embryos_ok k" "parked_ok k" "konts_ok i k"
    using assms(1) by (simp_all add: sync_inv_def)
  have "sync_inv i (k'\<lparr>in_external_intr := False\<rparr>) \<and> in_external_intr k' = in_external_intr k \<and>
    cur k' = cur k \<and> yield_on_return k' = yield_on_return k \<and> konts k' = konts k"
  proof (cases rule: sema_up_wake_effect [OF D(1,2) assms(2)])
    case 1
    have "sync_inv i (k'\<lparr>in_external_intr := False\<rparr>)"
    proof -
      have w: "waiters (semas k' u) = waiters (semas k u)" for u by (simp add: 1(2))
      have "waiters_ok k' = waiters_ok k" "embryos_ok k' = embryos_ok k" "parked_ok k' = parked_ok k"
        "konts_ok i k' = konts_ok i k"
        unfolding waiters_ok_def embryos_ok_def parked_ok_def konts_ok_def w by (simp_all add: 1(2))
      then show ?thesis using D by (simp add: sync_inv_def) (simp add: 1(2))
    qed
    then show ?thesis by (simp add: 1(2)) (simp add: set_sema_def)
  next
    case (2 t ts)
    have mset: "mset (t # ts) = mset (waiters (semas k s))"
      using 2(1) mset_sort [of "neg_prio k" "waiters (semas k s)"] by simp
    have set: "insert t (set ts) = set (waiters (semas k s))"
      using mset_eq_setD [OF mset] by simp
    have dist: "t \<notin> set ts" "distinct ts"
      using D(2) mset_eq_imp_distinct_iff [OF mset] by (simp_all add: waiters_ok_def)
    have t: "waits_on (konts k t) = Some s" using D(2) set by (auto simp: waiters_ok_def)
    have w: "set (waiters (semas k' u)) = set (waiters (semas k u)) - {t}" for u
      using set dist(1) t D(2) by (auto simp: 2(3) waiters_ok_def)
    have "waiters_ok k'"
      unfolding waiters_ok_def w 2(14,15) using D(2) dist(2) by (auto simp: waiters_ok_def 2(3))
    moreover have "embryos_ok k'"
      unfolding embryos_ok_def 2(14,15) using D(3) t by (auto simp: embryos_ok_def)
    moreover have "parked_ok k'"
      unfolding parked_ok_def w 2(14,15) using D(4) by (auto simp: parked_ok_def)
    moreover have "konts_ok i k'"
      unfolding konts_ok_def 2(5,6,9,14) using D(5) by (simp add: konts_ok_def)
    ultimately show ?thesis using 2 by (simp add: sync_inv_def)
  qed
  then show "sync_inv i (k'\<lparr>in_external_intr := False\<rparr>)" "in_external_intr k' = in_external_intr k"
    "cur k' = cur k" "yield_on_return k' = yield_on_return k" "konts k' = konts k" by blast+
qed

lemma ext_False: "\<not> in_external_intr k \<Longrightarrow> k\<lparr>in_external_intr := False\<rparr> = k" for k :: sys
  by (cases k) simp

lemma sema_up_inv:
  assumes "sync_inv i k" "cur k \<noteq> i" "sema_up s k = Some k'"
  shows "sync_inv i k'"
proof -
  have ext: "\<not> in_external_intr k" using assms(1) by (simp add: sync_inv_def)
  obtain k1 where k1: "sema_up_wake s k = Some k1" "k' = (if in_external_intr k1 then k1 else push (cur k1) [K_yield_check] k1)"
    using assms(3) by (auto simp: sema_up_def bind_eq_Some_conv)
  have pre: "sync_inv i (k\<lparr>in_external_intr := False\<rparr>)" using assms(1) ext_False [OF ext] by simp
  note W = sema_up_wake_inv [OF pre k1(1)]
  have ext1: "\<not> in_external_intr k1" using W(2) ext by simp
  have "sync_inv i k1" using W(1) ext_False [OF ext1] by simp
  then have "sync_inv i (push (cur k1) [K_yield_check] k1)"
    using W(3) assms(2) by (intro push_inv) (simp_all add: own_sema_def)
  then show ?thesis using k1(2) ext1 by simp
qed

section \<open>Thread operations\<close>

lemma keeps_op_inv:
  assumes "sync_inv i k" "op k = Some k'"
    and "\<And>thesis. (\<And>k'. op k = Some k' \<Longrightarrow> sched_inv k' \<Longrightarrow> keeps k k' \<Longrightarrow> \<not> in_external_intr k' \<Longrightarrow>
        sleep_list k' = sleep_list k \<Longrightarrow> thesis) \<Longrightarrow> thesis"
  shows "sync_inv i k'" "keeps k k'"
proof -
  have K: "sched_inv k' \<and> keeps k k' \<and> \<not> in_external_intr k' \<and> sleep_list k' = sleep_list k"
    by (rule assms(3)) (use assms(2) in simp)
  moreover have "i \<notin> set (sleep_list k)" using sync_invD(6) [OF assms(1)] by (simp add: konts_ok_def)
  ultimately show "sync_inv i k'" using keeps_sync_inv [OF assms(1)] by simp
  show "keeps k k'" using K by simp
qed

lemma yield_inv: "sync_inv i k \<Longrightarrow> thread_yield k = Some k' \<Longrightarrow> sync_inv i k' \<and> keeps k k'"
  using keeps_op_inv [of i k thread_yield k'] thread_yield_inv [of k] sync_invD(1,2) [of i k] by metis

lemma yield_to_higher_sync: "sync_inv i k \<Longrightarrow> yield_to_higher k = Some k' \<Longrightarrow> sync_inv i k' \<and> keeps k k'"
  using keeps_op_inv [of i k yield_to_higher k'] yield_to_higher_inv [of k] sync_invD(1,2) [of i k] by metis

lemma set_priority_sync:
  "sync_inv i k \<Longrightarrow> thread_set_priority k p = Some k' \<Longrightarrow> sync_inv i k' \<and> keeps k k'"
  using keeps_op_inv [of i k "\<lambda>k. thread_set_priority k p" k'] thread_set_priority_inv [of k p]
    sync_invD(1,2) [of i k] by metis

lemma set_nice_sync:
  "sync_inv i k \<Longrightarrow> thread_set_nice k n = Some k' \<Longrightarrow> sync_inv i k' \<and> keeps k k'"
  using keeps_op_inv [of i k "\<lambda>k. thread_set_nice k n" k'] thread_set_nice_inv [of k n]
    sync_invD(1,2) [of i k] by metis

text \<open>
  Donation changes priorities and, for a ready holder, its place in the ready list; \<open>raised\<close> says
  that no priority falls.
\<close>

definition raised :: "sys \<Rightarrow> sys \<Rightarrow> bool" where
  "raised k k' \<longleftrightarrow> sched_inv k' \<and> keeps k k' \<and> cur k' = cur k \<and> sleep_list k' = sleep_list k \<and>
     in_external_intr k' = in_external_intr k \<and> ticks k' = ticks k \<and>
     (\<forall>t. priority (thr k t) \<le> priority (thr k' t) \<and> status (thr k' t) = status (thr k t) \<and>
        base_priority (thr k' t) = base_priority (thr k t))"

lemma raised_trans: "raised k k' \<Longrightarrow> raised k' k'' \<Longrightarrow> raised k k''"
  unfolding raised_def by (auto intro: keeps_trans order_trans)

lemma priority_upd_keeps:
  "keeps k (upd k h (priority_update f))"
  by (simp add: keeps_def preserves_def parked_def is_thread_def)

lemma donate_once:
  assumes "sched_inv k" "priority (thr k h) < p"
    and k1: "k1 = upd k h (priority_update (\<lambda>_. p))"
    and k2: "requeue_ready h k1 = Some k2"
  shows "raised k k2" "thr k2 = thr k1"
proof -
  note D = lists_okD [OF sched_invD(1) [OF assms(1)]]
  have other: "neg_prio k1 u = neg_prio k u" if "u \<noteq> h" for u
    using that by (simp add: k1 neg_prio_def)
  have thr: "status (thr k1 u) = status (thr k u) \<and> magic (thr k1 u) = magic (thr k u) \<and>
      wake_tick (thr k1 u) = wake_tick (thr k u)" for u by (simp add: k1)
  have "mset (ready_list k2) = mset (ready_list k) \<and> sorted (map (neg_prio k2) (ready_list k2)) \<and>
      thr k2 = thr k1 \<and> keeps k1 k2 \<and> cur k2 = cur k \<and> sleep_list k2 = sleep_list k \<and>
      in_external_intr k2 = in_external_intr k \<and> ticks k2 = ticks k"
  proof (cases "status (thr k1 h) = THREAD_READY")
    case True
    let ?r = "remove1 h (ready_list k)"
    have k2': "h \<in> set (ready_list k)"
      "k2 = k1\<lparr>ready_list := insert_ordered (thread_priority_greater k1) h ?r\<rparr>"
      using k2 True by (simp_all add: k1 requeue_ready_def)
    have "map (neg_prio k1) ?r = map (neg_prio k) ?r"
      using D(1) other by (intro map_cong) auto
    then have "sorted (map (neg_prio k1) ?r)"
      using sorted_map_remove1 [OF D(3), of h] by (simp only:)
    then have "sorted (map (neg_prio k2) (ready_list k2))"
      by (simp add: k2'(2) ready_insert_sorted)
    then show ?thesis using k2'(1)
      by (simp add: k2'(2) k1 keeps_def preserves_def parked_def)
  next
    case False
    then have "h \<notin> set (ready_list k)" using D(2) [of h] thr by auto
    then have "map (neg_prio k1) (ready_list k) = map (neg_prio k) (ready_list k)"
      by (intro map_cong refl) (metis other)
    then have "sorted (map (neg_prio k1) (ready_list k))" using D(3) by (simp only:)
    moreover have "k2 = k1" using False k2 by (simp add: requeue_ready_def)
    ultimately show ?thesis by (simp add: k1)
  qed
  then have R: "mset (ready_list k2) = mset (ready_list k)" "sorted (map (neg_prio k2) (ready_list k2))"
    "thr k2 = thr k1" "keeps k1 k2" "cur k2 = cur k" "sleep_list k2 = sleep_list k"
    "in_external_intr k2 = in_external_intr k" "ticks k2 = ticks k" by simp_all
  have keep: "keeps k k2" using priority_upd_keeps R(4) unfolding k1 by (rule keeps_trans)
  have "sched_inv k2"
    by (rule sched_inv_cong [OF assms(1) _ _ R(6,5) _ _ R(1,2)])
       (use keep thr R(3) in \<open>simp_all add: keeps_def preserves_def\<close>)
  moreover have "priority (thr k u) \<le> priority (thr k2 u) \<and> status (thr k2 u) = status (thr k u) \<and>
        base_priority (thr k2 u) = base_priority (thr k u)" for u
    using assms(2) by (simp add: R(3) k1)
  ultimately show "raised k k2" using R(5-8) keep by (simp add: raised_def)
  show "thr k2 = thr k1" by (rule R(3))
qed

lemma donate_loop_raised:
  "sched_inv k \<Longrightarrow> donate_loop n t k = Some k' \<Longrightarrow> raised k k'"
proof (induction n arbitrary: t k)
  case 0
  then show ?case by (simp add: raised_def)
next
  case (Suc n)
  show ?case
  proof (cases "donate_loop (Suc n) t k = Some k")
    case True
    then show ?thesis using Suc.prems by (simp add: raised_def)
  next
    case False
    then obtain l h where w: "waiting_lock (thr k t) = Some l" "holder k l = Some h" "is_thread k h"
      "priority (thr k h) < priority (thr k t)"
      using Suc.prems(2) by (auto split: option.splits if_splits)
    define k1 where "k1 = upd k h (priority_update (\<lambda>_. priority (thr k t)))"
    obtain k2 where k2: "requeue_ready h k1 = Some k2" "donate_loop n h k2 = Some k'"
      using Suc.prems(2) w by (auto simp: k1_def bind_eq_Some_conv)
    have r: "raised k k2" using donate_once(1) [OF Suc.prems(1) w(4) k1_def k2(1)] .
    then have "raised k2 k'" using Suc.IH [OF _ k2(2)] by (simp add: raised_def)
    with r show ?thesis by (rule raised_trans)
  qed
qed

lemma donate_priority_sync:
  assumes "sync_inv i k" "donate_priority t k = Some k'"
  shows "sync_inv i k'" "raised k k'"
proof -
  show r: "raised k k'"
    using donate_loop_raised [OF sync_invD(1) [OF assms(1)]] assms(2) by (simp add: donate_priority_def)
  have "i \<notin> set (sleep_list k)" using sync_invD(6) [OF assms(1)] by (simp add: konts_ok_def)
  then show "sync_inv i k'"
    using r sync_invD(2) [OF assms(1)] keeps_sync_inv [OF assms(1), of k'] by (simp add: raised_def)
qed

section \<open>Locks and condition variables\<close>

lemma held_eq: "sync_inv i k \<Longrightarrow> lock_held_by_current_thread l k = Some (holder k l = Some (cur k))"
  by (simp add: lock_held_by_current_thread_def sync_invD(10))

lemma lock_acquire_sync:
  assumes "sync_inv i k" "cur k \<noteq> i" "lock_acquire l k = Some k'"
  shows "sync_inv i k'" "holder k l \<noteq> Some (cur k)"
    "k' = push (cur k) (if \<not> thread_mlfqs k \<and> holder k l \<noteq> None
       then [K_lock_donate l, K_lock_down l] else [K_lock_down l]) k"
proof -
  show k': "k' = push (cur k) (if \<not> thread_mlfqs k \<and> holder k l \<noteq> None
       then [K_lock_donate l, K_lock_down l] else [K_lock_down l]) k"
    and "holder k l \<noteq> Some (cur k)"
    using assms(3) by (auto simp: lock_acquire_def sync_invD(10) [OF assms(1)] held_eq [OF assms(1)])
  show "sync_inv i k'"
    unfolding k' using assms(1,2) by (intro push_inv) (simp_all add: own_sema_def)
qed

lemma lock_donate_sync:
  assumes "sync_inv i k" "cur k \<noteq> i" "lock_donate l k = Some k'"
  obtains h where "holder k l = Some h" "is_thread k h" "sync_inv i k'"
    "k' = push (cur k) [K_donate_priority] (upd (upd k (cur k) (waiting_lock_update (\<lambda>_. Some l))) h
        (donations_update (\<lambda>ds. ds @ [cur k])))"
proof -
  obtain h where h: "holder k l = Some h" "is_thread k h"
    "k' = push (cur k) [K_donate_priority] (upd (upd k (cur k) (waiting_lock_update (\<lambda>_. Some l))) h
        (donations_update (\<lambda>ds. ds @ [cur k])))"
    using assms(3) by (auto simp: lock_donate_def sync_invD(10) [OF assms(1)] Let_def bind_eq_Some_conv)
  let ?k1 = "upd k (cur k) (waiting_lock_update (\<lambda>_. Some l))"
  have "sync_inv i ?k1" using assms(1) by (rule upd_inv) simp_all
  then have "sync_inv i (upd ?k1 h (donations_update (\<lambda>ds. ds @ [cur k])))" by (rule upd_inv) simp_all
  from push_inv [OF this, of "[K_donate_priority]"] have "sync_inv i k'"
    unfolding h(3) using assms(2) by (simp add: own_sema_def)
  with h show ?thesis using that by blast
qed

lemma lock_own_sync:
  assumes "sync_inv i k" "lock_own l k = Some k'"
  shows "sync_inv i k'"
    "k' = (upd k (cur k) (waiting_lock_update (\<lambda>_. None)))\<lparr>holder := (holder k)(l := Some (cur k))\<rparr>"
proof -
  show k': "k' = (upd k (cur k) (waiting_lock_update (\<lambda>_. None)))\<lparr>holder := (holder k)(l := Some (cur k))\<rparr>"
    using assms(2) by (simp add: lock_own_def sync_invD(10) [OF assms(1)])
  show "sync_inv i k'" unfolding k' holder_conds_inv using assms(1) by (rule upd_inv) simp_all
qed

lemma lock_try_acquire_sync:
  assumes "sync_inv i k" "lock_try_acquire l k = Some (b, k')"
  shows "sync_inv i k'" "b = (0 < sema_value (semas k (Lock_sema l)))"
    "k' = (if b then (set_sema (Lock_sema l) ((semas k (Lock_sema l))\<lparr>sema_value :=
       sema_value (semas k (Lock_sema l)) - 1\<rparr>) k)\<lparr>holder := (holder k)(l := Some (cur k))\<rparr> else k)"
proof -
  show b: "b = (0 < sema_value (semas k (Lock_sema l)))"
    and k': "k' = (if b then (set_sema (Lock_sema l) ((semas k (Lock_sema l))\<lparr>sema_value :=
       sema_value (semas k (Lock_sema l)) - 1\<rparr>) k)\<lparr>holder := (holder k)(l := Some (cur k))\<rparr> else k)"
    using assms(2)
    by (auto simp: lock_try_acquire_def held_eq [OF assms(1)] sema_try_down_def Let_def split: if_splits)
  show "sync_inv i k'"
    unfolding k' using assms(1) by (simp add: set_sema_value_inv)
qed

lemma lock_release_sync:
  assumes "sync_inv i k" "cur k \<noteq> i" "lock_release l k = Some k'"
  shows "sync_inv i k'" "holder k l = Some (cur k)" "holder k' = (holder k)(l := None)"
    "konts k' = (konts k)(cur k := K_sema_up (Lock_sema l) # konts k (cur k))" "semas k' = semas k"
    "all_list k' = all_list k" "conds k' = conds k" "cur k' = cur k"
    "\<And>t. waiting_lock (thr k' t) = waiting_lock (thr k t)"
    "\<And>t. donations (thr k' t) = (if t = cur k \<and> \<not> thread_mlfqs k
        then filter (\<lambda>d. waiting_lock (thr k d) \<noteq> Some l) (donations (thr k t)) else donations (thr k t))"
    "\<And>t. is_thread k' t = is_thread k t" "thread_mlfqs k' = thread_mlfqs k"
proof -
  define k1 where "k1 = k\<lparr>holder := (holder k)(l := None)\<rparr>"
  define k2 where "k2 = upd k1 (cur k) (donations_update (filter (\<lambda>d. waiting_lock (thr k d) \<noteq> Some l)))"
  define k3 where "k3 = (if thread_mlfqs k then k1 else update_priority_after_release (cur k) k2)"
  have held: "holder k l = Some (cur k)" and k': "k' = push (cur k) [K_sema_up (Lock_sema l)] k3"
    using assms(3)
    by (auto simp: lock_release_def held_eq [OF assms(1)] Let_def bind_eq_Some_conv k3_def k2_def k1_def
        remove_donations_for_lock_def update_priority_after_release_def split: if_splits)
  have inv1: "sync_inv i k1" using assms(1) by (simp add: k1_def)
  have "sync_inv i k2" unfolding k2_def using inv1 by (rule upd_inv) simp_all
  then have "sync_inv i (update_priority_after_release (cur k) k2)"
    unfolding update_priority_after_release_def by (rule upd_inv) (simp_all add: k2_def k1_def)
  then have inv3: "sync_inv i k3" using inv1 by (simp add: k3_def)
  have cur3: "cur k3 = cur k"
    by (simp add: k3_def k2_def k1_def update_priority_after_release_def)
  show "sync_inv i k'"
    unfolding k' using inv3 assms(2) push_inv [of i k3 "[K_sema_up (Lock_sema l)]"]
    by (simp add: cur3 own_sema_def)
  show "holder k l = Some (cur k)" by (rule held)
  show "holder k' = (holder k)(l := None)"
    "konts k' = (konts k)(cur k := K_sema_up (Lock_sema l) # konts k (cur k))" "semas k' = semas k"
    "all_list k' = all_list k" "conds k' = conds k" "cur k' = cur k" "thread_mlfqs k' = thread_mlfqs k"
    "\<And>t. waiting_lock (thr k' t) = waiting_lock (thr k t)"
    "\<And>t. donations (thr k' t) = (if t = cur k \<and> \<not> thread_mlfqs k
        then filter (\<lambda>d. waiting_lock (thr k d) \<noteq> Some l) (donations (thr k t)) else donations (thr k t))"
    "\<And>t. is_thread k' t = is_thread k t"
    by (simp_all add: k' k3_def k2_def k1_def update_priority_after_release_def is_thread_def)
qed

lemma sema_init_waiter_sync:
  assumes "sync_inv i k" "cur k \<noteq> i"
  shows "sync_inv i (sema_init (Waiter_sema (cur k)) 0 k)"
proof -
  note D = sync_invD [OF assms(1)]
  have empty: "waiters (semas k (Waiter_sema (cur k))) = []"
  proof (rule ccontr)
    assume "waiters (semas k (Waiter_sema (cur k))) \<noteq> []"
    then obtain t where t: "t \<in> set (waiters (semas k (Waiter_sema (cur k))))" by (meson last_in_set)
    have w: "waits_on (konts k t) = Some (Waiter_sema (cur k))" and ne: "t \<noteq> cur k"
      using D(3,8) t by (auto simp: waiters_ok_def)
    then have top: "K_sema_down (Waiter_sema (cur k)) \<in> set (konts k t)"
      by (cases "konts k t" rule: waits_on.cases) auto
    have "t \<noteq> i" using D(6) w by (auto simp: konts_ok_def)
    then have "own_sema t (K_sema_down (Waiter_sema (cur k)))"
      using D(6) top by (auto simp: konts_ok_def list_all_iff)
    then show False using ne by (simp add: own_sema_def)
  qed
  show ?thesis unfolding sema_init_def by (subst set_sema_value_inv) (simp_all add: empty assms(1))
qed

lemma cond_wait_sync:
  assumes "sync_inv i k" "cur k \<noteq> i" "cond_wait cv l k = Some k'"
  shows "sync_inv i k'" "holder k l = Some (cur k)"
    "konts k' = (konts k)(cur k := [K_lock_release l, K_sema_down (Waiter_sema (cur k)), K_lock_acquire l]
       @ konts k (cur k))"
    "semas k' = (semas k)(Waiter_sema (cur k) := \<lparr>sema_value = 0, waiters = []\<rparr>)" "holder k' = holder k"
    "all_list k' = all_list k" "thr k' = thr k"
proof -
  let ?k1 = "(sema_init (Waiter_sema (cur k)) 0 k)\<lparr>conds := (conds k)(cv := conds k cv @ [cur k])\<rparr>"
  have held: "holder k l = Some (cur k)" and
    k': "k' = push (cur k) [K_lock_release l, K_sema_down (Waiter_sema (cur k)), K_lock_acquire l] ?k1"
    using assms(3) by (auto simp: cond_wait_def held_eq [OF assms(1)] Let_def sema_init_def)
  show "holder k l = Some (cur k)" by (rule held)
  have "sync_inv i ?k1" using sema_init_waiter_sync [OF assms(1,2)] by simp
  from push_inv [OF this, of "[K_lock_release l, K_sema_down (Waiter_sema (cur k)), K_lock_acquire l]"]
  show "sync_inv i k'" unfolding k' using assms(2) by (simp add: own_sema_def sema_init_def)
qed (use assms(3) in \<open>auto simp: cond_wait_def held_eq [OF assms(1)] Let_def sema_init_def\<close>)

lemma cond_signal_sync:
  assumes "sync_inv i k" "cur k \<noteq> i" "cond_signal g cv l k = Some k'"
  obtains qs where "sync_inv i k'" "konts k' = (konts k)(cur k := qs @ konts k (cur k))"
    "qs = [] \<or> (\<exists>w. qs = [K_sema_up (Waiter_sema w)])" "semas k' = semas k" "holder k' = holder k"
    "all_list k' = all_list k" "thr k' = thr k"
proof (cases "conds k cv = []")
  case True
  then have "k' = k" using assms(3) by (auto simp: cond_signal_def held_eq [OF assms(1)])
  then show ?thesis using that [of "[]"] assms(1) by simp
next
  case False
  define ws where "ws = sort_key (\<lambda>w. - cond_waiter_priority g k w) (conds k cv)"
  have k': "k' = push (cur k) [K_sema_up (Waiter_sema (hd ws))] (k\<lparr>conds := (conds k)(cv := tl ws)\<rparr>)"
    using assms(3) False by (auto simp: cond_signal_def held_eq [OF assms(1)] ws_def Let_def)
  have "sync_inv i (k\<lparr>conds := (conds k)(cv := tl ws)\<rparr>)" using assms(1) by simp
  from push_inv [OF this, of "[K_sema_up (Waiter_sema (hd ws))]"] have "sync_inv i k'"
    unfolding k' using assms(2) by (simp add: own_sema_def)
  then show ?thesis by (intro that [of "[K_sema_up (Waiter_sema (hd ws))]"]) (simp_all add: k')
qed

lemma cond_broadcast_sync:
  assumes "sync_inv i k" "cur k \<noteq> i" "cond_broadcast g cv l k = Some k'"
  obtains qs where "sync_inv i k'" "konts k' = (konts k)(cur k := qs @ konts k (cur k))"
    "list_all (\<lambda>q. q = K_cond_broadcast cv l \<or> (\<exists>w. q = K_sema_up (Waiter_sema w))) qs"
    "semas k' = semas k" "holder k' = holder k" "all_list k' = all_list k" "thr k' = thr k"
proof (cases "conds k cv = []")
  case True
  then have "k' = k" using assms(3) by (simp add: cond_broadcast_def)
  then show ?thesis using that [of "[]"] assms(1) by simp
next
  case False
  let ?k = "push (cur k) [K_cond_broadcast cv l] k"
  have run: "cond_signal g cv l ?k = Some k'"
    using assms(3) False by (simp add: cond_broadcast_def sync_invD(10) [OF assms(1)])
  have inv: "sync_inv i ?k" using assms(1,2) by (intro push_inv) (simp_all add: own_sema_def)
  have ne: "cur ?k \<noteq> i" using assms(2) by simp
  obtain qs where qs: "sync_inv i k'" "konts k' = (konts ?k)(cur ?k := qs @ konts ?k (cur ?k))"
      "qs = [] \<or> (\<exists>w. qs = [K_sema_up (Waiter_sema w)])" "semas k' = semas ?k" "holder k' = holder ?k"
      "all_list k' = all_list ?k" "thr k' = thr ?k"
    by (rule cond_signal_sync [OF inv ne run]) blast
  show ?thesis by (rule that [OF qs(1), of "qs @ [K_cond_broadcast cv l]"]) (use qs(2-7) in auto)
qed

section \<open>Creation and exit\<close>

lemma thread_create_sync:
  assumes "sync_inv i k" "cur k \<noteq> i" "\<not> is_thread k t" "thread_create (Some t) nm p [] k = Some k'"
  shows "sync_inv i k'" "semas k' = semas k" "holder k' = holder k" "all_list k' = all_list k @ [t]"
    "konts k' = (konts k)(cur k := [K_lock_acquire TID_LOCK, K_allocate_tid t, K_lock_release TID_LOCK,
        K_unblock_new t, K_create_yield p] @ konts k (cur k))" "t \<noteq> cur k" "konts k t = []" "t \<notin> set (all_list k)"
    "waiting_lock (thr k' t) = None" "donations (thr k' t) = []" "\<And>u. u \<noteq> t \<Longrightarrow> thr k' u = thr k u"
    "thread_mlfqs k' = thread_mlfqs k" "is_thread k' t"
proof -
  note D = sync_invD [OF assms(1)]
  obtain k1 where k1: "init_thread k t nm p = Some k1"
    "k' = push (cur k1) [K_lock_acquire TID_LOCK, K_allocate_tid t, K_lock_release TID_LOCK,
        K_unblock_new t, K_create_yield p] (k1\<lparr>konts := (konts k1)(t := [])\<rparr>)"
    using assms(4) by (auto simp: thread_create_def bind_eq_Some_conv)
  note I = init_thread_inv [OF D(1) assms(3) k1(1)]
  note M = more_sys [OF I(8)]
  have t: "t \<notin> set (all_list k)" using lists_okD(5) [OF sched_invD(1) [OF D(1)], of t] assms(3) by simp
  then have empty: "konts k t = []" and ti: "t \<noteq> i" using D(6) by (auto simp: konts_ok_def)
  have tc: "t \<noteq> cur k" using assms(3) sched_invD(2) [OF D(1)] by auto
  have konts: "konts k' = (konts k)(cur k := [K_lock_acquire TID_LOCK, K_allocate_tid t, K_lock_release TID_LOCK,
        K_unblock_new t, K_create_yield p] @ konts k (cur k))"
    unfolding k1(2) using empty tc by (auto simp: I M fun_upd_idem)
  have idle: "Some t \<noteq> idle_thread k"
    using D(6) ti by (auto simp: konts_ok_def)
  have parked: "parked k' u = (parked k u \<or> u = t)" for u
    unfolding k1(2) push_simps sys_indep using I(2,3,4,6,9,15) idle I(15) [of u]
    by (cases "u = t") (simp_all add: parked_def is_thread_def)
  have fresh: "t \<notin> set (embryos (konts k c))" "t \<notin> set (waiters (semas k s))" for c s
    using D(3,4) assms(3) by (auto simp: embryos_ok_def waiters_ok_def parked_def)
  have semas: "semas k' = semas k" unfolding k1(2) by (simp add: M)
  have emb: "embryos (konts k' c) = (if c = cur k then [t] else []) @ embryos (konts k c)" for c
    by (simp add: konts)
  have "waiters_ok k'"
    unfolding waiters_ok_def semas parked using D(3,8) by (auto simp: waiters_ok_def konts)
  moreover have "embryos_ok k'"
    unfolding embryos_ok_def
  proof (intro allI conjI ballI)
    fix c
    show "distinct (embryos (konts k' c))" using D(4) fresh by (simp add: emb embryos_ok_def)
    fix u assume u: "u \<in> set (embryos (konts k' c))"
    then consider "u = t" "c = cur k" | "u \<in> set (embryos (konts k c))" by (auto simp: emb split: if_splits)
    then have "parked k' u \<and> waits_on (konts k' u) = None \<and> (\<forall>c'. u \<in> set (embryos (konts k' c')) \<longrightarrow> c' = c)"
    proof cases
      case 1
      have "\<forall>c'. u \<in> set (embryos (konts k' c')) \<longrightarrow> c' = c"
        using 1 fresh by (auto simp: emb split: if_splits)
      moreover have "parked k' u" "waits_on (konts k' u) = None" using 1(1) tc empty by (simp_all add: parked konts)
      ultimately show ?thesis by blast
    next
      case 2
      then have e: "parked k u" "waits_on (konts k u) = None" "u \<noteq> t" "u \<noteq> cur k"
        "\<And>c'. u \<in> set (embryos (konts k c')) \<Longrightarrow> c' = c"
        using D(4,9) fresh by (auto simp: embryos_ok_def)
      have "\<forall>c'. u \<in> set (embryos (konts k' c')) \<longrightarrow> c' = c"
        using e(3,5) by (auto simp: emb split: if_splits)
      moreover have "parked k' u" "waits_on (konts k' u) = None" using e(1,2,4) by (simp_all add: parked konts)
      ultimately show ?thesis by blast
    qed
    then show "parked k' u" "waits_on (konts k' u) = None"
        "\<And>c'. u \<in> set (embryos (konts k' c')) \<longrightarrow> c' = c" by blast+
  qed
  moreover have "parked_ok k'"
    unfolding parked_ok_def parked semas
  proof (intro allI impI)
    fix u assume "parked k u \<or> u = t"
    then show "(\<exists>s. u \<in> set (waiters (semas k s))) \<or> (\<exists>c. u \<in> set (embryos (konts k' c)))"
      using D(5) unfolding parked_ok_def emb by (auto split: if_splits)
  qed
  moreover have "konts_ok i k'"
    unfolding konts_ok_def konts
    using D(6) assms(2) sched_invD(7) [OF D(1)] I(6,9,12) k1(2) by (auto simp: konts_ok_def own_sema_def)
  moreover have "sched_inv k'" "\<not> in_external_intr k'" unfolding k1(2) using I(1,7) D(2) by simp_all
  ultimately show "sync_inv i k'" by (simp add: sync_inv_def)
  show "holder k' = holder k" "all_list k' = all_list k @ [t]" "thread_mlfqs k' = thread_mlfqs k" "is_thread k' t"
    "waiting_lock (thr k' t) = None" "donations (thr k' t) = []" "\<And>u. u \<noteq> t \<Longrightarrow> thr k' u = thr k u"
    unfolding k1(2) by (simp_all add: I M)
  show "semas k' = semas k" "t \<noteq> cur k" "konts k t = []" "t \<notin> set (all_list k)"
    "konts k' = (konts k)(cur k := [K_lock_acquire TID_LOCK, K_allocate_tid t, K_lock_release TID_LOCK,
        K_unblock_new t, K_create_yield p] @ konts k (cur k))"
    by (fact semas tc empty t konts)+
qed

lemma thread_exit_sync:
  assumes "sync_inv i k" "konts k (cur k) = []" "thread_exit k = Some k'"
  shows "sync_inv i k'" "semas k' = semas k" "holder k' = holder k" "konts k' = konts k"
    "all_list k' = remove1 (cur k) (all_list k)" "thread_mlfqs k' = thread_mlfqs k"
    "\<And>t. t \<noteq> cur k \<Longrightarrow> is_thread k' t = is_thread k t \<and> donations (thr k' t) = donations (thr k t) \<and>
       waiting_lock (thr k' t) = waiting_lock (thr k t)"
proof -
  note D = sync_invD [OF assms(1)]
  have ci: "cur k \<noteq> i" using D(6) assms(2) by (auto simp: konts_ok_def)
  have idle: "Some (cur k) \<noteq> idle_thread k" using D(6) ci by (auto simp: konts_ok_def)
  have sw: "ready_list k \<noteq> [] \<or> idle_thread k \<noteq> None"
    using assms(3) by (auto simp: thread_exit_def schedule_def next_thread_to_run_def bind_eq_Some_conv Let_def
        split: list.splits)
  obtain k1 where K: "thread_exit k = Some k1" "sched_inv k1" "\<not> in_external_intr k1"
    "kernel.more k1 = kernel.more k" "idle_thread k1 = idle_thread k"
    "thread_mlfqs k1 = thread_mlfqs k" "sleep_list k1 = sleep_list k"
    "\<And>t. t \<noteq> cur k \<Longrightarrow> is_thread k1 t = is_thread k t \<and> donations (thr k1 t) = donations (thr k t) \<and>
       waiting_lock (thr k1 t) = waiting_lock (thr k t)"
    "\<And>t. parked k1 t = parked k t" "all_list k1 = remove1 (cur k) (all_list k)"
    by (rule thread_exit_inv [OF D(1,2) idle sw]) blast
  have k1: "k1 = k'" using K(1) assms(3) by simp
  note K' = K [unfolded k1]
  note M = more_sys [OF K'(4)]
  have "konts k t \<noteq> [] \<Longrightarrow> t \<in> set (remove1 (cur k) (all_list k))" for t
    using D(6) assms(2) by (cases "t = cur k") (auto simp: konts_ok_def)
  then have "konts_ok i k'"
    using D(6) unfolding konts_ok_def K'(5,7,10) M by blast
  then show "sync_inv i k'"
    using D(3-5) K'(2,3)
    unfolding sync_inv_def waiters_ok_def embryos_ok_def parked_ok_def K'(9) M by blast
  show "semas k' = semas k" "holder k' = holder k" "konts k' = konts k"
    "all_list k' = remove1 (cur k) (all_list k)" "thread_mlfqs k' = thread_mlfqs k"
    "\<And>t. t \<noteq> cur k \<Longrightarrow> is_thread k' t = is_thread k t \<and> donations (thr k' t) = donations (thr k t) \<and>
       waiting_lock (thr k' t) = waiting_lock (thr k t)"
    using K'(6,8,10) M by simp_all
qed

text \<open>Starting a new thread: the section of its creator that makes it ready.\<close>

lemma unblock_new_sync:
  assumes "sync_inv i k" "cur k \<noteq> i" "konts k (cur k) = K_unblock_new t # qs"
    "thread_unblock (k\<lparr>konts := (konts k)(cur k := qs)\<rparr>) t = Some k'"
  shows "sync_inv i k'" "semas k' = semas k" "holder k' = holder k" "konts k' = (konts k)(cur k := qs)"
    "all_list k' = all_list k" "thread_mlfqs k' = thread_mlfqs k" "\<And>u. is_thread k' u = is_thread k u"
    "\<And>u. donations (thr k' u) = donations (thr k u)" "\<And>u. waiting_lock (thr k' u) = waiting_lock (thr k u)"
    "t \<in> set (ready_list k')"
proof -
  note D = sync_invD [OF assms(1)]
  let ?k = "k\<lparr>konts := (konts k)(cur k := qs)\<rparr>"
  have emb0: "embryos (konts k (cur k)) = t # embryos qs" by (simp add: assms(3))
  then have t: "parked k t" "t \<noteq> cur k" "waits_on (konts k t) = None" "t \<notin> set (embryos qs)"
    "\<And>c'. t \<in> set (embryos (konts k c')) \<Longrightarrow> c' = cur k"
    using D(4,7) by (auto simp: embryos_ok_def dest: spec [of _ "cur k"])
  have inv: "sched_inv ?k" using D(1) by simp
  have u: "is_thread ?k t" "status (thr ?k t) = THREAD_BLOCKED" "t \<notin> set (sleep_list ?k)"
    "Some t \<noteq> idle_thread ?k" using t(1) by (simp_all add: parked_def)
  obtain k1 where k1: "thread_unblock ?k t = Some k1" "sched_inv k1"
    "sleep_list k1 = sleep_list ?k" "in_external_intr k1 = in_external_intr ?k"
    "kernel.more k1 = kernel.more ?k" "idle_thread k1 = idle_thread ?k" "thread_mlfqs k1 = thread_mlfqs ?k"
    "thr k1 = (thr ?k)(t := (thr ?k t)\<lparr>status := THREAD_READY\<rparr>)" "all_list k1 = all_list ?k"
    "ready_list k1 = insert_ordered (thread_priority_greater ?k) t (ready_list ?k)"
    by (rule thread_unblock_inv [OF inv u]) blast
  have k': "k1 = k'" using k1(1) assms(4) by simp
  note K = k1 [unfolded k']
  note M = more_sys [OF K(5)]
  have konts: "konts k' = (konts k)(cur k := qs)" and semas: "semas k' = semas k" by (simp_all add: M)
  have parked: "parked k' u = (parked k u \<and> u \<noteq> t)" for u
    unfolding parked_def is_thread_def K(3,6,8) by auto
  have emb: "set (embryos (konts k' c)) = set (embryos (konts k c)) - {t}" for c
    using t(4,5) emb0 by (cases "c = cur k") (auto simp: konts)
  have w: "t \<notin> set (waiters (semas k s))" for s using D(3) t(3) by (auto simp: waiters_ok_def)
  have "waiters_ok k'"
    unfolding waiters_ok_def semas parked using D(3,8) w by (auto simp: waiters_ok_def konts)
  moreover have "embryos_ok k'"
    unfolding embryos_ok_def emb parked
  proof (intro allI conjI ballI)
    fix c
    show "distinct (embryos (konts k' c))"
      using D(4) emb0 by (cases "c = cur k") (auto simp: konts embryos_ok_def dest: spec [of _ "cur k"])
    fix u assume u: "u \<in> set (embryos (konts k c)) - {t}"
    then show "parked k u" "u \<noteq> t" using D(4) by (auto simp: embryos_ok_def)
    have "waits_on (konts k u) = None" using u D(4) unfolding embryos_ok_def by blast
    moreover have "u \<noteq> cur k" using u D(9) by auto
    ultimately show "waits_on (konts k' u) = None" by (simp add: konts)
    show "u \<in> set (embryos (konts k c')) - {t} \<longrightarrow> c' = c" for c' using u D(4) by (auto simp: embryos_ok_def)
  qed
  moreover have "parked_ok k'"
    unfolding parked_ok_def parked semas emb using D(5) by (auto simp: parked_ok_def)
  moreover have "list_all (own_sema (cur k)) qs"
    using D(6) assms(2,3) by (auto simp: konts_ok_def dest: spec [of _ "cur k"])
  then have "konts_ok i k'"
    unfolding konts_ok_def konts K(3,6,9)
    using D(6) assms(2) sched_invD(7) [OF D(1)] by (auto simp: konts_ok_def)
  ultimately show "sync_inv i k'" using K(2,4) D(2) by (simp add: sync_inv_def)
  show "semas k' = semas k" "holder k' = holder k" "konts k' = (konts k)(cur k := qs)"
    "all_list k' = all_list k" "thread_mlfqs k' = thread_mlfqs k" "\<And>u. is_thread k' u = is_thread k u"
    "\<And>u. donations (thr k' u) = donations (thr k u)" "\<And>u. waiting_lock (thr k' u) = waiting_lock (thr k u)"
    "t \<in> set (ready_list k')"
    using M K(7-10) by (simp_all add: is_thread_def)
qed

section \<open>The idle thread and interrupts\<close>

text \<open>A change of the idle thread's own stack between its three forms.\<close>

lemma idle_stack_inv:
  assumes "sync_inv i k" "cur k = i" "idle_thread k = Some i" "ks \<in> {[K_idle], [K_yield_check, K_idle]}"
  shows "sync_inv i (k\<lparr>konts := (konts k)(i := ks)\<rparr>)"
proof -
  note D = sync_invD [OF assms(1)]
  let ?k = "k\<lparr>konts := (konts k)(i := ks)\<rparr>"
  have emb: "embryos (konts ?k c) = embryos (konts k c)" for c
    using D(6) assms(3,4) by (auto simp: konts_ok_def)
  have i: "i \<notin> set (waiters (semas k s))" "i \<notin> set (embryos (konts k c))" for s c
    using D(8,9) assms(2) by simp_all
  have "waiters_ok ?k" using D(3) i(1) by (auto simp: waiters_ok_def)
  moreover have "embryos_ok ?k"
    unfolding embryos_ok_def emb using D(4) i(2) by (auto simp: embryos_ok_def)
  moreover have "parked_ok ?k" unfolding parked_ok_def emb using D(5) by (simp add: parked_ok_def)
  moreover have "konts_ok i ?k" using D(6) assms(3,4) by (auto simp: konts_ok_def)
  ultimately show ?thesis using D(1,2) by (simp add: sync_inv_def)
qed

lemma idle_sync:
  assumes "sync_inv i k" "cur k = i" "konts k i = [K_idle]"
    "idle (k\<lparr>konts := (konts k)(i := [])\<rparr>) = Some k'"
  shows "sync_inv i k'" "keeps k k'"
proof -
  note D = sync_invD [OF assms(1)]
  have idle: "idle_thread k = Some i" using D(6) assms(3) by (auto simp: konts_ok_def)
  have "push i [K_idle] (k\<lparr>konts := (konts k)(i := [])\<rparr>) = k"
    using assms(3) by (cases k) (auto simp: push_def fun_upd_idem)
  moreover have "thread_current (k\<lparr>konts := (konts k)(i := [])\<rparr>) = Some i"
    using D(10) assms(2) by (simp add: thread_current_def)
  ultimately have run: "thread_block k = Some k'" using assms(4) by (simp add: idle_def)
  obtain k1 where k1: "thread_block k = Some k1" "sched_inv k1" "preserves k k1"
      "\<not> in_external_intr k1" "sleep_list k1 = sleep_list k"
      "\<And>t. parked k1 t = (parked k t \<or> t = cur k \<and> Some t \<noteq> idle_thread k)"
    by (rule thread_block_inv [OF D(1,2) thread_block_can_switch [OF run]]) blast
  have k': "k1 = k'" using run k1(1) by simp
  show "keeps k k'" using k1(3,6) assms(2) idle unfolding k' by (auto simp: keeps_def)
  then show "sync_inv i k'"
    using keeps_sync_inv [OF assms(1)] k1(2,4,5) D(6) unfolding k' by (simp add: konts_ok_def)
qed

lemma idle_start_sync:
  assumes "sync_inv i k" "cur k = i" "konts k i = [K_idle_start s]"
    "idle_start s (k\<lparr>konts := (konts k)(i := [])\<rparr>) = Some k'"
  obtains k1 k2 where "k1 = k\<lparr>idle_thread := Some i, konts := (konts k)(i := [K_idle])\<rparr>" "sync_inv i k1"
    "sema_up_wake s k1 = Some k2" "k' = push i [K_yield_check] k2" "sync_inv i k'"
proof -
  note D = sync_invD [OF assms(1)] and L = lists_okD [OF sched_invD(1) [OF sync_invD(1) [OF assms(1)]]]
  define k1 where "k1 = k\<lparr>idle_thread := Some i, konts := (konts k)(i := [K_idle])\<rparr>"
  have idle: "idle_thread k = None" using D(6) assms(3) by (auto simp: konts_ok_def)
  have keys: "is_thread k1 = is_thread k" "neg_prio k1 = neg_prio k" "wake_key k1 = wake_key k"
    by (auto simp: fun_eq_iff k1_def is_thread_def neg_prio_def wake_key_def)
  have run: "status (thr k i) = THREAD_RUNNING" "is_thread k i"
    using sched_invD(2,3) [OF D(1)] assms(2) by simp_all
  have f: "ready_list k1 = ready_list k" "all_list k1 = all_list k" "sleep_list k1 = sleep_list k" "thr k1 = thr k"
    "idle_thread k1 = Some i" "cur k1 = cur k" "initial_thread k1 = initial_thread k"
    by (simp_all add: k1_def)
  have "i \<notin> set (ready_list k)" "i \<notin> set (sleep_list k)"
    using sched_invD(5,6) [OF D(1)] assms(2) by simp_all
  then have "lists_ok k1"
    unfolding lists_ok_def keys f using L run by (auto simp: idle)
  then have s1: "sched_inv k1"
    using D(1) unfolding sched_inv_def keys f by blast
  have parked: "parked k1 t = parked k t" for t
    using run by (auto simp: parked_def keys f idle)
  have emb: "embryos (konts k1 c) = embryos (konts k c)" for c
    using assms(3) by (simp add: k1_def)
  have "waiters_ok k1"
    unfolding waiters_ok_def parked using D(3,8) assms(2) by (auto simp: waiters_ok_def k1_def)
  moreover have "embryos_ok k1"
    unfolding embryos_ok_def emb parked using D(4,9) assms(2) by (auto simp: embryos_ok_def k1_def)
  moreover have "parked_ok k1"
    unfolding parked_ok_def emb parked using D(5) by (simp add: parked_ok_def k1_def)
  moreover have "konts_ok i k1" using D(6) assms(3) by (auto simp: konts_ok_def k1_def)
  ultimately have inv1: "sync_inv i k1" using s1 D(2) by (simp add: sync_inv_def k1_def)
  have "push i [K_idle] ((k\<lparr>konts := (konts k)(i := [])\<rparr>)\<lparr>idle_thread := Some i\<rparr>) = k1"
    by (simp add: push_def k1_def)
  moreover have "thread_current (k\<lparr>konts := (konts k)(i := [])\<rparr>) = Some i"
    using D(10) assms(2) by (simp add: thread_current_def)
  ultimately have up: "sema_up s k1 = Some k'" using assms(4) by (simp add: idle_start_def)
  have ext: "\<not> in_external_intr k1" using sync_invD(2) [OF inv1] .
  obtain k2 where k2: "sema_up_wake s k1 = Some k2"
      "k' = (if in_external_intr k2 then k2 else push (cur k2) [K_yield_check] k2)"
    using up by (auto simp: sema_up_def bind_eq_Some_conv)
  have pre: "sync_inv i (k1\<lparr>in_external_intr := False\<rparr>)" using inv1 ext_False [OF ext] by simp
  note W = sema_up_wake_inv [OF pre k2(1)]
  have ext2: "\<not> in_external_intr k2" using W(2) ext by simp
  have inv2: "sync_inv i k2" using W(1) ext_False [OF ext2] by simp
  have c2: "cur k2 = i" "konts k2 i = [K_idle]" using W(3,5) assms(2) by (simp_all add: k1_def)
  then have "idle_thread k2 = Some i" using sync_invD(6) [OF inv2] by (auto simp: konts_ok_def)
  then have "sync_inv i (k2\<lparr>konts := (konts k2)(i := [K_yield_check, K_idle])\<rparr>)"
    using inv2 c2(1) by (intro idle_stack_inv) simp_all
  moreover have k': "k' = push i [K_yield_check] k2" using k2(2) ext2 c2(1) by simp
  ultimately have "sync_inv i k'" using c2(2) by (simp add: push_def)
  with inv1 k2(1) k' show ?thesis using that [OF k1_def] by blast
qed

lemma tick_sync:
  assumes "sync_inv i k" "external_interrupt timer_interrupt k = Some k'"
  shows "sync_inv i k'" "keeps k k'"
proof -
  note D = sync_invD [OF assms(1)]
  obtain k1 where k1: "external_interrupt timer_interrupt k = Some k1" "sched_inv k1" "keeps k k1"
    "\<not> in_external_intr k1" "sleep_list k1 = filter (\<lambda>t. \<not> due (ticks k + 1) k t) (sleep_list k)"
    by (rule timer_tick_inv [OF D(1,2)]) blast
  have k': "k1 = k'" using k1(1) assms(2) by simp
  show "keeps k k'" using k1(3) k' by simp
  show "sync_inv i k'"
    using keeps_sync_inv [OF assms(1) k1(3,2,4)] k1(5) D(6) unfolding k' by (simp add: konts_ok_def)
qed

lemma sleep_sync:
  assumes "sync_inv i k" "cur k \<noteq> i" "thread_sleep k w = Some k'"
  shows "sync_inv i k'" "keeps k k'"
proof -
  note D = sync_invD [OF assms(1)]
  have idle: "Some (cur k) \<noteq> idle_thread k" using D(6) assms(2) by (auto simp: konts_ok_def)
  have sw: "ready_list k \<noteq> [] \<or> idle_thread k \<noteq> None"
    using assms(3) by (auto simp: thread_sleep_def Let_def bind_eq_Some_conv dest!: thread_block_can_switch)
  obtain k1 where k1: "thread_sleep k w = Some k1" "sched_inv k1" "keeps k k1" "\<not> in_external_intr k1"
    "set (sleep_list k1) = insert (cur k) (set (sleep_list k))"
    by (rule thread_sleep_inv [OF D(1,2) idle sw, of w]) blast
  have k': "k1 = k'" using k1(1) assms(3) by simp
  show "keeps k k'" using k1(3) k' by simp
  show "sync_inv i k'"
    using keeps_sync_inv [OF assms(1) k1(3,2,4)] k1(5) D(6) assms(2) unfolding k' by (simp add: konts_ok_def)
qed

lemma irq_sync:
  assumes "sync_inv i k" "external_interrupt (sema_up s) k = Some k'"
  obtains k1 k2 where "k1 = k\<lparr>in_external_intr := True, yield_on_return := False\<rparr>"
    "sema_up_wake s k1 = Some k2" "k' = k2\<lparr>in_external_intr := False\<rparr>" "sync_inv i k'"
proof -
  note D = sync_invD [OF assms(1)]
  define k1 where "k1 = k\<lparr>in_external_intr := True, yield_on_return := False\<rparr>"
  obtain k2 where k2: "sema_up_wake s k1 = Some k2"
      "(let k = (if in_external_intr k2 then k2 else push (cur k2) [K_yield_check] k2)\<lparr>in_external_intr := False\<rparr>
        in if yield_on_return k then thread_yield k else Some k) = Some k'"
    using assms(2) D(2) by (auto simp: external_interrupt_def sema_up_def k1_def bind_eq_Some_conv)
  have eq: "k1\<lparr>in_external_intr := False\<rparr> = (k\<lparr>in_external_intr := False\<rparr>)\<lparr>yield_on_return := False\<rparr>"
    by (cases k) (simp add: k1_def)
  have "sync_inv i (k\<lparr>yield_on_return := False\<rparr>)" using assms(1) by (simp add: sync_inv_def)
  then have pre: "sync_inv i (k1\<lparr>in_external_intr := False\<rparr>)" unfolding eq ext_False [OF D(2)] .
  note W = sema_up_wake_inv [OF pre k2(1)]
  have "in_external_intr k2" "\<not> yield_on_return k2" using W(2,4) by (simp_all add: k1_def)
  then have "k' = k2\<lparr>in_external_intr := False\<rparr>" using k2(2) by simp
  with W(1) k2(1) show ?thesis using that [OF k1_def] by simp
qed

end
