(* ===== verification/Kernel_Steps.thy ===== *)
theory Kernel_Steps
  imports Interleaving
begin

text \<open>
  Every step of the interleaving keeps the invariant, and what a step does to stacks, semaphores
  and holders is one of nine effects. From the effects follow the two counting invariants:
  every lock has exactly one token (its semaphore's value, its holder, or a thread between the
  semaphore and the holder field), and a semaphore with waiters has no more units than there
  are threads on their way to take them.
\<close>

section \<open>Effects\<close>

text \<open>The tokens of lock \<open>l\<close> in a stack: ownership not yet recorded, or recorded as given up.\<close>

fun tok :: "nat \<Rightarrow> kont list \<Rightarrow> nat" where
  "tok l [] = 0"
| "tok l (q # ks) = (if q = K_lock_own l \<or> q = K_sema_up (Lock_sema l) then 1 else 0) + tok l ks"

lemma tok_append [simp]: "tok l (ks @ qs) = tok l ks + tok l qs"
  by (induction ks) simp_all

definition incr :: "semaphore \<Rightarrow> semaphore" where
  "incr v = v\<lparr>sema_value := wrap32 (sema_value v + 1)\<rparr>"

definition decr :: "semaphore \<Rightarrow> semaphore" where
  "decr v = v\<lparr>sema_value := sema_value v - 1\<rparr>"

lemma incr_decr_simps [simp]:
  "waiters (incr v) = waiters v" "waiters (decr v) = waiters v"
  "sema_value (decr v) = sema_value v - 1" "sema_value (incr v) = wrap32 (sema_value v + 1)"
  by (simp_all add: incr_def decr_def)

inductive effect :: "tptr \<Rightarrow> sys \<Rightarrow> sys \<Rightarrow> bool" for c k k' where
  same: "konts k' = konts k \<Longrightarrow> semas k' = semas k \<Longrightarrow> holder k' = holder k \<Longrightarrow> effect c k k'"
| stack: "konts k' = (konts k)(c := ks) \<Longrightarrow> semas k' = semas k \<Longrightarrow> holder k' = holder k \<Longrightarrow>
    (\<And>l. tok l ks = tok l (konts k c)) \<Longrightarrow> waits_on (konts k c) = None \<Longrightarrow> effect c k k'"
| pass: "konts k' = (konts k)(c := ks) \<Longrightarrow> semas k' = (semas k)(s := decr (semas k s)) \<Longrightarrow>
    holder k' = holder k \<Longrightarrow> waits_on (konts k c) = Some s \<Longrightarrow> 0 < sema_value (semas k s) \<Longrightarrow>
    (\<And>l. tok l ks = tok l (konts k c) + (if s = Lock_sema l then 1 else 0)) \<Longrightarrow> effect c k k'"
| block: "konts k' = konts k \<Longrightarrow> semas k' = (semas k)(s := (semas k s)\<lparr>waiters := ws\<rparr>) \<Longrightarrow>
    holder k' = holder k \<Longrightarrow> sema_value (semas k s) = 0 \<Longrightarrow> set ws = insert c (set (waiters (semas k s))) \<Longrightarrow>
    waits_on (konts k c) = Some s \<Longrightarrow> effect c k k'"
| up: "konts k' = (konts k)(c := ks) \<Longrightarrow> semas k' = (semas k)(s := (incr (semas k s))\<lparr>waiters := ws\<rparr>) \<Longrightarrow>
    holder k' = holder k \<Longrightarrow> ks = konts k c \<or> waits_on (konts k c) = None \<Longrightarrow>
    (\<And>l. tok l ks + (if s = Lock_sema l then 1 else 0) = tok l (konts k c)) \<Longrightarrow>
    (waiters (semas k s) = [] \<and> ws = []) \<or>
      (\<exists>t. t \<noteq> c \<and> t \<notin> set ws \<and> set (waiters (semas k s)) = insert t (set ws)) \<Longrightarrow> effect c k k'"
| own: "konts k' = (konts k)(c := ks) \<Longrightarrow> semas k' = semas k \<Longrightarrow> holder k' = (holder k)(l := Some c) \<Longrightarrow>
    konts k c = K_lock_own l # ks \<Longrightarrow> effect c k k'"
| release: "konts k' = (konts k)(c := ks) \<Longrightarrow> semas k' = semas k \<Longrightarrow> holder k' = (holder k)(l := None) \<Longrightarrow>
    holder k l = Some c \<Longrightarrow> (\<And>m. tok m ks = tok m (konts k c) + (if m = l then 1 else 0)) \<Longrightarrow>
    waits_on (konts k c) = None \<Longrightarrow> effect c k k'"
| try_down: "konts k' = konts k \<Longrightarrow> semas k' = (semas k)(s := decr (semas k s)) \<Longrightarrow>
    0 < sema_value (semas k s) \<Longrightarrow>
    (case s of Lock_sema l \<Rightarrow> holder k' = (holder k)(l := Some c) | _ \<Rightarrow> holder k' = holder k) \<Longrightarrow>
    waits_on (konts k c) = None \<Longrightarrow> effect c k k'"
| waiter: "konts k' = (konts k)(c := ks) \<Longrightarrow> semas k' = (semas k)(Waiter_sema c := \<lparr>sema_value = 0, waiters = []\<rparr>) \<Longrightarrow>
    holder k' = holder k \<Longrightarrow> (\<And>l. tok l ks = tok l (konts k c)) \<Longrightarrow> waits_on (konts k c) = None \<Longrightarrow>
    effect c k k'"

lemma keeps_effect: "keeps k k' \<Longrightarrow> effect c k k'"
proof -
  assume "keeps k k'"
  then have m: "kernel.more k' = kernel.more k" by (simp add: keeps_def preserves_def)
  show ?thesis by (rule effect.same [OF more_sys(4,1,2) [OF m]])
qed

lemma keeps_stack_effect:
  assumes "keeps (k\<lparr>konts := (konts k)(c := ks)\<rparr>) k'" "\<And>l. tok l ks = tok l (konts k c)"
    "waits_on (konts k c) = None"
  shows "effect c k k'"
proof -
  have "kernel.more k' = kernel.more (k\<lparr>konts := (konts k)(c := ks)\<rparr>)"
    using assms(1) by (simp add: keeps_def preserves_def)
  note m = more_sys [OF this]
  show ?thesis by (rule effect.stack [OF _ _ _ assms(2,3)]) (simp_all add: m)
qed

text \<open>The effect of waking, seen from the state before the section was taken off the stack.\<close>

lemma wake_effect:
  assumes "sched_inv k" "waiters_ok k" "sema_up_wake s k = Some k'"
  obtains ws where "semas k' = (semas k)(s := (incr (semas k s))\<lparr>waiters := ws\<rparr>)" "holder k' = holder k"
    "konts k' = konts k"
    "(waiters (semas k s) = [] \<and> ws = []) \<or>
      (\<exists>t. t \<noteq> cur k \<and> t \<notin> set ws \<and> set (waiters (semas k s)) = insert t (set ws))"
proof (cases rule: sema_up_wake_effect [OF assms])
  case 1
  have "semas k' = (semas k)(s := (incr (semas k s))\<lparr>waiters := []\<rparr>)"
    using 1 by (cases "semas k s") (simp add: incr_def)
  then show ?thesis using 1 that by simp
next
  case (2 t ts)
  have mset: "mset (t # ts) = mset (waiters (semas k s))"
    using 2(1) mset_sort [of "neg_prio k" "waiters (semas k s)"] by simp
  have "t \<notin> set ts" using assms(2) mset_eq_imp_distinct_iff [OF mset] by (simp add: waiters_ok_def)
  moreover have set: "set (waiters (semas k s)) = insert t (set ts)" using mset_eq_setD [OF mset] by simp
  moreover have "t \<noteq> cur k"
  proof -
    have "parked k t" using assms(2) set unfolding waiters_ok_def by blast
    then show ?thesis using sched_invD(3) [OF assms(1)] by (auto simp: parked_def)
  qed
  moreover have "semas k' = (semas k)(s := (incr (semas k s))\<lparr>waiters := ts\<rparr>)"
    unfolding 2(3) by (cases "semas k s") (simp add: incr_def)
  ultimately show ?thesis using 2(12,14) that by blast
qed

section \<open>Every step keeps the invariant and has an effect\<close>

lemma sema_up_step:
  assumes "sync_inv i k0" "cur k0 \<noteq> i" "sema_up s k0 = Some k'" "k0 = k\<lparr>konts := (konts k)(cur k := qs)\<rparr>"
    "qs = konts k (cur k) \<or> waits_on (konts k (cur k)) = None"
    "waits_on (konts k (cur k)) = None"
    "\<And>l. tok l qs + (if s = Lock_sema l then 1 else 0) = tok l (konts k (cur k))"
  shows "sync_inv i k'" "effect (cur k) k k'"
proof -
  show "sync_inv i k'" by (rule sema_up_inv [OF assms(1-3)])
  note D = sync_invD [OF assms(1)]
  obtain k1 where k1: "sema_up_wake s k0 = Some k1" "k' = (if in_external_intr k1 then k1 else push (cur k1) [K_yield_check] k1)"
    using assms(3) by (auto simp: sema_up_def bind_eq_Some_conv)
  have "sync_inv i (k0\<lparr>in_external_intr := False\<rparr>)" using assms(1) ext_False [OF D(2)] by simp
  note W = sema_up_wake_inv [OF this k1(1)]
  have k': "k' = push (cur k) [K_yield_check] k1" using k1(2) W(2,3) D(2) assms(4) by simp
  obtain ws where ws: "semas k1 = (semas k0)(s := (incr (semas k0 s))\<lparr>waiters := ws\<rparr>)" "holder k1 = holder k0"
    "konts k1 = konts k0"
    "(waiters (semas k0 s) = [] \<and> ws = []) \<or>
      (\<exists>t. t \<noteq> cur k0 \<and> t \<notin> set ws \<and> set (waiters (semas k0 s)) = insert t (set ws))"
    by (rule wake_effect [OF D(1,3) k1(1)]) blast
  have e: "konts k' = (konts k)(cur k := K_yield_check # qs)"
    "semas k' = (semas k)(s := (incr (semas k s))\<lparr>waiters := ws\<rparr>)" "holder k' = holder k"
    unfolding k' push_simps ws(1-3) by (simp_all add: assms(4))
  have t: "tok l (K_yield_check # qs) + (if s = Lock_sema l then 1 else 0) = tok l (konts k (cur k))" for l
    using assms(7) [of l] by simp
  have w: "(waiters (semas k s) = [] \<and> ws = []) \<or>
      (\<exists>t. t \<noteq> cur k \<and> t \<notin> set ws \<and> set (waiters (semas k s)) = insert t (set ws))"
    using ws(4) by (simp add: assms(4))
  show "effect (cur k) k k'" by (rule effect.up [OF e disjI2 [OF assms(6)] t w])
qed

text \<open>
  A section that pushes a list of further sections without tokens, in a state with the running
  section already taken off the stack.
\<close>

lemma push_step:
  assumes "konts k (cur k) = q # qs" "konts k' = (konts k0)(cur k := ps @ qs)"
    "k0 = k\<lparr>konts := (konts k)(cur k := qs)\<rparr>" "semas k' = semas k0" "holder k' = holder k0"
    "\<And>l. tok l ps = tok l [q]" "waits_on (q # qs) = None"
  shows "effect (cur k) k k'"
  by (rule effect.stack [where ks = "ps @ qs"]) (use assms in \<open>simp_all\<close>)

lemma sema_down_step:
  assumes "sync_inv i k" "cur k \<noteq> i" "konts k (cur k) = q # qs" "waits_on [q] = Some s"
    "k0 = k\<lparr>konts := (konts k)(cur k := qs)\<rparr>" "sema_down s k0 = Some (ok, k1)"
    "k' = (if ok then push (cur k) ps k1 else push (cur k) [q] k1)" "list_all (own_sema (cur k)) ps"
    "embryos ps = []" "\<And>l. tok l ps = (if s = Lock_sema l then 1 else 0)"
  shows "sync_inv i k'" "effect (cur k) k k'"
proof -
  have q: "embryos [q] = []" "tok l [q] = 0" "waits_on (q # qs) = Some s" for l
    using assms(4) by (cases q; simp)+
  have inv0: "sync_inv i k0" unfolding assms(5) by (rule pop_inv [OF assms(1-3) q(1)])
  have c0: "cur k0 = cur k" "konts k0 = (konts k)(cur k := qs)" "semas k0 = semas k" "holder k0 = holder k"
    by (simp_all add: assms(5))
  have ne: "cur k0 \<noteq> i" using assms(2) c0 by simp
  have "sync_inv i k' \<and> effect (cur k) k k'"
  proof (cases ok)
    case True
    then have run: "sema_down s k0 = Some (True, k1)" using assms(6) by simp
    note P = sema_down_pass_inv [OF inv0 run]
    have k1: "cur k1 = cur k" "konts k1 = konts k0" "holder k1 = holder k"
      "semas k1 = (semas k)(s := decr (semas k s))"
      unfolding P(3) by (simp_all add: c0 decr_def)
    have k': "k' = push (cur k1) ps k1" using assms(7) True k1(1) by simp
    have "sync_inv i k'"
      unfolding k' using P(1) assms(2,8,9) k1(1) by (intro push_inv) simp_all
    moreover have "effect (cur k) k k'"
      by (rule effect.pass [where ks = "ps @ qs" and s = s])
         (use P(2) assms(3,10) q in \<open>simp_all add: k' k1 c0\<close>)
    ultimately show ?thesis ..
  next
    case False
    then have run: "sema_down s k0 = Some (False, k1)" using assms(6) by simp
    note B = sema_down_blocks [OF inv0 ne run]
    have own: "own_sema (cur k0) q"
      using sync_invD(6) [OF assms(1)] assms(2,3) c0 by (auto simp: konts_ok_def dest: spec [of _ "cur k"])
    have k': "k' = push (cur k0) [q] k1" using assms(7) False c0 by simp
    have "sync_inv i k'"
      unfolding k' by (rule sema_down_block_inv [OF inv0 ne run assms(4) own])
    moreover have "effect (cur k) k k'"
      by (rule effect.block [where s = s and ws = "insert_ordered (thread_priority_greater k0) (cur k) (waiters (semas k s))"])
         (use B(11) assms(3) q in \<open>simp_all add: k' B(6,8,9) c0 fun_upd_idem\<close>)
    ultimately show ?thesis ..
  qed
  then show "sync_inv i k'" "effect (cur k) k k'" by blast+
qed

lemma push_Nil [simp]: "push t [] k = k"
  by (cases k) (simp add: push_def)

lemma tok_no_lock:
  "list_all (\<lambda>q. q = K_cond_broadcast cv m \<or> (\<exists>w. q = K_sema_up (Waiter_sema w))) ks \<Longrightarrow> tok l ks = 0"
  by (induction ks) auto

lemma next_tid_inv [simp]: "sync_inv i (k\<lparr>next_tid := n\<rparr>) = sync_inv i k"
proof -
  have "is_thread (k\<lparr>next_tid := n\<rparr>) = is_thread k" "neg_prio (k\<lparr>next_tid := n\<rparr>) = neg_prio k"
    "wake_key (k\<lparr>next_tid := n\<rparr>) = wake_key k" "parked (k\<lparr>next_tid := n\<rparr>) = parked k"
    by (auto simp: fun_eq_iff is_thread_def neg_prio_def wake_key_def parked_def)
  then show ?thesis
    by (simp add: sync_inv_def sched_inv_def lists_ok_def waiters_ok_def embryos_ok_def parked_ok_def konts_ok_def)
qed

lemma run_kont_step:
  assumes "sync_inv i k" "cur k \<noteq> i" "konts k (cur k) = q # qs"
    "run_kont g q (k\<lparr>konts := (konts k)(cur k := qs)\<rparr>) = Some k'"
  shows "sync_inv i k' \<and> effect (cur k) k k'"
proof -
  define k0 where "k0 = k\<lparr>konts := (konts k)(cur k := qs)\<rparr>"
  have run: "run_kont g q k0 = Some k'" using assms(4) by (simp add: k0_def)
  have c0: "cur k0 = cur k" "konts k0 = (konts k)(cur k := qs)" "semas k0 = semas k" "holder k0 = holder k"
    by (simp_all add: k0_def)
  have ne: "cur k0 \<noteq> i" using assms(2) c0 by simp
  have inv0: "sync_inv i k0" if "embryos [q] = []"
    unfolding k0_def by (rule pop_inv [OF assms(1-3) that])
  have own: "own_sema (cur k) q"
    using sync_invD(6) [OF assms(1)] assms(2,3) by (auto simp: konts_ok_def dest: spec [of _ "cur k"])
  have keep: "sync_inv i k' \<and> effect (cur k) k k'"
    if "sync_inv i k' \<and> keeps k0 k'" "\<And>l. tok l [q] = 0" "waits_on (q # qs) = None"
  proof -
    have "effect (cur k) k k'"
      by (rule keeps_stack_effect [of k "cur k" qs]) (use that assms(3) in \<open>simp_all add: k0_def\<close>)
    then show ?thesis using that(1) by blast
  qed
  show ?thesis
  proof (cases q)
    case (K_sema_down s)
    obtain ok k1 where r: "sema_down s k0 = Some (ok, k1)"
      using run K_sema_down by (cases "sema_down s k0") auto
    have k': "k' = (if ok then push (cur k) [] k1 else push (cur k) [q] k1)"
      using run r K_sema_down c0(1) by (auto split: if_splits)
    have "s \<noteq> Lock_sema l" for l using own K_sema_down by (auto simp: own_sema_def)
    then show ?thesis
      using sema_down_step [OF assms(1-3) _ k0_def r k'] K_sema_down by simp
  next
    case (K_sema_up s)
    have "sync_inv i k'" "effect (cur k) k k'"
      using sema_up_step [OF inv0 ne _ k0_def, of s k'] run K_sema_up assms(3) by (simp_all)
    then show ?thesis ..
  next
    case K_yield_check
    then have "sync_inv i k' \<and> keeps k0 k'"
      using run inv0 yield_to_higher_sync [of i k0 k'] sync_invD(10) [of i k0]
      by (simp add: yield_check_def)
    then show ?thesis using K_yield_check by (intro keep) simp_all
  next
    case (K_lock_acquire l)
    have i0: "sync_inv i k0" using inv0 K_lock_acquire by simp
    note A = lock_acquire_sync [OF i0 ne, of l k']
    have r: "lock_acquire l k0 = Some k'" using run K_lock_acquire by simp
    have "effect (cur k) k k'"
      by (rule push_step [OF assms(3) _ k0_def, where ps = "if \<not> thread_mlfqs k0 \<and> holder k0 l \<noteq> None
            then [K_lock_donate l, K_lock_down l] else [K_lock_down l]"])
         (use K_lock_acquire in \<open>simp_all add: A(3) [OF r] c0\<close>)
    then show ?thesis using A(1) [OF r] by blast
  next
    case (K_lock_donate l)
    have i0: "sync_inv i k0" using inv0 K_lock_donate by simp
    have r: "lock_donate l k0 = Some k'" using run K_lock_donate by simp
    obtain h where h: "sync_inv i k'"
      "k' = push (cur k0) [K_donate_priority] (upd (upd k0 (cur k0) (waiting_lock_update (\<lambda>_. Some l))) h
        (donations_update (\<lambda>ds. ds @ [cur k0])))"
      by (rule lock_donate_sync [OF i0 ne r]) blast
    have "effect (cur k) k k'"
      by (rule push_step [OF assms(3) _ k0_def, where ps = "[K_donate_priority]"])
         (use K_lock_donate in \<open>simp_all add: h(2) c0\<close>)
    then show ?thesis using h(1) by blast
  next
    case K_donate_priority
    have i0: "sync_inv i k0" using inv0 K_donate_priority by simp
    have "sync_inv i k' \<and> keeps k0 k'"
      using run donate_priority_sync [OF i0, of "cur k0" k'] K_donate_priority by (simp add: raised_def)
    then show ?thesis using K_donate_priority by (intro keep) simp_all
  next
    case (K_lock_down l)
    obtain ok k1 where r: "sema_down (Lock_sema l) k0 = Some (ok, k1)"
        "k' = (if ok then push (cur k) [K_lock_own l] k1 else push (cur k) [q] k1)"
      using run K_lock_down c0(1) by (auto simp: bind_eq_Some_conv split: if_splits)
    show ?thesis
      using sema_down_step [OF assms(1-3) _ k0_def r] K_lock_down by (simp add: own_sema_def)
  next
    case (K_lock_own l)
    have i0: "sync_inv i k0" using inv0 K_lock_own by simp
    have r: "lock_own l k0 = Some k'" using run K_lock_own by simp
    note O = lock_own_sync [OF i0 r]
    have "effect (cur k) k k'"
      by (rule effect.own [where ks = qs and l = l]) (use K_lock_own assms(3) in \<open>simp_all add: O(2) c0\<close>)
    then show ?thesis using O(1) by blast
  next
    case (K_lock_release l)
    have i0: "sync_inv i k0" using inv0 K_lock_release by simp
    have r: "lock_release l k0 = Some k'" using run K_lock_release by simp
    note R = lock_release_sync [OF i0 ne r]
    have "effect (cur k) k k'"
      by (rule effect.release [where ks = "K_sema_up (Lock_sema l) # qs" and l = l])
         (use K_lock_release assms(3) R(2) in \<open>simp_all add: R(3-5) c0\<close>)
    then show ?thesis using R(1) by blast
  next
    case (K_cond_broadcast cv l)
    have i0: "sync_inv i k0" using inv0 K_cond_broadcast by simp
    have r: "cond_broadcast g cv l k0 = Some k'" using run K_cond_broadcast by simp
    obtain ps where ps: "sync_inv i k'" "konts k' = (konts k0)(cur k0 := ps @ konts k0 (cur k0))"
      "list_all (\<lambda>q. q = K_cond_broadcast cv l \<or> (\<exists>w. q = K_sema_up (Waiter_sema w))) ps"
      "semas k' = semas k0" "holder k' = holder k0"
      by (rule cond_broadcast_sync [OF i0 ne r]) blast
    have "effect (cur k) k k'"
      by (rule push_step [OF assms(3) _ k0_def, where ps = ps])
         (use K_cond_broadcast ps(4,5) tok_no_lock [OF ps(3)] in \<open>simp_all add: ps(2) c0\<close>)
    then show ?thesis using ps(1) by blast
  next
    case (K_thread_sleep w)
    have i0: "sync_inv i k0" using inv0 K_thread_sleep by simp
    have "sync_inv i k' \<and> keeps k0 k'" using run sleep_sync [OF i0 ne, of w k'] K_thread_sleep by simp
    then show ?thesis using K_thread_sleep by (intro keep) simp_all
  next
    case (K_allocate_tid t)
    have i0: "sync_inv i k0" using inv0 K_allocate_tid by simp
    let ?k = "upd k0 t (tid_update (\<lambda>_. next_tid k0))"
    have k': "k' = ?k\<lparr>next_tid := s32 (next_tid k0 + 1)\<rparr>"
      using run K_allocate_tid by (simp add: allocate_tid_def)
    have "sync_inv i ?k" using i0 by (rule upd_inv) simp_all
    then have "sync_inv i k'" by (simp add: k')
    moreover have "effect (cur k) k k'"
      by (rule push_step [OF assms(3) _ k0_def, where ps = "[]"])
         (use K_allocate_tid in \<open>simp_all add: k' c0\<close>)
    ultimately show ?thesis ..
  next
    case (K_unblock_new t)
    have kc: "konts k (cur k) = K_unblock_new t # qs" using assms(3) K_unblock_new by simp
    have r: "thread_unblock (k\<lparr>konts := (konts k)(cur k := qs)\<rparr>) t = Some k'"
      using run K_unblock_new by (simp add: k0_def)
    note U = unblock_new_sync [OF assms(1,2) kc r]
    have "effect (cur k) k k'"
      by (rule effect.stack [where ks = qs]) (use kc in \<open>simp_all add: U(2-4)\<close>)
    then show ?thesis using U(1) by blast
  next
    case (K_create_yield p)
    have i0: "sync_inv i k0" using inv0 K_create_yield by simp
    have "sync_inv i k' \<and> keeps k0 k'"
      using run K_create_yield yield_inv [OF i0, of k'] i0 sync_invD(10) [OF i0]
      by (auto simp: create_yield_def thread_get_priority_def split: if_splits)
    then show ?thesis using K_create_yield by (intro keep) simp_all
  next
    case (K_idle_start s)
    then show ?thesis using own by (simp add: own_sema_def)
  next
    case K_idle
    then show ?thesis using own by (simp add: own_sema_def)
  qed
qed

text \<open>The idle thread runs its own sections only.\<close>

lemma run_idle_step:
  assumes "sync_inv i k" "cur k = i" "konts k i = q # qs"
    "run_kont g q (k\<lparr>konts := (konts k)(i := qs)\<rparr>) = Some k'"
  shows "sync_inv i k' \<and> effect i k k'"
proof -
  note D = sync_invD [OF assms(1)]
  consider "konts k i = [K_idle_start IDLE_STARTED]" | "konts k i = [K_idle]" "idle_thread k = Some i"
    | "konts k i = [K_yield_check, K_idle]" "idle_thread k = Some i"
    using D(6) by (auto simp: konts_ok_def)
  then show ?thesis
  proof cases
    case 1
    then have q: "q = K_idle_start IDLE_STARTED" "qs = []" using assms(3) by simp_all
    have r: "idle_start IDLE_STARTED (k\<lparr>konts := (konts k)(i := [])\<rparr>) = Some k'" using assms(4) q by simp
    obtain k1 k2 where k: "k1 = k\<lparr>idle_thread := Some i, konts := (konts k)(i := [K_idle])\<rparr>" "sync_inv i k1"
      "sema_up_wake IDLE_STARTED k1 = Some k2" "k' = push i [K_yield_check] k2" "sync_inv i k'"
      by (rule idle_start_sync [OF assms(1,2) 1 r]) blast
    note D1 = sync_invD [OF k(2)]
    obtain ws where ws: "semas k2 = (semas k1)(IDLE_STARTED := (incr (semas k1 IDLE_STARTED))\<lparr>waiters := ws\<rparr>)"
      "holder k2 = holder k1" "konts k2 = konts k1"
      "(waiters (semas k1 IDLE_STARTED) = [] \<and> ws = []) \<or>
        (\<exists>t. t \<noteq> cur k1 \<and> t \<notin> set ws \<and> set (waiters (semas k1 IDLE_STARTED)) = insert t (set ws))"
      by (rule wake_effect [OF D1(1,3) k(3)]) blast
    have "effect i k k'"
      by (rule effect.up [where ks = "[K_yield_check, K_idle]" and s = IDLE_STARTED and ws = ws])
         (use ws(4) 1 assms(2) in \<open>simp_all add: k(1,4) ws(1-3) IDLE_STARTED_def\<close>)
    then show ?thesis using k(5) by blast
  next
    case 2
    then have "idle (k\<lparr>konts := (konts k)(i := [])\<rparr>) = Some k'" using assms(3,4) by simp
    from idle_sync [OF assms(1,2) 2(1) this] show ?thesis using keeps_effect by blast
  next
    case 3
    then have q: "q = K_yield_check" "qs = [K_idle]" using assms(3) by simp_all
    let ?k = "k\<lparr>konts := (konts k)(i := [K_idle])\<rparr>"
    have inv: "sync_inv i ?k" using assms(1,2) 3(2) by (intro idle_stack_inv) simp_all
    have "yield_to_higher ?k = Some k'"
      using assms(4) q sync_invD(10) [OF inv] by (simp add: yield_check_def)
    then have K: "sync_inv i k' \<and> keeps ?k k'" using inv by (rule yield_to_higher_sync [rotated])
    have "effect i k k'"
      by (rule keeps_stack_effect [of k i "[K_idle]"]) (use K 3 in simp_all)
    then show ?thesis using K by blast
  qed
qed

lemma call_step:
  assumes "sync_inv i k" "enabled (Call g c) k" "run_call g c k = Some k'"
  shows "sync_inv i k' \<and> effect (cur k) k k'"
proof -
  have empty: "konts k (cur k) = []" using assms(2) by simp
  have ne: "cur k \<noteq> i" using sync_invD(6) [OF assms(1)] empty by (auto simp: konts_ok_def)
  have nw: "waits_on (konts k (cur k)) = None" by (simp add: empty)
  have pushed: "effect (cur k) k k'"
    if "konts k' = (konts k)(cur k := ps @ konts k (cur k))" "semas k' = semas k" "holder k' = holder k"
      "\<And>l. tok l ps = 0" for ps
    by (rule effect.stack [OF that(1-3) _ nw]) (simp add: that(4) empty)
  have idem: "k\<lparr>konts := (konts k)(cur k := [])\<rparr> = k" by (cases k) (use empty in \<open>simp add: fun_upd_idem\<close>)
  show ?thesis
  proof (cases c)
    case (C_sema_down n)
    then have k': "k' = push (cur k) [K_sema_down (Sema n)] k" using assms(3) by simp
    have "sync_inv i k'" unfolding k' using assms(1) ne by (intro push_inv) (simp_all add: own_sema_def)
    moreover have "effect (cur k) k k'" by (rule pushed [of "[K_sema_down (Sema n)]"]) (simp_all add: k')
    ultimately show ?thesis ..
  next
    case (C_sema_try_down n)
    show ?thesis
    proof (cases "0 < sema_value (semas k (Sema n))")
      case True
      then have k': "k' = set_sema (Sema n) (decr (semas k (Sema n))) k"
        using assms(3) C_sema_try_down by (simp add: sema_try_down_def Let_def decr_def)
      have "sync_inv i k'" unfolding k' by (subst set_sema_value_inv) (simp_all add: assms(1))
      moreover have "effect (cur k) k k'"
        by (rule effect.try_down [where s = "Sema n"]) (use True nw in \<open>simp_all add: k'\<close>)
      ultimately show ?thesis ..
    next
      case False
      then have "k' = k" using assms(3) C_sema_try_down by (simp add: sema_try_down_def Let_def)
      then show ?thesis using assms(1) keeps_effect [of k k'] by simp
    qed
  next
    case (C_sema_up n)
    then have r: "sema_up (Sema n) k = Some k'" using assms(3) by simp
    show ?thesis
      using sema_up_step [OF assms(1) ne r, of k "[]"] idem empty by simp
  next
    case (C_lock_acquire l)
    then have r: "lock_acquire l k = Some k'" using assms(3) by simp
    note A = lock_acquire_sync [OF assms(1) ne r]
    have "effect (cur k) k k'"
      by (rule pushed [of "if \<not> thread_mlfqs k \<and> holder k l \<noteq> None
            then [K_lock_donate l, K_lock_down l] else [K_lock_down l]"]) (simp_all add: A(3))
    then show ?thesis using A(1) by blast
  next
    case (C_lock_try_acquire l)
    then obtain b where r: "lock_try_acquire l k = Some (b, k')" using assms(3) by auto
    note T = lock_try_acquire_sync [OF assms(1) r]
    show ?thesis
    proof (cases b)
      case True
      have "effect (cur k) k k'"
        by (rule effect.try_down [where s = "Lock_sema l"]) (use T(2) True nw in \<open>simp_all add: T(3) decr_def\<close>)
      then show ?thesis using T(1) by blast
    next
      case False
      then show ?thesis using assms(1) T(3) keeps_effect [of k k'] by simp
    qed
  next
    case (C_lock_release l)
    then have r: "lock_release l k = Some k'" using assms(3) by simp
    note R = lock_release_sync [OF assms(1) ne r]
    have "effect (cur k) k k'"
      by (rule effect.release [where ks = "[K_sema_up (Lock_sema l)]" and l = l])
         (use R(2) empty in \<open>simp_all add: R(3-5)\<close>)
    then show ?thesis using R(1) by blast
  next
    case (C_cond_wait cv l)
    then have r: "cond_wait cv l k = Some k'" using assms(3) by simp
    note W = cond_wait_sync [OF assms(1) ne r]
    have "effect (cur k) k k'"
      by (rule effect.waiter [OF W(3,4,5) _ nw]) (simp add: empty)
    then show ?thesis using W(1) by blast
  next
    case (C_cond_signal cv l)
    then have r: "cond_signal g cv l k = Some k'" using assms(3) by simp
    obtain ps where ps: "sync_inv i k'" "konts k' = (konts k)(cur k := ps @ konts k (cur k))"
      "ps = [] \<or> (\<exists>w. ps = [K_sema_up (Waiter_sema w)])" "semas k' = semas k" "holder k' = holder k"
      by (rule cond_signal_sync [OF assms(1) ne r]) blast
    have "effect (cur k) k k'" by (rule pushed [OF ps(2,4,5)]) (use ps(3) in auto)
    then show ?thesis using ps(1) by blast
  next
    case (C_cond_broadcast cv l)
    then have r: "cond_broadcast g cv l k = Some k'" using assms(3) by simp
    obtain ps where ps: "sync_inv i k'" "konts k' = (konts k)(cur k := ps @ konts k (cur k))"
      "list_all (\<lambda>q. q = K_cond_broadcast cv l \<or> (\<exists>w. q = K_sema_up (Waiter_sema w))) ps"
      "semas k' = semas k" "holder k' = holder k"
      by (rule cond_broadcast_sync [OF assms(1) ne r]) blast
    have "effect (cur k) k k'" by (rule pushed [OF ps(2,4,5)]) (rule tok_no_lock [OF ps(3)])
    then show ?thesis using ps(1) by blast
  next
    case (C_thread_create page nm p)
    show ?thesis
    proof (cases page)
      case None
      then have "k' = k" using assms(3) C_thread_create by (simp add: thread_create_def)
      then show ?thesis using assms(1) keeps_effect [of k k'] by simp
    next
      case (Some t)
      then have "\<not> is_thread k t" "thread_create (Some t) nm p [] k = Some k'"
        using assms(2,3) C_thread_create by simp_all
      note C = thread_create_sync [OF assms(1) ne this]
      have "effect (cur k) k k'" by (rule pushed [OF C(5,2,3)]) simp
      then show ?thesis using C(1) by blast
    qed
  next
    case (C_thread_set_priority p)
    then show ?thesis using assms(1,3) set_priority_sync [of i k p k'] keeps_effect [of k k'] by simp
  next
    case (C_thread_set_nice n)
    then show ?thesis using assms(1,3) set_nice_sync [of i k n k'] keeps_effect [of k k'] by simp
  next
    case C_thread_yield
    then show ?thesis using assms(1,3) yield_inv [of i k k'] keeps_effect [of k k'] by simp
  next
    case (C_timer_sleep n)
    show ?thesis
    proof (cases "n \<le> 0")
      case True
      then have "k' = k" using assms(3) C_timer_sleep by (simp add: timer_sleep_def)
      then show ?thesis using assms(1) keeps_effect [of k k'] by simp
    next
      case False
      then have k': "k' = push (cur k) [K_thread_sleep (ticks k + n)] k"
        using assms(3) C_timer_sleep by (simp add: timer_sleep_def)
      have "sync_inv i k'" unfolding k' using assms(1) ne by (intro push_inv) (simp_all add: own_sema_def)
      moreover have "effect (cur k) k k'"
        by (rule pushed [of "[K_thread_sleep (ticks k + n)]"]) (simp_all add: k')
      ultimately show ?thesis ..
    qed
  next
    case C_thread_exit
    then have "thread_exit k = Some k'" using assms(3) by simp
    note X = thread_exit_sync [OF assms(1) empty this]
    show ?thesis using X(1) effect.same [OF X(4,2,3)] by blast
  qed
qed

lemma exec_step:
  assumes "sync_inv i k" "enabled e k" "exec e k = Some k'"
  shows "sync_inv i k' \<and> effect (cur k) k k'"
proof (cases e)
  case (Run g)
  then obtain q qs where q: "konts k (cur k) = q # qs" using assms(2) by (cases "konts k (cur k)") auto
  then have r: "run_kont g q (k\<lparr>konts := (konts k)(cur k := qs)\<rparr>) = Some k'" using assms(3) Run by simp
  show ?thesis
  proof (cases "cur k = i")
    case True
    then show ?thesis using run_idle_step [OF assms(1) True _ r [unfolded True]] q by simp
  next
    case False
    then show ?thesis using run_kont_step [OF assms(1) False q r] by simp
  qed
next
  case (Call g c)
  have "enabled (Call g c) k" using assms(2) Call by (simp only:)
  moreover have "run_call g c k = Some k'" using assms(3) Call by (simp only: exec.simps)
  ultimately show ?thesis by (rule call_step [OF assms(1)])
next
  case Tick
  then show ?thesis using tick_sync [OF assms(1)] assms(3) keeps_effect by simp
next
  case (Irq n)
  note D = sync_invD [OF assms(1)]
  have r: "external_interrupt (sema_up (Sema n)) k = Some k'" using assms(3) Irq by simp
  obtain k1 k2 where k: "k1 = k\<lparr>in_external_intr := True, yield_on_return := False\<rparr>"
    "sema_up_wake (Sema n) k1 = Some k2" "k' = k2\<lparr>in_external_intr := False\<rparr>" "sync_inv i k'"
    by (rule irq_sync [OF assms(1) r]) blast
  have k1: "sched_inv k1" "waiters_ok k1" "cur k1 = cur k" "semas k1 = semas k" "holder k1 = holder k" "konts k1 = konts k"
    using D(1,3) by (simp_all add: k(1))
  obtain ws where ws: "semas k2 = (semas k1)(Sema n := (incr (semas k1 (Sema n)))\<lparr>waiters := ws\<rparr>)"
      "holder k2 = holder k1" "konts k2 = konts k1"
      "(waiters (semas k1 (Sema n)) = [] \<and> ws = []) \<or>
        (\<exists>t. t \<noteq> cur k1 \<and> t \<notin> set ws \<and> set (waiters (semas k1 (Sema n))) = insert t (set ws))"
    by (rule wake_effect [OF k1(1,2) k(2)]) blast
  have "effect (cur k) k k'"
    by (rule effect.up [where ks = "konts k (cur k)" and s = "Sema n" and ws = ws])
       (use ws(4) in \<open>simp_all add: k(3) ws(1-3) k1(3-6)\<close>)
  then show ?thesis using k(4) by blast
qed

section \<open>Tokens\<close>

definition busy :: "sys \<Rightarrow> tptr set" where
  "busy k = {t. konts k t \<noteq> []}"

lemma finite_busy: "sync_inv i k \<Longrightarrow> finite (busy k)"
  by (rule finite_subset [of _ "set (all_list k)"])
     (auto simp: busy_def sync_inv_def konts_ok_def)

definition tokens :: "nat \<Rightarrow> sys \<Rightarrow> nat" where
  "tokens l k = sema_value (semas k (Lock_sema l)) + (if holder k l = None then 0 else 1) +
     (\<Sum>t\<in>busy k. tok l (konts k t))"

lemma sum_busy:
  assumes "finite A" "busy k \<subseteq> A"
  shows "(\<Sum>t\<in>busy k. tok l (konts k t)) = (\<Sum>t\<in>A. tok l (konts k t))"
  by (rule sum.mono_neutral_left [OF assms]) (auto simp: busy_def)

text \<open>Replacing one stack changes the sum by the difference of the two stacks.\<close>

lemma tok_sum_upd:
  assumes "finite (busy k)" "finite (busy k')" "konts k' = (konts k)(c := ks)"
  shows "(\<Sum>t\<in>busy k'. tok l (konts k' t)) + tok l (konts k c) = (\<Sum>t\<in>busy k. tok l (konts k t)) + tok l ks"
proof -
  let ?A = "insert c (busy k \<union> busy k')"
  have fin: "finite ?A" using assms(1,2) by simp
  have "(\<Sum>t\<in>?A. tok l (konts k' t)) = tok l ks + (\<Sum>t\<in>?A - {c}. tok l (konts k t))"
    using sum.remove [OF fin, of c "\<lambda>t. tok l (konts k' t)"] by (simp add: assms(3))
  moreover have "(\<Sum>t\<in>?A. tok l (konts k t)) = tok l (konts k c) + (\<Sum>t\<in>?A - {c}. tok l (konts k t))"
    using sum.remove [OF fin, of c "\<lambda>t. tok l (konts k t)"] by simp
  moreover have "busy k \<subseteq> ?A" "busy k' \<subseteq> ?A" by auto
  ultimately show ?thesis
    using sum_busy [OF fin, of k l] sum_busy [OF fin, of k' l] by linarith
qed

lemma tok_le_sum:
  assumes "finite (busy k)"
  shows "tok l (konts k c) \<le> (\<Sum>t\<in>busy k. tok l (konts k t))"
proof (cases "c \<in> busy k")
  case True
  then show ?thesis using member_le_sum [of c "busy k" "\<lambda>t. tok l (konts k t)"] assms by simp
qed (simp add: busy_def)

lemma effect_tokens:
  assumes "effect c k k'" "finite (busy k)" "finite (busy k')" "tokens l k = 1"
  shows "tokens l k' = 1"
  using assms(1)
proof cases
  case same
  then show ?thesis using assms(4) by (simp add: tokens_def busy_def)
next
  case (stack ks)
  then show ?thesis using assms(4) tok_sum_upd [OF assms(2,3) stack(1), of l] by (simp add: tokens_def)
next
  case (pass ks s)
  then show ?thesis
    using assms(4) tok_sum_upd [OF assms(2,3) pass(1), of l] by (auto simp: tokens_def split: if_splits)
next
  case (block s ws)
  have "sema_value (semas k' u) = sema_value (semas k u)" for u by (simp add: block(2))
  then show ?thesis using assms(4) block(1,3) by (simp add: tokens_def busy_def)
next
  case (up ks s ws)
  show ?thesis
  proof (cases "s = Lock_sema l")
    case True
    then have t: "tok l ks + 1 = tok l (konts k c)" using up(5) [of l] by simp
    then have "1 \<le> (\<Sum>t\<in>busy k. tok l (konts k t))" using tok_le_sum [OF assms(2), of l c] by linarith
    then have "sema_value (semas k s) = 0" using assms(4) True by (simp add: tokens_def)
    then show ?thesis
      using assms(4) tok_sum_upd [OF assms(2,3) up(1), of l] t True up(2,3) by (simp add: tokens_def)
  next
    case False
    then show ?thesis
      using assms(4) tok_sum_upd [OF assms(2,3) up(1), of l] up(2,3) up(5) [of l] by (simp add: tokens_def)
  qed
next
  case (own ks m)
  show ?thesis
  proof (cases "m = l")
    case True
    then have t: "tok l (konts k c) = tok l ks + 1" using own(4) by simp
    then have "1 \<le> (\<Sum>t\<in>busy k. tok l (konts k t))" using tok_le_sum [OF assms(2), of l c] by linarith
    then have "holder k l = None" using assms(4) by (simp add: tokens_def split: if_splits)
    then show ?thesis
      using assms(4) tok_sum_upd [OF assms(2,3) own(1), of l] t True own(2,3) by (simp add: tokens_def)
  next
    case False
    then show ?thesis
      using assms(4) tok_sum_upd [OF assms(2,3) own(1), of l] own(2-4) by (simp add: tokens_def)
  qed
next
  case (release ks m)
  show ?thesis
  proof (cases "m = l")
    case True
    then show ?thesis
      using assms(4) tok_sum_upd [OF assms(2,3) release(1), of l] release(2-4) release(5) [of l]
      by (simp add: tokens_def)
  next
    case False
    then show ?thesis
      using assms(4) tok_sum_upd [OF assms(2,3) release(1), of l] release(2,3) release(5) [of l]
      by (simp add: tokens_def)
  qed
next
  case (try_down s)
  show ?thesis
  proof (cases "s = Lock_sema l")
    case True
    then have "holder k l = None" using assms(4) try_down(3) by (simp add: tokens_def split: if_splits)
    then show ?thesis using assms(4) True try_down(1-4) by (simp add: tokens_def busy_def)
  next
    case False
    then have "holder k' l = holder k l" using try_down(4) by (cases s) auto
    then show ?thesis using assms(4) False try_down(1,2) by (simp add: tokens_def busy_def)
  qed
next
  case (waiter ks)
  then show ?thesis using assms(4) tok_sum_upd [OF assms(2,3) waiter(1), of l] by (simp add: tokens_def)
qed

section \<open>Wake-ups\<close>

text \<open>The threads that will test semaphore \<open>s\<close> when they run next and are not queued on it.\<close>

definition pending :: "sema_ref \<Rightarrow> sys \<Rightarrow> tptr set" where
  "pending s k = {t. waits_on (konts k t) = Some s \<and> t \<notin> set (waiters (semas k s))}"

definition wakeups_ok :: "sema_ref \<Rightarrow> sys \<Rightarrow> bool" where
  "wakeups_ok s k \<longleftrightarrow> (waiters (semas k s) \<noteq> [] \<longrightarrow> sema_value (semas k s) \<le> card (pending s k))"

lemma finite_pending: "finite (busy k) \<Longrightarrow> finite (pending s k)"
  by (erule rev_finite_subset) (auto simp: pending_def busy_def)

lemma wakeups_grow:
  assumes "wakeups_ok s k" "waiters (semas k' s) = waiters (semas k s)"
    "sema_value (semas k' s) \<le> sema_value (semas k s)" "pending s k \<subseteq> pending s k'" "finite (pending s k')"
  shows "wakeups_ok s k'"
  using assms(1-3) card_mono [OF assms(5,4)] unfolding wakeups_ok_def by auto

lemma pending_upd:
  assumes "konts k' = (konts k)(c := ks)" "waiters (semas k' s) = waiters (semas k s)"
    "waits_on (konts k c) \<noteq> Some s"
  shows "pending s k \<subseteq> pending s k'"
  using assms by (auto simp: pending_def split: if_splits)

lemma effect_wakeups:
  assumes "effect c k k'" "finite (busy k)" "finite (busy k')" "waiters_ok k"
    "c \<notin> set (waiters (semas k s))" "wakeups_ok s k"
  shows "wakeups_ok s k'"
proof -
  note fin = finite_pending [OF assms(3), of s] and fin0 = finite_pending [OF assms(2), of s]
  note grow = wakeups_grow [OF assms(6) _ _ _ fin]
  show ?thesis
    using assms(1)
  proof cases
    case same
    then show ?thesis using assms(6) by (simp add: wakeups_ok_def pending_def)
  next
    case (stack ks)
    then show ?thesis by (intro grow pending_upd [OF stack(1)]) simp_all
  next
    case (pass ks s')
    show ?thesis
    proof (cases "s' = s")
      case True
      have "pending s k - {c} \<subseteq> pending s k'" using pass(1,2) True by (auto simp: pending_def)
      then have "card (pending s k - {c}) \<le> card (pending s k')" by (rule card_mono [OF fin])
      moreover have "c \<in> pending s k" using pass(4) True assms(5) by (simp add: pending_def)
      ultimately have "card (pending s k) - 1 \<le> card (pending s k')" using fin0 by simp
      then show ?thesis using assms(6) pass(2) True by (auto simp: wakeups_ok_def)
    next
      case False
      then show ?thesis using pass(2,4) by (intro grow pending_upd [OF pass(1)]) simp_all
    qed
  next
    case (block s' ws)
    show ?thesis
    proof (cases "s' = s")
      case True
      then show ?thesis using block(2,4) by (simp add: wakeups_ok_def)
    next
      case False
      then show ?thesis using assms(6) block(1,2) by (simp add: wakeups_ok_def pending_def)
    qed
  next
    case (up ks s' ws)
    show ?thesis
    proof (cases "s' = s")
      case False
      then have "pending s k \<subseteq> pending s k'" using up(1,2,4) by (auto simp: pending_def split: if_splits)
      then show ?thesis using up(2) False by (intro grow) simp_all
    next
      case True
      show ?thesis
      proof (cases "ws = []")
        case True
        then show ?thesis using \<open>s' = s\<close> up(2) by (simp add: wakeups_ok_def)
      next
        case False
        then obtain t where t: "t \<noteq> c" "t \<notin> set ws" "set (waiters (semas k s)) = insert t (set ws)"
          using up(6) True by auto
        have wt: "waits_on (konts k t) = Some s" using assms(4) t(3) by (auto simp: waiters_ok_def)
        have sub: "insert t (pending s k) \<subseteq> pending s k'"
        proof
          fix u assume "u \<in> insert t (pending s k)"
          then have w: "waits_on (konts k u) = Some s" and out: "u \<notin> set ws"
            using wt t(2,3) by (auto simp: pending_def)
          have "waits_on (konts k' u) = Some s" using w up(1,4) by (cases "u = c") auto
          then show "u \<in> pending s k'" using out up(2) True by (simp add: pending_def)
        qed
        have "t \<notin> pending s k" using t(3) by (simp add: pending_def)
        then have "card (pending s k) + 1 \<le> card (pending s k')"
          using card_mono [OF fin sub] fin0 by simp
        moreover have "sema_value (semas k s) \<le> card (pending s k)"
          using assms(6) t(3) by (auto simp: wakeups_ok_def)
        moreover have "wrap32 (sema_value (semas k s) + 1) \<le> sema_value (semas k s) + 1" by (rule wrap32_le)
        ultimately have "wrap32 (sema_value (semas k s) + 1) \<le> card (pending s k')" by linarith
        then show ?thesis using up(2) True by (simp add: wakeups_ok_def)
      qed
    qed
  next
    case (own ks l)
    then show ?thesis by (intro grow pending_upd [OF own(1)]) simp_all
  next
    case (release ks l)
    then show ?thesis by (intro grow pending_upd [OF release(1)]) simp_all
  next
    case (try_down s')
    have w: "waiters (semas k' u) = waiters (semas k u)" for u using try_down(2) by simp
    have "pending s k \<subseteq> pending s k'" using try_down(1) by (simp add: pending_def w)
    then show ?thesis using try_down(2) by (intro grow) (simp_all add: w)
  next
    case (waiter ks)
    show ?thesis
    proof (cases "s = Waiter_sema c")
      case True
      then show ?thesis using waiter(2) by (simp add: wakeups_ok_def)
    next
      case False
      then show ?thesis using waiter(2,5) by (intro grow pending_upd [OF waiter(1)]) simp_all
    qed
  qed
qed

section \<open>Reachable states\<close>

text \<open>
  The states the machine reaches from the end of \<open>thread_start\<close>'s creation of the idle thread:
  \<open>m\<close> and \<open>i\<close> are the pages of the main and of the idle thread.
\<close>

inductive reachable :: "tptr \<Rightarrow> tptr \<Rightarrow> bool \<Rightarrow> sys \<Rightarrow> bool" for m i mlfqs where
  boot: "Option.bind (thread_init m mlfqs) (thread_start (Some i)) = Some k \<Longrightarrow> reachable m i mlfqs k"
| step: "reachable m i mlfqs k \<Longrightarrow> enabled e k \<Longrightarrow> exec e k = Some k' \<Longrightarrow> reachable m i mlfqs k'"

lemma reachable_run:
  "reachable m i mlfqs k \<Longrightarrow> run es k = Some k' \<Longrightarrow> reachable m i mlfqs k'"
  by (induction es arbitrary: k) (auto simp: bind_eq_Some_conv split: if_splits intro: reachable.step)

text \<open>The state at the end of the creation of the idle thread satisfies all invariants.\<close>

lemmas boot_defs = thread_init_def thread_start_def init_thread_def thread_create_def allocate_tid_def
  sema_init_def set_sema_def push_def upd_def Let_def PRI_MIN_def PRI_MAX_def PRI_DEFAULT_def
  IDLE_STARTED_def no_thread_def

lemma boot_state:
  assumes "Option.bind (thread_init m mlfqs) (thread_start (Some i)) = Some k" "m \<noteq> i"
  shows "sync_inv i k" "tokens l k = 1" "wakeups_ok s k"
proof -
  let ?ks = "[K_lock_acquire TID_LOCK, K_allocate_tid i, K_lock_release TID_LOCK, K_unblock_new i,
      K_create_yield PRI_MIN, K_sema_down IDLE_STARTED]"
  have k: "cur k = m" "ready_list k = []" "all_list k = [m, i]" "sleep_list k = []" "idle_thread k = None"
    "initial_thread k = m" "\<not> in_external_intr k" "holder k = (\<lambda>_. None)"
    using assms by (auto simp: boot_defs)
  have konts: "konts k = (\<lambda>_. [])(m := ?ks, i := [K_idle_start IDLE_STARTED])"
    using assms by (auto simp: boot_defs fun_eq_iff)
  have semas: "waiters (semas k s) = []" "sema_value (semas k (Lock_sema l)) = 1" for s l
    using assms(1) by (cases s; force simp: boot_defs)+
  have thr: "magic (thr k t) = (t = m \<or> t = i)" "status (thr k m) = THREAD_RUNNING"
    "status (thr k i) = THREAD_BLOCKED" for t
    using assms by (cases "t = m"; cases "t = i"; force simp: boot_defs)+
  note k = k konts thr semas
  have "sched_inv k"
    using assms(2) by (auto simp: sched_inv_def lists_ok_def k is_thread_def)
  moreover have parked: "parked k t \<longleftrightarrow> t = i" for t
    using assms(2) k(11,12) by (auto simp: parked_def is_thread_def k)
  have emb: "embryos (konts k t) = (if t = m then [i] else [])" for t
    using assms(2) by (simp add: k(9))
  have "waiters_ok k" by (simp add: waiters_ok_def k)
  moreover have "embryos_ok k" unfolding embryos_ok_def emb parked using assms(2) by (auto simp: k(9))
  moreover have "parked_ok k" unfolding parked_ok_def emb parked by auto
  moreover have "konts_ok i k"
    using assms(2) by (auto simp: konts_ok_def k own_sema_def IDLE_STARTED_def)
  ultimately show "sync_inv i k" using k(7) by (simp add: sync_inv_def)
  have "tok l (konts k t) = 0" for t by (simp add: k(9))
  then show "tokens l k = 1" by (simp add: tokens_def k)
  show "wakeups_ok s k" by (simp add: wakeups_ok_def k)
qed

lemma reachable_inv:
  assumes "reachable m i mlfqs k" "m \<noteq> i"
  shows "sync_inv i k \<and> (\<forall>l. tokens l k = 1) \<and> (\<forall>s. wakeups_ok s k)"
  using assms
proof (induction rule: reachable.induct)
  case (boot k)
  then show ?case using boot_state [OF boot(1)] by blast
next
  case (step k e k')
  then have inv: "sync_inv i k" "\<And>l. tokens l k = 1" "\<And>s. wakeups_ok s k" by blast+
  have E: "sync_inv i k'" "effect (cur k) k k'" using exec_step [OF inv(1) step(2,3)] by blast+
  note fin = finite_busy [OF inv(1)] finite_busy [OF E(1)]
  show ?case
    using E(1) effect_tokens [OF E(2) fin inv(2)]
      effect_wakeups [OF E(2) fin sync_invD(3,8) [OF inv(1)] inv(3)] by blast
qed

end
