(* ===== verification/Thread_Safety.thy ===== *)
theory Thread_Safety
  imports Kernel_Steps
begin

text \<open>
  What the thread system promises in every state it reaches, whatever the interleaving: the
  scheduler's lists, mutual exclusion and stability of lock ownership, the account of blocked
  threads, wake-ups, the order in which waiters are served, priority donation along a chain of
  holders, sleep, and yielding. The sample run is a concrete execution the witnesses use; it ends
  in the race between the two reads of a lock's holder.
\<close>

section \<open>A sample run\<close>

definition go :: event where
  "go = Run (\<lambda>_. 0)"

definition call_of :: "call \<Rightarrow> event" where
  "call_of c = Call (\<lambda>_. 0) c"

definition booted :: "sys option" where
  "booted = Option.bind (thread_init 1 False) (thread_start (Some 2))"

text \<open>The idle thread starts, and the main thread creates a thread of its own priority at page 3.\<close>

definition started :: "event list" where
  "started = replicate 13 go @ call_of (C_thread_create (Some 3) ''worker'' 31) # replicate 9 go"

text \<open>The main thread takes lock 5; and yields; the worker calls \<open>lock_acquire\<close>.\<close>

definition contended :: "event list" where
  "contended = started @ [call_of (C_lock_acquire 5), go, go, call_of C_thread_yield, call_of (C_lock_acquire 5)]"

text \<open>The worker donates its priority and blocks; the main thread runs again.\<close>

definition blocked :: "event list" where
  "blocked = contended @ [go, go, go]"

text \<open>Instead, the worker's time slice ends before it donates, and the main thread releases the lock and yields.\<close>

definition raced :: "event list" where
  "raced = contended @ replicate 4 Tick @ [call_of (C_lock_release 5), go, go, call_of C_thread_yield]"

definition after :: "event list \<Rightarrow> (sys \<Rightarrow> bool) \<Rightarrow> bool" where
  "after es P = (case Option.bind booted (run es) of None \<Rightarrow> False | Some k \<Rightarrow> P k)"

lemma after_reachable:
  assumes "after es P"
  obtains k where "reachable 1 2 False k" "P k"
proof -
  from assms obtain k0 k where "booted = Some k0" "run es k0 = Some k" "P k"
    by (auto simp: after_def bind_eq_Some_conv split: option.splits)
  then show ?thesis using that reachable_run reachable.boot unfolding booted_def by blast
qed

section \<open>Scheduler lists\<close>



section \<open>Locks\<close>

lemma own_tok: "K_lock_own l \<in> set ks \<Longrightarrow> 1 \<le> tok l ks"
  by (induction ks) auto

lemma owners_le_tokens:
  assumes "sync_inv i k"
  shows "card {t. K_lock_own l \<in> set (konts k t)} \<le> (\<Sum>t\<in>busy k. tok l (konts k t))"
proof -
  let ?o = "{t. K_lock_own l \<in> set (konts k t)}"
  have fin: "finite (busy k)" by (rule finite_busy [OF assms])
  have sub: "?o \<subseteq> busy k" by (auto simp: busy_def)
  have "card ?o = (\<Sum>t\<in>?o. 1)" by simp
  also have "\<dots> \<le> (\<Sum>t\<in>?o. tok l (konts k t))" by (rule sum_mono) (use own_tok in auto)
  also have "\<dots> \<le> (\<Sum>t\<in>busy k. tok l (konts k t))" by (rule sum_mono2 [OF fin sub]) simp
  finally show ?thesis .
qed

text \<open>
  C1. Mutual exclusion: in every reachable state a lock is free, or has one holder, or has one
  thread that has passed its semaphore and will become the holder; never two of these at once.
\<close>

theorem lock_mutual_exclusion:
  assumes "reachable m i mlfqs k" "m \<noteq> i"
  shows "sema_value (semas k (Lock_sema l)) + (if holder k l = None then 0 else 1) +
    card {t. K_lock_own l \<in> set (konts k t)} \<le> 1"
proof -
  have "sync_inv i k" "tokens l k = 1" using reachable_inv [OF assms] by blast+
  then show ?thesis using owners_le_tokens [of i k l] unfolding tokens_def by linarith
qed

theorem lock_mutual_exclusion_witness:
  "\<exists>k. reachable 1 2 False k \<and> holder k 5 = Some 1 \<and> waiters (semas k (Lock_sema 5)) = [3] \<and>
     sema_value (semas k (Lock_sema 5)) + 1 + card {t. K_lock_own 5 \<in> set (konts k t)} \<le> 1"
proof -
  have "after blocked (\<lambda>k. holder k 5 = Some 1 \<and> waiters (semas k (Lock_sema 5)) = [3])" by code_simp
  then obtain k where "reachable 1 2 False k" "holder k 5 = Some 1 \<and> waiters (semas k (Lock_sema 5)) = [3]"
    by (rule after_reachable)
  with lock_mutual_exclusion [OF this(1), of 5] show ?thesis by auto
qed

text \<open>
  C4. A lock that is held stays held by the same thread until that thread itself releases it:
  no step of another thread and no interrupt changes the holder.
\<close>

theorem lock_holder_stable:
  assumes "reachable m i mlfqs k" "m \<noteq> i" "enabled e k" "exec e k = Some k'" "holder k l = Some h"
  shows "holder k' l = Some h \<or> holder k' l = None \<and> cur k = h"
proof -
  have inv: "sync_inv i k" "tokens l k = 1" using reachable_inv [OF assms(1,2)] by blast+
  have z: "sema_value (semas k (Lock_sema l)) = 0" "(\<Sum>t\<in>busy k. tok l (konts k t)) = 0"
    using inv(2) assms(5) by (simp_all add: tokens_def)
  have t: "tok l (konts k (cur k)) = 0" using tok_le_sum [OF finite_busy [OF inv(1)], of l "cur k"] z(2) by simp
  have "effect (cur k) k k'" using exec_step [OF inv(1) assms(3,4)] by blast
  then show ?thesis
  proof cases
    case (own ks m)
    then show ?thesis using t assms(5) by (auto split: if_splits)
  next
    case (release ks m)
    then show ?thesis using assms(5) by auto
  next
    case (try_down s)
    then show ?thesis using z(1) assms(5) by (auto split: sema_ref.splits)
  qed (use assms(5) in simp_all)
qed

theorem lock_holder_stable_witness:
  "\<exists>k k'. reachable 1 2 False k \<and> cur k = 3 \<and> holder k 5 = Some 1 \<and> exec go k = Some k' \<and> holder k' 5 = Some 1"
proof -
  have "after contended (\<lambda>k. holder k 5 = Some 1 \<and> cur k = 3 \<and> enabled go k \<and> \<not> Option.is_none (exec go k))"
    by code_simp
  then obtain k where k: "reachable 1 2 False k"
    "holder k 5 = Some 1 \<and> cur k = 3 \<and> enabled go k \<and> \<not> Option.is_none (exec go k)"
    by (rule after_reachable)
  then obtain k' where k': "exec go k = Some k'" by (auto simp: Option.is_none_def)
  have "holder k' 5 = Some 1 \<or> holder k' 5 = None \<and> cur k = 1"
    by (rule lock_holder_stable [OF k(1) _ _ k']) (use k(2) in simp_all)
  then show ?thesis using k k' by auto
qed

text \<open>
  C36. The two reads of a lock's holder in \<open>lock_acquire\<close> are not atomic: there is a reachable state
  in which the thread that has seen a holder reads it again after the release, and stops the kernel
  by following the null pointer.
\<close>

theorem lock_acquire_race:
  "\<exists>k. reachable 1 2 False k \<and> konts k (cur k) = [K_lock_donate 5, K_lock_down 5] \<and> holder k 5 = None \<and>
     enabled go k \<and> exec go k = None"
proof -
  have "after raced (\<lambda>k. konts k (cur k) = [K_lock_donate 5, K_lock_down 5] \<and> holder k 5 = None \<and>
      enabled go k \<and> Option.is_none (exec go k))"
    by code_simp
  then show ?thesis by (rule after_reachable) (auto simp: Option.is_none_def)
qed

section \<open>Blocked threads and wake-ups\<close>



text \<open>
  C7. No wake-up is lost: in every reachable state in which a semaphore has both units and waiters,
  at least as many threads as there are units are about to test the semaphore, and none of them is
  blocked on it or on another one.
\<close>

theorem no_lost_wakeup:
  assumes "reachable m i mlfqs k" "m \<noteq> i" "waiters (semas k s) \<noteq> []"
  shows "sema_value (semas k s) \<le> card {t. waits_on (konts k t) = Some s \<and> \<not> parked k t}"
proof -
  have inv: "sync_inv i k" "wakeups_ok s k" using reachable_inv [OF assms(1,2)] by blast+
  note D = sync_invD [OF inv(1)]
  have "pending s k \<subseteq> {t. waits_on (konts k t) = Some s \<and> \<not> parked k t}"
    using D(3-5) by (force simp: pending_def parked_ok_def waiters_ok_def embryos_ok_def)
  moreover have "finite {t. waits_on (konts k t) = Some s \<and> \<not> parked k t}"
    by (rule finite_subset [OF _ finite_busy [OF inv(1)]]) (auto simp: busy_def)
  ultimately have "card (pending s k) \<le> card {t. waits_on (konts k t) = Some s \<and> \<not> parked k t}"
    by (rule card_mono [rotated])
  then show ?thesis using inv(2) assms(3) by (simp add: wakeups_ok_def)
qed

text \<open>Two threads wait on semaphore 7, then the main thread raises it once.\<close>

definition woken :: "event list" where
  "woken = started @ [call_of (C_thread_create (Some 4) ''second'' 40)] @ replicate 9 go @
     [call_of (C_sema_down 7), go, call_of (C_sema_down 7), go, call_of (C_sema_up 7)]"

theorem no_lost_wakeup_witness:
  "\<exists>k. reachable 1 2 False k \<and> waiters (semas k (Sema 7)) = [3] \<and> sema_value (semas k (Sema 7)) = 1 \<and>
     1 \<le> card {t. waits_on (konts k t) = Some (Sema 7) \<and> \<not> parked k t}"
proof -
  have "after woken (\<lambda>k. waiters (semas k (Sema 7)) = [3] \<and> sema_value (semas k (Sema 7)) = 1)" by code_simp
  then obtain k where k: "reachable 1 2 False k" "waiters (semas k (Sema 7)) = [3] \<and> sema_value (semas k (Sema 7)) = 1"
    by (rule after_reachable)
  with no_lost_wakeup [OF k(1), of "Sema 7"] show ?thesis by auto
qed

section \<open>Order of service\<close>

lemma sort_key_first:
  "sort_key f xs = t # ts \<Longrightarrow> \<exists>us vs. xs = us @ t # vs \<and> (\<forall>u\<in>set us. f t < f u) \<and> (\<forall>v\<in>set vs. f t \<le> f v)"
proof (induction xs arbitrary: t ts)
  case (Cons x xs)
  show ?case
  proof (cases "sort_key f xs")
    case Nil
    then have "xs = []" by (metis length_0_conv length_sort)
    then show ?thesis using Cons.prems by (intro exI [of _ "[]"]) auto
  next
    case (Cons t' ts')
    then obtain us vs where xs: "xs = us @ t' # vs" "\<forall>u\<in>set us. f t' < f u" "\<forall>v\<in>set vs. f t' \<le> f v"
      using Cons.IH by blast
    show ?thesis
    proof (cases "f x \<le> f t'")
      case True
      then have "t = x" using Cons.prems Cons by simp
      moreover have "\<forall>v\<in>set xs. f x \<le> f v" using xs True by force
      ultimately show ?thesis by (intro exI [of _ "[]"] exI [of _ xs]) simp
    next
      case False
      then have "t = t'" using Cons.prems Cons by simp
      then show ?thesis using xs False by (intro exI [of _ "x # us"] exI [of _ vs]) auto
    qed
  qed
qed simp

lemma sema_up_wake_total:
  assumes "sched_inv k" "waiters_ok k"
  shows "\<exists>k'. sema_up_wake s k = Some k'"
proof (cases "waiters (semas k s) = []")
  case True
  then show ?thesis by (simp add: sema_up_wake_def)
next
  case False
  define ws where "ws = sort_key (neg_prio k) (waiters (semas k s))"
  have "ws \<noteq> []" using False by (metis ws_def length_0_conv length_sort)
  then have "hd ws \<in> set (waiters (semas k s))" using hd_in_set set_sort unfolding ws_def by metis
  then have t: "parked k (hd ws)" using assms(2) by (simp add: waiters_ok_def)
  let ?k = "set_sema s ((semas k s)\<lparr>waiters := tl ws\<rparr>) k"
  obtain k' where "thread_unblock ?k (hd ws) = Some k'"
    by (rule thread_unblock_inv [of ?k "hd ws"]) (use t assms(1) in \<open>simp_all add: parked_def\<close>)
  then show ?thesis using False by (simp add: sema_up_wake_def ws_def)
qed



section \<open>Priority donation\<close>

text \<open>\<open>wait_chain k t hs\<close>: \<open>hs\<close> are the holders reached from \<open>t\<close> by following \<open>waiting_lock\<close>, to the end.\<close>

fun wait_chain :: "sys \<Rightarrow> tptr \<Rightarrow> tptr list \<Rightarrow> bool" where
  "wait_chain k t [] \<longleftrightarrow> (case waiting_lock (thr k t) of None \<Rightarrow> True | Some l \<Rightarrow> holder k l = None)"
| "wait_chain k t (h # hs) \<longleftrightarrow> (case waiting_lock (thr k t) of None \<Rightarrow> False
     | Some l \<Rightarrow> holder k l = Some h \<and> wait_chain k h hs)"

lemma wait_chain_cong:
  "(\<And>u. waiting_lock (thr k' u) = waiting_lock (thr k u)) \<Longrightarrow> holder k' = holder k \<Longrightarrow>
   wait_chain k' t hs = wait_chain k t hs"
  by (induction hs arbitrary: t) (simp_all split: option.splits)

lemma requeue_ready_total:
  "sched_inv k \<Longrightarrow> is_thread k h \<Longrightarrow> Some h \<noteq> idle_thread k \<Longrightarrow>
   \<exists>k'. requeue_ready h (upd k h (priority_update f)) = Some k'"
  using lists_okD(2) [OF sched_invD(1), of k h] by (simp add: requeue_ready_def)

lemma donate_loop_chain:
  assumes "sched_inv k" "wait_chain k t hs" "distinct hs"
    "\<forall>h\<in>set hs. is_thread k h \<and> Some h \<noteq> idle_thread k \<and> priority (thr k h) < priority (thr k t)"
  shows "\<exists>k'. donate_loop n t k = Some k' \<and> sched_inv k' \<and> (\<forall>u. priority (thr k' u) =
     (if u \<in> set (take n hs) then priority (thr k t) else priority (thr k u)))"
  using assms
proof (induction n arbitrary: t hs k)
  case (Suc n)
  show ?case
  proof (cases hs)
    case Nil
    then show ?thesis using Suc.prems(1,2) by (auto split: option.splits)
  next
    case (Cons h hs')
    then obtain l where l: "waiting_lock (thr k t) = Some l" "holder k l = Some h" "wait_chain k h hs'"
      using Suc.prems(2) by (auto split: option.splits)
    have h: "is_thread k h" "Some h \<noteq> idle_thread k" "priority (thr k h) < priority (thr k t)" "h \<notin> set hs'"
      "distinct hs'"
      using Suc.prems(3,4) Cons by simp_all
    define k1 where "k1 = upd k h (priority_update (\<lambda>_. priority (thr k t)))"
    obtain k2 where k2: "requeue_ready h k1 = Some k2"
      using requeue_ready_total [OF Suc.prems(1) h(1,2)] k1_def by blast
    have r: "raised k k2" and thr: "thr k2 = thr k1" using donate_once [OF Suc.prems(1) h(3) k1_def k2] by blast+
    have p: "kernel.more k2 = kernel.more k" "idle_thread k2 = idle_thread k" "\<And>u. is_thread k2 u = is_thread k u"
      "\<And>u. waiting_lock (thr k2 u) = waiting_lock (thr k u)" "sched_inv k2"
      using r by (simp_all add: raised_def keeps_def preserves_def)
    have prio: "priority (thr k2 u) = (if u = h then priority (thr k t) else priority (thr k u))" for u
      by (simp add: thr k1_def)
    have "wait_chain k2 h hs'" using l(3) wait_chain_cong [of k2 k h hs'] p(4) more_sys(2) [OF p(1)] by simp
    moreover have "\<forall>u\<in>set hs'. is_thread k2 u \<and> Some u \<noteq> idle_thread k2 \<and> priority (thr k2 u) < priority (thr k2 h)"
      using Suc.prems(4) Cons h(4) by (auto simp: p(2,3) prio)
    ultimately obtain k' where k': "donate_loop n h k2 = Some k'" "sched_inv k'"
      "\<forall>u. priority (thr k' u) = (if u \<in> set (take n hs') then priority (thr k2 h) else priority (thr k2 u))"
      using Suc.IH [OF p(5) _ h(5)] by blast
    have "donate_loop (Suc n) t k = Some k'" using l h(1,3) k2 k'(1) by (simp add: k1_def)
    then show ?thesis using k'(2,3) by (auto simp: prio Cons)
  qed
qed simp


text \<open>The main thread holds lock 5 and creates a thread of priority 50 that asks for it.\<close>

definition donating :: "event list" where
  "donating = replicate 13 go @ [call_of (C_lock_acquire 5), go, go,
     call_of (C_thread_create (Some 3) ''urgent'' 50)] @ replicate 9 go @ [call_of (C_lock_acquire 5), go]"


section \<open>Sleep and yield\<close>


text \<open>The main thread sleeps for two ticks; one has passed.\<close>

definition sleeping :: "event list" where
  "sleeping = replicate 13 go @ [call_of (C_timer_sleep 2), go, Tick]"


lemma hd_insert_ordered:
  "hd (insert_ordered lt x ys) = (case ys of [] \<Rightarrow> x | y # _ \<Rightarrow> if lt x y then x else y)"
  by (cases ys) simp_all



end
