(* ===== verification/C_Strings.thy ===== *)
theory C_Strings
  imports Pintos_Prelude
begin

text \<open>
  \<^verbatim>\<open>lib/string.c\<close>. Memory is the list of the bytes at addresses from 0 on; an access at or beyond
  its end stops the kernel, so a string function that runs past the last terminator has no
  result. The parameter \<open>size\<close> is named \<open>cnt\<close>. A pointer is an address and \<open>NULL\<close> is 0. A loop that walks a string is a recursion on
  the bytes from the pointer on, a loop that counts down \<open>size\<close> is a recursion on \<open>size\<close>.
  \<open>char\<close> arguments of type \<open>int\<close> are integers that the code truncates to a byte.
\<close>

section \<open>Memory\<close>

type_synonym bytes = "u8 list"

definition rd :: "bytes \<Rightarrow> nat \<Rightarrow> u8 option" where
  "rd m p = (if p < length m then Some (m ! p) else None)"

definition wr :: "bytes \<Rightarrow> nat \<Rightarrow> u8 \<Rightarrow> bytes option" where
  "wr m p b = (if p < length m then Some (m[p := b]) else None)"

section \<open>Blocks\<close>

primrec copy_up :: "nat \<Rightarrow> bytes \<Rightarrow> nat \<Rightarrow> nat \<Rightarrow> (nat \<times> bytes) option" where
  "copy_up 0 m dst src = Some (dst, m)"
| "copy_up (Suc n) m dst src = do {
     b \<leftarrow> rd m src;
     m \<leftarrow> wr m dst b;
     copy_up n m (dst + 1) (src + 1) }"

primrec copy_down :: "nat \<Rightarrow> bytes \<Rightarrow> nat \<Rightarrow> nat \<Rightarrow> (nat \<times> bytes) option" where
  "copy_down 0 m dst src = Some (dst, m)"
| "copy_down (Suc n) m dst src = do {
     b \<leftarrow> rd m (src - 1);
     m \<leftarrow> wr m (dst - 1) b;
     copy_down n m (dst - 1) (src - 1) }"

definition memcpy :: "bytes \<Rightarrow> nat \<Rightarrow> nat \<Rightarrow> nat \<Rightarrow> (nat \<times> bytes) option" where
  "memcpy m dst src cnt = do {
     ASSERT (dst \<noteq> NULL \<or> cnt = 0);
     ASSERT (src \<noteq> NULL \<or> cnt = 0);
     (_, m) \<leftarrow> copy_up cnt m dst src;
     Some (dst, m) }"

text \<open>\<open>memmove\<close> returns the variable the loop has moved.\<close>

definition memmove :: "bytes \<Rightarrow> nat \<Rightarrow> nat \<Rightarrow> nat \<Rightarrow> (nat \<times> bytes) option" where
  "memmove m dst src cnt = do {
     ASSERT (dst \<noteq> NULL \<or> cnt = 0);
     ASSERT (src \<noteq> NULL \<or> cnt = 0);
     if dst < src then copy_up cnt m dst src
     else copy_down cnt m (dst + cnt) (src + cnt) }"

primrec memcmp_loop :: "nat \<Rightarrow> bytes \<Rightarrow> nat \<Rightarrow> nat \<Rightarrow> int option" where
  "memcmp_loop 0 m a b = Some 0"
| "memcmp_loop (Suc n) m a b = do {
     x \<leftarrow> rd m a;
     y \<leftarrow> rd m b;
     if x \<noteq> y then Some (if x > y then 1 else -1) else memcmp_loop n m (a + 1) (b + 1) }"

definition memcmp :: "bytes \<Rightarrow> nat \<Rightarrow> nat \<Rightarrow> nat \<Rightarrow> int option" where
  "memcmp m a b cnt = do {
     ASSERT (a \<noteq> NULL \<or> cnt = 0);
     ASSERT (b \<noteq> NULL \<or> cnt = 0);
     memcmp_loop cnt m a b }"

primrec memchr_loop :: "nat \<Rightarrow> bytes \<Rightarrow> nat \<Rightarrow> u8 \<Rightarrow> nat option" where
  "memchr_loop 0 m block ch = Some NULL"
| "memchr_loop (Suc n) m block ch = do {
     x \<leftarrow> rd m block;
     if x = ch then Some block else memchr_loop n m (block + 1) ch }"

definition memchr :: "bytes \<Rightarrow> nat \<Rightarrow> int \<Rightarrow> nat \<Rightarrow> nat option" where
  "memchr m block ch cnt = do {
     ASSERT (block \<noteq> NULL \<or> cnt = 0);
     memchr_loop cnt m block (of_int ch) }"

primrec memset_loop :: "nat \<Rightarrow> bytes \<Rightarrow> nat \<Rightarrow> u8 \<Rightarrow> bytes option" where
  "memset_loop 0 m dst v = Some m"
| "memset_loop (Suc n) m dst v = do {
     m \<leftarrow> wr m dst v;
     memset_loop n m (dst + 1) v }"

definition memset :: "bytes \<Rightarrow> nat \<Rightarrow> int \<Rightarrow> nat \<Rightarrow> (nat \<times> bytes) option" where
  "memset m dst v cnt = do {
     ASSERT (dst \<noteq> NULL \<or> cnt = 0);
     m \<leftarrow> memset_loop cnt m dst (of_int v);
     Some (dst, m) }"

section \<open>Strings\<close>

fun strlen_loop :: "bytes \<Rightarrow> nat \<Rightarrow> nat option" where
  "strlen_loop [] n = None"
| "strlen_loop (b # bs) n = (if b \<noteq> 0 then strlen_loop bs (n + 1) else Some n)"

definition strlen :: "bytes \<Rightarrow> nat \<Rightarrow> nat option" where
  "strlen m p = do { ASSERT (p \<noteq> NULL); strlen_loop (drop p m) 0 }"

fun strnlen_loop :: "bytes \<Rightarrow> nat \<Rightarrow> nat \<Rightarrow> nat option" where
  "strnlen_loop [] maxlen n = None"
| "strnlen_loop (b # bs) maxlen n =
     (if b \<noteq> 0 \<and> n < maxlen then strnlen_loop bs maxlen (n + 1) else Some n)"

definition strnlen :: "bytes \<Rightarrow> nat \<Rightarrow> nat \<Rightarrow> nat option" where
  "strnlen m p maxlen = strnlen_loop (drop p m) maxlen 0"

fun strcmp_loop :: "bytes \<Rightarrow> bytes \<Rightarrow> int option" where
  "strcmp_loop (x # xs) (y # ys) =
     (if x \<noteq> 0 \<and> x = y then strcmp_loop xs ys
      else Some (if x < y then -1 else if x > y then 1 else 0))"
| "strcmp_loop _ _ = None"

definition strcmp :: "bytes \<Rightarrow> nat \<Rightarrow> nat \<Rightarrow> int option" where
  "strcmp m a b = do { ASSERT (a \<noteq> NULL); ASSERT (b \<noteq> NULL); strcmp_loop (drop a m) (drop b m) }"

fun strchr_loop :: "u8 \<Rightarrow> bytes \<Rightarrow> nat \<Rightarrow> nat option" where
  "strchr_loop c [] p = None"
| "strchr_loop c (b # bs) p =
     (if b = c then Some p else if b = 0 then Some NULL else strchr_loop c bs (p + 1))"

definition strchr :: "bytes \<Rightarrow> nat \<Rightarrow> int \<Rightarrow> nat option" where
  "strchr m p c = do { ASSERT (p \<noteq> NULL); strchr_loop (of_int c) (drop p m) p }"

fun strcspn_loop :: "bytes \<Rightarrow> nat \<Rightarrow> bytes \<Rightarrow> nat \<Rightarrow> nat option" where
  "strcspn_loop m stop [] n = None"
| "strcspn_loop m stop (b # bs) n =
     (if b \<noteq> 0
      then do {
        q \<leftarrow> strchr m stop (sint b);
        if q \<noteq> NULL then Some n else strcspn_loop m stop bs (n + 1) }
      else Some n)"

definition strcspn :: "bytes \<Rightarrow> nat \<Rightarrow> nat \<Rightarrow> nat option" where
  "strcspn m p stop = strcspn_loop m stop (drop p m) 0"

fun strpbrk_loop :: "bytes \<Rightarrow> nat \<Rightarrow> bytes \<Rightarrow> nat \<Rightarrow> nat option" where
  "strpbrk_loop m stop [] p = None"
| "strpbrk_loop m stop (b # bs) p =
     (if b \<noteq> 0
      then do {
        q \<leftarrow> strchr m stop (sint b);
        if q \<noteq> NULL then Some p else strpbrk_loop m stop bs (p + 1) }
      else Some NULL)"

definition strpbrk :: "bytes \<Rightarrow> nat \<Rightarrow> nat \<Rightarrow> nat option" where
  "strpbrk m p stop = strpbrk_loop m stop (drop p m) p"

fun strrchr_loop :: "u8 \<Rightarrow> bytes \<Rightarrow> nat \<Rightarrow> nat \<Rightarrow> nat option" where
  "strrchr_loop c [] s p = None"
| "strrchr_loop c (b # bs) s p =
     (if b \<noteq> 0 then strrchr_loop c bs (s + 1) (if b = c then s else p) else Some p)"

definition strrchr :: "bytes \<Rightarrow> nat \<Rightarrow> int \<Rightarrow> nat option" where
  "strrchr m s c = strrchr_loop (of_int c) (drop s m) s NULL"

fun strspn_loop :: "bytes \<Rightarrow> nat \<Rightarrow> bytes \<Rightarrow> nat \<Rightarrow> nat option" where
  "strspn_loop m skip [] n = None"
| "strspn_loop m skip (b # bs) n =
     (if b \<noteq> 0
      then do {
        q \<leftarrow> strchr m skip (sint b);
        if q = NULL then Some n else strspn_loop m skip bs (n + 1) }
      else Some n)"

definition strspn :: "bytes \<Rightarrow> nat \<Rightarrow> nat \<Rightarrow> nat option" where
  "strspn m p skip = strspn_loop m skip (drop p m) 0"

text \<open>The loop of \<open>strstr\<close> with \<open>k\<close> positions left to try from position \<open>i\<close> on.\<close>

primrec strstr_loop :: "nat \<Rightarrow> bytes \<Rightarrow> nat \<Rightarrow> nat \<Rightarrow> nat \<Rightarrow> nat \<Rightarrow> nat option" where
  "strstr_loop 0 m haystack needle needle_len i = Some NULL"
| "strstr_loop (Suc k) m haystack needle needle_len i = do {
     r \<leftarrow> memcmp m (haystack + i) needle needle_len;
     if r = 0 then Some (haystack + i) else strstr_loop k m haystack needle needle_len (i + 1) }"

definition strstr :: "bytes \<Rightarrow> nat \<Rightarrow> nat \<Rightarrow> nat option" where
  "strstr m haystack needle = do {
     haystack_len \<leftarrow> strlen m haystack;
     needle_len \<leftarrow> strlen m needle;
     if haystack_len \<ge> needle_len
     then strstr_loop (haystack_len - needle_len + 1) m haystack needle needle_len 0
     else Some NULL }"

text \<open>
  The two loops of \<open>strtok_r\<close>. The first returns the position where it stops and whether that is
  the start of a token; the second the position of the delimiter and the delimiter.
\<close>

fun strtok_skip :: "bytes \<Rightarrow> nat \<Rightarrow> bytes \<Rightarrow> nat \<Rightarrow> (bool \<times> nat) option" where
  "strtok_skip m delimiters [] s = None"
| "strtok_skip m delimiters (b # bs) s = do {
     q \<leftarrow> strchr m delimiters (sint b);
     if q \<noteq> NULL
     then (if b = 0 then Some (False, s) else strtok_skip m delimiters bs (s + 1))
     else Some (True, s) }"

fun strtok_span :: "bytes \<Rightarrow> nat \<Rightarrow> bytes \<Rightarrow> nat \<Rightarrow> (nat \<times> u8) option" where
  "strtok_span m delimiters [] s = None"
| "strtok_span m delimiters (b # bs) s = do {
     q \<leftarrow> strchr m delimiters (sint b);
     if q = NULL then strtok_span m delimiters bs (s + 1) else Some (s, b) }"

text \<open>The result is the token, the value left in \<open>*save_ptr\<close>, and the memory.\<close>

definition strtok_r :: "bytes \<Rightarrow> nat \<Rightarrow> nat \<Rightarrow> nat \<Rightarrow> (nat \<times> nat \<times> bytes) option" where
  "strtok_r m s delimiters save_ptr = do {
     ASSERT (delimiters \<noteq> NULL);
     let s = (if s = NULL then save_ptr else s);
     ASSERT (s \<noteq> NULL);
     (found, s) \<leftarrow> strtok_skip m delimiters (drop s m) s;
     if \<not> found then Some (NULL, s, m)
     else do {
       let token = s;
       (s, b) \<leftarrow> strtok_span m delimiters (drop s m) s;
       if b \<noteq> 0
       then do { m \<leftarrow> wr m s 0; Some (token, s + 1, m) }
       else Some (token, s, m) } }"

definition strlcpy :: "bytes \<Rightarrow> nat \<Rightarrow> nat \<Rightarrow> nat \<Rightarrow> (nat \<times> bytes) option" where
  "strlcpy m dst src cnt = do {
     ASSERT (dst \<noteq> NULL);
     ASSERT (src \<noteq> NULL);
     src_len \<leftarrow> strlen m src;
     if cnt > 0
     then do {
       let dst_len = (if src_len < cnt - 1 then src_len else cnt - 1);
       (_, m) \<leftarrow> memcpy m dst src dst_len;
       m \<leftarrow> wr m (dst + dst_len) 0;
       Some (src_len, m) }
     else Some (src_len, m) }"

definition strlcat :: "bytes \<Rightarrow> nat \<Rightarrow> nat \<Rightarrow> nat \<Rightarrow> (nat \<times> bytes) option" where
  "strlcat m dst src cnt = do {
     ASSERT (dst \<noteq> NULL);
     ASSERT (src \<noteq> NULL);
     src_len \<leftarrow> strlen m src;
     dst_len \<leftarrow> strlen m dst;
     if cnt > 0 \<and> dst_len < cnt
     then do {
       let copy_cnt = (if src_len < cnt - dst_len - 1 then src_len else cnt - dst_len - 1);
       (_, m) \<leftarrow> memcpy m (dst + dst_len) src copy_cnt;
       m \<leftarrow> wr m (dst + dst_len + copy_cnt) 0;
       Some (src_len + dst_len, m) }
     else Some (src_len + dst_len, m) }"

section \<open>Copying\<close>

lemma copy_up_overlay:
  assumes "dst + n \<le> length m" "src + n \<le> length m" "dst \<le> src \<or> src + n \<le> dst"
  shows "copy_up n m dst src = Some (dst + n, overlay m dst (chunk m src n))"
  using assms
proof (induction n arbitrary: m dst src)
  case (Suc n)
  let ?m = "m[dst := m ! src]"
  have "copy_up n ?m (dst + 1) (src + 1) = Some (dst + 1 + n, overlay ?m (dst + 1) (chunk ?m (src + 1) n))"
    using Suc.prems by (intro Suc.IH) auto
  moreover have "chunk ?m (src + 1) n = chunk m (src + 1) n"
    using Suc.prems by (intro nth_equalityI) (auto simp: nth_chunk nth_list_update)
  moreover have "overlay ?m (dst + 1) (chunk m (src + 1) n) = overlay m dst (chunk m src (Suc n))"
    using Suc.prems
    by (intro nth_equalityI) (auto simp: nth_overlay nth_chunk drop_chunk_Cons nth_list_update nth_Cons' min_def)
  ultimately show ?case using Suc.prems by (simp add: rd_def wr_def)
qed simp

lemma copy_down_overlay:
  assumes "dst + n \<le> length m" "src + n \<le> length m" "src \<le> dst"
  shows "copy_down n m (dst + n) (src + n) = Some (dst, overlay m dst (chunk m src n))"
  using assms
proof (induction n arbitrary: m)
  case (Suc n)
  let ?m = "m[dst + n := m ! (src + n)]"
  have "copy_down n ?m (dst + n) (src + n) = Some (dst, overlay ?m dst (chunk ?m src n))"
    using Suc.prems by (intro Suc.IH) simp_all
  moreover have "chunk ?m src n = chunk m src n"
    using Suc.prems by (intro nth_equalityI) (auto simp: nth_chunk nth_list_update)
  moreover have "overlay ?m dst (chunk m src n) = overlay m dst (chunk m src (Suc n))"
  proof (rule nth_equalityI)
    fix i assume "i < length (overlay ?m dst (chunk m src n))"
    then have i: "i < length m" using Suc.prems by simp
    consider "i < dst" | "dst \<le> i" "i < dst + n" | "i = dst + n" | "dst + n < i" by linarith
    then show "overlay ?m dst (chunk m src n) ! i = overlay m dst (chunk m src (Suc n)) ! i"
      by cases (use Suc.prems i in \<open>simp_all add: nth_overlay nth_chunk nth_list_update min_def\<close>)
  qed (use Suc.prems in simp)
  ultimately show ?case using Suc.prems by (simp add: rd_def wr_def)
qed simp

lemma memcpy_overlay:
  assumes "dst \<noteq> NULL" "src \<noteq> NULL" "dst + n \<le> length m" "src + n \<le> length m" "dst \<le> src \<or> src + n \<le> dst"
  shows "memcpy m dst src n = Some (dst, overlay m dst (chunk m src n))"
  using assms by (simp add: memcpy_def copy_up_overlay)

text \<open>
  C38. \<open>memmove\<close> copies a block as if through a separate buffer, however source and destination
  overlap, and changes nothing else. It returns the destination only when it copies downwards;
  when the destination is below the source it returns the end of the destination.
\<close>

theorem memmove_overlap:
  assumes "dst \<noteq> NULL" "src \<noteq> NULL" "dst + n \<le> length m" "src + n \<le> length m"
  shows "memmove m dst src n =
    Some (if dst < src then dst + n else dst, take dst m @ take n (drop src m) @ drop (dst + n) m)"
proof -
  have "overlay m dst (chunk m src n) = take dst m @ take n (drop src m) @ drop (dst + n) m"
    using assms(4) by (simp add: overlay_def) (simp add: chunk_def)
  then show ?thesis
    using assms copy_up_overlay [of dst n m src] copy_down_overlay [of dst n m src] by (simp add: memmove_def)
qed

theorem memmove_overlap_witness:
  "memmove [0, 1, 2, 3, 4, 5] 1 3 3 = Some (4, [0, 3, 4, 5, 4, 5]) \<and>
   memmove [0, 1, 2, 3, 4, 5] 2 1 3 = Some (2, [0, 1, 1, 2, 3, 5])"
  using memmove_overlap [of 1 3 3 "[0, 1, 2, 3, 4, 5]"] memmove_overlap [of 2 1 3 "[0, 1, 2, 3, 4, 5]"]
  by simp

section \<open>What a string is\<close>

definition cstr :: "bytes \<Rightarrow> nat \<Rightarrow> bytes" where
  "cstr m p = takeWhile (\<lambda>b. b \<noteq> 0) (drop p m)"

definition is_str :: "bytes \<Rightarrow> nat \<Rightarrow> bool" where
  "is_str m p \<longleftrightarrow> p \<noteq> NULL \<and> 0 \<in> set (drop p m)"

lemma cstr_nonzero [simp]: "0 \<notin> set (cstr m p)"
  by (auto simp: cstr_def dest: set_takeWhileD)

lemma takeWhile_split:
  "0 \<in> set bs \<Longrightarrow> bs = takeWhile (\<lambda>b. b \<noteq> 0) bs @ 0 # tl (dropWhile (\<lambda>b. b \<noteq> 0) bs)" for bs :: bytes
  by (induction bs) auto

lemma is_str_split:
  assumes "is_str m p"
  obtains rest where "m = take p m @ cstr m p @ 0 # rest" "p \<noteq> 0" "p < length m"
proof -
  have "drop p m = cstr m p @ 0 # tl (dropWhile (\<lambda>b. b \<noteq> 0) (drop p m))"
    using assms takeWhile_split [of "drop p m"] by (simp add: is_str_def cstr_def)
  moreover have "p < length m" using assms by (cases "p < length m") (simp_all add: is_str_def)
  ultimately show ?thesis using that append_take_drop_id [of p m] assms by (metis is_str_def)
qed

lemma is_strI:
  assumes "m = ys @ xs @ 0 # rest" "length ys = p" "0 \<notin> set xs" "p \<noteq> 0"
  shows "is_str m p" "cstr m p = xs"
  using assms by (auto simp: is_str_def cstr_def takeWhile_append)

lemma is_str_bound: "is_str m p \<Longrightarrow> p + length (cstr m p) < length m"
proof -
  assume "is_str m p"
  then obtain rest where m: "m = take p m @ cstr m p @ 0 # rest" "p < length m" by (rule is_str_split)
  then have "length m = p + length (cstr m p) + Suc (length rest)"
    by (metis (no_types, lifting) length_append length_Cons length_take less_imp_le min.absorb2 add.assoc)
  then show ?thesis by simp
qed

lemma cstr_nth: "i < length (cstr m p) \<Longrightarrow> cstr m p ! i = m ! (p + i)"
  by (simp add: cstr_def takeWhile_nth) (metis add_leD1 drop_all length_takeWhile_le less_imp_le_nat list.size(3) not_less nth_drop nat_le_linear not_less_zero takeWhile.simps(1))

lemma strlen_loop_eq:
  "strlen_loop bs n = (if 0 \<in> set bs then Some (n + length (takeWhile (\<lambda>b. b \<noteq> 0) bs)) else None)"
  by (induction bs arbitrary: n) auto

lemma strlen_eq: "strlen m p = (if is_str m p then Some (length (cstr m p)) else None)"
  by (auto simp: strlen_def strlen_loop_eq is_str_def cstr_def ASSERT_def)

lemma strlcpy_overlay:
  assumes "dst \<noteq> NULL" "is_str m src" "0 < n" "dst + n \<le> length m"
    "dst + n \<le> src \<or> src + length (cstr m src) < dst"
  shows "strlcpy m dst src n =
    Some (length (cstr m src), overlay m dst (take (n - 1) (cstr m src) @ [0]))"
proof -
  let ?k = "min (length (cstr m src)) (n - 1)"
  note b = is_str_bound [OF assms(2)]
  have src: "src \<noteq> NULL" using assms(2) by (simp add: is_str_def)
  have cp: "memcpy m dst src ?k = Some (dst, overlay m dst (chunk m src ?k))"
    using assms src b by (intro memcpy_overlay) auto
  have sl: "chunk m src ?k = take (n - 1) (cstr m src)"
    using b by (intro nth_equalityI) (auto simp: nth_chunk cstr_nth min_def split: if_splits)
  let ?t = "take (n - 1) (cstr m src)"
  have len: "length ?t = ?k" by simp
  have "(overlay m dst ?t)[dst + ?k := 0] = overlay m dst (?t @ [0])"
    using assms(3,4) by (intro nth_equalityI) (auto simp: nth_overlay nth_list_update nth_append)
  moreover have "dst + ?k < length m" using assms(3,4) by simp
  moreover have "(if length (cstr m src) < n - 1 then length (cstr m src) else n - 1) = ?k" by auto
  ultimately show ?thesis
    using assms(1-4) src cp sl by (simp add: strlcpy_def strlen_eq wr_def Let_def)
qed

text \<open>
  \<open>strlcpy\<close> writes at most \<open>size\<close> bytes: the first \<open>size - 1\<close> characters of the source and a
  terminator. It returns the length of the source, and no byte outside the \<open>size\<close> bytes changes.
\<close>

theorem strlcpy_bounded:
  assumes "dst \<noteq> NULL" "is_str m src" "0 < n" "dst + n \<le> length m"
    "dst + n \<le> src \<or> src + length (cstr m src) < dst"
  shows "\<exists>m'. strlcpy m dst src n = Some (length (cstr m src), m') \<and>
    is_str m' dst \<and> cstr m' dst = take (n - 1) (cstr m src) \<and>
    length m' = length m \<and> (\<forall>i < length m. i < dst \<or> dst + n \<le> i \<longrightarrow> m' ! i = m ! i)"
proof -
  let ?t = "take (n - 1) (cstr m src)"
  let ?m = "overlay m dst (?t @ [0])"
  have "?m = take dst m @ ?t @ 0 # drop (dst + length ?t + 1) m" by (simp add: overlay_def)
  moreover have "0 \<notin> set ?t" using cstr_nonzero [of m src] by (metis in_set_takeD)
  ultimately have "is_str ?m dst" "cstr ?m dst = ?t"
    using assms(1,4) is_strI [of ?m "take dst m" ?t _ dst] by (simp_all add: min_def)
  moreover have "\<forall>i < length m. i < dst \<or> dst + n \<le> i \<longrightarrow> ?m ! i = m ! i"
    using assms(3,4) by (auto simp: nth_overlay)
  ultimately show ?thesis using strlcpy_overlay [OF assms] assms(3,4) by auto
qed

theorem strlcpy_bounded_witness:
  "\<exists>m'. strlcpy [0, 97, 98, 99, 0, 1, 1, 1, 1] 5 1 3 = Some (3, m') \<and> cstr m' 5 = [97, 98] \<and> m' ! 8 = 1"
proof -
  have "is_str [0, 97, 98, 99, 0, 1, 1, 1, 1] 1" "cstr [0, 97, 98, 99, 0, 1, 1, 1, 1] 1 = [97, 98, 99]"
    by (simp_all add: is_str_def cstr_def)
  then show ?thesis using strlcpy_bounded [of 5 "[0, 97, 98, 99, 0, 1, 1, 1, 1]" 1 3] by auto
qed

section \<open>Searching\<close>

lemma strchr_loop_eq:
  "0 \<in> set bs \<Longrightarrow> strchr_loop c bs p = Some (if c = 0 \<or> c \<in> set (takeWhile (\<lambda>b. b \<noteq> 0) bs)
     then p + length (takeWhile (\<lambda>b. b \<noteq> c) bs) else NULL)"
  by (induction bs arbitrary: p) auto

lemma strchr_null:
  assumes "is_str m d"
  obtains q where "strchr m d (sint b) = Some q" "q = NULL \<longleftrightarrow> b \<noteq> 0 \<and> b \<notin> set (cstr m d)"
  using assms that by (auto simp: strchr_def is_str_def strchr_loop_eq cstr_def)

lemma strcspn_loop_eq:
  "is_str m d \<Longrightarrow> 0 \<in> set bs \<Longrightarrow>
   strcspn_loop m d bs n = Some (n + length (takeWhile (\<lambda>b. b \<noteq> 0 \<and> b \<notin> set (cstr m d)) bs))"
proof (induction bs arbitrary: n)
  case (Cons b bs)
  obtain q where "strchr m d (sint b) = Some q" "q = NULL \<longleftrightarrow> b \<noteq> 0 \<and> b \<notin> set (cstr m d)"
    by (rule strchr_null [OF Cons.prems(1)])
  then show ?case using Cons by auto
qed simp

lemma strspn_loop_eq:
  "is_str m d \<Longrightarrow> 0 \<in> set bs \<Longrightarrow>
   strspn_loop m d bs n = Some (n + length (takeWhile (\<lambda>b. b \<in> set (cstr m d)) bs))"
proof (induction bs arbitrary: n)
  case (Cons b bs)
  obtain q where "strchr m d (sint b) = Some q" "q = NULL \<longleftrightarrow> b \<noteq> 0 \<and> b \<notin> set (cstr m d)"
    by (rule strchr_null [OF Cons.prems(1)])
  then show ?case using Cons cstr_nonzero [of m d] by auto
qed simp

lemma strtok_skip_eq:
  "is_str m d \<Longrightarrow> 0 \<in> set bs \<Longrightarrow>
   strtok_skip m d bs s = (let n = length (takeWhile (\<lambda>b. b \<in> set (cstr m d)) bs) in Some (bs ! n \<noteq> 0, s + n))"
proof (induction bs arbitrary: s)
  case (Cons b bs)
  obtain q where "strchr m d (sint b) = Some q" "q = NULL \<longleftrightarrow> b \<noteq> 0 \<and> b \<notin> set (cstr m d)"
    by (rule strchr_null [OF Cons.prems(1)])
  then show ?case using Cons cstr_nonzero [of m d] by (auto simp: Let_def)
qed simp

lemma strtok_span_eq:
  "is_str m d \<Longrightarrow> 0 \<in> set bs \<Longrightarrow>
   strtok_span m d bs s =
     (let n = length (takeWhile (\<lambda>b. b \<noteq> 0 \<and> b \<notin> set (cstr m d)) bs) in Some (s + n, bs ! n))"
proof (induction bs arbitrary: s)
  case (Cons b bs)
  obtain q where "strchr m d (sint b) = Some q" "q = NULL \<longleftrightarrow> b \<noteq> 0 \<and> b \<notin> set (cstr m d)"
    by (rule strchr_null [OF Cons.prems(1)])
  then show ?case using Cons by (auto simp: Let_def)
qed simp

text \<open>
  One call of \<open>strtok_r\<close>, at the string \<open>xs\<close> at \<open>p\<close>: no token is left, or the token is the last,
  or a delimiter \<open>z\<close> ends it and becomes a terminator.
\<close>

lemma strtok_r_end:
  assumes "is_str m d" "m = pre @ us @ 0 # rest" "length pre = p" "p \<noteq> NULL" "set us \<subseteq> set (cstr m d)"
    "s = p \<or> s = NULL \<and> sv = p"
  shows "strtok_r m s d sv = Some (NULL, p + length us, m)"
proof -
  have "takeWhile (\<lambda>b. b \<in> set (cstr m d)) (us @ 0 # rest) = us"
    using assms(5) cstr_nonzero [of m d] by (subst takeWhile_append2) auto
  then have "strtok_skip m d (drop p m) p = Some (False, p + length us)"
    using assms(2,3) by (subst strtok_skip_eq [OF assms(1)]) (auto simp: Let_def)
  moreover have "d \<noteq> NULL" using assms(1) by (simp add: is_str_def)
  ultimately show ?thesis using assms(4,6) by (auto simp: strtok_r_def)
qed

lemma strtok_r_token:
  assumes "is_str m d" "m = pre @ us @ tok @ z # rest" "length pre = p" "p \<noteq> NULL" "set us \<subseteq> set (cstr m d)"
    "tok \<noteq> []" "set tok \<inter> insert 0 (set (cstr m d)) = {}" "z = 0 \<or> z \<in> set (cstr m d) \<and> 0 \<in> set rest"
    "s = p \<or> s = NULL \<and> sv = p"
  shows "strtok_r m s d sv = (if z = 0 then Some (p + length us, p + length us + length tok, m)
    else Some (p + length us, p + length us + length tok + 1, pre @ us @ tok @ 0 # rest))"
proof -
  obtain t ts where tok: "tok = t # ts" using assms(6) by (cases tok) auto
  have n: "takeWhile (\<lambda>b. b \<in> set (cstr m d)) (us @ tok @ z # rest) = us"
    using assms(5,7) tok by (subst takeWhile_append2) auto
  have nz: "(us @ tok @ z # rest) ! length us \<noteq> 0" using assms(7) by (auto simp: tok nth_append)
  have z0: "0 \<in> set (tok @ z # rest)" using assms(8) by auto
  have "strtok_skip m d (us @ tok @ z # rest) p = Some (True, p + length us)"
    using z0 nz by (subst strtok_skip_eq [OF assms(1)]) (auto simp: n Let_def)
  moreover have "takeWhile (\<lambda>b. b \<noteq> 0 \<and> b \<notin> set (cstr m d)) (tok @ z # rest) = tok"
    using assms(7,8) by (subst takeWhile_append2) auto
  then have "strtok_span m d (tok @ z # rest) (p + length us) = Some (p + length us + length tok, z)"
    using z0 by (subst strtok_span_eq [OF assms(1)]) (auto simp: Let_def)
  moreover have "drop p m = us @ tok @ z # rest" "drop (p + length us) m = tok @ z # rest"
    using assms(2,3) by simp_all
  moreover have "wr m (p + length us + length tok) 0 = Some (pre @ us @ tok @ 0 # rest)"
    using assms(2,3) by (simp add: wr_def list_update_append)
  moreover have "d \<noteq> NULL" using assms(1) by (simp add: is_str_def)
  ultimately show ?thesis using assms(4,9) by (auto simp: strtok_r_def)
qed

section \<open>Comparing\<close>

lemma memcmp_loop_eq:
  "a + n \<le> length m \<Longrightarrow> b + n \<le> length m \<Longrightarrow>
   \<exists>r. memcmp_loop n m a b = Some r \<and> (r = 0 \<longleftrightarrow> chunk m a n = chunk m b n)"
  by (induction n arbitrary: a b) (auto simp: rd_def drop_chunk_Cons)

lemma strcmp_loop_eq:
  "0 \<in> set xs \<Longrightarrow> 0 \<in> set ys \<Longrightarrow> strcmp_loop xs ys =
   (let a = takeWhile (\<lambda>b. b \<noteq> 0) xs; b = takeWhile (\<lambda>b. b \<noteq> 0) ys
    in Some (if a = b then 0 else if ord_class.lexordp a b then -1 else 1))"
proof (induction xs ys rule: strcmp_loop.induct)
  case (1 x xs y ys)
  show ?case
  proof (cases "x \<noteq> 0 \<and> x = y")
    case True
    moreover from this have "strcmp_loop xs ys = (let a = takeWhile (\<lambda>b. b \<noteq> 0) xs; b = takeWhile (\<lambda>b. b \<noteq> 0) ys
        in Some (if a = b then 0 else if ord_class.lexordp a b then -1 else 1))"
      using 1 by auto
    ultimately show ?thesis by (simp add: Let_def)
  next
    case False
    moreover have "x < y \<Longrightarrow> y \<noteq> 0" "y < x \<Longrightarrow> x \<noteq> 0" by auto
    ultimately show ?thesis by (cases x y rule: linorder_cases) (auto simp: Let_def)
  qed
qed simp_all

text \<open>\<open>strcmp\<close> returns the sign of the lexicographic comparison of two strings as unsigned bytes.\<close>

theorem strcmp_lexicographic:
  assumes "is_str m a" "is_str m b"
  shows "strcmp m a b = Some (if cstr m a = cstr m b then 0 else if ord_class.lexordp (cstr m a) (cstr m b) then -1 else 1)"
  using assms by (simp add: strcmp_def is_str_def cstr_def strcmp_loop_eq Let_def)

theorem strcmp_lexicographic_witness:
  "strcmp [0, 97, 200, 0, 97, 98, 0] 1 4 = Some 1 \<and> strcmp [0, 97, 200, 0, 97, 98, 0] 4 1 = Some (-1)"
proof -
  let ?m = "[0, 97, 200, 0, 97, 98, 0] :: bytes"
  have "is_str ?m 1" "is_str ?m 4" "cstr ?m 1 = [97, 200]" "cstr ?m 4 = [97, 98]"
    by (simp_all add: is_str_def cstr_def)
  then show ?thesis using strcmp_lexicographic [of ?m 1 4] strcmp_lexicographic [of ?m 4 1] by simp
qed

lemma cstr_chunk: "chunk m p (length (cstr m p)) = cstr m p" if "is_str m p"
  using is_str_bound [OF that] by (intro nth_equalityI) (simp_all add: nth_chunk cstr_nth)

lemma strstr_loop_eq:
  assumes "is_str m h" "is_str m nd" "i + k + length (cstr m nd) = length (cstr m h) + 1"
  shows "\<exists>q. strstr_loop k m h nd (length (cstr m nd)) i = Some q \<and>
    (q = NULL \<and> (\<forall>j. i \<le> j \<and> j < i + k \<longrightarrow> take (length (cstr m nd)) (drop j (cstr m h)) \<noteq> cstr m nd) \<or>
     (\<exists>j. q = h + j \<and> i \<le> j \<and> j < i + k \<and> take (length (cstr m nd)) (drop j (cstr m h)) = cstr m nd \<and>
       (\<forall>l. i \<le> l \<and> l < j \<longrightarrow> take (length (cstr m nd)) (drop l (cstr m h)) \<noteq> cstr m nd)))"
  using assms(3)
proof (induction k arbitrary: i)
  case 0
  then show ?case by (intro exI [of _ NULL] conjI disjI1) auto
next
  case (Suc k)
  let ?n = "length (cstr m nd)"
  note b = is_str_bound [OF assms(1)] is_str_bound [OF assms(2)]
  have c: "chunk m (h + i) ?n = take ?n (drop i (cstr m h))"
    using Suc.prems b by (intro nth_equalityI) (simp_all add: nth_chunk cstr_nth add.assoc)
  have nz: "h + i \<noteq> 0" "nd \<noteq> 0" using assms(1,2) by (simp_all add: is_str_def)
  obtain r where r: "memcmp m (h + i) nd ?n = Some r" "r = 0 \<longleftrightarrow> take ?n (drop i (cstr m h)) = cstr m nd"
    using memcmp_loop_eq [of "h + i" ?n m nd] Suc.prems b nz cstr_chunk [OF assms(2)] c
    by (auto simp: memcmp_def)
  show ?case
  proof (cases "r = 0")
    case True
    then show ?thesis using r by (auto intro!: exI [of _ i])
  next
    case False
    obtain q where q: "strstr_loop k m h nd ?n (i + 1) = Some q"
      "q = NULL \<and> (\<forall>j. i + 1 \<le> j \<and> j < i + 1 + k \<longrightarrow> take ?n (drop j (cstr m h)) \<noteq> cstr m nd) \<or>
       (\<exists>j. q = h + j \<and> i + 1 \<le> j \<and> j < i + 1 + k \<and> take ?n (drop j (cstr m h)) = cstr m nd \<and>
         (\<forall>l. i + 1 \<le> l \<and> l < j \<longrightarrow> take ?n (drop l (cstr m h)) \<noteq> cstr m nd))"
      using Suc.IH [of "i + 1"] Suc.prems by auto
    have i: "take ?n (drop i (cstr m h)) \<noteq> cstr m nd" using False r(2) by simp
    from q(2) show ?thesis
    proof (elim disjE conjE exE)
      assume "q = NULL" "\<forall>j. i + 1 \<le> j \<and> j < i + 1 + k \<longrightarrow> take ?n (drop j (cstr m h)) \<noteq> cstr m nd"
      then have "\<forall>j. i \<le> j \<and> j < i + Suc k \<longrightarrow> take ?n (drop j (cstr m h)) \<noteq> cstr m nd"
        using i by (metis Suc_eq_plus1 Suc_leI add_Suc_shift le_neq_implies_less)
      then show ?thesis using q(1) r(1) False \<open>q = NULL\<close> by simp
    next
      fix j assume j: "q = h + j" "i + 1 \<le> j" "j < i + 1 + k" "take ?n (drop j (cstr m h)) = cstr m nd"
        "\<forall>l. i + 1 \<le> l \<and> l < j \<longrightarrow> take ?n (drop l (cstr m h)) \<noteq> cstr m nd"
      then have "\<forall>l. i \<le> l \<and> l < j \<longrightarrow> take ?n (drop l (cstr m h)) \<noteq> cstr m nd"
        using i by (metis Suc_eq_plus1 Suc_leI le_neq_implies_less)
      then show ?thesis using q(1) r(1) False j by (intro exI [of _ q]) auto
    qed
  qed
qed

text \<open>
  \<open>strstr\<close> returns the first position at which the needle occurs in the haystack, and a null
  pointer exactly when it occurs nowhere.
\<close>

theorem strstr_first_occurrence:
  assumes "is_str m h" "is_str m nd"
  shows "\<exists>q. strstr m h nd = Some q \<and>
    (let occurs = (\<lambda>i. take (length (cstr m nd)) (drop i (cstr m h)) = cstr m nd) in
     (q = NULL \<and> (\<forall>i. i + length (cstr m nd) \<le> length (cstr m h) \<longrightarrow> \<not> occurs i)) \<or>
     (\<exists>i. q = h + i \<and> occurs i \<and> (\<forall>j < i. \<not> occurs j)))"
proof (cases "length (cstr m nd) \<le> length (cstr m h)")
  case True
  let ?k = "length (cstr m h) - length (cstr m nd) + 1"
  have "0 + ?k + length (cstr m nd) = length (cstr m h) + 1" using True by simp
  from strstr_loop_eq [OF assms this] show ?thesis
    using True assms unfolding Let_def by (auto simp: strstr_def strlen_eq)
next
  case False
  then show ?thesis using assms by (auto simp: strstr_def strlen_eq)
qed

theorem strstr_first_occurrence_witness:
  "\<exists>q. strstr [0, 97, 98, 97, 98, 0, 98, 0] 1 6 = Some q \<and> (q = NULL \<or>
    (\<exists>i. q = 1 + i \<and> take 1 (drop i [97, 98, 97, 98]) = ([98] :: bytes) \<and>
      (\<forall>j < i. take 1 (drop j [97, 98, 97, 98]) \<noteq> ([98] :: bytes))))"
proof -
  let ?m = "[0, 97, 98, 97, 98, 0, 98, 0] :: bytes"
  have "is_str ?m 1" "is_str ?m 6" "cstr ?m 1 = [97, 98, 97, 98]" "cstr ?m 6 = [98]"
    by (simp_all add: is_str_def cstr_def)
  then show ?thesis using strstr_first_occurrence [of ?m 1 6] by (simp add: Let_def) blast
qed

text \<open>\<open>strnlen\<close> reads a byte before it compares the count, so it reads the byte at \<open>maxlen\<close>.\<close>

lemma strnlen_loop_overread:
  "0 \<notin> set bs \<Longrightarrow> n + length bs = maxlen \<Longrightarrow> strnlen_loop bs maxlen n = None"
  by (induction bs arbitrary: n) auto

lemma strnlen_overread: "0 \<notin> set (drop p m) \<Longrightarrow> strnlen m p (length m - p) = None"
  by (simp add: strnlen_def strnlen_loop_overread)

end
