(* ===== verification/Byte_Encoding.thy ===== *)
theory Byte_Encoding
  imports C_Strings
begin

text \<open>
  Little-endian integers in memory: how the i386 stores the integer members of the structures
  that the kernel writes to disk or to a user stack, with the round trips in both directions.
\<close>

primrec le_bytes :: "nat \<Rightarrow> nat \<Rightarrow> bytes" where
  "le_bytes 0 v = []"
| "le_bytes (Suc n) v = of_nat (v mod 256) # le_bytes n (v div 256)"

primrec of_le :: "bytes \<Rightarrow> nat" where
  "of_le [] = 0"
| "of_le (b # bs) = unat b + 256 * of_le bs"

lemma length_le_bytes [simp]: "length (le_bytes n v) = n"
  by (induction n arbitrary: v) simp_all

lemma unat_of_nat_byte: "unat (of_nat (v mod 256) :: u8) = v mod 256"
  by (simp add: unat_of_nat take_bit_eq_mod)

lemma unat_byte: "unat (b :: u8) < 256"
proof -
  have "unat b < 2 ^ LENGTH(8)" by (rule unsigned_less)
  then show ?thesis by simp
qed

lemma of_le_le_bytes: "of_le (le_bytes n v) = v mod 256 ^ n"
proof (induction n arbitrary: v)
  case (Suc n)
  have "v mod 256 + 256 * (v div 256 mod 256 ^ n) = v mod (256 * 256 ^ n)"
    by (simp add: mod_mult2_eq)
  then show ?case by (simp add: Suc unat_of_nat_byte)
qed simp

lemma of_le_bound: "of_le bs < 256 ^ length bs"
proof (induction bs)
  case (Cons b bs)
  have "unat b < 256" by (rule unat_byte)
  then show ?case using Cons by simp
qed simp

lemma le_bytes_of_le: "le_bytes (length bs) (of_le bs) = bs"
proof (induction bs)
  case (Cons b bs)
  have b: "unat b < 256" by (rule unat_byte)
  then have "(unat b + 256 * of_le bs) mod 256 = unat b" "(unat b + 256 * of_le bs) div 256 = of_le bs" by simp_all
  then show ?case using Cons by simp
qed simp

lemma of_le_32 [simp]: "v < 2 ^ 32 \<Longrightarrow> of_le (le_bytes 4 v) = v"
  by (simp add: of_le_le_bytes)

end
