(* ===== verification/Block_Device.thy ===== *)
theory Block_Device
  imports Byte_Encoding
begin

text \<open>
  \<^verbatim>\<open>devices/block.c\<close>: block devices and the roles they play. A device's sectors are the function
  \<open>contents\<close>, which stands for the driver behind \<open>block_operations\<close>: a read returns what was last
  written to the sector. A pointer to a device is its position in \<open>all_blocks\<close>, to which devices
  are only ever added. The access counters are unbounded.
\<close>

definition BLOCK_SECTOR_SIZE :: nat where
  "BLOCK_SECTOR_SIZE = 512"

datatype block_type = BLOCK_KERNEL | BLOCK_FILESYS | BLOCK_SCRATCH | BLOCK_SWAP | BLOCK_RAW | BLOCK_FOREIGN

record block =
  b_name :: bytes
  b_type :: block_type
  b_size :: nat
  contents :: "nat \<Rightarrow> bytes"
  read_cnt :: nat
  write_cnt :: nat

record devices =
  all_blocks :: "block list"
  block_by_role :: "block_type \<Rightarrow> nat option"

text \<open>\<open>role < BLOCK_ROLE_CNT\<close>\<close>

definition is_role :: "block_type \<Rightarrow> bool" where
  "is_role role \<longleftrightarrow> role \<in> {BLOCK_KERNEL, BLOCK_FILESYS, BLOCK_SCRATCH, BLOCK_SWAP}"

definition block_get_role :: "devices \<Rightarrow> block_type \<Rightarrow> nat option option" where
  "block_get_role s role = do { ASSERT (is_role role); Some (block_by_role s role) }"

definition block_set_role :: "devices \<Rightarrow> block_type \<Rightarrow> nat option \<Rightarrow> devices option" where
  "block_set_role s role b = do {
     ASSERT (is_role role);
     Some (s\<lparr>block_by_role := (block_by_role s)(role := b)\<rparr>) }"

definition list_elem_to_block :: "devices \<Rightarrow> nat \<Rightarrow> nat option" where
  "list_elem_to_block s e = (if e < length (all_blocks s) then Some e else None)"

definition block_first :: "devices \<Rightarrow> nat option" where
  "block_first s = list_elem_to_block s 0"

definition block_next :: "devices \<Rightarrow> nat \<Rightarrow> nat option" where
  "block_next s b = list_elem_to_block s (b + 1)"

fun find_name :: "bytes \<Rightarrow> block list \<Rightarrow> nat \<Rightarrow> nat option" where
  "find_name name [] e = None"
| "find_name name (b # bs) e = (if b_name b = name then Some e else find_name name bs (e + 1))"

definition block_get_by_name :: "devices \<Rightarrow> bytes \<Rightarrow> nat option" where
  "block_get_by_name s name = find_name name (all_blocks s) 0"

definition check_sector :: "block \<Rightarrow> nat \<Rightarrow> unit option" where
  "check_sector b sector = ASSERT (sector < b_size b)"

definition block_read :: "block \<Rightarrow> nat \<Rightarrow> (bytes \<times> block) option" where
  "block_read b sector = do {
     check_sector b sector;
     Some (contents b sector, b\<lparr>read_cnt := read_cnt b + 1\<rparr>) }"

definition block_write :: "block \<Rightarrow> nat \<Rightarrow> bytes \<Rightarrow> block option" where
  "block_write b sector buffer = do {
     check_sector b sector;
     ASSERT (b_type b \<noteq> BLOCK_FOREIGN);
     Some (b\<lparr>contents := (contents b)(sector := buffer), write_cnt := write_cnt b + 1\<rparr>) }"

definition block_size :: "block \<Rightarrow> nat" where
  "block_size b = b_size b"

text \<open>The driver of a new device and the sectors behind it are given; names are cut to 15 bytes.\<close>

definition block_register ::
  "devices \<Rightarrow> bytes \<Rightarrow> block_type \<Rightarrow> nat \<Rightarrow> (nat \<Rightarrow> bytes) \<Rightarrow> bool \<Rightarrow> (nat \<times> devices) option" where
  "block_register s name type sectors driver mem_ok = do {
     ASSERT mem_ok;
     let b = \<lparr>b_name = take 15 name, b_type = type, b_size = sectors, contents = driver, read_cnt = 0, write_cnt = 0\<rparr>;
     Some (length (all_blocks s), s\<lparr>all_blocks := all_blocks s @ [b]\<rparr>) }"

section \<open>Sectors\<close>

definition sectors_ok :: "block \<Rightarrow> bool" where
  "sectors_ok b \<longleftrightarrow> b_type b \<noteq> BLOCK_FOREIGN \<and> b_size b < 2 ^ 32 \<and>
     (\<forall>n < b_size b. length (contents b n) = BLOCK_SECTOR_SIZE)"

lemma block_write_ok:
  "sectors_ok b \<Longrightarrow> n < b_size b \<Longrightarrow> length buf = BLOCK_SECTOR_SIZE \<Longrightarrow>
   \<exists>b'. block_write b n buf = Some b' \<and> sectors_ok b' \<and> contents b' = (contents b)(n := buf) \<and> b_size b' = b_size b"
  by (auto simp: block_write_def check_sector_def sectors_ok_def)

lemma block_read_ok:
  "n < b_size b \<Longrightarrow> block_read b n = Some (contents b n, b\<lparr>read_cnt := read_cnt b + 1\<rparr>)"
  by (simp add: block_read_def check_sector_def)

text \<open>The device as one array of bytes.\<close>

definition disk :: "block \<Rightarrow> bytes" where
  "disk b = concat (map (contents b) [0..<b_size b])"

lemma length_concat_const: "(\<forall>x\<in>set xs. length x = c) \<Longrightarrow> length (concat xs) = c * length xs"
  by (induction xs) simp_all

lemma length_disk [simp]: "sectors_ok b \<Longrightarrow> length (disk b) = 512 * b_size b"
  using length_concat_const [of "map (contents b) [0..<b_size b]" 512]
  by (auto simp: disk_def sectors_ok_def BLOCK_SECTOR_SIZE_def)

lemma disk_split:
  assumes "sectors_ok b" "n < b_size b"
  obtains xs ys where "disk b = xs @ contents b n @ ys" "length xs = 512 * n"
    "\<And>b'. b_size b' = b_size b \<Longrightarrow> (\<And>m. m \<noteq> n \<Longrightarrow> contents b' m = contents b m) \<Longrightarrow>
       disk b' = xs @ contents b' n @ ys"
proof -
  have up: "[0..<b_size b] = [0..<n] @ n # [Suc n..<b_size b]"
    using assms(2) upt_add_eq_append [of 0 n "b_size b - n"] by (simp add: upt_conv_Cons)
  let ?xs = "concat (map (contents b) [0..<n])" and ?ys = "concat (map (contents b) [Suc n..<b_size b])"
  have "length ?xs = 512 * n"
    using assms by (subst length_concat_const [of _ 512]) (auto simp: sectors_ok_def BLOCK_SECTOR_SIZE_def)
  moreover have "disk b' = ?xs @ contents b' n @ ?ys"
    if "b_size b' = b_size b" "\<And>m. m \<noteq> n \<Longrightarrow> contents b' m = contents b m" for b'
  proof -
    have eq: "map (contents b') [0..<n] = map (contents b) [0..<n]"
      "map (contents b') [Suc n..<b_size b] = map (contents b) [Suc n..<b_size b]"
      using that(2) by simp_all
    show ?thesis unfolding disk_def that(1) up by (simp only: map_append list.map concat_append concat.simps eq)
  qed
  ultimately show ?thesis using that [of ?xs ?ys] by blast
qed

lemma chunk_disk_sector:
  assumes "sectors_ok b" "n < b_size b"
  shows "chunk (disk b) (512 * n) 512 = contents b n"
proof -
  obtain xs ys where "disk b = xs @ contents b n @ ys" "length xs = 512 * n"
    by (rule disk_split [OF assms]) blast
  moreover have "length (contents b n) = 512" using assms by (simp add: sectors_ok_def BLOCK_SECTOR_SIZE_def)
  ultimately show ?thesis by (simp add: chunk_def)
qed

lemma block_write_disk:
  assumes "sectors_ok b" "n < b_size b" "length buf = 512"
  obtains b' where "block_write b n buf = Some b'" "sectors_ok b'" "b_size b' = b_size b"
    "disk b' = overlay (disk b) (512 * n) buf"
proof -
  obtain b' where b': "block_write b n buf = Some b'" "sectors_ok b'" "contents b' = (contents b)(n := buf)"
      "b_size b' = b_size b"
    using block_write_ok [OF assms(1,2)] assms(3) by (auto simp: BLOCK_SECTOR_SIZE_def)
  obtain xs ys where d: "disk b = xs @ contents b n @ ys" "length xs = 512 * n" "disk b' = xs @ contents b' n @ ys"
    by (rule disk_split [OF assms(1,2)]) (use b'(3,4) in auto)
  have "length (contents b n) = 512" using assms(1,2) by (simp add: sectors_ok_def BLOCK_SECTOR_SIZE_def)
  then have "disk b' = overlay (disk b) (512 * n) buf" using d b'(3) assms(3) by (simp add: overlay_def)
  then show ?thesis using b' that by blast
qed

lemma block_write_part:
  assumes "sectors_ok b" "n < b_size b" "ofs + length part \<le> 512"
  obtains b' where "block_write b n (overlay (contents b n) ofs part) = Some b'" "sectors_ok b'" "b_size b' = b_size b"
    "disk b' = overlay (disk b) (512 * n + ofs) part"
proof -
  have l: "length (contents b n) = 512" using assms(1,2) by (simp add: sectors_ok_def BLOCK_SECTOR_SIZE_def)
  then have "length (overlay (contents b n) ofs part) = 512" using assms(3) by simp
  moreover have "overlay (disk b) (512 * n) (overlay (contents b n) ofs part) = overlay (disk b) (512 * n + ofs) part"
    using assms chunk_disk_sector [OF assms(1,2)] overlay_inside [of ofs part 512 "512 * n" "disk b"] by simp
  ultimately show ?thesis using that block_write_disk [OF assms(1,2)] by metis
qed

end
