(* ===== verification/Inode_IO.thy ===== *)
theory Inode_IO
  imports Block_Device Bitmap
begin

text \<open>
  The state of the file system and the part of \<^verbatim>\<open>filesys/inode.c\<close> that reads and writes: inodes on
  disk and in memory, \<open>inode_open\<close>, \<open>inode_read_at\<close>, \<open>inode_write_at\<close>. The lemmas say what the two
  loops do to the bytes of an inode.

  In-memory objects live in partial maps from addresses; following the address of a freed object
  stops the kernel. \<open>malloc\<close> and \<open>calloc\<close> give a fresh address or fail as the map \<open>oom\<close> of the
  state says, so that every pattern of failures is covered.
\<close>

section \<open>State\<close>

text \<open>\<open>struct inode_disk\<close>, \<open>struct inode\<close>, \<open>struct file\<close> and \<open>struct dir\<close>.\<close>

record inode_disk =
  id_start :: nat
  id_length :: int
  id_magic :: nat
  id_unused :: bytes

record inode =
  i_sector :: nat
  i_open_cnt :: int
  i_removed :: bool
  i_deny_write_cnt :: int
  i_data :: inode_disk

record ofile =
  f_inode :: nat
  f_pos :: int
  f_deny_write :: bool

record dir =
  d_inode :: nat
  d_pos :: int

record fs =
  fs_device :: block
  inodes :: "nat \<Rightarrow> inode option"
  open_inodes :: "nat list"
  files :: "nat \<Rightarrow> ofile option"
  dirs :: "nat \<Rightarrow> dir option"
  free_map :: bitmap
  free_map_file :: nat
  oom :: "nat \<Rightarrow> bool"
  next_ptr :: nat

definition INODE_MAGIC :: nat where
  "INODE_MAGIC = 0x494e4f44"

definition malloc :: "fs \<Rightarrow> nat \<times> fs" where
  "malloc s = (if oom s (next_ptr s) then NULL else next_ptr s, s\<lparr>next_ptr := next_ptr s + 1\<rparr>)"

text \<open>How an inode lies in its sector.\<close>

definition enc_inode :: "inode_disk \<Rightarrow> bytes" where
  "enc_inode d = le_bytes 4 (id_start d) @ le_bytes 4 (nat (id_length d mod 2 ^ 32)) @
     le_bytes 4 (id_magic d) @ id_unused d"

definition dec_inode :: "bytes \<Rightarrow> inode_disk" where
  "dec_inode bs = \<lparr>id_start = of_le (chunk bs 0 4), id_length = s32 (int (of_le (chunk bs 4 4))),
     id_magic = of_le (chunk bs 8 4), id_unused = drop 12 bs\<rparr>"

text \<open>\<open>DIV_ROUND_UP\<close> on an \<open>off_t\<close>, converted to \<open>size_t\<close>.\<close>

definition bytes_to_sectors :: "int \<Rightarrow> nat" where
  "bytes_to_sectors n = nat ((s32 (n + 512 - 1) sdiv 512) mod 2 ^ 32)"

definition byte_to_sector :: "inode_disk \<Rightarrow> int \<Rightarrow> nat" where
  "byte_to_sector d pos =
     (if pos < id_length d then nat ((int (id_start d) + pos sdiv 512) mod 2 ^ 32) else nat (2 ^ 32 - 1))"

section \<open>Reading and writing\<close>

definition fs_read :: "fs \<Rightarrow> nat \<Rightarrow> (bytes \<times> fs) option" where
  "fs_read s n = do { (buf, b) \<leftarrow> block_read (fs_device s) n; Some (buf, s\<lparr>fs_device := b\<rparr>) }"

definition fs_write :: "fs \<Rightarrow> nat \<Rightarrow> bytes \<Rightarrow> fs option" where
  "fs_write s n buf = do { b \<leftarrow> block_write (fs_device s) n buf; Some (s\<lparr>fs_device := b\<rparr>) }"

text \<open>The local variables \<open>sector_ofs\<close>, \<open>sector_left\<close> and \<open>chunk_size\<close> of both loops.\<close>

definition sector_ofs :: "int \<Rightarrow> int" where
  "sector_ofs offset = offset smod 512"

definition sector_left :: "int \<Rightarrow> int" where
  "sector_left offset = 512 - sector_ofs offset"

definition chunk_size :: "inode_disk \<Rightarrow> int \<Rightarrow> int \<Rightarrow> int" where
  "chunk_size d n offset =
     (let inode_left = id_length d - offset;
          min_left = (if inode_left < sector_left offset then inode_left else sector_left offset)
      in if n < min_left then n else min_left)"

text \<open>The bounce buffer is allocated by the first partial sector.\<close>

definition get_bounce :: "bool \<Rightarrow> fs \<Rightarrow> bool \<times> fs" where
  "get_bounce bounce s = (if bounce then (True, s) else let (p, s) = malloc s in (p \<noteq> NULL, s))"

text \<open>
  The loops return the bytes read, or the number of bytes written, up to the end or the break.
  \<open>n\<close> is what is left of the parameter \<open>size\<close>.
\<close>

function read_loop :: "inode_disk \<Rightarrow> bool \<Rightarrow> int \<Rightarrow> int \<Rightarrow> bytes \<Rightarrow> fs \<Rightarrow> (bytes \<times> fs) option" where
  "read_loop d bounce n offset acc s =
     (if n > 0 then
        let c = chunk_size d n offset in
        if c \<le> 0 then Some (acc, s)
        else if sector_ofs offset = 0 \<and> c = 512 then do {
          (buf, s) \<leftarrow> fs_read s (byte_to_sector d offset);
          read_loop d bounce (n - c) (offset + c) (acc @ buf) s }
        else
          let (ok, s) = get_bounce bounce s in
          if \<not> ok then Some (acc, s)
          else do {
            (buf, s) \<leftarrow> fs_read s (byte_to_sector d offset);
            read_loop d True (n - c) (offset + c) (acc @ chunk buf (nat (sector_ofs offset)) (nat c)) s }
      else Some (acc, s))"
  by pat_completeness auto
termination by (relation "measure (\<lambda>(d, bounce, n, offset, acc, s). nat n)") auto

function write_loop :: "inode_disk \<Rightarrow> bool \<Rightarrow> bytes \<Rightarrow> int \<Rightarrow> int \<Rightarrow> int \<Rightarrow> fs \<Rightarrow> (int \<times> fs) option" where
  "write_loop d bounce buffer n offset written s =
     (if n > 0 then
        let c = chunk_size d n offset in
        if c \<le> 0 then Some (written, s)
        else
          let part = chunk buffer (nat written) (nat c) in
          if sector_ofs offset = 0 \<and> c = 512 then do {
            s \<leftarrow> fs_write s (byte_to_sector d offset) part;
            write_loop d bounce buffer (n - c) (offset + c) (written + c) s }
          else
            let (ok, s) = get_bounce bounce s in
            if \<not> ok then Some (written, s)
            else do {
              (buf, s) \<leftarrow> (if sector_ofs offset > 0 \<or> c < sector_left offset
                           then fs_read s (byte_to_sector d offset)
                           else Some (replicate BLOCK_SECTOR_SIZE 0, s));
              s \<leftarrow> fs_write s (byte_to_sector d offset) (overlay buf (nat (sector_ofs offset)) part);
              write_loop d True buffer (n - c) (offset + c) (written + c) s }
      else Some (written, s))"
  by pat_completeness auto
termination by (relation "measure (\<lambda>(d, bounce, buffer, n, offset, written, s). nat n)") auto

declare read_loop.simps [simp del] write_loop.simps [simp del]

text \<open>The result of a read is the bytes that end up in the buffer; their number is returned.\<close>

definition inode_read_at :: "fs \<Rightarrow> nat \<Rightarrow> int \<Rightarrow> int \<Rightarrow> (bytes \<times> fs) option" where
  "inode_read_at s p n offset = do {
     ino \<leftarrow> inodes s p;
     read_loop (i_data ino) False n offset [] s }"

definition inode_write_at :: "fs \<Rightarrow> nat \<Rightarrow> bytes \<Rightarrow> int \<Rightarrow> int \<Rightarrow> (int \<times> fs) option" where
  "inode_write_at s p buffer n offset = do {
     ino \<leftarrow> inodes s p;
     if i_deny_write_cnt ino \<noteq> 0 then Some (0, s)
     else write_loop (i_data ino) False buffer n offset 0 s }"

section \<open>Opening\<close>

definition inode_init :: "fs \<Rightarrow> fs" where
  "inode_init s = s\<lparr>open_inodes := []\<rparr>"

definition inode_reopen :: "fs \<Rightarrow> nat \<Rightarrow> (nat \<times> fs) option" where
  "inode_reopen s p =
     (if p \<noteq> NULL
      then do {
        ino \<leftarrow> inodes s p;
        Some (p, s\<lparr>inodes := (inodes s)(p \<mapsto> ino\<lparr>i_open_cnt := i_open_cnt ino + 1\<rparr>)\<rparr>) }
      else Some (p, s))"

fun find_open :: "fs \<Rightarrow> nat \<Rightarrow> nat list \<Rightarrow> nat option option" where
  "find_open s sector [] = Some None"
| "find_open s sector (p # ps) = do {
     ino \<leftarrow> inodes s p;
     if i_sector ino = sector then Some (Some p) else find_open s sector ps }"

definition inode_open :: "fs \<Rightarrow> nat \<Rightarrow> (nat \<times> fs) option" where
  "inode_open s sector = do {
     found \<leftarrow> find_open s sector (open_inodes s);
     case found of
       Some p \<Rightarrow> inode_reopen s p
     | None \<Rightarrow>
         let (p, s) = malloc s in
         if p = NULL then Some (NULL, s)
         else do {
           (buf, s) \<leftarrow> fs_read s sector;
           Some (p, s\<lparr>open_inodes := p # open_inodes s,
                      inodes := (inodes s)(p \<mapsto> \<lparr>i_sector = sector, i_open_cnt = 1, i_removed = False,
                                               i_deny_write_cnt = 0, i_data = dec_inode buf\<rparr>)\<rparr>) } }"

definition inode_get_inumber :: "fs \<Rightarrow> nat \<Rightarrow> nat option" where
  "inode_get_inumber s p = map_option i_sector (inodes s p)"

definition inode_length :: "fs \<Rightarrow> nat \<Rightarrow> int option" where
  "inode_length s p = map_option (\<lambda>ino. id_length (i_data ino)) (inodes s p)"

definition inode_remove :: "fs \<Rightarrow> nat \<Rightarrow> fs option" where
  "inode_remove s p = do {
     ASSERT (p \<noteq> NULL);
     ino \<leftarrow> inodes s p;
     Some (s\<lparr>inodes := (inodes s)(p \<mapsto> ino\<lparr>i_removed := True\<rparr>)\<rparr>) }"

definition inode_deny_write :: "fs \<Rightarrow> nat \<Rightarrow> fs option" where
  "inode_deny_write s p = do {
     ino \<leftarrow> inodes s p;
     let ino = ino\<lparr>i_deny_write_cnt := i_deny_write_cnt ino + 1\<rparr>;
     ASSERT (i_deny_write_cnt ino \<le> i_open_cnt ino);
     Some (s\<lparr>inodes := (inodes s)(p \<mapsto> ino)\<rparr>) }"

definition inode_allow_write :: "fs \<Rightarrow> nat \<Rightarrow> fs option" where
  "inode_allow_write s p = do {
     ino \<leftarrow> inodes s p;
     ASSERT (i_deny_write_cnt ino > 0);
     ASSERT (i_deny_write_cnt ino \<le> i_open_cnt ino);
     Some (s\<lparr>inodes := (inodes s)(p \<mapsto> ino\<lparr>i_deny_write_cnt := i_deny_write_cnt ino - 1\<rparr>)\<rparr>) }"

section \<open>Inodes on disk\<close>

lemma dec_enc_inode:
  assumes "id_start d < 2 ^ 32" "s32_range (id_length d)" "id_magic d < 2 ^ 32"
  shows "dec_inode (enc_inode d) = d"
proof -
  let ?l = "nat (id_length d mod 2 ^ 32)"
  have "chunk (enc_inode d) 0 4 = le_bytes 4 (id_start d)" "chunk (enc_inode d) 4 4 = le_bytes 4 ?l"
    "chunk (enc_inode d) 8 4 = le_bytes 4 (id_magic d)" "drop 12 (enc_inode d) = id_unused d"
    by (simp_all add: enc_inode_def chunk_def)
  moreover have "of_le (le_bytes 4 ?l) = ?l" by (simp add: of_le_le_bytes nat_mod_distrib)
  moreover have "s32 (int ?l) = id_length d"
  proof -
    have "int ?l = id_length d mod 2 ^ 32" by simp
    moreover have "s32 (id_length d mod 2 ^ 32) = s32 (id_length d)" unfolding s32_def by (simp only: mod_add_left_eq)
    ultimately show ?thesis using assms(2) by (simp only: s32_id)
  qed
  ultimately show ?thesis using assms(1,3) by (simp add: dec_inode_def)
qed

text \<open>
  An inode fits its device when its length is not negative, rounding it up to sectors does not
  overflow, and its sectors exist. Its bytes are a block of the device.
\<close>

definition inode_fits :: "block \<Rightarrow> inode_disk \<Rightarrow> bool" where
  "inode_fits b d \<longleftrightarrow> 0 \<le> id_length d \<and> id_length d < 2 ^ 31 - 511 \<and>
     id_start d + bytes_to_sectors (id_length d) \<le> b_size b"

definition inode_bytes :: "block \<Rightarrow> inode_disk \<Rightarrow> bytes" where
  "inode_bytes b d = chunk (disk b) (512 * id_start d) (nat (id_length d))"

lemma bytes_to_sectors_eq:
  "0 \<le> n \<Longrightarrow> n < 2 ^ 31 - 511 \<Longrightarrow> bytes_to_sectors n = (nat n + 511) div 512"
proof -
  assume n: "0 \<le> n" "n < 2 ^ 31 - 511"
  then have "s32 (n + 512 - 1) = n + 511" by (simp add: s32_id s32_range_def)
  moreover have "(n + 511) sdiv 512 = (n + 511) div 512" using n by (simp add: signed_divide_int_def)
  moreover have "(n + 511) div 512 mod 2 ^ 32 = (n + 511) div 512" using n by simp
  ultimately show ?thesis using n by (simp add: bytes_to_sectors_def nat_div_distrib nat_add_distrib)
qed

lemma inode_fits_bound:
  assumes "inode_fits b d"
  shows "512 * id_start d + nat (id_length d) \<le> 512 * b_size b"
  using assms bytes_to_sectors_eq [of "id_length d"] by (simp add: inode_fits_def) linarith

lemma byte_to_sector_eq:
  assumes "inode_fits b d" "b_size b < 2 ^ 32" "ofs < nat (id_length d)"
  shows "byte_to_sector d (int ofs) = id_start d + ofs div 512" "id_start d + ofs div 512 < b_size b"
proof -
  show lt: "id_start d + ofs div 512 < b_size b"
    using assms(1,3) bytes_to_sectors_eq [of "id_length d"] by (simp add: inode_fits_def) linarith
  have "int ofs sdiv 512 = int (ofs div 512)" by (cases "ofs = 0") (simp_all add: signed_divide_int_def zdiv_int)
  then have "nat ((int (id_start d) + int ofs sdiv 512) mod 2 ^ 32) = nat (int (id_start d + ofs div 512) mod 2 ^ 32)"
    by simp
  also have "\<dots> = id_start d + ofs div 512" using lt assms(2) by (simp add: nat_mod_distrib)
  finally show "byte_to_sector d (int ofs) = id_start d + ofs div 512"
    using assms(3) by (simp add: byte_to_sector_def zless_nat_eq_int_zless)
qed

lemma sector_ofs_eq: "sector_ofs (int ofs) = int (ofs mod 512)"
  by (cases "ofs = 0") (simp_all add: sector_ofs_def signed_modulo_int_def zmod_int)

lemma chunk_size_eq:
  "chunk_size d (int n) (int ofs) =
     min (int n) (min (id_length d - int ofs) (int (512 - ofs mod 512)))"
proof -
  have "int (512 - ofs mod 512) = 512 - int (ofs mod 512)" using mod_less_divisor [of 512 ofs] by linarith
  then show ?thesis by (simp add: chunk_size_def sector_left_def sector_ofs_eq Let_def min_def)
qed

text \<open>What is left of a transfer of \<open>n\<close> bytes from position \<open>ofs\<close> on.\<close>

definition left :: "inode_disk \<Rightarrow> nat \<Rightarrow> nat \<Rightarrow> nat" where
  "left d n ofs = min n (nat (id_length d) - ofs)"

text \<open>One turn of a loop: it moves \<open>c\<close> bytes, which lie in one sector.\<close>

lemma loop_turn:
  assumes "inode_fits b d" "b_size b < 2 ^ 32" "0 < left d n ofs"
  obtains c where "chunk_size d (int n) (int ofs) = int c" "0 < c" "c \<le> left d n ofs" "ofs mod 512 + c \<le> 512"
    "byte_to_sector d (int ofs) = id_start d + ofs div 512" "id_start d + ofs div 512 < b_size b"
    "left d (n - c) (ofs + c) = left d n ofs - c" "512 * (id_start d + ofs div 512) + ofs mod 512 = 512 * id_start d + ofs"
proof -
  let ?c = "min n (min (nat (id_length d) - ofs) (512 - ofs mod 512))"
  have lt: "ofs < nat (id_length d)" using assms(3) by (simp add: left_def)
  have pos: "0 < 512 - ofs mod 512" by simp
  have len: "id_length d - int ofs = int (nat (id_length d) - ofs)" using lt by linarith
  have "chunk_size d (int n) (int ofs) = int ?c" by (simp only: chunk_size_eq len of_nat_min)
  moreover have "0 < ?c" using assms(3) pos by (simp add: left_def)
  moreover have "?c \<le> left d n ofs" by (simp add: left_def)
  moreover have "ofs mod 512 + ?c \<le> 512" using pos by linarith
  moreover have "left d (n - ?c) (ofs + ?c) = left d n ofs - ?c"
    by (simp only: left_def diff_diff_left [symmetric] min_diff)
  moreover have "512 * (id_start d + ofs div 512) + ofs mod 512 = 512 * id_start d + ofs" by simp
  ultimately show ?thesis using that byte_to_sector_eq [OF assms(1,2) lt] by blast
qed

lemma loop_end:
  assumes "left d n ofs = 0" "0 \<le> id_length d"
  shows "n = 0 \<or> chunk_size d (int n) (int ofs) \<le> 0"
  using assms by (auto simp: left_def chunk_size_eq)

section \<open>The effect of the loops\<close>

text \<open>A read changes the read counter and may allocate; a write may also change the device.\<close>

definition reads :: "fs \<Rightarrow> fs \<Rightarrow> bool" where
  "reads s s' \<longleftrightarrow> (\<exists>r q. next_ptr s \<le> q \<and>
     s' = s\<lparr>fs_device := (fs_device s)\<lparr>read_cnt := r\<rparr>, next_ptr := q\<rparr>)"

definition writes :: "fs \<Rightarrow> fs \<Rightarrow> bool" where
  "writes s s' \<longleftrightarrow> (\<exists>b q. next_ptr s \<le> q \<and> s' = s\<lparr>fs_device := b, next_ptr := q\<rparr> \<and>
     b_size b = b_size (fs_device s) \<and> sectors_ok b)"

lemma reads_refl [simp]: "reads s s"
  unfolding reads_def by (intro exI [of _ "read_cnt (fs_device s)"] exI [of _ "next_ptr s"]) simp

lemma reads_trans [trans]: "reads s s' \<Longrightarrow> reads s' s'' \<Longrightarrow> reads s s''"
proof -
  assume "reads s s'" "reads s' s''"
  then obtain r q r' q' where "next_ptr s \<le> q" "s' = s\<lparr>fs_device := (fs_device s)\<lparr>read_cnt := r\<rparr>, next_ptr := q\<rparr>"
    "q \<le> q'" "s'' = s'\<lparr>fs_device := (fs_device s')\<lparr>read_cnt := r'\<rparr>, next_ptr := q'\<rparr>"
    by (auto simp: reads_def)
  then show ?thesis unfolding reads_def by (intro exI [of _ r'] exI [of _ q']) simp
qed

lemma disk_read_cnt [simp]: "disk (b\<lparr>read_cnt := r\<rparr>) = disk b" "sectors_ok (b\<lparr>read_cnt := r\<rparr>) = sectors_ok b"
  "inode_fits (b\<lparr>read_cnt := r\<rparr>) d = inode_fits b d"
  by (simp_all add: disk_def sectors_ok_def inode_fits_def)

lemma readsD:
  assumes "reads s s'"
  shows "disk (fs_device s') = disk (fs_device s)" "sectors_ok (fs_device s') = sectors_ok (fs_device s)"
    "inode_fits (fs_device s') d = inode_fits (fs_device s) d" "b_size (fs_device s') = b_size (fs_device s)"
    "inodes s' = inodes s" "open_inodes s' = open_inodes s" "files s' = files s" "dirs s' = dirs s"
    "free_map s' = free_map s" "free_map_file s' = free_map_file s" "oom s' = oom s" "next_ptr s \<le> next_ptr s'"
    "contents (fs_device s') = contents (fs_device s)"
  using assms by (auto simp: reads_def)

lemma writes_refl [simp]: "sectors_ok (fs_device s) \<Longrightarrow> writes s s"
  unfolding writes_def by (intro exI [of _ "fs_device s"] exI [of _ "next_ptr s"]) simp

lemma writes_trans [trans]: "writes s s' \<Longrightarrow> writes s' s'' \<Longrightarrow> writes s s''"
proof -
  assume "writes s s'" "writes s' s''"
  then obtain b q b' q' where "next_ptr s \<le> q" "s' = s\<lparr>fs_device := b, next_ptr := q\<rparr>"
    "b_size b = b_size (fs_device s)" "q \<le> q'" "s'' = s'\<lparr>fs_device := b', next_ptr := q'\<rparr>"
    "b_size b' = b_size b" "sectors_ok b'"
    by (auto simp: writes_def)
  then show ?thesis unfolding writes_def by (intro exI [of _ b'] exI [of _ q']) simp
qed

lemma reads_writes: "reads s s' \<Longrightarrow> sectors_ok (fs_device s) \<Longrightarrow> writes s s'"
proof -
  assume "reads s s'" and ok: "sectors_ok (fs_device s)"
  then obtain r q where "next_ptr s \<le> q" "s' = s\<lparr>fs_device := (fs_device s)\<lparr>read_cnt := r\<rparr>, next_ptr := q\<rparr>"
    by (auto simp: reads_def)
  then show ?thesis
    using ok unfolding writes_def by (intro exI [of _ "(fs_device s)\<lparr>read_cnt := r\<rparr>"] exI [of _ q]) simp
qed

lemma writesD:
  assumes "writes s s'"
  shows "sectors_ok (fs_device s')" "b_size (fs_device s') = b_size (fs_device s)"
    "inode_fits (fs_device s') d = inode_fits (fs_device s) d"
    "inodes s' = inodes s" "open_inodes s' = open_inodes s" "files s' = files s" "dirs s' = dirs s"
    "free_map s' = free_map s" "free_map_file s' = free_map_file s" "oom s' = oom s" "next_ptr s \<le> next_ptr s'"
  using assms by (auto simp: writes_def inode_fits_def)

lemma get_bounce_cases:
  obtains (ok) s' where "get_bounce bounce s = (True, s')" "reads s s'"
  | (fail) s' where "get_bounce bounce s = (False, s')" "reads s s'" "\<not> bounce" "oom s (next_ptr s) \<or> next_ptr s = 0"
proof -
  have "reads s (s\<lparr>next_ptr := next_ptr s + 1\<rparr>)"
    unfolding reads_def by (intro exI [of _ "read_cnt (fs_device s)"] exI [of _ "next_ptr s + 1"]) simp
  note rd = this
  show ?thesis
  proof (cases bounce)
    case True
    then show ?thesis by (intro ok [of s]) (simp_all add: get_bounce_def)
  next
    case False
    show ?thesis
    proof (cases "oom s (next_ptr s) \<or> next_ptr s = 0")
      case True
      then show ?thesis using False rd
        by (intro fail [of "s\<lparr>next_ptr := next_ptr s + 1\<rparr>"]) (auto simp: get_bounce_def malloc_def)
    next
      case False
      then show ?thesis using \<open>\<not> bounce\<close> rd
        by (intro ok [of "s\<lparr>next_ptr := next_ptr s + 1\<rparr>"]) (auto simp: get_bounce_def malloc_def)
    qed
  qed
qed

lemma fs_read_ok:
  assumes "n < b_size (fs_device s)"
  obtains s' where "fs_read s n = Some (contents (fs_device s) n, s')" "reads s s'" "next_ptr s' = next_ptr s"
proof -
  let ?s = "s\<lparr>fs_device := (fs_device s)\<lparr>read_cnt := read_cnt (fs_device s) + 1\<rparr>\<rparr>"
  have "fs_read s n = Some (contents (fs_device s) n, ?s)" by (simp add: fs_read_def block_read_ok [OF assms])
  moreover have "reads s ?s"
    unfolding reads_def by (intro exI [of _ "read_cnt (fs_device s) + 1"] exI [of _ "next_ptr s"]) simp
  ultimately show ?thesis using that [of ?s] by simp
qed

text \<open>Whether the bounce buffer is there or can be had.\<close>

definition can_bounce :: "bool \<Rightarrow> fs \<Rightarrow> bool" where
  "can_bounce bounce s \<longleftrightarrow> bounce \<or> \<not> oom s (next_ptr s) \<and> next_ptr s \<noteq> 0"

lemma read_loop_full:
  "0 < n \<Longrightarrow> chunk_size d n ofs = c \<Longrightarrow> 0 < c \<Longrightarrow> sector_ofs ofs = 0 \<and> c = 512 \<Longrightarrow>
   fs_read s (byte_to_sector d ofs) = Some (buf, s1) \<Longrightarrow>
   read_loop d bounce n ofs acc s = read_loop d bounce (n - c) (ofs + c) (acc @ buf) s1"
  by (subst read_loop.simps) (simp add: Let_def)

lemma read_loop_part:
  "0 < n \<Longrightarrow> chunk_size d n ofs = c \<Longrightarrow> 0 < c \<Longrightarrow> \<not> (sector_ofs ofs = 0 \<and> c = 512) \<Longrightarrow>
   get_bounce bounce s = (True, s0) \<Longrightarrow> fs_read s0 (byte_to_sector d ofs) = Some (buf, s1) \<Longrightarrow>
   read_loop d bounce n ofs acc s =
     read_loop d True (n - c) (ofs + c) (acc @ chunk buf (nat (sector_ofs ofs)) (nat c)) s1"
  by (subst read_loop.simps) (auto simp: Let_def)

lemma read_loop_fail:
  "0 < n \<Longrightarrow> chunk_size d n ofs = c \<Longrightarrow> 0 < c \<Longrightarrow> \<not> (sector_ofs ofs = 0 \<and> c = 512) \<Longrightarrow>
   get_bounce bounce s = (False, s1) \<Longrightarrow> read_loop d bounce n ofs acc s = Some (acc, s1)"
  by (subst read_loop.simps) (auto simp: Let_def)

lemma read_turn:
  assumes "sectors_ok (fs_device s)" "inode_fits (fs_device s) d" "0 < left d n ofs"
  obtains (stop) s1 where "read_loop d bounce (int n) (int ofs) acc s = Some (acc, s1)" "reads s s1"
      "\<not> can_bounce bounce s"
  | (turn) c b s1 where "0 < c" "c \<le> left d n ofs" "left d (n - c) (ofs + c) = left d n ofs - c"
      "read_loop d bounce (int n) (int ofs) acc s =
         read_loop d b (int (n - c)) (int (ofs + c)) (acc @ chunk (disk (fs_device s)) (512 * id_start d + ofs) c) s1"
      "reads s s1" "can_bounce bounce s \<longrightarrow> can_bounce b s1"
proof -
  let ?p = "512 * id_start d + ofs" and ?D = "disk (fs_device s)"
  have size: "b_size (fs_device s) < 2 ^ 32" using assms(1) by (simp add: sectors_ok_def)
  obtain c where c: "chunk_size d (int n) (int ofs) = int c" "0 < c" "c \<le> left d n ofs"
      "ofs mod 512 + c \<le> 512" "byte_to_sector d (int ofs) = id_start d + ofs div 512"
      "id_start d + ofs div 512 < b_size (fs_device s)" "left d (n - c) (ofs + c) = left d n ofs - c"
      "512 * (id_start d + ofs div 512) + ofs mod 512 = ?p"
    by (rule loop_turn [OF assms(2) size assms(3)])
  let ?m = "id_start d + ofs div 512"
  have n: "0 < int n" "int n - int c = int (n - c)" using c(2,3) by (simp_all add: left_def)
  have sec: "chunk (contents (fs_device s) ?m) (ofs mod 512) c = chunk ?D ?p c"
    using chunk_chunk [OF c(4), of ?D "512 * ?m"] unfolding chunk_disk_sector [OF assms(1) c(6)] c(8) .
  have so: "sector_ofs (int ofs) = int (ofs mod 512)" by (rule sector_ofs_eq)
  have pos: "0 < int c" using c(2) by simp
  show ?thesis
  proof (cases "sector_ofs (int ofs) = 0 \<and> int c = 512")
    case True
    obtain s1 where s1: "fs_read s ?m = Some (contents (fs_device s) ?m, s1)" "reads s s1" "next_ptr s1 = next_ptr s"
      by (rule fs_read_ok [OF c(6)])
    have z: "ofs mod 512 = 0" "c = 512" using True so by simp_all
    have eq: "contents (fs_device s) ?m = chunk ?D ?p c"
      using chunk_disk_sector [OF assms(1) c(6)] c(8) [unfolded z(1) add_0_right] unfolding z(2) by (simp only:)
    have "read_loop d bounce (int n) (int ofs) acc s =
        read_loop d bounce (int (n - c)) (int (ofs + c)) (acc @ chunk ?D ?p c) s1"
      using read_loop_full [OF n(1) c(1) pos True, of s _ s1 bounce acc] s1(1) unfolding c(5) eq n(2) by simp
    then show ?thesis using turn c(2,3,7) s1(2,3) readsD(11) [OF s1(2)] by (simp add: can_bounce_def)
  next
    case False
    show ?thesis
    proof (cases bounce s rule: get_bounce_cases)
      case (fail s1)
      then show ?thesis using read_loop_fail [OF n(1) c(1) pos False fail(1)] stop by (simp add: can_bounce_def)
    next
      case (ok s0)
      have "?m < b_size (fs_device s0)" using c(6) readsD(4) [OF ok(2)] by simp
      then obtain s1 where s1: "fs_read s0 ?m = Some (contents (fs_device s0) ?m, s1)" "reads s0 s1"
        by (rule fs_read_ok) blast
      have "read_loop d bounce (int n) (int ofs) acc s =
          read_loop d True (int (n - c)) (int (ofs + c)) (acc @ chunk ?D ?p c) s1"
        using read_loop_part [OF n(1) c(1) pos False ok(1), of _ s1 acc] s1(1)
        unfolding c(5) n(2) so nat_int readsD(13) [OF ok(2)] by (simp add: sec)
      then show ?thesis using turn c(2,3,7) reads_trans [OF ok(2) s1(2)] by (simp add: can_bounce_def)
    qed
  qed
qed

lemma read_loop_ok:
  assumes "sectors_ok (fs_device s)" "inode_fits (fs_device s) d"
  shows "\<exists>k s'. read_loop d bounce (int n) (int ofs) acc s =
      Some (acc @ chunk (disk (fs_device s)) (512 * id_start d + ofs) k, s') \<and> reads s s' \<and> k \<le> left d n ofs \<and>
    (can_bounce bounce s \<longrightarrow> k = left d n ofs)"
  using assms
proof (induction "left d n ofs" arbitrary: n ofs bounce acc s rule: less_induct)
  case less
  let ?p = "512 * id_start d + ofs" and ?D = "disk (fs_device s)"
  show ?case
  proof (cases "left d n ofs = 0")
    case True
    then have "n = 0 \<or> chunk_size d (int n) (int ofs) \<le> 0"
      using loop_end less.prems(2) by (auto simp: inode_fits_def)
    then show ?thesis using True by (intro exI [of _ 0] exI [of _ s]) (auto simp: read_loop.simps Let_def)
  next
    case False
    then have "0 < left d n ofs" by simp
    from less.prems this show ?thesis
    proof (cases rule: read_turn [where bounce = bounce and acc = acc])
      case (stop s1)
      then show ?thesis by (intro exI [of _ 0] exI [of _ s1]) simp
    next
      case (turn c b s1)
      have "left d (n - c) (ofs + c) < left d n ofs" using turn(1-3) by simp
      then obtain k s' where k: "read_loop d b (int (n - c)) (int (ofs + c)) (acc @ chunk ?D ?p c) s1 =
            Some ((acc @ chunk ?D ?p c) @ chunk (disk (fs_device s1)) (512 * id_start d + (ofs + c)) k, s')"
          "reads s1 s'" "k \<le> left d (n - c) (ofs + c)" "can_bounce b s1 \<longrightarrow> k = left d (n - c) (ofs + c)"
        using less.hyps [of "n - c" "ofs + c" s1 b "acc @ chunk ?D ?p c"] readsD(2,3) [OF turn(5)] less.prems by blast
      have "chunk ?D ?p c @ chunk ?D (512 * id_start d + (ofs + c)) k = chunk ?D ?p (c + k)"
        using chunk_append [of ?D ?p c k] by (simp add: add.assoc)
      then have "read_loop d bounce (int n) (int ofs) acc s = Some (acc @ chunk ?D ?p (c + k), s')"
        using k(1) readsD(1) [OF turn(5)] by (simp add: turn(4))
      moreover have "reads s s'" using turn(5) k(2) by (rule reads_trans)
      ultimately show ?thesis using k(3,4) turn(2,3,6) by (intro exI [of _ "c + k"] exI [of _ s']) auto
    qed
  qed
qed

section \<open>Writing\<close>

lemma fs_write_ok:
  assumes "sectors_ok (fs_device s)" "n < b_size (fs_device s)" "length buf = 512"
  obtains s' where "fs_write s n buf = Some s'" "writes s s'" "next_ptr s' = next_ptr s"
    "disk (fs_device s') = overlay (disk (fs_device s)) (512 * n) buf"
proof -
  obtain b where b: "block_write (fs_device s) n buf = Some b" "sectors_ok b" "b_size b = b_size (fs_device s)"
      "disk b = overlay (disk (fs_device s)) (512 * n) buf"
    by (rule block_write_disk [OF assms])
  have "writes s (s\<lparr>fs_device := b\<rparr>)"
    unfolding writes_def using b(2,3) by (intro exI [of _ b] exI [of _ "next_ptr s"]) simp
  then show ?thesis using b that [of "s\<lparr>fs_device := b\<rparr>"] by (simp add: fs_write_def)
qed

lemma write_loop_full:
  "0 < n \<Longrightarrow> chunk_size d n ofs = c \<Longrightarrow> 0 < c \<Longrightarrow> sector_ofs ofs = 0 \<and> c = 512 \<Longrightarrow>
   fs_write s (byte_to_sector d ofs) (chunk buf (nat w) (nat c)) = Some s1 \<Longrightarrow>
   write_loop d bounce buf n ofs w s = write_loop d bounce buf (n - c) (ofs + c) (w + c) s1"
  by (subst write_loop.simps) (simp add: Let_def)

lemma write_loop_part:
  "0 < n \<Longrightarrow> chunk_size d n ofs = c \<Longrightarrow> 0 < c \<Longrightarrow> \<not> (sector_ofs ofs = 0 \<and> c = 512) \<Longrightarrow>
   sector_ofs ofs > 0 \<or> c < sector_left ofs \<Longrightarrow> get_bounce bounce s = (True, s0) \<Longrightarrow>
   fs_read s0 (byte_to_sector d ofs) = Some (sec, s1) \<Longrightarrow>
   fs_write s1 (byte_to_sector d ofs) (overlay sec (nat (sector_ofs ofs)) (chunk buf (nat w) (nat c))) = Some s2 \<Longrightarrow>
   write_loop d bounce buf n ofs w s = write_loop d True buf (n - c) (ofs + c) (w + c) s2"
  by (subst write_loop.simps) (auto simp: Let_def)

lemma write_loop_fail:
  "0 < n \<Longrightarrow> chunk_size d n ofs = c \<Longrightarrow> 0 < c \<Longrightarrow> \<not> (sector_ofs ofs = 0 \<and> c = 512) \<Longrightarrow>
   get_bounce bounce s = (False, s1) \<Longrightarrow> write_loop d bounce buf n ofs w s = Some (w, s1)"
  by (subst write_loop.simps) (auto simp: Let_def)

lemma write_turn:
  assumes "sectors_ok (fs_device s)" "inode_fits (fs_device s) d" "0 < left d n ofs" "w + n \<le> length buf"
  obtains (stop) s1 where "write_loop d bounce buf (int n) (int ofs) (int w) s = Some (int w, s1)" "reads s s1"
      "\<not> can_bounce bounce s"
  | (turn) c b s1 where "0 < c" "c \<le> left d n ofs" "left d (n - c) (ofs + c) = left d n ofs - c" "c \<le> n"
      "write_loop d bounce buf (int n) (int ofs) (int w) s =
         write_loop d b buf (int (n - c)) (int (ofs + c)) (int (w + c)) s1"
      "disk (fs_device s1) = overlay (disk (fs_device s)) (512 * id_start d + ofs) (chunk buf w c)"
      "writes s s1" "can_bounce bounce s \<longrightarrow> can_bounce b s1"
proof -
  let ?p = "512 * id_start d + ofs" and ?D = "disk (fs_device s)"
  have size: "b_size (fs_device s) < 2 ^ 32" using assms(1) by (simp add: sectors_ok_def)
  obtain c where c: "chunk_size d (int n) (int ofs) = int c" "0 < c" "c \<le> left d n ofs"
      "ofs mod 512 + c \<le> 512" "byte_to_sector d (int ofs) = id_start d + ofs div 512"
      "id_start d + ofs div 512 < b_size (fs_device s)" "left d (n - c) (ofs + c) = left d n ofs - c"
      "512 * (id_start d + ofs div 512) + ofs mod 512 = ?p"
    by (rule loop_turn [OF assms(2) size assms(3)])
  let ?m = "id_start d + ofs div 512" and ?part = "chunk buf w c"
  have n: "0 < int n" "int n - int c = int (n - c)" "c \<le> n" using c(2,3) by (simp_all add: left_def)
  have len: "length ?part = c" using n(3) assms(4) by simp
  have so: "sector_ofs (int ofs) = int (ofs mod 512)" by (rule sector_ofs_eq)
  have pos: "0 < int c" using c(2) by simp
  show ?thesis
  proof (cases "sector_ofs (int ofs) = 0 \<and> int c = 512")
    case True
    have z: "ofs mod 512 = 0" "c = 512" using True so by simp_all
    obtain s1 where s1: "fs_write s ?m ?part = Some s1" "writes s s1" "next_ptr s1 = next_ptr s"
        "disk (fs_device s1) = overlay ?D (512 * ?m) ?part"
      by (rule fs_write_ok [OF assms(1) c(6)]) (use len z(2) in auto)
    have d: "disk (fs_device s1) = overlay ?D ?p ?part"
      using s1(4) c(8) [unfolded z(1) add_0_right] by (simp only:)
    have "write_loop d bounce buf (int n) (int ofs) (int w) s =
        write_loop d bounce buf (int (n - c)) (int (ofs + c)) (int (w + c)) s1"
      using write_loop_full [OF n(1) c(1) pos True, of s buf "int w" s1 bounce] s1(1)
      unfolding c(5) n(2) nat_int by simp
    then show ?thesis using turn c(2,3,7) n(3) d s1(2,3) writesD(10) [OF s1(2)] by (simp add: can_bounce_def)
  next
    case False
    then have part: "sector_ofs (int ofs) > 0 \<or> int c < sector_left (int ofs)"
      using c(4) unfolding sector_left_def so by linarith
    show ?thesis
    proof (cases bounce s rule: get_bounce_cases)
      case (fail s1)
      then show ?thesis using write_loop_fail [OF n(1) c(1) pos False fail(1)] stop by (simp add: can_bounce_def)
    next
      case (ok s0)
      have "?m < b_size (fs_device s0)" using c(6) readsD(4) [OF ok(2)] by simp
      then obtain s1 where s1: "fs_read s0 ?m = Some (contents (fs_device s0) ?m, s1)" "reads s0 s1"
        by (rule fs_read_ok) blast
      have rd: "reads s s1" using ok(2) s1(2) by (rule reads_trans)
      note R = readsD [OF rd]
      have sec: "length (contents (fs_device s) ?m) = 512"
        using assms(1) c(6) by (simp add: sectors_ok_def BLOCK_SECTOR_SIZE_def)
      let ?b = "overlay (contents (fs_device s) ?m) (ofs mod 512) ?part"
      obtain s2 where s2: "fs_write s1 ?m ?b = Some s2" "writes s1 s2"
          "disk (fs_device s2) = overlay (disk (fs_device s1)) (512 * ?m) ?b"
        by (rule fs_write_ok [of s1 ?m ?b]) (use assms(1) c(4,6) R(2,4) sec len in auto)
      have "overlay ?D (512 * ?m) ?b = overlay ?D ?p ?part"
        using overlay_inside [of "ofs mod 512" ?part 512 "512 * ?m" ?D] c(4,6) len assms(1)
        unfolding chunk_disk_sector [OF assms(1) c(6)] c(8) by simp
      then have d: "disk (fs_device s2) = overlay ?D ?p ?part" using s2(3) R(1) by (simp only:)
      have "write_loop d bounce buf (int n) (int ofs) (int w) s =
          write_loop d True buf (int (n - c)) (int (ofs + c)) (int (w + c)) s2"
        using write_loop_part [OF n(1) c(1) pos False part ok(1), of _ s1 buf "int w" s2] s1(1) s2(1)
        unfolding c(5) n(2) so nat_int readsD(13) [OF ok(2)] by simp
      moreover have "writes s s2" using reads_writes [OF rd assms(1)] s2(2) by (rule writes_trans)
      ultimately show ?thesis using turn c(2,3,7) n(3) d by (simp add: can_bounce_def)
    qed
  qed
qed

lemma write_loop_ok:
  assumes "sectors_ok (fs_device s)" "inode_fits (fs_device s) d" "w + n \<le> length buf"
  shows "\<exists>k s'. write_loop d bounce buf (int n) (int ofs) (int w) s = Some (int (w + k), s') \<and> writes s s' \<and>
    disk (fs_device s') = overlay (disk (fs_device s)) (512 * id_start d + ofs) (chunk buf w k) \<and>
    k \<le> left d n ofs \<and> (can_bounce bounce s \<longrightarrow> k = left d n ofs)"
  using assms
proof (induction "left d n ofs" arbitrary: n ofs bounce w s rule: less_induct)
  case less
  let ?p = "512 * id_start d + ofs" and ?D = "disk (fs_device s)"
  show ?case
  proof (cases "left d n ofs = 0")
    case True
    then have "n = 0 \<or> chunk_size d (int n) (int ofs) \<le> 0"
      using loop_end less.prems(2) by (auto simp: inode_fits_def)
    then show ?thesis using True less.prems(1)
      by (intro exI [of _ 0] exI [of _ s]) (auto simp: write_loop.simps Let_def)
  next
    case False
    then have "0 < left d n ofs" by simp
    from less.prems(1,2) this less.prems(3) show ?thesis
    proof (cases rule: write_turn [where bounce = bounce])
      case (stop s1)
      then show ?thesis using reads_writes [OF stop(2) less.prems(1)] readsD(1) [OF stop(2)]
        by (intro exI [of _ 0] exI [of _ s1]) simp
    next
      case (turn c b s1)
      have "left d (n - c) (ofs + c) < left d n ofs" "w + c + (n - c) \<le> length buf"
        using turn(1-4) less.prems(3) by simp_all
      then obtain k s' where k: "write_loop d b buf (int (n - c)) (int (ofs + c)) (int (w + c)) s1 = Some (int (w + c + k), s')"
          "writes s1 s'" "disk (fs_device s') = overlay (disk (fs_device s1)) (512 * id_start d + (ofs + c)) (chunk buf (w + c) k)"
          "k \<le> left d (n - c) (ofs + c)" "can_bounce b s1 \<longrightarrow> k = left d (n - c) (ofs + c)"
        using less.hyps [of "n - c" "ofs + c" s1 "w + c" b] writesD(1,3) [OF turn(7)] less.prems(2) by blast
      have kn: "c + k \<le> left d n ofs" using k(4) turn(2,3) by linarith
      then have lc: "length (chunk buf w c) = c" "length (chunk buf (w + c) k) = k"
        using less.prems(3) turn(4) by (simp_all add: left_def)
      have "ofs + (c + k) \<le> nat (id_length d)" using kn turn(1) unfolding left_def by linarith
      then have "?p + c + k \<le> length ?D"
        using inode_fits_bound [OF less.prems(2)] length_disk [OF less.prems(1)] by linarith
      then have "disk (fs_device s') = overlay ?D ?p (chunk buf w (c + k))"
        using overlay_append [of ?p "chunk buf w c" "chunk buf (w + c) k" ?D] lc k(3) turn(6)
        by (simp add: add.assoc chunk_append)
      moreover have "writes s s'" using turn(7) k(2) by (rule writes_trans)
      ultimately show ?thesis using k(1,5) kn turn(2,3,5,8)
        by (intro exI [of _ "c + k"] exI [of _ s']) (auto simp: add.assoc)
    qed
  qed
qed

section \<open>Inodes as byte arrays\<close>

lemma length_inode_bytes [simp]:
  "sectors_ok b \<Longrightarrow> inode_fits b d \<Longrightarrow> length (inode_bytes b d) = nat (id_length d)"
  using inode_fits_bound [of b d] by (simp add: inode_bytes_def)

lemma inode_read_at_ok:
  assumes "inodes s p = Some ino" "sectors_ok (fs_device s)" "inode_fits (fs_device s) (i_data ino)"
  shows "\<exists>k s'. inode_read_at s p (int n) (int ofs) =
      Some (chunk (inode_bytes (fs_device s) (i_data ino)) ofs k, s') \<and> reads s s' \<and>
    k \<le> left (i_data ino) n ofs \<and> (can_bounce False s \<longrightarrow> k = left (i_data ino) n ofs)"
proof -
  let ?d = "i_data ino"
  obtain k s' where k: "read_loop ?d False (int n) (int ofs) [] s =
      Some ([] @ chunk (disk (fs_device s)) (512 * id_start ?d + ofs) k, s')" "reads s s'" "k \<le> left ?d n ofs"
      "can_bounce False s \<longrightarrow> k = left ?d n ofs"
    using read_loop_ok [OF assms(2,3)] by blast
  have "chunk (disk (fs_device s)) (512 * id_start ?d + ofs) k = chunk (inode_bytes (fs_device s) ?d) ofs k"
  proof (cases "k = 0")
    case False
    then have "ofs + k \<le> nat (id_length ?d)" using k(3) unfolding left_def by linarith
    then show ?thesis by (simp add: inode_bytes_def chunk_chunk)
  qed simp
  then show ?thesis using k assms(1) by (auto simp: inode_read_at_def)
qed

lemma inode_write_at_ok:
  assumes "inodes s p = Some ino" "i_deny_write_cnt ino = 0" "sectors_ok (fs_device s)"
    "inode_fits (fs_device s) (i_data ino)" "n \<le> length buf"
  shows "\<exists>k s'. inode_write_at s p buf (int n) (int ofs) = Some (int k, s') \<and> writes s s' \<and>
    disk (fs_device s') = overlay (disk (fs_device s)) (512 * id_start (i_data ino) + ofs) (take k buf) \<and>
    k \<le> left (i_data ino) n ofs \<and> (can_bounce False s \<longrightarrow> k = left (i_data ino) n ofs)"
  using write_loop_ok [OF assms(3,4), of 0 n buf False ofs] assms(1,2,5)
  by (auto simp: inode_write_at_def chunk_def)

text \<open>A block written inside one inode, seen from that inode and from one with other sectors.\<close>

lemma inode_bytes_overlay:
  assumes "sectors_ok b" "inode_fits b d" "disk b' = overlay (disk b) (512 * id_start d + ofs) bs"
    "ofs + length bs \<le> nat (id_length d)"
  shows "inode_bytes b' d = overlay (inode_bytes b d) ofs bs"
  using inode_fits_bound [OF assms(2)] length_disk [OF assms(1)] assms(3,4)
  by (simp add: inode_bytes_def chunk_overlay_inside)

definition data_sectors :: "inode_disk \<Rightarrow> nat set" where
  "data_sectors d = {id_start d ..< id_start d + bytes_to_sectors (id_length d)}"

lemma data_sectors_end:
  "inode_fits b d \<Longrightarrow> nat (id_length d) \<le> 512 * bytes_to_sectors (id_length d)"
  using bytes_to_sectors_eq [of "id_length d"] by (simp add: inode_fits_def)

lemma disjoint_sectors:
  assumes "data_sectors d \<inter> data_sectors d' = {}" "inode_fits b d" "inode_fits b d'" "0 < id_length d'" "0 < id_length d"
  shows "512 * id_start d' + nat (id_length d') \<le> 512 * id_start d \<or>
    512 * id_start d + nat (id_length d) \<le> 512 * id_start d'"
proof -
  let ?n = "bytes_to_sectors (id_length d)" and ?n' = "bytes_to_sectors (id_length d')"
  have le: "nat (id_length d) \<le> 512 * ?n" "nat (id_length d') \<le> 512 * ?n'"
    using data_sectors_end assms(2,3) by blast+
  then have "0 < ?n" "0 < ?n'" using assms(4,5) by (cases ?n; cases ?n'; simp)+
  then have "id_start d + ?n \<le> id_start d' \<or> id_start d' + ?n' \<le> id_start d"
    using assms(1) by (auto simp: data_sectors_def not_le)
  then show ?thesis using le by linarith
qed

text \<open>
  C11. Reading back: after a write inside the file, the bytes of the inode are the old ones with the
  block put over them, and a read of the same range returns exactly the bytes written.
\<close>

theorem inode_write_then_read:
  assumes "inodes s p = Some ino" "i_deny_write_cnt ino = 0" "sectors_ok (fs_device s)"
    "inode_fits (fs_device s) (i_data ino)" "\<forall>q. \<not> oom s q" "next_ptr s \<noteq> 0"
    "ofs + length buf \<le> nat (id_length (i_data ino))"
  shows "\<exists>s' s''. inode_write_at s p buf (int (length buf)) (int ofs) = Some (int (length buf), s') \<and>
    inode_bytes (fs_device s') (i_data ino) = overlay (inode_bytes (fs_device s) (i_data ino)) ofs buf \<and>
    inode_read_at s' p (int (length buf)) (int ofs) = Some (buf, s'')"
proof -
  have l: "left (i_data ino) (length buf) ofs = length buf" using assms(7) by (simp add: left_def)
  obtain s' where w: "inode_write_at s p buf (int (length buf)) (int ofs) = Some (int (length buf), s')" "writes s s'"
      "disk (fs_device s') = overlay (disk (fs_device s)) (512 * id_start (i_data ino) + ofs) buf"
    using inode_write_at_ok [OF assms(1-4) order_refl, of buf ofs] l assms(5,6) by (auto simp: can_bounce_def)
  have b: "inode_bytes (fs_device s') (i_data ino) = overlay (inode_bytes (fs_device s) (i_data ino)) ofs buf"
    by (rule inode_bytes_overlay [OF assms(3,4) w(3) assms(7)])
  note W = writesD [OF w(2)]
  have "inodes s' p = Some ino" "sectors_ok (fs_device s')" "inode_fits (fs_device s') (i_data ino)"
    "can_bounce False s'"
    using W assms(1,4-6) by (auto simp: can_bounce_def)
  from inode_read_at_ok [OF this(1-3), of "length buf" ofs] this(4) obtain s'' where
    "inode_read_at s' p (int (length buf)) (int ofs) =
       Some (chunk (inode_bytes (fs_device s') (i_data ino)) ofs (length buf), s'')" using l by auto
  then show ?thesis using w(1) b assms(3,4,7) by simp
qed

definition sample_inode :: inode where
  "sample_inode = \<lparr>i_sector = 0, i_open_cnt = 1, i_removed = False, i_deny_write_cnt = 0,
     i_data = \<lparr>id_start = 1, id_length = 1000, id_magic = INODE_MAGIC, id_unused = replicate 500 0\<rparr>\<rparr>"

definition sample_fs :: fs where
  "sample_fs = \<lparr>fs_device = \<lparr>b_name = [], b_type = BLOCK_FILESYS, b_size = 4,
       contents = (\<lambda>_. replicate 512 0), read_cnt = 0, write_cnt = 0\<rparr>,
     inodes = (\<lambda>_. None)(1 \<mapsto> sample_inode), open_inodes = [1], files = (\<lambda>_. None), dirs = (\<lambda>_. None),
     free_map = \<lparr>bit_cnt = 4, bits = [7]\<rparr>, free_map_file = 0, oom = (\<lambda>_. False), next_ptr = 2\<rparr>"

lemma sample_fs_ok:
  "inodes sample_fs 1 = Some sample_inode" "i_deny_write_cnt sample_inode = 0" "sectors_ok (fs_device sample_fs)"
  "inode_fits (fs_device sample_fs) (i_data sample_inode)" "\<forall>q. \<not> oom sample_fs q" "next_ptr sample_fs \<noteq> 0"
  "id_length (i_data sample_inode) = 1000"
  by (simp_all add: sample_fs_def sample_inode_def sectors_ok_def inode_fits_def BLOCK_SECTOR_SIZE_def
      bytes_to_sectors_eq)

theorem inode_write_then_read_witness:
  "\<exists>s' s''. inode_write_at sample_fs 1 [1, 2, 3] 3 511 = Some (3, s') \<and>
     inode_read_at s' 1 3 511 = Some ([1, 2, 3], s'')"
  using inode_write_then_read [OF sample_fs_ok(1-6), of 511 "[1, 2, 3]"] sample_fs_ok(7) by auto

text \<open>
  C23. A write changes only the sectors of its own inode: whatever its size and position, and even if
  memory runs out in the middle, it writes at most to the end of the file, and the bytes of every
  inode with other sectors are as before.
\<close>

theorem inode_write_confined:
  assumes "inodes s p = Some ino" "i_deny_write_cnt ino = 0" "sectors_ok (fs_device s)"
    "inode_fits (fs_device s) (i_data ino)" "n \<le> length buf"
    "inode_fits (fs_device s) d" "data_sectors d \<inter> data_sectors (i_data ino) = {}"
  shows "\<exists>k s'. inode_write_at s p buf (int n) (int ofs) = Some (int k, s') \<and>
    k \<le> n \<and> (k = 0 \<or> ofs + k \<le> nat (id_length (i_data ino))) \<and>
    inode_bytes (fs_device s') d = inode_bytes (fs_device s) d"
proof -
  let ?d = "i_data ino" and ?D = "disk (fs_device s)"
  obtain k s' where k: "inode_write_at s p buf (int n) (int ofs) = Some (int k, s')" "k \<le> left ?d n ofs"
      "disk (fs_device s') = overlay ?D (512 * id_start ?d + ofs) (take k buf)"
    using inode_write_at_ok [OF assms(1-5)] by blast
  have kn: "k \<le> n" "k = 0 \<or> ofs + k \<le> nat (id_length ?d)" using k(2) unfolding left_def by linarith+
  have "inode_bytes (fs_device s') d = inode_bytes (fs_device s) d"
  proof (cases "k = 0 \<or> id_length d \<le> 0")
    case True
    then show ?thesis using k(3) by (auto simp: inode_bytes_def)
  next
    case False
    then have le: "ofs + k \<le> nat (id_length ?d)" "0 < id_length ?d" "0 < id_length d" using kn(2) by auto
    note b = inode_fits_bound [OF assms(4)] inode_fits_bound [OF assms(6)] length_disk [OF assms(3)]
    have len: "length (take k buf) = k" using kn(1) assms(5) by simp
    show ?thesis
      using disjoint_sectors [OF assms(7,6,4) le(2,3)] b le(1)
      unfolding inode_bytes_def k(3) by (intro chunk_overlay_other) (auto simp: len)
  qed
  then show ?thesis using k(1) kn by blast
qed

theorem inode_write_confined_witness:
  "\<exists>k s'. inode_write_at sample_fs 1 (replicate 2000 1) 2000 0 = Some (int k, s') \<and> k \<le> 1000 \<and>
     inode_bytes (fs_device s') \<lparr>id_start = 3, id_length = 512, id_magic = 0, id_unused = []\<rparr> =
     inode_bytes (fs_device sample_fs) \<lparr>id_start = 3, id_length = 512, id_magic = 0, id_unused = []\<rparr>"
proof -
  let ?d = "\<lparr>id_start = 3, id_length = 512, id_magic = 0, id_unused = []\<rparr>"
  have "inode_fits (fs_device sample_fs) ?d" "data_sectors ?d \<inter> data_sectors (i_data sample_inode) = {}"
    by (simp_all add: inode_fits_def bytes_to_sectors_eq sample_fs_def sample_inode_def data_sectors_def)
  from inode_write_confined [OF sample_fs_ok(1-4) _ this, of 2000 "replicate 2000 1" 0] show ?thesis
    using sample_fs_ok(7) by (auto intro: le_trans)
qed

end
