(* ===== verification/File_System.thy ===== *)
theory File_System
  imports Inode_IO
begin

text \<open>
  The rest of the file system: open files (\<^verbatim>\<open>filesys/file.c\<close>), the free map
  (\<^verbatim>\<open>filesys/free-map.c\<close> and the file operations of \<^verbatim>\<open>lib/kernel/bitmap.c\<close>), creating and
  closing inodes (\<^verbatim>\<open>filesys/inode.c\<close>), directories (\<^verbatim>\<open>filesys/directory.c\<close>) and the file system's
  own operations (\<^verbatim>\<open>filesys/filesys.c\<close>). A function that returns a value and changes the state
  returns the pair. A null pointer is 0. File names are byte strings without terminator.
\<close>

section \<open>Reading and writing files\<close>

definition file_read_at :: "fs \<Rightarrow> nat \<Rightarrow> int \<Rightarrow> int \<Rightarrow> (bytes \<times> fs) option" where
  "file_read_at s f n file_ofs = do {
     fl \<leftarrow> files s f;
     inode_read_at s (f_inode fl) n file_ofs }"

definition file_write_at :: "fs \<Rightarrow> nat \<Rightarrow> bytes \<Rightarrow> int \<Rightarrow> int \<Rightarrow> (int \<times> fs) option" where
  "file_write_at s f buffer n file_ofs = do {
     fl \<leftarrow> files s f;
     inode_write_at s (f_inode fl) buffer n file_ofs }"

definition set_pos :: "fs \<Rightarrow> nat \<Rightarrow> ofile \<Rightarrow> int \<Rightarrow> fs" where
  "set_pos s f fl pos = s\<lparr>files := (files s)(f \<mapsto> fl\<lparr>f_pos := pos\<rparr>)\<rparr>"

definition file_read :: "fs \<Rightarrow> nat \<Rightarrow> int \<Rightarrow> (bytes \<times> fs) option" where
  "file_read s f n = do {
     fl \<leftarrow> files s f;
     (data, s) \<leftarrow> inode_read_at s (f_inode fl) n (f_pos fl);
     Some (data, set_pos s f fl (f_pos fl + int (length data))) }"

definition file_write :: "fs \<Rightarrow> nat \<Rightarrow> bytes \<Rightarrow> int \<Rightarrow> (int \<times> fs) option" where
  "file_write s f buffer n = do {
     fl \<leftarrow> files s f;
     (written, s) \<leftarrow> inode_write_at s (f_inode fl) buffer n (f_pos fl);
     Some (written, set_pos s f fl (f_pos fl + written)) }"

definition file_length :: "fs \<Rightarrow> nat \<Rightarrow> int option" where
  "file_length s f = do { ASSERT (f \<noteq> NULL); fl \<leftarrow> files s f; inode_length s (f_inode fl) }"

definition file_seek :: "fs \<Rightarrow> nat \<Rightarrow> int \<Rightarrow> fs option" where
  "file_seek s f new_pos = do {
     ASSERT (f \<noteq> NULL);
     ASSERT (new_pos \<ge> 0);
     fl \<leftarrow> files s f;
     Some (set_pos s f fl new_pos) }"

definition file_tell :: "fs \<Rightarrow> nat \<Rightarrow> int option" where
  "file_tell s f = do { ASSERT (f \<noteq> NULL); fl \<leftarrow> files s f; Some (f_pos fl) }"

definition file_get_inode :: "fs \<Rightarrow> nat \<Rightarrow> nat option" where
  "file_get_inode s f = map_option f_inode (files s f)"

definition file_deny_write :: "fs \<Rightarrow> nat \<Rightarrow> fs option" where
  "file_deny_write s f = do {
     ASSERT (f \<noteq> NULL);
     fl \<leftarrow> files s f;
     if \<not> f_deny_write fl
     then inode_deny_write (s\<lparr>files := (files s)(f \<mapsto> fl\<lparr>f_deny_write := True\<rparr>)\<rparr>) (f_inode fl)
     else Some s }"

definition file_allow_write :: "fs \<Rightarrow> nat \<Rightarrow> fs option" where
  "file_allow_write s f = do {
     ASSERT (f \<noteq> NULL);
     fl \<leftarrow> files s f;
     if f_deny_write fl
     then inode_allow_write (s\<lparr>files := (files s)(f \<mapsto> fl\<lparr>f_deny_write := False\<rparr>)\<rparr>) (f_inode fl)
     else Some s }"

section \<open>The free map\<close>

definition FREE_MAP_SECTOR :: nat where
  "FREE_MAP_SECTOR = 0"

definition ROOT_DIR_SECTOR :: nat where
  "ROOT_DIR_SECTOR = 1"

text \<open>The elements of a bitmap as bytes in memory, and back.\<close>

definition bits_bytes :: "u32 list \<Rightarrow> bytes" where
  "bits_bytes ws = concat (map (\<lambda>w. le_bytes 4 (unat w)) ws)"

fun bytes_bits :: "bytes \<Rightarrow> u32 list" where
  "bytes_bits (a # b # c # d # bs) = of_nat (of_le [a, b, c, d]) # bytes_bits bs"
| "bytes_bits _ = []"

definition bitmap_file_size :: "bitmap \<Rightarrow> nat" where
  "bitmap_file_size b = byte_cnt (bit_cnt b)"

definition bitmap_read :: "fs \<Rightarrow> bitmap \<Rightarrow> nat \<Rightarrow> (bool \<times> bitmap \<times> fs) option" where
  "bitmap_read s b f =
     (if bit_cnt b > 0
      then do {
        let n = byte_cnt (bit_cnt b);
        (data, s) \<leftarrow> file_read_at s f (int n) 0;
        let ws = bytes_bits (overlay (bits_bytes (bits b)) 0 data);
        let l = elem_cnt (bit_cnt b) - 1;
        Some (length data = n, b\<lparr>bits := ws[l := ws ! l AND last_mask b]\<rparr>, s) }
      else Some (True, b, s))"

definition bitmap_write :: "fs \<Rightarrow> bitmap \<Rightarrow> nat \<Rightarrow> (bool \<times> fs) option" where
  "bitmap_write s b f = do {
     let n = byte_cnt (bit_cnt b);
     (written, s) \<leftarrow> file_write_at s f (bits_bytes (bits b)) (int n) 0;
     Some (written = int n, s) }"

text \<open>The memory for the map may not be available, and holds \<open>junk\<close> before it is cleared.\<close>

definition free_map_init :: "fs \<Rightarrow> u32 list \<Rightarrow> fs option" where
  "free_map_init s junk =
     (let (p, s) = malloc s; (q, s) = malloc s in do {
        r \<leftarrow> bitmap_create (p \<noteq> NULL) (q \<noteq> NULL) junk (block_size (fs_device s));
        fm \<leftarrow> r;
        fm \<leftarrow> bitmap_mark fm FREE_MAP_SECTOR;
        fm \<leftarrow> bitmap_mark fm ROOT_DIR_SECTOR;
        Some (s\<lparr>free_map := fm\<rparr>) })"

definition free_map_allocate :: "fs \<Rightarrow> nat \<Rightarrow> (nat option \<times> fs) option" where
  "free_map_allocate s cnt = do {
     (sector, fm) \<leftarrow> bitmap_scan_and_flip (free_map s) 0 cnt False;
     let s = s\<lparr>free_map := fm\<rparr>;
     if sector \<noteq> BITMAP_ERROR \<and> free_map_file s \<noteq> NULL
     then do {
       (ok, s) \<leftarrow> bitmap_write s fm (free_map_file s);
       if \<not> ok
       then do {
         fm \<leftarrow> bitmap_set_multiple fm sector cnt False;
         Some (None, s\<lparr>free_map := fm\<rparr>) }
       else Some (Some sector, s) }
     else Some (if sector = BITMAP_ERROR then None else Some sector, s) }"

definition free_map_release :: "fs \<Rightarrow> nat \<Rightarrow> nat \<Rightarrow> fs option" where
  "free_map_release s sector cnt = do {
     all \<leftarrow> bitmap_all (free_map s) sector cnt;
     ASSERT all;
     fm \<leftarrow> bitmap_set_multiple (free_map s) sector cnt False;
     let s = s\<lparr>free_map := fm\<rparr>;
     (_, s) \<leftarrow> bitmap_write s fm (free_map_file s);
     Some s }"

section \<open>Creating and closing inodes\<close>

primrec zero_sectors :: "nat \<Rightarrow> fs \<Rightarrow> nat \<Rightarrow> fs option" where
  "zero_sectors 0 s sector = Some s"
| "zero_sectors (Suc n) s sector = do {
     s \<leftarrow> fs_write s (wrap32 sector) (replicate BLOCK_SECTOR_SIZE 0);
     zero_sectors n s (sector + 1) }"

definition inode_create :: "fs \<Rightarrow> nat \<Rightarrow> int \<Rightarrow> (bool \<times> fs) option" where
  "inode_create s sector len = do {
     ASSERT (len \<ge> 0);
     let (p, s) = malloc s;
     if p \<noteq> NULL
     then do {
       let n = bytes_to_sectors len;
       (start, s) \<leftarrow> free_map_allocate s n;
       case start of
         Some start \<Rightarrow> do {
           s \<leftarrow> fs_write s sector (enc_inode \<lparr>id_start = start, id_length = len, id_magic = INODE_MAGIC,
                                            id_unused = replicate 500 0\<rparr>);
           s \<leftarrow> zero_sectors n s start;
           Some (True, s) }
       | None \<Rightarrow> Some (False, s) }
     else Some (False, s) }"

definition inode_close :: "fs \<Rightarrow> nat \<Rightarrow> fs option" where
  "inode_close s p =
     (if p = NULL then Some s
      else do {
        ino \<leftarrow> inodes s p;
        let ino = ino\<lparr>i_open_cnt := i_open_cnt ino - 1\<rparr>;
        let s = s\<lparr>inodes := (inodes s)(p \<mapsto> ino)\<rparr>;
        if i_open_cnt ino = 0
        then do {
          let s = s\<lparr>open_inodes := remove1 p (open_inodes s)\<rparr>;
          s \<leftarrow> (if i_removed ino
                 then do {
                   s \<leftarrow> free_map_release s (i_sector ino) 1;
                   free_map_release s (id_start (i_data ino)) (bytes_to_sectors (id_length (i_data ino))) }
                 else Some s);
          Some (s\<lparr>inodes := (inodes s)(p := None)\<rparr>) }
        else Some s })"

section \<open>Opening and closing files\<close>

definition file_open :: "fs \<Rightarrow> nat \<Rightarrow> (nat \<times> fs) option" where
  "file_open s p =
     (let (f, s) = malloc s
      in if p \<noteq> NULL \<and> f \<noteq> NULL
         then Some (f, s\<lparr>files := (files s)(f \<mapsto> \<lparr>f_inode = p, f_pos = 0, f_deny_write = False\<rparr>)\<rparr>)
         else do { s \<leftarrow> inode_close s p; Some (NULL, s) })"

definition file_reopen :: "fs \<Rightarrow> nat \<Rightarrow> (nat \<times> fs) option" where
  "file_reopen s f = do {
     fl \<leftarrow> files s f;
     (p, s) \<leftarrow> inode_reopen s (f_inode fl);
     file_open s p }"

definition file_close :: "fs \<Rightarrow> nat \<Rightarrow> fs option" where
  "file_close s f =
     (if f \<noteq> NULL
      then do {
        s \<leftarrow> file_allow_write s f;
        fl \<leftarrow> files s f;
        s \<leftarrow> inode_close s (f_inode fl);
        Some (s\<lparr>files := (files s)(f := None)\<rparr>) }
      else Some s)"

definition free_map_open :: "fs \<Rightarrow> fs option" where
  "free_map_open s = do {
     (p, s) \<leftarrow> inode_open s FREE_MAP_SECTOR;
     (f, s) \<leftarrow> file_open s p;
     let s = s\<lparr>free_map_file := f\<rparr>;
     ASSERT (f \<noteq> NULL);
     (ok, fm, s) \<leftarrow> bitmap_read s (free_map s) f;
     ASSERT ok;
     Some (s\<lparr>free_map := fm\<rparr>) }"

definition free_map_close :: "fs \<Rightarrow> fs option" where
  "free_map_close s = file_close s (free_map_file s)"

definition free_map_create :: "fs \<Rightarrow> fs option" where
  "free_map_create s = do {
     (ok, s) \<leftarrow> inode_create s FREE_MAP_SECTOR (int (bitmap_file_size (free_map s)));
     ASSERT ok;
     (p, s) \<leftarrow> inode_open s FREE_MAP_SECTOR;
     (f, s) \<leftarrow> file_open s p;
     let s = s\<lparr>free_map_file := f\<rparr>;
     ASSERT (f \<noteq> NULL);
     (ok, s) \<leftarrow> bitmap_write s (free_map s) f;
     ASSERT ok;
     Some s }"

section \<open>Directories\<close>

definition NAME_MAX :: nat where
  "NAME_MAX = 14"

record dir_entry =
  de_inode_sector :: nat
  de_name :: bytes
  de_in_use :: bool

definition DIR_ENTRY_SIZE :: nat where
  "DIR_ENTRY_SIZE = 20"

definition enc_entry :: "dir_entry \<Rightarrow> bytes" where
  "enc_entry e = le_bytes 4 (de_inode_sector e) @ de_name e @ [if de_in_use e then 1 else 0]"

definition dec_entry :: "bytes \<Rightarrow> dir_entry" where
  "dec_entry bs = \<lparr>de_inode_sector = of_le (chunk bs 0 4), de_name = chunk bs 4 15, de_in_use = (bs ! 19 \<noteq> 0)\<rparr>"

definition dir_create :: "fs \<Rightarrow> nat \<Rightarrow> nat \<Rightarrow> (bool \<times> fs) option" where
  "dir_create s sector entry_cnt = inode_create s sector (s32 (int (wrap32 (entry_cnt * DIR_ENTRY_SIZE))))"

definition dir_open :: "fs \<Rightarrow> nat \<Rightarrow> (nat \<times> fs) option" where
  "dir_open s p =
     (let (d, s) = malloc s
      in if p \<noteq> NULL \<and> d \<noteq> NULL
         then Some (d, s\<lparr>dirs := (dirs s)(d \<mapsto> \<lparr>d_inode = p, d_pos = 0\<rparr>)\<rparr>)
         else do { s \<leftarrow> inode_close s p; Some (NULL, s) })"

definition dir_open_root :: "fs \<Rightarrow> (nat \<times> fs) option" where
  "dir_open_root s = do { (p, s) \<leftarrow> inode_open s ROOT_DIR_SECTOR; dir_open s p }"

definition dir_reopen :: "fs \<Rightarrow> nat \<Rightarrow> (nat \<times> fs) option" where
  "dir_reopen s d = do {
     dr \<leftarrow> dirs s d;
     (p, s) \<leftarrow> inode_reopen s (d_inode dr);
     dir_open s p }"

definition dir_close :: "fs \<Rightarrow> nat \<Rightarrow> fs option" where
  "dir_close s d =
     (if d \<noteq> NULL
      then do {
        dr \<leftarrow> dirs s d;
        s \<leftarrow> inode_close s (d_inode dr);
        Some (s\<lparr>dirs := (dirs s)(d := None)\<rparr>) }
      else Some s)"

definition dir_get_inode :: "fs \<Rightarrow> nat \<Rightarrow> nat option" where
  "dir_get_inode s d = map_option d_inode (dirs s d)"

text \<open>
  The loops over the entries end at the first short read; a loop that does not end has no result.
  \<open>strcmp\<close> compares the name with the entry's, which it must not run past.
\<close>

partial_function (option) lookup_loop :: "nat \<Rightarrow> bytes \<Rightarrow> nat \<Rightarrow> fs \<Rightarrow> ((dir_entry \<times> nat) option \<times> fs) option" where
  "lookup_loop p name ofs s = do {
     (data, s) \<leftarrow> inode_read_at s p (int DIR_ENTRY_SIZE) (int ofs);
     if length data \<noteq> DIR_ENTRY_SIZE then Some (None, s)
     else if de_in_use (dec_entry data)
     then do {
       r \<leftarrow> strcmp_loop (name @ [0]) (de_name (dec_entry data));
       if r = 0 then Some (Some (dec_entry data, ofs), s) else lookup_loop p name (ofs + DIR_ENTRY_SIZE) s }
     else lookup_loop p name (ofs + DIR_ENTRY_SIZE) s }"

definition lookup :: "fs \<Rightarrow> nat \<Rightarrow> bytes \<Rightarrow> ((dir_entry \<times> nat) option \<times> fs) option" where
  "lookup s d name = do {
     ASSERT (d \<noteq> NULL);
     dr \<leftarrow> dirs s d;
     lookup_loop (d_inode dr) name 0 s }"

definition dir_lookup :: "fs \<Rightarrow> nat \<Rightarrow> bytes \<Rightarrow> (nat \<times> fs) option" where
  "dir_lookup s d name = do {
     (r, s) \<leftarrow> lookup s d name;
     case r of
       Some (e, _) \<Rightarrow> inode_open s (de_inode_sector e)
     | None \<Rightarrow> Some (NULL, s) }"

text \<open>
  The search of \<open>dir_add\<close> for a free slot reads into the local \<open>e\<close>, whose bytes are \<open>e\<close> before the
  read and keep their values where a short read does not reach.
\<close>

partial_function (option) slot_loop :: "nat \<Rightarrow> bytes \<Rightarrow> nat \<Rightarrow> fs \<Rightarrow> (nat \<times> bytes \<times> fs) option" where
  "slot_loop p e ofs s = do {
     (data, s) \<leftarrow> inode_read_at s p (int DIR_ENTRY_SIZE) (int ofs);
     let e = overlay e 0 data;
     if length data = DIR_ENTRY_SIZE \<and> de_in_use (dec_entry e)
     then slot_loop p e (ofs + DIR_ENTRY_SIZE) s
     else Some (ofs, e, s) }"

definition dir_add :: "fs \<Rightarrow> nat \<Rightarrow> bytes \<Rightarrow> nat \<Rightarrow> bytes \<Rightarrow> (bool \<times> fs) option" where
  "dir_add s d name inode_sector junk = do {
     ASSERT (d \<noteq> NULL);
     if name = [] \<or> length name > NAME_MAX then Some (False, s)
     else do {
       (r, s) \<leftarrow> lookup s d name;
       if r \<noteq> None then Some (False, s)
       else do {
         dr \<leftarrow> dirs s d;
         (ofs, e, s) \<leftarrow> slot_loop (d_inode dr) junk 0 s;
         let e = (dec_entry e)\<lparr>de_in_use := True,
                                de_name := overlay (de_name (dec_entry e)) 0 (name @ [0]),
                                de_inode_sector := inode_sector\<rparr>;
         (written, s) \<leftarrow> inode_write_at s (d_inode dr) (enc_entry e) (int DIR_ENTRY_SIZE) (int ofs);
         Some (written = int DIR_ENTRY_SIZE, s) } } }"

definition dir_remove :: "fs \<Rightarrow> nat \<Rightarrow> bytes \<Rightarrow> (bool \<times> fs) option" where
  "dir_remove s d name = do {
     (r, s) \<leftarrow> lookup s d name;
     case r of
       None \<Rightarrow> Some (False, s)
     | Some (e, ofs) \<Rightarrow> do {
         (p, s) \<leftarrow> inode_open s (de_inode_sector e);
         if p = NULL then Some (False, s)
         else do {
           dr \<leftarrow> dirs s d;
           (written, s) \<leftarrow> inode_write_at s (d_inode dr) (enc_entry (e\<lparr>de_in_use := False\<rparr>))
                              (int DIR_ENTRY_SIZE) (int ofs);
           (ok, s) \<leftarrow> (if written \<noteq> int DIR_ENTRY_SIZE then Some (False, s)
                        else do { s \<leftarrow> inode_remove s p; Some (True, s) });
           s \<leftarrow> inode_close s p;
           Some (ok, s) } } }"

partial_function (option) readdir_loop :: "nat \<Rightarrow> int \<Rightarrow> fs \<Rightarrow> (bytes option \<times> int \<times> fs) option" where
  "readdir_loop p pos s = do {
     (data, s) \<leftarrow> inode_read_at s p (int DIR_ENTRY_SIZE) pos;
     if length data \<noteq> DIR_ENTRY_SIZE then Some (None, pos, s)
     else if de_in_use (dec_entry data)
     then Some (Some (takeWhile (\<lambda>b. b \<noteq> 0) (de_name (dec_entry data))), pos + int DIR_ENTRY_SIZE, s)
     else readdir_loop p (pos + int DIR_ENTRY_SIZE) s }"

definition dir_readdir :: "fs \<Rightarrow> nat \<Rightarrow> (bytes option \<times> fs) option" where
  "dir_readdir s d = do {
     dr \<leftarrow> dirs s d;
     (name, pos, s) \<leftarrow> readdir_loop (d_inode dr) (d_pos dr) s;
     Some (name, s\<lparr>dirs := (dirs s)(d \<mapsto> dr\<lparr>d_pos := pos\<rparr>)\<rparr>) }"

section \<open>The file system\<close>

definition filesys_create :: "fs \<Rightarrow> bytes \<Rightarrow> int \<Rightarrow> bytes \<Rightarrow> (bool \<times> fs) option" where
  "filesys_create s name initial_size junk = do {
     (d, s) \<leftarrow> dir_open_root s;
     (sector, s) \<leftarrow> (if d \<noteq> NULL then free_map_allocate s 1 else Some (None, s));
     (ok, s) \<leftarrow> (case sector of
        None \<Rightarrow> Some (False, s)
      | Some n \<Rightarrow> do {
          (ok, s) \<leftarrow> inode_create s n initial_size;
          if ok then dir_add s d name n junk else Some (False, s) });
     s \<leftarrow> (case sector of Some n \<Rightarrow> if \<not> ok \<and> n \<noteq> 0 then free_map_release s n 1 else Some s
            | None \<Rightarrow> Some s);
     s \<leftarrow> dir_close s d;
     Some (ok, s) }"

definition filesys_open :: "fs \<Rightarrow> bytes \<Rightarrow> (nat \<times> fs) option" where
  "filesys_open s name = do {
     (d, s) \<leftarrow> dir_open_root s;
     (p, s) \<leftarrow> (if d \<noteq> NULL then dir_lookup s d name else Some (NULL, s));
     s \<leftarrow> dir_close s d;
     file_open s p }"

definition filesys_remove :: "fs \<Rightarrow> bytes \<Rightarrow> (bool \<times> fs) option" where
  "filesys_remove s name = do {
     (d, s) \<leftarrow> dir_open_root s;
     (ok, s) \<leftarrow> (if d \<noteq> NULL then dir_remove s d name else Some (False, s));
     s \<leftarrow> dir_close s d;
     Some (ok, s) }"

definition do_format :: "fs \<Rightarrow> fs option" where
  "do_format s = do {
     s \<leftarrow> free_map_create s;
     (ok, s) \<leftarrow> dir_create s ROOT_DIR_SECTOR 16;
     ASSERT ok;
     free_map_close s }"

definition filesys_init :: "devices \<Rightarrow> fs \<Rightarrow> bool \<Rightarrow> u32 list \<Rightarrow> fs option" where
  "filesys_init ds s format junk = do {
     role \<leftarrow> block_get_role ds BLOCK_FILESYS;
     i \<leftarrow> role;
     ASSERT (i < length (all_blocks ds));
     let s = inode_init (s\<lparr>fs_device := all_blocks ds ! i\<rparr>);
     s \<leftarrow> free_map_init s junk;
     s \<leftarrow> (if format then do_format s else Some s);
     free_map_open s }"

definition filesys_done :: "fs \<Rightarrow> fs option" where
  "filesys_done s = free_map_close s"

end
