(* ===== verification/Directory.thy ===== *)
theory Directory
  imports File_System
begin

text \<open>
  Directories (\<^verbatim>\<open>filesys/directory.c\<close>) as maps from names to sectors. The slots of a directory are the
  entries encoded in its bytes; the lemmas say what the searches of \<open>lookup\<close> and \<open>dir_add\<close> find and
  what writing a slot does to the map. Memory is taken to be available here: with a failing \<open>malloc\<close>
  in \<open>inode_read_at\<close> the searches end early, and the last section shows what \<open>dir_add\<close> then takes for a free slot.
\<close>

section \<open>Entries and slots\<close>

lemma dec_enc_entry:
  assumes "de_inode_sector e < 2 ^ 32" "length (de_name e) = 15"
  shows "dec_entry (enc_entry e) = e" "length (enc_entry e) = 20"
proof -
  have c: "chunk (enc_entry e) 0 4 = le_bytes 4 (de_inode_sector e)" "chunk (enc_entry e) 4 15 = de_name e"
    "enc_entry e ! 19 = (if de_in_use e then 1 else 0)"
    using assms(2) by (simp_all add: enc_entry_def chunk_def nth_append)
  then show "dec_entry (enc_entry e) = e" using assms(1) by (simp add: dec_entry_def of_le_le_bytes)
  show "length (enc_entry e) = 20" using assms(2) by (simp add: enc_entry_def)
qed

definition slot_cnt :: "inode_disk \<Rightarrow> nat" where
  "slot_cnt d = nat (id_length d) div DIR_ENTRY_SIZE"

definition slot_in :: "bytes \<Rightarrow> nat \<Rightarrow> dir_entry" where
  "slot_in bs i = dec_entry (chunk bs (DIR_ENTRY_SIZE * i) DIR_ENTRY_SIZE)"

definition entry_name :: "dir_entry \<Rightarrow> bytes" where
  "entry_name e = takeWhile (\<lambda>b. b \<noteq> 0) (de_name e)"

text \<open>A slot holds a name when it is in use under that name.\<close>

definition holds :: "bytes \<Rightarrow> bytes \<Rightarrow> nat \<Rightarrow> bool" where
  "holds bs name i \<longleftrightarrow> de_in_use (slot_in bs i) \<and> entry_name (slot_in bs i) = name"

text \<open>
  The bytes of a directory with \<open>n\<close> slots are well formed when names in use end inside the slot
  and no name is used twice.
\<close>

definition dir_wf :: "nat \<Rightarrow> bytes \<Rightarrow> bool" where
  "dir_wf n bs \<longleftrightarrow> DIR_ENTRY_SIZE * n \<le> length bs \<and>
     (\<forall>i<n. de_in_use (slot_in bs i) \<longrightarrow> 0 \<in> set (de_name (slot_in bs i))) \<and>
     (\<forall>i<n. \<forall>j<n. \<forall>name. holds bs name i \<longrightarrow> holds bs name j \<longrightarrow> i = j)"

definition dir_map :: "nat \<Rightarrow> bytes \<Rightarrow> bytes \<Rightarrow> nat option" where
  "dir_map n bs name = map_option (\<lambda>i. de_inode_sector (slot_in bs i)) (find (holds bs name) [0..<n])"

lemma find_holds: "dir_wf n bs \<Longrightarrow> i < n \<Longrightarrow> holds bs name i \<Longrightarrow> find (holds bs name) [0..<n] = Some i"
proof -
  assume wf: "dir_wf n bs" and i: "i < n" "holds bs name i"
  then obtain j where j: "find (holds bs name) [0..<n] = Some j" using find_upt_None [of "holds bs name" 0 n] by fastforce
  note f = find_upt_Some [OF j]
  have "j = i" using wf f(2,3) i unfolding dir_wf_def by blast
  then show ?thesis using j by simp
qed

lemma dir_map_Some: "dir_wf n bs \<Longrightarrow> i < n \<Longrightarrow> holds bs name i \<Longrightarrow> dir_map n bs name = Some (de_inode_sector (slot_in bs i))"
  by (simp add: dir_map_def find_holds)

lemma dir_map_None: "dir_map n bs name = None \<longleftrightarrow> (\<forall>i<n. \<not> holds bs name i)"
  by (auto simp: dir_map_def find_None_iff)

lemma dir_map_SomeD: "dir_map n bs name = Some m \<Longrightarrow> \<exists>i<n. holds bs name i \<and> de_inode_sector (slot_in bs i) = m"
  by (auto simp: dir_map_def find_Some_iff)

section \<open>Writing a slot\<close>

lemma slot_in_overlay:
  assumes "length eb = 20" "20 * Suc i \<le> length bs" "20 * Suc j \<le> length bs"
  shows "slot_in (overlay bs (20 * i) eb) j = (if j = i then dec_entry eb else slot_in bs j)"
proof (cases "j = i")
  case True
  then show ?thesis using assms chunk_overlay_same [of "20 * i" eb bs] by (simp add: slot_in_def DIR_ENTRY_SIZE_def)
next
  case False
  then have "20 * j + 20 \<le> 20 * i \<or> 20 * i + 20 \<le> 20 * j" by linarith
  then show ?thesis using False assms chunk_overlay_other [of "20 * i" eb bs "20 * j" 20]
    by (simp add: slot_in_def DIR_ENTRY_SIZE_def)
qed

text \<open>An entry put over a free slot adds a name; a slot freed takes its name away.\<close>

lemma dir_map_add:
  assumes "dir_wf n bs" "i < n" "\<not> de_in_use (slot_in bs i)" "\<forall>j<n. \<not> holds bs name j"
    "length eb = 20" "de_in_use (dec_entry eb)" "0 \<in> set (de_name (dec_entry eb))" "entry_name (dec_entry eb) = name"
  shows "dir_wf n (overlay bs (20 * i) eb)"
    "dir_map n (overlay bs (20 * i) eb) = (dir_map n bs)(name \<mapsto> de_inode_sector (dec_entry eb))"
proof -
  let ?bs = "overlay bs (20 * i) eb"
  have len: "20 * n \<le> length bs" using assms(1) by (simp add: dir_wf_def DIR_ENTRY_SIZE_def)
  have slot: "slot_in ?bs j = (if j = i then dec_entry eb else slot_in bs j)" if "j < n" for j
    using that assms(2,5) len by (intro slot_in_overlay) auto
  have hold: "holds ?bs m j \<longleftrightarrow> (if j = i then m = name else holds bs m j)" if "j < n" for j m
    using slot [OF that] assms(6,8) by (auto simp: holds_def)
  show wf: "dir_wf n ?bs"
    unfolding dir_wf_def
  proof (intro conjI allI impI)
    show "DIR_ENTRY_SIZE * n \<le> length ?bs" using len assms(2,5) by (simp add: DIR_ENTRY_SIZE_def)
  next
    fix j assume "j < n" "de_in_use (slot_in ?bs j)"
    then show "0 \<in> set (de_name (slot_in ?bs j))" using assms(1,7) slot [of j] by (auto simp: dir_wf_def split: if_splits)
  next
    fix j k m assume "j < n" "k < n" "holds ?bs m j" "holds ?bs m k"
    then show "j = k" using hold assms(1,4) unfolding dir_wf_def by (metis (no_types, lifting))
  qed
  show "dir_map n ?bs = (dir_map n bs)(name \<mapsto> de_inode_sector (dec_entry eb))"
  proof
    fix m
    show "dir_map n ?bs m = ((dir_map n bs)(name \<mapsto> de_inode_sector (dec_entry eb))) m"
    proof (cases "m = name")
      case True
      then show ?thesis using dir_map_Some [OF wf assms(2)] hold [OF assms(2)] slot [OF assms(2)] by simp
    next
      case False
      show ?thesis
      proof (cases "dir_map n bs m")
        case None
        then have "\<forall>j<n. \<not> holds ?bs m j" using hold False by (auto simp: dir_map_None)
        then show ?thesis using None False dir_map_None [of n ?bs m] by simp
      next
        case (Some k)
        then obtain j where j: "j < n" "holds bs m j" "de_inode_sector (slot_in bs j) = k" using dir_map_SomeD by blast
        then have "j \<noteq> i" using assms(3) by (auto simp: holds_def)
        then show ?thesis using dir_map_Some [OF wf j(1)] hold [OF j(1)] slot [OF j(1)] j Some False by simp
      qed
    qed
  qed
qed

lemma dir_map_remove:
  assumes "dir_wf n bs" "i < n" "holds bs name i" "length eb = 20" "\<not> de_in_use (dec_entry eb)"
  shows "dir_wf n (overlay bs (20 * i) eb)" "dir_map n (overlay bs (20 * i) eb) = (dir_map n bs)(name := None)"
proof -
  let ?bs = "overlay bs (20 * i) eb"
  have len: "20 * n \<le> length bs" using assms(1) by (simp add: dir_wf_def DIR_ENTRY_SIZE_def)
  have slot: "slot_in ?bs j = (if j = i then dec_entry eb else slot_in bs j)" if "j < n" for j
    using that assms(2,4) len by (intro slot_in_overlay) auto
  have hold: "holds ?bs m j \<longleftrightarrow> j \<noteq> i \<and> holds bs m j" if "j < n" for j m
    using slot [OF that] assms(5) by (auto simp: holds_def)
  show wf: "dir_wf n ?bs"
    unfolding dir_wf_def
  proof (intro conjI allI impI)
    show "DIR_ENTRY_SIZE * n \<le> length ?bs" using len assms(2,4) by (simp add: DIR_ENTRY_SIZE_def)
  next
    fix j assume "j < n" "de_in_use (slot_in ?bs j)"
    then show "0 \<in> set (de_name (slot_in ?bs j))" using assms(1,5) slot [of j] by (auto simp: dir_wf_def split: if_splits)
  next
    fix j k m assume "j < n" "k < n" "holds ?bs m j" "holds ?bs m k"
    then show "j = k" using hold assms(1) unfolding dir_wf_def by (metis (no_types, lifting))
  qed
  show "dir_map n ?bs = (dir_map n bs)(name := None)"
  proof
    fix m
    show "dir_map n ?bs m = ((dir_map n bs)(name := None)) m"
    proof (cases "m = name \<or> dir_map n bs m = None")
      case True
      have "\<not> holds ?bs m j" if j: "j < n" for j
        using True hold [OF j, of m] assms(1,2,3) j by (auto simp: dir_map_None dir_wf_def)
      then show ?thesis using True dir_map_None [of n ?bs m] by auto
    next
      case False
      then obtain j where j: "j < n" "holds bs m j" using dir_map_SomeD by blast
      then have "j \<noteq> i" using assms(3) False by (auto simp: holds_def)
      then show ?thesis
        using dir_map_Some [OF wf j(1), of m] dir_map_Some [OF assms(1) j] hold [OF j(1)] slot [OF j(1)] j(2) False by simp
    qed
  qed
qed

section \<open>The searches\<close>

definition mem_ok :: "fs \<Rightarrow> bool" where
  "mem_ok s \<longleftrightarrow> (\<forall>q. \<not> oom s q) \<and> next_ptr s \<noteq> 0"

lemma mem_ok_bounce [simp]: "mem_ok s \<Longrightarrow> can_bounce b s"
  by (simp add: mem_ok_def can_bounce_def)

lemma mem_ok_reads: "reads s s' \<Longrightarrow> mem_ok s \<Longrightarrow> mem_ok s'"
  using readsD(11,12) [of s s'] by (auto simp: mem_ok_def)

lemma mem_ok_writes: "writes s s' \<Longrightarrow> mem_ok s \<Longrightarrow> mem_ok s'"
  using writesD(10,11) [of s s'] by (auto simp: mem_ok_def)

text \<open>The inode \<open>p\<close> is open, with data \<open>d\<close>, and fits the device.\<close>

definition opened :: "fs \<Rightarrow> nat \<Rightarrow> inode_disk \<Rightarrow> bool" where
  "opened s p d \<longleftrightarrow> (\<exists>ino. inodes s p = Some ino \<and> i_data ino = d) \<and> sectors_ok (fs_device s) \<and> inode_fits (fs_device s) d"

lemma opened_reads: "reads s s' \<Longrightarrow> opened s p d \<Longrightarrow> opened s' p d"
  using readsD [of s s'] by (auto simp: opened_def)

lemma bytes_reads: "reads s s' \<Longrightarrow> inode_bytes (fs_device s') d = inode_bytes (fs_device s) d"
  using readsD(1) [of s s'] by (simp add: inode_bytes_def)

lemma read_slot:
  assumes "opened s p d" "mem_ok s" "i \<le> slot_cnt d"
  obtains data s' where "inode_read_at s p (int DIR_ENTRY_SIZE) (int (20 * i)) = Some (data, s')" "reads s s'"
    "if i < slot_cnt d then length data = 20 \<and> dec_entry data = slot_in (inode_bytes (fs_device s) d) i
     else length data < 20"
proof -
  let ?bs = "inode_bytes (fs_device s) d"
  obtain ino where ino: "inodes s p = Some ino" "i_data ino = d" "sectors_ok (fs_device s)" "inode_fits (fs_device s) d"
    using assms(1) by (auto simp: opened_def)
  have len: "length ?bs = nat (id_length d)" using ino(3,4) by simp
  have "can_bounce False s" using assms(2) by simp
  then obtain s' where s': "inode_read_at s p (int 20) (int (20 * i)) = Some (chunk ?bs (20 * i) (left d 20 (20 * i)), s')"
      "reads s s'"
    using inode_read_at_ok [of s p ino 20 "20 * i"] ino by auto
  let ?data = "chunk ?bs (20 * i) (left d 20 (20 * i))"
  have "if i < slot_cnt d then length ?data = 20 \<and> dec_entry ?data = slot_in ?bs i else length ?data < 20"
  proof (cases "i < slot_cnt d")
    case True
    then have le: "20 * i + 20 \<le> nat (id_length d)" unfolding slot_cnt_def DIR_ENTRY_SIZE_def by linarith
    then have "left d 20 (20 * i) = 20" by (simp add: left_def)
    then show ?thesis using True le by (simp add: len slot_in_def DIR_ENTRY_SIZE_def)
  next
    case False
    then have "i = nat (id_length d) div 20" using assms(3) by (simp add: slot_cnt_def DIR_ENTRY_SIZE_def)
    then have "nat (id_length d) - 20 * i < 20" by (simp add: minus_mult_div_eq_mod)
    then show ?thesis using False by (simp add: chunk_def left_def)
  qed
  then show ?thesis using that s' by (simp add: DIR_ENTRY_SIZE_def)
qed

lemma strcmp_entry:
  assumes "0 \<notin> set name" "0 \<in> set bs"
  shows "\<exists>r. strcmp_loop (name @ [0]) bs = Some r \<and> (r = 0 \<longleftrightarrow> takeWhile (\<lambda>b. b \<noteq> 0) bs = name)"
proof -
  have "takeWhile (\<lambda>b. b \<noteq> 0) (name @ [0]) = name" using assms(1) by (auto simp: takeWhile_append)
  then show ?thesis using strcmp_loop_eq [of "name @ [0]" bs] assms(2) by (auto simp: Let_def)
qed

lemma upt_rec_less: "i < n \<Longrightarrow> [i..<n] = i # [Suc i..<n]"
  by (rule upt_conv_Cons)

lemma lookup_loop_ok:
  assumes "opened s p d" "mem_ok s" "i \<le> slot_cnt d" "0 \<notin> set name"
    "dir_wf (slot_cnt d) (inode_bytes (fs_device s) d)"
  shows "\<exists>s'. lookup_loop p name (20 * i) s =
      Some (map_option (\<lambda>j. (slot_in (inode_bytes (fs_device s) d) j, 20 * j))
              (find (holds (inode_bytes (fs_device s) d) name) [i..<slot_cnt d]), s') \<and> reads s s'"
  using assms
proof (induction "slot_cnt d - i" arbitrary: i s)
  case 0
  obtain data s' where "inode_read_at s p (int DIR_ENTRY_SIZE) (int (20 * i)) = Some (data, s')" "reads s s'" "length data < 20"
    using read_slot [OF 0(2-4)] 0(1) by (metis diff_is_0_eq not_le)
  then show ?case using 0(1) by (subst lookup_loop.simps) (simp add: DIR_ENTRY_SIZE_def)
next
  case (Suc n)
  let ?bs = "inode_bytes (fs_device s) d"
  have i: "i < slot_cnt d" using Suc(2) by simp
  obtain data s1 where s1: "inode_read_at s p (int DIR_ENTRY_SIZE) (int (20 * i)) = Some (data, s1)" "reads s s1"
      "length data = 20" "dec_entry data = slot_in ?bs i"
    using read_slot [OF Suc(3-5)] i by metis
  have rest: "\<exists>s'. lookup_loop p name (20 * Suc i) s1 =
      Some (map_option (\<lambda>j. (slot_in ?bs j, 20 * j)) (find (holds ?bs name) [Suc i..<slot_cnt d]), s') \<and> reads s s'"
    using Suc(1) [of "Suc i" s1] Suc(2-7) opened_reads [OF s1(2)] mem_ok_reads [OF s1(2)] bytes_reads [OF s1(2), of d] i
      reads_trans [OF s1(2)] by fastforce
  show ?case
  proof (cases "de_in_use (slot_in ?bs i)")
    case True
    then have "0 \<in> set (de_name (slot_in ?bs i))" using Suc.prems(5) i by (simp add: dir_wf_def)
    then obtain r where "strcmp_loop (name @ [0]) (de_name (slot_in ?bs i)) = Some r" "r = 0 \<longleftrightarrow> holds ?bs name i"
      using strcmp_entry [OF Suc.prems(4)] True by (auto simp: holds_def entry_name_def)
    then show ?thesis using s1 True rest unfolding upt_rec_less [OF i]
      by (subst lookup_loop.simps) (auto simp: DIR_ENTRY_SIZE_def add.commute)
  next
    case False
    then have "\<not> holds ?bs name i" by (simp add: holds_def)
    then show ?thesis using s1 False rest unfolding upt_rec_less [OF i]
      by (subst lookup_loop.simps) (auto simp: DIR_ENTRY_SIZE_def add.commute)
  qed
qed

lemma slot_loop_ok:
  assumes "opened s p d" "mem_ok s" "i \<le> slot_cnt d" "length e = 20"
  shows "\<exists>j e' s'. slot_loop p e (20 * i) s = Some (20 * j, e', s') \<and> reads s s' \<and> length e' = 20 \<and> i \<le> j \<and>
    j \<le> slot_cnt d \<and> (j < slot_cnt d \<longrightarrow> \<not> de_in_use (slot_in (inode_bytes (fs_device s) d) j)) \<and>
    (\<forall>k. i \<le> k \<longrightarrow> k < j \<longrightarrow> de_in_use (slot_in (inode_bytes (fs_device s) d) k))"
  using assms
proof (induction "slot_cnt d - i" arbitrary: i s e)
  case 0
  obtain data s' where "inode_read_at s p (int DIR_ENTRY_SIZE) (int (20 * i)) = Some (data, s')" "reads s s'" "length data < 20"
    using read_slot [OF 0(2-4)] 0(1) by (metis diff_is_0_eq not_le)
  then show ?case using 0 by (intro exI [of _ i]) (subst slot_loop.simps, simp add: DIR_ENTRY_SIZE_def)
next
  case (Suc n)
  let ?bs = "inode_bytes (fs_device s) d"
  have i: "i < slot_cnt d" using Suc(2) by simp
  obtain data s1 where s1: "inode_read_at s p (int DIR_ENTRY_SIZE) (int (20 * i)) = Some (data, s1)" "reads s s1"
      "length data = 20" "dec_entry data = slot_in ?bs i"
    using read_slot [OF Suc(3-5)] i by metis
  have e: "overlay e 0 data = data" using Suc.prems(4) s1(3) by (simp add: overlay_def)
  show ?case
  proof (cases "de_in_use (slot_in ?bs i)")
    case True
    obtain j e' s' where j: "slot_loop p data (20 * Suc i) s1 = Some (20 * j, e', s')" "reads s1 s'" "length e' = 20" "Suc i \<le> j"
        "j \<le> slot_cnt d" "j < slot_cnt d \<longrightarrow> \<not> de_in_use (slot_in ?bs j)"
        "\<forall>k. Suc i \<le> k \<longrightarrow> k < j \<longrightarrow> de_in_use (slot_in ?bs k)"
      using Suc(1) [of "Suc i" s1 data] Suc(2,3-6) opened_reads [OF s1(2)] mem_ok_reads [OF s1(2)] bytes_reads [OF s1(2), of d] i
        s1(3) by fastforce
    have "slot_loop p e (20 * i) s = Some (20 * j, e', s')"
      using s1 True j(1) by (subst slot_loop.simps) (simp add: DIR_ENTRY_SIZE_def e Let_def add.commute)
    moreover have "de_in_use (slot_in ?bs k)" if "i \<le> k" "k < j" for k
      using that j(7) True by (cases "k = i") auto
    ultimately show ?thesis using j reads_trans [OF s1(2)] by (intro exI [of _ j] exI [of _ e'] exI [of _ s']) auto
  next
    case False
    then show ?thesis using s1 i
      by (intro exI [of _ i] exI [of _ data] exI [of _ s1])
        (subst slot_loop.simps, simp add: DIR_ENTRY_SIZE_def e Let_def)
  qed
qed


section \<open>Properties\<close>

text \<open>
  C32. A failed allocation ends the search of \<open>dir_add\<close> for a free slot: when the bounce buffer of the
  first read cannot be allocated, the search reports the slot at offset 0, with the entry it was
  given, whatever that slot holds. \<open>dir_add\<close> then writes its entry there, over one that may be in use.
\<close>

theorem slot_search_accepts_failed_read:
  assumes "inodes s p = Some ino" "20 \<le> id_length (i_data ino)" "oom s (next_ptr s)"
  shows "slot_loop p e 0 s = Some (0, e, s\<lparr>next_ptr := next_ptr s + 1\<rparr>)"
proof -
  have "chunk_size (i_data ino) (int 20) (int 0) = 20" using assms(2) unfolding chunk_size_eq by simp
  moreover have "sector_ofs 0 = 0" using sector_ofs_eq [of 0] by simp
  moreover have "get_bounce False s = (False, s\<lparr>next_ptr := next_ptr s + 1\<rparr>)" using assms(3) by (simp add: get_bounce_def malloc_def)
  ultimately have "inode_read_at s p 20 0 = Some ([], s\<lparr>next_ptr := next_ptr s + 1\<rparr>)"
    using assms(1) by (simp add: inode_read_at_def) (subst read_loop.simps, simp add: Let_def)
  then show ?thesis by (subst slot_loop.simps) (simp add: DIR_ENTRY_SIZE_def)
qed

theorem slot_search_accepts_failed_read_witness:
  "slot_loop 1 (replicate 20 9) 0 (sample_fs\<lparr>oom := \<lambda>_. True\<rparr>) =
   Some (0, replicate 20 9, (sample_fs\<lparr>oom := \<lambda>_. True\<rparr>)\<lparr>next_ptr := 3\<rparr>)"
  using slot_search_accepts_failed_read [of "sample_fs\<lparr>oom := \<lambda>_. True\<rparr>" 1 sample_inode "replicate 20 9"]
  by (simp add: sample_fs_def sample_inode_def)

end
