(* ===== verification/FS_Invariant.thy ===== *)
theory FS_Invariant
  imports Directory
begin

text \<open>
  The invariant of the file system. The live inodes are those of the free map and of the root
  directory, those named in the directory, and removed ones that are still open; the sectors they
  occupy are disjoint and marked in the free map, whose file holds the same bits. In memory there is
  one inode for each sector that is open, and its counters count the files and directories
  that refer to it.

  An operation may hold references of its own, in local variables: \<open>X\<close> counts them. \<open>F\<close> and \<open>G\<close> are
  the files and directories that own a reference; while one is being closed it is no longer
  among them although its memory is not freed yet.
\<close>

section \<open>Definitions\<close>

definition dinode :: "block \<Rightarrow> nat \<Rightarrow> inode_disk" where
  "dinode b n = dec_inode (contents b n)"

definition content :: "fs \<Rightarrow> nat \<Rightarrow> bytes" where
  "content s n = inode_bytes (fs_device s) (dinode (fs_device s) n)"

text \<open>\<open>do_format\<close> makes a root directory of 16 entries, which does not grow.\<close>

definition names :: "fs \<Rightarrow> bytes \<Rightarrow> nat option" where
  "names s = dir_map 16 (content s ROOT_DIR_SECTOR)"

definition marks :: "fs \<Rightarrow> nat \<Rightarrow> (bool \<times> nat) option" where
  "marks s p = map_option (\<lambda>ino. (i_removed ino, i_sector ino)) (inodes s p)"

definition removed_open :: "fs \<Rightarrow> nat set" where
  "removed_open s = {n. \<exists>p. marks s p = Some (True, n)}"

definition system_sectors :: "nat set" where
  "system_sectors = {FREE_MAP_SECTOR, ROOT_DIR_SECTOR}"

definition live :: "fs \<Rightarrow> nat set" where
  "live s = system_sectors \<union> ran (names s) \<union> removed_open s"

definition extent :: "block \<Rightarrow> nat \<Rightarrow> nat set" where
  "extent b n = insert n (data_sectors (dinode b n))"

definition inode_ok :: "block \<Rightarrow> nat set \<Rightarrow> nat \<Rightarrow> bool" where
  "inode_ok b U n \<longleftrightarrow> n < b_size b \<and> inode_fits b (dinode b n) \<and> n \<notin> data_sectors (dinode b n) \<and> extent b n \<subseteq> U"

definition disk_ok :: "block \<Rightarrow> nat set \<Rightarrow> nat set \<Rightarrow> bool" where
  "disk_ok b U L \<longleftrightarrow> (\<forall>n\<in>L. inode_ok b U n) \<and> (\<forall>n\<in>L. \<forall>m\<in>L. n \<noteq> m \<longrightarrow> extent b n \<inter> extent b m = {})"

definition refs :: "(nat \<Rightarrow> ofile option) \<Rightarrow> (nat \<Rightarrow> dir option) \<Rightarrow> nat \<Rightarrow> nat" where
  "refs F G p = card {f. \<exists>fl. F f = Some fl \<and> f_inode fl = p} + card {d. \<exists>dr. G d = Some dr \<and> d_inode dr = p}"

definition denies :: "(nat \<Rightarrow> ofile option) \<Rightarrow> nat \<Rightarrow> nat" where
  "denies F p = card {f. \<exists>fl. F f = Some fl \<and> f_inode fl = p \<and> f_deny_write fl}"

definition inv_disk :: "fs \<Rightarrow> bool" where
  "inv_disk s \<longleftrightarrow> sectors_ok (fs_device s) \<and> bitmap_wf (free_map s) \<and> bit_cnt (free_map s) = b_size (fs_device s) \<and>
     disk_ok (fs_device s) (bits_set (free_map s)) (live s)"

text \<open>One open inode: what holds of it alone.\<close>

definition open_ok :: "(nat \<Rightarrow> ofile option) \<Rightarrow> (nat \<Rightarrow> dir option) \<Rightarrow> (nat \<Rightarrow> nat) \<Rightarrow> fs \<Rightarrow> nat \<Rightarrow> inode \<Rightarrow> bool" where
  "open_ok F G X s p ino \<longleftrightarrow> p \<noteq> 0 \<and> p < next_ptr s \<and> i_data ino = dinode (fs_device s) (i_sector ino) \<and>
     0 < i_open_cnt ino \<and> i_open_cnt ino = int (refs F G p + X p) \<and> i_deny_write_cnt ino = int (denies F p) \<and>
     (if i_removed ino then i_sector ino \<notin> system_sectors \<union> ran (names s)
      else i_sector ino \<in> system_sectors \<union> ran (names s))"

definition sector_of :: "fs \<Rightarrow> nat \<Rightarrow> nat option" where
  "sector_of s p = map_option i_sector (inodes s p)"

definition inv_open :: "(nat \<Rightarrow> ofile option) \<Rightarrow> (nat \<Rightarrow> dir option) \<Rightarrow> (nat \<Rightarrow> nat) \<Rightarrow> fs \<Rightarrow> bool" where
  "inv_open F G X s \<longleftrightarrow> distinct (open_inodes s) \<and> set (open_inodes s) = dom (inodes s) \<and>
     (\<forall>p ino. inodes s p = Some ino \<longrightarrow> open_ok F G X s p ino) \<and> inj_on (sector_of s) (dom (inodes s)) \<and>
     (\<forall>p. inodes s p = None \<longrightarrow> X p = 0)"

definition file_ok :: "fs \<Rightarrow> nat \<Rightarrow> ofile \<Rightarrow> bool" where
  "file_ok s f fl \<longleftrightarrow> 0 \<le> f_pos fl \<and> (\<exists>n. sector_of s (f_inode fl) = Some n \<and>
     (if f = free_map_file s then n = FREE_MAP_SECTOR \<and> \<not> f_deny_write fl else n \<notin> system_sectors))"

definition pointers_ok :: "nat set \<Rightarrow> fs \<Rightarrow> bool" where
  "pointers_ok A s \<longleftrightarrow> 0 \<notin> A \<and> (\<forall>a\<in>A. a < next_ptr s)"

definition inv_files :: "(nat \<Rightarrow> ofile option) \<Rightarrow> (nat \<Rightarrow> dir option) \<Rightarrow> fs \<Rightarrow> bool" where
  "inv_files F G s \<longleftrightarrow> F \<subseteq>\<^sub>m files s \<and> G \<subseteq>\<^sub>m dirs s \<and>
     pointers_ok (dom (files s)) s \<and> pointers_ok (dom (dirs s)) s \<and>
     (\<forall>f fl. F f = Some fl \<longrightarrow> file_ok s f fl) \<and>
     (\<forall>d dr. G d = Some dr \<longrightarrow> sector_of s (d_inode dr) = Some ROOT_DIR_SECTOR)"

text \<open>The file of the free map holds its bits; past the last bit of the map it may hold anything.\<close>

definition map_image :: "bitmap \<Rightarrow> bytes \<Rightarrow> bool" where
  "map_image b bs \<longleftrightarrow> (\<exists>fm. same_shape b fm \<and> bits_set fm = bits_set b \<and> bs = bits_bytes (bits fm))"

definition inv_map :: "(nat \<Rightarrow> ofile option) \<Rightarrow> fs \<Rightarrow> bool" where
  "inv_map F s \<longleftrightarrow> free_map_file s \<in> dom F \<and> map_image (free_map s) (content s FREE_MAP_SECTOR)"

definition inv_dir :: "fs \<Rightarrow> bool" where
  "inv_dir s \<longleftrightarrow> id_length (dinode (fs_device s) ROOT_DIR_SECTOR) = 320 \<and> dir_wf 16 (content s ROOT_DIR_SECTOR) \<and>
     system_sectors \<inter> ran (names s) = {} \<and> inj_on (names s) (dom (names s))"

definition inv :: "(nat \<Rightarrow> ofile option) \<Rightarrow> (nat \<Rightarrow> dir option) \<Rightarrow> (nat \<Rightarrow> nat) \<Rightarrow> fs \<Rightarrow> bool" where
  "inv F G X s \<longleftrightarrow> mem_ok s \<and> inv_disk s \<and> inv_open F G X s \<and> inv_files F G s \<and> inv_map F s \<and> inv_dir s"

definition fs_inv :: "fs \<Rightarrow> bool" where
  "fs_inv s \<longleftrightarrow> inv (files s) (dirs s) (\<lambda>_. 0) s"

section \<open>Sectors that change\<close>

definition changed_only :: "nat set \<Rightarrow> block \<Rightarrow> block \<Rightarrow> bool" where
  "changed_only W b b' \<longleftrightarrow> b_size b' = b_size b \<and> (\<forall>n<b_size b. n \<notin> W \<longrightarrow> contents b' n = contents b n)"

lemma changed_only_trans: "changed_only W b b' \<Longrightarrow> changed_only W' b' b'' \<Longrightarrow> changed_only (W \<union> W') b b''"
  by (auto simp: changed_only_def)

lemma changed_only_mono: "changed_only W b b' \<Longrightarrow> W \<subseteq> W' \<Longrightarrow> changed_only W' b b'"
  by (auto simp: changed_only_def)

lemma changed_overlay:
  assumes "sectors_ok b" "sectors_ok b'" "b_size b' = b_size b" "disk b' = overlay (disk b) (512 * m + ofs) bs"
    "ofs + length bs \<le> 512 * k" "m + k \<le> b_size b"
  shows "changed_only {m..<m + k} b b'"
  unfolding changed_only_def
proof (intro conjI allI impI)
  fix n assume n: "n < b_size b" "n \<notin> {m..<m + k}"
  then consider "n + 1 \<le> m" | "m + k \<le> n" by fastforce
  then have "512 * n + 512 \<le> 512 * m + ofs \<or> 512 * m + ofs + length bs \<le> 512 * n" using assms(5) by cases linarith+
  moreover have "512 * m + ofs + length bs \<le> length (disk b)" using assms(1,5,6) by simp
  ultimately have "chunk (disk b') (512 * n) 512 = chunk (disk b) (512 * n) 512"
    unfolding assms(4) using n(1) assms(1) by (intro chunk_overlay_other) auto
  then show "contents b' n = contents b n" using chunk_disk_sector [of b n] chunk_disk_sector [of b' n] assms(1-3) n(1) by simp
qed (use assms(3) in simp)

lemma bytes_unchanged:
  assumes "sectors_ok b" "sectors_ok b'" "changed_only W b b'" "inode_fits b d" "data_sectors d \<inter> W = {}"
  shows "inode_bytes b' d = inode_bytes b d"
proof -
  let ?l = "nat (id_length d)" and ?k = "bytes_to_sectors (id_length d)"
  have le: "?l \<le> 512 * ?k" "id_start d + ?k \<le> b_size b" using data_sectors_end [OF assms(4)] assms(4) by (auto simp: inode_fits_def)
  have size: "b_size b' = b_size b" using assms(3) by (simp add: changed_only_def)
  have byte: "disk b' ! i = disk b ! i" if "id_start d \<le> i div 512" "i div 512 < id_start d + ?k" for i
  proof -
    have n: "i div 512 < b_size b" using that le(2) by simp
    then have "contents b' (i div 512) = contents b (i div 512)"
      using assms(3,5) that by (auto simp: changed_only_def data_sectors_def)
    then have "chunk (disk b') (512 * (i div 512)) 512 ! (i mod 512) = chunk (disk b) (512 * (i div 512)) 512 ! (i mod 512)"
      using chunk_disk_sector assms(1,2) n size by simp
    moreover have "512 * (i div 512) + 512 \<le> 512 * b_size b" using n by simp
    ultimately show ?thesis using assms(1,2) size by (simp add: nth_chunk)
  qed
  show ?thesis
    unfolding inode_bytes_def
  proof (rule nth_equalityI)
    show "length (chunk (disk b') (512 * id_start d) ?l) = length (chunk (disk b) (512 * id_start d) ?l)"
      using le assms(1,2) size by (simp add: chunk_def)
  next
    fix i assume "i < length (chunk (disk b') (512 * id_start d) ?l)"
    then have i: "i < ?l" by (simp add: chunk_def)
    have "(512 * id_start d + i) div 512 = id_start d + i div 512" by simp
    moreover have "i div 512 < ?k" using i le(1) by (simp add: less_mult_imp_div_less mult.commute)
    ultimately show "chunk (disk b') (512 * id_start d) ?l ! i = chunk (disk b) (512 * id_start d) ?l ! i"
      using i le assms(1,2) size by (simp add: nth_chunk byte)
  qed
qed


section \<open>Frames\<close>

text \<open>A live inode is not touched by writing the data of another.\<close>

lemma disk_okD:
  assumes "disk_ok b U L" "n \<in> L"
  shows "n < b_size b" "inode_fits b (dinode b n)" "n \<notin> data_sectors (dinode b n)" "extent b n \<subseteq> U"
  using assms by (auto simp: disk_ok_def inode_ok_def)

lemma live_notin_data: "disk_ok b U L \<Longrightarrow> n \<in> L \<Longrightarrow> m \<in> L \<Longrightarrow> m \<notin> data_sectors (dinode b n)"
  by (cases "m = n") (auto simp: disk_ok_def inode_ok_def extent_def)

lemma data_disjoint:
  "disk_ok b U L \<Longrightarrow> n \<in> L \<Longrightarrow> m \<in> L \<Longrightarrow> n \<noteq> m \<Longrightarrow> data_sectors (dinode b n) \<inter> data_sectors (dinode b m) = {}"
  by (auto simp: disk_ok_def extent_def)

text \<open>Sectors outside \<open>L\<close>'s inodes change: all of \<open>L\<close> stays as it is on disk.\<close>

lemma disk_ok_frame:
  assumes "disk_ok b U L" "changed_only W b b'" "sectors_ok b" "sectors_ok b'" "\<forall>n\<in>L. n \<notin> W"
  shows "disk_ok b' U L" "\<forall>n\<in>L. dinode b' n = dinode b n"
    "\<forall>n\<in>L. data_sectors (dinode b n) \<inter> W = {} \<longrightarrow> inode_bytes b' (dinode b' n) = inode_bytes b (dinode b n)"
proof -
  have size: "b_size b' = b_size b" using assms(2) by (simp add: changed_only_def)
  show D: "\<forall>n\<in>L. dinode b' n = dinode b n"
    using assms(2,5) disk_okD(1) [OF assms(1)] by (auto simp: changed_only_def dinode_def)
  then show "disk_ok b' U L" using assms(1) size
    by (auto simp: disk_ok_def inode_ok_def extent_def inode_fits_def)
  show "\<forall>n\<in>L. data_sectors (dinode b n) \<inter> W = {} \<longrightarrow> inode_bytes b' (dinode b' n) = inode_bytes b (dinode b n)"
    using D disk_okD(2) [OF assms(1)] bytes_unchanged [OF assms(3,4,2)] by auto
qed

lemma disk_ok_mono: "disk_ok b U L \<Longrightarrow> U \<subseteq> U' \<Longrightarrow> L' \<subseteq> L \<Longrightarrow> disk_ok b U' L'"
  unfolding disk_ok_def inode_ok_def by (meson order_trans subsetD)

lemma disk_ok_read_cnt [simp]:
  "dinode (b\<lparr>read_cnt := r\<rparr>) = dinode b" "disk_ok (b\<lparr>read_cnt := r\<rparr>) = disk_ok b"
  "inode_bytes (b\<lparr>read_cnt := r\<rparr>) = inode_bytes b"
  by (auto simp: fun_eq_iff dinode_def disk_ok_def inode_ok_def extent_def inode_bytes_def)

text \<open>Two states with the same sectors and the same inodes agree on everything that is read off the disk.\<close>

definition same_disk :: "fs \<Rightarrow> fs \<Rightarrow> bool" where
  "same_disk s s' \<longleftrightarrow> contents (fs_device s') = contents (fs_device s) \<and> b_size (fs_device s') = b_size (fs_device s) \<and>
     b_type (fs_device s') = b_type (fs_device s)"

lemma same_diskD:
  assumes "same_disk s s'"
  shows "dinode (fs_device s') = dinode (fs_device s)" "content s' = content s" "names s' = names s"
    "sectors_ok (fs_device s') = sectors_ok (fs_device s)" "inode_fits (fs_device s') = inode_fits (fs_device s)"
    "disk_ok (fs_device s') = disk_ok (fs_device s)" "inv_dir s' = inv_dir s" "b_size (fs_device s') = b_size (fs_device s)"
proof -
  show D: "dinode (fs_device s') = dinode (fs_device s)" using assms by (simp add: fun_eq_iff dinode_def same_disk_def)
  have "disk (fs_device s') = disk (fs_device s)" using assms by (simp add: disk_def same_disk_def)
  then show C: "content s' = content s" by (simp add: fun_eq_iff content_def inode_bytes_def D)
  then show N: "names s' = names s" by (simp add: names_def)
  show "sectors_ok (fs_device s') = sectors_ok (fs_device s)" "inode_fits (fs_device s') = inode_fits (fs_device s)"
    "b_size (fs_device s') = b_size (fs_device s)"
    using assms by (auto simp: fun_eq_iff sectors_ok_def inode_fits_def same_disk_def)
  then show "disk_ok (fs_device s') = disk_ok (fs_device s)"
    using assms by (simp add: fun_eq_iff disk_ok_def inode_ok_def extent_def D same_disk_def)
  show "inv_dir s' = inv_dir s" by (simp add: inv_dir_def D C N)
qed

lemma reads_same_disk: "reads s s' \<Longrightarrow> same_disk s s'"
  by (auto simp: reads_def same_disk_def)

lemma pointers_ok_mono: "pointers_ok A s \<Longrightarrow> A' \<subseteq> A \<Longrightarrow> next_ptr s \<le> next_ptr s' \<Longrightarrow> pointers_ok A' s'"
  unfolding pointers_ok_def by fastforce

lemma inv_reads:
  assumes "reads s s'" "inv F G X s"
  shows "inv F G X s'"
proof -
  note D = same_diskD [OF reads_same_disk [OF assms(1)]] and R = readsD [OF assms(1)]
  have l: "live s' = live s" by (simp add: live_def D removed_open_def marks_def R)
  have so: "sector_of s' = sector_of s" by (simp add: fun_eq_iff sector_of_def R)
  have "open_ok F G X s' p ino" if "open_ok F G X s p ino" for p ino
    using that R(12) by (auto simp: open_ok_def D)
  then have "inv_open F G X s'" using assms(2) by (auto simp: inv_def inv_open_def R so)
  moreover have "inv_files F G s'"
    using assms(2) R(12) by (auto simp: inv_def inv_files_def file_ok_def R so elim: pointers_ok_mono)
  moreover have "mem_ok s'" using assms mem_ok_reads by (auto simp: inv_def)
  ultimately show ?thesis
    using assms(2) by (simp add: inv_def inv_disk_def inv_map_def D R l)
qed


text \<open>What every operation needs of the invariant.\<close>

lemma invD:
  assumes "inv F G X s"
  shows "mem_ok s" "sectors_ok (fs_device s)" "bitmap_wf (free_map s)" "bit_cnt (free_map s) = b_size (fs_device s)"
    "disk_ok (fs_device s) (bits_set (free_map s)) (live s)" "inv_dir s" "inv_disk s" "inv_open F G X s"
    "inv_files F G s" "inv_map F s" "F \<subseteq>\<^sub>m files s" "G \<subseteq>\<^sub>m dirs s"
  using assms by (auto simp: inv_def inv_disk_def inv_files_def)

lemma inv_openD:
  assumes "inv_open F G X s" "inodes s p = Some ino"
  shows "open_ok F G X s p ino" "i_sector ino \<in> live s" "i_data ino = dinode (fs_device s) (i_sector ino)" "p \<noteq> 0" "p < next_ptr s"
    "p \<in> set (open_inodes s)"
proof -
  show ok: "open_ok F G X s p ino" "p \<in> set (open_inodes s)" using assms by (auto simp: inv_open_def)
  show "i_sector ino \<in> live s"
  proof (cases "i_removed ino")
    case True
    then have "marks s p = Some (True, i_sector ino)" using assms(2) by (simp add: marks_def)
    then show ?thesis unfolding live_def removed_open_def by blast
  next
    case False
    then show ?thesis using ok by (auto simp: open_ok_def live_def)
  qed
  show "i_data ino = dinode (fs_device s) (i_sector ino)" "p \<noteq> 0" "p < next_ptr s" using ok by (auto simp: open_ok_def)
qed

lemma inv_opened:
  assumes "inv F G X s" "inodes s p = Some ino"
  shows "opened s p (dinode (fs_device s) (i_sector ino))"
  using assms inv_openD [OF invD(8) [OF assms(1)] assms(2)] disk_okD(2) [OF invD(5) [OF assms(1)]] invD(2) [OF assms(1)]
  by (auto simp: opened_def)

lemma system_live [simp]: "FREE_MAP_SECTOR \<in> live s" "ROOT_DIR_SECTOR \<in> live s"
  by (simp_all add: live_def system_sectors_def)

lemma system_neq [simp]: "FREE_MAP_SECTOR \<noteq> ROOT_DIR_SECTOR" "ROOT_DIR_SECTOR \<noteq> FREE_MAP_SECTOR"
  by (simp_all add: FREE_MAP_SECTOR_def ROOT_DIR_SECTOR_def)

section \<open>Writing the data of an inode\<close>

lemma data_write:
  assumes "inv F G X s" "writes s s'" "n \<in> live s" "changed_only (data_sectors (dinode (fs_device s) n)) (fs_device s) (fs_device s')"
  shows "sectors_ok (fs_device s')" "\<forall>m\<in>live s. dinode (fs_device s') m = dinode (fs_device s) m"
    "\<forall>m\<in>live s. m \<noteq> n \<longrightarrow> content s' m = content s m" "disk_ok (fs_device s') (bits_set (free_map s)) (live s)"
proof -
  note I = invD [OF assms(1)] and W = writesD [OF assms(2)]
  have out: "\<forall>m\<in>live s. m \<notin> data_sectors (dinode (fs_device s) n)" using live_notin_data [OF I(5) assms(3)] by blast
  note D = disk_ok_frame [OF I(5) assms(4) I(2) W(1) out]
  show "sectors_ok (fs_device s')" by (rule W(1))
  show "\<forall>m\<in>live s. dinode (fs_device s') m = dinode (fs_device s) m" "disk_ok (fs_device s') (bits_set (free_map s)) (live s)"
    by (fact D(2), fact D(1))
  show "\<forall>m\<in>live s. m \<noteq> n \<longrightarrow> content s' m = content s m"
    using D(3) data_disjoint [OF I(5) _ assms(3)] by (auto simp: content_def)
qed

lemma sector_of_writes: "writes s s' \<Longrightarrow> sector_of s' = sector_of s"
  using writesD(4) [of s s'] by (simp add: fun_eq_iff sector_of_def)

lemma inv_files_writes: "writes s s' \<Longrightarrow> inv_files F G s \<Longrightarrow> inv_files F G s'"
  using writesD [of s s'] sector_of_writes [of s s'] by (auto simp: inv_files_def file_ok_def elim: pointers_ok_mono)

text \<open>The directory as it was: nothing else about names and live inodes can have changed.\<close>

lemma names_same:
  assumes "inv F G X s" "writes s s'" "n \<in> live s" "n \<noteq> ROOT_DIR_SECTOR"
    "changed_only (data_sectors (dinode (fs_device s) n)) (fs_device s) (fs_device s')"
  shows "names s' = names s" "live s' = live s" "inv_dir s'" "inv_open F G X s'"
proof -
  note I = invD [OF assms(1)] and W = writesD [OF assms(2)] and D = data_write [OF assms(1-3,5)]
  have c: "content s' ROOT_DIR_SECTOR = content s ROOT_DIR_SECTOR" using D(3) assms(4) by simp
  then show N: "names s' = names s" by (simp add: names_def)
  then show L: "live s' = live s" by (simp add: live_def removed_open_def marks_def W)
  show "inv_dir s'" using I(6) D(2) c N by (simp add: inv_dir_def)
  have "open_ok F G X s' p ino" if ino: "inodes s p = Some ino" for p ino
  proof -
    note o = inv_openD [OF I(8) ino]
    show ?thesis using o(1) D(2) o(2) W(11) by (auto simp: open_ok_def N split: if_splits)
  qed
  then show "inv_open F G X s'" using I(8) by (auto simp: inv_open_def W sector_of_writes [OF assms(2)])
qed

lemma inv_data_write:
  assumes "inv F G X s" "writes s s'" "n \<in> live s" "n \<notin> system_sectors"
    "changed_only (data_sectors (dinode (fs_device s) n)) (fs_device s) (fs_device s')"
  shows "inv F G X s'" "names s' = names s" "\<forall>m\<in>live s. m \<noteq> n \<longrightarrow> content s' m = content s m" "live s' = live s"
proof -
  have n: "n \<noteq> ROOT_DIR_SECTOR" "n \<noteq> FREE_MAP_SECTOR" using assms(4) by (auto simp: system_sectors_def)
  note I = invD [OF assms(1)] and W = writesD [OF assms(2)] and D = data_write [OF assms(1-3,5)]
    and N = names_same [OF assms(1-3) n(1) assms(5)]
  show "names s' = names s" "\<forall>m\<in>live s. m \<noteq> n \<longrightarrow> content s' m = content s m" "live s' = live s" by (fact N(1), fact D(3), fact N(2))
  have "inv_disk s'" using I(3,4) D(1,4) by (simp add: inv_disk_def W N)
  moreover have "inv_map F s'" using I(10) D(3) n(2) by (simp add: inv_map_def W)
  ultimately show "inv F G X s'"
    using N(3,4) mem_ok_writes [OF assms(2) I(1)] inv_files_writes [OF assms(2) I(9)] by (simp add: inv_def)
qed


section \<open>Writing the free map\<close>

lemma length_bits_bytes [simp]: "length (bits_bytes ws) = 4 * length ws"
  by (induction ws) (simp_all add: bits_bytes_def)

lemma map_image_self: "map_image b (bits_bytes (bits b))"
  by (auto simp: map_image_def same_shape_def)

lemma map_inode:
  assumes "inv F G X s"
  obtains fl ino where "files s (free_map_file s) = Some fl" "inodes s (f_inode fl) = Some ino" "i_sector ino = FREE_MAP_SECTOR"
    "i_data ino = dinode (fs_device s) FREE_MAP_SECTOR" "i_deny_write_cnt ino = 0" "free_map_file s \<noteq> 0"
proof -
  note I = invD [OF assms]
  obtain fl where fl: "F (free_map_file s) = Some fl" using I(10) by (auto simp: inv_map_def)
  then have "files s (free_map_file s) = Some fl" using I(11) by (metis domI map_le_def)
  moreover have "file_ok s (free_map_file s) fl" using I(9) fl by (simp add: inv_files_def)
  ultimately obtain ino where ino: "inodes s (f_inode fl) = Some ino" "i_sector ino = FREE_MAP_SECTOR"
    by (auto simp: file_ok_def sector_of_def)
  have "\<not> f_deny_write fl'" if "F f = Some fl'" "f_inode fl' = f_inode fl" for f fl'
  proof -
    have "file_ok s f fl'" using I(9) that(1) by (simp add: inv_files_def)
    then show ?thesis using ino that(2) by (auto simp: file_ok_def sector_of_def system_sectors_def split: if_splits)
  qed
  then have "{f. \<exists>fl'. F f = Some fl' \<and> f_inode fl' = f_inode fl \<and> f_deny_write fl'} = {}" by blast
  then have "denies F (f_inode fl) = 0" unfolding denies_def by (simp only: card.empty)
  moreover have "free_map_file s \<noteq> 0"
    using \<open>files s _ = Some fl\<close> I(9) unfolding inv_files_def pointers_ok_def by (metis domI)
  ultimately show ?thesis
    using that [OF \<open>files s _ = Some fl\<close> ino] inv_openD(1,3) [OF I(8) ino(1)] ino(2) by (simp add: open_ok_def)
qed

lemma map_length:
  assumes "inv F G X s"
  shows "nat (id_length (dinode (fs_device s) FREE_MAP_SECTOR)) = 4 * length (bits (free_map s))"
proof -
  note I = invD [OF assms]
  have "length (content s FREE_MAP_SECTOR) = nat (id_length (dinode (fs_device s) FREE_MAP_SECTOR))"
    using I(2) disk_okD(2) [OF I(5) system_live(1)] by (simp add: content_def)
  then show ?thesis using I(10) by (auto simp: inv_map_def map_image_def same_shape_def)
qed

lemma inode_bytes_changed:
  assumes "sectors_ok b" "sectors_ok b'" "b_size b' = b_size b" "inode_fits b d"
    "disk b' = overlay (disk b) (512 * id_start d + ofs) bs" "ofs + length bs \<le> nat (id_length d)"
  shows "changed_only (data_sectors d) b b'"
  unfolding data_sectors_def
  using assms data_sectors_end [OF assms(4)] by (intro changed_overlay [where ofs = ofs and bs = bs]) (auto simp: inode_fits_def)

lemma bitmap_write_at:
  assumes "files s f = Some fl" "inodes s (f_inode fl) = Some ino" "i_deny_write_cnt ino = 0" "sectors_ok (fs_device s)"
    "inode_fits (fs_device s) (i_data ino)" "mem_ok s" "bitmap_wf fm" "4 * length (bits fm) = nat (id_length (i_data ino))"
  obtains s' where "bitmap_write s fm f = Some (True, s')" "writes s s'"
    "changed_only (data_sectors (i_data ino)) (fs_device s) (fs_device s')" "inode_bytes (fs_device s') (i_data ino) = bits_bytes (bits fm)"
proof -
  let ?d = "i_data ino" and ?buf = "bits_bytes (bits fm)"
  have n: "byte_cnt (bit_cnt fm) = length ?buf" "length ?buf = nat (id_length ?d)"
    using assms(7,8) by (auto simp: bitmap_wf_def byte_cnt_def)
  have "can_bounce False s" using assms(6) by (simp add: mem_ok_def can_bounce_def)
  moreover have "left ?d (length ?buf) 0 = length ?buf" using n(2) by (simp add: left_def)
  ultimately obtain s' where s': "inode_write_at s (f_inode fl) ?buf (int (length ?buf)) (int 0) = Some (int (length ?buf), s')"
      "writes s s'" "disk (fs_device s') = overlay (disk (fs_device s)) (512 * id_start ?d + 0) ?buf"
    using inode_write_at_ok [OF assms(2-5), of "length ?buf" ?buf 0] by auto
  have "changed_only (data_sectors ?d) (fs_device s) (fs_device s')"
    using n(2) s'(3) writesD(1,2) [OF s'(2)] assms(4,5) by (intro inode_bytes_changed [where ofs = 0 and bs = ?buf]) auto
  moreover have "inode_bytes (fs_device s') ?d = ?buf"
    using inode_bytes_overlay [OF assms(4,5) s'(3)] n(2) length_inode_bytes [OF assms(4,5)] by (simp add: overlay_def)
  moreover have "bitmap_write s fm f = Some (True, s')"
    using s'(1) assms(1) n(1) by (simp add: bitmap_write_def file_write_at_def Let_def)
  ultimately show ?thesis using that s'(2) by blast
qed

lemma bitmap_write_ok:
  assumes "inv F G X s" "same_shape (free_map s) fm"
  obtains s' where "bitmap_write (s\<lparr>free_map := fm\<rparr>) fm (free_map_file s) = Some (True, s')"
    "writes (s\<lparr>free_map := fm\<rparr>) s'"
    "changed_only (data_sectors (dinode (fs_device s) FREE_MAP_SECTOR)) (fs_device s) (fs_device s')"
    "inode_bytes (fs_device s') (dinode (fs_device s) FREE_MAP_SECTOR) = bits_bytes (bits fm)"
proof -
  note I = invD [OF assms(1)]
  let ?s = "s\<lparr>free_map := fm\<rparr>"
  obtain fl ino where f: "files s (free_map_file s) = Some fl" "inodes s (f_inode fl) = Some ino"
      "i_data ino = dinode (fs_device s) FREE_MAP_SECTOR" "i_deny_write_cnt ino = 0"
    using map_inode [OF assms(1)] by blast
  have fits: "inode_fits (fs_device s) (i_data ino)" using disk_okD(2) [OF I(5) system_live(1)] f(3) by simp
  have n: "4 * length (bits fm) = nat (id_length (i_data ino))" "bitmap_wf fm" "mem_ok ?s"
    using assms(2) same_shape_keeps [OF assms(2) I(3)] map_length [OF assms(1)] I(1) f(3) by (auto simp: same_shape_def mem_ok_def)
  show ?thesis
    by (rule bitmap_write_at [of ?s "free_map_file s" fl ino fm]) (use f I(2) fits n that in auto)
qed

text \<open>The free map changes in memory and on disk; the live inodes keep their sectors.\<close>

lemma writes_free_map: "writes (s\<lparr>free_map := fm\<rparr>) s' \<Longrightarrow> \<exists>s1. writes s s1 \<and> s' = s1\<lparr>free_map := fm\<rparr>"
proof -
  assume "writes (s\<lparr>free_map := fm\<rparr>) s'"
  then obtain b q where b: "next_ptr s \<le> q" "s' = s\<lparr>free_map := fm, fs_device := b, next_ptr := q\<rparr>"
      "b_size b = b_size (fs_device s)" "sectors_ok b"
    by (auto simp: writes_def)
  then have "writes s (s\<lparr>fs_device := b, next_ptr := q\<rparr>)" unfolding writes_def by blast
  then show ?thesis using b(2) by (intro exI [of _ "s\<lparr>fs_device := b, next_ptr := q\<rparr>"]) simp
qed

lemma sector_of_free_map [simp]: "sector_of (s\<lparr>free_map := fm\<rparr>) = sector_of s"
  by (simp add: sector_of_def fun_eq_iff)

lemma free_map_irrelevant [simp]:
  "names (s\<lparr>free_map := fm\<rparr>) = names s" "live (s\<lparr>free_map := fm\<rparr>) = live s" "content (s\<lparr>free_map := fm\<rparr>) = content s"
  "inv_dir (s\<lparr>free_map := fm\<rparr>) = inv_dir s" "mem_ok (s\<lparr>free_map := fm\<rparr>) = mem_ok s"
  "inv_open F G X (s\<lparr>free_map := fm\<rparr>) = inv_open F G X s" "inv_files F G (s\<lparr>free_map := fm\<rparr>) = inv_files F G s"
  by (simp_all add: names_def content_def fun_eq_iff live_def removed_open_def marks_def inv_dir_def mem_ok_def inv_open_def open_ok_def
      inv_files_def file_ok_def pointers_ok_def)

lemma inv_map_write:
  assumes "inv F G X s" "same_shape (free_map s) fm" "disk_ok (fs_device s) (bits_set fm) (live s)"
  obtains s' where "bitmap_write (s\<lparr>free_map := fm\<rparr>) fm (free_map_file s) = Some (True, s')" "inv F G X s'"
    "writes (s\<lparr>free_map := fm\<rparr>) s'" "names s' = names s" "live s' = live s" "free_map s' = fm"
    "\<forall>m\<in>live s. m \<noteq> FREE_MAP_SECTOR \<longrightarrow> content s' m = content s m"
    "changed_only (data_sectors (dinode (fs_device s) FREE_MAP_SECTOR)) (fs_device s) (fs_device s')"
proof -
  note I = invD [OF assms(1)]
  obtain s' where s': "bitmap_write (s\<lparr>free_map := fm\<rparr>) fm (free_map_file s) = Some (True, s')"
      "writes (s\<lparr>free_map := fm\<rparr>) s'" 
      "changed_only (data_sectors (dinode (fs_device s) FREE_MAP_SECTOR)) (fs_device s) (fs_device s')"
      "inode_bytes (fs_device s') (dinode (fs_device s) FREE_MAP_SECTOR) = bits_bytes (bits fm)"
    by (rule bitmap_write_ok [OF assms(1,2)])
  obtain s1 where s1: "writes s s1" "s' = s1\<lparr>free_map := fm\<rparr>" using writes_free_map [OF s'(2)] by blast
  have ch: "changed_only (data_sectors (dinode (fs_device s) FREE_MAP_SECTOR)) (fs_device s) (fs_device s1)"
    using s'(3) s1(2) by simp
  note W = writesD [OF s1(1)] and D = data_write [OF assms(1) s1(1) system_live(1) ch]
    and N = names_same [OF assms(1) s1(1) system_live(1) system_neq(1) ch]
  have out: "\<forall>m\<in>live s. m \<notin> data_sectors (dinode (fs_device s) FREE_MAP_SECTOR)"
    using live_notin_data [OF I(5) system_live(1)] by blast
  have "inv_disk s'"
    using same_shape_keeps [OF assms(2) I(3)] I(4) D(1) disk_ok_frame(1) [OF assms(3) ch I(2) W(1) out]
    by (simp add: inv_disk_def s1(2) W N)
  moreover have "inv_map F s'" using I(10) s'(4) D(2) map_image_self [of fm] by (simp add: inv_map_def content_def s1(2) W)
  ultimately have "inv F G X s'"
    using N(3,4) mem_ok_writes [OF s1(1) I(1)] inv_files_writes [OF s1(1) I(9)] by (simp add: inv_def s1(2))
  then show ?thesis using that s' N D(3) by (simp add: s1(2))
qed


section \<open>Allocation\<close>

text \<open>What an operation that leaves names and data alone guarantees.\<close>

definition keeps_data :: "fs \<Rightarrow> fs \<Rightarrow> bool" where
  "keeps_data s s' \<longleftrightarrow> names s' = names s \<and> (\<forall>m\<in>live s'. m \<noteq> FREE_MAP_SECTOR \<longrightarrow> content s' m = content s m) \<and> live s' \<subseteq> live s \<and>
     files s' = files s \<and> dirs s' = dirs s \<and> free_map_file s' = free_map_file s \<and> next_ptr s \<le> next_ptr s'"

lemma keeps_data_trans: "keeps_data s s' \<Longrightarrow> keeps_data s' s'' \<Longrightarrow> keeps_data s s''"
  unfolding keeps_data_def by (metis (no_types, lifting) order_trans subsetD)

lemma keeps_data_reads: "reads s s' \<Longrightarrow> keeps_data s s'"
  using same_diskD [OF reads_same_disk, of s s'] readsD [of s s']
  by (auto simp: keeps_data_def live_def removed_open_def marks_def)

text \<open>Whether a map has a run of free bits; where the first one is.\<close>

definition has_room :: "bitmap \<Rightarrow> nat \<Rightarrow> bool" where
  "has_room b cnt \<longleftrightarrow> (\<exists>k. k + cnt \<le> bit_cnt b \<and> bits_set b \<inter> span (k, cnt) = {})"

lemma is_group_span: "is_group b k cnt False \<longleftrightarrow> k + cnt \<le> bit_cnt b \<and> bits_set b \<inter> span (k, cnt) = {}"
  unfolding is_group_def bits_set_def span_def disjoint_iff by (auto dest: order_less_le_trans)

lemma free_map_allocate_ok:
  assumes "inv F G X s"
  obtains (none) "free_map_allocate s cnt = Some (None, s)" "\<not> has_room (free_map s) cnt"
  | (some) i s' where "free_map_allocate s cnt = Some (Some i, s')" "inv F G X s'" "keeps_data s s'" "live s' = live s"
      "i + cnt \<le> b_size (fs_device s)" "bits_set (free_map s) \<inter> span (i, cnt) = {}"
      "bits_set (free_map s') = bits_set (free_map s) \<union> span (i, cnt)" "inodes s' = inodes s"
      "changed_only (data_sectors (dinode (fs_device s) FREE_MAP_SECTOR)) (fs_device s) (fs_device s')"
      "\<forall>k<i. \<not> (k + cnt \<le> bit_cnt (free_map s) \<and> bits_set (free_map s) \<inter> span (k, cnt) = {})"
proof -
  note I = invD [OF assms]
  show ?thesis
  proof (cases rule: scan_and_flip_result [OF I(3) le0, of cnt])
    case 1
    have "s\<lparr>free_map := free_map s\<rparr> = s" by simp
    moreover have "\<not> has_room (free_map s) cnt" using 1(2) by (auto simp: has_room_def is_group_span)
    ultimately show ?thesis using 1(1) none by (simp add: free_map_allocate_def)
  next
    case (2 i fm)
    have "disk_ok (fs_device s) (bits_set fm) (live s)" using I(5) 2(7) by (auto intro: disk_ok_mono)
    from inv_map_write [OF assms 2(3) this] obtain s' where
      s': "bitmap_write (s\<lparr>free_map := fm\<rparr>) fm (free_map_file s) = Some (True, s')" "inv F G X s'"
        "writes (s\<lparr>free_map := fm\<rparr>) s'" "names s' = names s" "live s' = live s" "free_map s' = fm"
        "\<forall>m\<in>live s. m \<noteq> FREE_MAP_SECTOR \<longrightarrow> content s' m = content s m"
        "changed_only (data_sectors (dinode (fs_device s) FREE_MAP_SECTOR)) (fs_device s) (fs_device s')" by blast
    have "free_map_file s \<noteq> 0" using map_inode [OF assms] by blast
    then have "free_map_allocate s cnt = Some (Some i, s')"
      using s'(1) 2(1,2) by (simp add: free_map_allocate_def Let_def)
    moreover have "keeps_data s s'" using s' writesD [OF s'(3)] by (simp add: keeps_data_def)
    moreover have "\<forall>k<i. \<not> (k + cnt \<le> bit_cnt (free_map s) \<and> bits_set (free_map s) \<inter> span (k, cnt) = {})"
      using 2(8) by (auto simp: is_group_span)
    ultimately show ?thesis using some s' 2(5-7) I(4) writesD(4) [OF s'(3)] by simp
  qed
qed

lemma free_map_release_ok:
  assumes "inv F G X s" "span (i, cnt) \<subseteq> bits_set (free_map s)" "i + cnt \<le> b_size (fs_device s)"
    "\<forall>n\<in>live s. extent (fs_device s) n \<inter> span (i, cnt) = {}"
  obtains s' where "free_map_release s i cnt = Some s'" "inv F G X s'" "keeps_data s s'" "live s' = live s"
    "bits_set (free_map s') = bits_set (free_map s) - span (i, cnt)" "inodes s' = inodes s" "open_inodes s' = open_inodes s"
    "changed_only (data_sectors (dinode (fs_device s) FREE_MAP_SECTOR)) (fs_device s) (fs_device s')"
proof -
  note I = invD [OF assms(1)]
  have all: "bitmap_all (free_map s) i cnt = Some True"
    using bitmap_all_bits [OF I(3)] assms(2,3) I(4) by (auto simp: bits_set_def span_def)
  have "i + cnt \<le> bit_cnt (free_map s)" using assms(3) I(4) by simp
  from bits_set_multiple [OF I(3) this, of False] obtain fm where
    fm: "bitmap_set_multiple (free_map s) i cnt False = Some fm" "same_shape (free_map s) fm"
      "bits_set fm = bits_set (free_map s) - span (i, cnt)" by auto
  have "disk_ok (fs_device s) (bits_set fm) (live s)"
    using I(5) assms(4) fm(3) unfolding disk_ok_def inode_ok_def by blast
  from inv_map_write [OF assms(1) fm(2) this] obtain s' where
    s': "bitmap_write (s\<lparr>free_map := fm\<rparr>) fm (free_map_file s) = Some (True, s')" "inv F G X s'"
      "writes (s\<lparr>free_map := fm\<rparr>) s'" "names s' = names s" "live s' = live s" "free_map s' = fm"
      "\<forall>m\<in>live s. m \<noteq> FREE_MAP_SECTOR \<longrightarrow> content s' m = content s m"
      "changed_only (data_sectors (dinode (fs_device s) FREE_MAP_SECTOR)) (fs_device s) (fs_device s')" by blast
  have "free_map_release s i cnt = Some s'"
    using all fm(1) s'(1) by (simp add: free_map_release_def Let_def)
  moreover have "keeps_data s s'" using s' writesD [OF s'(3)] by (simp add: keeps_data_def)
  ultimately show ?thesis using that s' fm(3) writesD(4,5) [OF s'(3)] by simp
qed

section \<open>Opening and closing inodes\<close>

lemma find_open_ok:
  "(\<forall>p\<in>set ps. inodes s p \<noteq> None) \<Longrightarrow> find_open s n ps = Some (find (\<lambda>p. sector_of s p = Some n) ps)"
  by (induction ps) (auto simp: sector_of_def)

text \<open>The count of references in the table of inodes.\<close>

definition set_inode :: "fs \<Rightarrow> nat \<Rightarrow> inode \<Rightarrow> fs" where
  "set_inode s p ino = s\<lparr>inodes := (inodes s)(p \<mapsto> ino)\<rparr>"

lemma set_inode_simps [simp]:
  "inodes (set_inode s p ino) = (inodes s)(p \<mapsto> ino)" "open_inodes (set_inode s p ino) = open_inodes s"
  "fs_device (set_inode s p ino) = fs_device s" "free_map (set_inode s p ino) = free_map s" "files (set_inode s p ino) = files s"
  "dirs (set_inode s p ino) = dirs s" "free_map_file (set_inode s p ino) = free_map_file s"
  "next_ptr (set_inode s p ino) = next_ptr s" "oom (set_inode s p ino) = oom s" "names (set_inode s p ino) = names s"
  "content (set_inode s p ino) = content s" "inv_dir (set_inode s p ino) = inv_dir s" "mem_ok (set_inode s p ino) = mem_ok s"
  "inv_map F (set_inode s p ino) = inv_map F s"
  by (simp_all add: set_inode_def names_def content_def fun_eq_iff inv_dir_def mem_ok_def inv_map_def)

text \<open>Counters of an open inode change; sector and removal flag stay.\<close>

lemma inv_count:
  assumes "inv F G X s" "inodes s p = Some ino" "ino' = ino\<lparr>i_open_cnt := i_open_cnt ino + int c - int (X p)\<rparr>" "X' = X(p := c)"
    "0 < i_open_cnt ino'"
  shows "inv F G X' (set_inode s p ino')" "live (set_inode s p ino') = live s" "sector_of (set_inode s p ino') = sector_of s"
proof -
  note I = invD [OF assms(1)]
  have same: "i_sector ino' = i_sector ino" "i_removed ino' = i_removed ino" "i_data ino' = i_data ino"
      "i_deny_write_cnt ino' = i_deny_write_cnt ino"
    using assms(3) by simp_all
  show so: "sector_of (set_inode s p ino') = sector_of s" using assms(2) same by (auto simp: fun_eq_iff sector_of_def)
  have "marks (set_inode s p ino') = marks s" using assms(2) same by (auto simp: fun_eq_iff marks_def)
  then have "removed_open (set_inode s p ino') = removed_open s" by (simp add: removed_open_def)
  then show L: "live (set_inode s p ino') = live s" by (simp add: live_def)
  have "open_ok F G X' (set_inode s p ino') q i" if "inodes (set_inode s p ino') q = Some i" for q i
  proof (cases "q = p")
    case True
    then have "i = ino'" using that by simp
    then show ?thesis using True same inv_openD(1) [OF I(8) assms(2)] assms(3-5) by (auto simp: open_ok_def)
  next
    case False
    then show ?thesis using that inv_openD(1) [OF I(8), of q i] assms(4) by (auto simp: open_ok_def)
  qed
  moreover have "dom (inodes (set_inode s p ino')) = dom (inodes s)" using assms(2) by auto
  moreover have "distinct (open_inodes s)" "set (open_inodes s) = dom (inodes s)" "inj_on (sector_of s) (dom (inodes s))"
    "\<forall>q. inodes s q = None \<longrightarrow> X q = 0"
    using I(8) by (auto simp: inv_open_def)
  moreover have "X' q = 0" if "inodes (set_inode s p ino') q = None" for q
    using that calculation(6) assms(4) by (auto split: if_splits)
  ultimately have "inv_open F G X' (set_inode s p ino')"
    unfolding inv_open_def so set_inode_simps(2) by (intro conjI allI impI) auto
  moreover have "inv_files F G (set_inode s p ino')"
    using I(9) by (auto simp: inv_files_def file_ok_def so pointers_ok_def)
  ultimately show "inv F G X' (set_inode s p ino')" using I by (simp add: inv_def inv_disk_def L)
qed


lemma reopen_ok:
  assumes "inv F G X s" "inodes s p = Some ino"
  obtains s' where "inode_reopen s p = Some (p, s')" "inv F G (X(p := X p + 1)) s'" "keeps_data s s'" "sector_of s' = sector_of s"
    "live s' = live s"
proof -
  let ?ino = "ino\<lparr>i_open_cnt := i_open_cnt ino + 1\<rparr>"
  note o = inv_openD [OF invD(8) [OF assms(1)] assms(2)]
  have "?ino = ino\<lparr>i_open_cnt := i_open_cnt ino + int (X p + 1) - int (X p)\<rparr>" "0 < i_open_cnt ?ino"
    using o(1) by (simp_all add: open_ok_def)
  note c = inv_count [OF assms this(1) refl this(2)]
  have "keeps_data s (set_inode s p ?ino)" using c(2) by (simp add: keeps_data_def)
  moreover have "inode_reopen s p = Some (p, set_inode s p ?ino)"
    using assms(2) o(4) by (simp add: inode_reopen_def set_inode_def)
  ultimately show ?thesis using that c by blast
qed

lemma unopened:
  assumes "inv F G X s" "inodes s p = None"
  shows "refs F G p = 0" "denies F p = 0" "X p = 0"
proof -
  note I = invD [OF assms(1)]
  have none: "sector_of s p = None" using assms(2) by (simp add: sector_of_def)
  have f: "f_inode fl \<noteq> p" if "F f = Some fl" for f fl
  proof -
    have "file_ok s f fl" using I(9) that by (simp add: inv_files_def)
    then show ?thesis using none by (auto simp: file_ok_def)
  qed
  have g: "d_inode dr \<noteq> p" if "G d = Some dr" for d dr
    using I(9) that none by (auto simp: inv_files_def)
  have e: "{f. \<exists>fl. F f = Some fl \<and> f_inode fl = p} = {}" "{d. \<exists>dr. G d = Some dr \<and> d_inode dr = p} = {}"
    "{f. \<exists>fl. F f = Some fl \<and> f_inode fl = p \<and> f_deny_write fl} = {}"
    using f g by blast+
  show "refs F G p = 0" "denies F p = 0" unfolding refs_def denies_def e by simp_all
  show "X p = 0" using I(8) assms(2) by (simp add: inv_open_def)
qed

text \<open>A new inode in memory, for a sector that is not open.\<close>

definition add_inode :: "fs \<Rightarrow> nat \<Rightarrow> inode \<Rightarrow> fs" where
  "add_inode s p ino = s\<lparr>open_inodes := p # open_inodes s, inodes := (inodes s)(p \<mapsto> ino)\<rparr>"

lemma add_inode_simps [simp]:
  "inodes (add_inode s p ino) = (inodes s)(p \<mapsto> ino)" "open_inodes (add_inode s p ino) = p # open_inodes s"
  "fs_device (add_inode s p ino) = fs_device s" "free_map (add_inode s p ino) = free_map s" "files (add_inode s p ino) = files s"
  "dirs (add_inode s p ino) = dirs s" "free_map_file (add_inode s p ino) = free_map_file s"
  "next_ptr (add_inode s p ino) = next_ptr s" "oom (add_inode s p ino) = oom s" "names (add_inode s p ino) = names s"
  "content (add_inode s p ino) = content s" "inv_dir (add_inode s p ino) = inv_dir s" "mem_ok (add_inode s p ino) = mem_ok s"
  "inv_map F (add_inode s p ino) = inv_map F s"
  by (simp_all add: add_inode_def names_def content_def fun_eq_iff inv_dir_def mem_ok_def inv_map_def)

lemma inv_add_inode:
  assumes "inv F G X s" "inodes s p = None" "p \<noteq> 0" "p < next_ptr s" "n \<in> system_sectors \<union> ran (names s)"
    "\<forall>q. sector_of s q \<noteq> Some n" "ino = \<lparr>i_sector = n, i_open_cnt = 1, i_removed = False, i_deny_write_cnt = 0,
       i_data = dinode (fs_device s) n\<rparr>"
  shows "inv F G (X(p := X p + 1)) (add_inode s p ino)" "live (add_inode s p ino) = live s"
proof -
  note I = invD [OF assms(1)] and U = unopened [OF assms(1,2)]
  let ?s = "add_inode s p ino" and ?X = "X(p := X p + 1)"
  have so: "sector_of ?s q = (if q = p then Some n else sector_of s q)" for q using assms(7) by (simp add: sector_of_def)
  have "marks ?s q = (if q = p then Some (False, n) else marks s q)" for q using assms(7) by (simp add: marks_def)
  moreover have "marks s p = None" using assms(2) by (simp add: marks_def)
  ultimately have "marks ?s q = Some (True, k) \<longleftrightarrow> marks s q = Some (True, k)" for q k by (cases "q = p") simp_all
  then have "removed_open ?s = removed_open s" by (simp add: removed_open_def)
  then show L: "live ?s = live s" by (simp add: live_def)
  have "open_ok F G ?X ?s q i" if i: "inodes ?s q = Some i" for q i
  proof (cases "q = p")
    case True
    then have "i = ino" using i by simp
    then show ?thesis using True assms(3-5) U by (auto simp: open_ok_def assms(7))
  next
    case False
    then show ?thesis using i inv_openD(1) [OF I(8), of q i] by (auto simp: open_ok_def)
  qed
  moreover have "distinct (open_inodes ?s)" "set (open_inodes ?s) = dom (inodes ?s)" "\<forall>q. inodes ?s q = None \<longrightarrow> ?X q = 0"
    using I(8) assms(2) by (auto simp: inv_open_def)
  moreover have "inj_on (sector_of ?s) (dom (inodes ?s))"
    using I(8) assms(6) by (auto simp: inv_open_def inj_on_def so)
  ultimately have "inv_open F G ?X ?s" unfolding inv_open_def by blast
  moreover have keep: "sector_of ?s q = Some k" if "sector_of s q = Some k" for q k
    using that so [of q] assms(2) by (auto simp: sector_of_def)
  then have "file_ok ?s f fl" if "file_ok s f fl" for f fl using that by (auto simp: file_ok_def)
  then have "inv_files F G ?s" using I(9) keep by (simp add: inv_files_def pointers_ok_def)
  ultimately show "inv F G ?X ?s" using I by (simp add: inv_def inv_disk_def L)
qed


lemma inode_open_ok:
  assumes "inv F G X s" "n \<in> system_sectors \<union> ran (names s)"
  obtains p s' where "inode_open s n = Some (p, s')" "inv F G (X(p := X p + 1)) s'" "keeps_data s s'" "live s' = live s"
    "sector_of s' p = Some n" "p \<noteq> 0" "\<forall>q m. sector_of s q = Some m \<longrightarrow> sector_of s' q = Some m"
proof -
  note I = invD [OF assms(1)]
  have dom: "set (open_inodes s) = dom (inodes s)" using I(8) by (simp add: inv_open_def)
  then have fo: "find_open s n (open_inodes s) = Some (find (\<lambda>p. sector_of s p = Some n) (open_inodes s))"
    by (intro find_open_ok) (auto simp: dom_def)
  show ?thesis
  proof (cases "find (\<lambda>p. sector_of s p = Some n) (open_inodes s)")
    case (Some p)
    then have p: "sector_of s p = Some n" by (auto simp: find_Some_iff)
    then obtain ino where ino: "inodes s p = Some ino" by (auto simp: sector_of_def)
    obtain s' where "inode_reopen s p = Some (p, s')" "inv F G (X(p := X p + 1)) s'" "keeps_data s s'" "sector_of s' = sector_of s"
        "live s' = live s"
      by (rule reopen_ok [OF assms(1) ino])
    then show ?thesis using that [of p s'] fo Some p inv_openD(4) [OF I(8) ino] by (simp add: inode_open_def)
  next
    case None
    have no: "\<forall>q. sector_of s q \<noteq> Some n"
    proof (intro allI notI)
      fix q assume "sector_of s q = Some n"
      moreover from this have "q \<in> set (open_inodes s)" unfolding dom by (auto simp: sector_of_def)
      ultimately show False using None by (auto simp: find_None_iff)
    qed
    let ?p = "next_ptr s" and ?s1 = "s\<lparr>next_ptr := next_ptr s + 1\<rparr>"
    have m: "malloc s = (?p, ?s1)" "?p \<noteq> 0" using I(1) by (auto simp: malloc_def mem_ok_def)
    have r1: "reads s ?s1" unfolding reads_def by (intro exI [of _ "read_cnt (fs_device s)"] exI [of _ "?p + 1"]) simp
    have nl: "n < b_size (fs_device s)" using assms(2) disk_okD(1) [OF I(5), of n] by (auto simp: live_def)
    then obtain s2 where s2: "fs_read ?s1 n = Some (contents (fs_device s) n, s2)" "reads ?s1 s2" "next_ptr s2 = ?p + 1"
      using fs_read_ok [of n ?s1] by auto
    have r: "reads s s2" using r1 s2(2) by (rule reads_trans)
    note D = same_diskD [OF reads_same_disk [OF r]] and R = readsD [OF r]
    let ?ino = "\<lparr>i_sector = n, i_open_cnt = 1, i_removed = False, i_deny_write_cnt = 0, i_data = dinode (fs_device s2) n\<rparr>"
    have free: "inodes s2 ?p = None" using inv_openD(5) [OF I(8)] R(5) by (metis less_irrefl not_Some_eq)
    have so: "sector_of s2 = sector_of s" by (simp add: fun_eq_iff sector_of_def R)
    have A: "inv F G (X(?p := X ?p + 1)) (add_inode s2 ?p ?ino)" "live (add_inode s2 ?p ?ino) = live s2"
      using inv_add_inode [OF inv_reads [OF r assms(1)] free m(2), of n ?ino] s2(3) assms(2) no by (simp_all add: D so)
    have op: "inode_open s n = Some (?p, add_inode s2 ?p ?ino)"
      using fo None m s2(1) by (simp add: inode_open_def add_inode_def D(1)) (simp add: dinode_def)
    have L: "live s2 = live s" by (simp add: live_def D removed_open_def marks_def R)
    have "keeps_data s (add_inode s2 ?p ?ino)" using A(2) L by (auto simp: keeps_data_def D R)
    moreover have "\<forall>q m. sector_of s q = Some m \<longrightarrow> sector_of (add_inode s2 ?p ?ino) q = Some m"
      using free R(5) by (auto simp: sector_of_def)
    moreover have "sector_of (add_inode s2 ?p ?ino) ?p = Some n" by (simp add: sector_of_def)
    ultimately show ?thesis using that [OF op A(1)] A(2) L m(2) by simp
  qed
qed

text \<open>The table of inodes matters to a write only at the inode written.\<close>

definition with_tables :: "(nat \<Rightarrow> inode option) \<Rightarrow> nat list \<Rightarrow> fs \<Rightarrow> fs" where
  "with_tables I Os s = s\<lparr>inodes := I, open_inodes := Os\<rparr>"

lemma tables_simps [simp]:
  "fs_read (with_tables I Os s) n = map_option (\<lambda>(b, s). (b, with_tables I Os s)) (fs_read s n)"
  "fs_write (with_tables I Os s) n buf = map_option (with_tables I Os) (fs_write s n buf)"
  "get_bounce b (with_tables I Os s) = (fst (get_bounce b s), with_tables I Os (snd (get_bounce b s)))"
  by (auto simp: with_tables_def fs_read_def fs_write_def get_bounce_def malloc_def split: bind_splits)

lemma write_loop_tables:
  "write_loop d b buf n ofs w (with_tables I Os s) =
   map_option (\<lambda>(r, s). (r, with_tables I Os s)) (write_loop d b buf n ofs w s)"
proof (induction "nat n" arbitrary: n b ofs w s rule: less_induct)
  case less
  let ?T = "with_tables I Os" and ?c = "chunk_size d n ofs"
  show ?case
  proof (cases "0 < n \<and> 0 < ?c")
    case False
    then show ?thesis by (subst (1 2) write_loop.simps) (auto simp: Let_def)
  next
    case True
    then have IH: "write_loop d b buf (n - c) ofs w (?T s) = map_option (\<lambda>(r, s). (r, ?T s)) (write_loop d b buf (n - c) ofs w s)"
      if "0 < c" for b c ofs w s using that by (intro less) simp
    show ?thesis
      using True by (subst (1 2) write_loop.simps) (auto simp: Let_def IH case_prod_beta split: bind_splits)
  qed
qed

end
