(* ===== verification/FS_Operations.thy ===== *)
theory FS_Operations
  imports FS_Invariant
begin

text \<open>
  Every operation of the file system keeps the invariant: closing and creating inodes, adding and
  removing directory entries, and the operations on files.
\<close>

section \<open>Closing an inode\<close>

lemma finite_owners:
  assumes "inv F G X s"
  shows "finite (dom F)" "finite (dom G)"
proof -
  note I = invD [OF assms]
  have "dom (files s) \<subseteq> {..<next_ptr s}" "dom (dirs s) \<subseteq> {..<next_ptr s}"
    using I(9) by (auto simp: inv_files_def pointers_ok_def)
  then have "dom F \<subseteq> {..<next_ptr s}" "dom G \<subseteq> {..<next_ptr s}"
    using map_le_implies_dom_le [OF I(11)] map_le_implies_dom_le [OF I(12)] by (meson order_trans)+
  then show "finite (dom F)" "finite (dom G)" using finite_subset by blast+
qed

lemma owner_sets_finite:
  assumes "inv F G X s"
  shows "finite {f. \<exists>fl. F f = Some fl \<and> P fl}" "finite {d. \<exists>dr. G d = Some dr \<and> Q dr}"
  using finite_owners [OF assms] by (auto elim: rev_finite_subset)

lemma no_refs:
  assumes "inv F G X s" "refs F G p = 0"
  shows "F f = Some fl \<Longrightarrow> f_inode fl \<noteq> p" "G d = Some dr \<Longrightarrow> d_inode dr \<noteq> p"
proof -
  have "card {f. \<exists>fl. F f = Some fl \<and> f_inode fl = p} = 0" "card {d. \<exists>dr. G d = Some dr \<and> d_inode dr = p} = 0"
    using assms(2) by (simp_all add: refs_def)
  then have e: "{f. \<exists>fl. F f = Some fl \<and> f_inode fl = p} = {}" "{d. \<exists>dr. G d = Some dr \<and> d_inode dr = p} = {}"
    using owner_sets_finite [OF assms(1)] by simp_all
  show "F f = Some fl \<Longrightarrow> f_inode fl \<noteq> p" "G d = Some dr \<Longrightarrow> d_inode dr \<noteq> p" using e by blast+
qed

definition drop_inode :: "fs \<Rightarrow> nat \<Rightarrow> fs" where
  "drop_inode s p = with_tables ((inodes s)(p := None)) (remove1 p (open_inodes s)) s"

lemma with_tables_simps [simp]:
  "inodes (with_tables I Os s) = I" "open_inodes (with_tables I Os s) = Os"
  "fs_device (with_tables I Os s) = fs_device s" "free_map (with_tables I Os s) = free_map s" "files (with_tables I Os s) = files s"
  "dirs (with_tables I Os s) = dirs s" "free_map_file (with_tables I Os s) = free_map_file s"
  "next_ptr (with_tables I Os s) = next_ptr s" "oom (with_tables I Os s) = oom s" "names (with_tables I Os s) = names s"
  "content (with_tables I Os s) = content s" "inv_dir (with_tables I Os s) = inv_dir s" "mem_ok (with_tables I Os s) = mem_ok s"
  "inv_map F (with_tables I Os s) = inv_map F s"
  by (simp_all add: with_tables_def names_def content_def fun_eq_iff inv_dir_def mem_ok_def inv_map_def)

lemma names_drop [simp]: "names (drop_inode s p) = names s" "fs_device (drop_inode s p) = fs_device s"
  by (simp_all add: drop_inode_def)

lemma inv_drop:
  assumes "inv F G X s" "inodes s p = Some ino" "refs F G p = 0"
  shows "inv F G (X(p := 0)) (drop_inode s p)"
    "live (drop_inode s p) = (if i_removed ino then live s - {i_sector ino} else live s)"
proof -
  note I = invD [OF assms(1)]
  let ?s = "drop_inode s p" and ?X = "X(p := 0)" and ?n = "i_sector ino"
  have so: "sector_of ?s q = (if q = p then None else sector_of s q)" for q by (simp add: sector_of_def drop_inode_def)
  have ma: "marks ?s q = (if q = p then None else marks s q)" for q by (simp add: marks_def drop_inode_def)
  have np: "marks s p = Some (i_removed ino, ?n)" using assms(2) by (simp add: marks_def)
  have inj: "marks s q = Some (r, ?n) \<Longrightarrow> q = p" for q r
  proof -
    assume "marks s q = Some (r, ?n)"
    then have "sector_of s q = Some ?n" "q \<in> dom (inodes s)" by (auto simp: marks_def sector_of_def)
    moreover have "sector_of s p = Some ?n" "p \<in> dom (inodes s)" using assms(2) by (auto simp: sector_of_def)
    ultimately show "q = p" using I(8) by (simp add: inv_open_def inj_on_def)
  qed
  have rem: "removed_open ?s = (if i_removed ino then removed_open s - {?n} else removed_open s)"
  proof (rule set_eqI)
    fix k
    have "(\<exists>q. q \<noteq> p \<and> marks s q = Some (True, k)) \<longleftrightarrow> (\<exists>q. marks s q = Some (True, k)) \<and> (i_removed ino \<longrightarrow> k \<noteq> ?n)"
    proof (cases "k = ?n")
      case True
      then show ?thesis using np inj [of _ True] by (metis option.inject prod.inject)
    next
      case False
      then have "marks s p \<noteq> Some (True, k)" using np by simp
      then show ?thesis using False by metis
    qed
    then show "k \<in> removed_open ?s \<longleftrightarrow> k \<in> (if i_removed ino then removed_open s - {?n} else removed_open s)"
      by (auto simp: removed_open_def ma)
  qed
  have "i_removed ino \<Longrightarrow> ?n \<notin> system_sectors \<union> ran (names s)"
    using inv_openD(1) [OF I(8) assms(2)] by (simp add: open_ok_def)
  then show L: "live ?s = (if i_removed ino then live s - {?n} else live s)"
    using rem by (auto simp: live_def names_drop)
  have "open_ok F G ?X ?s q i" if "inodes ?s q = Some i" for q i
    using that inv_openD(1) [OF I(8), of q i] by (auto simp: open_ok_def drop_inode_def split: if_splits)
  moreover have "distinct (open_inodes ?s)" "set (open_inodes ?s) = dom (inodes ?s)" "\<forall>q. inodes ?s q = None \<longrightarrow> ?X q = 0"
    using I(8) by (auto simp: inv_open_def drop_inode_def)
  moreover have "dom (inodes ?s) = dom (inodes s) - {p}" by (auto simp: drop_inode_def)
  moreover from this have "inj_on (sector_of ?s) (dom (inodes ?s))"
    using I(8) by (auto simp: inv_open_def inj_on_def so)
  ultimately have "inv_open F G ?X ?s" unfolding inv_open_def by blast
  moreover have "file_ok ?s f fl" if "F f = Some fl" for f fl
    using that I(9) no_refs(1) [OF assms(1,3) that] so by (auto simp: inv_files_def file_ok_def drop_inode_def)
  then have "inv_files F G ?s"
    using I(9) no_refs(2) [OF assms(1,3)] so by (auto simp: inv_files_def pointers_ok_def drop_inode_def)
  moreover have "live ?s \<subseteq> live s" using L by auto
  then have "inv_disk ?s" using I(2-5) disk_ok_mono [OF I(5) order_refl] by (simp add: inv_disk_def drop_inode_def)
  ultimately show "inv F G ?X ?s" using I by (simp add: inv_def) (simp add: drop_inode_def)
qed

lemma free_map_release_tables:
  assumes "files s (free_map_file s) = Some fl" "I (f_inode fl) = inodes s (f_inode fl)"
  shows "free_map_release (with_tables I Os s) i c = map_option (with_tables I Os) (free_map_release s i c)"
proof -
  have fm: "(with_tables I Os s)\<lparr>free_map := fm\<rparr> = with_tables I Os (s\<lparr>free_map := fm\<rparr>)" for fm by (simp add: with_tables_def)
  have "inode_write_at (with_tables I Os t) (f_inode fl) buf n ofs =
      map_option (\<lambda>(r, s). (r, with_tables I Os s)) (inode_write_at t (f_inode fl) buf n ofs)"
    if "inodes t = inodes s" for t buf n ofs
    using assms(2) that by (cases "inodes s (f_inode fl)") (simp_all add: inode_write_at_def write_loop_tables)
  then show ?thesis
    using assms(1) by (auto simp: free_map_release_def fm bitmap_write_def file_write_at_def Let_def split: bind_splits)
qed


lemma dec_open:
  assumes "inv F G X s" "inodes s p = Some ino" "0 < X p" "i_open_cnt ino \<noteq> 1"
  obtains s' where "inode_close s p = Some s'" "inv F G (X(p := X p - 1)) s'" "keeps_data s s'" "live s' = live s"
    "sector_of s' = sector_of s"
proof -
  let ?ino = "ino\<lparr>i_open_cnt := i_open_cnt ino - 1\<rparr>"
  note o = inv_openD [OF invD(8) [OF assms(1)] assms(2)]
  have "?ino = ino\<lparr>i_open_cnt := i_open_cnt ino + int (X p - 1) - int (X p)\<rparr>" "0 < i_open_cnt ?ino"
    using o(1) assms(3,4) by (simp_all add: open_ok_def)
  note c = inv_count [OF assms(1,2) this(1) refl this(2)]
  have "keeps_data s (set_inode s p ?ino)" using c(2) by (simp add: keeps_data_def)
  moreover have "inode_close s p = Some (set_inode s p ?ino)"
    using assms(2,4) o(4) by (simp add: inode_close_def set_inode_def Let_def)
  ultimately show ?thesis using that c by blast
qed

lemma release_removed:
  assumes "inv F G X s" "inodes s p = Some ino" "i_removed ino" "inv F G X' t" "t = drop_inode s p"
    "live t = live s - {i_sector ino}"
  obtains t1 t2 where "free_map_release t (i_sector ino) 1 = Some t1"
    "free_map_release t1 (id_start (i_data ino)) (bytes_to_sectors (id_length (i_data ino))) = Some t2"
    "inv F G X' t2" "keeps_data t t2" "live t2 = live t" "inodes t2 = inodes t" "open_inodes t2 = open_inodes t"
    "files t1 = files t" "free_map_file t1 = free_map_file t" "inodes t1 = inodes t"
proof -
  note I = invD [OF assms(1)] and T = invD [OF assms(4)] and o = inv_openD [OF invD(8) [OF assms(1)] assms(2)]
  let ?n = "i_sector ino" and ?b = "fs_device s" and ?W = "data_sectors (dinode (fs_device s) FREE_MAP_SECTOR)"
  have same: "fs_device t = ?b" "free_map t = free_map s" by (simp_all add: assms(5) drop_inode_def)
  have d: "span (id_start (i_data ino), bytes_to_sectors (id_length (i_data ino))) = data_sectors (dinode ?b ?n)"
    by (simp add: span_def data_sectors_def o(3))
  have dis: "extent ?b m \<inter> extent ?b ?n = {}" if "m \<in> live t" for m
    using that I(5) o(2) assms(6) unfolding disk_ok_def by blast
  have n: "?n < b_size ?b" "?n \<notin> data_sectors (dinode ?b ?n)" "extent ?b ?n \<subseteq> bits_set (free_map s)" "inode_fits ?b (dinode ?b ?n)"
    using disk_okD [OF I(5) o(2)] by auto
  obtain t1 where t1: "free_map_release t ?n 1 = Some t1" "inv F G X' t1" "keeps_data t t1" "live t1 = live t"
      "bits_set (free_map t1) = bits_set (free_map t) - span (?n, 1)" "inodes t1 = inodes t" "open_inodes t1 = open_inodes t"
      "changed_only ?W (fs_device t) (fs_device t1)"
    by (rule free_map_release_ok [OF assms(4), of ?n 1]) (use n dis same in \<open>auto simp: span_def extent_def\<close>)
  have D: "dinode (fs_device t1) m = dinode ?b m" if "m \<in> live t" for m
    using disk_ok_frame(2) [OF T(5) t1(8) T(2) invD(2) [OF t1(2)]] live_notin_data [OF T(5) system_live(1)] that same by simp
  have size: "b_size (fs_device t1) = b_size ?b" using t1(8) same by (simp add: changed_only_def)
  have ext: "extent (fs_device t1) m \<inter> data_sectors (dinode ?b ?n) = {}" if "m \<in> live t1" for m
    using dis [of m] that t1(4) D by (auto simp: extent_def)
  obtain t2 where t2: "free_map_release t1 (id_start (i_data ino)) (bytes_to_sectors (id_length (i_data ino))) = Some t2"
      "inv F G X' t2" "keeps_data t1 t2" "live t2 = live t1" "inodes t2 = inodes t1" "open_inodes t2 = open_inodes t1"
  proof (rule free_map_release_ok [OF t1(2), of "id_start (i_data ino)" "bytes_to_sectors (id_length (i_data ino))"], unfold d)
    show "data_sectors (dinode ?b ?n) \<subseteq> bits_set (free_map t1)" using n(2,3) t1(5) same by (auto simp: span_def extent_def)
    show "id_start (i_data ino) + bytes_to_sectors (id_length (i_data ino)) \<le> b_size (fs_device t1)"
      using n(4) size o(3) by (simp add: inode_fits_def)
    show "\<forall>m\<in>live t1. extent (fs_device t1) m \<inter> data_sectors (dinode ?b ?n) = {}" using ext by blast
  qed
  show ?thesis
    by (rule that [OF t1(1) t2(1,2) keeps_data_trans [OF t1(3) t2(3)]]) (use t1 t2 in \<open>auto simp: keeps_data_def\<close>)
qed

lemma last_close:
  assumes "inv F G X s" "inodes s p = Some ino" "0 < X p" "i_open_cnt ino = 1"
  obtains s' where "inode_close s p = Some s'" "inv F G (X(p := X p - 1)) s'" "keeps_data s s'"
    "live s' = (if i_removed ino then live s - {i_sector ino} else live s)"
    "sector_of s' = (sector_of s)(p := None)"
proof -
  note I = invD [OF assms(1)] and o = inv_openD [OF invD(8) [OF assms(1)] assms(2)]
  let ?t = "drop_inode s p" and ?ino = "ino\<lparr>i_open_cnt := 0\<rparr>"
  let ?T = "with_tables ((inodes s)(p \<mapsto> ?ino)) (remove1 p (open_inodes s))"
  have r: "refs F G p = 0" "X p = 1" using o(1) assms(3,4) by (auto simp: open_ok_def)
  note d = inv_drop [OF assms(1,2) r(1)]
  have X: "X(p := X p - 1) = X(p := 0)" using r(2) by simp
  have so: "sector_of ?t = (sector_of s)(p := None)" by (auto simp: fun_eq_iff sector_of_def drop_inode_def)
  have kd: "keeps_data s ?t" using d(2) by (auto simp: keeps_data_def drop_inode_def)
  have tt: "?T ?t = ?T s" by (simp add: with_tables_def drop_inode_def)
  show ?thesis
  proof (cases "i_removed ino")
    case False
    have "inode_close s p = Some ?t"
      using assms(2,4) o(4) False by (simp add: inode_close_def Let_def drop_inode_def with_tables_def)
    then show ?thesis using that d False so kd unfolding X by simp
  next
    case True
    then obtain t1 t2 where t: "free_map_release ?t (i_sector ino) 1 = Some t1"
        "free_map_release t1 (id_start (i_data ino)) (bytes_to_sectors (id_length (i_data ino))) = Some t2"
        "inv F G (X(p := 0)) t2" "keeps_data ?t t2" "live t2 = live ?t" "inodes t2 = inodes ?t" "open_inodes t2 = open_inodes ?t"
        "files t1 = files ?t" "free_map_file t1 = free_map_file ?t" "inodes t1 = inodes ?t"
      using release_removed [OF assms(1,2) True d(1) refl] d(2) True by auto
    obtain fl i0 where fl: "files ?t (free_map_file ?t) = Some fl" "inodes ?t (f_inode fl) = Some i0"
      using map_inode [OF d(1)] by blast
    then have "f_inode fl \<noteq> p" by (auto simp: drop_inode_def)
    then have I0: "((inodes s)(p \<mapsto> ?ino)) (f_inode fl) = inodes ?t (f_inode fl)" by (simp add: drop_inode_def)
    have "free_map_release (?T s) (i_sector ino) 1 = Some (?T t1)"
      unfolding tt [symmetric]
      using free_map_release_tables [where s = ?t and fl = fl and I = "(inodes s)(p \<mapsto> ?ino)"] fl(1) I0 t(1) by simp
    moreover have "free_map_release (?T t1) (id_start (i_data ino)) (bytes_to_sectors (id_length (i_data ino))) = Some (?T t2)"
      using free_map_release_tables [where s = t1 and fl = fl and I = "(inodes s)(p \<mapsto> ?ino)"] fl(1) I0 t(2,8-10) by simp
    moreover have "(?T t2)\<lparr>inodes := (inodes (?T t2))(p := None)\<rparr> = t2"
      using t(6,7) by (simp add: with_tables_def drop_inode_def)
    ultimately have "inode_close s p = Some t2"
      using assms(2,4) o(4) True by (simp add: inode_close_def Let_def with_tables_def)
    moreover have "sector_of t2 = (sector_of s)(p := None)" using so t(6) by (simp add: fun_eq_iff sector_of_def)
    ultimately show ?thesis using that t(3,5) d(2) True keeps_data_trans [OF kd t(4)] unfolding X by simp
  qed
qed


lemma inode_close_ok:
  assumes "inv F G X s" "0 < X p"
  obtains s' where "inode_close s p = Some s'" "inv F G (X(p := X p - 1)) s'" "keeps_data s s'"
    "\<forall>q m. refs F G q + (X(p := X p - 1)) q > 0 \<longrightarrow> sector_of s q = Some m \<longrightarrow> sector_of s' q = Some m"
proof -
  obtain ino where ino: "inodes s p = Some ino" using invD(8) [OF assms(1)] assms(2) by (fastforce simp: inv_open_def)
  note o = inv_openD [OF invD(8) [OF assms(1)] ino]
  show ?thesis
  proof (cases "i_open_cnt ino = 1")
    case True
    then have z: "refs F G p = 0" "X p - 1 = 0" using o(1) assms(2) by (auto simp: open_ok_def)
    from last_close [OF assms(1) ino assms(2) True] obtain s' where "inode_close s p = Some s'"
        "inv F G (X(p := X p - 1)) s'" "keeps_data s s'" "sector_of s' = (sector_of s)(p := None)" by blast
    then show ?thesis using that z by auto
  next
    case False
    from dec_open [OF assms(1) ino assms(2) False] that show ?thesis by metis
  qed
qed

section \<open>Creating an inode\<close>

lemma disk_nth:
  assumes "sectors_ok b" "i < 512 * b_size b"
  shows "disk b ! i = contents b (i div 512) ! (i mod 512)"
proof -
  have n: "i div 512 < b_size b" using assms(2) by (simp add: less_mult_imp_div_less mult.commute)
  have "512 * (i div 512) + 512 \<le> 512 * b_size b" using n by simp
  then have "chunk (disk b) (512 * (i div 512)) 512 ! (i mod 512) = disk b ! (512 * (i div 512) + i mod 512)"
    using assms(1) by (intro nth_chunk) simp_all
  then show ?thesis using chunk_disk_sector [OF assms(1) n] by simp
qed

lemma zero_bytes:
  assumes "sectors_ok b" "inode_fits b d" "\<forall>m\<in>data_sectors d. contents b m = replicate 512 0"
  shows "inode_bytes b d = replicate (nat (id_length d)) 0"
proof (rule nth_equalityI)
  show "length (inode_bytes b d) = length (replicate (nat (id_length d)) 0)" using assms(1,2) by simp
next
  fix i assume "i < length (inode_bytes b d)"
  then have i: "i < nat (id_length d)" using assms(1,2) by simp
  note e = data_sectors_end [OF assms(2)] inode_fits_bound [OF assms(2)]
  have "i div 512 < bytes_to_sectors (id_length d)" using i e(1) by (simp add: less_mult_imp_div_less mult.commute)
  then have "contents b (id_start d + i div 512) = replicate 512 0" using assms(3) by (simp add: data_sectors_def)
  then have "disk b ! (512 * id_start d + i) = 0" using i e(2) by (simp add: disk_nth [OF assms(1)])
  then show "inode_bytes b d ! i = replicate (nat (id_length d)) 0 ! i"
    using i e(2) assms(1) by (simp add: inode_bytes_def nth_chunk)
qed

lemma fs_write_contents:
  assumes "sectors_ok (fs_device s)" "n < b_size (fs_device s)" "length buf = 512"
  obtains s' where "fs_write s n buf = Some s'" "writes s s'" "contents (fs_device s') = (contents (fs_device s))(n := buf)"
proof -
  obtain b where b: "block_write (fs_device s) n buf = Some b" "sectors_ok b" "contents b = (contents (fs_device s))(n := buf)"
      "b_size b = b_size (fs_device s)"
    using block_write_ok [OF assms(1,2)] assms(3) by (auto simp: BLOCK_SECTOR_SIZE_def)
  have "writes s (s\<lparr>fs_device := b\<rparr>)"
    unfolding writes_def using b(2,4) by (intro exI [of _ b] exI [of _ "next_ptr s"]) simp
  then show ?thesis using b that [of "s\<lparr>fs_device := b\<rparr>"] by (simp add: fs_write_def)
qed

lemma zero_sectors_ok:
  "sectors_ok (fs_device s) \<Longrightarrow> m + n \<le> b_size (fs_device s) \<Longrightarrow>
   \<exists>s'. zero_sectors n s m = Some s' \<and> writes s s' \<and>
     contents (fs_device s') = (\<lambda>k. if m \<le> k \<and> k < m + n then replicate 512 0 else contents (fs_device s) k)"
proof (induction n arbitrary: s m)
  case 0
  then show ?case by (intro exI [of _ s]) (auto simp: fun_eq_iff)
next
  case (Suc n)
  have w: "wrap32 m = m" using Suc.prems by (intro wrap32_id) (simp add: sectors_ok_def)
  obtain s1 where s1: "fs_write s m (replicate 512 0) = Some s1" "writes s s1"
      "contents (fs_device s1) = (contents (fs_device s))(m := replicate 512 0)"
    using fs_write_contents [OF Suc.prems(1), of m "replicate 512 0"] Suc.prems(2) by auto
  note W = writesD [OF s1(2)]
  obtain s' where s': "zero_sectors n s1 (m + 1) = Some s'" "writes s1 s'"
      "contents (fs_device s') = (\<lambda>k. if m + 1 \<le> k \<and> k < m + 1 + n then replicate 512 0 else contents (fs_device s1) k)"
    using Suc.IH [of s1 "m + 1"] W Suc.prems(2) by auto
  have "contents (fs_device s') = (\<lambda>k. if m \<le> k \<and> k < m + Suc n then replicate 512 0 else contents (fs_device s) k)"
    unfolding s'(3) s1(3) by (auto simp: fun_eq_iff)
  then show ?case using s1(1) s'(1) writes_trans [OF s1(2) s'(2)] by (simp add: w BLOCK_SECTOR_SIZE_def)
qed

text \<open>Sectors that no live inode uses may change.\<close>

lemma inv_outside:
  assumes "inv F G X s" "writes s s'" "changed_only W (fs_device s) (fs_device s')" "\<forall>n\<in>live s. extent (fs_device s) n \<inter> W = {}"
  shows "inv F G X s'" "keeps_data s s'" "live s' = live s" "\<forall>n\<in>live s. dinode (fs_device s') n = dinode (fs_device s) n"
proof -
  note I = invD [OF assms(1)] and V = writesD [OF assms(2)]
  have out: "\<forall>n\<in>live s. n \<notin> W" and data: "\<forall>n\<in>live s. data_sectors (dinode (fs_device s) n) \<inter> W = {}"
    using assms(4) by (auto simp: extent_def)
  note D = disk_ok_frame [OF I(5) assms(3) I(2) V(1) out]
  show dd: "\<forall>n\<in>live s. dinode (fs_device s') n = dinode (fs_device s) n" by (fact D(2))
  have C: "\<forall>n\<in>live s. content s' n = content s n" using D(3) data by (simp add: content_def)
  then have N: "names s' = names s" by (simp add: names_def)
  then show L: "live s' = live s" by (simp add: live_def removed_open_def marks_def V)
  have "open_ok F G X s' p ino" if ino: "inodes s p = Some ino" for p ino
  proof -
    note o = inv_openD [OF I(8) ino]
    show ?thesis using o(1,2) D(2) V(11) by (auto simp: open_ok_def N split: if_splits)
  qed
  then have "inv_open F G X s'" using I(8) by (auto simp: inv_open_def V sector_of_writes [OF assms(2)])
  moreover have "inv_disk s'" using I(3,4) V(1) D(1) by (simp add: inv_disk_def V L)
  moreover have "inv_map F s'" using I(10) C by (simp add: inv_map_def V)
  moreover have "inv_dir s'" using I(6) dd C by (simp add: inv_dir_def N)
  ultimately show "inv F G X s'"
    using mem_ok_writes [OF assms(2) I(1)] inv_files_writes [OF assms(2) I(9)] by (simp add: inv_def)
  show "keeps_data s s'" using N L C V by (simp add: keeps_data_def)
qed

lemma bytes_to_sectors_huge:
  assumes "2 ^ 31 - 511 \<le> n" "n < 2 ^ 31"
  shows "2 ^ 31 < bytes_to_sectors n"
proof -
  define k where "k = 2 ^ 32 - (n + 511)"
  have k: "2 ^ 30 \<le> k" "k \<le> 2 ^ 31" using assms by (auto simp: k_def)
  have "(n + 511 + 2 ^ 31) mod 2 ^ 32 = (n + 511 + 2 ^ 31 - 2 ^ 32) mod 2 ^ 32"
    by (rule minus_mod_self2 [symmetric])
  also have "\<dots> = n + 511 + 2 ^ 31 - 2 ^ 32" using assms by (intro mod_pos_pos_trivial) auto
  finally have "s32 (n + 512 - 1) = - k" by (simp add: s32_def k_def)
  moreover have "(- k) sdiv 512 = - (k div 512)" using k by (simp add: signed_divide_int_def)
  moreover have "(- (k div 512)) mod 2 ^ 32 = 2 ^ 32 - k div 512"
  proof -
    have "(- (k div 512)) mod 2 ^ 32 = (2 ^ 32 + - (k div 512)) mod 2 ^ 32" by (rule mod_add_self1 [symmetric])
    also have "\<dots> = (2 ^ 32 - k div 512) mod 2 ^ 32" by simp
    also have "\<dots> = 2 ^ 32 - k div 512" using k by (intro mod_pos_pos_trivial) auto
    finally show ?thesis .
  qed
  moreover have "k div 512 \<le> 2 ^ 22" using k by simp
  ultimately show ?thesis by (simp add: bytes_to_sectors_def)
qed

text \<open>Writing a new inode and clearing its sectors.\<close>

lemma make_inode:
  assumes "sectors_ok (fs_device s)" "n < b_size (fs_device s)" "i + c \<le> b_size (fs_device s)" "n \<notin> span (i, c)"
    "c = bytes_to_sectors len" "0 \<le> len" "len < 2 ^ 31 - 511" "b_size (fs_device s) < 2 ^ 31"
    "d = \<lparr>id_start = i, id_length = len, id_magic = INODE_MAGIC, id_unused = replicate 500 0\<rparr>"
  obtains s2 s3 where "fs_write s n (enc_inode d) = Some s2" "zero_sectors c s2 i = Some s3" "writes s s3"
    "changed_only (insert n (span (i, c))) (fs_device s) (fs_device s3)" "dinode (fs_device s3) n = d"
    "inode_fits (fs_device s3) d" "content s3 n = replicate (nat len) 0" "data_sectors d = span (i, c)"
proof -
  have "length (enc_inode d) = 512" by (simp add: enc_inode_def assms(9))
  then obtain s2 where s2: "fs_write s n (enc_inode d) = Some s2" "writes s s2"
      "contents (fs_device s2) = (contents (fs_device s))(n := enc_inode d)"
    using fs_write_contents [OF assms(1,2)] by blast
  note W2 = writesD [OF s2(2)]
  obtain s3 where s3: "zero_sectors c s2 i = Some s3" "writes s2 s3"
      "contents (fs_device s3) = (\<lambda>k. if i \<le> k \<and> k < i + c then replicate 512 0 else contents (fs_device s2) k)"
    using zero_sectors_ok [OF W2(1), of i c] W2(2) assms(3) by auto
  have w: "writes s s3" using s2(2) s3(2) by (rule writes_trans)
  note W = writesD [OF w]
  have ch: "changed_only (insert n (span (i, c))) (fs_device s) (fs_device s3)"
    by (auto simp: changed_only_def W s3(3) s2(3) span_def)
  have dn: "dinode (fs_device s3) n = d"
  proof -
    have "contents (fs_device s3) n = enc_inode d" using assms(4) by (auto simp: s3(3) s2(3) span_def)
    moreover have "dec_inode (enc_inode d) = d"
      using assms(3,6-8) by (intro dec_enc_inode) (auto simp: assms(9) s32_range_def INODE_MAGIC_def)
    ultimately show ?thesis by (simp add: dinode_def)
  qed
  have fits: "inode_fits (fs_device s3) d" using assms(3,5-7) W(2) by (simp add: inode_fits_def assms(9))
  have sec: "data_sectors d = span (i, c)" by (simp add: data_sectors_def span_def assms(5,9))
  have "content s3 n = replicate (nat len) 0"
    using zero_bytes [OF W(1) fits] by (simp add: content_def dn sec span_def s3(3)) (simp add: assms(9))
  then show ?thesis using that [OF s2(1) s3(1) w ch dn fits _ sec] by simp
qed

lemma inode_create_ok:
  assumes "inv F G X s" "n \<in> bits_set (free_map s)" "\<forall>m\<in>live s. n \<notin> extent (fs_device s) m" "0 \<le> len" "len < 2 ^ 31"
  obtains (fail) s' where "inode_create s n len = Some (False, s')" "reads s s'" "\<not> has_room (free_map s) (bytes_to_sectors len)"
  | (ok) s' where "inode_create s n len = Some (True, s')" "inv F G X s'" "keeps_data s s'" "live s' = live s"
      "disk_ok (fs_device s') (bits_set (free_map s')) (insert n (live s'))" "content s' n = replicate (nat len) 0"
      "inodes s' = inodes s" "bits_set (free_map s) \<subseteq> bits_set (free_map s')"
      "card (bits_set (free_map s')) = card (bits_set (free_map s)) + bytes_to_sectors len" "bit_cnt (free_map s') = bit_cnt (free_map s)"
proof -
  let ?s0 = "s\<lparr>next_ptr := next_ptr s + 1\<rparr>"
  have m: "malloc s = (next_ptr s, ?s0)" "next_ptr s \<noteq> 0" using invD(1) [OF assms(1)] by (auto simp: malloc_def mem_ok_def)
  have r: "reads s ?s0" unfolding reads_def by (intro exI [of _ "read_cnt (fs_device s)"] exI [of _ "next_ptr s + 1"]) simp
  have i0: "inv F G X ?s0" by (rule inv_reads [OF r assms(1)])
  note I = invD [OF i0] and R = readsD [OF r]
  have L0: "live ?s0 = live s" using same_diskD(3) [OF reads_same_disk [OF r]] by (simp add: live_def removed_open_def marks_def)
  let ?c = "bytes_to_sectors len"
  show ?thesis
  proof (cases rule: free_map_allocate_ok [OF i0, of ?c])
    case 1
    then show ?thesis using fail [of ?s0] r m assms(4) by (simp add: inode_create_def Let_def)
  next
    case (2 i s1)
    note I1 = invD [OF 2(2)]
    have size: "b_size (fs_device s1) = b_size (fs_device s)" using 2(9) by (simp add: changed_only_def)
    have bnd: "b_size (fs_device s) < 2 ^ 31" using I(3,4) by (simp add: bitmap_wf_def)
    have len: "len < 2 ^ 31 - 511"
    proof (rule ccontr)
      assume "\<not> len < 2 ^ 31 - 511"
      then have "2 ^ 31 < ?c" using assms(5) by (intro bytes_to_sectors_huge) auto
      then show False using 2(5) bnd by simp
    qed
    let ?d = "\<lparr>id_start = i, id_length = len, id_magic = INODE_MAGIC, id_unused = replicate 500 0\<rparr>"
    have n: "n < b_size (fs_device s1)" "n \<notin> span (i, ?c)" using assms(2) 2(6) I(4) size by (auto simp: bits_set_def)
    obtain s2 s3 where s2: "fs_write s1 n (enc_inode ?d) = Some s2" and s3: "zero_sectors ?c s2 i = Some s3"
      and w: "writes s1 s3" and ch: "changed_only (insert n (span (i, ?c))) (fs_device s1) (fs_device s3)"
      and dn: "dinode (fs_device s3) n = ?d" and fits: "inode_fits (fs_device s3) ?d"
      and zero: "content s3 n = replicate (nat len) 0" and sec: "data_sectors ?d = span (i, ?c)"
      by (rule make_inode [OF I1(2) n(1) _ n(2) refl assms(4) len _ refl]) (use 2(5) size bnd in simp_all)
    note W = writesD [OF w]
    let ?W = "insert n (span (i, ?c))"
    have D1: "\<forall>m\<in>live s. dinode (fs_device s1) m = dinode (fs_device s) m"
      using disk_ok_frame(2) [OF I(5) 2(9) I(2) I1(2)] live_notin_data [OF I(5) system_live(1)] L0 by simp
    have ext: "extent (fs_device s1) m \<inter> ?W = {}" if m: "m \<in> live s1" for m
    proof -
      have "extent (fs_device s1) m = extent (fs_device s) m" using D1 m 2(4) L0 by (simp add: extent_def)
      moreover have "extent (fs_device s) m \<subseteq> bits_set (free_map s)" using disk_okD(4) [OF I(5)] m 2(4) by simp
      ultimately show ?thesis using 2(6) assms(3) m 2(4) L0 by auto
    qed
    then have out: "\<forall>m\<in>live s1. extent (fs_device s1) m \<inter> ?W = {}" by blast
    note O = inv_outside [OF 2(2) w ch out]
    note I3 = invD [OF O(1)]
    have xn: "extent (fs_device s3) n = ?W" by (simp add: extent_def dn sec)
    have "extent (fs_device s3) m \<inter> extent (fs_device s3) n = {}" if "m \<in> live s3" for m
      using ext [of m] O(3,4) that xn by (simp add: extent_def)
    moreover have "inode_ok (fs_device s3) (bits_set (free_map s3)) n"
      using fits n size W(2,8) 2(7) assms(2) xn by (auto simp: inode_ok_def dn sec)
    ultimately have dk: "disk_ok (fs_device s3) (bits_set (free_map s3)) (insert n (live s3))"
      using I3(5) unfolding disk_ok_def by (auto simp: Int_commute)
    have res: "inode_create s n len = Some (True, s3)"
      using m assms(4) 2(1) s2 s3 by (simp add: inode_create_def Let_def)
    have k: "keeps_data s s3" using keeps_data_trans [OF keeps_data_trans [OF keeps_data_reads [OF r] 2(3)] O(2)] .
    show ?thesis
    proof (rule ok [OF res O(1) k _ dk zero])
      have "finite (bits_set (free_map s))" by (simp add: bits_set_def)
      then show "card (bits_set (free_map s3)) = card (bits_set (free_map s)) + ?c"
        using 2(6,7) W(8) card_Un_disjoint [of "bits_set (free_map s)" "span (i, ?c)"] by (simp add: span_def)
    qed (use O(3) 2(4,7,8) L0 W(2,4,8) I(4) I3(4) size in auto)
  qed
qed

end
