(* ===== verification/FS_Names.thy ===== *)
theory FS_Names
  imports FS_Operations
begin

text \<open>
  The operations on names keep the invariant: \<open>dir_add\<close> and \<open>dir_remove\<close> on the root directory, opening
  and closing it, and the references that open files and directories own.
\<close>

section \<open>References\<close>

lemma card_owner_add:
  assumes "M x = None" "finite {x. \<exists>y. M x = Some y \<and> P y}"
  shows "card {z. \<exists>w. (M(x \<mapsto> y)) z = Some w \<and> P w} = card {z. \<exists>w. M z = Some w \<and> P w} + (if P y then 1 else 0)"
proof -
  have "{z. \<exists>w. (M(x \<mapsto> y)) z = Some w \<and> P w} =
      (if P y then insert x {z. \<exists>w. M z = Some w \<and> P w} else {z. \<exists>w. M z = Some w \<and> P w})"
    using assms(1) by auto
  then show ?thesis using assms by simp
qed

lemma card_owner_del:
  assumes "M x = Some y" "finite {x. \<exists>y. M x = Some y \<and> P y}"
  shows "card {z. \<exists>w. (M(x := None)) z = Some w \<and> P w} + (if P y then 1 else 0) = card {z. \<exists>w. M z = Some w \<and> P w}"
proof -
  have "(M(x := None))(x \<mapsto> y) = M" using assms(1) by auto
  moreover have "finite {z. \<exists>w. (M(x := None)) z = Some w \<and> P w}" by (rule finite_subset [OF _ assms(2)]) auto
  ultimately show ?thesis using card_owner_add [of "M(x := None)" x P y] by (simp only: fun_upd_same)
qed

lemma refs_upd:
  assumes "inv F G X s"
  shows "G d = None \<Longrightarrow> refs F (G(d \<mapsto> dr)) q = refs F G q + (if q = d_inode dr then 1 else 0)"
    "G d = Some dr \<Longrightarrow> refs F (G(d := None)) q + (if q = d_inode dr then 1 else 0) = refs F G q"
    "F f = None \<Longrightarrow> refs (F(f \<mapsto> fl)) G q = refs F G q + (if q = f_inode fl then 1 else 0)"
    "F f = Some fl \<Longrightarrow> refs (F(f := None)) G q + (if q = f_inode fl then 1 else 0) = refs F G q"
  using card_owner_add [where M = G and P = "\<lambda>r. d_inode r = q", OF _ owner_sets_finite(2) [OF assms]]
    card_owner_del [where M = G and P = "\<lambda>r. d_inode r = q", OF _ owner_sets_finite(2) [OF assms]]
    card_owner_add [where M = F and P = "\<lambda>r. f_inode r = q", OF _ owner_sets_finite(1) [OF assms]]
    card_owner_del [where M = F and P = "\<lambda>r. f_inode r = q", OF _ owner_sets_finite(1) [OF assms]]
  unfolding refs_def by (simp_all del: fun_upd_apply add: eq_commute)

lemma denies_upd:
  assumes "inv F G X s"
  shows "F f = None \<Longrightarrow> denies (F(f \<mapsto> fl)) q = denies F q + (if f_inode fl = q \<and> f_deny_write fl then 1 else 0)"
    "F f = Some fl \<Longrightarrow> denies (F(f := None)) q + (if f_inode fl = q \<and> f_deny_write fl then 1 else 0) = denies F q"
  using card_owner_add [where M = F and P = "\<lambda>r. f_inode r = q \<and> f_deny_write r", OF _ owner_sets_finite(1) [OF assms]]
    card_owner_del [where M = F and P = "\<lambda>r. f_inode r = q \<and> f_deny_write r", OF _ owner_sets_finite(1) [OF assms]]
  unfolding denies_def by (simp_all del: fun_upd_apply)

text \<open>What depends on the device and the tables of inodes only.\<close>

lemma owners_irrelevant [simp]:
  "names (s\<lparr>dirs := g\<rparr>) = names s" "live (s\<lparr>dirs := g\<rparr>) = live s" "content (s\<lparr>dirs := g\<rparr>) = content s"
  "inv_dir (s\<lparr>dirs := g\<rparr>) = inv_dir s" "mem_ok (s\<lparr>dirs := g\<rparr>) = mem_ok s" "inv_disk (s\<lparr>dirs := g\<rparr>) = inv_disk s"
  "inv_map F (s\<lparr>dirs := g\<rparr>) = inv_map F s" "sector_of (s\<lparr>dirs := g\<rparr>) = sector_of s" "inv_open F G X (s\<lparr>dirs := g\<rparr>) = inv_open F G X s"
  "names (s\<lparr>files := h\<rparr>) = names s" "live (s\<lparr>files := h\<rparr>) = live s" "content (s\<lparr>files := h\<rparr>) = content s"
  "inv_dir (s\<lparr>files := h\<rparr>) = inv_dir s" "mem_ok (s\<lparr>files := h\<rparr>) = mem_ok s" "inv_disk (s\<lparr>files := h\<rparr>) = inv_disk s"
  "inv_map F (s\<lparr>files := h\<rparr>) = inv_map F s" "sector_of (s\<lparr>files := h\<rparr>) = sector_of s" "inv_open F G X (s\<lparr>files := h\<rparr>) = inv_open F G X s"
proof -
  have so: "sector_of (s\<lparr>dirs := g\<rparr>) = sector_of s" "sector_of (s\<lparr>files := h\<rparr>) = sector_of s" for s :: fs and g h
    by (simp_all add: sector_of_def fun_eq_iff)
  have co: "content (s\<lparr>dirs := g\<rparr>) = content s" "content (s\<lparr>files := h\<rparr>) = content s" for s g h
    by (simp_all add: content_def fun_eq_iff)
  then have na: "names (s\<lparr>dirs := g\<rparr>) = names s" "names (s\<lparr>files := h\<rparr>) = names s" for s g h by (simp_all add: names_def)
  then have li: "live (s\<lparr>dirs := g\<rparr>) = live s" "live (s\<lparr>files := h\<rparr>) = live s" for s g h
    by (simp_all add: live_def removed_open_def marks_def)
  have op: "open_ok F G X (s\<lparr>dirs := g\<rparr>) = open_ok F G X s" "open_ok F G X (s\<lparr>files := h\<rparr>) = open_ok F G X s" for F G X s g h
    by (simp_all add: open_ok_def na fun_eq_iff)
  show "names (s\<lparr>dirs := g\<rparr>) = names s" "live (s\<lparr>dirs := g\<rparr>) = live s" "content (s\<lparr>dirs := g\<rparr>) = content s"
    "inv_dir (s\<lparr>dirs := g\<rparr>) = inv_dir s" "mem_ok (s\<lparr>dirs := g\<rparr>) = mem_ok s" "inv_disk (s\<lparr>dirs := g\<rparr>) = inv_disk s"
    "inv_map F (s\<lparr>dirs := g\<rparr>) = inv_map F s" "sector_of (s\<lparr>dirs := g\<rparr>) = sector_of s" "inv_open F G X (s\<lparr>dirs := g\<rparr>) = inv_open F G X s"
    "names (s\<lparr>files := h\<rparr>) = names s" "live (s\<lparr>files := h\<rparr>) = live s" "content (s\<lparr>files := h\<rparr>) = content s"
    "inv_dir (s\<lparr>files := h\<rparr>) = inv_dir s" "mem_ok (s\<lparr>files := h\<rparr>) = mem_ok s" "inv_disk (s\<lparr>files := h\<rparr>) = inv_disk s"
    "inv_map F (s\<lparr>files := h\<rparr>) = inv_map F s" "sector_of (s\<lparr>files := h\<rparr>) = sector_of s" "inv_open F G X (s\<lparr>files := h\<rparr>) = inv_open F G X s"
    by (simp_all add: so co na li op inv_dir_def mem_ok_def inv_disk_def inv_map_def inv_open_def)
qed

text \<open>The counts of \<open>inv_open\<close> only see the sums.\<close>

lemma inv_open_refs:
  assumes "inv_open F G X s" "\<forall>q. refs F' G' q + X' q = refs F G q + X q" "\<forall>q. denies F' q = denies F q"
    "\<forall>q. inodes s q = None \<longrightarrow> X' q = 0"
  shows "inv_open F' G' X' s"
proof -
  have "open_ok F' G' X' s q i" if "open_ok F G X s q i" for q i
    using that assms(2,3) unfolding open_ok_def by metis
  then show ?thesis using assms(1,4) by (simp add: inv_open_def)
qed


text \<open>A reference moves from a local variable to a directory or file, and back.\<close>

lemma inv_add_dir:
  assumes "inv F G X s" "0 < X p" "sector_of s p = Some ROOT_DIR_SECTOR" "d \<noteq> 0" "d \<notin> dom (dirs s)" "d < next_ptr s" "d_inode dr = p"
  shows "inv F (G(d \<mapsto> dr)) (X(p := X p - 1)) (s\<lparr>dirs := (dirs s)(d \<mapsto> dr)\<rparr>)"
proof -
  note I = invD [OF assms(1)]
  let ?s = "s\<lparr>dirs := (dirs s)(d \<mapsto> dr)\<rparr>"
  have Gd: "G d = None" using assms(5) map_le_implies_dom_le [OF I(12)] by auto
  have "inv_open F (G(d \<mapsto> dr)) (X(p := X p - 1)) s"
    using assms(2,7) I(8) refs_upd(1) [OF assms(1) Gd]
    by (intro inv_open_refs [OF I(8)]) (auto simp: inv_open_def)
  moreover have "inv_files F (G(d \<mapsto> dr)) ?s"
    using I(9,12) assms(3-7) by (auto simp: inv_files_def pointers_ok_def file_ok_def map_le_def)
  ultimately show ?thesis using I by (simp add: inv_def)
qed

lemma inv_del_dir:
  assumes "inv F G X s" "G d = Some dr"
  shows "inv F (G(d := None)) (X(d_inode dr := X (d_inode dr) + 1)) s"
proof -
  note I = invD [OF assms(1)]
  have "sector_of s (d_inode dr) = Some ROOT_DIR_SECTOR" using I(9) assms(2) by (simp add: inv_files_def)
  then have "inodes s (d_inode dr) \<noteq> None" by (auto simp: sector_of_def)
  moreover have "refs F (G(d := None)) q + (X(d_inode dr := X (d_inode dr) + 1)) q = refs F G q + X q" for q
    using refs_upd(2) [OF assms, of q] by auto
  ultimately have "inv_open F (G(d := None)) (X(d_inode dr := X (d_inode dr) + 1)) s"
    using I(8) by (intro inv_open_refs [OF I(8)]) (auto simp: inv_open_def)
  moreover have "inv_files F (G(d := None)) s" using I(9) by (auto simp: inv_files_def map_le_def)
  ultimately show ?thesis using I by (simp add: inv_def)
qed

lemma inv_free_dir:
  assumes "inv F G X s" "G d = None"
  shows "inv F G X (s\<lparr>dirs := (dirs s)(d := None)\<rparr>)"
proof -
  note I = invD [OF assms(1)]
  have "inv_files F G (s\<lparr>dirs := (dirs s)(d := None)\<rparr>)"
    using I(9) assms(2) by (auto simp: inv_files_def pointers_ok_def file_ok_def map_le_def)
  then show ?thesis using I by (simp add: inv_def)
qed

lemma inv_add_file:
  assumes "inv F G X s" "0 < X p" "sector_of s p = Some n" "n \<notin> system_sectors" "f \<noteq> 0" "f \<notin> dom (files s)" "f < next_ptr s"
    "fl = \<lparr>f_inode = p, f_pos = 0, f_deny_write = False\<rparr>"
  shows "inv (F(f \<mapsto> fl)) G (X(p := X p - 1)) (s\<lparr>files := (files s)(f \<mapsto> fl)\<rparr>)"
proof -
  note I = invD [OF assms(1)]
  let ?s = "s\<lparr>files := (files s)(f \<mapsto> fl)\<rparr>"
  have Fd: "F f = None" using assms(6) map_le_implies_dom_le [OF I(11)] by auto
  have "inv_open (F(f \<mapsto> fl)) G (X(p := X p - 1)) s"
    using assms(2,8) I(8) refs_upd(3) [OF assms(1) Fd] denies_upd(1) [OF assms(1) Fd]
    by (intro inv_open_refs [OF I(8)]) (auto simp: inv_open_def)
  moreover have nf: "f \<noteq> free_map_file s" using I(10) Fd by (auto simp: inv_map_def)
  have "file_ok ?s f fl" using nf assms(3,4,8) by (simp add: file_ok_def)
  moreover have "file_ok ?s g gl" if "F g = Some gl" for g gl using I(9) that by (simp add: inv_files_def file_ok_def)
  ultimately have "inv_open (F(f \<mapsto> fl)) G (X(p := X p - 1)) s" "inv_files (F(f \<mapsto> fl)) G ?s"
    using I(9) assms(5-7) by (auto simp: inv_files_def pointers_ok_def map_le_def)
  moreover have "inv_map (F(f \<mapsto> fl)) s" using I(10) by (auto simp: inv_map_def)
  ultimately show ?thesis using I by (simp add: inv_def)
qed

lemma inv_del_file:
  assumes "inv F G X s" "F f = Some fl" "\<not> f_deny_write fl" "f \<noteq> free_map_file s"
  shows "inv (F(f := None)) G (X(f_inode fl := X (f_inode fl) + 1)) s"
proof -
  note I = invD [OF assms(1)]
  have "file_ok s f fl" using I(9) assms(2) by (simp add: inv_files_def)
  then have "inodes s (f_inode fl) \<noteq> None" by (auto simp: sector_of_def file_ok_def)
  moreover have "refs (F(f := None)) G q + (X(f_inode fl := X (f_inode fl) + 1)) q = refs F G q + X q" for q
    using refs_upd(4) [OF assms(1,2), of q] by auto
  moreover have "denies (F(f := None)) q = denies F q" for q using denies_upd(2) [OF assms(1,2), of q] assms(3) by simp
  ultimately have "inv_open (F(f := None)) G (X(f_inode fl := X (f_inode fl) + 1)) s"
    using I(8) by (intro inv_open_refs [OF I(8)]) (auto simp: inv_open_def)
  moreover have "inv_files (F(f := None)) G s" using I(9) by (auto simp: inv_files_def map_le_def)
  moreover have "inv_map (F(f := None)) s" using I(10) assms(4) by (auto simp: inv_map_def)
  ultimately show ?thesis using I by (simp add: inv_def)
qed

lemma inv_free_file:
  assumes "inv F G X s" "F f = None"
  shows "inv F G X (s\<lparr>files := (files s)(f := None)\<rparr>)"
proof -
  note I = invD [OF assms(1)]
  have "file_ok (s\<lparr>files := (files s)(f := None)\<rparr>) g gl" if "F g = Some gl" for g gl
    using I(9) that by (simp add: inv_files_def file_ok_def)
  then have "inv_files F G (s\<lparr>files := (files s)(f := None)\<rparr>)"
    using I(9) assms(2) by (auto simp: inv_files_def pointers_ok_def map_le_def)
  then show ?thesis using I by (simp add: inv_def)
qed

text \<open>A file moves its position.\<close>

lemma inv_set_file:
  assumes "inv F G X s" "F f = Some fl" "0 \<le> pos"
  shows "inv (F(f \<mapsto> fl\<lparr>f_pos := pos\<rparr>)) G X (s\<lparr>files := (files s)(f \<mapsto> fl\<lparr>f_pos := pos\<rparr>)\<rparr>)"
proof -
  note I = invD [OF assms(1)]
  let ?fl = "fl\<lparr>f_pos := pos\<rparr>" and ?s = "s\<lparr>files := (files s)(f \<mapsto> fl\<lparr>f_pos := pos\<rparr>)\<rparr>"
  have eq: "(F(f := None))(f \<mapsto> ?fl) = F(f \<mapsto> ?fl)" and n: "(F(f := None)) f = None" by simp_all
  have fin: "finite {x. \<exists>y. (F(f := None)) x = Some y \<and> P y}" for P
    by (rule finite_subset [OF _ owner_sets_finite(1) [OF assms(1), of P]]) auto
  have r: "refs (F(f \<mapsto> ?fl)) G q = refs F G q" for q
    using card_owner_add [of "F(f := None)" f "\<lambda>r. f_inode r = q" ?fl, OF n fin]
      card_owner_del [of F f fl "\<lambda>r. f_inode r = q", OF assms(2) owner_sets_finite(1) [OF assms(1)]]
    unfolding refs_def eq by (simp del: fun_upd_apply)
  have d: "denies (F(f \<mapsto> ?fl)) q = denies F q" for q
    using card_owner_add [of "F(f := None)" f "\<lambda>r. f_inode r = q \<and> f_deny_write r" ?fl, OF n fin]
      card_owner_del [of F f fl "\<lambda>r. f_inode r = q \<and> f_deny_write r", OF assms(2) owner_sets_finite(1) [OF assms(1)]]
    unfolding denies_def eq by (simp del: fun_upd_apply)
  have "inv_open (F(f \<mapsto> ?fl)) G X s" using I(8) r d by (intro inv_open_refs [OF I(8)]) (auto simp: inv_open_def)
  moreover have "file_ok ?s g gl" if "(F(f \<mapsto> ?fl)) g = Some gl" for g gl
  proof -
    have "file_ok s f fl" "g \<noteq> f \<Longrightarrow> file_ok s g gl" using I(9) that assms(2) by (auto simp: inv_files_def)
    then show ?thesis using that assms(3) by (cases "g = f") (auto simp: file_ok_def)
  qed
  moreover have "files s f = Some fl" using I(11) assms(2) by (metis domI map_le_def)
  ultimately have "inv_open (F(f \<mapsto> ?fl)) G X s" "inv_files (F(f \<mapsto> ?fl)) G ?s"
    using I(9) by (auto simp: inv_files_def pointers_ok_def map_le_def)
  moreover have "inv_map (F(f \<mapsto> ?fl)) s" using I(10) by (auto simp: inv_map_def)
  ultimately show ?thesis using I by (simp add: inv_def)
qed


section \<open>Writing the directory\<close>

lemma inv_dir_write:
  assumes "inv F G X s" "writes s s1" "changed_only (data_sectors (dinode (fs_device s) ROOT_DIR_SECTOR)) (fs_device s) (fs_device s1)"
    "s' = with_tables (\<lambda>q. map_option (\<lambda>ino. ino\<lparr>i_removed := R q\<rparr>) (inodes s q)) (open_inodes s) s1"
    "dir_wf 16 (content s1 ROOT_DIR_SECTOR)" "disk_ok (fs_device s) (bits_set (free_map s)) (live s')"
    "system_sectors \<inter> ran (names s1) = {}" "inj_on (names s1) (dom (names s1))"
    "\<forall>q ino. inodes s q = Some ino \<longrightarrow> R q = (i_sector ino \<notin> system_sectors \<union> ran (names s1))"
  shows "inv F G X s'" "\<forall>m\<in>live s'. m \<noteq> ROOT_DIR_SECTOR \<longrightarrow> content s' m = content s m" "sector_of s' = sector_of s"
proof -
  note I = invD [OF assms(1)] and W = writesD [OF assms(2)]
  have out: "\<forall>m\<in>live s'. m \<notin> data_sectors (dinode (fs_device s) ROOT_DIR_SECTOR)"
    using live_notin_data [OF assms(6) system_live(2)] by blast
  note D = disk_ok_frame [OF assms(6,3) I(2) W(1) out]
  show C: "\<forall>m\<in>live s'. m \<noteq> ROOT_DIR_SECTOR \<longrightarrow> content s' m = content s m"
    using D(3) data_disjoint [OF assms(6) _ system_live(2)] by (auto simp: content_def assms(4))
  have root: "dinode (fs_device s1) ROOT_DIR_SECTOR = dinode (fs_device s) ROOT_DIR_SECTOR" using D(2) by simp
  show so: "sector_of s' = sector_of s" by (simp add: fun_eq_iff sector_of_def assms(4) option.map_comp comp_def)
  have ok: "open_ok F G X s' q i" if i: "inodes s' q = Some i" for q i
  proof -
    obtain ino where ino: "inodes s q = Some ino" "i = ino\<lparr>i_removed := R q\<rparr>" using i by (auto simp: assms(4))
    note o = inv_openD [OF I(8) ino(1)]
    have live: "i_sector ino \<in> live s'"
    proof (cases "R q")
      case True
      then have "marks s' q = Some (True, i_sector ino)" using ino(1) by (simp add: marks_def assms(4))
      then show ?thesis unfolding live_def removed_open_def by blast
    next
      case False
      then show ?thesis using assms(9) ino(1) by (auto simp: live_def assms(4))
    qed
    have "dinode (fs_device s1) (i_sector ino) = dinode (fs_device s) (i_sector ino)" using D(2) live by simp
    then show ?thesis using o(1) assms(9) ino W(11) by (auto simp: open_ok_def assms(4))
  qed
  moreover have "dom (inodes s') = dom (inodes s)" by (auto simp: assms(4))
  ultimately have "inv_open F G X s'" using I(8) so by (auto simp: inv_open_def) (auto simp: assms(4))
  moreover have "inv_disk s'" using I(3,4) D(1) W(1,2,8) by (simp add: inv_disk_def assms(4))
  moreover have "inv_map F s'"
  proof -
    have "content s' FREE_MAP_SECTOR = content s FREE_MAP_SECTOR" using C by simp
    then show ?thesis using I(10) W(8,9) by (simp add: inv_map_def assms(4))
  qed
  moreover have "inv_dir s1" using I(6) assms(5,7,8) root by (simp add: inv_dir_def)
  moreover have "inv_files F G s'"
  proof -
    have fm: "free_map_file s' = free_map_file s" by (simp add: assms(4) W)
    have "file_ok s' f fl" if f: "F f = Some fl" for f fl
    proof -
      have "file_ok s f fl" using I(9) f by (simp add: inv_files_def)
      then show ?thesis by (simp add: file_ok_def so fm)
    qed
    then show ?thesis using I(9) so W by (auto simp: inv_files_def assms(4) elim: pointers_ok_mono)
  qed
  ultimately show "inv F G X s'" using mem_ok_writes [OF assms(2) I(1)] by (simp add: inv_def) (simp add: assms(4))
qed

text \<open>The open root directory, and looking a name up in it.\<close>

definition root_open :: "fs \<Rightarrow> nat \<Rightarrow> nat \<Rightarrow> bool" where
  "root_open s d p \<longleftrightarrow> d \<noteq> 0 \<and> (\<exists>dr. dirs s d = Some dr \<and> d_inode dr = p) \<and> sector_of s p = Some ROOT_DIR_SECTOR"

lemma root_open_opened:
  assumes "inv F G X s" "root_open s d p"
  shows "opened s p (dinode (fs_device s) ROOT_DIR_SECTOR)" "slot_cnt (dinode (fs_device s) ROOT_DIR_SECTOR) = 16"
    "dir_wf 16 (content s ROOT_DIR_SECTOR)"
proof -
  obtain ino where "inodes s p = Some ino" "i_sector ino = ROOT_DIR_SECTOR" using assms(2) by (auto simp: root_open_def sector_of_def)
  then show "opened s p (dinode (fs_device s) ROOT_DIR_SECTOR)" using inv_opened [OF assms(1)] by metis
  show "slot_cnt (dinode (fs_device s) ROOT_DIR_SECTOR) = 16" "dir_wf 16 (content s ROOT_DIR_SECTOR)"
    using invD(6) [OF assms(1)] by (auto simp: inv_dir_def slot_cnt_def DIR_ENTRY_SIZE_def)
qed

lemma lookup_ok:
  assumes "inv F G X s" "root_open s d p" "0 \<notin> set name"
  obtains s' where "lookup s d name = Some (map_option (\<lambda>j. (slot_in (content s ROOT_DIR_SECTOR) j, 20 * j))
      (find (holds (content s ROOT_DIR_SECTOR) name) [0..<16]), s')" "reads s s'"
proof -
  note R = root_open_opened [OF assms(1,2)]
  have "dir_wf (slot_cnt (dinode (fs_device s) ROOT_DIR_SECTOR))
      (inode_bytes (fs_device s) (dinode (fs_device s) ROOT_DIR_SECTOR))"
    using R(2,3) by (simp add: content_def)
  from lookup_loop_ok [OF R(1) invD(1) [OF assms(1)] le0 assms(3) this] obtain s' where
    "lookup_loop p name 0 s = Some (map_option (\<lambda>j. (slot_in (content s ROOT_DIR_SECTOR) j, 20 * j))
      (find (holds (content s ROOT_DIR_SECTOR) name) [0..<16]), s')" "reads s s'"
    by (auto simp: R(2) content_def)
  then show ?thesis using that assms(2) by (auto simp: lookup_def root_open_def)
qed

lemma root_open_reads: "reads s s' \<Longrightarrow> root_open s d p \<Longrightarrow> root_open s' d p"
  using readsD [of s s'] by (simp add: root_open_def sector_of_def)


lemma not_denied:
  assumes "inv F G X s" "sector_of s p = Some n" "n \<in> system_sectors"
  obtains ino where "inodes s p = Some ino" "i_sector ino = n" "i_data ino = dinode (fs_device s) n" "i_deny_write_cnt ino = 0"
proof -
  note I = invD [OF assms(1)]
  obtain ino where ino: "inodes s p = Some ino" "i_sector ino = n" using assms(2) by (auto simp: sector_of_def)
  have "\<not> f_deny_write fl" if f: "F f = Some fl" "f_inode fl = p" for f fl
  proof -
    have "file_ok s f fl" using I(9) f(1) by (simp add: inv_files_def)
    then show ?thesis using assms(2,3) f(2) by (auto simp: file_ok_def system_sectors_def split: if_splits)
  qed
  then have "{f. \<exists>fl. F f = Some fl \<and> f_inode fl = p \<and> f_deny_write fl} = {}" by blast
  then have "denies F p = 0" unfolding denies_def by (simp only: card.empty)
  then show ?thesis using that [OF ino] inv_openD(1,3) [OF I(8) ino(1)] ino(2) by (simp add: open_ok_def)
qed

text \<open>Writing one slot of the root directory, or past its end.\<close>

lemma write_slot:
  assumes "inv F G X s" "sector_of s p = Some ROOT_DIR_SECTOR" "j < 16" "length eb = 20"
  obtains s' where "inode_write_at s p eb (int DIR_ENTRY_SIZE) (int (20 * j)) = Some (int DIR_ENTRY_SIZE, s')" "writes s s'"
    "changed_only (data_sectors (dinode (fs_device s) ROOT_DIR_SECTOR)) (fs_device s) (fs_device s')"
    "content s' ROOT_DIR_SECTOR = overlay (content s ROOT_DIR_SECTOR) (20 * j) eb"
proof -
  note I = invD [OF assms(1)]
  let ?d = "dinode (fs_device s) ROOT_DIR_SECTOR"
  obtain ino where ino: "inodes s p = Some ino" "i_data ino = ?d" "i_deny_write_cnt ino = 0"
    using not_denied [OF assms(1,2)] by (auto simp: system_sectors_def)
  have fits: "inode_fits (fs_device s) ?d" by (rule disk_okD(2) [OF I(5) system_live(2)])
  have len: "id_length ?d = 320" using I(6) by (simp add: inv_dir_def)
  have l: "left ?d 20 (20 * j) = 20" using assms(3) by (simp add: left_def len)
  obtain s' where s': "inode_write_at s p eb (int 20) (int (20 * j)) = Some (int 20, s')" "writes s s'"
      "disk (fs_device s') = overlay (disk (fs_device s)) (512 * id_start ?d + 20 * j) eb"
    using inode_write_at_ok [OF ino(1,3) I(2), of 20 eb "20 * j"] fits ino(2) assms(4) l I(1) by auto
  have room: "20 * j + length eb \<le> nat (id_length ?d)" using assms(3,4) len by simp
  have ch: "changed_only (data_sectors ?d) (fs_device s) (fs_device s')"
    by (rule inode_bytes_changed [OF I(2) writesD(1,2) [OF s'(2)] fits s'(3) room])
  have "dinode (fs_device s') ROOT_DIR_SECTOR = ?d"
    using data_write(2) [OF assms(1) s'(2) system_live(2) ch] by simp
  then have "content s' ROOT_DIR_SECTOR = overlay (content s ROOT_DIR_SECTOR) (20 * j) eb"
    using inode_bytes_overlay [OF I(2) fits s'(3) room] by (simp add: content_def)
  then show ?thesis using that s'(1,2) ch by (simp add: DIR_ENTRY_SIZE_def)
qed

lemma write_past_end:
  assumes "inv F G X s" "sector_of s p = Some ROOT_DIR_SECTOR"
  shows "inode_write_at s p eb (int DIR_ENTRY_SIZE) (int (20 * 16)) = Some (0, s)"
proof -
  let ?d = "dinode (fs_device s) ROOT_DIR_SECTOR"
  obtain ino where ino: "inodes s p = Some ino" "i_data ino = ?d" "i_deny_write_cnt ino = 0"
    using not_denied [OF assms] by (auto simp: system_sectors_def)
  have len: "id_length ?d = 320" using invD(6) [OF assms(1)] by (simp add: inv_dir_def)
  have "chunk_size ?d (int 20) (int (20 * 16)) \<le> 0" using loop_end [of ?d 20 "20 * 16"] len by (simp add: left_def)
  then show ?thesis using ino by (simp add: inode_write_at_def DIR_ENTRY_SIZE_def) (subst write_loop.simps, simp add: Let_def)
qed

lemma new_entry:
  assumes "length e = 20" "length name \<le> NAME_MAX" "n < 2 ^ 32" "0 \<notin> set name"
    "en = (dec_entry e)\<lparr>de_in_use := True, de_name := overlay (de_name (dec_entry e)) 0 (name @ [0]), de_inode_sector := n\<rparr>"
  shows "length (enc_entry en) = 20" "dec_entry (enc_entry en) = en" "de_in_use en" "0 \<in> set (de_name en)" "entry_name en = name"
    "de_inode_sector en = n"
proof -
  have l: "length (de_name (dec_entry e)) = 15" using assms(1) by (simp add: dec_entry_def)
  have nm: "de_name en = name @ [0] @ drop (Suc (length name)) (de_name (dec_entry e))"
    using assms(5) by (simp add: overlay_def)
  have "length (de_name en) = 15" using nm l assms(2) by (simp add: NAME_MAX_def)
  then show "length (enc_entry en) = 20" "dec_entry (enc_entry en) = en"
    using dec_enc_entry [of en] assms(3,5) by simp_all
  show "de_in_use en" "de_inode_sector en = n" using assms(5) by simp_all
  show "0 \<in> set (de_name en)" by (simp add: nm)
  show "entry_name en = name" unfolding entry_name_def nm using assms(4) by (simp add: takeWhile_append)
qed

lemma with_tables_same: "with_tables (inodes s) (open_inodes s) s = s"
  by (simp add: with_tables_def)

lemma sector_of_reads: "reads s s' \<Longrightarrow> sector_of s' = sector_of s"
  using readsD(5) [of s s'] by (simp add: sector_of_def fun_eq_iff)

lemma live_reads: "reads s s' \<Longrightarrow> live s' = live s"
  using same_diskD(3) [OF reads_same_disk, of s s'] readsD(5) [of s s'] by (simp add: live_def removed_open_def marks_def)

text \<open>A new name for an inode that is on the disk but not live yet.\<close>

lemma inv_new_name:
  assumes "inv F G X s" "sector_of s p = Some ROOT_DIR_SECTOR" "j < 16" "\<not> de_in_use (slot_in (content s ROOT_DIR_SECTOR) j)"
    "names s name = None" "n \<notin> live s" "disk_ok (fs_device s) (bits_set (free_map s)) (insert n (live s))"
    "length e = 20" "length name \<le> NAME_MAX" "0 \<notin> set name"
    "en = (dec_entry e)\<lparr>de_in_use := True, de_name := overlay (de_name (dec_entry e)) 0 (name @ [0]), de_inode_sector := n\<rparr>"
  obtains s' where "inode_write_at s p (enc_entry en) (int DIR_ENTRY_SIZE) (int (20 * j)) = Some (int DIR_ENTRY_SIZE, s')"
    "inv F G X s'" "writes s s'" "names s' = (names s)(name \<mapsto> n)" "live s' = insert n (live s)" "sector_of s' = sector_of s"
    "\<forall>m\<in>live s'. m \<noteq> ROOT_DIR_SECTOR \<longrightarrow> content s' m = content s m"
proof -
  note I = invD [OF assms(1)]
  have "n < 2 ^ 32" using disk_okD(1) [OF assms(7), of n] I(2) by (simp add: sectors_ok_def)
  note en = new_entry [OF assms(8,9) this assms(10,11)]
  obtain s' where s': "inode_write_at s p (enc_entry en) (int DIR_ENTRY_SIZE) (int (20 * j)) = Some (int DIR_ENTRY_SIZE, s')"
      "writes s s'" "changed_only (data_sectors (dinode (fs_device s) ROOT_DIR_SECTOR)) (fs_device s) (fs_device s')"
      "content s' ROOT_DIR_SECTOR = overlay (content s ROOT_DIR_SECTOR) (20 * j) (enc_entry en)"
    by (rule write_slot [OF assms(1-3) en(1)])
  have wf: "dir_wf 16 (content s ROOT_DIR_SECTOR)" using I(6) by (simp add: inv_dir_def)
  have nh: "\<forall>i<16. \<not> holds (content s ROOT_DIR_SECTOR) name i" using assms(5) by (simp add: names_def dir_map_None)
  have new: "dir_wf 16 (content s' ROOT_DIR_SECTOR)" "names s' = (names s)(name \<mapsto> n)"
    using dir_map_add [OF wf assms(3,4) nh en(1)] en s'(4) by (simp_all add: names_def)
  note W = writesD [OF s'(2)]
  have ran: "ran (names s') = insert n (ran (names s))" using new(2) assms(5) by (simp add: ran_map_upd)
  then have L: "live s' = insert n (live s)" by (auto simp: live_def removed_open_def marks_def W)
  let ?R = "\<lambda>q. case inodes s q of None \<Rightarrow> False | Some ino \<Rightarrow> i_removed ino"
  have same: "s' = with_tables (\<lambda>q. map_option (\<lambda>ino. ino\<lparr>i_removed := ?R q\<rparr>) (inodes s q)) (open_inodes s) s'"
  proof -
    have "(\<lambda>q. map_option (\<lambda>ino. ino\<lparr>i_removed := ?R q\<rparr>) (inodes s q)) = inodes s"
      by (auto simp: fun_eq_iff split: option.splits)
    then show ?thesis using with_tables_same [of s'] W(4,5) by simp
  qed
  have nsys: "n \<notin> system_sectors" using assms(6) by (auto simp: live_def)
  have sys: "system_sectors \<inter> ran (names s') = {}" using I(6) nsys by (auto simp: ran inv_dir_def)
  have inj: "inj_on (names s') (dom (names s'))"
  proof -
    have "names s k \<noteq> Some n" for k using assms(6) by (auto simp: live_def ran_def)
    then show ?thesis using I(6) unfolding new(2) inv_dir_def inj_on_def by (auto simp: dom_def)
  qed
  have rem: "\<forall>q ino. inodes s q = Some ino \<longrightarrow> ?R q = (i_sector ino \<notin> system_sectors \<union> ran (names s'))"
  proof (intro allI impI)
    fix q ino assume q: "inodes s q = Some ino"
    note o = inv_openD [OF I(8) q]
    have "i_sector ino \<noteq> n" using o(2) assms(6) by auto
    then show "?R q = (i_sector ino \<notin> system_sectors \<union> ran (names s'))"
      using o(1) q by (auto simp: open_ok_def ran split: if_splits)
  qed
  have dk: "disk_ok (fs_device s) (bits_set (free_map s)) (live s')" using assms(7) by (simp add: L)
  note D = inv_dir_write [OF assms(1) s'(2,3) same new(1) dk sys inj rem]
  show ?thesis by (rule that [OF s'(1) D(1) s'(2) new(2) L D(3) D(2)])
qed

definition dir_full :: "fs \<Rightarrow> bool" where
  "dir_full s \<longleftrightarrow> (\<forall>j<16. de_in_use (slot_in (content s ROOT_DIR_SECTOR) j))"

lemma dir_add_ok:
  assumes "inv F G X s" "root_open s d p" "0 \<notin> set name" "length junk = 20" "n \<notin> live s"
    "disk_ok (fs_device s) (bits_set (free_map s)) (insert n (live s))"
  obtains (fail) s' where "dir_add s d name n junk = Some (False, s')" "reads s s'"
      "names s name \<noteq> None \<or> name = [] \<or> NAME_MAX < length name \<or> dir_full s"
  | (ok) s' where "dir_add s d name n junk = Some (True, s')" "inv F G X s'"
      "names s name = None" "name \<noteq> []" "length name \<le> NAME_MAX" "names s' = (names s)(name \<mapsto> n)"
      "live s' = insert n (live s)" "sector_of s' = sector_of s" "files s' = files s" "dirs s' = dirs s"
      "free_map_file s' = free_map_file s" "\<forall>m\<in>live s'. m \<noteq> ROOT_DIR_SECTOR \<longrightarrow> content s' m = content s m"
      "free_map s' = free_map s"
proof (cases "name = [] \<or> length name > NAME_MAX")
  case True
  then show ?thesis using fail [of s] assms(2) by (auto simp: dir_add_def root_open_def)
next
  case False
  obtain s1 where s1: "lookup s d name = Some (map_option (\<lambda>j. (slot_in (content s ROOT_DIR_SECTOR) j, 20 * j))
      (find (holds (content s ROOT_DIR_SECTOR) name) [0..<16]), s1)" "reads s s1"
    by (rule lookup_ok [OF assms(1-3)])
  have d: "d \<noteq> 0" using assms(2) by (simp add: root_open_def)
  show ?thesis
  proof (cases "find (holds (content s ROOT_DIR_SECTOR) name) [0..<16]")
    case (Some j)
    then show ?thesis using fail [of s1] False s1 d by (simp add: dir_add_def names_def dir_map_def)
  next
    case None
    then have nn: "names s name = None" by (simp add: names_def dir_map_def)
    note i1 = inv_reads [OF s1(2) assms(1)] and r1 = root_open_reads [OF s1(2) assms(2)]
    note R = root_open_opened [OF i1 r1]
    obtain dr where dr: "dirs s1 d = Some dr" "d_inode dr = p" using r1 by (auto simp: root_open_def)
    obtain j e s2 where sl: "slot_loop p junk (20 * 0) s1 = Some (20 * j, e, s2)" "reads s1 s2" "length e = 20"
        "j \<le> 16" "j < 16 \<longrightarrow> \<not> de_in_use (slot_in (content s1 ROOT_DIR_SECTOR) j)"
        "\<forall>k<j. de_in_use (slot_in (content s1 ROOT_DIR_SECTOR) k)"
      using slot_loop_ok [OF R(1) invD(1) [OF i1] le0 assms(4)] by (auto simp: R(2) content_def)
    have r2: "reads s s2" using s1(2) sl(2) by (rule reads_trans)
    note i2 = inv_reads [OF r2 assms(1)] and D = same_diskD [OF reads_same_disk [OF r2]] and RR = readsD [OF r2]
    have so: "sector_of s2 p = Some ROOT_DIR_SECTOR" using assms(2) by (simp add: root_open_def sector_of_reads [OF r2])
    define en where "en = (dec_entry e)\<lparr>de_in_use := True, de_name := overlay (de_name (dec_entry e)) 0 (name @ [0]), de_inode_sector := n\<rparr>"
    have add: "dir_add s d name n junk = Option.bind (inode_write_at s2 p (enc_entry en) (int DIR_ENTRY_SIZE) (int (20 * j)))
        (\<lambda>(written, s). Some (written = int DIR_ENTRY_SIZE, s))"
      using False s1(1) None d dr sl(1) by (simp add: dir_add_def Let_def en_def)
    show ?thesis
    proof (cases "j < 16")
      case False
      then have "j = 16" using sl(4) by simp
      moreover have "dir_full s" using sl(6) \<open>j = 16\<close> same_diskD(2) [OF reads_same_disk [OF s1(2)]] by (simp add: dir_full_def)
      ultimately show ?thesis using fail [OF _ r2] add write_past_end [OF i2 so] by (simp add: DIR_ENTRY_SIZE_def)
    next
      case True
      have u: "\<not> de_in_use (slot_in (content s2 ROOT_DIR_SECTOR) j)"
        using sl(5) True D(2) same_diskD(2) [OF reads_same_disk [OF s1(2)]] by simp
      have dk: "disk_ok (fs_device s2) (bits_set (free_map s2)) (insert n (live s2))"
        using assms(6) by (simp add: D RR live_reads [OF r2])
      have nl: "n \<notin> live s2" "names s2 name = None" "length name \<le> NAME_MAX" using assms(5) nn False by (simp_all add: live_reads [OF r2] D)
      obtain s' where s': "inode_write_at s2 p (enc_entry en) (int DIR_ENTRY_SIZE) (int (20 * j)) = Some (int DIR_ENTRY_SIZE, s')"
          "inv F G X s'" "writes s2 s'" "names s' = (names s2)(name \<mapsto> n)" "live s' = insert n (live s2)" "sector_of s' = sector_of s2"
          "\<forall>m\<in>live s'. m \<noteq> ROOT_DIR_SECTOR \<longrightarrow> content s' m = content s2 m"
        by (rule inv_new_name [OF i2 so True u nl(2,1) dk sl(3) nl(3) assms(3) en_def])
      note W = writesD [OF s'(3)]
      show ?thesis
        by (rule ok [of s']) (use add s' nn False RR W sector_of_reads [OF r2] live_reads [OF r2] D in auto)
    qed
  qed
qed

end
