(* ===== verification/FS_Files.thy ===== *)
theory FS_Files
  imports FS_Names
begin

text \<open>
  The operations of \<^verbatim>\<open>filesys/filesys.c\<close> and \<^verbatim>\<open>filesys/file.c\<close> under the invariant: each of them returns,
  keeps the invariant, and changes names and contents exactly as its caller expects.
\<close>

section \<open>Removing a name\<close>

lemma slot_entry:
  assumes "length bs = 20"
  shows "de_inode_sector (dec_entry bs) < 2 ^ 32" "length (de_name (dec_entry bs)) = 15"
proof -
  have "of_le (chunk bs 0 4) < 256 ^ length (chunk bs 0 4)" by (rule of_le_bound)
  then show "de_inode_sector (dec_entry bs) < 2 ^ 32" using assms by (simp add: dec_entry_def)
  show "length (de_name (dec_entry bs)) = 15" using assms by (simp add: dec_entry_def)
qed

lemma freed_entry:
  assumes "dir_wf 16 bs" "j < 16" "eb = enc_entry ((slot_in bs j)\<lparr>de_in_use := False\<rparr>)"
  shows "length eb = 20" "\<not> de_in_use (dec_entry eb)"
proof -
  have "20 * j + 20 \<le> length bs" using assms(1,2) by (simp add: dir_wf_def DIR_ENTRY_SIZE_def)
  then have "length (chunk bs (20 * j) 20) = 20" by simp
  note e = slot_entry [OF this]
  have "dec_entry eb = (slot_in bs j)\<lparr>de_in_use := False\<rparr>" "length eb = 20"
    using dec_enc_entry [of "(slot_in bs j)\<lparr>de_in_use := False\<rparr>"] e assms(3)
    by (simp_all add: slot_in_def DIR_ENTRY_SIZE_def)
  then show "length eb = 20" "\<not> de_in_use (dec_entry eb)" by simp_all
qed

text \<open>The entry of an open inode is freed and the inode marked as removed.\<close>

lemma inv_unlink:
  assumes "inv F G X s" "sector_of s p = Some ROOT_DIR_SECTOR" "j < 16" "holds (content s ROOT_DIR_SECTOR) name j"
    "sector_of s q = Some n" "n = de_inode_sector (slot_in (content s ROOT_DIR_SECTOR) j)"
  obtains s1 s2 where "inode_write_at s p (enc_entry ((slot_in (content s ROOT_DIR_SECTOR) j)\<lparr>de_in_use := False\<rparr>))
      (int DIR_ENTRY_SIZE) (int (20 * j)) = Some (int DIR_ENTRY_SIZE, s1)" "inode_remove s1 q = Some s2"
    "inv F G X s2" "names s2 = (names s)(name := None)" "live s2 = live s" "sector_of s2 = sector_of s"
    "\<forall>m\<in>live s2. m \<noteq> ROOT_DIR_SECTOR \<longrightarrow> content s2 m = content s m" "files s2 = files s" "dirs s2 = dirs s"
    "free_map_file s2 = free_map_file s" "next_ptr s \<le> next_ptr s2"
proof -
  note I = invD [OF assms(1)]
  let ?eb = "enc_entry ((slot_in (content s ROOT_DIR_SECTOR) j)\<lparr>de_in_use := False\<rparr>)"
  have wf: "dir_wf 16 (content s ROOT_DIR_SECTOR)" using I(6) by (simp add: inv_dir_def)
  note eb = freed_entry [OF wf assms(3) refl]
  obtain s1 where s1: "inode_write_at s p ?eb (int DIR_ENTRY_SIZE) (int (20 * j)) = Some (int DIR_ENTRY_SIZE, s1)"
      "writes s s1" "changed_only (data_sectors (dinode (fs_device s) ROOT_DIR_SECTOR)) (fs_device s) (fs_device s1)"
      "content s1 ROOT_DIR_SECTOR = overlay (content s ROOT_DIR_SECTOR) (20 * j) ?eb"
    by (rule write_slot [OF assms(1-3) eb(1)])
  note W = writesD [OF s1(2)]
  have new: "dir_wf 16 (content s1 ROOT_DIR_SECTOR)" "names s1 = (names s)(name := None)"
    using dir_map_remove [OF wf assms(3,4) eb] s1(4) by (simp_all add: names_def)
  have nm: "names s name = Some n" using dir_map_Some [OF wf assms(3,4)] assms(6) by (simp add: names_def)
  obtain ino where ino: "inodes s q = Some ino" "i_sector ino = n" using assms(5) by (auto simp: sector_of_def)
  note o = inv_openD [OF I(8) ino(1)]
  let ?R = "\<lambda>r. r = q \<or> (case inodes s r of None \<Rightarrow> False | Some i \<Rightarrow> i_removed i)"
  let ?s2 = "with_tables (\<lambda>r. map_option (\<lambda>i. i\<lparr>i_removed := ?R r\<rparr>) (inodes s r)) (open_inodes s) s1"
  have inj: "inj_on (names s) (dom (names s))" and sys: "system_sectors \<inter> ran (names s) = {}"
    using I(6) by (auto simp: inv_dir_def)
  have ran: "ran (names s1) = ran (names s) - {n}"
  proof (rule set_eqI)
    fix k
    have u: "m = name" if "names s m = Some n" for m using that inj nm unfolding inj_on_def by (metis domI)
    have "k \<in> ran (names s1) \<longleftrightarrow> (\<exists>m. m \<noteq> name \<and> names s m = Some k)" by (auto simp: ran_def new(2))
    also have "\<dots> \<longleftrightarrow> (\<exists>m. names s m = Some k) \<and> k \<noteq> n" using u nm by (metis option.inject)
    finally show "k \<in> ran (names s1) \<longleftrightarrow> k \<in> ran (names s) - {n}" by (simp add: ran_def)
  qed
  have tab: "inodes ?s2 = (inodes s)(q \<mapsto> ino\<lparr>i_removed := True\<rparr>)"
    using ino(1) by (auto simp: fun_eq_iff split: option.splits)
  have rm: "inode_remove s1 q = Some ?s2"
  proof -
    have "s1\<lparr>inodes := (inodes s1)(q \<mapsto> ino\<lparr>i_removed := True\<rparr>)\<rparr> = ?s2"
      using tab W(4,5) by (simp add: with_tables_def)
    then show ?thesis using ino(1) o(4) W(4) by (simp add: inode_remove_def)
  qed
  have ma: "marks ?s2 r = (if r = q then Some (True, n) else marks s r)" for r
    using ino by (auto simp: marks_def split: option.splits)
  have L: "live ?s2 = live s"
  proof -
    have nq: "marks s q \<noteq> Some (True, k)" for k
    proof -
      have "\<not> i_removed ino" using o(1) ino(2) nm by (auto simp: open_ok_def ran_def)
      then show ?thesis using ino(1) by (simp add: marks_def)
    qed
    have "(\<exists>r. marks ?s2 r = Some (True, k)) \<longleftrightarrow> k = n \<or> (\<exists>r. marks s r = Some (True, k))" for k
      unfolding ma using nq by (metis option.inject prod.inject)
    then have "removed_open ?s2 = insert n (removed_open s)" unfolding removed_open_def by auto
    then show ?thesis using ran nm by (auto simp: live_def ran_def)
  qed
  have R: "\<forall>r i. inodes s r = Some i \<longrightarrow> ?R r = (i_sector i \<notin> system_sectors \<union> ran (names s1))"
  proof (intro allI impI)
    fix r i assume r: "inodes s r = Some i"
    note oo = inv_openD [OF I(8) r]
    show "?R r = (i_sector i \<notin> system_sectors \<union> ran (names s1))"
    proof (cases "r = q")
      case True
      then have "i_sector i = n" using r ino by simp
      then show ?thesis using True ran sys nm by (auto simp: ran_def)
    next
      case False
      have "sector_of s r = Some (i_sector i)" using r by (simp add: sector_of_def)
      then have "i_sector i \<noteq> n"
        using False I(8) assms(5) r ino(1) unfolding inv_open_def inj_on_def by (metis domI)
      then show ?thesis using False r oo(1) ran by (auto simp: open_ok_def split: if_splits)
    qed
  qed
  have dk: "disk_ok (fs_device s) (bits_set (free_map s)) (live ?s2)" using I(5) L by simp
  have sys1: "system_sectors \<inter> ran (names s1) = {}" and inj1: "inj_on (names s1) (dom (names s1))"
    using sys inj ran new(2) by (auto simp: inj_on_def dom_def)
  note D = inv_dir_write [OF assms(1) s1(2,3) refl new(1) dk sys1 inj1 R]
  show ?thesis
    by (rule that [OF s1(1) rm D(1) _ L D(3,2)]) (use new(2) W in auto)
qed


section \<open>Opening and closing the root directory\<close>

text \<open>What the callers of the file system see: names and contents, not the table of open directories.\<close>

definition sees :: "fs \<Rightarrow> fs \<Rightarrow> bool" where
  "sees s s' \<longleftrightarrow> names s' = names s \<and> (\<forall>m\<in>live s'. m \<noteq> FREE_MAP_SECTOR \<longrightarrow> content s' m = content s m) \<and> live s' \<subseteq> live s \<and>
     files s' = files s \<and> free_map_file s' = free_map_file s \<and> next_ptr s \<le> next_ptr s'"

lemma sees_refl [simp]: "sees s s"
  by (simp add: sees_def)

lemma sees_trans: "sees s s' \<Longrightarrow> sees s' s'' \<Longrightarrow> sees s s''"
  unfolding sees_def by (metis (no_types, lifting) order_trans subsetD)

lemma keeps_data_sees: "keeps_data s s' \<Longrightarrow> sees s s'"
  by (simp add: keeps_data_def sees_def)

lemma sees_reads: "reads s s' \<Longrightarrow> sees s s'"
  by (intro keeps_data_sees keeps_data_reads)

text \<open>The open files keep their inodes.\<close>

definition files_kept :: "(nat \<Rightarrow> ofile option) \<Rightarrow> fs \<Rightarrow> fs \<Rightarrow> bool" where
  "files_kept F s s' \<longleftrightarrow> (\<forall>f fl. F f = Some fl \<longrightarrow> sector_of s' (f_inode fl) = sector_of s (f_inode fl))"

lemma files_kept_refl: "sector_of s' = sector_of s \<Longrightarrow> files_kept F s s'"
  by (simp add: files_kept_def)

lemma files_kept_trans: "files_kept F s s' \<Longrightarrow> files_kept F s' s'' \<Longrightarrow> files_kept F s s''"
  by (simp add: files_kept_def)

lemma file_open_inode: "inv F G X s \<Longrightarrow> F f = Some fl \<Longrightarrow> \<exists>m. sector_of s (f_inode fl) = Some m"
  using invD(9) [of F G X s] by (fastforce simp: inv_files_def file_ok_def)

lemma files_kept_mono:
  "inv F G X s \<Longrightarrow> \<forall>q m. sector_of s q = Some m \<longrightarrow> sector_of s' q = Some m \<Longrightarrow> files_kept F s s'"
  unfolding files_kept_def using file_open_inode by fastforce

lemma refs_pos: "inv F G X s \<Longrightarrow> F f = Some fl \<Longrightarrow> 0 < refs F G (f_inode fl)"
  using no_refs(1) [of F G X s "f_inode fl" f fl] by blast

lemma files_kept_close:
  assumes "inv F G X s" "\<forall>q m. 0 < refs F G q + X' q \<longrightarrow> sector_of s q = Some m \<longrightarrow> sector_of s' q = Some m"
  shows "files_kept F s s'"
  unfolding files_kept_def using assms(2) refs_pos [OF assms(1)] file_open_inode [OF assms(1)] by (metis add_gr_0)

text \<open>An allocation in a state with memory.\<close>

lemma malloc_ok:
  assumes "inv F G X s"
  obtains p s' where "malloc s = (p, s')" "p \<noteq> 0" "reads s s'" "p \<notin> dom (files s)" "p \<notin> dom (dirs s)" "p < next_ptr s'"
proof -
  note I = invD [OF assms]
  let ?s = "s\<lparr>next_ptr := next_ptr s + 1\<rparr>"
  have "malloc s = (next_ptr s, ?s)" "next_ptr s \<noteq> 0" using I(1) by (auto simp: malloc_def mem_ok_def)
  moreover have "reads s ?s"
    unfolding reads_def by (intro exI [of _ "read_cnt (fs_device s)"] exI [of _ "next_ptr s + 1"]) simp
  moreover have "next_ptr s \<notin> dom (files s)" "next_ptr s \<notin> dom (dirs s)"
    using I(9) by (auto simp: inv_files_def pointers_ok_def)
  ultimately show ?thesis using that by simp
qed

lemma inode_open_free_map: "inode_open s n = Some (p, s') \<Longrightarrow> free_map s' = free_map s"
  by (auto simp: inode_open_def inode_reopen_def malloc_def fs_read_def split: bind_splits option.splits if_splits)

lemma dir_open_root_ok:
  assumes "inv F G X s"
  obtains d dr p s' where "dir_open_root s = Some (d, s')" "inv F (G(d \<mapsto> dr)) X s'" "root_open s' d p" "sees s s'" "live s' = live s"
    "dirs s' = (dirs s)(d \<mapsto> dr)" "d \<notin> dom (dirs s)" "d \<noteq> 0" "d_inode dr = p" "files_kept F s s'" "free_map s' = free_map s"
proof -
  have root: "ROOT_DIR_SECTOR \<in> system_sectors \<union> ran (names s)" by (simp add: system_sectors_def)
  obtain p s1 where s1: "inode_open s ROOT_DIR_SECTOR = Some (p, s1)" "inv F G (X(p := X p + 1)) s1" "keeps_data s s1"
      "live s1 = live s" "sector_of s1 p = Some ROOT_DIR_SECTOR" "p \<noteq> 0"
      "\<forall>q m. sector_of s q = Some m \<longrightarrow> sector_of s1 q = Some m"
    by (rule inode_open_ok [OF assms root])
  obtain d s2 where s2: "malloc s1 = (d, s2)" "d \<noteq> 0" "reads s1 s2" "d \<notin> dom (files s1)" "d \<notin> dom (dirs s1)" "d < next_ptr s2"
    by (rule malloc_ok [OF s1(2)])
  note i2 = inv_reads [OF s2(3) s1(2)] and R = readsD [OF s2(3)]
  let ?dr = "\<lparr>d_inode = p, d_pos = 0\<rparr>" and ?s = "s2\<lparr>dirs := (dirs s2)(d \<mapsto> \<lparr>d_inode = p, d_pos = 0\<rparr>)\<rparr>"
  have so: "sector_of s2 = sector_of s1" by (rule sector_of_reads [OF s2(3)])
  have "inv F (G(d \<mapsto> ?dr)) ((X(p := X p + 1))(p := (X(p := X p + 1)) p - 1)) ?s"
    by (rule inv_add_dir [OF i2]) (use s1(5) s2 so R(8) in simp_all)
  then have i3: "inv F (G(d \<mapsto> ?dr)) X ?s" by simp
  have k: "sees s ?s"
    using sees_trans [OF keeps_data_sees [OF s1(3)] sees_reads [OF s2(3)]] by (simp add: sees_def)
  have op: "dir_open_root s = Some (d, ?s)"
    using s1(1,6) s2(1,2) by (simp add: dir_open_root_def dir_open_def)
  have ds: "dirs s1 = dirs s" using s1(3) by (simp add: keeps_data_def)
  show ?thesis
  proof (rule that [OF op i3 _ k])
    show "files_kept F s ?s" using s1(7) so by (intro files_kept_mono [OF assms]) simp
  qed (use s1 s2 so R ds live_reads [OF s2(3)] inode_open_free_map [OF s1(1)] in \<open>auto simp: root_open_def\<close>)
qed

lemma dir_close_ok:
  assumes "inv F G X s" "G d = Some dr" "d \<noteq> 0"
  obtains s' where "dir_close s d = Some s'" "inv F (G(d := None)) X s'" "sees s s'" "dirs s' = (dirs s)(d := None)" "files_kept F s s'"
    "\<forall>q m. 0 < X q \<longrightarrow> sector_of s q = Some m \<longrightarrow> sector_of s' q = Some m"
proof -
  let ?p = "d_inode dr" and ?X = "X(d_inode dr := X (d_inode dr) + 1)"
  have dd: "dirs s d = Some dr" using invD(12) [OF assms(1)] assms(2) by (metis domI map_le_def)
  note i0 = inv_del_dir [OF assms(1,2)]
  have pos: "0 < ?X ?p" by simp
  obtain s1 where s1: "inode_close s ?p = Some s1" "inv F (G(d := None)) (?X(?p := ?X ?p - 1)) s1" "keeps_data s s1"
      "\<forall>q m. 0 < refs F (G(d := None)) q + (?X(?p := ?X ?p - 1)) q \<longrightarrow> sector_of s q = Some m \<longrightarrow> sector_of s1 q = Some m"
    by (rule inode_close_ok [OF i0 pos])
  have X: "?X(?p := ?X ?p - 1) = X" by simp
  then have "inv F (G(d := None)) X (s1\<lparr>dirs := (dirs s1)(d := None)\<rparr>)" using inv_free_dir [OF s1(2)] by simp
  moreover have "dir_close s d = Some (s1\<lparr>dirs := (dirs s1)(d := None)\<rparr>)" using assms(3) dd s1(1) by (simp add: dir_close_def)
  moreover have "sees s (s1\<lparr>dirs := (dirs s1)(d := None)\<rparr>)" "dirs s1 = dirs s"
    using s1(3) by (auto simp: keeps_data_def sees_def)
  moreover have "files_kept F s (s1\<lparr>dirs := (dirs s1)(d := None)\<rparr>)"
    using files_kept_close [OF i0 s1(4)] by (simp add: files_kept_def)
  moreover have "\<forall>q m. 0 < X q \<longrightarrow> sector_of s q = Some m \<longrightarrow> sector_of (s1\<lparr>dirs := (dirs s1)(d := None)\<rparr>) q = Some m"
    using s1(4) unfolding X by simp
  ultimately show ?thesis using that by simp
qed

lemma dir_remove_ok:
  assumes "inv F G X s" "root_open s d p" "0 \<notin> set name"
  obtains s' where "dir_remove s d name = Some (names s name \<noteq> None, s')" "inv F G X s'" "names s' = (names s)(name := None)"
    "files s' = files s" "dirs s' = dirs s" "free_map_file s' = free_map_file s" "live s' \<subseteq> live s"
    "\<forall>m\<in>live s'. m \<notin> system_sectors \<longrightarrow> content s' m = content s m" "files_kept F s s'"
proof -
  let ?c = "content s ROOT_DIR_SECTOR"
  obtain s1 where s1: "lookup s d name = Some (map_option (\<lambda>j. (slot_in ?c j, 20 * j)) (find (holds ?c name) [0..<16]), s1)"
      "reads s s1"
    by (rule lookup_ok [OF assms])
  note i1 = inv_reads [OF s1(2) assms(1)] and D = same_diskD [OF reads_same_disk [OF s1(2)]] and R = readsD [OF s1(2)]
  show ?thesis
  proof (cases "find (holds ?c name) [0..<16]")
    case None
    then have "names s name = None" by (simp add: names_def dir_map_def)
    moreover from this have "(names s)(name := None) = names s" by auto
    ultimately show ?thesis using that [of s1] s1(1) None i1 D R live_reads [OF s1(2)]
      files_kept_refl [OF sector_of_reads [OF s1(2)]] by (simp add: dir_remove_def)
  next
    case (Some j)
    note f = find_upt_Some [OF Some]
    let ?e = "slot_in ?c j" and ?n = "de_inode_sector (slot_in ?c j)"
    have nm: "names s name = Some ?n" using Some by (simp add: names_def dir_map_def)
    then have "?n \<in> system_sectors \<union> ran (names s1)" by (auto simp: D ran_def)
    from inode_open_ok [OF i1 this] obtain q s2 where
      s2: "inode_open s1 ?n = Some (q, s2)" "inv F G (X(q := X q + 1)) s2" "keeps_data s1 s2" "live s2 = live s1"
        "sector_of s2 q = Some ?n" "q \<noteq> 0" "\<forall>r m. sector_of s1 r = Some m \<longrightarrow> sector_of s2 r = Some m" by blast
    have c2: "content s2 ROOT_DIR_SECTOR = ?c" using s2(3) D by (simp add: keeps_data_def)
    have p2: "sector_of s2 p = Some ROOT_DIR_SECTOR" using assms(2) s2(7) sector_of_reads [OF s1(2)] by (simp add: root_open_def)
    have dr: "\<exists>dr. dirs s2 d = Some dr \<and> d_inode dr = p" using assms(2) s2(3) R by (simp add: root_open_def keeps_data_def)
    obtain s3 s4 where s4: "inode_write_at s2 p (enc_entry (?e\<lparr>de_in_use := False\<rparr>)) (int DIR_ENTRY_SIZE) (int (20 * j)) =
          Some (int DIR_ENTRY_SIZE, s3)" "inode_remove s3 q = Some s4" "inv F G (X(q := X q + 1)) s4"
        "names s4 = (names s2)(name := None)" "live s4 = live s2" "sector_of s4 = sector_of s2" "\<forall>m\<in>live s4. m \<noteq> ROOT_DIR_SECTOR \<longrightarrow> content s4 m = content s2 m"
        "files s4 = files s2" "dirs s4 = dirs s2" "free_map_file s4 = free_map_file s2" "next_ptr s2 \<le> next_ptr s4"
      by (rule inv_unlink [OF s2(2) p2 f(2), unfolded c2, OF f(3) s2(5) refl])
    let ?X = "X(q := X q + 1)"
    have pos: "0 < ?X q" by simp
    obtain s5 where s5: "inode_close s4 q = Some s5" "inv F G (?X(q := ?X q - 1)) s5" "keeps_data s4 s5"
        "\<forall>r m. 0 < refs F G r + (?X(q := ?X q - 1)) r \<longrightarrow> sector_of s4 r = Some m \<longrightarrow> sector_of s5 r = Some m"
      by (rule inode_close_ok [OF s4(3) pos])
    have X: "?X(q := ?X q - 1) = X" by simp
    have res: "dir_remove s d name = Some (True, s5)"
      using s1(1) Some s2(1,6) dr s4(1,2) s5(1) by (auto simp: dir_remove_def)
    show ?thesis
    proof (rule that [of s5])
      show "dir_remove s d name = Some (names s name \<noteq> None, s5)" using res nm by simp
      show "inv F G X s5" using s5(2) unfolding X .
      show "names s5 = (names s)(name := None)" using s5(3) s4(4) s2(3) D by (simp add: keeps_data_def)
      show "files s5 = files s" "dirs s5 = dirs s" "free_map_file s5 = free_map_file s"
        using s5(3) s4(8-10) s2(3) R by (simp_all add: keeps_data_def)
      show L: "live s5 \<subseteq> live s" using s5(3) s4(5) s2(4) live_reads [OF s1(2)] by (simp add: keeps_data_def)
      show "\<forall>m\<in>live s5. m \<notin> system_sectors \<longrightarrow> content s5 m = content s m"
        using s5(3) s4(5,7) s2(3,4) D by (auto simp: keeps_data_def system_sectors_def)
      have "files_kept F s s4"
        using files_kept_mono [OF i1 s2(7)] sector_of_reads [OF s1(2)] s4(6) by (simp add: files_kept_def)
      then show "files_kept F s s5" using files_kept_close [OF s4(3) s5(4)] by (rule files_kept_trans)
    qed
  qed
qed

end
