(* ===== verification/FS_Calls.thy ===== *)
theory FS_Calls
  imports FS_Files
begin

text \<open>
  The calls of \<^verbatim>\<open>filesys/filesys.c\<close> and \<^verbatim>\<open>filesys/file.c\<close> that the rest of the kernel makes, under the
  invariant: each returns, keeps the invariant, and changes names and contents as its
  caller expects.
\<close>

section \<open>Creating a file\<close>

lemma files_kept_same: "inodes s' = inodes s \<Longrightarrow> files_kept F s s'"
  by (simp add: files_kept_def sector_of_def)

text \<open>The sector of a new inode is allocated and the inode made, or nothing happens to it.\<close>

lemma fresh_sector:
  assumes "inv F G X s" "bits_set (free_map s) \<inter> span (n, 1) = {}" "bits_set (free_map s') = bits_set (free_map s) \<union> span (n, 1)"
    "inv F G X s'" "live s' = live s" "changed_only (data_sectors (dinode (fs_device s) FREE_MAP_SECTOR)) (fs_device s) (fs_device s')"
  shows "n \<in> bits_set (free_map s')" "\<forall>m\<in>live s'. n \<notin> extent (fs_device s') m" "n \<noteq> 0" "n \<notin> live s"
proof -
  have mem: "n \<in> span (n, 1)" by (simp add: span_def)
  then show "n \<in> bits_set (free_map s')" using assms(3) by blast
  have out: "n \<notin> extent (fs_device s) m" if "m \<in> live s" for m
    using disk_okD(4) [OF invD(5) [OF assms(1)] that] assms(2) mem by blast
  then show nl: "n \<notin> live s" by (auto simp: extent_def)
  then show "n \<noteq> 0" using system_live(1) [of s] unfolding FREE_MAP_SECTOR_def by metis
  have "dinode (fs_device s') m = dinode (fs_device s) m" if m: "m \<in> live s" for m
  proof -
    note d = invD(5) [OF assms(1)]
    have "m \<notin> data_sectors (dinode (fs_device s) FREE_MAP_SECTOR)" by (rule live_notin_data [OF d _ m]) simp
    then show ?thesis using assms(6) disk_okD(1) [OF d m] by (simp add: changed_only_def dinode_def)
  qed
  then show "\<forall>m\<in>live s'. n \<notin> extent (fs_device s') m" using out assms(5) by (simp add: extent_def)
qed

lemma release_fresh:
  assumes "inv F G X s" "n \<in> bits_set (free_map s)" "\<forall>m\<in>live s. n \<notin> extent (fs_device s) m"
  obtains s' where "free_map_release s n 1 = Some s'" "inv F G X s'" "sees s s'" "dirs s' = dirs s" "files_kept F s s'"
    "bits_set (free_map s') = bits_set (free_map s) - {n}" "inodes s' = inodes s"
proof -
  have sp: "span (n, 1) = {n}" by (auto simp: span_def)
  have "n < bit_cnt (free_map s)" using assms(2) by (simp add: bits_set_def)
  then have le: "n + 1 \<le> b_size (fs_device s)" using invD(4) [OF assms(1)] by simp
  have sub: "span (n, 1) \<subseteq> bits_set (free_map s)" and out: "\<forall>m\<in>live s. extent (fs_device s) m \<inter> span (n, 1) = {}"
    using assms(2,3) unfolding sp by auto
  obtain s' where s': "free_map_release s n 1 = Some s'" "inv F G X s'" "keeps_data s s'" "live s' = live s"
      "bits_set (free_map s') = bits_set (free_map s) - span (n, 1)" "inodes s' = inodes s" "open_inodes s' = open_inodes s"
      "changed_only (data_sectors (dinode (fs_device s) FREE_MAP_SECTOR)) (fs_device s) (fs_device s')"
    by (rule free_map_release_ok [OF assms(1) sub le out])
  show ?thesis
    by (rule that [OF s'(1,2) keeps_data_sees [OF s'(3)]]) (use s'(3,5,6) sp in \<open>simp_all add: keeps_data_def files_kept_same\<close>)
qed

text \<open>The part of \<open>filesys_create\<close> between opening and closing the root directory.\<close>

definition create_step :: "fs \<Rightarrow> nat \<Rightarrow> bytes \<Rightarrow> int \<Rightarrow> bytes \<Rightarrow> (bool \<times> fs) option" where
  "create_step s d name len junk = do {
     (sector, s) \<leftarrow> (if d \<noteq> NULL then free_map_allocate s 1 else Some (None, s));
     (ok, s) \<leftarrow> (case sector of
        None \<Rightarrow> Some (False, s)
      | Some n \<Rightarrow> do {
          (ok, s) \<leftarrow> inode_create s n len;
          if ok then dir_add s d name n junk else Some (False, s) });
     s \<leftarrow> (case sector of Some n \<Rightarrow> if \<not> ok \<and> n \<noteq> 0 then free_map_release s n 1 else Some s
            | None \<Rightarrow> Some s);
     Some (ok, s) }"

lemma filesys_create_split:
  "filesys_create s name len junk = do {
     (d, s) \<leftarrow> dir_open_root s;
     (ok, s) \<leftarrow> create_step s d name len junk;
     s \<leftarrow> dir_close s d;
     Some (ok, s) }"
  by (auto simp: filesys_create_def create_step_def split: Option.bind_split option.splits)

text \<open>What changes when a name is added, and when nothing visible changes.\<close>

definition unchanged :: "(nat \<Rightarrow> ofile option) \<Rightarrow> fs \<Rightarrow> fs \<Rightarrow> bool" where
  "unchanged F s s' \<longleftrightarrow> sees s s' \<and> dirs s' = dirs s \<and> files_kept F s s'"

definition name_added :: "(nat \<Rightarrow> ofile option) \<Rightarrow> bytes \<Rightarrow> nat \<Rightarrow> bytes \<Rightarrow> fs \<Rightarrow> fs \<Rightarrow> bool" where
  "name_added F name n bs s s' \<longleftrightarrow> names s name = None \<and> name \<noteq> [] \<and> length name \<le> NAME_MAX \<and> n \<notin> live s \<and>
     names s' = (names s)(name \<mapsto> n) \<and> content s' n = bs \<and>
     (\<forall>m\<in>live s'. m \<noteq> n \<longrightarrow> m \<notin> system_sectors \<longrightarrow> content s' m = content s m) \<and> live s' \<subseteq> insert n (live s) \<and>
     files s' = files s \<and> free_map_file s' = free_map_file s \<and> files_kept F s s'"

lemma unchanged_trans: "unchanged F s s' \<Longrightarrow> unchanged F s' s'' \<Longrightarrow> unchanged F s s''"
  unfolding unchanged_def using sees_trans files_kept_trans by metis

lemma unchanged_reads: "reads s s' \<Longrightarrow> unchanged F s s'"
  using readsD(7) [of s s'] by (simp add: unchanged_def sees_reads files_kept_refl sector_of_reads readsD)

lemma unchanged_keeps: "keeps_data s s' \<Longrightarrow> inodes s' = inodes s \<Longrightarrow> unchanged F s s'"
  using keeps_data_sees [of s s'] by (simp add: unchanged_def keeps_data_def files_kept_same)

lemma name_added_before:
  assumes "sees s s1" "files_kept F s s1" "live s1 = live s" "name_added F name n bs s1 s2"
  shows "name_added F name n bs s s2"
proof -
  have "content s2 m = content s m" if "m \<in> live s2" "m \<noteq> n" "m \<notin> system_sectors" for m
  proof -
    have "m \<in> live s1" "content s2 m = content s1 m" using assms(4) that by (auto simp: name_added_def)
    then show ?thesis using assms(1) that(3) by (auto simp: sees_def system_sectors_def)
  qed
  moreover have "files_kept F s s2"
    by (rule files_kept_trans [OF assms(2)]) (use assms(4) in \<open>simp add: name_added_def\<close>)
  ultimately show ?thesis using assms by (auto simp: name_added_def sees_def)
qed

lemma name_added_after:
  assumes "name_added F name n bs s s1" "sees s1 s2" "files_kept F s1 s2"
  shows "name_added F name n bs s s2"
proof -
  have n: "n \<in> live s2" "n \<notin> system_sectors"
    using assms(1,2) by (auto simp: sees_def name_added_def live_def ran_def)
  then have "content s2 n = content s1 n" using assms(2) by (auto simp: sees_def system_sectors_def)
  moreover have "content s2 m = content s m" if "m \<in> live s2" "m \<noteq> n" "m \<notin> system_sectors" for m
    using that assms(1,2) by (auto simp: sees_def name_added_def system_sectors_def)
  moreover have "files_kept F s s2"
    by (rule files_kept_trans [OF _ assms(3)]) (use assms(1) in \<open>simp add: name_added_def\<close>)
  ultimately show ?thesis using assms(1,2) by (auto simp: name_added_def sees_def)
qed

text \<open>When there is nothing in the way of a new file.\<close>

definition can_create :: "fs \<Rightarrow> bytes \<Rightarrow> int \<Rightarrow> bool" where
  "can_create s name len \<longleftrightarrow> names s name = None \<and> name \<noteq> [] \<and> length name \<le> NAME_MAX \<and> \<not> dir_full s \<and>
     has_room (free_map s) (1 + bytes_to_sectors len)"

text \<open>First fit for the sector of the inode leaves the room for its data.\<close>

lemma room_left:
  assumes "has_room b (1 + c)" "bits_set b' = bits_set b \<union> span (n, 1)" "bit_cnt b' = bit_cnt b"
    "\<forall>k<n. \<not> (k + 1 \<le> bit_cnt b \<and> bits_set b \<inter> span (k, 1) = {})"
  shows "has_room b' c"
proof -
  obtain k where k: "k + (1 + c) \<le> bit_cnt b" "bits_set b \<inter> span (k, 1 + c) = {}" using assms(1) by (auto simp: has_room_def)
  then have "bits_set b \<inter> span (k, 1) = {}" "k + 1 \<le> bit_cnt b" by (auto simp: span_def)
  then have "n \<le> k" using assms(4) not_le by blast
  then have "bits_set b' \<inter> span (k + 1, c) = {}" using k(2) unfolding assms(2) by (auto simp: span_def)
  then show ?thesis unfolding has_room_def using k(1) assms(3) by (intro exI [of _ "k + 1"]) simp
qed

lemma root_close_free_map:
  assumes "inv F G X s" "root_open s d p" "dir_close s d = Some s'"
  shows "free_map s' = free_map s"
proof -
  obtain dr ino where d: "d \<noteq> 0" "dirs s d = Some dr" "inodes s (d_inode dr) = Some ino" "i_sector ino = ROOT_DIR_SECTOR"
    using assms(2) by (auto simp: root_open_def sector_of_def)
  have "\<not> i_removed ino"
    using inv_openD(1) [OF invD(8) [OF assms(1)] d(3)] d(4) by (auto simp: open_ok_def system_sectors_def)
  then show ?thesis using assms(3) d by (auto simp: dir_close_def inode_close_def Let_def split: if_splits)
qed

lemma create_step_ok:
  assumes "inv F G X s" "root_open s d p" "d \<noteq> 0" "0 \<notin> set name" "length junk = 20" "0 \<le> len" "len < 2 ^ 31"
  obtains (fail) s' where "create_step s d name len junk = Some (False, s')" "inv F G X s'" "unchanged F s s'" "\<not> can_create s name len"
  | (ok) s' n where "create_step s d name len junk = Some (True, s')" "inv F G X s'" "name_added F name n (replicate (nat len) 0) s s'"
      "dirs s' = dirs s" "root_open s' d p" "card (bits_set (free_map s')) = card (bits_set (free_map s)) + 1 + bytes_to_sectors len"
      "bit_cnt (free_map s') = bit_cnt (free_map s)"
  using assms(1)
proof (cases rule: free_map_allocate_ok [where cnt = 1, consumes 1, case_names none some])
  case none
  moreover have "\<not> can_create s name len"
  proof
    assume "can_create s name len"
    then obtain k where "k + (1 + bytes_to_sectors len) \<le> bit_cnt (free_map s)" "bits_set (free_map s) \<inter> span (k, 1 + bytes_to_sectors len) = {}"
      by (auto simp: can_create_def has_room_def)
    then show False using none(2) unfolding has_room_def by (auto simp: span_def)
  qed
  ultimately show ?thesis using fail assms(1,3) by (simp add: create_step_def unchanged_def files_kept_refl)
next
  case (some n s2)
  note fr = fresh_sector [OF assms(1) some(6,7,2,4,9)] and k2 = unchanged_keeps [OF some(3,8)]
  have p2: "root_open s2 d p"
    using assms(2) some(3,8) by (simp add: root_open_def sector_of_def keeps_data_def)
  have undo: thesis if r: "create_step s d name len junk = do { s' \<leftarrow> free_map_release s3 n 1; Some (False, s') }"
    and s3: "inv F G X s3" "n \<in> bits_set (free_map s3)" "\<forall>m\<in>live s3. n \<notin> extent (fs_device s3) m" "unchanged F s s3"
      "\<not> can_create s name len" for s3
    by (rule release_fresh [OF s3(1-3)], rule fail) (use r s3(5) unchanged_trans [OF s3(4)] in \<open>auto simp: unchanged_def\<close>)
  show ?thesis
  proof (cases rule: inode_create_ok [OF some(2) fr(1,2) assms(6,7), case_names fail ok])
    case A: (fail s3)
    note D = same_diskD [OF reads_same_disk [OF A(2)]]
    show ?thesis
    proof (rule undo [OF _ inv_reads [OF A(2) some(2)]])
      show "\<forall>m\<in>live s3. n \<notin> extent (fs_device s3) m" using fr(2) D live_reads [OF A(2)] by (simp add: extent_def)
      show "unchanged F s s3" by (rule unchanged_trans [OF k2 unchanged_reads [OF A(2)]])
      have "bit_cnt (free_map s2) = bit_cnt (free_map s)" using invD(4) [OF some(2)] invD(4) [OF assms(1)] some(9) by (simp add: changed_only_def)
      from room_left [OF _ some(7) this some(10)] show "\<not> can_create s name len" using A(3) by (auto simp: can_create_def)
    qed (use fr(1,3) readsD [OF A(2)] assms(3) some(1) A(1) in \<open>simp_all add: create_step_def\<close>)
  next
    case B: (ok s3)
    note k3 = unchanged_trans [OF k2 unchanged_keeps [OF B(3,7)]]
    have p3: "root_open s3 d p" using p2 B(3,7) by (simp add: root_open_def sector_of_def keeps_data_def)
    have L3: "live s3 = live s" and n3: "n \<notin> live s3" using fr(4) B(4) some(4) by simp_all
    show ?thesis
    proof (cases rule: dir_add_ok [OF B(2) p3 assms(4,5) n3 B(5), case_names fail ok])
      case C: (fail s4)
      note D = same_diskD [OF reads_same_disk [OF C(2)]]
      have "n \<notin> extent (fs_device s3) m" if m: "m \<in> live s3" for m
      proof -
        have "n \<noteq> m" using m n3 by blast
        then have "extent (fs_device s3) n \<inter> extent (fs_device s3) m = {}" using B(5) m by (simp add: disk_ok_def)
        then show ?thesis by (auto simp: extent_def)
      qed
      then have o4: "\<forall>m\<in>live s4. n \<notin> extent (fs_device s4) m" using D live_reads [OF C(2)] by (simp add: extent_def)
      have b4: "n \<in> bits_set (free_map s4)" using fr(1) B(8) readsD [OF C(2)] by auto
      show ?thesis
        by (rule undo [OF _ inv_reads [OF C(2) B(2)] b4 o4 unchanged_trans [OF k3 unchanged_reads [OF C(2)]]])
          (use fr(3) assms(3) some(1) B(1) C(1,3) k3 in \<open>auto simp: create_step_def can_create_def dir_full_def unchanged_def sees_def\<close>)
    next
      case C: (ok s4)
      have "name_added F name n (replicate (nat len) 0) s3 s4"
        unfolding name_added_def using C B(6) n3 files_kept_refl [OF C(8)] by (auto simp: system_sectors_def live_def)
      then have "name_added F name n (replicate (nat len) 0) s s4"
        using k3 L3 by (intro name_added_before [of s s3]) (simp_all add: unchanged_def)
      moreover have "card (bits_set (free_map s4)) = card (bits_set (free_map s)) + 1 + bytes_to_sectors len"
      proof -
        have "span (n, 1) = {n}" "finite (bits_set (free_map s))" by (auto simp: span_def bits_set_def)
        then show ?thesis using some(6,7) B(9) C(13) by simp
      qed
      moreover have "bit_cnt (free_map s4) = bit_cnt (free_map s)"
        using B(10) C(13) invD(4) [OF some(2)] invD(4) [OF assms(1)] some(9) by (simp add: changed_only_def)
      moreover have "root_open s4 d p" using p3 C(8,10) by (simp add: root_open_def)
      ultimately show ?thesis using ok [OF _ C(2)] assms(3) some(1) B(1) C(1,10) k3 by (simp add: create_step_def unchanged_def)
    qed
  qed
qed

text \<open>An operation on the root directory is wrapped in opening and closing it.\<close>

definition closable :: "(nat \<Rightarrow> ofile option) \<Rightarrow> (nat \<Rightarrow> dir option) \<Rightarrow> (nat \<Rightarrow> dir option) \<Rightarrow> nat \<Rightarrow> fs \<Rightarrow> fs \<Rightarrow> bool" where
  "closable F G G1 d s s1 \<longleftrightarrow> (\<forall>s' Y. inv F G1 Y s' \<longrightarrow> dirs s' = dirs s1 \<longrightarrow>
     (\<exists>s''. dir_close s' d = Some s'' \<and> inv F G Y s'' \<and> sees s' s'' \<and> dirs s'' = dirs s \<and> files_kept F s' s'' \<and>
        (\<forall>q m. 0 < Y q \<longrightarrow> sector_of s' q = Some m \<longrightarrow> sector_of s'' q = Some m)))"

lemma closableD:
  assumes "closable F G G1 d s s1" "inv F G1 Y s'" "dirs s' = dirs s1"
  obtains s'' where "dir_close s' d = Some s''" "inv F G Y s''" "sees s' s''" "dirs s'' = dirs s" "files_kept F s' s''"
    "\<forall>q m. 0 < Y q \<longrightarrow> sector_of s' q = Some m \<longrightarrow> sector_of s'' q = Some m"
  using assms unfolding closable_def by blast

lemma with_root:
  assumes "inv F G X s"
  obtains d p s1 G1 where "dir_open_root s = Some (d, s1)" "inv F G1 X s1" "root_open s1 d p" "sees s s1" "live s1 = live s"
    "d \<noteq> 0" "files_kept F s s1"
    "closable F G G1 d s s1" "free_map s1 = free_map s"
proof -
  obtain d dr p s1 where s1: "dir_open_root s = Some (d, s1)" "inv F (G(d \<mapsto> dr)) X s1" "root_open s1 d p" "sees s s1" "live s1 = live s"
      "dirs s1 = (dirs s)(d \<mapsto> dr)" "d \<notin> dom (dirs s)" "d \<noteq> 0" "d_inode dr = p" "files_kept F s s1" "free_map s1 = free_map s"
    by (rule dir_open_root_ok [OF assms])
  let ?G = "G(d \<mapsto> dr)"
  have "G d = None" using s1(7) invD(12) [OF assms] by (metis domIff map_le_def)
  then have Gd: "?G(d := None) = G" by auto
  have undo: "(dirs s1)(d := None) = dirs s" using s1(6,7) by (auto simp: fun_eq_iff dom_def)
  show ?thesis
  proof (rule that [OF s1(1-5,8,10) _ s1(11)], unfold closable_def, intro allI impI)
    fix s' Y assume i: "inv F ?G Y s'" and ds: "dirs s' = dirs s1"
    have dd: "?G d = Some dr" by simp
    obtain s'' where "dir_close s' d = Some s''" "inv F (?G(d := None)) Y s''" "sees s' s''"
      "dirs s'' = (dirs s')(d := None)" "files_kept F s' s''"
      "\<forall>q m. 0 < Y q \<longrightarrow> sector_of s' q = Some m \<longrightarrow> sector_of s'' q = Some m"
      by (rule dir_close_ok [OF i dd s1(8)])
    then show "\<exists>s''. dir_close s' d = Some s'' \<and> inv F G Y s'' \<and> sees s' s'' \<and> dirs s'' = dirs s \<and> files_kept F s' s'' \<and>
         (\<forall>q m. 0 < Y q \<longrightarrow> sector_of s' q = Some m \<longrightarrow> sector_of s'' q = Some m)"
      using Gd undo ds by metis
  qed
qed

lemma filesys_create_ok:
  assumes "inv F G X s" "0 \<notin> set name" "length junk = 20" "0 \<le> len" "len < 2 ^ 31"
  obtains (fail) s' where "filesys_create s name len junk = Some (False, s')" "inv F G X s'" "unchanged F s s'" "\<not> can_create s name len"
  | (ok) s' n where "filesys_create s name len junk = Some (True, s')" "inv F G X s'"
      "name_added F name n (replicate (nat len) 0) s s'" "dirs s' = dirs s"
      "card (bits_set (free_map s')) = card (bits_set (free_map s)) + 1 + bytes_to_sectors len"
      "bit_cnt (free_map s') = bit_cnt (free_map s)"
proof -
  obtain d p s1 G1 where s1: "dir_open_root s = Some (d, s1)" "inv F G1 X s1" "root_open s1 d p" "sees s s1" "live s1 = live s"
      "d \<noteq> 0" "files_kept F s s1" "closable F G G1 d s s1" "free_map s1 = free_map s"
    by (rule with_root [OF assms(1)])
  show ?thesis
  proof (cases rule: create_step_ok [OF s1(2,3,6) assms(2-5), case_names fail ok])
    case A: (fail s2)
    have ds: "dirs s2 = dirs s1" using A(3) by (simp add: unchanged_def)
    obtain s3 where s3: "dir_close s2 d = Some s3" "inv F G X s3" "sees s2 s3" "dirs s3 = dirs s" "files_kept F s2 s3"
      by (rule closableD [OF s1(8) A(2) ds])
    have "unchanged F s s3"
      unfolding unchanged_def using A(3) s1(4,7) s3(3-5) sees_trans files_kept_trans unfolding unchanged_def by metis
    moreover have "can_create s1 name len = can_create s name len"
      using s1(4,9) by (simp add: can_create_def dir_full_def sees_def)
    ultimately show ?thesis using fail [OF _ s3(2)] s1(1) A(1,4) s3(1) by (simp add: filesys_create_split)
  next
    case A: (ok s2 n)
    obtain s3 where s3: "dir_close s2 d = Some s3" "inv F G X s3" "sees s2 s3" "dirs s3 = dirs s" "files_kept F s2 s3"
      by (rule closableD [OF s1(8) A(2,4)])
    note N = name_added_after [OF name_added_before [OF s1(4,7,5) A(3)] s3(3,5)]
    show ?thesis
      by (rule ok [OF _ s3(2) N s3(4)])
        (use s1(1,9) A(1,6,7) s3(1) root_close_free_map [OF A(2,5) s3(1)] in \<open>simp_all add: filesys_create_split\<close>)
  qed
qed


section \<open>Opening and removing a name\<close>

lemma dir_lookup_ok:
  assumes "inv F G X s" "root_open s d p" "0 \<notin> set name"
  obtains (absent) s' where "dir_lookup s d name = Some (0, s')" "names s name = None" "reads s s'"
  | (found) n q s' where "dir_lookup s d name = Some (q, s')" "names s name = Some n" "q \<noteq> 0" "inv F G (X(q := X q + 1)) s'"
      "unchanged F s s'" "live s' = live s" "sector_of s' q = Some n"
proof -
  let ?c = "content s ROOT_DIR_SECTOR"
  obtain s1 where s1: "lookup s d name = Some (map_option (\<lambda>j. (slot_in ?c j, 20 * j)) (find (holds ?c name) [0..<16]), s1)"
      "reads s s1"
    by (rule lookup_ok [OF assms])
  show ?thesis
  proof (cases "find (holds ?c name) [0..<16]")
    case None
    then show ?thesis using absent [of s1] s1 by (simp add: dir_lookup_def names_def dir_map_def)
  next
    case (Some j)
    let ?n = "de_inode_sector (slot_in ?c j)"
    have nm: "names s name = Some ?n" using Some by (simp add: names_def dir_map_def)
    then have n: "?n \<in> system_sectors \<union> ran (names s1)"
      using same_diskD(3) [OF reads_same_disk [OF s1(2)]] by (auto simp: ran_def)
    note i1 = inv_reads [OF s1(2) assms(1)]
    obtain q s2 where s2: "inode_open s1 ?n = Some (q, s2)" "inv F G (X(q := X q + 1)) s2" "keeps_data s1 s2" "live s2 = live s1"
        "sector_of s2 q = Some ?n" "q \<noteq> 0" "\<forall>r m. sector_of s1 r = Some m \<longrightarrow> sector_of s2 r = Some m"
      by (rule inode_open_ok [OF i1 n])
    have "unchanged F s1 s2"
      using files_kept_mono [OF i1 s2(7)] keeps_data_sees [OF s2(3)] s2(3) by (simp add: unchanged_def keeps_data_def)
    then have "unchanged F s s2" by (rule unchanged_trans [OF unchanged_reads [OF s1(2)]])
    then show ?thesis using found [OF _ nm s2(6,2) _ _ s2(5)] s1(1) Some s2(1,4) live_reads [OF s1(2)] by (simp add: dir_lookup_def)
  qed
qed

lemma filesys_open_ok:
  assumes "inv F G X s" "0 \<notin> set name"
  obtains (absent) s' where "filesys_open s name = Some (0, s')" "names s name = None" "inv F G X s'" "unchanged F s s'"
  | (found) f fl n s' where "filesys_open s name = Some (f, s')" "names s name = Some n" "f \<noteq> 0" "f \<notin> dom (files s)"
      "inv (F(f \<mapsto> fl)) G X s'" "f_pos fl = 0" "\<not> f_deny_write fl" "sector_of s' (f_inode fl) = Some n"
      "names s' = names s" "\<forall>m\<in>live s'. m \<notin> system_sectors \<longrightarrow> content s' m = content s m" "live s' \<subseteq> live s"
      "files s' = (files s)(f \<mapsto> fl)" "dirs s' = dirs s" "free_map_file s' = free_map_file s" "files_kept F s s'"
proof -
  obtain d p s1 G1 where s1: "dir_open_root s = Some (d, s1)" "inv F G1 X s1" "root_open s1 d p" "sees s s1" "live s1 = live s"
      "d \<noteq> 0" "files_kept F s s1" "closable F G G1 d s s1"
    by (rule with_root [OF assms(1)])
  have nm1: "names s1 = names s" using s1(4) by (simp add: sees_def)
  show ?thesis
  proof (cases rule: dir_lookup_ok [OF s1(2,3) assms(2), case_names absent found])
    case A: (absent s2)
    have ds: "dirs s2 = dirs s1" using readsD [OF A(3)] by simp
    obtain s3 where s3: "dir_close s2 d = Some s3" "inv F G X s3" "sees s2 s3" "dirs s3 = dirs s" "files_kept F s2 s3"
      by (rule closableD [OF s1(8) inv_reads [OF A(3) s1(2)] ds])
    obtain f s4 where s4: "malloc s3 = (f, s4)" "reads s3 s4" by (rule malloc_ok [OF s3(2)])
    have "sees s s3" "files_kept F s s3"
      using sees_trans [OF s1(4) sees_trans [OF sees_reads [OF A(3)] s3(3)]]
        files_kept_trans [OF s1(7) files_kept_trans [OF files_kept_refl [OF sector_of_reads [OF A(3)]] s3(5)]] by simp_all
    then have "unchanged F s s4"
      using unchanged_trans [OF _ unchanged_reads [OF s4(2)]] s3(4) by (simp add: unchanged_def)
    then show ?thesis
      using absent [OF _ _ inv_reads [OF s4(2) s3(2)]] s1(1,6) A(1,2) s3(1) s4(1) nm1
      by (simp add: filesys_open_def file_open_def inode_close_def)
  next
    case A: (found n q s2)
    have ds: "dirs s2 = dirs s1" using A(5) by (simp add: unchanged_def)
    let ?X = "X(q := X q + 1)"
    obtain s3 where s3: "dir_close s2 d = Some s3" "inv F G ?X s3" "sees s2 s3" "dirs s3 = dirs s" "files_kept F s2 s3"
        "\<forall>r m. 0 < ?X r \<longrightarrow> sector_of s2 r = Some m \<longrightarrow> sector_of s3 r = Some m"
      by (rule closableD [OF s1(8) A(4) ds])
    obtain f s4 where s4: "malloc s3 = (f, s4)" "f \<noteq> 0" "reads s3 s4" "f \<notin> dom (files s3)" "f \<notin> dom (dirs s3)" "f < next_ptr s4"
      by (rule malloc_ok [OF s3(2)])
    note R = readsD [OF s4(3)]
    let ?fl = "\<lparr>f_inode = q, f_pos = 0, f_deny_write = False\<rparr>" and ?s = "s4\<lparr>files := (files s4)(f \<mapsto> \<lparr>f_inode = q, f_pos = 0, f_deny_write = False\<rparr>)\<rparr>"
    have k: "sees s s4" "files_kept F s s4"
      using sees_trans [OF s1(4) sees_trans [OF _ sees_trans [OF s3(3) sees_reads [OF s4(3)]]]] A(5)
        files_kept_trans [OF s1(7) files_kept_trans [OF _ files_kept_trans [OF s3(5) files_kept_refl [OF sector_of_reads [OF s4(3)]]]]]
      by (simp_all add: unchanged_def)
    have q: "sector_of s4 q = Some n" using s3(6) A(7) sector_of_reads [OF s4(3)] by simp
    have n: "n \<notin> system_sectors"
      using A(2) invD(6) [OF s1(2)] by (auto simp: inv_dir_def ran_def)
    have "inv (F(f \<mapsto> ?fl)) G (?X(q := ?X q - 1)) ?s"
      by (rule inv_add_file [OF inv_reads [OF s4(3) s3(2)] _ q n]) (use s4 R in simp_all)
    then have i: "inv (F(f \<mapsto> ?fl)) G X ?s" by simp
    have fs: "files s4 = files s" using k(1) by (simp add: sees_def)
    show ?thesis
    proof (rule found [of f ?s n ?fl])
      show "filesys_open s name = Some (f, ?s)"
        using s1(1,6) A(1,3) s3(1) s4(1,2) by (simp add: filesys_open_def file_open_def)
      show "\<forall>m\<in>live ?s. m \<notin> system_sectors \<longrightarrow> content ?s m = content s m"
        using k(1) by (auto simp: sees_def system_sectors_def)
      show "files_kept F s ?s" using k(2) by (simp add: files_kept_def)
    qed (use A(2) nm1 s4 i q k(1) fs R s3(4) in \<open>simp_all add: sees_def\<close>)
  qed
qed

lemma filesys_remove_ok:
  assumes "inv F G X s" "0 \<notin> set name"
  obtains s' where "filesys_remove s name = Some (names s name \<noteq> None, s')" "inv F G X s'" "names s' = (names s)(name := None)"
    "files s' = files s" "dirs s' = dirs s" "free_map_file s' = free_map_file s" "live s' \<subseteq> live s"
    "\<forall>m\<in>live s'. m \<notin> system_sectors \<longrightarrow> content s' m = content s m" "files_kept F s s'"
proof -
  obtain d p s1 G1 where s1: "dir_open_root s = Some (d, s1)" "inv F G1 X s1" "root_open s1 d p" "sees s s1" "live s1 = live s"
      "d \<noteq> 0" "files_kept F s s1" "closable F G G1 d s s1"
    by (rule with_root [OF assms(1)])
  obtain s2 where s2: "dir_remove s1 d name = Some (names s1 name \<noteq> None, s2)" "inv F G1 X s2" "names s2 = (names s1)(name := None)"
    "files s2 = files s1" "dirs s2 = dirs s1" "free_map_file s2 = free_map_file s1" "live s2 \<subseteq> live s1"
    "\<forall>m\<in>live s2. m \<notin> system_sectors \<longrightarrow> content s2 m = content s1 m" "files_kept F s1 s2"
    by (rule dir_remove_ok [OF s1(2,3) assms(2)])
  obtain s3 where s3: "dir_close s2 d = Some s3" "inv F G X s3" "sees s2 s3" "dirs s3 = dirs s" "files_kept F s2 s3"
    by (rule closableD [OF s1(8) s2(2,5)])
  have L: "live s3 \<subseteq> live s2" "live s3 \<subseteq> live s" using s3(3) s2(7) s1(5) by (auto simp: sees_def)
  have "content s3 m = content s m" if "m \<in> live s3" "m \<notin> system_sectors" for m
  proof -
    have "m \<in> live s2" "m \<in> live s1" using L that s2(7) by auto
    then show ?thesis using that s3(3) s2(8) s1(4) by (auto simp: sees_def system_sectors_def)
  qed
  moreover have "files_kept F s s3" by (rule files_kept_trans [OF s1(7) files_kept_trans [OF s2(9) s3(5)]])
  ultimately show ?thesis
    using that [OF _ s3(2)] s1(1,4,6) s2(1,3,4,6) s3(1,3,4) L(2) by (simp add: filesys_remove_def sees_def)
qed

end
