(* ===== verification/FS_Handles.thy ===== *)
theory FS_Handles
  imports FS_Calls
begin

text \<open>
  The operations of \<^verbatim>\<open>filesys/file.c\<close> on an open file, under the invariant: positions, reading and
  writing, denying writes, opening it again and closing it.
\<close>

section \<open>Reading and writing\<close>

text \<open>The inode behind an open file.\<close>

lemma file_inode:
  assumes "inv F G X s" "F f = Some fl" "f \<noteq> free_map_file s"
  obtains ino n where "files s f = Some fl" "f \<noteq> 0" "0 \<le> f_pos fl" "inodes s (f_inode fl) = Some ino" "i_sector ino = n"
    "sector_of s (f_inode fl) = Some n" "n \<notin> system_sectors" "n \<in> live s" "i_data ino = dinode (fs_device s) n"
    "i_deny_write_cnt ino = int (denies F (f_inode fl))" "inode_fits (fs_device s) (dinode (fs_device s) n)"
proof -
  note I = invD [OF assms(1)]
  have ff: "files s f = Some fl" using I(11) assms(2) by (metis domI map_le_def)
  have "file_ok s f fl" using I(9) assms(2) by (simp add: inv_files_def)
  then obtain n where n: "0 \<le> f_pos fl" "sector_of s (f_inode fl) = Some n" "n \<notin> system_sectors" using assms(3) by (auto simp: file_ok_def)
  then obtain ino where ino: "inodes s (f_inode fl) = Some ino" "i_sector ino = n" by (auto simp: sector_of_def)
  note o = inv_openD [OF I(8) ino(1)]
  have "f \<noteq> 0" using I(9) ff by (auto simp: inv_files_def pointers_ok_def)
  then show ?thesis
    using that [OF ff _ n(1) ino n(2,3)] o ino(2) disk_okD(2) [OF I(5)] by (auto simp: open_ok_def)
qed

lemma file_length_ok:
  assumes "inv F G X s" "F f = Some fl" "f \<noteq> free_map_file s" "sector_of s (f_inode fl) = Some n"
  shows "file_length s f = Some (int (length (content s n)))"
proof -
  obtain ino where "files s f = Some fl" "f \<noteq> 0" "inodes s (f_inode fl) = Some ino" "i_data ino = dinode (fs_device s) n"
      "inode_fits (fs_device s) (dinode (fs_device s) n)"
    by (rule file_inode [OF assms(1-3)]) (use assms(4) in auto)
  then show ?thesis
    using invD(2) [OF assms(1)] by (simp add: file_length_def inode_length_def content_def inode_fits_def)
qed

lemma file_read_ok:
  assumes "inv F G X s" "F f = Some fl" "f \<noteq> free_map_file s" "sector_of s (f_inode fl) = Some n"
  obtains s' bs fl' where "bs = chunk (content s n) (nat (f_pos fl)) cnt" "file_read s f (int cnt) = Some (bs, s')"
    "fl' = fl\<lparr>f_pos := f_pos fl + int (length bs)\<rparr>" "inv (F(f \<mapsto> fl')) G X s'"
    "names s' = names s" "content s' = content s" "live s' = live s" "sector_of s' = sector_of s"
    "files s' = (files s)(f \<mapsto> fl')" "dirs s' = dirs s" "free_map_file s' = free_map_file s"
proof -
  obtain ino where ino: "files s f = Some fl" "f \<noteq> 0" "0 \<le> f_pos fl" "inodes s (f_inode fl) = Some ino" "i_data ino = dinode (fs_device s) n"
      "inode_fits (fs_device s) (dinode (fs_device s) n)"
    by (rule file_inode [OF assms(1-3)]) (use assms(4) in auto)
  note I = invD [OF assms(1)]
  let ?o = "nat (f_pos fl)" and ?d = "dinode (fs_device s) n"
  obtain s1 where s1: "inode_read_at s (f_inode fl) (int cnt) (int ?o) = Some (chunk (content s n) ?o (left ?d cnt ?o), s1)" "reads s s1"
    using inode_read_at_ok [OF ino(4) I(2), of cnt ?o] ino(5,6) I(1) by (auto simp: content_def)
  have len: "length (content s n) = nat (id_length ?d)" using ino(6) I(2) by (simp add: content_def)
  have bs: "chunk (content s n) ?o (left ?d cnt ?o) = chunk (content s n) ?o cnt"
    unfolding chunk_def left_def len [symmetric] by (simp add: min_def)
  note R = readsD [OF s1(2)] and D = same_diskD [OF reads_same_disk [OF s1(2)]]
  let ?bs = "chunk (content s n) ?o cnt"
  let ?fl = "fl\<lparr>f_pos := f_pos fl + int (length ?bs)\<rparr>"
  have i: "inv (F(f \<mapsto> ?fl)) G X (s1\<lparr>files := (files s1)(f \<mapsto> ?fl)\<rparr>)"
    by (rule inv_set_file [OF inv_reads [OF s1(2) assms(1)] assms(2)]) (use ino(3) in simp)
  show ?thesis
    by (rule that [OF refl _ refl, of "s1\<lparr>files := (files s1)(f \<mapsto> ?fl)\<rparr>"])
      (use ino s1(1) bs i R D live_reads [OF s1(2)] sector_of_reads [OF s1(2)] in \<open>simp_all add: file_read_def set_pos_def\<close>)
qed

text \<open>A write that is not denied puts the bytes that fit over the old ones.\<close>

lemma file_write_data:
  assumes "inv F G X s" "inodes s p = Some ino" "i_sector ino = n" "n \<in> live s" "n \<notin> system_sectors" "i_deny_write_cnt ino = 0"
    "cnt \<le> length buf" "k = min cnt (length (content s n) - ofs)"
  obtains s' where "inode_write_at s p buf (int cnt) (int ofs) = Some (int k, s')" "inv F G X s'" "writes s s'" "names s' = names s"
    "content s' n = overlay (content s n) ofs (take k buf)" "\<forall>m\<in>live s. m \<noteq> n \<longrightarrow> content s' m = content s m" "live s' = live s"
proof -
  note I = invD [OF assms(1)]
  let ?d = "dinode (fs_device s) n"
  have d: "i_data ino = ?d" using inv_openD(3) [OF I(8) assms(2)] assms(3) by simp
  have fits: "inode_fits (fs_device s) ?d" by (rule disk_okD(2) [OF I(5) assms(4)])
  have len: "length (content s n) = nat (id_length ?d)" using fits I(2) by (simp add: content_def)
  have k: "k = left ?d cnt ofs" using assms(8) len by (simp add: left_def)
  obtain s' where s': "inode_write_at s p buf (int cnt) (int ofs) = Some (int k, s')" "writes s s'"
      "disk (fs_device s') = overlay (disk (fs_device s)) (512 * id_start ?d + ofs) (take k buf)"
    using inode_write_at_ok [OF assms(2,6) I(2) _ assms(7), of ofs] fits d I(1) k by auto
  have kl: "length (take k buf) = k" using assms(7,8) by simp
  have main: "changed_only (data_sectors ?d) (fs_device s) (fs_device s') \<and>
      inode_bytes (fs_device s') ?d = overlay (inode_bytes (fs_device s) ?d) ofs (take k buf)"
  proof (cases "k = 0")
    case True
    then have eq: "disk (fs_device s') = disk (fs_device s)" using s'(3) by simp
    have "changed_only (data_sectors ?d) (fs_device s) (fs_device s')"
      using inode_bytes_changed [OF I(2) writesD(1,2) [OF s'(2)] fits, of 0 "[]"] eq by simp
    then show ?thesis using True eq by (simp add: inode_bytes_def)
  next
    case False
    then have room: "ofs + length (take k buf) \<le> nat (id_length ?d)" using kl k False unfolding left_def by linarith
    show ?thesis
      using inode_bytes_changed [OF I(2) writesD(1,2) [OF s'(2)] fits s'(3) room] inode_bytes_overlay [OF I(2) fits s'(3) room] by simp
  qed
  note w = inv_data_write [OF assms(1) s'(2) assms(4,5) conjunct1 [OF main]]
  have "dinode (fs_device s') n = ?d" using data_write(2) [OF assms(1) s'(2) assms(4) conjunct1 [OF main]] assms(4) by blast
  then have "content s' n = overlay (content s n) ofs (take k buf)" using main by (simp add: content_def)
  then show ?thesis using that [OF s'(1) w(1) s'(2) w(2) _ w(3,4)] by simp
qed

lemma file_write_ok:
  assumes "inv F G X s" "F f = Some fl" "f \<noteq> free_map_file s" "sector_of s (f_inode fl) = Some n" "cnt \<le> length buf"
    "k = (if denies F (f_inode fl) = 0 then min cnt (length (content s n) - nat (f_pos fl)) else 0)"
    "fl' = fl\<lparr>f_pos := f_pos fl + int k\<rparr>"
  obtains s' where "file_write s f buf (int cnt) = Some (int k, s')" "inv (F(f \<mapsto> fl')) G X s'"
    "names s' = names s" "content s' n = overlay (content s n) (nat (f_pos fl)) (take k buf)"
    "\<forall>m\<in>live s'. m \<noteq> n \<longrightarrow> content s' m = content s m" "live s' = live s" "sector_of s' = sector_of s"
    "files s' = (files s)(f \<mapsto> fl')" "dirs s' = dirs s" "free_map_file s' = free_map_file s"
proof -
  obtain ino where ino: "files s f = Some fl" "f \<noteq> 0" "0 \<le> f_pos fl" "inodes s (f_inode fl) = Some ino" "i_sector ino = n"
      "n \<notin> system_sectors" "n \<in> live s" "i_deny_write_cnt ino = int (denies F (f_inode fl))"
    by (rule file_inode [OF assms(1-3)]) (use assms(4) in auto)
  let ?o = "nat (f_pos fl)"
  have pos: "0 \<le> f_pos fl + int k" using ino(3) by simp
  show ?thesis
  proof (cases "denies F (f_inode fl) = 0")
    case True
    then have d0: "i_deny_write_cnt ino = 0" and k: "k = min cnt (length (content s n) - ?o)" using ino(8) assms(6) by simp_all
    obtain s1 where s1: "inode_write_at s (f_inode fl) buf (int cnt) (int ?o) = Some (int k, s1)" "inv F G X s1" "writes s s1"
        "names s1 = names s" "content s1 n = overlay (content s n) ?o (take k buf)"
        "\<forall>m\<in>live s. m \<noteq> n \<longrightarrow> content s1 m = content s m" "live s1 = live s"
      by (rule file_write_data [OF assms(1) ino(4,5,7,6) d0 assms(5) k])
    note W = writesD [OF s1(3)]
    show ?thesis
      by (rule that [of "s1\<lparr>files := (files s1)(f \<mapsto> fl')\<rparr>"])
        (use ino s1 W inv_set_file [OF s1(2) assms(2) pos] sector_of_writes [OF s1(3)] assms(7)
          in \<open>simp_all add: file_write_def set_pos_def\<close>)
  next
    case False
    then have "inode_write_at s (f_inode fl) buf (int cnt) (f_pos fl) = Some (0, s)" "k = 0"
      using ino(4,8) assms(6) by (simp_all add: inode_write_at_def)
    then show ?thesis
      using that [of "s\<lparr>files := (files s)(f \<mapsto> fl')\<rparr>"] ino(1,3) inv_set_file [OF assms(1,2) pos] assms(7)
      by (simp add: file_write_def set_pos_def)
  qed
qed

lemma file_seek_ok:
  assumes "inv F G X s" "F f = Some fl" "f \<noteq> free_map_file s" "0 \<le> pos"
  shows "file_seek s f pos = Some (s\<lparr>files := (files s)(f \<mapsto> fl\<lparr>f_pos := pos\<rparr>)\<rparr>)"
    "inv (F(f \<mapsto> fl\<lparr>f_pos := pos\<rparr>)) G X (s\<lparr>files := (files s)(f \<mapsto> fl\<lparr>f_pos := pos\<rparr>)\<rparr>)"
    "file_tell s f = Some (f_pos fl)"
proof -
  obtain "files s f = Some fl" "f \<noteq> 0" by (rule file_inode [OF assms(1-3)])
  then show "file_seek s f pos = Some (s\<lparr>files := (files s)(f \<mapsto> fl\<lparr>f_pos := pos\<rparr>)\<rparr>)" "file_tell s f = Some (f_pos fl)"
    using assms(4) by (simp_all add: file_seek_def file_tell_def set_pos_def)
  show "inv (F(f \<mapsto> fl\<lparr>f_pos := pos\<rparr>)) G X (s\<lparr>files := (files s)(f \<mapsto> fl\<lparr>f_pos := pos\<rparr>)\<rparr>)"
    by (rule inv_set_file [OF assms(1,2,4)])
qed


section \<open>Denying writes\<close>

text \<open>A file's record changes, its inode stays: what happens to the counters.\<close>

lemma counts_set_file:
  assumes "inv F G X s" "F f = Some fl" "f_inode fl' = f_inode fl"
  shows "refs (F(f \<mapsto> fl')) G q = refs F G q"
    "int (denies (F(f \<mapsto> fl')) q) = int (denies F q) + (if q = f_inode fl then of_bool (f_deny_write fl') - of_bool (f_deny_write fl) else 0)"
proof -
  have eq: "(F(f := None))(f \<mapsto> fl') = F(f \<mapsto> fl')" and n: "(F(f := None)) f = None" by simp_all
  have fin: "finite {x. \<exists>y. (F(f := None)) x = Some y \<and> P y}" for P
    by (rule finite_subset [OF _ owner_sets_finite(1) [OF assms(1), of P]]) auto
  show "refs (F(f \<mapsto> fl')) G q = refs F G q"
    using card_owner_add [of "F(f := None)" f "\<lambda>r. f_inode r = q" fl', OF n fin]
      card_owner_del [of F f fl "\<lambda>r. f_inode r = q", OF assms(2) owner_sets_finite(1) [OF assms(1)]] assms(3)
    unfolding refs_def eq by (simp del: fun_upd_apply)
  show "int (denies (F(f \<mapsto> fl')) q) = int (denies F q) + (if q = f_inode fl then of_bool (f_deny_write fl') - of_bool (f_deny_write fl) else 0)"
    using card_owner_add [of "F(f := None)" f "\<lambda>r. f_inode r = q \<and> f_deny_write r" fl', OF n fin]
      card_owner_del [of F f fl "\<lambda>r. f_inode r = q \<and> f_deny_write r", OF assms(2) owner_sets_finite(1) [OF assms(1)]] assms(3)
    unfolding denies_def eq by (auto simp del: fun_upd_apply)
qed

lemma denies_le_refs: "inv F G X s \<Longrightarrow> denies F p \<le> refs F G p"
  unfolding denies_def refs_def by (rule trans_le_add1, rule card_mono [OF owner_sets_finite(1)]) auto

lemma inv_set_deny:
  assumes "inv F G X s" "F f = Some fl" "f \<noteq> free_map_file s" "inodes s (f_inode fl) = Some ino" "fl' = fl\<lparr>f_deny_write := b\<rparr>"
    "ino' = ino\<lparr>i_deny_write_cnt := i_deny_write_cnt ino + (of_bool b - of_bool (f_deny_write fl))\<rparr>"
    "s' = s\<lparr>files := (files s)(f \<mapsto> fl'), inodes := (inodes s)(f_inode fl \<mapsto> ino')\<rparr>"
  shows "inv (F(f \<mapsto> fl')) G X s'" "names s' = names s" "content s' = content s" "live s' = live s" "sector_of s' = sector_of s"
proof -
  note I = invD [OF assms(1)]
  let ?F = "F(f \<mapsto> fl')" and ?p = "f_inode fl"
  have same: "f_inode fl' = f_inode fl" using assms(5) by simp
  show C: "content s' = content s" by (simp add: fun_eq_iff content_def assms(7))
  then show N: "names s' = names s" by (simp add: names_def)
  show so: "sector_of s' = sector_of s" using assms(4,6,7) by (auto simp: fun_eq_iff sector_of_def)
  have "marks s' = marks s" using assms(4,6,7) by (auto simp: fun_eq_iff marks_def)
  then show L: "live s' = live s" by (simp add: live_def removed_open_def N)
  have ok: "open_ok ?F G X s' q i" if q: "inodes s' q = Some i" for q i
  proof (cases "q = ?p")
    case True
    then have "i = ino'" using q assms(7) by simp
    then show ?thesis
      using True inv_openD(1) [OF I(8) assms(4)] counts_set_file [OF assms(1,2) same, of q] N assms(5-7)
      unfolding open_ok_def by (simp split: if_splits)
  next
    case False
    then have "inodes s q = Some i" using q assms(7) by simp
    from inv_openD(1) [OF I(8) this] show ?thesis
      using False counts_set_file [OF assms(1,2) same, of q] N assms(7) unfolding open_ok_def by (simp split: if_splits)
  qed
  have dom: "dom (inodes s') = dom (inodes s)" using assms(4,7) by auto
  have "\<forall>q. inodes s' q = None \<longrightarrow> X q = 0" using I(8) dom unfolding inv_open_def by (metis domIff)
  then have "inv_open ?F G X s'" using I(8) ok dom so unfolding inv_open_def by (simp add: assms(7))
  moreover have "inv_files ?F G s'"
  proof -
    have "file_ok s' g gl" if "?F g = Some gl" for g gl
    proof -
      have "file_ok s f fl" "g \<noteq> f \<Longrightarrow> file_ok s g gl" using I(9) that assms(2) by (auto simp: inv_files_def)
      then show ?thesis using that assms(3,5,7) so by (cases "g = f") (auto simp: file_ok_def)
    qed
    moreover have "files s f = Some fl" using I(11) assms(2) by (metis domI map_le_def)
    ultimately show ?thesis
      using I(9) so unfolding inv_files_def pointers_ok_def by (auto simp: assms(7) map_le_def)
  qed
  moreover have "inv_map ?F s'" using I(10) C by (auto simp: inv_map_def assms(7))
  moreover have "inv_dir s'" using I(6) C N by (simp add: inv_dir_def assms(7))
  moreover have "inv_disk s'" using I(7) L by (simp add: inv_disk_def assms(7))
  moreover have "mem_ok s'" using I(1) by (simp add: mem_ok_def assms(7))
  ultimately show "inv ?F G X s'" by (simp add: inv_def)
qed

text \<open>Both operations leave everything else as it is.\<close>

lemma file_set_deny_ok:
  assumes "inv F G X s" "F f = Some fl" "f \<noteq> free_map_file s" "fl' = fl\<lparr>f_deny_write := b\<rparr>"
  obtains s' where "(if b then file_deny_write s f else file_allow_write s f) = Some s'" "inv (F(f \<mapsto> fl')) G X s'"
    "names s' = names s" "content s' = content s" "live s' = live s" "sector_of s' = sector_of s"
    "files s' = (files s)(f \<mapsto> fl')" "dirs s' = dirs s" "free_map_file s' = free_map_file s"
proof -
  obtain ino where ino: "files s f = Some fl" "f \<noteq> 0" "inodes s (f_inode fl) = Some ino"
      "i_deny_write_cnt ino = int (denies F (f_inode fl))"
    by (rule file_inode [OF assms(1-3)])
  show ?thesis
  proof (cases "f_deny_write fl = b")
    case True
    then have "fl' = fl" using assms(4) by simp
    then have "F(f \<mapsto> fl') = F" "files s = (files s)(f \<mapsto> fl')" using assms(2) ino(1) by auto
    then show ?thesis using that [of s] True ino(1,2) assms(1) by (simp add: file_deny_write_def file_allow_write_def)
  next
    case False
    let ?ino = "ino\<lparr>i_deny_write_cnt := i_deny_write_cnt ino + (of_bool b - of_bool (f_deny_write fl))\<rparr>"
    let ?s = "s\<lparr>files := (files s)(f \<mapsto> fl'), inodes := (inodes s)(f_inode fl \<mapsto> ?ino)\<rparr>"
    note i = inv_set_deny [OF assms(1-3) ino(3) assms(4) refl refl]
    have i': "inodes ?s (f_inode fl) = Some ?ino" by simp
    have o: "open_ok F G X s (f_inode fl) ino" "open_ok (F(f \<mapsto> fl')) G X ?s (f_inode fl) ?ino"
      using inv_openD(1) [OF invD(8) [OF assms(1)] ino(3)] inv_openD(1) [OF invD(8) [OF i(1)] i'] by simp_all
    have le: "i_deny_write_cnt ino \<le> i_open_cnt ino" "i_deny_write_cnt ?ino \<le> i_open_cnt ?ino" "0 \<le> i_deny_write_cnt ?ino"
      using denies_le_refs [OF assms(1), of "f_inode fl"] denies_le_refs [OF i(1), of "f_inode fl"] o unfolding open_ok_def by simp_all
    have "(if b then file_deny_write s f else file_allow_write s f) = Some ?s"
      using False ino le assms(4)
      by (cases b) (simp_all add: file_deny_write_def file_allow_write_def inode_deny_write_def inode_allow_write_def)
    then show ?thesis using that [OF _ i] by simp
  qed
qed

section \<open>Opening again and closing\<close>

lemma file_reopen_ok:
  assumes "inv F G X s" "F f = Some fl" "f \<noteq> free_map_file s"
  obtains g gl s' where "file_reopen s f = Some (g, s')" "g \<noteq> 0" "g \<notin> dom (files s)" "gl = \<lparr>f_inode = f_inode fl, f_pos = 0, f_deny_write = False\<rparr>"
    "inv (F(g \<mapsto> gl)) G X s'" "names s' = names s" "\<forall>m\<in>live s'. m \<notin> system_sectors \<longrightarrow> content s' m = content s m" "live s' = live s"
    "sector_of s' = sector_of s" "files s' = (files s)(g \<mapsto> gl)" "dirs s' = dirs s" "free_map_file s' = free_map_file s"
proof -
  obtain ino n where ino: "files s f = Some fl" "f \<noteq> 0" "inodes s (f_inode fl) = Some ino"
      "sector_of s (f_inode fl) = Some n" "n \<notin> system_sectors"
    by (rule file_inode [OF assms(1-3)])
  let ?p = "f_inode fl" and ?X = "X(f_inode fl := X (f_inode fl) + 1)"
  have p0: "?p \<noteq> 0" using inv_openD(4) [OF invD(8) [OF assms(1)] ino(3)] .
  obtain s1 where s1: "inode_reopen s ?p = Some (?p, s1)" "inv F G ?X s1" "keeps_data s s1" "sector_of s1 = sector_of s" "live s1 = live s"
    by (rule reopen_ok [OF assms(1) ino(3)])
  obtain g s2 where s2: "malloc s1 = (g, s2)" "g \<noteq> 0" "reads s1 s2" "g \<notin> dom (files s1)" "g \<notin> dom (dirs s1)" "g < next_ptr s2"
    by (rule malloc_ok [OF s1(2)])
  note R = readsD [OF s2(3)] and D = same_diskD [OF reads_same_disk [OF s2(3)]]
  let ?gl = "\<lparr>f_inode = ?p, f_pos = 0, f_deny_write = False\<rparr>"
  have "inv (F(g \<mapsto> ?gl)) G (?X(?p := ?X ?p - 1)) (s2\<lparr>files := (files s2)(g \<mapsto> ?gl)\<rparr>)"
    by (rule inv_add_file [OF inv_reads [OF s2(3) s1(2)] _ _ ino(5)]) (use ino(4) s1(4) s2 R sector_of_reads [OF s2(3)] in simp_all)
  then have i: "inv (F(g \<mapsto> ?gl)) G X (s2\<lparr>files := (files s2)(g \<mapsto> ?gl)\<rparr>)" by simp
  show ?thesis
    by (rule that [OF _ s2(2) _ refl i])
      (use ino(1) s1 s2 p0 R D live_reads [OF s2(3)] sector_of_reads [OF s2(3)]
        in \<open>auto simp: file_reopen_def file_open_def keeps_data_def system_sectors_def\<close>)
qed

lemma file_close_ok:
  assumes "inv F G X s" "F f = Some fl" "f \<noteq> free_map_file s"
  obtains s' where "file_close s f = Some s'" "inv (F(f := None)) G X s'" "names s' = names s"
    "\<forall>m\<in>live s'. m \<notin> system_sectors \<longrightarrow> content s' m = content s m" "live s' \<subseteq> live s"
    "files s' = (files s)(f := None)" "dirs s' = dirs s" "free_map_file s' = free_map_file s" "files_kept (F(f := None)) s s'"
proof -
  have "f \<noteq> 0" by (rule file_inode [OF assms])
  let ?fl = "fl\<lparr>f_deny_write := False\<rparr>" and ?p = "f_inode fl" and ?X = "X(f_inode fl := X (f_inode fl) + 1)"
  obtain s1 where s1: "(if False then file_deny_write s f else file_allow_write s f) = Some s1" "inv (F(f \<mapsto> ?fl)) G X s1"
    "names s1 = names s" "content s1 = content s" "live s1 = live s" "sector_of s1 = sector_of s"
    "files s1 = (files s)(f \<mapsto> ?fl)" "dirs s1 = dirs s" "free_map_file s1 = free_map_file s"
    by (rule file_set_deny_ok [OF assms refl])
  have "inv ((F(f \<mapsto> ?fl))(f := None)) G (X(f_inode ?fl := X (f_inode ?fl) + 1)) s1"
    by (rule inv_del_file [OF s1(2)]) (use assms(3) s1(9) in simp_all)
  then have i: "inv (F(f := None)) G ?X s1" by simp
  have pos: "0 < ?X ?p" by simp
  obtain s2 where s2: "inode_close s1 ?p = Some s2" "inv (F(f := None)) G (?X(?p := ?X ?p - 1)) s2" "keeps_data s1 s2"
      "\<forall>q m. 0 < refs (F(f := None)) G q + (?X(?p := ?X ?p - 1)) q \<longrightarrow> sector_of s1 q = Some m \<longrightarrow> sector_of s2 q = Some m"
    by (rule inode_close_ok [OF i pos])
  have i2: "inv (F(f := None)) G X s2" using s2(2) by simp
  have n: "(F(f := None)) f = None" by simp
  have k: "files_kept (F(f := None)) s s2"
    using files_kept_close [OF i s2(4)] s1(6) by (simp add: files_kept_def)
  show ?thesis
  proof (rule that [OF _ inv_free_file [OF i2 n]])
    show "file_close s f = Some (s2\<lparr>files := (files s2)(f := None)\<rparr>)"
      using \<open>f \<noteq> 0\<close> s1(1,7) s2(1) by (simp add: file_close_def)
    show "files_kept (F(f := None)) s (s2\<lparr>files := (files s2)(f := None)\<rparr>)" using k by (simp add: files_kept_def)
  qed (use s1 s2(3) in \<open>auto simp: keeps_data_def system_sectors_def\<close>)
qed

end
