(* ===== verification/FS_Mount.thy ===== *)
theory FS_Mount
  imports FS_Handles
begin

text \<open>
  Starting the file system: \<open>filesys_init\<close> and \<open>filesys_done\<close> of \<^verbatim>\<open>filesys/filesys.c\<close> with \<open>free_map_init\<close>,
  \<open>free_map_open\<close>, \<open>free_map_create\<close> and \<open>do_format\<close>. Formatting a device leaves a consistent, empty
  file system on it, and opening a consistent device establishes the invariant with the names and
  contents that are on it.
\<close>

section \<open>A consistent device\<close>

definition disk_names :: "block \<Rightarrow> bytes \<Rightarrow> nat option" where
  "disk_names b = dir_map 16 (inode_bytes b (dinode b ROOT_DIR_SECTOR))"

definition disk_inv :: "block \<Rightarrow> bool" where
  "disk_inv b \<longleftrightarrow> sectors_ok b \<and> id_length (dinode b ROOT_DIR_SECTOR) = 320 \<and>
     dir_wf 16 (inode_bytes b (dinode b ROOT_DIR_SECTOR)) \<and>
     system_sectors \<inter> ran (disk_names b) = {} \<and> inj_on (disk_names b) (dom (disk_names b)) \<and>
     (\<exists>fm. bitmap_wf fm \<and> bit_cnt fm = b_size b \<and> inode_bytes b (dinode b FREE_MAP_SECTOR) = bits_bytes (bits fm) \<and>
        disk_ok b (bits_set fm) (system_sectors \<union> ran (disk_names b)))"

text \<open>The device is consistent after every operation, whatever is still open.\<close>

lemma inv_disk_inv:
  assumes "inv F G X s"
  shows "disk_inv (fs_device s)"
proof -
  note I = invD [OF assms]
  have n: "disk_names (fs_device s) = names s" by (simp add: disk_names_def names_def content_def)
  obtain fm where fm: "same_shape (free_map s) fm" "bits_set fm = bits_set (free_map s)" "content s FREE_MAP_SECTOR = bits_bytes (bits fm)"
    using I(10) by (auto simp: inv_map_def map_image_def)
  have "disk_ok (fs_device s) (bits_set fm) (system_sectors \<union> ran (names s))"
    using fm(2) by (intro disk_ok_mono [OF I(5)]) (auto simp: live_def)
  moreover have "bitmap_wf fm" "bit_cnt fm = b_size (fs_device s)" using same_shape_keeps [OF fm(1) I(3)] I(4) by simp_all
  ultimately show ?thesis using I(2,6) fm(3) unfolding disk_inv_def n inv_dir_def content_def by blast
qed

lemma bytes_bits_bytes [simp]: "bytes_bits (bits_bytes ws) = ws"
proof (induction ws)
  case (Cons w ws)
  have "length xs = 4 \<Longrightarrow> \<exists>a b c d. xs = [a, b, c, d]" for xs :: bytes
    by (cases xs rule: bytes_bits.cases) auto
  then obtain a b c d where q: "le_bytes 4 (unat w) = [a, b, c, d]" using length_le_bytes by blast
  have "unat w < 2 ^ LENGTH(32)" by (rule unsigned_less)
  then have "of_le (le_bytes 4 (unat w)) = unat w" by (simp add: of_le_le_bytes)
  then have "of_nat (of_le [a, b, c, d]) = w" by (simp add: q)
  then show ?case using Cons by (simp add: bits_bytes_def q)
qed (simp add: bits_bytes_def)

text \<open>Clearing what lies past the last bit of a map.\<close>

lemma round_up: "(n::nat) mod 32 \<noteq> 0 \<Longrightarrow> (n + 31) div 32 = n div 32 + 1"
proof -
  assume "n mod 32 \<noteq> 0"
  moreover have "n mod 32 < 32" by simp
  ultimately have "(n mod 32 + 31) div 32 = 1" by (intro div_nat_eqI) (simp_all add: Suc_le_eq)
  moreover have "(n + 31) div 32 = n div 32 + (n mod 32 + 31) div 32" using div_add1_eq [of n 31 32] by simp
  ultimately show ?thesis by simp
qed

lemma last_mask_bit: "0 < bit_cnt b \<Longrightarrow> i < bit_cnt b \<Longrightarrow> elem_idx i = elem_cnt (bit_cnt b) - 1 \<Longrightarrow> bit (last_mask b) (i mod ELEM_BITS)"
proof -
  assume n: "0 < bit_cnt b" "i < bit_cnt b" "elem_idx i = elem_cnt (bit_cnt b) - 1"
  have r: "i mod 32 < 32" by simp
  show ?thesis
  proof (cases "bit_cnt b mod 32 = 0")
    case True
    then show ?thesis using r by (simp add: last_mask_def ELEM_BITS_def)
  next
    case False
    have "elem_cnt (bit_cnt b) = bit_cnt b div 32 + 1"
      using round_up [OF False] by (simp add: elem_cnt_def DIV_ROUND_UP_def ELEM_BITS_def)
    then have "i div 32 = bit_cnt b div 32" using n(3) by (simp add: elem_idx_def ELEM_BITS_def)
    then have "i mod 32 < bit_cnt b mod 32" using n(2) div_mult_mod_eq [of i 32] div_mult_mod_eq [of "bit_cnt b" 32] by linarith
    moreover have "push_bit k 1 - 1 = (mask k :: u32)" for k by (simp add: mask_eq_exp_minus_1 push_bit_eq_mult)
    ultimately show ?thesis using r by (simp add: last_mask_def ELEM_BITS_def bit_simps)
  qed
qed

lemma bits_set_masked:
  assumes "bitmap_wf b" "0 < bit_cnt b" "l = elem_cnt (bit_cnt b) - 1" "b' = b\<lparr>bits := (bits b)[l := bits b ! l AND last_mask b]\<rparr>"
  shows "bits_set b' = bits_set b" "same_shape b b'"
proof -
  have "bit_at b' i = bit_at b i" if i: "i < bit_cnt b" for i
    using last_mask_bit [OF assms(2) i] elem_idx_less [OF i] assms
    by (cases "elem_idx i = l") (auto simp: bit_at_def bitmap_wf_def bit_simps)
  then show "bits_set b' = bits_set b" using assms(4) by (auto simp: bits_set_def)
  show "same_shape b b'" using assms(4) by (simp add: same_shape_def)
qed

section \<open>The free map in memory\<close>

lemma mark_bits_set:
  assumes "bitmap_wf b" "i < bit_cnt b"
  obtains b' where "bitmap_mark b i = Some b'" "same_shape b b'" "bits_set b' = insert i (bits_set b)"
proof -
  have "i + 1 \<le> bit_cnt b" using assms(2) by simp
  from bits_set_multiple [OF assms(1) this, of True] obtain b' where
    b': "bitmap_set_multiple b i 1 True = Some b'" "same_shape b b'" "bits_set b' = bits_set b \<union> span (i, 1)" by auto
  have "bitmap_mark b i = Some b'"
    using b'(1) assms(2) by (auto simp: bitmap_set_multiple_def bitmap_set_def split: Option.bind_splits if_splits)
  moreover have "bits_set b' = insert i (bits_set b)" unfolding b'(3) by (auto simp: span_def)
  ultimately show ?thesis using that b'(2) by blast
qed

lemma bitmap_create_clear:
  assumes "length ws = elem_cnt n" "n < 2 ^ 31"
  obtains b where "bitmap_create True True ws n = Some (Some b)" "bitmap_wf b" "bit_cnt b = n" "bits_set b = {}"
  by (rule bitmap_create_in_buf_clear [OF assms order_refl]) (auto simp: bitmap_create_in_buf_def bitmap_create_def)

text \<open>The memory of a kernel that has just started.\<close>

definition at_boot :: "fs \<Rightarrow> bool" where
  "at_boot s \<longleftrightarrow> mem_ok s \<and> inodes s = Map.empty \<and> files s = Map.empty \<and> dirs s = Map.empty \<and> free_map_file s = 0"

lemma free_map_init_ok:
  assumes "mem_ok s" "2 \<le> b_size (fs_device s)" "b_size (fs_device s) < 2 ^ 31" "length junk = elem_cnt (b_size (fs_device s))"
  obtains fm where "free_map_init s junk = Some (s\<lparr>next_ptr := next_ptr s + 2, free_map := fm\<rparr>)" "bitmap_wf fm"
    "bit_cnt fm = b_size (fs_device s)" "bits_set fm = system_sectors"
proof -
  let ?n = "b_size (fs_device s)"
  obtain b where b: "bitmap_create True True junk ?n = Some (Some b)" "bitmap_wf b" "bit_cnt b = ?n" "bits_set b = {}"
    by (rule bitmap_create_clear [OF assms(4,3)])
  have "FREE_MAP_SECTOR < bit_cnt b" using b(3) assms(2) by (simp add: FREE_MAP_SECTOR_def)
  from mark_bits_set [OF b(2) this] obtain b1 where
    b1: "bitmap_mark b FREE_MAP_SECTOR = Some b1" "same_shape b b1" "bits_set b1 = {FREE_MAP_SECTOR}" by (metis b(4))
  note w1 = same_shape_keeps [OF b1(2) b(2)]
  have "ROOT_DIR_SECTOR < bit_cnt b1" using w1 b(3) assms(2) by (simp add: ROOT_DIR_SECTOR_def)
  from mark_bits_set [OF conjunct1 [OF w1] this] obtain b2 where
    b2: "bitmap_mark b1 ROOT_DIR_SECTOR = Some b2" "same_shape b1 b2" "bits_set b2 = {ROOT_DIR_SECTOR, FREE_MAP_SECTOR}" by (metis b1(3))
  have w2: "bitmap_wf b2" "bit_cnt b2 = ?n" using same_shape_keeps [OF b2(2) conjunct1 [OF w1]] w1 b(3) by simp_all
  have "malloc s = (next_ptr s, s\<lparr>next_ptr := next_ptr s + 1\<rparr>)" "next_ptr s \<noteq> 0"
    "malloc (s\<lparr>next_ptr := next_ptr s + 1\<rparr>) = (next_ptr s + 1, s\<lparr>next_ptr := next_ptr s + 2\<rparr>)"
    using assms(1) by (simp_all add: malloc_def mem_ok_def)
  then have "free_map_init s junk = Some (s\<lparr>next_ptr := next_ptr s + 2, free_map := b2\<rparr>)"
    using b(1) b1(1) b2(1) by (simp add: free_map_init_def block_size_def)
  then show ?thesis using that w2 b2(3) by (auto simp: system_sectors_def)
qed


section \<open>Opening a consistent device\<close>

lemma disk_inv_read_cnt [simp]: "disk_inv (b\<lparr>read_cnt := r\<rparr>) = disk_inv b"
  "disk_names (b\<lparr>read_cnt := r\<rparr>) = disk_names b"
  by (simp_all add: disk_inv_def disk_names_def sectors_ok_def dinode_def inode_bytes_def disk_def)

text \<open>The state after the file of the free map has been opened: one inode and one file.\<close>

definition mounted :: "block \<Rightarrow> nat \<Rightarrow> nat \<Rightarrow> fs \<Rightarrow> bool" where
  "mounted b p f s \<longleftrightarrow> mem_ok s \<and> disk_names (fs_device s) = disk_names b \<and> same_disk s (s\<lparr>fs_device := b\<rparr>) \<and>
     inodes s = [p \<mapsto> \<lparr>i_sector = FREE_MAP_SECTOR, i_open_cnt = 1, i_removed = False, i_deny_write_cnt = 0,
                     i_data = dinode b FREE_MAP_SECTOR\<rparr>] \<and>
     open_inodes s = [p] \<and> files s = [f \<mapsto> \<lparr>f_inode = p, f_pos = 0, f_deny_write = False\<rparr>] \<and> dirs s = Map.empty \<and>
     free_map_file s = f \<and> p \<noteq> 0 \<and> p < next_ptr s \<and> f \<noteq> 0 \<and> f < next_ptr s"

lemma mounted_inv:
  assumes "mounted b p f s" "disk_inv b" "bitmap_wf fm" "bit_cnt fm = b_size b" "map_image fm (inode_bytes b (dinode b FREE_MAP_SECTOR))"
    "disk_ok b (bits_set fm) (system_sectors \<union> ran (disk_names b))" "free_map s = fm"
  shows "fs_inv s" "names s = disk_names b" "\<And>n. content s n = inode_bytes b (dinode b n)"
proof -
  have M: "mem_ok s" "same_disk s (s\<lparr>fs_device := b\<rparr>)" "open_inodes s = [p]" "dirs s = Map.empty" "free_map_file s = f"
      "p \<noteq> 0" "p < next_ptr s" "f \<noteq> 0" "f < next_ptr s"
      "inodes s = [p \<mapsto> \<lparr>i_sector = FREE_MAP_SECTOR, i_open_cnt = 1, i_removed = False, i_deny_write_cnt = 0,
                     i_data = dinode b FREE_MAP_SECTOR\<rparr>]" "files s = [f \<mapsto> \<lparr>f_inode = p, f_pos = 0, f_deny_write = False\<rparr>]"
    using assms(1) unfolding mounted_def by simp_all
  note D = same_diskD [OF M(2)]
  have dn: "dinode (fs_device s) = dinode b" using D(1) by simp
  show c: "content s n = inode_bytes b (dinode b n)" for n
  proof -
    have "content (s\<lparr>fs_device := b\<rparr>) n = inode_bytes b (dinode b n)" by (simp add: content_def)
    then show ?thesis using D(2) by simp
  qed
  then show n: "names s = disk_names b" by (simp add: names_def disk_names_def)
  have "removed_open s = {}" using M(10) by (auto simp: removed_open_def marks_def)
  then have L: "live s = system_sectors \<union> ran (disk_names b)" by (simp add: live_def n)
  have B: "b_size (fs_device s) = b_size b" "sectors_ok (fs_device s)" "disk_ok (fs_device s) = disk_ok b"
    using D assms(2) by (simp_all add: disk_inv_def)
  have "refs (files s) (dirs s) p = 1" "denies (files s) p = 0"
    using M(4,11) by (simp_all add: refs_def denies_def)
  then have "inv_open (files s) (dirs s) (\<lambda>_. 0) s"
    unfolding inv_open_def using M(3,6,7,10) dn by (auto simp: open_ok_def system_sectors_def)
  moreover have "inv_files (files s) (dirs s) s"
    unfolding inv_files_def using M by (auto simp: file_ok_def pointers_ok_def sector_of_def)
  moreover have "inv_map (files s) s" unfolding inv_map_def using M(5,11) assms(5,7) c by simp
  moreover have "inv_disk s" unfolding inv_disk_def using assms(3,4,6,7) B L by simp
  moreover have "inv_dir s" using assms(2) unfolding inv_dir_def disk_inv_def by (simp add: c n dn)
  ultimately show "fs_inv s" using M(1) by (simp add: fs_inv_def inv_def)
qed

text \<open>Reading a map from its file: the bits read replace those in memory.\<close>

lemma bitmap_read_ok:
  assumes "files s f = Some fl" "inodes s (f_inode fl) = Some ino" "sectors_ok (fs_device s)" "inode_fits (fs_device s) (i_data ino)"
    "mem_ok s" "inode_bytes (fs_device s) (i_data ino) = bits_bytes (bits fm)" "bitmap_wf fm" "bitmap_wf b" "bit_cnt b = bit_cnt fm" "0 < bit_cnt fm"
  obtains s' fm' where "bitmap_read s b f = Some (True, fm', s')" "reads s s'" "bits_set fm' = bits_set fm" "same_shape fm fm'"
proof -
  let ?n = "byte_cnt (bit_cnt b)"
  have len: "length (bits_bytes (bits fm)) = ?n" "length (bits b) = length (bits fm)"
    using assms(7-9) by (simp_all add: bitmap_wf_def byte_cnt_def)
  have "length (inode_bytes (fs_device s) (i_data ino)) = nat (id_length (i_data ino))" using assms(3,4) by simp
  then have full: "left (i_data ino) ?n 0 = length (bits_bytes (bits fm))" using len(1) assms(6) by (simp add: left_def)
  obtain s' where s': "inode_read_at s (f_inode fl) (int ?n) 0 = Some (bits_bytes (bits fm), s')" "reads s s'"
    using inode_read_at_ok [OF assms(2-4), of ?n 0] assms(5,6) full by (auto simp: chunk_def)
  define l where "l = elem_cnt (bit_cnt fm) - 1"
  define fm' where "fm' = fm\<lparr>bits := (bits fm)[l := bits fm ! l AND last_mask fm]\<rparr>"
  note m = bits_set_masked [OF assms(7,10) l_def fm'_def]
  have mask: "last_mask b = last_mask fm" using assms(9) by (simp add: last_mask_def)
  have ov: "overlay (bits_bytes (bits b)) 0 (bits_bytes (bits fm)) = bits_bytes (bits fm)" using len(2) by (simp add: overlay_def)
  have bm: "b\<lparr>bits := (bits fm)[l := bits fm ! l AND last_mask fm]\<rparr> = fm'"
    unfolding fm'_def by (rule bitmap.equality) (use assms(9) in simp_all)
  have "bitmap_read s b f = Some (True, fm', s')"
    using assms(1,9,10) s'(1) len(1) ov mask bm by (simp add: bitmap_read_def file_read_at_def Let_def l_def)
  then show ?thesis using that s'(2) m by blast
qed

lemma free_map_open_ok:
  assumes "disk_inv (fs_device s)" "mem_ok s" "inodes s = Map.empty" "open_inodes s = []" "files s = Map.empty" "dirs s = Map.empty"
    "bitmap_wf (free_map s)" "bit_cnt (free_map s) = b_size (fs_device s)"
  obtains s' where "free_map_open s = Some s'" "fs_inv s'" "names s' = disk_names (fs_device s)"
    "content s' = (\<lambda>n. inode_bytes (fs_device s) (dinode (fs_device s) n))" "dirs s' = Map.empty" "dom (files s') = {free_map_file s'}"
    "bit_cnt (free_map s') = b_size (fs_device s)"
    "\<forall>fm. bitmap_wf fm \<longrightarrow> bit_cnt fm = b_size (fs_device s) \<longrightarrow>
       inode_bytes (fs_device s) (dinode (fs_device s) FREE_MAP_SECTOR) = bits_bytes (bits fm) \<longrightarrow> bits_set (free_map s') = bits_set fm"
proof -
  let ?b = "fs_device s" and ?p = "next_ptr s" and ?f = "next_ptr s + 1"
  let ?ino = "\<lparr>i_sector = FREE_MAP_SECTOR, i_open_cnt = 1, i_removed = False, i_deny_write_cnt = 0, i_data = dinode ?b FREE_MAP_SECTOR\<rparr>"
  let ?fl = "\<lparr>f_inode = ?p, f_pos = 0, f_deny_write = False\<rparr>"
  obtain fm where fm: "bitmap_wf fm" "bit_cnt fm = b_size ?b" "inode_bytes ?b (dinode ?b FREE_MAP_SECTOR) = bits_bytes (bits fm)"
      "disk_ok ?b (bits_set fm) (system_sectors \<union> ran (disk_names ?b))" and ok: "sectors_ok ?b"
    using assms(1) by (auto simp: disk_inv_def)
  have sys: "FREE_MAP_SECTOR \<in> system_sectors \<union> ran (disk_names ?b)" by (simp add: system_sectors_def)
  note f0 = disk_okD(1,2) [OF fm(4) sys]
  have p0: "?p \<noteq> 0" "\<not> oom s q" for q using assms(2) by (auto simp: mem_ok_def)
  let ?s1 = "s\<lparr>fs_device := ?b\<lparr>read_cnt := read_cnt ?b + 1\<rparr>, next_ptr := ?f, open_inodes := [?p], inodes := [?p \<mapsto> ?ino]\<rparr>"
  have o: "inode_open s FREE_MAP_SECTOR = Some (?p, ?s1)"
    using p0 f0(1) assms(3,4) by (simp add: inode_open_def malloc_def fs_read_def block_read_def check_sector_def dinode_def)
  let ?s2 = "?s1\<lparr>next_ptr := ?f + 1, files := [?f \<mapsto> ?fl], free_map_file := ?f\<rparr>"
  have fo: "file_open ?s1 ?p = Some (?f, ?s1\<lparr>next_ptr := ?f + 1, files := [?f \<mapsto> ?fl]\<rparr>)"
    using p0 assms(5) by (simp add: file_open_def malloc_def)
  have i2: "files ?s2 ?f = Some ?fl" "inodes ?s2 (f_inode ?fl) = Some ?ino" "sectors_ok (fs_device ?s2)"
      "inode_fits (fs_device ?s2) (i_data ?ino)" "mem_ok ?s2"
    using ok f0(2) p0 by (simp_all add: sectors_ok_def inode_fits_def mem_ok_def)
  have ib: "inode_bytes (fs_device ?s2) (i_data ?ino) = bits_bytes (bits fm)" using fm(3) by (simp add: inode_bytes_def disk_def)
  have cnt: "bit_cnt (free_map s) = bit_cnt fm" "0 < bit_cnt fm" using f0(1) fm(2) assms(8) by simp_all
  obtain s3 fm' where s3: "bitmap_read ?s2 (free_map s) ?f = Some (True, fm', s3)" "reads ?s2 s3" "bits_set fm' = bits_set fm" "same_shape fm fm'"
    by (rule bitmap_read_ok [OF i2 ib fm(1) assms(7) cnt])
  let ?s = "s3\<lparr>free_map := fm'\<rparr>"
  have op: "free_map_open s = Some ?s" using o fo s3(1) by (simp add: free_map_open_def)
  note R = readsD [OF s3(2)]
  have mt: "mounted ?b ?p ?f ?s"
    using R assms(2,6) p0 reads_same_disk [OF s3(2)] mem_ok_reads [OF s3(2)] unfolding mounted_def same_disk_def
    by (simp add: mem_ok_def disk_names_def dinode_def inode_bytes_def)
  have w: "bitmap_wf fm'" "bit_cnt fm' = b_size ?b" using same_shape_keeps [OF s3(4) fm(1)] fm(2) by simp_all
  have im: "map_image fm' (inode_bytes ?b (dinode ?b FREE_MAP_SECTOR))"
    unfolding map_image_def using s3(3,4) fm(3) by (intro exI [of _ fm]) (simp add: same_shape_def)
  have du: "disk_ok ?b (bits_set fm') (system_sectors \<union> ran (disk_names ?b))" using fm(4) s3(3) by simp
  have fr: "free_map ?s = fm'" by simp
  note F = mounted_inv [OF mt assms(1) w im du fr]
  have u: "bits_set (free_map ?s) = bits_set fm2" if "bit_cnt fm2 = b_size ?b" "inode_bytes ?b (dinode ?b FREE_MAP_SECTOR) = bits_bytes (bits fm2)" for fm2
  proof -
    have "bits fm2 = bits fm" using that(2) fm(3) by (metis bytes_bits_bytes)
    then show ?thesis using that(1) fm(2) s3(3) by (simp add: bits_set_def bit_at_def)
  qed
  show ?thesis by (rule that [OF op F(1,2)]) (use R ext [OF F(3)] assms(6) w(2) u in simp_all)
qed

lemma filesys_init_ok:
  assumes "block_by_role ds BLOCK_FILESYS = Some i" "i < length (all_blocks ds)" "disk_inv (all_blocks ds ! i)" "at_boot s"
    "length junk = elem_cnt (b_size (all_blocks ds ! i))"
  obtains s' where "filesys_init ds s False junk = Some s'" "fs_inv s'" "names s' = disk_names (all_blocks ds ! i)"
    "content s' = (\<lambda>n. inode_bytes (all_blocks ds ! i) (dinode (all_blocks ds ! i) n))" "dirs s' = Map.empty" "dom (files s') = {free_map_file s'}"
proof -
  let ?b = "all_blocks ds ! i"
  let ?s = "inode_init (s\<lparr>fs_device := ?b\<rparr>)"
  obtain fm where fm: "bitmap_wf fm" "bit_cnt fm = b_size ?b" "disk_ok ?b (bits_set fm) (system_sectors \<union> ran (disk_names ?b))"
    using assms(3) by (auto simp: disk_inv_def)
  have "ROOT_DIR_SECTOR < b_size ?b" using disk_okD(1) [OF fm(3), of ROOT_DIR_SECTOR] by (simp add: system_sectors_def)
  then have size: "2 \<le> b_size (fs_device ?s)" "b_size (fs_device ?s) < 2 ^ 31"
    using fm(1,2) by (simp_all add: ROOT_DIR_SECTOR_def bitmap_wf_def inode_init_def)
  have mem: "mem_ok ?s" and j: "length junk = elem_cnt (b_size (fs_device ?s))"
    using assms(4,5) by (simp_all add: at_boot_def mem_ok_def inode_init_def)
  obtain m where m: "free_map_init ?s junk = Some (?s\<lparr>next_ptr := next_ptr ?s + 2, free_map := m\<rparr>)" "bitmap_wf m"
    "bit_cnt m = b_size (fs_device ?s)" "bits_set m = system_sectors"
    by (rule free_map_init_ok [OF mem size j])
  have start: "filesys_init ds s False junk = free_map_open (?s\<lparr>next_ptr := next_ptr ?s + 2, free_map := m\<rparr>)"
    using assms(1,2) m(1) by (simp add: filesys_init_def block_get_role_def is_role_def)
  show ?thesis
    by (rule free_map_open_ok [of "?s\<lparr>next_ptr := next_ptr ?s + 2, free_map := m\<rparr>"])
      (use start assms(3,4) mem m that in \<open>simp_all add: inode_init_def at_boot_def mem_ok_def\<close>)
qed

end
