(* ===== verification/FS_Format.thy ===== *)
theory FS_Format
  imports FS_Mount
begin

text \<open>
  Formatting: \<open>do_format\<close> of \<^verbatim>\<open>filesys/filesys.c\<close> with \<open>free_map_create\<close> and \<open>dir_create\<close>. On a device with
  room for the free map and the root directory it leaves a consistent device without names.
\<close>

section \<open>The file of the free map\<close>

text \<open>The state between \<open>free_map_create\<close> and \<open>free_map_close\<close>.\<close>

definition map_made :: "nat \<Rightarrow> nat \<Rightarrow> inode_disk \<Rightarrow> fs \<Rightarrow> bool" where
  "map_made p f d s \<longleftrightarrow> mem_ok s \<and> sectors_ok (fs_device s) \<and> bitmap_wf (free_map s) \<and> bit_cnt (free_map s) = b_size (fs_device s) \<and>
     inodes s = [p \<mapsto> \<lparr>i_sector = FREE_MAP_SECTOR, i_open_cnt = 1, i_removed = False, i_deny_write_cnt = 0, i_data = d\<rparr>] \<and>
     open_inodes s = [p] \<and> files s = [f \<mapsto> \<lparr>f_inode = p, f_pos = 0, f_deny_write = False\<rparr>] \<and> dirs s = Map.empty \<and>
     free_map_file s = f \<and> p \<noteq> 0 \<and> f \<noteq> 0 \<and> dinode (fs_device s) FREE_MAP_SECTOR = d \<and> inode_fits (fs_device s) d \<and>
     data_sectors d \<inter> system_sectors = {} \<and> system_sectors \<union> data_sectors d \<subseteq> bits_set (free_map s) \<and>
     4 * length (bits (free_map s)) = nat (id_length d) \<and> inode_bytes (fs_device s) d = bits_bytes (bits (free_map s))"

lemma map_madeD:
  assumes "map_made p f d s"
  shows "mem_ok s" "sectors_ok (fs_device s)" "bitmap_wf (free_map s)" "bit_cnt (free_map s) = b_size (fs_device s)"
    "inodes s = [p \<mapsto> \<lparr>i_sector = FREE_MAP_SECTOR, i_open_cnt = 1, i_removed = False, i_deny_write_cnt = 0, i_data = d\<rparr>]"
    "open_inodes s = [p]" "files s = [f \<mapsto> \<lparr>f_inode = p, f_pos = 0, f_deny_write = False\<rparr>]" "dirs s = Map.empty"
    "free_map_file s = f" "p \<noteq> 0" "f \<noteq> 0" "dinode (fs_device s) FREE_MAP_SECTOR = d" "inode_fits (fs_device s) d"
    "data_sectors d \<inter> system_sectors = {}" "system_sectors \<union> data_sectors d \<subseteq> bits_set (free_map s)"
    "4 * length (bits (free_map s)) = nat (id_length d)" "inode_bytes (fs_device s) d = bits_bytes (bits (free_map s))"
  using assms unfolding map_made_def by simp_all

text \<open>A map with a free run gives it away.\<close>

lemma scan_succeeds:
  assumes "bitmap_wf b" "is_group b k cnt False"
  obtains i b' where "bitmap_scan_and_flip b 0 cnt False = Some (i, b')" "i \<noteq> BITMAP_ERROR" "same_shape b b'"
    "i + cnt \<le> bit_cnt b" "bits_set b \<inter> span (i, cnt) = {}" "bits_set b' = bits_set b \<union> span (i, cnt)"
    "i \<le> k"
  using scan_and_flip_result [OF assms(1) le0, of cnt] assms(2) by (metis le0 not_le)

lemma write_open_map:
  assumes "files s f = Some \<lparr>f_inode = p, f_pos = 0, f_deny_write = False\<rparr>"
    "inodes s p = Some \<lparr>i_sector = FREE_MAP_SECTOR, i_open_cnt = 1, i_removed = False, i_deny_write_cnt = 0, i_data = d\<rparr>"
    "sectors_ok (fs_device s)" "inode_fits (fs_device s) d" "mem_ok s" "bitmap_wf fm" "4 * length (bits fm) = nat (id_length d)"
  obtains s' where "bitmap_write s fm f = Some (True, s')" "writes s s'"
    "changed_only (data_sectors d) (fs_device s) (fs_device s')" "inode_bytes (fs_device s') d = bits_bytes (bits fm)"
proof -
  have i: "inodes s (f_inode \<lparr>f_inode = p, f_pos = 0, f_deny_write = False\<rparr>) =
      Some \<lparr>i_sector = FREE_MAP_SECTOR, i_open_cnt = 1, i_removed = False, i_deny_write_cnt = 0, i_data = d\<rparr>"
    using assms(2) by simp
  show ?thesis
    using bitmap_write_at [OF assms(1) i _ assms(3) _ assms(5,6)] assms(4,7) that by auto
qed

lemma map_size:
  assumes "n < 2 ^ 31"
  shows "0 \<le> int (byte_cnt n)" "int (byte_cnt n) < 2 ^ 31 - 511"
  using assms by (simp_all add: byte_cnt_def elem_cnt_def DIV_ROUND_UP_def ELEM_BITS_def)

lemma map_file_made:
  assumes "mem_ok s" "sectors_ok (fs_device s)" "free_map_file s = 0" "bitmap_wf (free_map s)" "bit_cnt (free_map s) = b_size (fs_device s)"
    "bits_set (free_map s) = system_sectors" "c = bytes_to_sectors (int (byte_cnt (b_size (fs_device s))))" "2 + c \<le> b_size (fs_device s)"
  obtains d fm s' where "inode_create s FREE_MAP_SECTOR (int (bitmap_file_size (free_map s))) = Some (True, s')"
    "writes (s\<lparr>free_map := fm\<rparr>) s'" "bitmap_wf fm" "bit_cnt fm = b_size (fs_device s)" "same_shape (free_map s) fm"
    "bits_set fm = system_sectors \<union> span (2, c)" "dinode (fs_device s') FREE_MAP_SECTOR = d" "inode_fits (fs_device s') d"
    "data_sectors d = span (2, c)" "system_sectors \<inter> span (2, c) = {}" "id_length d = int (byte_cnt (b_size (fs_device s)))"
proof -
  let ?n = "b_size (fs_device s)" and ?len = "int (byte_cnt (b_size (fs_device s)))"
  have bnd: "?n < 2 ^ 31" using assms(4,5) by (simp add: bitmap_wf_def)
  have "j < 2" if "j < bit_cnt (free_map s)" "bit_at (free_map s) j" for j
  proof -
    have "j \<in> bits_set (free_map s)" using that by (simp add: bits_set_def)
    then show ?thesis unfolding assms(6) system_sectors_def FREE_MAP_SECTOR_def ROOT_DIR_SECTOR_def by auto
  qed
  then have "is_group (free_map s) 2 c False" using assms(5,8) unfolding is_group_def by (metis leD order_less_le_trans)
  from scan_succeeds [OF assms(4) this] obtain i fm where
    fm: "bitmap_scan_and_flip (free_map s) 0 c False = Some (i, fm)" "i \<noteq> BITMAP_ERROR" "same_shape (free_map s) fm"
      "i + c \<le> bit_cnt (free_map s)" "bits_set (free_map s) \<inter> span (i, c) = {}" "bits_set fm = bits_set (free_map s) \<union> span (i, c)" "i \<le> 2" .
  have "0 < c" using assms(8) map_size [OF bnd] unfolding assms(7)
    by (simp add: bytes_to_sectors_eq byte_cnt_def elem_cnt_def DIV_ROUND_UP_def ELEM_BITS_def)
  then have "i \<in> span (i, c)" by (simp add: span_def)
  then have i: "i = 2" using fm(5,7) unfolding assms(6) system_sectors_def FREE_MAP_SECTOR_def ROOT_DIR_SECTOR_def
    by (cases "i = 0 \<or> i = 1") auto
  let ?s0 = "s\<lparr>next_ptr := next_ptr s + 1\<rparr>" and ?d = "\<lparr>id_start = i, id_length = ?len, id_magic = INODE_MAGIC, id_unused = replicate 500 0\<rparr>"
  let ?s1 = "s\<lparr>next_ptr := next_ptr s + 1, free_map := fm\<rparr>"
  have m: "malloc s = (next_ptr s, ?s0)" "next_ptr s \<noteq> 0" using assms(1) by (auto simp: malloc_def mem_ok_def)
  have al: "free_map_allocate ?s0 c = Some (Some i, ?s1)" using fm(1,2) assms(3) by (simp add: free_map_allocate_def Let_def)
  have n0: "FREE_MAP_SECTOR < b_size (fs_device ?s1)" "FREE_MAP_SECTOR \<notin> span (i, c)" "i + c \<le> b_size (fs_device ?s1)"
    using assms(5,6,8) fm(4,5) by (auto simp: system_sectors_def FREE_MAP_SECTOR_def)
  obtain s2 s3 where s3: "fs_write ?s1 FREE_MAP_SECTOR (enc_inode ?d) = Some s2" "zero_sectors c s2 i = Some s3" "writes ?s1 s3"
    "dinode (fs_device s3) FREE_MAP_SECTOR = ?d" "inode_fits (fs_device s3) ?d" "data_sectors ?d = span (i, c)"
    by (rule make_inode [of ?s1 FREE_MAP_SECTOR i c ?len ?d, OF _ n0(1,3,2) assms(7) map_size [OF bnd] _ refl])
      (use assms(2) bnd in simp_all)
  have cr: "inode_create s FREE_MAP_SECTOR (int (bitmap_file_size (free_map s))) = Some (True, s3)"
    using m al s3(1,2) assms(5,7) by (simp add: inode_create_def Let_def bitmap_file_size_def)
  have w: "writes (s\<lparr>free_map := fm\<rparr>) s3"
  proof (rule writes_trans [OF _ s3(3)])
    show "writes (s\<lparr>free_map := fm\<rparr>) ?s1"
      unfolding writes_def using assms(2) by (intro exI [of _ "fs_device s"] exI [of _ "next_ptr s + 1"]) simp
  qed
  show ?thesis
    by (rule that [OF cr w _ _ fm(3) _ s3(4,5)])
      (use same_shape_keeps [OF fm(3) assms(4)] assms(5,6) fm(5,6) s3(6) i in simp_all)
qed

lemma free_map_create_ok:
  assumes "mem_ok s" "sectors_ok (fs_device s)" "free_map_file s = 0" "bitmap_wf (free_map s)" "bit_cnt (free_map s) = b_size (fs_device s)"
    "bits_set (free_map s) = system_sectors" "c = bytes_to_sectors (int (byte_cnt (b_size (fs_device s))))" "2 + c \<le> b_size (fs_device s)"
    "inodes s = Map.empty" "open_inodes s = []" "files s = Map.empty" "dirs s = Map.empty"
  obtains p f d s' where "free_map_create s = Some s'" "map_made p f d s'" "bits_set (free_map s') = system_sectors \<union> span (2, c)"
    "b_size (fs_device s') = b_size (fs_device s)"
proof -
  obtain d fm s1 where s1: "inode_create s FREE_MAP_SECTOR (int (bitmap_file_size (free_map s))) = Some (True, s1)"
    "writes (s\<lparr>free_map := fm\<rparr>) s1" "bitmap_wf fm" "bit_cnt fm = b_size (fs_device s)" "same_shape (free_map s) fm"
    "bits_set fm = system_sectors \<union> span (2, c)" "dinode (fs_device s1) FREE_MAP_SECTOR = d" "inode_fits (fs_device s1) d"
    "data_sectors d = span (2, c)" "system_sectors \<inter> span (2, c) = {}" "id_length d = int (byte_cnt (b_size (fs_device s)))"
    by (rule map_file_made [OF assms(1-8)])
  note W = writesD [OF s1(2), simplified]
  have mem1: "mem_ok s1" using mem_ok_writes [OF s1(2)] assms(1) by (simp add: mem_ok_def)
  let ?p = "next_ptr s1" and ?f = "next_ptr s1 + 1" and ?b = "fs_device s1"
  let ?ino = "\<lparr>i_sector = FREE_MAP_SECTOR, i_open_cnt = 1, i_removed = False, i_deny_write_cnt = 0, i_data = d\<rparr>"
  let ?fl = "\<lparr>f_inode = ?p, f_pos = 0, f_deny_write = False\<rparr>"
  let ?s2 = "s1\<lparr>fs_device := ?b\<lparr>read_cnt := read_cnt ?b + 1\<rparr>, next_ptr := ?f, open_inodes := [?p], inodes := [?p \<mapsto> ?ino]\<rparr>"
  let ?s3 = "?s2\<lparr>next_ptr := ?f + 1, files := [?f \<mapsto> ?fl], free_map_file := ?f\<rparr>"
  have p0: "?p \<noteq> 0" "\<And>q. \<not> oom s1 q" using mem1 by (auto simp: mem_ok_def)
  have z: "FREE_MAP_SECTOR < b_size ?b" using assms(8) W(2) by (simp add: FREE_MAP_SECTOR_def)
  have o: "inode_open s1 FREE_MAP_SECTOR = Some (?p, ?s2)"
    using p0 z assms(9,10) W s1(7)
    by (simp add: inode_open_def malloc_def fs_read_def block_read_def check_sector_def dinode_def)
  have fo: "file_open ?s2 ?p = Some (?f, ?s2\<lparr>next_ptr := ?f + 1, files := [?f \<mapsto> ?fl]\<rparr>)"
    using p0 assms(11) W by (simp add: file_open_def malloc_def)
  have len: "4 * length (bits fm) = nat (id_length d)"
    using s1(3,4,11) by (simp add: bitmap_wf_def byte_cnt_def)
  obtain s4 where s4: "bitmap_write ?s3 fm ?f = Some (True, s4)" "writes ?s3 s4"
      "changed_only (data_sectors d) (fs_device ?s3) (fs_device s4)" "inode_bytes (fs_device s4) d = bits_bytes (bits fm)"
    by (rule write_open_map [of ?s3 ?f ?p d fm])
      (use W(1) s1(3,8) len p0 in \<open>simp_all add: sectors_ok_def inode_fits_def mem_ok_def\<close>)
  note V = writesD [OF s4(2), simplified]
  have fm1: "free_map ?s3 = fm" using W by simp
  have cr: "free_map_create s = Some s4"
    using s1(1) o fo s4(1) fm1 by (simp add: free_map_create_def)
  have d4: "dinode (fs_device s4) FREE_MAP_SECTOR = d"
    using s4(3) z s1(7,9,10) by (auto simp: changed_only_def dinode_def system_sectors_def)
  have fit4: "inode_fits (fs_device s4) d" using V(2) s1(8) by (simp add: inode_fits_def)
  have mem4: "mem_ok s4" using mem_ok_writes [OF s4(2)] p0 by (simp add: mem_ok_def)
  have mm: "map_made ?p ?f d s4"
    unfolding map_made_def
    using mem4 V W p0 s1(3,4,6,9,10) fm1 d4 fit4 len s4(4) assms(12) by auto
  show ?thesis by (rule that [OF cr mm]) (use V W s1(6) fm1 in simp_all)
qed


section \<open>The root directory\<close>

lemma span_one: "span (j, 1) = {j}"
  by (auto simp: span_def)

lemma map_made_frame:
  assumes "map_made p f d s" "writes (s\<lparr>free_map := fm\<rparr>) s'" "same_shape (free_map s) fm" "bits_set (free_map s) \<subseteq> bits_set fm"
    "changed_only W (fs_device s) (fs_device s')" "FREE_MAP_SECTOR \<notin> W" "inode_bytes (fs_device s') d = bits_bytes (bits fm)"
  shows "map_made p f d s'"
proof -
  note M = map_madeD [OF assms(1)] and V = writesD [OF assms(2), simplified]
  have "FREE_MAP_SECTOR \<in> bits_set (free_map s)" using M(15) by (auto simp: system_sectors_def)
  then have "FREE_MAP_SECTOR < b_size (fs_device s)" using M(4) by (simp add: bits_set_def)
  then have "dinode (fs_device s') FREE_MAP_SECTOR = d" using M(12) assms(5,6) by (simp add: changed_only_def dinode_def)
  moreover have "mem_ok s'" using mem_ok_writes [OF assms(2)] M(1) by (simp add: mem_ok_def)
  moreover have "inode_fits (fs_device s') d" using M(13) V(2) by (simp add: inode_fits_def)
  moreover have "length (bits fm) = length (bits (free_map s))" using assms(3) by (simp add: same_shape_def)
  ultimately show ?thesis
    unfolding map_made_def using same_shape_keeps [OF assms(3) M(3)] M V assms(4,7) by auto
qed

text \<open>The map gives a sector and its file is written again.\<close>

lemma map_made_allocate:
  assumes "map_made p f d s" "bits_set (free_map s) = {..<j}" "j < b_size (fs_device s)"
  obtains s' where "free_map_allocate s 1 = Some (Some j, s')" "map_made p f d s'" "bits_set (free_map s') = insert j (bits_set (free_map s))" "b_size (fs_device s') = b_size (fs_device s)"
proof -
  note M = map_madeD [OF assms(1)]
  have "is_group (free_map s) j 1 False" using M(4) assms(2,3) unfolding is_group_span span_one by auto
  from scan_succeeds [OF M(3) this] obtain i fm where
    fm: "bitmap_scan_and_flip (free_map s) 0 1 False = Some (i, fm)" "i \<noteq> BITMAP_ERROR" "same_shape (free_map s) fm"
      "i + 1 \<le> bit_cnt (free_map s)" "bits_set (free_map s) \<inter> span (i, 1) = {}" "bits_set fm = bits_set (free_map s) \<union> span (i, 1)" "i \<le> j" .
  have i: "i = j" using fm(5,7) unfolding assms(2) span_one by auto
  let ?s = "s\<lparr>free_map := fm\<rparr>"
  have len: "4 * length (bits fm) = nat (id_length d)" using M(16) fm(3) by (simp add: same_shape_def)
  obtain s' where s': "bitmap_write ?s fm f = Some (True, s')" "writes ?s s'"
      "changed_only (data_sectors d) (fs_device ?s) (fs_device s')" "inode_bytes (fs_device s') d = bits_bytes (bits fm)"
    by (rule write_open_map [of ?s f p d fm])
      (use M(1,2,5,7,13) len same_shape_keeps [OF fm(3) M(3)] in \<open>simp_all add: mem_ok_def\<close>)
  have out: "FREE_MAP_SECTOR \<notin> data_sectors d" using M(14) by (auto simp: system_sectors_def)
  have ch: "changed_only (data_sectors d) (fs_device s) (fs_device s')" using s'(3) by simp
  have sub: "bits_set (free_map s) \<subseteq> bits_set fm" using fm(6) by blast
  note mm = map_made_frame [OF assms(1) s'(2) fm(3) sub ch out s'(4)]
  have "free_map_allocate s 1 = Some (Some j, s')"
    using fm(1,2) s'(1) M(9,11) i by (simp add: free_map_allocate_def Let_def)
  then show ?thesis
    using that [OF _ mm] fm(4-6) M(4) writesD [OF s'(2), simplified] i unfolding span_one by simp
qed

lemma root_made:
  assumes "map_made p f d s" "bits_set (free_map s) = {..<j}" "j < b_size (fs_device s)"
  obtains d1 s' where "dir_create s ROOT_DIR_SECTOR 16 = Some (True, s')" "map_made p f d s'" "dinode (fs_device s') ROOT_DIR_SECTOR = d1"
    "inode_fits (fs_device s') d1" "id_length d1 = 320" "data_sectors d1 \<subseteq> bits_set (free_map s')"
    "data_sectors d1 \<inter> (system_sectors \<union> data_sectors d) = {}" "content s' ROOT_DIR_SECTOR = replicate 320 0"
    "bits_set (free_map s') = {..<Suc j}" "b_size (fs_device s') = b_size (fs_device s)"
proof -
  let ?s0 = "s\<lparr>next_ptr := next_ptr s + 1\<rparr>"
  note M = map_madeD [OF assms(1)]
  have m: "malloc s = (next_ptr s, ?s0)" "next_ptr s \<noteq> 0" using M(1) by (auto simp: malloc_def mem_ok_def)
  have m0: "map_made p f d ?s0" using assms(1) by (simp add: map_made_def mem_ok_def)
  have one: "bytes_to_sectors 320 = 1" by (simp add: bytes_to_sectors_eq)
  obtain s1 where s1: "free_map_allocate ?s0 1 = Some (Some j, s1)" "map_made p f d s1"
    "bits_set (free_map s1) = insert j (bits_set (free_map s))" "b_size (fs_device s1) = b_size (fs_device s)"
    by (rule map_made_allocate [OF m0, of j]) (use assms(2,3) in simp_all)
  have jn: "j \<notin> bits_set (free_map s)" using assms(2) by simp
  note M1 = map_madeD [OF s1(2)]
  let ?d = "\<lparr>id_start = j, id_length = 320, id_magic = INODE_MAGIC, id_unused = replicate 500 0\<rparr>"
  have root: "ROOT_DIR_SECTOR \<in> bits_set (free_map s)" using M(15) by (auto simp: system_sectors_def)
  then have n: "ROOT_DIR_SECTOR < b_size (fs_device s1)" "ROOT_DIR_SECTOR \<notin> span (j, 1)" "j + 1 \<le> b_size (fs_device s1)"
    using M(4) jn s1(4) assms(3) unfolding span_one by (auto simp: bits_set_def)
  have bnd: "b_size (fs_device s1) < 2 ^ 31" using M1(3,4) by (simp add: bitmap_wf_def)
  obtain s2 s3 where s3: "fs_write s1 ROOT_DIR_SECTOR (enc_inode ?d) = Some s2" "zero_sectors 1 s2 j = Some s3" "writes s1 s3"
    "changed_only (insert ROOT_DIR_SECTOR (span (j, 1))) (fs_device s1) (fs_device s3)"
    "dinode (fs_device s3) ROOT_DIR_SECTOR = ?d" "inode_fits (fs_device s3) ?d" "content s3 ROOT_DIR_SECTOR = replicate (nat 320) 0"
    "data_sectors ?d = span (j, 1)"
    by (rule make_inode [OF M1(2) n(1,3,2) one [symmetric] _ _ bnd refl]) simp_all
  have cr: "dir_create s ROOT_DIR_SECTOR 16 = Some (True, s3)"
    using m s1(1) s3(1,2) one by (simp add: dir_create_def DIR_ENTRY_SIZE_def wrap32_id s32_id s32_range_def inode_create_def Let_def)
  let ?W = "insert ROOT_DIR_SECTOR (span (j, 1))"
  have out: "FREE_MAP_SECTOR \<notin> ?W" "data_sectors d \<inter> ?W = {}"
    using M(14,15) jn unfolding span_one by (auto simp: system_sectors_def)
  have "inode_bytes (fs_device s3) d = bits_bytes (bits (free_map s1))"
    using bytes_unchanged [OF M1(2) writesD(1) [OF s3(3)] s3(4) M1(13) out(2)] M1(17) by simp
  moreover have "writes (s1\<lparr>free_map := free_map s1\<rparr>) s3" "same_shape (free_map s1) (free_map s1)" using s3(3) by (simp_all add: same_shape_def)
  ultimately have mm: "map_made p f d s3" by (intro map_made_frame [OF s1(2) _ _ order_refl s3(4) out(1)])
  show ?thesis
    by (rule that [OF cr mm s3(5,6)])
      (use s3(7) s3(8) [unfolded span_one] jn s1(3,4) assms(2) M(15) writesD(2,8) [OF s3(3)] in auto)
qed

lemma zero_dir:
  shows "dir_map 16 (replicate 320 0) = Map.empty" "dir_wf 16 (replicate 320 0)"
proof -
  have "\<not> de_in_use (slot_in (replicate 320 0) i)" if "i < 16" for i
  proof -
    have "chunk (replicate 320 (0::u8)) (20 * i) 20 = replicate 20 0" using that by (simp add: chunk_def)
    then show ?thesis by (simp add: slot_in_def dec_entry_def DIR_ENTRY_SIZE_def)
  qed
  then have h: "\<not> holds (replicate 320 0) name i" "\<not> de_in_use (slot_in (replicate 320 0) i)" if "i < 16" for name i
    using that by (auto simp: holds_def)
  show "dir_map 16 (replicate 320 0) = Map.empty" using h(1) by (intro ext) (simp add: dir_map_None)
  show "dir_wf 16 (replicate 320 0)" unfolding dir_wf_def using h by (auto simp: DIR_ENTRY_SIZE_def)
qed


section \<open>Formatting\<close>

text \<open>The two inodes are all there is on the new device.\<close>

lemma made_disk_inv:
  assumes "map_made p f d s" "dinode (fs_device s) ROOT_DIR_SECTOR = d1" "inode_fits (fs_device s) d1" "id_length d1 = 320"
    "data_sectors d1 \<subseteq> bits_set (free_map s)" "data_sectors d1 \<inter> (system_sectors \<union> data_sectors d) = {}"
    "content s ROOT_DIR_SECTOR = replicate 320 0"
  shows "disk_inv (fs_device s)" "disk_names (fs_device s) = Map.empty"
proof -
  note M = map_madeD [OF assms(1)]
  have b: "inode_bytes (fs_device s) (dinode (fs_device s) ROOT_DIR_SECTOR) = replicate 320 0" using assms(7) by (simp add: content_def)
  show n: "disk_names (fs_device s) = Map.empty" unfolding disk_names_def b by (rule zero_dir)
  have lt: "m < b_size (fs_device s)" if "m \<in> system_sectors" for m using that M(4,15) by (auto simp: bits_set_def)
  have "disk_ok (fs_device s) (bits_set (free_map s)) {FREE_MAP_SECTOR, ROOT_DIR_SECTOR}"
    using M(12-15) assms(2,3,5,6) lt by (auto simp: disk_ok_def inode_ok_def extent_def system_sectors_def)
  moreover have "system_sectors \<union> ran (Map.empty :: bytes \<Rightarrow> nat option) = {FREE_MAP_SECTOR, ROOT_DIR_SECTOR}"
    by (simp add: system_sectors_def)
  ultimately show "disk_inv (fs_device s)"
    unfolding disk_inv_def n b using M(2-4,12,17) assms(2,4) zero_dir(2) by auto
qed

lemma free_map_close_ok:
  assumes "map_made p f d s"
  shows "free_map_close s = Some (s\<lparr>inodes := Map.empty, open_inodes := [], files := Map.empty\<rparr>)"
proof -
  note M = map_madeD [OF assms]
  have "[f \<mapsto> fl](f := None) = Map.empty" "[p \<mapsto> ino, p \<mapsto> ino'](p := None) = Map.empty" for fl :: ofile and ino ino' :: inode
    by (simp_all add: fun_eq_iff)
  then show ?thesis
    using M(5-7,9-11) by (simp add: free_map_close_def file_close_def file_allow_write_def inode_close_def Let_def fun_eq_iff)
qed

lemma do_format_ok:
  assumes "mem_ok s" "sectors_ok (fs_device s)" "free_map_file s = 0" "bitmap_wf (free_map s)" "bit_cnt (free_map s) = b_size (fs_device s)"
    "bits_set (free_map s) = system_sectors" "c = bytes_to_sectors (int (byte_cnt (b_size (fs_device s))))" "3 + c \<le> b_size (fs_device s)"
    "inodes s = Map.empty" "open_inodes s = []" "files s = Map.empty" "dirs s = Map.empty"
  obtains s' where "do_format s = Some s'" "disk_inv (fs_device s')" "disk_names (fs_device s') = Map.empty" "mem_ok s'"
    "inodes s' = Map.empty" "open_inodes s' = []" "files s' = Map.empty" "dirs s' = Map.empty" "bitmap_wf (free_map s')"
    "bit_cnt (free_map s') = b_size (fs_device s')" "bits_set (free_map s') = {..<3 + c}" "b_size (fs_device s') = b_size (fs_device s)"
    "inode_bytes (fs_device s') (dinode (fs_device s') FREE_MAP_SECTOR) = bits_bytes (bits (free_map s'))"
proof -
  have c2: "2 + c \<le> b_size (fs_device s)" using assms(8) by simp
  obtain p f d s1 where s1: "free_map_create s = Some s1" "map_made p f d s1" "bits_set (free_map s1) = system_sectors \<union> span (2, c)"
      "b_size (fs_device s1) = b_size (fs_device s)"
    by (rule free_map_create_ok [OF assms(1-7) c2 assms(9-12)])
  have "system_sectors \<union> span (2, c) = {..<2 + c}"
    by (auto simp: system_sectors_def FREE_MAP_SECTOR_def ROOT_DIR_SECTOR_def span_def)
  then have "bits_set (free_map s1) = {..<2 + c}" "2 + c < b_size (fs_device s1)" using assms(8) s1(3,4) by simp_all
  from root_made [OF s1(2) this] obtain d1 s2 where
    s2: "dir_create s1 ROOT_DIR_SECTOR 16 = Some (True, s2)" "map_made p f d s2" "dinode (fs_device s2) ROOT_DIR_SECTOR = d1"
    "inode_fits (fs_device s2) d1" "id_length d1 = 320" "data_sectors d1 \<subseteq> bits_set (free_map s2)"
    "data_sectors d1 \<inter> (system_sectors \<union> data_sectors d) = {}" "content s2 ROOT_DIR_SECTOR = replicate 320 0"
    "bits_set (free_map s2) = {..<Suc (2 + c)}" "b_size (fs_device s2) = b_size (fs_device s1)" .
  note D = made_disk_inv [OF s2(2-8)] and M = map_madeD [OF s2(2)]
  let ?s = "s2\<lparr>inodes := Map.empty, open_inodes := [], files := Map.empty\<rparr>"
  have "do_format s = Some ?s" using s1(1) s2(1) free_map_close_ok [OF s2(2)] by (simp add: do_format_def)
  then show ?thesis by (rule that) (use D M s1(4) s2(9,10) in \<open>simp_all add: mem_ok_def\<close>)
qed

lemma filesys_format_ok:
  assumes "block_by_role ds BLOCK_FILESYS = Some i" "i < length (all_blocks ds)" "b = all_blocks ds ! i" "sectors_ok b" "b_size b < 2 ^ 31"
    "3 + bytes_to_sectors (int (byte_cnt (b_size b))) \<le> b_size b" "at_boot s" "length junk = elem_cnt (b_size b)"
  obtains s' where "filesys_init ds s True junk = Some s'" "fs_inv s'" "names s' = Map.empty" "dirs s' = Map.empty" "dom (files s') = {free_map_file s'}"
    "bit_cnt (free_map s') = b_size b" "bits_set (free_map s') = {..<3 + bytes_to_sectors (int (byte_cnt (b_size b)))}"
proof -
  let ?s = "inode_init (s\<lparr>fs_device := b\<rparr>)"
  have B: "fs_device ?s = b" "mem_ok ?s" "free_map_file ?s = 0" "inodes ?s = Map.empty" "open_inodes ?s = []" "files ?s = Map.empty" "dirs ?s = Map.empty"
    using assms(7) by (simp_all add: at_boot_def mem_ok_def inode_init_def)
  have size: "2 \<le> b_size (fs_device ?s)" "b_size (fs_device ?s) < 2 ^ 31" "length junk = elem_cnt (b_size (fs_device ?s))"
    using assms(5,6,8) B(1) by simp_all
  obtain m where m: "free_map_init ?s junk = Some (?s\<lparr>next_ptr := next_ptr ?s + 2, free_map := m\<rparr>)" "bitmap_wf m"
    "bit_cnt m = b_size (fs_device ?s)" "bits_set m = system_sectors"
    by (rule free_map_init_ok [OF B(2) size])
  let ?s1 = "?s\<lparr>next_ptr := next_ptr ?s + 2, free_map := m\<rparr>"
  obtain s2 where s2: "do_format ?s1 = Some s2" "disk_inv (fs_device s2)" "disk_names (fs_device s2) = Map.empty" "mem_ok s2"
    "inodes s2 = Map.empty" "open_inodes s2 = []" "files s2 = Map.empty" "dirs s2 = Map.empty" "bitmap_wf (free_map s2)"
    "bit_cnt (free_map s2) = b_size (fs_device s2)" "bits_set (free_map s2) = {..<3 + bytes_to_sectors (int (byte_cnt (b_size b)))}"
    "b_size (fs_device s2) = b_size b" "inode_bytes (fs_device s2) (dinode (fs_device s2) FREE_MAP_SECTOR) = bits_bytes (bits (free_map s2))"
    by (rule do_format_ok [of ?s1, OF _ _ _ _ _ _ refl]) (use B m assms(4,6) in \<open>simp_all add: mem_ok_def\<close>)
  obtain s3 where s3: "free_map_open s2 = Some s3" "fs_inv s3" "names s3 = disk_names (fs_device s2)" "dirs s3 = Map.empty"
      "dom (files s3) = {free_map_file s3}" "bit_cnt (free_map s3) = b_size (fs_device s2)"
      "\<forall>fm. bitmap_wf fm \<longrightarrow> bit_cnt fm = b_size (fs_device s2) \<longrightarrow>
         inode_bytes (fs_device s2) (dinode (fs_device s2) FREE_MAP_SECTOR) = bits_bytes (bits fm) \<longrightarrow> bits_set (free_map s3) = bits_set fm"
    by (rule free_map_open_ok [OF s2(2,4-10)])
  have "filesys_init ds s True junk = Some s3"
    using assms(1-3) m(1) s2(1) s3(1) by (simp add: filesys_init_def block_get_role_def is_role_def)
  moreover have "bits_set (free_map s3) = bits_set (free_map s2)" using s3(7) s2(9,10,13) by blast
  ultimately show ?thesis using that s3(1-6) s2(3,11,12) by simp
qed

text \<open>Shutting down writes nothing: the device is as the last operation left it.\<close>

lemma filesys_done_ok:
  assumes "fs_inv s"
  obtains s' where "filesys_done s = Some s'" "fs_device s' = fs_device s"
proof -
  have i: "inv (files s) (dirs s) (\<lambda>_. 0) s" using assms by (simp add: fs_inv_def)
  note I = invD [OF i]
  obtain fl ino where f: "files s (free_map_file s) = Some fl" "inodes s (f_inode fl) = Some ino" "i_sector ino = FREE_MAP_SECTOR" "free_map_file s \<noteq> 0"
    using map_inode [OF i] by blast
  have ok: "file_ok s g gl" if "files s g = Some gl" for g gl using I(9) that by (simp add: inv_files_def)
  have nd: "\<not> f_deny_write fl" using ok [OF f(1)] by (simp add: file_ok_def)
  have "g = free_map_file s" if "files s g = Some gl" "f_inode gl = f_inode fl" for g gl
    using ok [OF that(1)] that(2) f(2,3) by (auto simp: file_ok_def sector_of_def system_sectors_def split: if_splits)
  then have A: "{g. \<exists>gl. files s g = Some gl \<and> f_inode gl = f_inode fl} = {free_map_file s}" using f(1) by blast
  have B: "{g. \<exists>gl. dirs s g = Some gl \<and> d_inode gl = f_inode fl} = {}"
  proof -
    have "sector_of s (d_inode dr) = Some ROOT_DIR_SECTOR" if "dirs s x = Some dr" for x dr using I(9) that by (simp add: inv_files_def)
    then show ?thesis using f(2,3) by (fastforce simp: sector_of_def)
  qed
  have "refs (files s) (dirs s) (f_inode fl) = 1" unfolding refs_def A B by simp
  then have c: "i_open_cnt ino = 1" "\<not> i_removed ino" "f_inode fl \<noteq> 0"
    using inv_openD(1) [OF I(8) f(2)] f(3) by (auto simp: open_ok_def system_sectors_def split: if_splits)
  show ?thesis
    using that f nd c by (simp add: filesys_done_def free_map_close_def file_close_def file_allow_write_def inode_close_def Let_def)
qed

end
