(* ===== verification/FS_Refinement.thy ===== *)
theory FS_Refinement
  imports FS_Format
begin

text \<open>
  The file system as its callers see it. The abstract state has the names in the root directory, the
  bytes of the objects that have a name or are open, and the open files with their positions; sectors,
  inodes, the free map and directory entries are gone. \<open>spec\<close> says what each call may answer and do to
  that state, and the calls of \<^verbatim>\<open>filesys.c\<close> and \<^verbatim>\<open>file.c\<close> implement it.
\<close>

section \<open>The abstract file system\<close>

record handle =
  h_object :: nat
  h_pos :: int
  h_deny :: bool

record afs =
  a_names :: "bytes \<Rightarrow> nat option"
  a_data :: "nat \<Rightarrow> bytes option"
  a_handles :: "nat \<Rightarrow> handle option"

datatype fs_call = Create bytes int | Remove bytes | Open bytes | Close nat | Reopen nat
  | Read nat nat | Write nat bytes | Seek nat int | Tell nat | Length nat | Deny nat | Allow nat

datatype fs_reply = Flag bool | Handle nat | Bytes bytes | Number int | Nothing

definition objects :: "(bytes \<Rightarrow> nat option) \<Rightarrow> (nat \<Rightarrow> handle option) \<Rightarrow> nat set" where
  "objects N H = ran N \<union> h_object ` ran H"

text \<open>An object without a name that is not open is gone.\<close>

definition collect :: "afs \<Rightarrow> afs" where
  "collect a = a\<lparr>a_data := a_data a |` objects (a_names a) (a_handles a)\<rparr>"

definition denied :: "afs \<Rightarrow> nat \<Rightarrow> bool" where
  "denied a n \<longleftrightarrow> (\<exists>f h. a_handles a f = Some h \<and> h_object h = n \<and> h_deny h)"

definition data_of :: "afs \<Rightarrow> nat \<Rightarrow> bytes" where
  "data_of a n = (case a_data a n of None \<Rightarrow> [] | Some bs \<Rightarrow> bs)"

text \<open>The names, handles and numbers a caller may pass.\<close>

fun valid_call :: "afs \<Rightarrow> fs_call \<Rightarrow> bool" where
  "valid_call a (Create name len) \<longleftrightarrow> 0 \<notin> set name \<and> 0 \<le> len \<and> len < 2 ^ 31"
| "valid_call a (Remove name) \<longleftrightarrow> 0 \<notin> set name"
| "valid_call a (Open name) \<longleftrightarrow> 0 \<notin> set name"
| "valid_call a (Close f) \<longleftrightarrow> f \<in> dom (a_handles a)"
| "valid_call a (Reopen f) \<longleftrightarrow> f \<in> dom (a_handles a)"
| "valid_call a (Read f n) \<longleftrightarrow> f \<in> dom (a_handles a) \<and> n < 2 ^ 31"
| "valid_call a (Write f buf) \<longleftrightarrow> f \<in> dom (a_handles a) \<and> length buf < 2 ^ 31"
| "valid_call a (Seek f pos) \<longleftrightarrow> f \<in> dom (a_handles a) \<and> 0 \<le> pos \<and> pos < 2 ^ 31"
| "valid_call a (Tell f) \<longleftrightarrow> f \<in> dom (a_handles a)"
| "valid_call a (Length f) \<longleftrightarrow> f \<in> dom (a_handles a)"
| "valid_call a (Deny f) \<longleftrightarrow> f \<in> dom (a_handles a)"
| "valid_call a (Allow f) \<longleftrightarrow> f \<in> dom (a_handles a)"

text \<open>
  What a call may do. Creating a file may fail for lack of space; if it succeeds the name was free and
  the object is new. Opening a name that exists always gives a new handle.
\<close>

fun spec :: "afs \<Rightarrow> fs_call \<Rightarrow> fs_reply \<Rightarrow> afs \<Rightarrow> bool" where
  "spec a (Create name len) r a' \<longleftrightarrow> r = Flag False \<and> a' = a \<or>
     r = Flag True \<and> a_names a name = None \<and> name \<noteq> [] \<and> length name \<le> NAME_MAX \<and>
     (\<exists>n. n \<notin> dom (a_data a) \<and>
        a' = a\<lparr>a_names := (a_names a)(name \<mapsto> n), a_data := (a_data a)(n \<mapsto> replicate (nat len) 0)\<rparr>)"
| "spec a (Remove name) r a' \<longleftrightarrow> r = Flag (name \<in> dom (a_names a)) \<and>
     a' = collect (a\<lparr>a_names := (a_names a)(name := None)\<rparr>)"
| "spec a (Open name) r a' \<longleftrightarrow> (case a_names a name of
      None \<Rightarrow> r = Handle 0 \<and> a' = a
    | Some n \<Rightarrow> \<exists>f. r = Handle f \<and> f \<noteq> 0 \<and> a_handles a f = None \<and>
        a' = a\<lparr>a_handles := (a_handles a)(f \<mapsto> \<lparr>h_object = n, h_pos = 0, h_deny = False\<rparr>)\<rparr>)"
| "spec a (Close f) r a' \<longleftrightarrow> r = Nothing \<and> a' = collect (a\<lparr>a_handles := (a_handles a)(f := None)\<rparr>)"
| "spec a (Reopen f) r a' \<longleftrightarrow> (\<exists>h g. a_handles a f = Some h \<and> r = Handle g \<and> g \<noteq> 0 \<and> a_handles a g = None \<and>
     a' = a\<lparr>a_handles := (a_handles a)(g \<mapsto> \<lparr>h_object = h_object h, h_pos = 0, h_deny = False\<rparr>)\<rparr>)"
| "spec a (Read f n) r a' \<longleftrightarrow> (\<exists>h bs. a_handles a f = Some h \<and> bs = chunk (data_of a (h_object h)) (nat (h_pos h)) n \<and>
     r = Bytes bs \<and> a' = a\<lparr>a_handles := (a_handles a)(f \<mapsto> h\<lparr>h_pos := h_pos h + int (length bs)\<rparr>)\<rparr>)"
| "spec a (Write f buf) r a' \<longleftrightarrow> (\<exists>h bs k. a_handles a f = Some h \<and> bs = data_of a (h_object h) \<and>
     k = (if denied a (h_object h) then 0 else min (length buf) (length bs - nat (h_pos h))) \<and> r = Number (int k) \<and>
     a' = a\<lparr>a_handles := (a_handles a)(f \<mapsto> h\<lparr>h_pos := h_pos h + int k\<rparr>),
            a_data := (a_data a)(h_object h \<mapsto> overlay bs (nat (h_pos h)) (take k buf))\<rparr>)"
| "spec a (Seek f pos) r a' \<longleftrightarrow> (\<exists>h. a_handles a f = Some h \<and> r = Nothing \<and>
     a' = a\<lparr>a_handles := (a_handles a)(f \<mapsto> h\<lparr>h_pos := pos\<rparr>)\<rparr>)"
| "spec a (Tell f) r a' \<longleftrightarrow> (\<exists>h. a_handles a f = Some h \<and> r = Number (h_pos h) \<and> a' = a)"
| "spec a (Length f) r a' \<longleftrightarrow> (\<exists>h. a_handles a f = Some h \<and> r = Number (int (length (data_of a (h_object h)))) \<and> a' = a)"
| "spec a (Deny f) r a' \<longleftrightarrow> (\<exists>h. a_handles a f = Some h \<and> r = Nothing \<and>
     a' = a\<lparr>a_handles := (a_handles a)(f \<mapsto> h\<lparr>h_deny := True\<rparr>)\<rparr>)"
| "spec a (Allow f) r a' \<longleftrightarrow> (\<exists>h. a_handles a f = Some h \<and> r = Nothing \<and>
     a' = a\<lparr>a_handles := (a_handles a)(f \<mapsto> h\<lparr>h_deny := False\<rparr>)\<rparr>)"

section \<open>The calls and the abstraction\<close>

text \<open>\<open>junk\<close> is what the stack holds where \<open>dir_add\<close> declares its local entry.\<close>

definition fs_exec :: "bytes \<Rightarrow> fs \<Rightarrow> fs_call \<Rightarrow> (fs_reply \<times> fs) option" where
  "fs_exec junk s c = (case c of
     Create name len \<Rightarrow> map_option (map_prod Flag id) (filesys_create s name len junk)
   | Remove name \<Rightarrow> map_option (map_prod Flag id) (filesys_remove s name)
   | Open name \<Rightarrow> map_option (map_prod Handle id) (filesys_open s name)
   | Close f \<Rightarrow> map_option (Pair Nothing) (file_close s f)
   | Reopen f \<Rightarrow> map_option (map_prod Handle id) (file_reopen s f)
   | Read f n \<Rightarrow> map_option (map_prod Bytes id) (file_read s f (int n))
   | Write f buf \<Rightarrow> map_option (map_prod Number id) (file_write s f buf (int (length buf)))
   | Seek f pos \<Rightarrow> map_option (Pair Nothing) (file_seek s f pos)
   | Tell f \<Rightarrow> map_option (\<lambda>n. (Number n, s)) (file_tell s f)
   | Length f \<Rightarrow> map_option (\<lambda>n. (Number n, s)) (file_length s f)
   | Deny f \<Rightarrow> map_option (Pair Nothing) (file_deny_write s f)
   | Allow f \<Rightarrow> map_option (Pair Nothing) (file_allow_write s f))"

definition handles :: "fs \<Rightarrow> nat \<Rightarrow> handle option" where
  "handles s f = (if f = free_map_file s then None else case files s f of None \<Rightarrow> None
     | Some fl \<Rightarrow> map_option (\<lambda>n. \<lparr>h_object = n, h_pos = f_pos fl, h_deny = f_deny_write fl\<rparr>) (sector_of s (f_inode fl)))"

definition view :: "(bytes \<Rightarrow> nat option) \<Rightarrow> (nat \<Rightarrow> handle option) \<Rightarrow> (nat \<Rightarrow> bytes) \<Rightarrow> afs" where
  "view N H D = \<lparr>a_names = N, a_data = (\<lambda>n. if n \<in> objects N H then Some (D n) else None), a_handles = H\<rparr>"

definition abs_fs :: "fs \<Rightarrow> afs" where
  "abs_fs s = view (names s) (handles s) (content s)"

lemma view_sel [simp]: "a_names (view N H D) = N" "a_handles (view N H D) = H" "n \<in> objects N H \<Longrightarrow> data_of (view N H D) n = D n"
  "dom (a_data (view N H D)) = objects N H"
  by (auto simp: view_def data_of_def dom_def)

lemma view_cong: "(\<And>n. n \<in> objects N H \<Longrightarrow> D n = D' n) \<Longrightarrow> view N H D = view N H D'"
  by (auto simp: view_def fun_eq_iff)

lemma view_collect:
  "objects N' H \<subseteq> objects N H \<Longrightarrow> collect ((view N H D)\<lparr>a_names := N'\<rparr>) = view N' H D"
  "objects N H' \<subseteq> objects N H \<Longrightarrow> collect ((view N H D)\<lparr>a_handles := H'\<rparr>) = view N H' D"
  by (auto simp: collect_def view_def restrict_map_def fun_eq_iff)

lemma view_handles: "objects N H' = objects N H \<Longrightarrow> (view N H D)\<lparr>a_handles := H'\<rparr> = view N H' D"
  by (simp add: view_def)

lemma view_write:
  "objects N H' = objects N H \<Longrightarrow> n \<in> objects N H \<Longrightarrow>
   (view N H D)\<lparr>a_handles := H', a_data := (a_data (view N H D))(n \<mapsto> bs)\<rparr> = view N H' (D(n := bs))"
  by (auto simp: view_def fun_eq_iff)

lemma in_objects: "n \<in> objects N H \<longleftrightarrow> (\<exists>name. N name = Some n) \<or> (\<exists>f h. H f = Some h \<and> h_object h = n)"
  by (auto simp: objects_def ran_def)

lemma objects_set: "H f = Some h \<Longrightarrow> h_object h' = h_object h \<Longrightarrow> objects N (H(f \<mapsto> h')) = objects N H"
  unfolding set_eq_iff in_objects by (metis fun_upd_apply option.inject)

lemma objects_add:
  "H f = None \<Longrightarrow> objects N (H(f \<mapsto> h)) = insert (h_object h) (objects N H)"
  "N name = None \<Longrightarrow> objects (N(name \<mapsto> n)) H = insert n (objects N H)"
proof -
  assume "H f = None"
  then have "x \<in> objects N (H(f \<mapsto> h)) \<longleftrightarrow> x = h_object h \<or> x \<in> objects N H" for x
    unfolding in_objects by (metis fun_upd_apply option.inject option.discI)
  then show "objects N (H(f \<mapsto> h)) = insert (h_object h) (objects N H)" by auto
next
  assume "N name = None"
  then have "x \<in> objects (N(name \<mapsto> n)) H \<longleftrightarrow> x = n \<or> x \<in> objects N H" for x
    unfolding in_objects by (metis fun_upd_apply option.inject option.discI)
  then show "objects (N(name \<mapsto> n)) H = insert n (objects N H)" by auto
qed

lemma objects_del: "objects (N(name := None)) H \<subseteq> objects N H" "objects N (H(f := None)) \<subseteq> objects N H"
  unfolding subset_iff in_objects by (metis fun_upd_apply option.discI)+

section \<open>Handles\<close>

lemma handlesD:
  assumes "handles s f = Some h"
  obtains fl where "files s f = Some fl" "f \<noteq> free_map_file s" "sector_of s (f_inode fl) = Some (h_object h)"
    "h = \<lparr>h_object = h_object h, h_pos = f_pos fl, h_deny = f_deny_write fl\<rparr>"
  using assms by (auto simp: handles_def split: if_splits option.splits)

lemma handles_kept:
  "files s' = files s \<Longrightarrow> free_map_file s' = free_map_file s \<Longrightarrow> files_kept (files s) s s' \<Longrightarrow> handles s' = handles s"
  by (auto simp: handles_def fun_eq_iff files_kept_def split: option.splits)

lemma handles_upd:
  assumes "files s' = (files s)(f := m)" "free_map_file s' = free_map_file s" "f \<noteq> free_map_file s" "files_kept ((files s)(f := None)) s s'"
  shows "handles s' = (handles s)(f := (case m of None \<Rightarrow> None
    | Some fl \<Rightarrow> map_option (\<lambda>n. \<lparr>h_object = n, h_pos = f_pos fl, h_deny = f_deny_write fl\<rparr>) (sector_of s' (f_inode fl))))"
proof (rule ext)
  fix g
  show "handles s' g = ((handles s)(f := (case m of None \<Rightarrow> None
    | Some fl \<Rightarrow> map_option (\<lambda>n. \<lparr>h_object = n, h_pos = f_pos fl, h_deny = f_deny_write fl\<rparr>) (sector_of s' (f_inode fl))))) g"
  proof (cases "g = f")
    case True
    then show ?thesis using assms(1-3) by (simp add: handles_def)
  next
    case False
    have "sector_of s' (f_inode gl) = sector_of s (f_inode gl)" if "files s g = Some gl" for gl
      using assms(4) that False unfolding files_kept_def by (metis fun_upd_apply)
    then show ?thesis using False assms(1,2) by (auto simp: handles_def split: option.splits)
  qed
qed

text \<open>Objects are live inodes, and none of the two that the file system keeps for itself.\<close>

lemma objects_live:
  assumes "fs_inv s" "n \<in> objects (names s) (handles s)"
  shows "n \<in> live s" "n \<notin> system_sectors"
proof -
  have i: "inv (files s) (dirs s) (\<lambda>_. 0) s" using assms(1) by (simp add: fs_inv_def)
  have "n \<in> live s \<and> n \<notin> system_sectors"
  proof (cases "\<exists>name. names s name = Some n")
    case True
    then have "n \<in> ran (names s)" by (auto simp: ran_def)
    then show ?thesis using invD(6) [OF i] by (auto simp: live_def inv_dir_def)
  next
    case False
    then obtain f h where "handles s f = Some h" "h_object h = n" using assms(2) by (auto simp: in_objects)
    then obtain fl where fl: "files s f = Some fl" "f \<noteq> free_map_file s" "sector_of s (f_inode fl) = Some n" by (auto elim: handlesD)
    show ?thesis by (rule file_inode [OF i fl(1,2)]) (use fl(3) in auto)
  qed
  then show "n \<in> live s" "n \<notin> system_sectors" by blast+
qed

lemma denied_iff:
  assumes "fs_inv s" "files s f = Some fl" "f \<noteq> free_map_file s" "sector_of s (f_inode fl) = Some n"
  shows "denied (abs_fs s) n \<longleftrightarrow> denies (files s) (f_inode fl) \<noteq> 0"
proof -
  have i: "inv (files s) (dirs s) (\<lambda>_. 0) s" using assms(1) by (simp add: fs_inv_def)
  note I = invD [OF i]
  have same: "f_inode gl = f_inode fl" if "sector_of s (f_inode gl) = Some n" for gl
    using that assms(4) I(8) unfolding inv_open_def inj_on_def sector_of_def by (metis domI map_option_eq_Some)
  have n: "n \<notin> system_sectors" by (rule file_inode [OF i assms(2,3)]) (use assms(4) in auto)
  have "denied (abs_fs s) n \<longleftrightarrow> (\<exists>g gl. files s g = Some gl \<and> f_inode gl = f_inode fl \<and> f_deny_write gl)"
  proof
    assume "denied (abs_fs s) n"
    then obtain g h where "handles s g = Some h" "h_object h = n" "h_deny h" by (auto simp: denied_def abs_fs_def)
    then obtain gl where "files s g = Some gl" "sector_of s (f_inode gl) = Some n" "f_deny_write gl" by (metis handlesD handle.select_convs(3))
    then show "\<exists>g gl. files s g = Some gl \<and> f_inode gl = f_inode fl \<and> f_deny_write gl" using same by blast
  next
    assume "\<exists>g gl. files s g = Some gl \<and> f_inode gl = f_inode fl \<and> f_deny_write gl"
    then obtain g gl where g: "files s g = Some gl" "f_inode gl = f_inode fl" "f_deny_write gl" by blast
    have "file_ok s g gl" using I(9) g(1) by (simp add: inv_files_def)
    then have "g \<noteq> free_map_file s" using g(2) assms(4) n by (auto simp: file_ok_def system_sectors_def)
    then show "denied (abs_fs s) n" using g assms(4) by (auto simp: denied_def abs_fs_def handles_def)
  qed
  moreover have "finite {g. \<exists>gl. files s g = Some gl \<and> f_inode gl = f_inode fl \<and> f_deny_write gl}"
    using owner_sets_finite(1) [OF i, of "\<lambda>gl. f_inode gl = f_inode fl \<and> f_deny_write gl"] by simp
  ultimately show ?thesis unfolding denies_def by (auto simp: card_eq_0_iff)
qed


section \<open>Every call implements its specification\<close>

definition implements :: "bytes \<Rightarrow> fs \<Rightarrow> fs_call \<Rightarrow> bool" where
  "implements junk s c \<longleftrightarrow> (\<exists>r s'. fs_exec junk s c = Some (r, s') \<and> fs_inv s' \<and> spec (abs_fs s) c r (abs_fs s'))"

lemma fs_invD: "fs_inv s \<Longrightarrow> inv (files s) (dirs s) (\<lambda>_. 0) s"
  by (simp add: fs_inv_def)

lemma abs_same:
  assumes "fs_inv s'" "names s' = names s" "handles s' = handles s" "\<forall>m\<in>live s'. m \<notin> system_sectors \<longrightarrow> content s' m = content s m"
  shows "abs_fs s' = abs_fs s"
  unfolding abs_fs_def assms(2,3) by (rule view_cong) (use objects_live [OF assms(1)] assms(2-4) in auto)

lemma abs_unchanged:
  assumes "fs_inv s'" "unchanged (files s) s s'"
  shows "abs_fs s' = abs_fs s"
proof -
  have u: "sees s s'" "files_kept (files s) s s'" using assms(2) by (simp_all add: unchanged_def)
  then have "handles s' = handles s" by (intro handles_kept) (simp_all add: sees_def)
  then show ?thesis using u(1) by (intro abs_same [OF assms(1)]) (auto simp: sees_def system_sectors_def)
qed

lemma inv_same_tables: "inv (files s) (dirs s) X s' \<Longrightarrow> files s' = files s \<Longrightarrow> dirs s' = dirs s \<Longrightarrow> X = (\<lambda>_. 0) \<Longrightarrow> fs_inv s'"
  by (simp add: fs_inv_def)

lemma implements_create:
  assumes "fs_inv s" "valid_call (abs_fs s) (Create name len)" "length junk = 20"
  shows "implements junk s (Create name len)"
proof -
  have v: "0 \<notin> set name" "0 \<le> len" "len < 2 ^ 31" using assms(2) by simp_all
  show ?thesis
  proof (cases rule: filesys_create_ok [OF fs_invD [OF assms(1)] v(1) assms(3) v(2,3), case_names fail ok])
    case (fail s')
    have "fs_inv s'" using fail(2,3) by (intro inv_same_tables) (simp_all add: unchanged_def sees_def)
    then show ?thesis unfolding implements_def using fail(1) abs_unchanged [OF _ fail(3)]
      by (intro exI [of _ "Flag False"] exI [of _ s']) (simp add: fs_exec_def)
  next
    case (ok s' n)
    have A: "names s name = None" "name \<noteq> []" "length name \<le> NAME_MAX" "n \<notin> live s" "names s' = (names s)(name \<mapsto> n)"
      "content s' n = replicate (nat len) 0" "\<forall>m\<in>live s'. m \<noteq> n \<longrightarrow> m \<notin> system_sectors \<longrightarrow> content s' m = content s m"
      "files s' = files s" "free_map_file s' = free_map_file s" "files_kept (files s) s s'"
      using ok(3) unfolding name_added_def by simp_all
    have i: "fs_inv s'" using ok(2,4) A(8) by (intro inv_same_tables) simp_all
    have h: "handles s' = handles s" using A(8-10) by (rule handles_kept)
    let ?N = "(names s)(name \<mapsto> n)" and ?H = "handles s" and ?z = "replicate (nat len) 0"
    note ob = objects_add(2) [where N = "names s" and name = name and n = n and H = ?H, OF A(1)]
    have "abs_fs s' = view ?N ?H ((content s)(n := ?z))"
      unfolding abs_fs_def A(5) h by (rule view_cong) (use objects_live [OF i] A(5-7) h in auto)
    also have "\<dots> = (abs_fs s)\<lparr>a_names := (a_names (abs_fs s))(name \<mapsto> n), a_data := (a_data (abs_fs s))(n \<mapsto> ?z)\<rparr>"
      by (auto simp: abs_fs_def view_def ob fun_eq_iff)
    finally have "abs_fs s' = (abs_fs s)\<lparr>a_names := (a_names (abs_fs s))(name \<mapsto> n), a_data := (a_data (abs_fs s))(n \<mapsto> ?z)\<rparr>" .
    moreover have "n \<notin> dom (a_data (abs_fs s))" using objects_live(1) [OF assms(1), of n] A(4) by (auto simp: abs_fs_def)
    moreover have "a_names (abs_fs s) name = None" using A(1) by (simp add: abs_fs_def)
    ultimately show ?thesis unfolding implements_def using ok(1) i A(2,3)
      by (intro exI [of _ "Flag True"] exI [of _ s']) (auto simp: fs_exec_def)
  qed
qed

lemma implements_remove:
  assumes "fs_inv s" "valid_call (abs_fs s) (Remove name)"
  shows "implements junk s (Remove name)"
proof -
  have v: "0 \<notin> set name" using assms(2) by simp
  obtain s' where s': "filesys_remove s name = Some (names s name \<noteq> None, s')" "inv (files s) (dirs s) (\<lambda>_. 0) s'"
    "names s' = (names s)(name := None)" "files s' = files s" "dirs s' = dirs s" "free_map_file s' = free_map_file s" "live s' \<subseteq> live s"
    "\<forall>m\<in>live s'. m \<notin> system_sectors \<longrightarrow> content s' m = content s m" "files_kept (files s) s s'"
    by (rule filesys_remove_ok [OF fs_invD [OF assms(1)] v])
  have i: "fs_inv s'" using s'(2,4,5) by (intro inv_same_tables) simp_all
  have h: "handles s' = handles s" using s'(4,6,9) by (rule handles_kept)
  have "abs_fs s' = view ((names s)(name := None)) (handles s) (content s)"
    unfolding abs_fs_def s'(3) h by (rule view_cong) (use objects_live [OF i] s'(3,8) h in auto)
  also have "\<dots> = collect ((abs_fs s)\<lparr>a_names := (names s)(name := None)\<rparr>)"
    unfolding abs_fs_def using view_collect(1) [OF objects_del(1)] by simp
  finally show ?thesis unfolding implements_def using s'(1) i
    by (intro exI [of _ "Flag (names s name \<noteq> None)"] exI [of _ s']) (auto simp: fs_exec_def abs_fs_def)
qed


lemma handle_objects: "handles s f = Some h \<Longrightarrow> h_object h \<in> objects (names s) (handles s)"
  by (auto simp: in_objects)

lemma implements_open:
  assumes "fs_inv s" "valid_call (abs_fs s) (Open name)"
  shows "implements junk s (Open name)"
proof -
  have v: "0 \<notin> set name" using assms(2) by simp
  show ?thesis
  proof (cases rule: filesys_open_ok [OF fs_invD [OF assms(1)] v, case_names absent found])
    case (absent s')
    have "fs_inv s'" using absent(3,4) by (intro inv_same_tables) (simp_all add: unchanged_def sees_def)
    then show ?thesis unfolding implements_def using absent(1,2) abs_unchanged [OF _ absent(4)]
      by (intro exI [of _ "Handle 0"] exI [of _ s']) (auto simp: fs_exec_def abs_fs_def)
  next
    case (found f fl n s')
    let ?h = "\<lparr>h_object = n, h_pos = 0, h_deny = False\<rparr>"
    have i: "fs_inv s'" using found(5,12,13) by (simp add: fs_inv_def)
    have f0: "files s f = None" using found(4) by auto
    then have fs: "(files s)(f := None) = files s" by auto
    have nf: "f \<noteq> free_map_file s" using invD(10) [OF fs_invD [OF assms(1)]] f0 by (auto simp: inv_map_def)
    have "files_kept ((files s)(f := None)) s s'" using found(15) fs by simp
    from handles_upd [OF found(12,14) nf this] have h: "handles s' = (handles s)(f \<mapsto> ?h)" using found(6-8) by simp
    have hf: "handles s f = None" using f0 by (simp add: handles_def)
    have "n \<in> objects (names s) (handles s)" using found(2) by (auto simp: in_objects)
    then have ob: "objects (names s) ((handles s)(f \<mapsto> ?h)) = objects (names s) (handles s)"
      using objects_add(1) [where H = "handles s" and N = "names s" and h = ?h, OF hf] by auto
    have "abs_fs s' = view (names s) ((handles s)(f \<mapsto> ?h)) (content s)"
      unfolding abs_fs_def found(9) h by (rule view_cong) (use objects_live [OF i] found(9,10) h in auto)
    then have "abs_fs s' = (abs_fs s)\<lparr>a_handles := (handles s)(f \<mapsto> ?h)\<rparr>"
      unfolding abs_fs_def using view_handles [OF ob] by simp
    then show ?thesis unfolding implements_def using found(1-3) i hf
      by (intro exI [of _ "Handle f"] exI [of _ s']) (auto simp: fs_exec_def abs_fs_def)
  qed
qed

text \<open>A valid handle and the file behind it.\<close>

lemma valid_handle:
  assumes "fs_inv s" "f \<in> dom (a_handles (abs_fs s))"
  obtains fl h where "handles s f = Some h" "files s f = Some fl" "f \<noteq> free_map_file s" "sector_of s (f_inode fl) = Some (h_object h)"
    "h_pos h = f_pos fl" "h_deny h = f_deny_write fl" "h_object h \<in> objects (names s) (handles s)"
proof -
  obtain h where h: "handles s f = Some h" using assms(2) by (auto simp: abs_fs_def)
  obtain fl where fl: "files s f = Some fl" "f \<noteq> free_map_file s" "sector_of s (f_inode fl) = Some (h_object h)"
    "h = \<lparr>h_object = h_object h, h_pos = f_pos fl, h_deny = f_deny_write fl\<rparr>"
    by (rule handlesD [OF h])
  have "h_pos h = f_pos fl" "h_deny h = f_deny_write fl" by (subst fl(4), simp)+
  then show ?thesis by (rule that [OF h fl(1-3) _ _ handle_objects [OF h]])
qed

lemma implements_close:
  assumes "fs_inv s" "valid_call (abs_fs s) (Close f)"
  shows "implements junk s (Close f)"
proof -
  have "f \<in> dom (a_handles (abs_fs s))" using assms(2) by simp
  from valid_handle [OF assms(1) this] obtain fl where fl: "files s f = Some fl" "f \<noteq> free_map_file s" by blast
  obtain s' where s': "file_close s f = Some s'" "inv ((files s)(f := None)) (dirs s) (\<lambda>_. 0) s'" "names s' = names s"
    "\<forall>m\<in>live s'. m \<notin> system_sectors \<longrightarrow> content s' m = content s m" "live s' \<subseteq> live s"
    "files s' = (files s)(f := None)" "dirs s' = dirs s" "free_map_file s' = free_map_file s" "files_kept ((files s)(f := None)) s s'"
    by (rule file_close_ok [OF fs_invD [OF assms(1)] fl])
  have i: "fs_inv s'" using s'(2,6,7) by (simp add: fs_inv_def)
  have h: "handles s' = (handles s)(f := None)" using handles_upd [OF s'(6,8) fl(2) s'(9)] by simp
  have "abs_fs s' = view (names s) ((handles s)(f := None)) (content s)"
    unfolding abs_fs_def s'(3) h by (rule view_cong) (use objects_live [OF i] s'(3,4) h in auto)
  also have "\<dots> = collect ((abs_fs s)\<lparr>a_handles := (handles s)(f := None)\<rparr>)"
    unfolding abs_fs_def using view_collect(2) [OF objects_del(2)] by simp
  finally show ?thesis unfolding implements_def using s'(1) i
    by (intro exI [of _ Nothing] exI [of _ s']) (auto simp: fs_exec_def abs_fs_def)
qed

text \<open>Calls that change the record of one open file.\<close>

lemma abs_set_file:
  assumes "fs_inv s" "handles s f = Some h" "f \<noteq> free_map_file s" "files s f = Some fl" "sector_of s (f_inode fl) = Some (h_object h)"
    "f_inode fl' = f_inode fl" "h' = \<lparr>h_object = h_object h, h_pos = f_pos fl', h_deny = f_deny_write fl'\<rparr>"
    "inv ((files s)(f \<mapsto> fl')) (dirs s) (\<lambda>_. 0) s'" "files s' = (files s)(f \<mapsto> fl')" "dirs s' = dirs s" "free_map_file s' = free_map_file s"
    "sector_of s' = sector_of s" "names s' = names s"
    "\<And>m. m \<in> objects (names s) (handles s) \<Longrightarrow> content s' m = D m"
  shows "fs_inv s'" "abs_fs s' = view (names s) ((handles s)(f \<mapsto> h')) D"
    "objects (names s) ((handles s)(f \<mapsto> h')) = objects (names s) (handles s)"
proof -
  show i: "fs_inv s'" using assms(8-10) by (simp add: fs_inv_def)
  have h: "handles s' = (handles s)(f \<mapsto> h')"
    using handles_upd [OF assms(9,11,3) files_kept_refl [OF assms(12)]] assms(5-7,12) by simp
  show ob: "objects (names s) ((handles s)(f \<mapsto> h')) = objects (names s) (handles s)"
    by (rule objects_set [where H = "handles s", OF assms(2)]) (simp add: assms(7))
  show "abs_fs s' = view (names s) ((handles s)(f \<mapsto> h')) D"
    unfolding abs_fs_def assms(13) h by (rule view_cong) (simp add: ob assms(14))
qed

lemma implements_read:
  assumes "fs_inv s" "valid_call (abs_fs s) (Read f cnt)"
  shows "implements junk s (Read f cnt)"
proof -
  have "f \<in> dom (a_handles (abs_fs s))" using assms(2) by simp
  from valid_handle [OF assms(1) this] obtain fl h where
    h: "handles s f = Some h" "files s f = Some fl" "f \<noteq> free_map_file s" "sector_of s (f_inode fl) = Some (h_object h)"
    "h_pos h = f_pos fl" "h_deny h = f_deny_write fl" "h_object h \<in> objects (names s) (handles s)" .
  obtain s' bs fl' where s': "bs = chunk (content s (h_object h)) (nat (f_pos fl)) cnt" "file_read s f (int cnt) = Some (bs, s')"
    "fl' = fl\<lparr>f_pos := f_pos fl + int (length bs)\<rparr>" "inv ((files s)(f \<mapsto> fl')) (dirs s) (\<lambda>_. 0) s'"
    "names s' = names s" "content s' = content s" "live s' = live s" "sector_of s' = sector_of s"
    "files s' = (files s)(f \<mapsto> fl')" "dirs s' = dirs s" "free_map_file s' = free_map_file s"
    by (rule file_read_ok [OF fs_invD [OF assms(1)] h(2-4)])
  let ?h = "h\<lparr>h_pos := h_pos h + int (length bs)\<rparr>"
  have "f_inode fl' = f_inode fl" "?h = \<lparr>h_object = h_object h, h_pos = f_pos fl', h_deny = f_deny_write fl'\<rparr>"
    using s'(3) h(5,6) by simp_all
  note A = abs_set_file [OF assms(1) h(1,3,2,4) this s'(4,9-11,8,5), of "content s"]
  have "abs_fs s' = (abs_fs s)\<lparr>a_handles := (handles s)(f \<mapsto> ?h)\<rparr>"
    using A(2) view_handles [OF A(3)] s'(6) by (simp add: abs_fs_def)
  then show ?thesis unfolding implements_def using s'(1,2) A(1) h s'(6)
    by (intro exI [of _ "Bytes bs"] exI [of _ s']) (auto simp: fs_exec_def abs_fs_def)
qed

lemma implements_write:
  assumes "fs_inv s" "valid_call (abs_fs s) (Write f buf)"
  shows "implements junk s (Write f buf)"
proof -
  have "f \<in> dom (a_handles (abs_fs s))" using assms(2) by simp
  from valid_handle [OF assms(1) this] obtain fl h where
    h: "handles s f = Some h" "files s f = Some fl" "f \<noteq> free_map_file s" "sector_of s (f_inode fl) = Some (h_object h)"
    "h_pos h = f_pos fl" "h_deny h = f_deny_write fl" "h_object h \<in> objects (names s) (handles s)" .
  let ?n = "h_object h"
  define k where "k = (if denied (abs_fs s) ?n then 0 else min (length buf) (length (content s ?n) - nat (f_pos fl)))"
  define fl' where "fl' = fl\<lparr>f_pos := f_pos fl + int k\<rparr>"
  have k: "k = (if denies (files s) (f_inode fl) = 0 then min (length buf) (length (content s ?n) - nat (f_pos fl)) else 0)"
    using denied_iff [OF assms(1) h(2-4)] by (simp add: k_def)
  obtain s' where s': "file_write s f buf (int (length buf)) = Some (int k, s')" "inv ((files s)(f \<mapsto> fl')) (dirs s) (\<lambda>_. 0) s'"
    "names s' = names s" "content s' ?n = overlay (content s ?n) (nat (f_pos fl)) (take k buf)"
    "\<forall>m\<in>live s'. m \<noteq> ?n \<longrightarrow> content s' m = content s m" "live s' = live s" "sector_of s' = sector_of s"
    "files s' = (files s)(f \<mapsto> fl')" "dirs s' = dirs s" "free_map_file s' = free_map_file s"
    by (rule file_write_ok [OF fs_invD [OF assms(1)] h(2-4) order_refl k fl'_def])
  let ?h = "h\<lparr>h_pos := h_pos h + int k\<rparr>" and ?bs = "overlay (content s ?n) (nat (f_pos fl)) (take k buf)"
  have e: "f_inode fl' = f_inode fl" "?h = \<lparr>h_object = h_object h, h_pos = f_pos fl', h_deny = f_deny_write fl'\<rparr>"
    using fl'_def h(5,6) by simp_all
  define D where "D = (content s)(?n := ?bs)"
  have c: "content s' m = D m" if "m \<in> objects (names s) (handles s)" for m
    using objects_live(1) [OF assms(1) that] s'(4-6) by (simp add: D_def)
  note A = abs_set_file [OF assms(1) h(1,3,2,4) e s'(2,8-10,7,3) c]
  have "abs_fs s' = (abs_fs s)\<lparr>a_handles := (handles s)(f \<mapsto> ?h), a_data := (a_data (abs_fs s))(?n \<mapsto> ?bs)\<rparr>"
  proof -
    have "abs_fs s' = view (names s) ((handles s)(f \<mapsto> ?h)) D" using A(2) .
    then show ?thesis unfolding D_def abs_fs_def [of s] using view_write [OF A(3) h(7), of "content s" ?bs] by (rule trans [OF _ sym])
  qed
  moreover have "a_handles (abs_fs s) = handles s" "data_of (abs_fs s) ?n = content s ?n" using h(7) by (simp_all add: abs_fs_def)
  ultimately have "spec (abs_fs s) (Write f buf) (Number (int k)) (abs_fs s')"
    unfolding spec.simps by (intro exI [of _ h] exI [of _ "content s ?n"] exI [of _ k]) (simp add: h(1,5) k_def)
  then show ?thesis unfolding implements_def using s'(1) A(1)
    by (intro exI [of _ "Number (int k)"] exI [of _ s']) (simp add: fs_exec_def)
qed


lemma implements_seek:
  assumes "fs_inv s" "valid_call (abs_fs s) (Seek f pos)"
  shows "implements junk s (Seek f pos)"
proof -
  have "f \<in> dom (a_handles (abs_fs s))" and pos: "0 \<le> pos" using assms(2) by simp_all
  from valid_handle [OF assms(1) this(1)] obtain fl h where
    h: "handles s f = Some h" "files s f = Some fl" "f \<noteq> free_map_file s" "sector_of s (f_inode fl) = Some (h_object h)"
    "h_pos h = f_pos fl" "h_deny h = f_deny_write fl" "h_object h \<in> objects (names s) (handles s)" .
  note S = file_seek_ok [OF fs_invD [OF assms(1)] h(2,3) pos]
  let ?s = "s\<lparr>files := (files s)(f \<mapsto> fl\<lparr>f_pos := pos\<rparr>)\<rparr>"
  have "f_inode (fl\<lparr>f_pos := pos\<rparr>) = f_inode fl"
    "h\<lparr>h_pos := pos\<rparr> = \<lparr>h_object = h_object h, h_pos = f_pos (fl\<lparr>f_pos := pos\<rparr>), h_deny = f_deny_write (fl\<lparr>f_pos := pos\<rparr>)\<rparr>"
    using h(6) by simp_all
  note A = abs_set_file [OF assms(1) h(1,3,2,4) this S(2), of "content s"]
  have "abs_fs ?s = (abs_fs s)\<lparr>a_handles := (handles s)(f \<mapsto> h\<lparr>h_pos := pos\<rparr>)\<rparr>"
    using A(2) view_handles [OF A(3)] by (simp add: abs_fs_def)
  moreover have "fs_inv ?s" using A(1) by simp
  ultimately show ?thesis unfolding implements_def using S(1) h(1)
    by (intro exI [of _ Nothing] exI [of _ ?s]) (auto simp: fs_exec_def abs_fs_def)
qed

lemma implements_tell_length:
  assumes "fs_inv s" "f \<in> dom (a_handles (abs_fs s))"
  shows "implements junk s (Tell f)" "implements junk s (Length f)"
proof -
  from valid_handle [OF assms] obtain fl h where
    h: "handles s f = Some h" "files s f = Some fl" "f \<noteq> free_map_file s" "sector_of s (f_inode fl) = Some (h_object h)"
    "h_pos h = f_pos fl" "h_deny h = f_deny_write fl" "h_object h \<in> objects (names s) (handles s)" .
  have "file_tell s f = Some (h_pos h)" using file_seek_ok(3) [OF fs_invD [OF assms(1)] h(2,3) order_refl] h(5) by simp
  then show "implements junk s (Tell f)" unfolding implements_def using assms(1) h(1)
    by (intro exI [of _ "Number (h_pos h)"] exI [of _ s]) (simp add: fs_exec_def abs_fs_def)
  have "file_length s f = Some (int (length (content s (h_object h))))" by (rule file_length_ok [OF fs_invD [OF assms(1)] h(2-4)])
  then show "implements junk s (Length f)" unfolding implements_def using assms(1) h(1,7)
    by (intro exI [of _ "Number (int (length (content s (h_object h))))"] exI [of _ s]) (simp add: fs_exec_def abs_fs_def)
qed

lemma implements_deny:
  assumes "fs_inv s" "f \<in> dom (a_handles (abs_fs s))"
  shows "implements junk s (if b then Deny f else Allow f)"
proof -
  from valid_handle [OF assms] obtain fl h where
    h: "handles s f = Some h" "files s f = Some fl" "f \<noteq> free_map_file s" "sector_of s (f_inode fl) = Some (h_object h)"
    "h_pos h = f_pos fl" "h_deny h = f_deny_write fl" "h_object h \<in> objects (names s) (handles s)" .
  let ?fl = "fl\<lparr>f_deny_write := b\<rparr>" and ?h = "h\<lparr>h_deny := b\<rparr>"
  obtain s' where s': "(if b then file_deny_write s f else file_allow_write s f) = Some s'" "inv ((files s)(f \<mapsto> ?fl)) (dirs s) (\<lambda>_. 0) s'"
    "names s' = names s" "content s' = content s" "live s' = live s" "sector_of s' = sector_of s"
    "files s' = (files s)(f \<mapsto> ?fl)" "dirs s' = dirs s" "free_map_file s' = free_map_file s"
    by (rule file_set_deny_ok [OF fs_invD [OF assms(1)] h(2,3) refl])
  have "f_inode ?fl = f_inode fl" "?h = \<lparr>h_object = h_object h, h_pos = f_pos ?fl, h_deny = f_deny_write ?fl\<rparr>" using h(5) by simp_all
  note A = abs_set_file [OF assms(1) h(1,3,2,4) this s'(2,7-9,6,3), of "content s"]
  have "abs_fs s' = (abs_fs s)\<lparr>a_handles := (handles s)(f \<mapsto> ?h)\<rparr>"
    using A(2) view_handles [OF A(3)] s'(4) by (simp add: abs_fs_def)
  moreover have "fs_inv s'" using A(1) s'(4) by simp
  ultimately show ?thesis unfolding implements_def using s'(1) h(1)
    by (intro exI [of _ Nothing] exI [of _ s']) (cases b; auto simp: fs_exec_def abs_fs_def)
qed

lemma implements_reopen:
  assumes "fs_inv s" "valid_call (abs_fs s) (Reopen f)"
  shows "implements junk s (Reopen f)"
proof -
  have "f \<in> dom (a_handles (abs_fs s))" using assms(2) by simp
  from valid_handle [OF assms(1) this] obtain fl h where
    h: "handles s f = Some h" "files s f = Some fl" "f \<noteq> free_map_file s" "sector_of s (f_inode fl) = Some (h_object h)"
    "h_pos h = f_pos fl" "h_deny h = f_deny_write fl" "h_object h \<in> objects (names s) (handles s)" .
  obtain g gl s' where s': "file_reopen s f = Some (g, s')" "g \<noteq> 0" "g \<notin> dom (files s)" "gl = \<lparr>f_inode = f_inode fl, f_pos = 0, f_deny_write = False\<rparr>"
    "inv ((files s)(g \<mapsto> gl)) (dirs s) (\<lambda>_. 0) s'" "names s' = names s" "\<forall>m\<in>live s'. m \<notin> system_sectors \<longrightarrow> content s' m = content s m"
    "live s' = live s" "sector_of s' = sector_of s" "files s' = (files s)(g \<mapsto> gl)" "dirs s' = dirs s" "free_map_file s' = free_map_file s"
    by (rule file_reopen_ok [OF fs_invD [OF assms(1)] h(2,3)])
  let ?h = "\<lparr>h_object = h_object h, h_pos = 0, h_deny = False\<rparr>"
  have i: "fs_inv s'" using s'(5,10,11) by (simp add: fs_inv_def)
  have g0: "files s g = None" using s'(3) by auto
  have nf: "g \<noteq> free_map_file s" using invD(10) [OF fs_invD [OF assms(1)]] g0 by (auto simp: inv_map_def)
  have h': "handles s' = (handles s)(g \<mapsto> ?h)"
    using handles_upd [OF s'(10,12) nf files_kept_refl [OF s'(9)]] s'(4,9) h(4) by simp
  have hg: "handles s g = None" using g0 by (simp add: handles_def)
  have ob: "objects (names s) ((handles s)(g \<mapsto> ?h)) = objects (names s) (handles s)"
    using objects_add(1) [where H = "handles s" and N = "names s" and h = ?h, OF hg] h(7) by auto
  have "abs_fs s' = view (names s) ((handles s)(g \<mapsto> ?h)) (content s)"
    unfolding abs_fs_def s'(6) h' by (rule view_cong) (use objects_live [OF i] s'(6,7) h' in auto)
  then have "abs_fs s' = (abs_fs s)\<lparr>a_handles := (handles s)(g \<mapsto> ?h)\<rparr>"
    unfolding abs_fs_def using view_handles [OF ob] by simp
  then show ?thesis unfolding implements_def using s'(1,2) i h(1) hg
    by (intro exI [of _ "Handle g"] exI [of _ s']) (auto simp: fs_exec_def abs_fs_def)
qed

lemma fs_exec_implements:
  assumes "fs_inv s" "valid_call (abs_fs s) c" "length junk = 20"
  shows "implements junk s c"
proof (cases c)
  case (Deny f)
  then show ?thesis using implements_deny [OF assms(1), of f junk True] assms(2) by simp
next
  case (Allow f)
  then show ?thesis using implements_deny [OF assms(1), of f junk False] assms(2) by simp
qed (use assms implements_create implements_remove implements_open implements_close implements_reopen implements_read
    implements_write implements_seek implements_tell_length in auto)


section \<open>Clients of the file system\<close>

text \<open>Sequences of calls: each is valid where it is made.\<close>

fun exec_calls :: "('s \<Rightarrow> fs_call \<Rightarrow> (fs_reply \<times> 's) option) \<Rightarrow> 's \<Rightarrow> fs_call list \<Rightarrow> (fs_reply list \<times> 's) option" where
  "exec_calls exec s [] = Some ([], s)"
| "exec_calls exec s (c # cs) = do {
     (r, s) \<leftarrow> exec s c;
     (rs, s) \<leftarrow> exec_calls exec s cs;
     Some (r # rs, s) }"

fun valid_calls :: "('s \<Rightarrow> fs_call \<Rightarrow> (fs_reply \<times> 's) option) \<Rightarrow> ('s \<Rightarrow> afs) \<Rightarrow> 's \<Rightarrow> fs_call list \<Rightarrow> bool" where
  "valid_calls exec abstr s [] \<longleftrightarrow> True"
| "valid_calls exec abstr s (c # cs) \<longleftrightarrow> valid_call (abstr s) c \<and>
     (case exec s c of None \<Rightarrow> True | Some (r, s') \<Rightarrow> valid_calls exec abstr s' cs)"

inductive runs :: "afs \<Rightarrow> (fs_call \<times> fs_reply) list \<Rightarrow> afs \<Rightarrow> bool" where
  runs_Nil: "runs a [] a"
| runs_Cons: "valid_call a c \<Longrightarrow> spec a c r a1 \<Longrightarrow> runs a1 l a2 \<Longrightarrow> runs a ((c, r) # l) a2"

text \<open>
  What a client relies on: a service whose calls, valid in the abstract state, return and do what
  \<open>spec\<close> allows. The lemmas are about any such service.
\<close>

locale file_service =
  fixes exec :: "'s \<Rightarrow> fs_call \<Rightarrow> (fs_reply \<times> 's) option" and ok :: "'s \<Rightarrow> bool" and abstr :: "'s \<Rightarrow> afs"
  assumes exec_spec: "ok s \<Longrightarrow> valid_call (abstr s) c \<Longrightarrow>
      \<exists>r s'. exec s c = Some (r, s') \<and> ok s' \<and> spec (abstr s) c r (abstr s')"
begin

lemma execE:
  assumes "ok s" "valid_call (abstr s) c"
  obtains r s' where "exec s c = Some (r, s')" "ok s'" "spec (abstr s) c r (abstr s')"
  using exec_spec [OF assms] by blast

lemma calls_run:
  "ok s \<Longrightarrow> valid_calls exec abstr s cs \<Longrightarrow>
   \<exists>rs s'. exec_calls exec s cs = Some (rs, s') \<and> length rs = length cs \<and> ok s' \<and> runs (abstr s) (zip cs rs) (abstr s')"
proof (induction cs arbitrary: s)
  case Nil
  then show ?case by (simp add: runs_Nil)
next
  case (Cons c cs)
  obtain r s1 where s1: "exec s c = Some (r, s1)" "ok s1" "spec (abstr s) c r (abstr s1)"
    by (rule execE [of s c, OF Cons.prems(1)]) (use Cons.prems(2) in simp)
  from Cons.IH [OF s1(2)] Cons.prems(2) s1(1) obtain rs s2 where
    s2: "exec_calls exec s1 cs = Some (rs, s2)" "length rs = length cs" "ok s2" "runs (abstr s1) (zip cs rs) (abstr s2)" by auto
  then show ?case using s1 Cons.prems(2) by (auto intro: runs_Cons)
qed

text \<open>Write to an open file, go back and read.\<close>

lemma write_read:
  assumes "ok s" "a_handles (abstr s) f = Some h" "\<not> denied (abstr s) (h_object h)" "length buf < 2 ^ 31"
    "0 \<le> h_pos h" "h_pos h < 2 ^ 31" "nat (h_pos h) + length buf \<le> length (data_of (abstr s) (h_object h))"
  shows "\<exists>s1 s2 s3. exec s (Write f buf) = Some (Number (int (length buf)), s1) \<and> exec s1 (Seek f (h_pos h)) = Some (Nothing, s2) \<and>
     exec s2 (Read f (length buf)) = Some (Bytes buf, s3) \<and> ok s3"
proof -
  have v: "valid_call (abstr s) (Write f buf)" using assms(2,4) by auto
  obtain r1 s1 where s1: "exec s (Write f buf) = Some (r1, s1)" "ok s1" "spec (abstr s) (Write f buf) r1 (abstr s1)"
    by (rule execE [OF assms(1) v])
  let ?n = "h_object h" and ?bs = "data_of (abstr s) (h_object h)" and ?p = "nat (h_pos h)"
  have k: "min (length buf) (length ?bs - ?p) = length buf" using assms(7) by simp
  have r1: "r1 = Number (int (length buf))" and a1: "abstr s1 = (abstr s)\<lparr>a_handles := (a_handles (abstr s))(f \<mapsto> h\<lparr>h_pos := h_pos h + int (length buf)\<rparr>),
        a_data := (a_data (abstr s))(?n \<mapsto> overlay ?bs ?p buf)\<rparr>"
    using s1(3) assms(2,3) k by simp_all
  have v2: "valid_call (abstr s1) (Seek f (h_pos h))" using a1 assms(5,6) by simp
  obtain r2 s2 where s2: "exec s1 (Seek f (h_pos h)) = Some (r2, s2)" "ok s2" "spec (abstr s1) (Seek f (h_pos h)) r2 (abstr s2)"
    by (rule execE [OF s1(2) v2])
  have a2: "r2 = Nothing" "a_handles (abstr s2) f = Some (h\<lparr>h_pos := h_pos h\<rparr>)" "data_of (abstr s2) ?n = overlay ?bs ?p buf"
    using s2(3) a1 by (auto simp: data_of_def)
  have v3: "valid_call (abstr s2) (Read f (length buf))" using a2(2) assms(4) by auto
  obtain r3 s3 where s3: "exec s2 (Read f (length buf)) = Some (r3, s3)" "ok s3" "spec (abstr s2) (Read f (length buf)) r3 (abstr s3)"
    by (rule execE [OF s2(2) v3])
  have "r3 = Bytes (chunk (overlay ?bs ?p buf) ?p (length buf))" using s3(3) a2(2,3) by auto
  then show ?thesis using s1(1) s2(1) s3(1,2) r1 a2(1) assms(7) by auto
qed

end

interpretation pintos: file_service "fs_exec junk" "\<lambda>s. fs_inv s \<and> length junk = 20" abs_fs for junk
proof
  show "\<exists>r s'. fs_exec junk s c = Some (r, s') \<and> (fs_inv s' \<and> length junk = 20) \<and> spec (abs_fs s) c r (abs_fs s')"
    if "fs_inv s \<and> length junk = 20" "valid_call (abs_fs s) c" for s c
    using fs_exec_implements [of s c junk] that by (auto simp: implements_def)
qed

end
