(* ===== verification/FS_Properties.thy ===== *)
theory FS_Properties
  imports FS_Refinement
begin

text \<open>
  What the file system as a whole guarantees, stated about the calls of \<^verbatim>\<open>filesys.c\<close> and \<^verbatim>\<open>file.c\<close>: it refines
  its specification, formatting and restarting give the states they should, a file can be created
  when there is room and reads back what was written; and what a failed creation costs.
\<close>

section \<open>Room for new files\<close>

lemma finite_names: "finite (dom (names s))"
proof -
  have "dom (names s) \<subseteq> (\<lambda>j. entry_name (slot_in (content s ROOT_DIR_SECTOR) j)) ` {..<16}"
    by (auto simp: names_def holds_def dest!: dir_map_SomeD)
  then show ?thesis by (rule finite_subset) simp
qed

lemma not_dir_full:
  assumes "fs_inv s" "card (dom (names s)) < 16"
  shows "\<not> dir_full s"
proof
  assume full: "dir_full s"
  let ?c = "content s ROOT_DIR_SECTOR" and ?f = "\<lambda>j. entry_name (slot_in (content s ROOT_DIR_SECTOR) j)"
  have wf: "dir_wf 16 ?c" using invD(6) [OF fs_invD [OF assms(1)]] by (simp add: inv_dir_def)
  have h: "holds ?c (?f j) j" if "j < 16" for j using full that by (simp add: dir_full_def holds_def)
  have "inj_on ?f {..<16}"
  proof (rule inj_onI)
    fix i j assume ij: "i \<in> {..<16}" "j \<in> {..<16}" "?f i = ?f j"
    then have "holds ?c (?f i) i" "holds ?c (?f i) j" using h [of i] h [of j] by auto
    then show "i = j" using wf ij(1,2) unfolding dir_wf_def by blast
  qed
  moreover have "?f ` {..<16} \<subseteq> dom (names s)" using h dir_map_Some [OF wf] by (auto simp: names_def dom_def)
  ultimately have "card {..<16 :: nat} \<le> card (dom (names s))" by (rule card_inj_on_le [OF _ _ finite_names])
  then show False using assms(2) by simp
qed

lemma create_returns_true:
  assumes "fs_inv s" "0 \<notin> set name" "length junk = 20" "0 \<le> len" "len < 2 ^ 31" "can_create s name len"
  obtains s' n where "filesys_create s name len junk = Some (True, s')" "fs_inv s'" "names s' = (names s)(name \<mapsto> n)"
    "content s' n = replicate (nat len) 0" "card (bits_set (free_map s')) = card (bits_set (free_map s)) + 1 + bytes_to_sectors len"
    "bit_cnt (free_map s') = bit_cnt (free_map s)"
proof (cases rule: filesys_create_ok [OF fs_invD [OF assms(1)] assms(2-5), case_names fail ok])
  case (fail s')
  then show ?thesis using assms(6) by simp
next
  case (ok s' n)
  then have "fs_inv s'" by (intro inv_same_tables [OF ok(2)]) (simp_all add: name_added_def)
  then show ?thesis using that ok(1,3,5,6) by (simp add: name_added_def)
qed

text \<open>A map with few bits set has two free bits in a row.\<close>

lemma room_two:
  assumes "card (bits_set b) \<le> m" "2 * (m + 1) \<le> bit_cnt b"
  shows "has_room b 2"
proof (rule ccontr)
  assume "\<not> has_room b 2"
  have "\<exists>x. x \<in> bits_set b \<and> x div 2 = k" if k: "k < m + 1" for k
  proof -
    have "2 * k + 2 \<le> bit_cnt b" using k assms(2) by simp
    then obtain x where "x \<in> bits_set b" "x \<in> span (2 * k, 2)" using \<open>\<not> has_room b 2\<close> unfolding has_room_def by blast
    moreover from this(2) have "x div 2 = k" by (intro div_nat_eqI) (simp_all add: span_def)
    ultimately show ?thesis by blast
  qed
  then have "{..<m + 1} \<subseteq> (\<lambda>x. x div 2) ` bits_set b" by blast
  then have "card {..<m + 1} \<le> card (bits_set b)" by (rule surj_card_le [rotated]) (simp add: bits_set_def)
  then show False using assms(1) by simp
qed

section \<open>Sectors lost by a failed creation\<close>

text \<open>The name is taken: sector and data of the new inode are allocated, and only the sector is given back.\<close>

lemma create_step_leak:
  assumes "inv F G X s" "root_open s d p" "d \<noteq> 0" "0 \<notin> set name" "length junk = 20" "0 \<le> len" "len < 2 ^ 31"
    "names s name \<noteq> None" "has_room (free_map s) (1 + bytes_to_sectors len)"
  obtains s' where "create_step s d name len junk = Some (False, s')" "inv F G X s'" "dirs s' = dirs s" "root_open s' d p"
    "card (bits_set (free_map s')) = card (bits_set (free_map s)) + bytes_to_sectors len"
proof -
  have fin: "finite (bits_set b)" for b by (simp add: bits_set_def)
  have r1: "has_room (free_map s) 1"
    using assms(9) unfolding has_room_def by (fastforce simp: span_def)
  show ?thesis
    using assms(1)
  proof (cases rule: free_map_allocate_ok [where cnt = 1, consumes 1, case_names none some])
    case none
    then show ?thesis using r1 by simp
  next
    case (some n s2)
    note fr = fresh_sector [OF assms(1) some(6,7,2,4,9)]
    have p2: "root_open s2 d p"
      using assms(2) some(3,8) by (simp add: root_open_def sector_of_def keeps_data_def)
    have cnt: "bit_cnt (free_map s2) = bit_cnt (free_map s)"
      using invD(4) [OF some(2)] invD(4) [OF assms(1)] some(9) by (simp add: changed_only_def)
    have sp: "span (n, 1) = {n}" by (auto simp: span_def)
    have c2: "card (bits_set (free_map s2)) = card (bits_set (free_map s)) + 1"
      using some(6,7) fin [of "free_map s"] unfolding sp by simp
    show ?thesis
    proof (cases rule: inode_create_ok [OF some(2) fr(1,2) assms(6,7), case_names fail ok])
      case (fail s3)
      then show ?thesis using room_left [OF assms(9) some(7) cnt some(10)] by simp
    next
      case B: (ok s3)
      have p3: "root_open s3 d p" using p2 B(3,7) by (simp add: root_open_def sector_of_def keeps_data_def)
      have n3: "n \<notin> live s3" using fr(4) B(4) some(4) by simp
      have nm: "names s3 name \<noteq> None" using assms(8) some(3) B(3) by (simp add: keeps_data_def)
      show ?thesis
      proof (cases rule: dir_add_ok [OF B(2) p3 assms(4,5) n3 B(5), case_names fail ok])
        case C: (fail s4)
        note D = same_diskD [OF reads_same_disk [OF C(2)]] and R = readsD [OF C(2)]
        have "n \<notin> extent (fs_device s3) m" if m: "m \<in> live s3" for m
        proof -
          have "n \<noteq> m" using m n3 by blast
          then have "extent (fs_device s3) n \<inter> extent (fs_device s3) m = {}" using B(5) m by (simp add: disk_ok_def)
          then show ?thesis by (auto simp: extent_def)
        qed
        then have o4: "\<forall>m\<in>live s4. n \<notin> extent (fs_device s4) m" using D live_reads [OF C(2)] by (simp add: extent_def)
        have b4: "n \<in> bits_set (free_map s4)" using fr(1) B(8) R by auto
        obtain s5 where s5: "free_map_release s4 n 1 = Some s5" "inv F G X s5" "sees s4 s5" "dirs s5 = dirs s4" "files_kept F s4 s5"
            "bits_set (free_map s5) = bits_set (free_map s4) - {n}" "inodes s5 = inodes s4"
          by (rule release_fresh [OF inv_reads [OF C(2) B(2)] b4 o4])
        have "create_step s d name len junk = Some (False, s5)"
          using assms(3) some(1) B(1) C(1) s5(1) fr(3) by (simp add: create_step_def)
        moreover have "card (bits_set (free_map s5)) = card (bits_set (free_map s)) + bytes_to_sectors len"
          using s5(6) b4 fin B(9) c2 R by (simp add: card_Diff_singleton)
        moreover have "dirs s5 = dirs s" "root_open s5 d p"
          using s5(4,7) R some(3) B(3) p3 by (simp_all add: keeps_data_def root_open_def sector_of_def)
        ultimately show ?thesis using that s5(2) by blast
      next
        case (ok s4)
        then show ?thesis using nm by simp
      qed
    qed
  qed
qed

section \<open>Properties\<close>

definition sample_device :: block where
  "sample_device = \<lparr>b_name = [], b_type = BLOCK_FILESYS, b_size = 16, contents = (\<lambda>_. replicate 512 0), read_cnt = 0, write_cnt = 0\<rparr>"

definition sample_devices :: devices where
  "sample_devices = \<lparr>all_blocks = [sample_device], block_by_role = [BLOCK_FILESYS \<mapsto> 0]\<rparr>"

definition sample_boot :: fs where
  "sample_boot = \<lparr>fs_device = sample_device, inodes = Map.empty, open_inodes = [], files = Map.empty, dirs = Map.empty,
     free_map = \<lparr>bit_cnt = 0, bits = []\<rparr>, free_map_file = 0, oom = (\<lambda>_. False), next_ptr = 1\<rparr>"

lemma sample_ok:
  "block_by_role sample_devices BLOCK_FILESYS = Some 0" "0 < length (all_blocks sample_devices)"
  "sectors_ok (all_blocks sample_devices ! 0)" "b_size (all_blocks sample_devices ! 0) < 2 ^ 31"
  "3 + bytes_to_sectors (int (byte_cnt (b_size (all_blocks sample_devices ! 0)))) \<le> b_size (all_blocks sample_devices ! 0)"
  "at_boot sample_boot" "length [0 :: u32] = elem_cnt (b_size (all_blocks sample_devices ! 0))"
  by (simp_all add: sample_devices_def sample_device_def sample_boot_def sectors_ok_def BLOCK_SECTOR_SIZE_def at_boot_def mem_ok_def
      byte_cnt_def elem_cnt_def DIV_ROUND_UP_def ELEM_BITS_def bytes_to_sectors_eq)

text \<open>The state after the sample device has been formatted.\<close>

definition sample_mounted :: fs where
  "sample_mounted = the (filesys_init sample_devices sample_boot True [0])"

lemma abs_empty:
  "names s = Map.empty \<Longrightarrow> dom (files s) = {free_map_file s} \<Longrightarrow> abs_fs s = \<lparr>a_names = Map.empty, a_data = Map.empty, a_handles = Map.empty\<rparr>"
proof -
  assume n: "names s = Map.empty" and f: "dom (files s) = {free_map_file s}"
  have "handles s = Map.empty" using f by (auto simp: handles_def fun_eq_iff dom_def split: option.splits)
  then show ?thesis using n by (simp add: abs_fs_def view_def objects_def)
qed

lemma sample_mounted_ok:
  "fs_inv sample_mounted" "names sample_mounted = Map.empty" "bit_cnt (free_map sample_mounted) = 16" "bits_set (free_map sample_mounted) = {..<4}"
proof -
  obtain s' where s': "filesys_init sample_devices sample_boot True [0] = Some s'" "fs_inv s'" "names s' = Map.empty"
      "bit_cnt (free_map s') = b_size (all_blocks sample_devices ! 0)"
      "bits_set (free_map s') = {..<3 + bytes_to_sectors (int (byte_cnt (b_size (all_blocks sample_devices ! 0))))}"
    by (rule filesys_format_ok [OF sample_ok(1,2) refl sample_ok(3-7)])
  have "b_size (all_blocks sample_devices ! 0) = 16" "3 + bytes_to_sectors (int (byte_cnt 16)) = 4"
    by (simp_all add: sample_devices_def sample_device_def byte_cnt_def elem_cnt_def DIV_ROUND_UP_def ELEM_BITS_def bytes_to_sectors_eq)
  then show "fs_inv sample_mounted" "names sample_mounted = Map.empty" "bit_cnt (free_map sample_mounted) = 16"
      "bits_set (free_map sample_mounted) = {..<4}"
    using s' by (simp_all add: sample_mounted_def)
qed

lemma sample_room: "can_create sample_mounted [97] 100"
proof -
  have "has_room (free_map sample_mounted) 2"
    unfolding has_room_def sample_mounted_ok(3,4) by (intro exI [of _ 4]) (auto simp: span_def)
  then show ?thesis
    using sample_mounted_ok(2) not_dir_full [OF sample_mounted_ok(1)]
    by (simp add: can_create_def NAME_MAX_def bytes_to_sectors_eq numeral_2_eq_2)
qed

text \<open>The same with one file of 100 bytes, opened.\<close>

definition sample_created :: fs where
  "sample_created = snd (the (filesys_create sample_mounted [97] 100 (replicate 20 7)))"

definition sample_opened :: "nat \<times> fs" where
  "sample_opened = the (filesys_open sample_created [97])"

lemma sample_mounted_abs: "abs_fs sample_mounted = \<lparr>a_names = Map.empty, a_data = Map.empty, a_handles = Map.empty\<rparr>"
proof -
  obtain s' where s': "filesys_init sample_devices sample_boot True [0] = Some s'" "names s' = Map.empty" "dom (files s') = {free_map_file s'}"
    by (rule filesys_format_ok [OF sample_ok(1,2) refl sample_ok(3-7)])
  then show ?thesis using abs_empty [OF s'(2,3)] by (simp add: sample_mounted_def)
qed

lemma sample_created_ok:
  "fs_inv sample_created" "has_room (free_map sample_created) 2"
  "\<exists>n. abs_fs sample_created = \<lparr>a_names = [[97] \<mapsto> n], a_data = [n \<mapsto> replicate 100 0], a_handles = Map.empty\<rparr>"
proof -
  let ?j = "replicate 20 7 :: bytes"
  have j: "length ?j = 20" and v: "valid_call (abs_fs sample_mounted) (Create [97] 100)" by simp_all
  obtain s where s: "filesys_create sample_mounted [97] 100 ?j = Some (True, s)"
      "card (bits_set (free_map s)) = card (bits_set (free_map sample_mounted)) + 1 + bytes_to_sectors 100"
      "bit_cnt (free_map s) = bit_cnt (free_map sample_mounted)"
    by (rule create_returns_true [OF sample_mounted_ok(1) _ j _ _ sample_room]) simp_all
  have "implements ?j sample_mounted (Create [97] 100)" by (rule implements_create [OF sample_mounted_ok(1) v j])
  then have "fs_inv s" "spec (abs_fs sample_mounted) (Create [97] 100) (Flag True) (abs_fs s)"
    using s(1) by (auto simp: implements_def fs_exec_def)
  moreover have "card (bits_set (free_map s)) \<le> 6" using s(2) by (simp add: sample_mounted_ok(4) bytes_to_sectors_eq)
  moreover have "bit_cnt (free_map s) = 16" using s(3) sample_mounted_ok(3) by simp
  ultimately show "fs_inv sample_created" "has_room (free_map sample_created) 2"
      "\<exists>n. abs_fs sample_created = \<lparr>a_names = [[97] \<mapsto> n], a_data = [n \<mapsto> replicate 100 0], a_handles = Map.empty\<rparr>"
    using s(1) room_two [of "free_map s" 6] by (auto simp: sample_created_def sample_mounted_abs)
qed

lemma sample_opened_ok:
  "fs_inv (snd sample_opened)"
  "\<exists>n. abs_fs (snd sample_opened) = \<lparr>a_names = [[97] \<mapsto> n], a_data = [n \<mapsto> replicate 100 0],
     a_handles = [fst sample_opened \<mapsto> \<lparr>h_object = n, h_pos = 0, h_deny = False\<rparr>]\<rparr>"
proof -
  obtain n where n: "abs_fs sample_created = \<lparr>a_names = [[97] \<mapsto> n], a_data = [n \<mapsto> replicate 100 0], a_handles = Map.empty\<rparr>"
    using sample_created_ok(3) by blast
  have v: "valid_call (abs_fs sample_created) (Open [97])" by simp
  obtain r s where s: "fs_exec [] sample_created (Open [97]) = Some (r, s)" "fs_inv s" "spec (abs_fs sample_created) (Open [97]) r (abs_fs s)"
    using implements_open [OF sample_created_ok(1) v, of "[]"] by (auto simp: implements_def)
  then obtain f where f: "filesys_open sample_created [97] = Some (f, s)" "r = Handle f" by (auto simp: fs_exec_def)
  then show "fs_inv (snd sample_opened)"
    "\<exists>n. abs_fs (snd sample_opened) = \<lparr>a_names = [[97] \<mapsto> n], a_data = [n \<mapsto> replicate 100 0],
       a_handles = [fst sample_opened \<mapsto> \<lparr>h_object = n, h_pos = 0, h_deny = False\<rparr>]\<rparr>"
    using s(2,3) by (auto simp: sample_opened_def n)
qed



text \<open>
  C13. Formatting: on a device with room for the free map and the root directory, \<open>filesys_init\<close> with
  \<open>format\<close> returns with the invariant established, no names and no open files, whatever the device and
  the memory for the free map held before.
\<close>

theorem format_gives_empty_file_system:
  assumes "block_by_role ds BLOCK_FILESYS = Some i" "i < length (all_blocks ds)" "b = all_blocks ds ! i" "sectors_ok b" "b_size b < 2 ^ 31"
    "3 + bytes_to_sectors (int (byte_cnt (b_size b))) \<le> b_size b" "at_boot s" "length junk = elem_cnt (b_size b)"
  shows "\<exists>s'. filesys_init ds s True junk = Some s' \<and> fs_inv s' \<and>
    abs_fs s' = \<lparr>a_names = Map.empty, a_data = Map.empty, a_handles = Map.empty\<rparr>"
proof -
  obtain s' where s': "filesys_init ds s True junk = Some s'" "fs_inv s'" "names s' = Map.empty" "dom (files s') = {free_map_file s'}"
    by (rule filesys_format_ok [OF assms])
  then show ?thesis using abs_empty [OF s'(3,4)] by blast
qed

theorem format_gives_empty_file_system_witness:
  "\<exists>s'. filesys_init sample_devices sample_boot True [0] = Some s' \<and> fs_inv s' \<and>
    abs_fs s' = \<lparr>a_names = Map.empty, a_data = Map.empty, a_handles = Map.empty\<rparr>"
  using format_gives_empty_file_system [OF sample_ok(1,2) refl sample_ok(3-7)] by simp

text \<open>
  C10. Persistence: shutting down returns and leaves the device as it is, and starting again on that device,
  with a fresh memory and without formatting, gives a file system with the same names, and the
  same bytes under each name, as before the shutdown; no file is open. Files that were open do
  not matter.
\<close>

theorem files_survive_restart:
  assumes "fs_inv s" "block_by_role ds BLOCK_FILESYS = Some i" "i < length (all_blocks ds)" "at_boot s0"
    "length junk = elem_cnt (b_size (fs_device s))" "all_blocks ds ! i = fs_device (the (filesys_done s))"
  shows "\<exists>s1 s2. filesys_done s = Some s1 \<and> filesys_init ds s0 False junk = Some s2 \<and> fs_inv s2 \<and>
    a_names (abs_fs s2) = a_names (abs_fs s) \<and> a_handles (abs_fs s2) = Map.empty \<and>
    (\<forall>n\<in>ran (a_names (abs_fs s)). a_data (abs_fs s2) n = a_data (abs_fs s) n)"
proof -
  obtain s1 where s1: "filesys_done s = Some s1" "fs_device s1 = fs_device s" by (rule filesys_done_ok [OF assms(1)])
  then have b: "all_blocks ds ! i = fs_device s" using assms(6) by simp
  have d: "disk_inv (all_blocks ds ! i)" using inv_disk_inv [OF fs_invD [OF assms(1)]] b by simp
  have j: "length junk = elem_cnt (b_size (all_blocks ds ! i))" using assms(5) b by simp
  obtain s2 where s2: "filesys_init ds s0 False junk = Some s2" "fs_inv s2" "names s2 = disk_names (all_blocks ds ! i)"
    "content s2 = (\<lambda>n. inode_bytes (all_blocks ds ! i) (dinode (all_blocks ds ! i) n))" "dom (files s2) = {free_map_file s2}"
    by (rule filesys_init_ok [OF assms(2,3) d assms(4) j])
  have n: "names s2 = names s" and c: "content s2 = content s"
    using s2(3,4) b by (simp_all add: disk_names_def names_def content_def fun_eq_iff)
  have h: "handles s2 = Map.empty" using s2(5) by (auto simp: handles_def fun_eq_iff dom_def split: option.splits)
  have "a_data (abs_fs s2) m = a_data (abs_fs s) m" if "m \<in> ran (names s)" for m
    using that n c by (simp add: abs_fs_def view_def objects_def)
  then show ?thesis using s1(1) s2(1,2) n h by (auto simp: abs_fs_def)
qed

theorem files_survive_restart_witness:
  "\<exists>s1 s2. filesys_done sample_mounted = Some s1 \<and>
    filesys_init \<lparr>all_blocks = [fs_device (the (filesys_done sample_mounted))], block_by_role = [BLOCK_FILESYS \<mapsto> 0]\<rparr> sample_boot False
      (replicate (elem_cnt (b_size (fs_device sample_mounted))) 0) = Some s2 \<and> fs_inv s2 \<and>
    a_names (abs_fs s2) = Map.empty"
  using files_survive_restart [OF sample_mounted_ok(1), of "\<lparr>all_blocks = [fs_device (the (filesys_done sample_mounted))],
      block_by_role = [BLOCK_FILESYS \<mapsto> 0]\<rparr>" 0 sample_boot "replicate (elem_cnt (b_size (fs_device sample_mounted))) 0"]
    sample_ok(6) sample_mounted_ok(2) by (auto simp: abs_fs_def)

text \<open>
  C27. Reading back through the file interface: after a write of at most what fits before the end of a
  file that no one has denied writes to, seeking back to the old position and reading the same
  number of bytes returns exactly what was written.
\<close>

theorem file_write_then_read:
  assumes "fs_inv s" "a_handles (abs_fs s) f = Some h" "\<not> denied (abs_fs s) (h_object h)" "length buf < 2 ^ 31"
    "0 \<le> h_pos h" "h_pos h < 2 ^ 31" "nat (h_pos h) + length buf \<le> length (data_of (abs_fs s) (h_object h))"
  shows "\<exists>s1 s2 s3. file_write s f buf (int (length buf)) = Some (int (length buf), s1) \<and> file_seek s1 f (h_pos h) = Some s2 \<and>
     file_read s2 f (int (length buf)) = Some (buf, s3) \<and> fs_inv s3"
proof -
  have "fs_inv s \<and> length (replicate 20 (0 :: u8)) = 20" using assms(1) by simp
  from pintos.write_read [OF this assms(2-7)] show ?thesis by (auto simp: fs_exec_def)
qed


theorem file_write_then_read_witness:
  "\<exists>s1 s2 s3. file_write (snd sample_opened) (fst sample_opened) [1, 2, 3] 3 = Some (3, s1) \<and>
     file_seek s1 (fst sample_opened) 0 = Some s2 \<and> file_read s2 (fst sample_opened) 3 = Some ([1, 2, 3], s3) \<and> fs_inv s3"
proof -
  let ?s = "snd sample_opened" and ?f = "fst sample_opened"
  obtain n where n: "abs_fs ?s = \<lparr>a_names = [[97] \<mapsto> n], a_data = [n \<mapsto> replicate 100 0],
     a_handles = [?f \<mapsto> \<lparr>h_object = n, h_pos = 0, h_deny = False\<rparr>]\<rparr>"
    using sample_opened_ok(2) by blast
  let ?h = "\<lparr>h_object = n, h_pos = 0, h_deny = False\<rparr>"
  have "a_handles (abs_fs ?s) ?f = Some ?h" "\<not> denied (abs_fs ?s) (h_object ?h)"
    "nat (h_pos ?h) + length [1, 2, 3 :: u8] \<le> length (data_of (abs_fs ?s) (h_object ?h))"
    by (auto simp: n denied_def data_of_def)
  then show ?thesis using file_write_then_read [OF sample_opened_ok(1), of ?f ?h "[1, 2, 3]"] by simp
qed

text \<open>
  C15. Creating a file succeeds when nothing is in the way: the name is not taken and has 1 to 14 bytes,
  fewer than 16 names are in use, and the free map has a run of one sector more than the file
  needs. The new file consists of zero bytes and the invariant holds.
\<close>

theorem create_succeeds:
  assumes "fs_inv s" "0 \<notin> set name" "name \<noteq> []" "length name \<le> NAME_MAX" "names s name = None" "card (dom (names s)) < 16"
    "0 \<le> len" "len < 2 ^ 31" "has_room (free_map s) (1 + bytes_to_sectors len)" "length junk = 20"
  shows "\<exists>s' n. filesys_create s name len junk = Some (True, s') \<and> fs_inv s' \<and> names s' = (names s)(name \<mapsto> n) \<and>
    content s' n = replicate (nat len) 0"
proof -
  have "can_create s name len" using assms(3-6,9) not_dir_full [OF assms(1,6)] by (simp add: can_create_def)
  from create_returns_true [OF assms(1,2,10,7,8) this] show ?thesis by metis
qed

theorem create_succeeds_witness:
  "\<exists>s' n. filesys_create sample_mounted [97] 100 (replicate 20 7) = Some (True, s') \<and> fs_inv s' \<and>
    names s' = (names sample_mounted)([97] \<mapsto> n) \<and> content s' n = replicate 100 0"
  using create_succeeds [OF sample_mounted_ok(1), of "[97]" 100 "replicate 20 7"] sample_room sample_mounted_ok(2)
  by (simp add: can_create_def)

text \<open>
  C31. Creating a file under a name that exists loses sectors: when the free map has room, \<open>filesys_create\<close> returns
  false as it should, but the sectors allocated for the data of the file it did not create stay
  marked in the free map, although no inode owns them.
\<close>

theorem create_existing_name_leaks:
  assumes "fs_inv s" "0 \<notin> set name" "names s name \<noteq> None" "0 \<le> len" "len < 2 ^ 31"
    "has_room (free_map s) (1 + bytes_to_sectors len)" "length junk = 20"
  shows "\<exists>s'. filesys_create s name len junk = Some (False, s') \<and> fs_inv s' \<and> abs_fs s' = abs_fs s \<and>
    card (bits_set (free_map s')) = card (bits_set (free_map s)) + bytes_to_sectors len"
proof -
  note i = fs_invD [OF assms(1)]
  obtain d p s1 G1 where s1: "dir_open_root s = Some (d, s1)" "inv (files s) G1 (\<lambda>_. 0) s1" "root_open s1 d p" "sees s s1" "live s1 = live s"
      "d \<noteq> 0" "files_kept (files s) s s1" "closable (files s) (dirs s) G1 d s s1" "free_map s1 = free_map s"
    by (rule with_root [OF i])
  have pre: "names s1 name \<noteq> None" "has_room (free_map s1) (1 + bytes_to_sectors len)" using s1(4,9) assms(3,6) by (simp_all add: sees_def)
  obtain s2 where s2: "create_step s1 d name len junk = Some (False, s2)" "inv (files s) G1 (\<lambda>_. 0) s2" "dirs s2 = dirs s1" "root_open s2 d p"
      "card (bits_set (free_map s2)) = card (bits_set (free_map s1)) + bytes_to_sectors len"
    by (rule create_step_leak [OF s1(2,3,6) assms(2,7,4,5) pre])
  obtain s3 where s3: "dir_close s2 d = Some s3" by (rule closableD [OF s1(8) s2(2,3)])
  have r: "filesys_create s name len junk = Some (False, s3)" using s1(1) s2(1) s3 by (simp add: filesys_create_split)
  have c: "card (bits_set (free_map s3)) = card (bits_set (free_map s)) + bytes_to_sectors len"
    using root_close_free_map [OF s2(2,4) s3] s2(5) s1(9) by simp
  show ?thesis
  proof (cases rule: filesys_create_ok [OF i assms(2,7,4,5), case_names fail ok])
    case (fail s')
    then have "s' = s3" using r by simp
    moreover have "fs_inv s'" using fail(2,3) by (intro inv_same_tables) (simp_all add: unchanged_def sees_def)
    ultimately show ?thesis using r c abs_unchanged [OF _ fail(3)] by blast
  next
    case (ok s' n)
    then show ?thesis using r by simp
  qed
qed

theorem create_existing_name_leaks_witness:
  "\<exists>s'. filesys_create sample_created [97] 1 (replicate 20 7) = Some (False, s') \<and> abs_fs s' = abs_fs sample_created \<and>
     card (bits_set (free_map s')) = card (bits_set (free_map sample_created)) + 1"
proof -
  obtain n where n: "names sample_created = [[97] \<mapsto> n]" using sample_created_ok(3) by (auto simp: abs_fs_def view_def)
  have room2: "has_room (free_map sample_created) (1 + bytes_to_sectors 1)"
    using sample_created_ok(2) by (simp add: bytes_to_sectors_eq numeral_2_eq_2)
  have pre: "0 \<notin> set [97 :: u8]" "names sample_created [97] \<noteq> None" "(0 :: int) \<le> 1" "(1 :: int) < 2 ^ 31"
      "has_room (free_map sample_created) (1 + bytes_to_sectors 1)" "length (replicate 20 (7 :: u8)) = 20"
    using n room2 by simp_all
  have "bytes_to_sectors 1 = 1" by (simp add: bytes_to_sectors_eq)
  then show ?thesis using create_existing_name_leaks [OF sample_created_ok(1) pre] by metis
qed

end
