(* ===== verification/Hash_Table.thy ===== *)
theory Hash_Table
  imports C_Strings Byte_Encoding
begin

unbundle bit_operations_syntax

text \<open>
  \<^verbatim>\<open>lib/kernel/hash.c\<close>: hash tables with chaining. A bucket is the sequence of its elements, as
  the list library represents it; elements are values of any type. \<open>malloc\<close> may fail wherever the
  code calls it, which a boolean argument says. The interface of a table with keys is a locale;
  hash tables are an instance for every key that the comparison and the hash function respect.
\<close>

section \<open>The code\<close>

record 'e hash =
  h_elem_cnt :: nat
  h_bucket_cnt :: nat
  h_buckets :: "'e list list"
  h_hash :: "'e \<Rightarrow> u32"
  h_less :: "'e \<Rightarrow> 'e \<Rightarrow> bool"

definition find_bucket :: "'e hash \<Rightarrow> 'e \<Rightarrow> nat option" where
  "find_bucket h e =
     (let bucket_idx = unat (h_hash h e) AND (h_bucket_cnt h - 1)
      in if bucket_idx < length (h_buckets h) then Some bucket_idx else None)"

definition find_elem :: "'e hash \<Rightarrow> nat \<Rightarrow> 'e \<Rightarrow> 'e option" where
  "find_elem h bucket e = find (\<lambda>hi. \<not> h_less h hi e \<and> \<not> h_less h e hi) (h_buckets h ! bucket)"

definition turn_off_least_1bit :: "nat \<Rightarrow> nat" where
  "turn_off_least_1bit x = x AND (x - 1)"

definition is_power_of_2 :: "nat \<Rightarrow> bool" where
  "is_power_of_2 x \<longleftrightarrow> x \<noteq> 0 \<and> turn_off_least_1bit x = 0"

partial_function (option) power_loop :: "nat \<Rightarrow> nat option" where
  "power_loop n = (if \<not> is_power_of_2 n then power_loop (turn_off_least_1bit n) else Some n)"

text \<open>The loops of \<open>rehash\<close> that move the elements of the old buckets.\<close>

fun move_elems :: "'e list \<Rightarrow> 'e hash \<Rightarrow> 'e hash option" where
  "move_elems [] h = Some h"
| "move_elems (e # es) h = do {
     new_bucket \<leftarrow> find_bucket h e;
     move_elems es (h\<lparr>h_buckets := (h_buckets h)[new_bucket := e # h_buckets h ! new_bucket]\<rparr>) }"

fun move_buckets :: "'e list list \<Rightarrow> 'e hash \<Rightarrow> 'e hash option" where
  "move_buckets [] h = Some h"
| "move_buckets (b # bs) h = do { h \<leftarrow> move_elems b h; move_buckets bs h }"

definition rehash :: "bool \<Rightarrow> 'e hash \<Rightarrow> 'e hash option" where
  "rehash mem_ok h = do {
     let n = h_elem_cnt h div 2;
     new_bucket_cnt \<leftarrow> power_loop (if n < 4 then 4 else n);
     if new_bucket_cnt = h_bucket_cnt h then Some h
     else if \<not> mem_ok then Some h
     else move_buckets (h_buckets h)
            (h\<lparr>h_buckets := replicate new_bucket_cnt [], h_bucket_cnt := new_bucket_cnt\<rparr>) }"

definition insert_elem :: "'e hash \<Rightarrow> nat \<Rightarrow> 'e \<Rightarrow> 'e hash" where
  "insert_elem h bucket e =
     h\<lparr>h_elem_cnt := h_elem_cnt h + 1, h_buckets := (h_buckets h)[bucket := e # h_buckets h ! bucket]\<rparr>"

text \<open>\<open>list_remove\<close> takes the element out of whatever bucket it is in.\<close>

definition remove_elem :: "'e hash \<Rightarrow> 'e \<Rightarrow> 'e hash" where
  "remove_elem h e = h\<lparr>h_elem_cnt := h_elem_cnt h - 1, h_buckets := map (remove1 e) (h_buckets h)\<rparr>"

text \<open>The destructor acts on a state of its own.\<close>

definition hash_clear :: "('e \<Rightarrow> 's \<Rightarrow> 's) option \<Rightarrow> 'e hash \<Rightarrow> 's \<Rightarrow> 'e hash \<times> 's" where
  "hash_clear destructor h s =
     (h\<lparr>h_elem_cnt := 0, h_buckets := replicate (h_bucket_cnt h) []\<rparr>,
      case destructor of None \<Rightarrow> s | Some d \<Rightarrow> fold (fold d) (h_buckets h) s)"

definition hash_init :: "bool \<Rightarrow> ('e \<Rightarrow> u32) \<Rightarrow> ('e \<Rightarrow> 'e \<Rightarrow> bool) \<Rightarrow> 'e hash option" where
  "hash_init mem_ok hsh lt =
     (if mem_ok
      then Some (fst (hash_clear None \<lparr>h_elem_cnt = 0, h_bucket_cnt = 4, h_buckets = replicate 4 [],
                                        h_hash = hsh, h_less = lt\<rparr> ()))
      else None)"

definition hash_destroy :: "('e \<Rightarrow> 's \<Rightarrow> 's) option \<Rightarrow> 'e hash \<Rightarrow> 's \<Rightarrow> 's" where
  "hash_destroy destructor h s = (if destructor \<noteq> None then snd (hash_clear destructor h s) else s)"

definition hash_insert :: "bool \<Rightarrow> 'e hash \<Rightarrow> 'e \<Rightarrow> ('e option \<times> 'e hash) option" where
  "hash_insert mem_ok h e = do {
     bucket \<leftarrow> find_bucket h e;
     let old = find_elem h bucket e;
     h \<leftarrow> rehash mem_ok (if old = None then insert_elem h bucket e else h);
     Some (old, h) }"

definition hash_replace :: "bool \<Rightarrow> 'e hash \<Rightarrow> 'e \<Rightarrow> ('e option \<times> 'e hash) option" where
  "hash_replace mem_ok h e = do {
     bucket \<leftarrow> find_bucket h e;
     let old = find_elem h bucket e;
     let h = (case old of Some x \<Rightarrow> remove_elem h x | None \<Rightarrow> h);
     h \<leftarrow> rehash mem_ok (insert_elem h bucket e);
     Some (old, h) }"

definition hash_find :: "'e hash \<Rightarrow> 'e \<Rightarrow> 'e option option" where
  "hash_find h e = do { bucket \<leftarrow> find_bucket h e; Some (find_elem h bucket e) }"

definition hash_delete :: "bool \<Rightarrow> 'e hash \<Rightarrow> 'e \<Rightarrow> ('e option \<times> 'e hash) option" where
  "hash_delete mem_ok h e = do {
     bucket \<leftarrow> find_bucket h e;
     case find_elem h bucket e of
       Some x \<Rightarrow> do { h \<leftarrow> rehash mem_ok (remove_elem h x); Some (Some x, h) }
     | None \<Rightarrow> Some (None, h) }"

definition hash_apply :: "('e \<Rightarrow> 's \<Rightarrow> 's) \<Rightarrow> 'e hash \<Rightarrow> 's \<Rightarrow> 's" where
  "hash_apply action h s = fold (fold action) (h_buckets h) s"

text \<open>
  An iterator is a bucket and how many of its elements have been passed: \<open>elem\<close> is the last of these,
  or the head of the list before the first. Past the last bucket \<open>elem\<close> is the null pointer.
\<close>

record hash_iterator =
  it_bucket :: nat
  it_pos :: nat

definition hash_first :: "'e hash \<Rightarrow> hash_iterator" where
  "hash_first h = \<lparr>it_bucket = 0, it_pos = 0\<rparr>"

text \<open>\<open>bs\<close> are the buckets from the current one on.\<close>

fun next_loop :: "'e list list \<Rightarrow> nat \<Rightarrow> nat \<Rightarrow> 'e option \<times> hash_iterator" where
  "next_loop [] i pos = (None, \<lparr>it_bucket = i, it_pos = pos\<rparr>)"
| "next_loop (b # bs) i pos =
     (if pos < length b then (Some (b ! pos), \<lparr>it_bucket = i, it_pos = pos + 1\<rparr>)
      else next_loop bs (i + 1) 0)"

text \<open>Advancing an iterator whose \<open>elem\<close> is null follows a null pointer.\<close>

definition hash_next :: "'e hash \<Rightarrow> hash_iterator \<Rightarrow> ('e option \<times> hash_iterator) option" where
  "hash_next h it =
     (if it_bucket it < length (h_buckets h)
      then Some (next_loop (drop (it_bucket it) (h_buckets h)) (it_bucket it) (it_pos it)) else None)"

definition hash_cur :: "'e hash \<Rightarrow> hash_iterator \<Rightarrow> 'e option option" where
  "hash_cur h it =
     (if length (h_buckets h) \<le> it_bucket it then Some None
      else if it_pos it = 0 \<or> length (h_buckets h ! it_bucket it) < it_pos it then None
      else Some (Some (h_buckets h ! it_bucket it ! (it_pos it - 1))))"

definition hash_size :: "'e hash \<Rightarrow> nat" where
  "hash_size h = h_elem_cnt h"

definition hash_empty :: "'e hash \<Rightarrow> bool" where
  "hash_empty h \<longleftrightarrow> h_elem_cnt h = 0"

definition FNV_32_PRIME :: u32 where
  "FNV_32_PRIME = 16777619"

definition FNV_32_BASIS :: u32 where
  "FNV_32_BASIS = 2166136261"

primrec hash_bytes_loop :: "nat \<Rightarrow> bytes \<Rightarrow> nat \<Rightarrow> u32 \<Rightarrow> u32 option" where
  "hash_bytes_loop 0 m buf hsh = Some hsh"
| "hash_bytes_loop (Suc n) m buf hsh = do {
     b \<leftarrow> rd m buf;
     hash_bytes_loop n m (buf + 1) ((hsh * FNV_32_PRIME) XOR ucast b) }"

definition hash_bytes :: "bytes \<Rightarrow> nat \<Rightarrow> nat \<Rightarrow> u32 option" where
  "hash_bytes m buf cnt = do { ASSERT (buf \<noteq> NULL); hash_bytes_loop cnt m buf FNV_32_BASIS }"

fun hash_string_loop :: "bytes \<Rightarrow> u32 \<Rightarrow> u32 option" where
  "hash_string_loop [] hsh = None"
| "hash_string_loop (b # bs) hsh =
     (if b \<noteq> 0 then hash_string_loop bs ((hsh * FNV_32_PRIME) XOR ucast b) else Some hsh)"

definition hash_string :: "bytes \<Rightarrow> nat \<Rightarrow> u32 option" where
  "hash_string m s = do { ASSERT (s \<noteq> NULL); hash_string_loop (drop s m) FNV_32_BASIS }"

text \<open>\<open>hash_int\<close> hashes the four bytes of its argument.\<close>

definition hash_int :: "u32 \<Rightarrow> u32 option" where
  "hash_int i = hash_bytes_loop 4 (le_bytes 4 (unat i)) 0 FNV_32_BASIS"

section \<open>Powers of two\<close>

lemma turn_off_even: "0 < y \<Longrightarrow> turn_off_least_1bit (2 * y) = 2 * turn_off_least_1bit y"
proof -
  assume "0 < y"
  then have "2 * y - 1 = 1 + 2 * (y - 1)" by simp
  then show ?thesis unfolding turn_off_least_1bit_def by (simp add: and_rec [of "2 * y"])
qed

lemma turn_off_odd: "turn_off_least_1bit (2 * y + 1) = 2 * y"
proof -
  have "(2 * y + 1) AND 2 * y = 2 * (y AND y)" by (subst and_rec) simp
  then show ?thesis by (simp add: turn_off_least_1bit_def)
qed

text \<open>The highest power of two below a number is not lost by turning off another bit.\<close>

lemma turn_off_keeps_top:
  "0 < x \<Longrightarrow> \<not> is_power_of_2 x \<Longrightarrow>
   turn_off_least_1bit x < x \<and> (2 ^ k \<le> turn_off_least_1bit x \<longleftrightarrow> 2 ^ k \<le> x) \<and> 0 < turn_off_least_1bit x"
proof (induction x arbitrary: k rule: less_induct)
  case (less x)
  show ?case
  proof (cases "even x")
    case True
    then obtain y where y: "x = 2 * y" by blast
    then have pos: "0 < y" "y < x" using less.prems(1) by simp_all
    have np: "\<not> is_power_of_2 y" using less.prems(2) pos(1) by (simp add: is_power_of_2_def y turn_off_even)
    note IH = less.IH [OF pos(2,1) np]
    have "2 ^ k \<le> 2 * turn_off_least_1bit y \<longleftrightarrow> 2 ^ k \<le> 2 * y"
    proof (cases k)
      case 0
      then show ?thesis using IH [of 0] pos(1) by simp
    next
      case (Suc j)
      then show ?thesis using IH [of j] by simp
    qed
    then show ?thesis using IH pos(1) by (simp add: y turn_off_even)
  next
    case False
    then obtain y where y: "x = 2 * y + 1" by (metis oddE)
    have "y \<noteq> 0"
    proof
      assume "y = 0"
      then show False using less.prems(2) by (simp add: y is_power_of_2_def turn_off_least_1bit_def)
    qed
    moreover have "2 ^ k \<le> 2 * y \<longleftrightarrow> 2 ^ k \<le> 2 * y + 1" using \<open>y \<noteq> 0\<close> by (cases k) auto
    ultimately show ?thesis by (simp add: y turn_off_odd [simplified])
  qed
qed

lemma power_of_2_turn_off: "is_power_of_2 x \<Longrightarrow> \<exists>k. x = 2 ^ k"
proof (induction x rule: less_induct)
  case (less x)
  have pos: "0 < x" using less.prems by (simp add: is_power_of_2_def)
  show ?case
  proof (cases "even x")
    case True
    then obtain y where y: "x = 2 * y" by blast
    have "is_power_of_2 y" using less.prems pos by (auto simp: y is_power_of_2_def turn_off_even)
    then obtain k where "y = 2 ^ k" using less.IH [of y] pos y by auto
    then show ?thesis using y by (intro exI [of _ "Suc k"]) simp
  next
    case False
    then obtain y where y: "x = 2 * y + 1" by (metis oddE)
    then have "y = 0" using less.prems by (simp add: is_power_of_2_def turn_off_odd [simplified])
    then show ?thesis using y by (intro exI [of _ 0]) simp
  qed
qed

lemma power_is_power_of_2: "is_power_of_2 (2 ^ k)"
proof (induction k)
  case (Suc k)
  then show ?case using turn_off_even [of "2 ^ k"] by (simp add: is_power_of_2_def)
qed (simp add: is_power_of_2_def turn_off_least_1bit_def)

lemma power_loop_power [simp]: "power_loop (2 ^ k) = Some (2 ^ k)"
  by (simp add: power_loop.simps power_is_power_of_2)

lemma power_loop_top:
  "0 < n \<Longrightarrow> \<exists>k. power_loop n = Some (2 ^ k) \<and> 2 ^ k \<le> n \<and> n < 2 ^ Suc k"
proof (induction n rule: less_induct)
  case (less n)
  show ?case
  proof (cases "is_power_of_2 n")
    case True
    then obtain k where "n = 2 ^ k" using power_of_2_turn_off by blast
    then show ?thesis by (intro exI [of _ k]) simp
  next
    case False
    note t = turn_off_keeps_top [OF less.prems False]
    obtain k where k: "power_loop (turn_off_least_1bit n) = Some (2 ^ k)" "2 ^ k \<le> turn_off_least_1bit n"
        "turn_off_least_1bit n < 2 ^ Suc k"
      using less.IH t by blast
    then have "2 ^ k \<le> n" "\<not> 2 ^ Suc k \<le> n" using t by (meson not_le)+
    moreover have "power_loop n = Some (2 ^ k)" using False k(1) by (subst power_loop.simps) simp
    ultimately show ?thesis by auto
  qed
qed

lemma and_power_mask: "x AND (2 ^ k - 1) = x mod 2 ^ k" for x :: nat
  by (metis take_bit_eq_mask take_bit_eq_mod mask_eq_exp_minus_1)

section \<open>Tables with keys\<close>

text \<open>
  The interface: \<open>table s\<close> is the map a state represents. Inserting keeps an element with the same
  key, replacing does not; both return the element that was there.
\<close>

locale keyed_table =
  fixes ok :: "'s \<Rightarrow> bool" and table :: "'s \<Rightarrow> 'k \<Rightarrow> 'e option" and key :: "'e \<Rightarrow> 'k"
    and insert_op replace_op delete_op :: "bool \<Rightarrow> 's \<Rightarrow> 'e \<Rightarrow> ('e option \<times> 's) option"
    and find_op :: "'s \<Rightarrow> 'e \<Rightarrow> 'e option option"
  assumes insert_law: "ok s \<Longrightarrow> \<exists>s'. insert_op b s e = Some (table s (key e), s') \<and> ok s' \<and>
      table s' = (if table s (key e) = None then (table s)(key e \<mapsto> e) else table s)"
    and replace_law: "ok s \<Longrightarrow> \<exists>s'. replace_op b s e = Some (table s (key e), s') \<and> ok s' \<and>
      table s' = (table s)(key e \<mapsto> e)"
    and delete_law: "ok s \<Longrightarrow> \<exists>s'. delete_op b s e = Some (table s (key e), s') \<and> ok s' \<and>
      table s' = (table s)(key e := None)"
    and find_law: "ok s \<Longrightarrow> find_op s e = Some (table s (key e))"

datatype 'e table_op = Insert bool 'e | Replace bool 'e | Delete bool 'e | Find 'e

text \<open>A run of operations on the table, and the same run on the map, with all results.\<close>

fun table_run ::
  "(bool \<Rightarrow> 's \<Rightarrow> 'e \<Rightarrow> ('e option \<times> 's) option) \<Rightarrow> (bool \<Rightarrow> 's \<Rightarrow> 'e \<Rightarrow> ('e option \<times> 's) option) \<Rightarrow>
   (bool \<Rightarrow> 's \<Rightarrow> 'e \<Rightarrow> ('e option \<times> 's) option) \<Rightarrow> ('s \<Rightarrow> 'e \<Rightarrow> 'e option option) \<Rightarrow>
   'e table_op list \<Rightarrow> 's \<Rightarrow> ('e option list \<times> 's) option" where
  "table_run ins rep del fnd [] s = Some ([], s)"
| "table_run ins rep del fnd (c # cs) s = do {
     (r, s) \<leftarrow> (case c of Insert b e \<Rightarrow> ins b s e | Replace b e \<Rightarrow> rep b s e | Delete b e \<Rightarrow> del b s e
                | Find e \<Rightarrow> do { r \<leftarrow> fnd s e; Some (r, s) });
     (rs, s) \<leftarrow> table_run ins rep del fnd cs s;
     Some (r # rs, s) }"

fun map_run :: "('e \<Rightarrow> 'k) \<Rightarrow> 'e table_op list \<Rightarrow> ('k \<Rightarrow> 'e option) \<Rightarrow> 'e option list \<times> ('k \<Rightarrow> 'e option)" where
  "map_run key [] m = ([], m)"
| "map_run key (c # cs) m =
     (let (r, m) = (case c of
          Insert _ e \<Rightarrow> (m (key e), if m (key e) = None then m(key e \<mapsto> e) else m)
        | Replace _ e \<Rightarrow> (m (key e), m(key e \<mapsto> e))
        | Delete _ e \<Rightarrow> (m (key e), m(key e := None))
        | Find e \<Rightarrow> (m (key e), m));
          (rs, m) = map_run key cs m
      in (r # rs, m))"

context keyed_table
begin

lemma one_op:
  assumes "ok s"
  shows "\<exists>r s'. (case c of Insert b e \<Rightarrow> insert_op b s e | Replace b e \<Rightarrow> replace_op b s e | Delete b e \<Rightarrow> delete_op b s e
      | Find e \<Rightarrow> Option.bind (find_op s e) (\<lambda>r. Some (r, s))) = Some (r, s') \<and> ok s' \<and>
    (r, table s') = (case c of
        Insert _ e \<Rightarrow> (table s (key e), if table s (key e) = None then (table s)(key e \<mapsto> e) else table s)
      | Replace _ e \<Rightarrow> (table s (key e), (table s)(key e \<mapsto> e))
      | Delete _ e \<Rightarrow> (table s (key e), (table s)(key e := None))
      | Find e \<Rightarrow> (table s (key e), table s))"
proof (cases c)
  case (Insert b e)
  then show ?thesis using insert_law [OF assms, of b e] by auto
next
  case (Replace b e)
  then show ?thesis using replace_law [OF assms, of b e] by auto
next
  case (Delete b e)
  then show ?thesis using delete_law [OF assms, of b e] by auto
next
  case (Find e)
  then show ?thesis using find_law [OF assms, of e] assms by auto
qed

lemma run_refines:
  "ok s \<Longrightarrow> \<exists>s'. table_run insert_op replace_op delete_op find_op cs s = Some (fst (map_run key cs (table s)), s') \<and>
     ok s' \<and> table s' = snd (map_run key cs (table s))"
proof (induction cs arbitrary: s)
  case (Cons c cs)
  obtain r s1 where s1: "(case c of Insert b e \<Rightarrow> insert_op b s e | Replace b e \<Rightarrow> replace_op b s e
      | Delete b e \<Rightarrow> delete_op b s e | Find e \<Rightarrow> Option.bind (find_op s e) (\<lambda>r. Some (r, s))) = Some (r, s1)" "ok s1"
    "(r, table s1) = (case c of
        Insert _ e \<Rightarrow> (table s (key e), if table s (key e) = None then (table s)(key e \<mapsto> e) else table s)
      | Replace _ e \<Rightarrow> (table s (key e), (table s)(key e \<mapsto> e))
      | Delete _ e \<Rightarrow> (table s (key e), (table s)(key e := None))
      | Find e \<Rightarrow> (table s (key e), table s))"
    using one_op [OF Cons.prems, of c] by blast
  obtain s' where "table_run insert_op replace_op delete_op find_op cs s1 = Some (fst (map_run key cs (table s1)), s')"
      "ok s'" "table s' = snd (map_run key cs (table s1))"
    using Cons.IH [OF s1(2)] by blast
  then show ?case using s1(1) by (simp add: s1(3) [symmetric] case_prod_beta)
qed simp

end

section \<open>Hash tables are tables with keys\<close>

definition elems :: "'e hash \<Rightarrow> 'e list" where
  "elems h = concat (h_buckets h)"

definition funs_ok :: "('e \<Rightarrow> 'k) \<Rightarrow> 'e hash \<Rightarrow> bool" where
  "funs_ok key h \<longleftrightarrow> (\<forall>a b. (\<not> h_less h a b \<and> \<not> h_less h b a) = (key a = key b)) \<and>
     (\<forall>a b. key a = key b \<longrightarrow> h_hash h a = h_hash h b)"

definition home :: "'e hash \<Rightarrow> 'e \<Rightarrow> nat" where
  "home h e = unat (h_hash h e) mod h_bucket_cnt h"

definition placed :: "'e hash \<Rightarrow> bool" where
  "placed h \<longleftrightarrow> (\<exists>k. h_bucket_cnt h = 2 ^ k) \<and> length (h_buckets h) = h_bucket_cnt h \<and>
     (\<forall>i<h_bucket_cnt h. \<forall>e\<in>set (h_buckets h ! i). home h e = i)"

definition hash_ok :: "('e \<Rightarrow> 'k) \<Rightarrow> 'e hash \<Rightarrow> bool" where
  "hash_ok key h \<longleftrightarrow> funs_ok key h \<and> placed h \<and> h_elem_cnt h = length (elems h) \<and> distinct (map key (elems h))"

definition hash_table :: "('e \<Rightarrow> 'k) \<Rightarrow> 'e hash \<Rightarrow> 'k \<Rightarrow> 'e option" where
  "hash_table key h = map_of (map (\<lambda>e. (key e, e)) (elems h))"

lemma funs_ok_cong: "h_hash h' = h_hash h \<Longrightarrow> h_less h' = h_less h \<Longrightarrow> funs_ok key h' = funs_ok key h"
  by (simp only: funs_ok_def)

lemma funs_okD:
  "funs_ok key h \<Longrightarrow> (\<not> h_less h a b \<and> \<not> h_less h b a) = (key a = key b)"
  "funs_ok key h \<Longrightarrow> key a = key b \<Longrightarrow> h_hash h a = h_hash h b"
  unfolding funs_ok_def by blast+

lemma hash_table_Some: "distinct (map key (elems h)) \<Longrightarrow> hash_table key h k = Some e \<longleftrightarrow> e \<in> set (elems h) \<and> key e = k"
  by (auto simp: hash_table_def map_of_eq_Some_iff comp_def)

lemma hash_table_None: "hash_table key h k = None \<longleftrightarrow> k \<notin> key ` set (elems h)"
  by (force simp: hash_table_def map_of_eq_None_iff)

lemma hash_table_cong:
  assumes "distinct (map key (elems h))" "distinct (map key (elems h'))" "set (elems h) = set (elems h')"
  shows "hash_table key h = hash_table key h'"
proof
  fix k
  show "hash_table key h k = hash_table key h' k"
    using assms hash_table_Some [of key h k] hash_table_Some [of key h' k]
    by (cases "hash_table key h k"; cases "hash_table key h' k") auto
qed

lemma home_less: "placed h \<Longrightarrow> home h e < h_bucket_cnt h"
  by (auto simp: home_def placed_def)

lemma find_bucket_home: "placed h \<Longrightarrow> find_bucket h e = Some (home h e)"
  using home_less [of h e] by (auto simp: find_bucket_def home_def placed_def and_power_mask [simplified])

lemma push_mset: "i < length bs \<Longrightarrow> mset (concat (bs[i := e # bs ! i])) = add_mset e (mset (concat bs))"
  by (induction bs arbitrary: i) (auto simp: nth_Cons split: nat.splits)

lemma remove_mset:
  assumes "distinct (concat bs)"
  shows "mset (concat (map (remove1 e) bs)) = mset (concat bs) - {#e#}"
  using assms
proof (induction bs)
  case (Cons b bs)
  have IH: "mset (concat (map (remove1 e) bs)) = mset (concat bs) - {#e#}" using Cons by simp
  show ?case
  proof (cases "e \<in> set b")
    case True
    then have "e \<notin> set (concat bs)" using Cons.prems by auto
    then have "mset (concat (map (remove1 e) bs)) = mset (concat bs)" by (simp add: IH diff_single_trivial)
    moreover have "mset (concat bs) + mset b - {#e#} = mset (concat bs) + (mset b - {#e#})"
      using True by (intro diff_union_single_conv) simp
    ultimately show ?thesis by (simp add: add.commute)
  next
    case False
    have "mset b + mset (concat bs) - {#e#} = mset b + (mset (concat bs) - {#e#})"
    proof (cases "e \<in># mset (concat bs)")
      case True
      then show ?thesis by (rule diff_union_single_conv)
    next
      case notin: False
      then have "e \<notin># mset b + mset (concat bs)" using False by simp
      then show ?thesis using notin by (metis diff_single_trivial)
    qed
    then show ?thesis using False by (simp add: IH remove1_idem)
  qed
qed simp

lemma placed_push:
  assumes "placed h"
  shows "placed (h\<lparr>h_elem_cnt := n, h_buckets := (h_buckets h)[home h e := e # h_buckets h ! home h e]\<rparr>)"
  using assms by (auto simp: placed_def home_def nth_list_update)

lemma placed_push0:
  assumes "placed h"
  shows "placed (h\<lparr>h_buckets := (h_buckets h)[home h e := e # h_buckets h ! home h e]\<rparr>)"
  using assms by (auto simp: placed_def home_def nth_list_update)

lemma move_elems_ok:
  assumes "placed h"
  shows "\<exists>bs. move_elems es h = Some (h\<lparr>h_buckets := bs\<rparr>) \<and> placed (h\<lparr>h_buckets := bs\<rparr>) \<and>
    mset (concat bs) = mset es + mset (concat (h_buckets h))"
  using assms
proof (induction es arbitrary: h)
  case Nil
  then show ?case by (intro exI [of _ "h_buckets h"]) simp
next
  case (Cons e es)
  let ?bs = "(h_buckets h)[home h e := e # h_buckets h ! home h e]"
  have "home h e < length (h_buckets h)" using home_less [OF Cons.prems] Cons.prems by (simp add: placed_def)
  then show ?case
    using Cons.IH [OF placed_push0 [OF Cons.prems, of e]]
    by (auto simp: find_bucket_home [OF Cons.prems] push_mset)
qed

lemma move_buckets_ok:
  assumes "placed h"
  shows "\<exists>bs'. move_buckets bs h = Some (h\<lparr>h_buckets := bs'\<rparr>) \<and> placed (h\<lparr>h_buckets := bs'\<rparr>) \<and>
    mset (concat bs') = mset (concat bs) + mset (concat (h_buckets h))"
  using assms
proof (induction bs arbitrary: h)
  case Nil
  then show ?case by (intro exI [of _ "h_buckets h"]) simp
next
  case (Cons b bs)
  obtain bs1 where 1: "move_elems b h = Some (h\<lparr>h_buckets := bs1\<rparr>)" "placed (h\<lparr>h_buckets := bs1\<rparr>)"
      "mset (concat bs1) = mset b + mset (concat (h_buckets h))"
    using move_elems_ok [OF Cons.prems] by blast
  show ?case using Cons.IH [OF 1(2)] 1(1,3) by (auto simp: ac_simps)
qed

lemma distinct_keys_cong: "mset xs = mset ys \<Longrightarrow> distinct (map key xs) = distinct (map key ys)"
  by (metis mset_map mset_eq_imp_distinct_iff)

lemma rehash_ok:
  assumes "placed h"
  shows "\<exists>n bs. rehash mem_ok h = Some (h\<lparr>h_buckets := bs, h_bucket_cnt := n\<rparr>) \<and>
    placed (h\<lparr>h_buckets := bs, h_bucket_cnt := n\<rparr>) \<and> mset (concat bs) = mset (elems h)"
proof -
  let ?n = "if h_elem_cnt h div 2 < 4 then 4 else h_elem_cnt h div 2"
  have "0 < ?n" by simp
  then obtain k where k: "power_loop ?n = Some (2 ^ k)" using power_loop_top [of ?n] by blast
  let ?h = "h\<lparr>h_buckets := replicate (2 ^ k) [], h_bucket_cnt := 2 ^ k\<rparr>"
  have "placed ?h" by (auto simp: placed_def)
  then obtain bs where bs: "move_buckets (h_buckets h) ?h = Some (?h\<lparr>h_buckets := bs\<rparr>)"
      "placed (?h\<lparr>h_buckets := bs\<rparr>)" "mset (concat bs) = mset (elems h)"
    using move_buckets_ok [of ?h "h_buckets h"] by (auto simp: elems_def)
  show ?thesis
  proof (cases "mem_ok \<and> 2 ^ k \<noteq> h_bucket_cnt h")
    case True
    then show ?thesis using k bs
      by (intro exI [of _ "2 ^ k"] exI [of _ bs]) (auto simp: rehash_def Let_def placed_def home_def)
  next
    case False
    then show ?thesis using k assms
      by (intro exI [of _ "h_bucket_cnt h"] exI [of _ "h_buckets h"]) (auto simp: rehash_def Let_def elems_def)
  qed
qed

lemma move_elems_cnt: "move_elems es h = Some h' \<Longrightarrow> h_bucket_cnt h' = h_bucket_cnt h"
  by (induction es arbitrary: h) (force split: bind_splits)+

lemma move_buckets_cnt: "move_buckets bs h = Some h' \<Longrightarrow> h_bucket_cnt h' = h_bucket_cnt h"
  by (induction bs arbitrary: h) (force split: bind_splits dest: move_elems_cnt)+

lemma rehash_count:
  assumes "rehash True h = Some h'"
  shows "power_loop (max 4 (h_elem_cnt h div 2)) = Some (h_bucket_cnt h')"
proof -
  have "(if h_elem_cnt h div 2 < 4 then 4 else h_elem_cnt h div 2) = max 4 (h_elem_cnt h div 2)" by simp
  then show ?thesis using assms
    by (auto dest!: move_buckets_cnt simp: rehash_def Let_def split: bind_splits if_splits)
qed

lemma rehash_table:
  assumes "funs_ok key h" "placed h" "h_elem_cnt h = length (elems h)" "distinct (map key (elems h))"
  shows "\<exists>h'. rehash mem_ok h = Some h' \<and> hash_ok key h' \<and> hash_table key h' = hash_table key h"
proof -
  obtain n bs where h: "rehash mem_ok h = Some (h\<lparr>h_buckets := bs, h_bucket_cnt := n\<rparr>)"
      "placed (h\<lparr>h_buckets := bs, h_bucket_cnt := n\<rparr>)" "mset (concat bs) = mset (elems h)"
    using rehash_ok [OF assms(2)] by blast
  let ?h = "h\<lparr>h_buckets := bs, h_bucket_cnt := n\<rparr>"
  have m: "mset (elems ?h) = mset (elems h)" using h(3) by (simp add: elems_def)
  have "distinct (map key (elems ?h))" using assms(4) distinct_keys_cong [OF m] by blast
  moreover have "hash_table key ?h = hash_table key h"
    using calculation assms(4) mset_eq_setD [OF m] by (intro hash_table_cong)
  moreover have "funs_ok key ?h" using assms(1) funs_ok_cong [of ?h h key] by simp
  moreover have "h_elem_cnt ?h = length (elems ?h)" using assms(3) mset_eq_length [OF m] by simp
  ultimately show ?thesis using h(1,2) unfolding hash_ok_def by blast
qed

lemma find_elem_table:
  assumes "hash_ok key h"
  shows "find_elem h (home h e) e = hash_table key h (key e)"
proof -
  have f: "funs_ok key h" "placed h" "distinct (map key (elems h))" using assms by (auto simp: hash_ok_def)
  have eq: "find_elem h (home h e) e = find (\<lambda>x. key x = key e) (h_buckets h ! home h e)"
    by (simp add: find_elem_def funs_okD(1) [OF f(1)])
  have len: "home h e < length (h_buckets h)" using home_less [OF f(2)] f(2) by (simp add: placed_def)
  have at_home: "x \<in> set (h_buckets h ! home h e)" if x: "x \<in> set (elems h)" "key x = key e" for x
  proof -
    obtain b where "b \<in> set (h_buckets h)" "x \<in> set b" using x(1) by (auto simp: elems_def)
    then obtain i where "i < length (h_buckets h)" "x \<in> set (h_buckets h ! i)"
      by (auto simp: in_set_conv_nth [of b])
    moreover from this have "home h x = i" using f(2) by (auto simp: placed_def)
    moreover have "home h x = home h e" using funs_okD(2) [OF f(1) x(2)] by (simp add: home_def)
    ultimately show ?thesis by simp
  qed
  show ?thesis
  proof (cases "find_elem h (home h e) e")
    case None
    then have "key e \<notin> key ` set (elems h)" using at_home unfolding eq find_None_iff by fastforce
    then show ?thesis using None by (metis hash_table_None)
  next
    case (Some x)
    then have "x \<in> set (h_buckets h ! home h e)" "key x = key e"
      unfolding eq by (auto simp: find_Some_iff)
    then have "x \<in> set (elems h)" using len nth_mem by (force simp: elems_def)
    then show ?thesis using Some hash_table_Some [OF f(3)] \<open>key x = key e\<close> by metis
  qed
qed

lemma insert_elem_table:
  assumes "hash_ok key h" "hash_table key h (key e) = None"
  shows "funs_ok key (insert_elem h (home h e) e)" "placed (insert_elem h (home h e) e)"
    "h_elem_cnt (insert_elem h (home h e) e) = length (elems (insert_elem h (home h e) e))"
    "distinct (map key (elems (insert_elem h (home h e) e)))"
    "hash_table key (insert_elem h (home h e) e) = (hash_table key h)(key e \<mapsto> e)"
proof -
  let ?h = "insert_elem h (home h e) e"
  have f: "funs_ok key h" "placed h" "distinct (map key (elems h))" "h_elem_cnt h = length (elems h)"
    using assms(1) by (auto simp: hash_ok_def)
  have len: "home h e < length (h_buckets h)" using home_less [OF f(2)] f(2) by (simp add: placed_def)
  have m: "mset (elems ?h) = mset (e # elems h)" using push_mset [OF len] by (simp add: elems_def insert_elem_def)
  show "funs_ok key ?h" using f(1) funs_ok_cong [of ?h h key] by (simp add: insert_elem_def)
  show "placed ?h" unfolding insert_elem_def by (rule placed_push [OF f(2)])
  show "h_elem_cnt ?h = length (elems ?h)" using mset_eq_length [OF m] f(4) by (simp add: insert_elem_def)
  show d: "distinct (map key (elems ?h))"
    using distinct_keys_cong [OF m] f(3) assms(2) hash_table_None [of key h] by auto
  show "hash_table key ?h = (hash_table key h)(key e \<mapsto> e)"
  proof
    fix k
    show "hash_table key ?h k = ((hash_table key h)(key e \<mapsto> e)) k"
    proof (cases "k = key e")
      case True
      then show ?thesis using hash_table_Some [OF d] mset_eq_setD [OF m] by simp
    next
      case False
      then have "hash_table key ?h k = Some x \<longleftrightarrow> hash_table key h k = Some x" for x
        unfolding hash_table_Some [OF d] hash_table_Some [OF f(3)] mset_eq_setD [OF m] by auto
      then have "hash_table key ?h k = hash_table key h k" by (metis not_Some_eq)
      then show ?thesis using False by simp
    qed
  qed
qed

lemma placed_remove: "placed h \<Longrightarrow> placed (h\<lparr>h_elem_cnt := n, h_buckets := map (remove1 e) (h_buckets h)\<rparr>)"
  by (auto simp: placed_def home_def dest: notin_set_remove1)

lemma remove_elem_table:
  assumes "hash_ok key h" "hash_table key h k = Some e"
  shows "hash_ok key (remove_elem h e)" "hash_table key (remove_elem h e) = (hash_table key h)(k := None)"
proof -
  let ?h = "remove_elem h e"
  have f: "funs_ok key h" "placed h" "distinct (map key (elems h))" "h_elem_cnt h = length (elems h)"
    using assms(1) by (auto simp: hash_ok_def)
  have e: "e \<in> set (elems h)" "key e = k" using assms(2) hash_table_Some [OF f(3)] by auto
  have m: "mset (elems ?h) = mset (remove1 e (elems h))"
    using remove_mset [of "h_buckets h" e] f(3) by (simp add: elems_def remove_elem_def distinct_map)
  have "distinct (map key (remove1 e (elems h)))" using f(3) by (auto simp: distinct_map inj_on_def)
  then have d: "distinct (map key (elems ?h))" using distinct_keys_cong [OF m] by blast
  have mem: "set (elems ?h) = set (elems h) - {e}"
    using mset_eq_setD [OF m] f(3) by (simp add: distinct_map set_remove1_eq)
  have "funs_ok key ?h" using f(1) funs_ok_cong [of ?h h key] by (simp add: remove_elem_def)
  moreover have "placed ?h" unfolding remove_elem_def by (rule placed_remove [OF f(2)])
  moreover have "h_elem_cnt ?h = length (elems ?h)"
    using mset_eq_length [OF m] f(4) e(1) by (simp add: remove_elem_def length_remove1)
  ultimately show "hash_ok key ?h" using d by (simp add: hash_ok_def)
  show "hash_table key ?h = (hash_table key h)(k := None)"
  proof
    fix k'
    have "hash_table key ?h k' = Some x \<longleftrightarrow> k' \<noteq> k \<and> hash_table key h k' = Some x" for x
    proof
      assume "hash_table key ?h k' = Some x"
      then have x: "x \<in> set (elems h)" "x \<noteq> e" "key x = k'" unfolding hash_table_Some [OF d] mem by auto
      then have "k' \<noteq> k" using f(3) e by (auto simp: distinct_map inj_on_def)
      then show "k' \<noteq> k \<and> hash_table key h k' = Some x" using x hash_table_Some [OF f(3)] by simp
    next
      assume "k' \<noteq> k \<and> hash_table key h k' = Some x"
      then show "hash_table key ?h k' = Some x"
        using e(2) unfolding hash_table_Some [OF d] mem hash_table_Some [OF f(3)] by auto
    qed
    then have "hash_table key ?h k' = (if k' = k then None else hash_table key h k')" by (metis not_Some_eq)
    then show "hash_table key ?h k' = ((hash_table key h)(k := None)) k'" by simp
  qed
qed

lemma home_remove [simp]: "home (remove_elem h x) e = home h e"
  by (simp add: home_def remove_elem_def)

lemmas hash_okD = hash_ok_def [THEN iffD1]

lemma hash_insert_law:
  assumes "hash_ok key h"
  shows "\<exists>h'. hash_insert b h e = Some (hash_table key h (key e), h') \<and> hash_ok key h' \<and>
    hash_table key h' = (if hash_table key h (key e) = None then (hash_table key h)(key e \<mapsto> e) else hash_table key h)"
proof (cases "hash_table key h (key e)")
  case None
  obtain h' where "rehash b (insert_elem h (home h e) e) = Some h'" "hash_ok key h'"
      "hash_table key h' = hash_table key (insert_elem h (home h e) e)"
    using rehash_table [OF insert_elem_table(1-4) [OF assms None]] by blast
  then show ?thesis
    using None assms insert_elem_table(5) [OF assms None]
    by (auto simp: hash_insert_def find_bucket_home hash_ok_def [of key h] find_elem_table [OF assms])
next
  case (Some x)
  obtain h' where "rehash b h = Some h'" "hash_ok key h'" "hash_table key h' = hash_table key h"
    using rehash_table [of key h b] hash_okD [OF assms] by blast
  then show ?thesis using Some assms
    by (auto simp: hash_insert_def find_bucket_home hash_ok_def [of key h] find_elem_table [OF assms])
qed

lemma insert_rehash:
  assumes "hash_ok key h" "hash_table key h (key e) = None"
  shows "\<exists>h'. rehash b (insert_elem h (home h e) e) = Some h' \<and> hash_ok key h' \<and>
    hash_table key h' = (hash_table key h)(key e \<mapsto> e)"
  using rehash_table [OF insert_elem_table(1-4) [OF assms], of b] insert_elem_table(5) [OF assms] by simp

lemma hash_replace_law:
  assumes "hash_ok key h"
  shows "\<exists>h'. hash_replace b h e = Some (hash_table key h (key e), h') \<and> hash_ok key h' \<and>
    hash_table key h' = (hash_table key h)(key e \<mapsto> e)"
proof (cases "hash_table key h (key e)")
  case None
  then show ?thesis using insert_rehash [OF assms None, of b] assms
    by (auto simp: hash_replace_def find_bucket_home hash_ok_def [of key h] find_elem_table [OF assms])
next
  case (Some x)
  note r = remove_elem_table [OF assms Some]
  have "hash_table key (remove_elem h x) (key e) = None" using r(2) by simp
  from insert_rehash [OF r(1) this, of b] show ?thesis using Some assms r(2)
    by (auto simp: hash_replace_def find_bucket_home hash_ok_def [of key h] find_elem_table [OF assms])
qed

lemma hash_delete_law:
  assumes "hash_ok key h"
  shows "\<exists>h'. hash_delete b h e = Some (hash_table key h (key e), h') \<and> hash_ok key h' \<and>
    hash_table key h' = (hash_table key h)(key e := None)"
proof (cases "hash_table key h (key e)")
  case None
  then show ?thesis using assms
    by (auto simp: hash_delete_def find_bucket_home hash_ok_def [of key h] find_elem_table [OF assms])
next
  case (Some x)
  note r = remove_elem_table [OF assms Some]
  obtain h' where "rehash b (remove_elem h x) = Some h'" "hash_ok key h'"
      "hash_table key h' = hash_table key (remove_elem h x)"
    using rehash_table [of key "remove_elem h x" b] hash_okD [OF r(1)] by blast
  then show ?thesis using Some assms r(2)
    by (auto simp: hash_delete_def find_bucket_home hash_ok_def [of key h] find_elem_table [OF assms])
qed

lemma hash_find_law: "hash_ok key h \<Longrightarrow> hash_find h e = Some (hash_table key h (key e))"
  by (simp add: hash_find_def find_elem_table) (simp add: find_bucket_home hash_ok_def find_elem_table)

interpretation hash_tab: keyed_table "hash_ok key" "hash_table key" key hash_insert hash_replace hash_delete hash_find
  for key :: "'e \<Rightarrow> 'k"
  by unfold_locales (rule hash_insert_law hash_replace_law hash_delete_law hash_find_law; assumption)+

text \<open>The loop of the comment of \<open>hash_first\<close>, collecting the elements it visits.\<close>

partial_function (option) hash_visit :: "'e hash \<Rightarrow> hash_iterator \<Rightarrow> 'e list option" where
  "hash_visit h it = do {
     (r, it) \<leftarrow> hash_next h it;
     case r of None \<Rightarrow> Some [] | Some e \<Rightarrow> do { es \<leftarrow> hash_visit h it; Some (e # es) } }"

lemma next_loop_None: "concat bs = [] \<Longrightarrow> fst (next_loop bs i 0) = None"
  by (induction bs arbitrary: i) auto

lemma next_loop_Some:
  "drop pos (concat bs) \<noteq> [] \<Longrightarrow> (case bs of [] \<Rightarrow> True | b # _ \<Rightarrow> pos \<le> length b) \<Longrightarrow>
   \<exists>j p b bs'. next_loop bs i pos = (Some (drop pos (concat bs) ! 0), \<lparr>it_bucket = i + j, it_pos = p\<rparr>) \<and>
     j < length bs \<and> drop j bs = b # bs' \<and> p \<le> length b \<and> drop (Suc pos) (concat bs) = drop p (concat (b # bs'))"
proof (induction bs arbitrary: i pos)
  case (Cons b bs)
  show ?case
  proof (cases "pos < length b")
    case True
    then show ?thesis by (auto intro!: exI [of _ 0] simp: nth_append)
  next
    case False
    then have pos: "pos = length b" using Cons.prems by simp
    have ne: "drop 0 (concat bs) \<noteq> []" using Cons.prems(1) pos by simp
    have "case bs of [] \<Rightarrow> True | b # _ \<Rightarrow> 0 \<le> length b" by (simp split: list.splits)
    from Cons.IH [OF ne this, of "Suc i"] obtain j p b' bs' where
      "next_loop bs (Suc i) 0 = (Some (drop 0 (concat bs) ! 0), \<lparr>it_bucket = Suc i + j, it_pos = p\<rparr>)"
      "j < length bs" "drop j bs = b' # bs'" "p \<le> length b'" "drop (Suc 0) (concat bs) = drop p (concat (b' # bs'))"
      by blast
    then show ?thesis using pos
      by (intro exI [of _ "Suc j"] exI [of _ p] exI [of _ b'] exI [of _ bs']) (simp add: Suc_diff_le)
  qed
qed simp

lemma hash_visit_rest:
  "i < length (h_buckets h) \<Longrightarrow> p \<le> length (h_buckets h ! i) \<Longrightarrow>
   es = drop p (concat (drop i (h_buckets h))) \<Longrightarrow>
   hash_visit h \<lparr>it_bucket = i, it_pos = p\<rparr> = Some es"
proof (induction es arbitrary: i p)
  case Nil
  have d: "drop i (h_buckets h) = h_buckets h ! i # drop (Suc i) (h_buckets h)" using Nil(1) by (simp add: Cons_nth_drop_Suc)
  have p: "p = length (h_buckets h ! i)" using Nil(2,3) by (simp add: d)
  then have "concat (drop (Suc i) (h_buckets h)) = []" "\<not> p < length (h_buckets h ! i)" using Nil(3) by (simp_all add: d)
  then show ?case using Nil next_loop_None [of "drop (Suc i) (h_buckets h)" "Suc i"]
    by (subst hash_visit.simps) (simp add: hash_next_def d prod.case_eq_if)
next
  case (Cons e es)
  let ?bs = "drop i (h_buckets h)"
  have d: "?bs = h_buckets h ! i # drop (Suc i) (h_buckets h)" using Cons.prems(1) by (simp add: Cons_nth_drop_Suc)
  have e: "drop p (concat ?bs) ! 0 = e" "drop (Suc p) (concat ?bs) = es" "drop p (concat ?bs) \<noteq> []"
    using Cons.prems(3) by (metis nth_Cons_0, metis drop_Suc tl_drop list.sel(3), metis list.distinct(1))
  have "case ?bs of [] \<Rightarrow> True | b # _ \<Rightarrow> p \<le> length b" using Cons.prems(2) by (simp add: d)
  from next_loop_Some [OF e(3) this, of i] obtain j p' b bs' where j:
    "next_loop ?bs i p = (Some e, \<lparr>it_bucket = i + j, it_pos = p'\<rparr>)" "j < length ?bs" "drop j ?bs = b # bs'"
    "p' \<le> length b" "es = drop p' (concat (drop j ?bs))" by (auto simp: e)
  have b: "h_buckets h ! (i + j) = b" using j(3) nth_via_drop by (metis drop_drop add.commute)
  have "hash_visit h \<lparr>it_bucket = i + j, it_pos = p'\<rparr> = Some es"
    using j(2,4,5) by (intro Cons.IH) (auto simp: b add.commute)
  then show ?case using Cons.prems(1) j(1) by (subst hash_visit.simps) (simp add: hash_next_def)
qed

lemma hash_visit_elems: "placed h \<Longrightarrow> hash_visit h (hash_first h) = Some (elems h)"
  unfolding hash_first_def elems_def by (rule hash_visit_rest) (auto simp: placed_def)

lemma hash_init_ok:
  assumes "\<forall>a b. (\<not> lt a b \<and> \<not> lt b a) = (key a = key b)" "\<forall>a b. key a = key b \<longrightarrow> hsh a = hsh b"
    "hash_init mem_ok hsh lt = Some h"
  shows "hash_ok key h \<and> hash_table key h = Map.empty"
proof -
  have h: "h = \<lparr>h_elem_cnt = 0, h_bucket_cnt = 4, h_buckets = replicate 4 [], h_hash = hsh, h_less = lt\<rparr>"
    using assms(3) by (auto simp: hash_init_def hash_clear_def split: if_splits)
  have "funs_ok key h" using assms(1,2) unfolding h funs_ok_def hash.simps by blast
  moreover have "placed h" by (auto simp: h placed_def less_Suc_eq numeral_eq_Suc intro!: exI [of _ 2])
  ultimately show ?thesis by (simp add: h hash_ok_def hash_table_def elems_def)
qed

lemma ran_hash_table: "hash_ok key h \<Longrightarrow> ran (hash_table key h) = set (elems h)"
  by (auto simp: ran_def hash_table_Some hash_ok_def)

definition run_hash :: "'e table_op list \<Rightarrow> 'e hash \<Rightarrow> ('e option list \<times> 'e hash) option" where
  "run_hash = table_run hash_insert hash_replace hash_delete hash_find"

section \<open>Properties\<close>

text \<open>
  C21: a hash table is a finite map. Starting from \<open>hash_init\<close>, with a comparison and a hash function
  that agree on when keys are equal, every sequence of insertions, replacements, deletions and
  lookups runs to its end, whatever allocations of \<open>rehash\<close> fail, and each operation returns what it
  returns on the map from keys to elements. In the end \<open>hash_size\<close> counts the keys of the map.
\<close>

theorem hash_refines_map:
  assumes "\<forall>a b. (\<not> lt a b \<and> \<not> lt b a) = (key a = key b)" "\<forall>a b. key a = key b \<longrightarrow> hsh a = hsh b"
    "hash_init True hsh lt = Some h"
  shows "\<exists>h'. run_hash cs h = Some (fst (map_run key cs Map.empty), h') \<and>
    hash_find h' e = Some (snd (map_run key cs Map.empty) (key e)) \<and>
    hash_size h' = card (dom (snd (map_run key cs Map.empty)))"
proof -
  have ok: "hash_ok key h" "hash_table key h = Map.empty" using hash_init_ok [OF assms] by auto
  obtain h' where h': "run_hash cs h = Some (fst (map_run key cs Map.empty), h')" "hash_ok key h'"
      "hash_table key h' = snd (map_run key cs Map.empty)"
    using hash_tab.run_refines [OF ok(1), of cs] by (auto simp: ok(2) run_hash_def)
  have "dom (hash_table key h') = set (map key (elems h'))"
    by (auto simp: hash_table_def dom_map_of_conv_image_fst image_comp)
  then have "card (dom (hash_table key h')) = length (elems h')"
    using h'(2) distinct_card [of "map key (elems h')"] by (simp add: hash_ok_def)
  then show ?thesis using h' hash_find_law [OF h'(2), of e] by (simp add: hash_size_def hash_ok_def)
qed

theorem hash_refines_map_witness:
  "\<exists>h'. run_hash [Insert True 5, Insert False 9, Replace True 5, Delete True 9, Find 5, Find 9]
      \<lparr>h_elem_cnt = 0, h_bucket_cnt = 4, h_buckets = replicate 4 [], h_hash = of_nat, h_less = (<)\<rparr> =
    Some ([None, None, Some 5, Some 9, Some (5::nat), None], h') \<and> hash_find h' 5 = Some (Some 5) \<and> hash_size h' = 1"
proof -
  let ?h = "\<lparr>h_elem_cnt = 0, h_bucket_cnt = 4, h_buckets = replicate 4 [], h_hash = of_nat, h_less = (<)\<rparr> :: nat hash"
  have "hash_init True of_nat (<) = Some ?h" by (simp add: hash_init_def hash_clear_def)
  moreover have "\<forall>a b. (\<not> a < b \<and> \<not> b < a) = (id a = id (b :: nat))" by auto
  ultimately show ?thesis using hash_refines_map [of "(<)" id of_nat ?h
      "[Insert True 5, Insert False 9, Replace True 5, Delete True 9, Find 5, Find 9]" 5]
    by simp
qed

text \<open>
  C39: the iteration idiom of \<open>hash_first\<close> and \<open>hash_next\<close> ends and visits every element of the
  table exactly once.
\<close>

theorem hash_iteration_complete:
  assumes "hash_ok key h"
  shows "\<exists>es. hash_visit h (hash_first h) = Some es \<and> distinct es \<and> set es = ran (hash_table key h) \<and>
    length es = hash_size h"
  using assms hash_visit_elems [of h] ran_hash_table [OF assms]
  by (auto simp: hash_ok_def hash_size_def distinct_map)

theorem hash_iteration_complete_witness:
  "\<exists>es. hash_visit \<lparr>h_elem_cnt = 2, h_bucket_cnt = 4, h_buckets = [[4], [], [6], []], h_hash = of_nat, h_less = (<)\<rparr>
      \<lparr>it_bucket = 0, it_pos = 0\<rparr> = Some es \<and> distinct es \<and> set es = {4, 6::nat}"
proof -
  let ?h = "\<lparr>h_elem_cnt = 2, h_bucket_cnt = 4, h_buckets = [[4], [], [6], []], h_hash = of_nat, h_less = (<)\<rparr> :: nat hash"
  have "\<exists>k. (4::nat) = 2 ^ k" by (rule exI [of _ 2]) simp
  moreover have "home ?h e = i" if i: "i < 4" "e \<in> set (h_buckets ?h ! i)" for i e
  proof -
    have "i = 0 \<or> i = 1 \<or> i = 2 \<or> i = 3" using i(1) by linarith
    then show ?thesis using i(2) by (auto simp: home_def)
  qed
  ultimately have "placed ?h" by (simp add: placed_def)
  moreover have "funs_ok id ?h" unfolding funs_ok_def by auto
  ultimately have "hash_ok id ?h" by (simp add: hash_ok_def elems_def)
  from hash_iteration_complete [OF this]
  show ?thesis by (auto simp: hash_first_def hash_table_def elems_def ran_def split: if_splits)
qed

text \<open>
  C40: \<open>rehash\<close> ends: the loop that clears low bits stops, and, given memory, the new number of
  buckets is the largest power of two that is at most half the number of elements, and at least 4.
\<close>

theorem rehash_ends:
  assumes "placed h"
  shows "\<exists>h' k. rehash True h = Some h' \<and> placed h' \<and> mset (elems h') = mset (elems h) \<and> h_bucket_cnt h' = 2 ^ k \<and>
    2 ^ k \<le> max 4 (h_elem_cnt h div 2) \<and> max 4 (h_elem_cnt h div 2) < 2 ^ Suc k"
proof -
  obtain n bs where r: "rehash True h = Some (h\<lparr>h_buckets := bs, h_bucket_cnt := n\<rparr>)"
      "placed (h\<lparr>h_buckets := bs, h_bucket_cnt := n\<rparr>)" "mset (concat bs) = mset (elems h)"
    using rehash_ok [OF assms] by blast
  obtain k where k: "power_loop (max 4 (h_elem_cnt h div 2)) = Some (2 ^ k)" "2 ^ k \<le> max 4 (h_elem_cnt h div 2)"
      "max 4 (h_elem_cnt h div 2) < 2 ^ Suc k"
    using power_loop_top [of "max 4 (h_elem_cnt h div 2)"] by (metis less_max_iff_disj zero_less_numeral)
  have "n = 2 ^ k" using r(1) k(1) rehash_count [of h "h\<lparr>h_buckets := bs, h_bucket_cnt := n\<rparr>"] by simp
  then show ?thesis using r k(2,3)
    by (intro exI [of _ "h\<lparr>h_buckets := bs, h_bucket_cnt := n\<rparr>"] exI [of _ k]) (simp add: elems_def)
qed

theorem rehash_ends_witness:
  "\<exists>h' k. rehash True \<lparr>h_elem_cnt = 23, h_bucket_cnt = 1, h_buckets = [[3 * 7 :: nat]], h_hash = of_nat, h_less = (<)\<rparr> =
      Some h' \<and> h_bucket_cnt h' = 2 ^ k \<and> 2 ^ k \<le> (11 :: nat) \<and> (11 :: nat) < 2 ^ Suc k"
proof -
  let ?h = "\<lparr>h_elem_cnt = 23, h_bucket_cnt = 1, h_buckets = [[3 * 7]], h_hash = of_nat, h_less = (<)\<rparr> :: nat hash"
  have "\<exists>k. (1::nat) = 2 ^ k" by (rule exI [of _ 0]) simp
  then have "placed ?h" by (auto simp: placed_def home_def)
  from rehash_ends [OF this] show ?thesis by auto
qed

end
