(* ===== verification/Virtual_Memory.thy ===== *)
theory Virtual_Memory
  imports Byte_Encoding
begin

text \<open>
  Virtual addresses (\<^verbatim>\<open>threads/vaddr.h\<close>) and the entries of page directories and page tables
  (\<^verbatim>\<open>threads/pte.h\<close>). Addresses are numbers below two to the 32, entries are 32-bit words; the masks
  and shifts are those of the code, and the lemmas give their arithmetic meaning.
\<close>

unbundle bit_operations_syntax

section \<open>Addresses\<close>

definition PGBITS :: nat where
  "PGBITS = 12"

definition PGSIZE :: nat where
  "PGSIZE = 4096"

definition BITMASK :: "nat \<Rightarrow> nat \<Rightarrow> nat" where
  "BITMASK shift cnt = push_bit shift (2 ^ cnt - 1)"

definition PGMASK :: nat where
  "PGMASK = BITMASK 0 PGBITS"

definition pg_ofs :: "nat \<Rightarrow> nat" where
  "pg_ofs va = va AND PGMASK"

definition pg_no :: "nat \<Rightarrow> nat" where
  "pg_no va = drop_bit PGBITS va"

definition pg_round_up :: "nat \<Rightarrow> nat" where
  "pg_round_up va = wrap32 (va + PGSIZE - 1) AND (2 ^ 32 - 1 - PGMASK)"

definition pg_round_down :: "nat \<Rightarrow> nat" where
  "pg_round_down va = va AND (2 ^ 32 - 1 - PGMASK)"

definition PHYS_BASE :: nat where
  "PHYS_BASE = 0xc0000000"

definition is_user_vaddr :: "nat \<Rightarrow> bool" where
  "is_user_vaddr vaddr \<longleftrightarrow> vaddr < PHYS_BASE"

definition is_kernel_vaddr :: "nat \<Rightarrow> bool" where
  "is_kernel_vaddr vaddr \<longleftrightarrow> vaddr \<ge> PHYS_BASE"

definition ptov :: "nat \<Rightarrow> nat option" where
  "ptov paddr = do { ASSERT (paddr < PHYS_BASE); Some (wrap32 (paddr + PHYS_BASE)) }"

definition vtop :: "nat \<Rightarrow> nat option" where
  "vtop vaddr = do { ASSERT (is_kernel_vaddr vaddr); Some (vaddr - PHYS_BASE) }"

section \<open>Entries\<close>

definition PTSHIFT :: nat where
  "PTSHIFT = PGBITS"

definition PTBITS :: nat where
  "PTBITS = 10"

definition PTMASK :: nat where
  "PTMASK = BITMASK PTSHIFT PTBITS"

definition PDSHIFT :: nat where
  "PDSHIFT = PTSHIFT + PTBITS"

definition pt_no :: "nat \<Rightarrow> nat" where
  "pt_no va = drop_bit PTSHIFT (va AND PTMASK)"

definition pd_no :: "nat \<Rightarrow> nat" where
  "pd_no va = drop_bit PDSHIFT va"

definition PTE_ADDR :: u32 where
  "PTE_ADDR = 0xfffff000"

definition PTE_P :: u32 where
  "PTE_P = 1"

definition PTE_W :: u32 where
  "PTE_W = 2"

definition PTE_U :: u32 where
  "PTE_U = 4"

definition PTE_A :: u32 where
  "PTE_A = 0x20"

definition PTE_D :: u32 where
  "PTE_D = 0x40"

definition pde_create :: "nat \<Rightarrow> u32 option" where
  "pde_create pt = do {
     ASSERT (pg_ofs pt = 0);
     p \<leftarrow> vtop pt;
     Some (of_nat p OR PTE_U OR PTE_P OR PTE_W) }"

definition pde_get_pt :: "u32 \<Rightarrow> nat option" where
  "pde_get_pt pde = do { ASSERT (pde AND PTE_P \<noteq> 0); ptov (unat (pde AND PTE_ADDR)) }"

definition pte_create_kernel :: "nat \<Rightarrow> bool \<Rightarrow> u32 option" where
  "pte_create_kernel page writable = do {
     ASSERT (pg_ofs page = 0);
     p \<leftarrow> vtop page;
     Some (of_nat p OR PTE_P OR (if writable then PTE_W else 0)) }"

definition pte_create_user :: "nat \<Rightarrow> bool \<Rightarrow> u32 option" where
  "pte_create_user page writable = do { e \<leftarrow> pte_create_kernel page writable; Some (e OR PTE_U) }"

definition pte_get_page :: "u32 \<Rightarrow> nat option" where
  "pte_get_page pte = ptov (unat (pte AND PTE_ADDR))"

section \<open>Arithmetic\<close>

lemma bit_BITMASK: "bit (BITMASK shift cnt) n \<longleftrightarrow> shift \<le> n \<and> n < shift + cnt"
proof -
  have "BITMASK shift cnt = push_bit shift (mask cnt)" by (simp only: BITMASK_def mask_eq_exp_minus_1)
  then show ?thesis by (auto simp: bit_push_bit_iff bit_mask_iff)
qed

lemma pg_ofs_mod: "pg_ofs va = va mod 4096"
proof -
  have "pg_ofs va = take_bit 12 va"
    by (rule bit_eqI) (auto simp: pg_ofs_def PGMASK_def PGBITS_def bit_and_iff bit_BITMASK bit_take_bit_iff)
  then show ?thesis by (simp add: take_bit_eq_mod)
qed

lemma pg_no_div: "pg_no va = va div 4096"
  by (simp add: pg_no_def PGBITS_def drop_bit_eq_div)

lemma pd_no_div: "pd_no va = va div 4194304"
  by (simp add: pd_no_def PDSHIFT_def PTSHIFT_def PTBITS_def PGBITS_def drop_bit_eq_div)

lemma pt_no_div: "pt_no va = va div 4096 mod 1024"
proof -
  have "pt_no va = take_bit 10 (drop_bit 12 va)"
    by (rule bit_eqI) (auto simp: pt_no_def PTMASK_def PTSHIFT_def PTBITS_def PGBITS_def bit_and_iff bit_BITMASK bit_take_bit_iff bit_drop_bit_eq)
  then show ?thesis by (simp add: take_bit_eq_mod drop_bit_eq_div)
qed

lemma round_down_mask: "va < 2 ^ 32 \<Longrightarrow> va AND (2 ^ 32 - 1 - PGMASK) = va div 4096 * 4096"
proof -
  assume va: "va < 2 ^ 32"
  have "2 ^ 32 - 1 - PGMASK = BITMASK 12 20"
    by (simp add: PGMASK_def BITMASK_def PGBITS_def push_bit_eq_mult)
  moreover have "va AND BITMASK 12 20 = push_bit 12 (drop_bit 12 va)"
  proof (rule bit_eqI)
    fix n
    have "bit va n \<Longrightarrow> n < 32"
    proof (rule ccontr)
      assume "bit va n" "\<not> n < 32"
      then have "va div 2 ^ n = 0" using va power_increasing [of 32 n "2 :: nat"] by (intro div_less) linarith
      then show False using \<open>bit va n\<close> by (simp add: bit_iff_odd)
    qed
    then show "bit (va AND BITMASK 12 20) n \<longleftrightarrow> bit (push_bit 12 (drop_bit 12 va)) n"
      by (auto simp: bit_and_iff bit_BITMASK bit_push_bit_iff bit_drop_bit_eq)
  qed
  ultimately show ?thesis by (simp add: push_bit_eq_mult drop_bit_eq_div)
qed

lemma pg_round_down_eq: "va < 2 ^ 32 \<Longrightarrow> pg_round_down va = va div 4096 * 4096"
  unfolding pg_round_down_def by (rule round_down_mask)

text \<open>The halves of an address: a page, and an offset.\<close>

lemma page_split: "va = va div 4096 * 4096 + pg_ofs va" "pg_ofs va < 4096"
  by (simp_all add: pg_ofs_mod)

lemma page_index: "va div 4096 = pd_no va * 1024 + pt_no va" "pt_no va < 1024"
proof -
  have "va div 4096 = va div 4096 div 1024 * 1024 + va div 4096 mod 1024" by (rule div_mult_mod_eq [symmetric])
  then show "va div 4096 = pd_no va * 1024 + pt_no va" by (simp add: pd_no_div pt_no_div div_mult2_eq [symmetric])
qed (simp add: pt_no_div)

section \<open>Entries and addresses\<close>

lemma bit_PTE_ADDR: "bit PTE_ADDR n \<longleftrightarrow> 12 \<le> n \<and> n < 32"
proof -
  have e: "PTE_ADDR = push_bit 12 (mask 20)" by (simp add: PTE_ADDR_def mask_eq_exp_minus_1 push_bit_eq_mult)
  show ?thesis unfolding e by (auto simp: bit_push_bit_iff bit_mask_iff)
qed

lemma page_aligned_bit: "(a :: nat) mod 4096 = 0 \<Longrightarrow> n < 12 \<Longrightarrow> \<not> bit a n"
proof -
  assume "a mod 4096 = 0" and n: "n < 12"
  then have "take_bit 12 a = 0" by (simp add: take_bit_eq_mod)
  then have "\<not> bit (take_bit 12 a) n" by simp
  then show ?thesis using n by (simp add: bit_take_bit_iff)
qed

lemma entry_addr:
  fixes f :: u32
  assumes "p mod 4096 = 0" "p < 2 ^ 32" "\<And>n. bit f n \<Longrightarrow> n < 12"
  shows "unat ((of_nat p OR f) AND PTE_ADDR) = p"
proof -
  have "(of_nat p OR f) AND PTE_ADDR = (of_nat p :: u32)"
  proof (rule bit_eqI)
    fix n
    have "12 \<le> n \<Longrightarrow> \<not> bit f n" using assms(3) [of n] by linarith
    moreover have "\<not> 12 \<le> n \<Longrightarrow> \<not> bit p n" using page_aligned_bit [OF assms(1)] by simp
    ultimately show "bit ((of_nat p OR f) AND PTE_ADDR) n \<longleftrightarrow> bit (of_nat p :: u32) n"
      by (cases "12 \<le> n") (auto simp: bit_and_iff bit_or_iff bit_PTE_ADDR bit_of_nat_iff possible_bit_word)
  qed
  then show ?thesis using assms(2) by (simp add: unat_of_nat take_bit_eq_mod)
qed

text \<open>The flags are single bits.\<close>

lemma flag_bits:
  "(e :: u32) AND PTE_P \<noteq> 0 \<longleftrightarrow> bit e 0" "e AND PTE_W \<noteq> 0 \<longleftrightarrow> bit e 1" "e AND PTE_U \<noteq> 0 \<longleftrightarrow> bit e 2"
  "e AND PTE_A \<noteq> 0 \<longleftrightarrow> bit e 5" "e AND PTE_D \<noteq> 0 \<longleftrightarrow> bit e 6"
proof -
  have f: "PTE_P = 2 ^ 0" "PTE_W = 2 ^ 1" "PTE_U = 2 ^ 2" "PTE_A = 2 ^ 5" "PTE_D = 2 ^ 6"
    by (simp_all add: PTE_P_def PTE_W_def PTE_U_def PTE_A_def PTE_D_def)
  show "e AND PTE_P \<noteq> 0 \<longleftrightarrow> bit e 0" "e AND PTE_W \<noteq> 0 \<longleftrightarrow> bit e 1" "e AND PTE_U \<noteq> 0 \<longleftrightarrow> bit e 2"
    "e AND PTE_A \<noteq> 0 \<longleftrightarrow> bit e 5" "e AND PTE_D \<noteq> 0 \<longleftrightarrow> bit e 6"
    unfolding f by (simp_all only: and_exp_eq_0_iff_not_bit not_not)
qed

lemma bit_flags:
  "bit PTE_P n \<longleftrightarrow> n = 0" "bit PTE_W n \<longleftrightarrow> n = 1" "bit PTE_U n \<longleftrightarrow> n = 2" "bit PTE_A n \<longleftrightarrow> n = 5" "bit PTE_D n \<longleftrightarrow> n = 6"
proof -
  have f: "PTE_P = 2 ^ 0" "PTE_W = 2 ^ 1" "PTE_U = 2 ^ 2" "PTE_A = 2 ^ 5" "PTE_D = 2 ^ 6"
    by (simp_all add: PTE_P_def PTE_W_def PTE_U_def PTE_A_def PTE_D_def)
  show "bit PTE_P n \<longleftrightarrow> n = 0" "bit PTE_W n \<longleftrightarrow> n = 1" "bit PTE_U n \<longleftrightarrow> n = 2" "bit PTE_A n \<longleftrightarrow> n = 5" "bit PTE_D n \<longleftrightarrow> n = 6"
    unfolding f bit_exp_iff possible_bit_word by auto
qed

text \<open>A page of kernel memory: what an entry can point to.\<close>

definition kernel_page :: "nat \<Rightarrow> bool" where
  "kernel_page p \<longleftrightarrow> p mod 4096 = 0 \<and> PHYS_BASE \<le> p \<and> p < 2 ^ 32"

lemma kernel_page_addr:
  assumes "kernel_page p"
  shows "pg_ofs p = 0" "vtop p = Some (p - PHYS_BASE)" "(p - PHYS_BASE) mod 4096 = 0" "p - PHYS_BASE < 2 ^ 30"
    "ptov (p - PHYS_BASE) = Some p"
proof -
  have p: "p mod 4096 = 0" "PHYS_BASE \<le> p" "p < 2 ^ 32" using assms by (simp_all add: kernel_page_def)
  show "pg_ofs p = 0" using p(1) by (simp add: pg_ofs_mod)
  show "vtop p = Some (p - PHYS_BASE)" using p(2) by (simp add: vtop_def is_kernel_vaddr_def)
  have "4096 dvd p - PHYS_BASE" using p(1) by (intro dvd_diff_nat) (auto simp: PHYS_BASE_def)
  then show "(p - PHYS_BASE) mod 4096 = 0" by simp
  show "p - PHYS_BASE < 2 ^ 30" using p(3) by (simp add: PHYS_BASE_def)
  show "ptov (p - PHYS_BASE) = Some p" using p(2,3) by (simp add: ptov_def PHYS_BASE_def wrap32_def)
qed

lemma pde_create_ok:
  assumes "kernel_page p"
  obtains e where "pde_create p = Some e" "e \<noteq> 0" "bit e 0" "pde_get_pt e = Some p"
proof -
  note k = kernel_page_addr [OF assms]
  define f where "f = PTE_U OR PTE_P OR PTE_W"
  define e where "e = of_nat (p - PHYS_BASE) OR PTE_U OR PTE_P OR PTE_W"
  have ef: "e = of_nat (p - PHYS_BASE) OR f" unfolding e_def f_def by (simp only: or.assoc)
  have b: "bit e 0" unfolding e_def bit_or_iff bit_flags by blast
  then have n: "e \<noteq> 0" by (metis bit_0_eq bot_apply bot_bool_def)
  have "n < 12" if "bit f n" for n using that unfolding f_def bit_or_iff bit_flags by auto
  then have "unat (e AND PTE_ADDR) = p - PHYS_BASE" unfolding ef using k(3,4) by (intro entry_addr) simp_all
  then have "pde_get_pt e = Some p" unfolding pde_get_pt_def flag_bits using b k(5) by (simp only: ASSERT_simps bind.bind_lunit simp_thms)
  moreover have "pde_create p = Some e" unfolding pde_create_def k(1,2) e_def by (simp only: ASSERT_simps bind.bind_lunit simp_thms)
  ultimately show ?thesis using that b n by blast
qed

lemma pte_create_user_ok:
  assumes "kernel_page p"
  obtains e where "pte_create_user p w = Some e" "bit e 0" "bit e 1 \<longleftrightarrow> w" "bit e 2" "\<not> bit e 5" "\<not> bit e 6" "pte_get_page e = Some p"
proof -
  note k = kernel_page_addr [OF assms]
  define g where "g = (if w then PTE_W else 0)"
  define f where "f = PTE_P OR g OR PTE_U"
  define e where "e = of_nat (p - PHYS_BASE) OR PTE_P OR g OR PTE_U"
  have g: "bit g n \<longleftrightarrow> w \<and> n = 1" for n by (cases w) (simp_all add: g_def bit_flags(2))
  have ef: "e = of_nat (p - PHYS_BASE) OR f" unfolding e_def f_def by (simp only: or.assoc)
  have "n < 12" if "bit f n" for n using that unfolding f_def bit_or_iff bit_flags g by auto
  then have "unat (e AND PTE_ADDR) = p - PHYS_BASE" unfolding ef using k(3,4) by (intro entry_addr) simp_all
  then have "pte_get_page e = Some p" using k(5) by (simp only: pte_get_page_def)
  moreover have "pte_create_user p w = Some e"
    unfolding pte_create_user_def pte_create_kernel_def k(1,2) e_def g_def by (simp only: ASSERT_simps bind.bind_lunit simp_thms or.assoc)
  moreover have "bit e n \<longleftrightarrow> n = 0 \<or> w \<and> n = 1 \<or> n = 2" if "n < 12" for n
  proof -
    have "\<not> bit (of_nat (p - PHYS_BASE) :: u32) n" using page_aligned_bit [OF k(3) that] by (simp only: bit_of_nat_iff) simp
    then show ?thesis unfolding e_def bit_or_iff bit_flags g by blast
  qed
  ultimately show ?thesis using that [of e] by simp
qed

end
