(* ===== verification/Arguments.thy ===== *)
theory Arguments
  imports Virtual_Memory
begin

text \<open>
  Argument passing, \<open>push_arguments\<close> of \<^verbatim>\<open>userprog/process.c\<close>: the command line is split with
  \<open>strtok_r\<close>, the words are copied to the user stack, and the array of pointers, its address, the
  count and a null return address are pushed below them. The kernel's memory is a byte list as in
  the string library; user memory is a partial map, and a write to an unmapped user address is a
  page fault in the kernel, which panics.
\<close>

section \<open>The code\<close>

type_synonym umem = "nat \<Rightarrow> u8 option"

definition uput :: "umem \<Rightarrow> nat \<Rightarrow> u8 \<Rightarrow> umem option" where
  "uput u a b = (if u a = None then None else Some (u(a \<mapsto> b)))"

primrec uput_bytes :: "bytes \<Rightarrow> umem \<Rightarrow> nat \<Rightarrow> umem option" where
  "uput_bytes [] u a = Some u"
| "uput_bytes (b # bs) u a = do { u \<leftarrow> uput u a b; uput_bytes bs u (a + 1) }"

definition uput32 :: "umem \<Rightarrow> nat \<Rightarrow> nat \<Rightarrow> umem option" where
  "uput32 u a v = uput_bytes (le_bytes 4 v) u a"

text \<open>\<open>memcpy\<close> from kernel memory to user memory.\<close>

primrec copy_to_user :: "nat \<Rightarrow> umem \<Rightarrow> nat \<Rightarrow> bytes \<Rightarrow> nat \<Rightarrow> umem option" where
  "copy_to_user 0 u dst m src = Some u"
| "copy_to_user (Suc n) u dst m src = do {
     b \<leftarrow> rd m src;
     u \<leftarrow> uput u dst b;
     copy_to_user n u (dst + 1) m (src + 1) }"

text \<open>
  The loop over \<open>strtok_r\<close>, with \<open>n\<close> entries left in the array \<open>argv\<close> of 128; \<open>d\<close> is the address of
  the string of delimiters.
\<close>

fun parse_loop :: "nat \<Rightarrow> bytes \<Rightarrow> nat \<Rightarrow> nat \<Rightarrow> nat \<Rightarrow> nat list \<Rightarrow> (nat list \<times> bytes) option" where
  "parse_loop 0 m d token save_ptr argv = Some (argv, m)"
| "parse_loop (Suc n) m d token save_ptr argv =
     (if token = NULL then Some (argv, m)
      else if n = 0 then Some (argv @ [token], m)
      else do {
        (token', save_ptr, m) \<leftarrow> strtok_r m NULL d save_ptr;
        parse_loop n m d token' save_ptr (argv @ [token]) })"

text \<open>The loop that copies the strings takes \<open>argv\<close> from its end.\<close>

fun push_strings :: "nat list \<Rightarrow> bytes \<Rightarrow> umem \<Rightarrow> nat \<Rightarrow> nat list \<Rightarrow> (nat \<times> nat list \<times> umem) option" where
  "push_strings [] m u esp arg_ptrs = Some (esp, arg_ptrs, u)"
| "push_strings (a # as) m u esp arg_ptrs = do {
     len \<leftarrow> strlen m a;
     let len = len + 1;
     let esp = esp - len;
     u \<leftarrow> copy_to_user len u esp m a;
     push_strings as m u esp (esp # arg_ptrs) }"

fun push_pointers :: "nat list \<Rightarrow> umem \<Rightarrow> nat \<Rightarrow> (nat \<times> umem) option" where
  "push_pointers [] u esp = Some (esp, u)"
| "push_pointers (p # ps) u esp = do {
     let esp = esp - 4;
     u \<leftarrow> uput32 u esp p;
     push_pointers ps u esp }"

text \<open>
  The page for the copy of the command line may not be available. The result is the value
  returned, the new stack pointer, user memory and kernel memory.
\<close>

definition push_arguments ::
  "bytes \<Rightarrow> nat \<Rightarrow> nat option \<Rightarrow> umem \<Rightarrow> nat \<Rightarrow> nat \<Rightarrow> (bool \<times> nat \<times> umem \<times> bytes) option" where
  "push_arguments m d page u esp cmdline =
     (case page of
        None \<Rightarrow> Some (False, esp, u, m)
      | Some cmd_copy \<Rightarrow> do {
          (_, m) \<leftarrow> strlcpy m cmd_copy cmdline PGSIZE;
          (token, save_ptr, m) \<leftarrow> strtok_r m cmd_copy d NULL;
          (argv, m) \<leftarrow> parse_loop 128 m d token save_ptr [];
          (esp, arg_ptrs, u) \<leftarrow> push_strings (rev argv) m u esp [];
          let esp = esp - esp mod 4;
          let esp = esp - 4;
          u \<leftarrow> uput32 u esp NULL;
          (esp, u) \<leftarrow> push_pointers (rev arg_ptrs) u esp;
          let argv_on_stack = esp;
          let esp = esp - 4;
          u \<leftarrow> uput32 u esp argv_on_stack;
          let esp = esp - 4;
          u \<leftarrow> uput32 u esp (length argv);
          let esp = esp - 4;
          u \<leftarrow> uput32 u esp NULL;
          Some (True, esp, u, m) })"

section \<open>User memory\<close>

definition store :: "umem \<Rightarrow> nat \<Rightarrow> bytes \<Rightarrow> umem" where
  "store u a bs = (\<lambda>x. if a \<le> x \<and> x < a + length bs then Some (bs ! (x - a)) else u x)"

definition mapped :: "umem \<Rightarrow> nat \<Rightarrow> nat \<Rightarrow> bool" where
  "mapped u a n \<longleftrightarrow> (\<forall>x. a \<le> x \<and> x < a + n \<longrightarrow> u x \<noteq> None)"

definition bytes_at :: "umem \<Rightarrow> nat \<Rightarrow> bytes \<Rightarrow> bool" where
  "bytes_at u a bs \<longleftrightarrow> (\<forall>i < length bs. u (a + i) = Some (bs ! i))"

lemma store_Nil [simp]: "store u a [] = u"
  by (rule ext) (auto simp: store_def)

lemma mapped_store [simp]: "mapped u b n \<Longrightarrow> mapped (store u a bs) b n"
  by (auto simp: mapped_def store_def)

lemma bytes_at_store [simp]: "bytes_at (store u a bs) a bs"
  by (simp add: bytes_at_def store_def)

lemma bytes_at_store_above: "bytes_at u b cs \<Longrightarrow> a + length bs \<le> b \<Longrightarrow> bytes_at (store u a bs) b cs"
  by (auto simp: bytes_at_def store_def)

lemma store_above: "a + length bs \<le> x \<Longrightarrow> store u a bs x = u x"
  by (simp add: store_def)

lemma store_Cons: "store u a (b # bs) = store (u(a \<mapsto> b)) (a + 1) bs"
  by (auto simp: store_def fun_eq_iff nth_Cons')

lemma uput_bytes_store: "mapped u a (length bs) \<Longrightarrow> uput_bytes bs u a = Some (store u a bs)"
proof (induction bs arbitrary: u a)
  case (Cons b bs)
  then have "mapped (u(a \<mapsto> b)) (a + 1) (length bs)" "u a \<noteq> None" by (auto simp: mapped_def)
  then show ?case using Cons.IH by (simp add: uput_def store_Cons)
qed simp

lemma uput32_store: "mapped u a 4 \<Longrightarrow> uput32 u a v = Some (store u a (le_bytes 4 v))"
  by (simp add: uput32_def uput_bytes_store)

lemma copy_to_user_store:
  "mapped u dst n \<Longrightarrow> src + n \<le> length m \<Longrightarrow> copy_to_user n u dst m src = Some (store u dst (chunk m src n))"
proof (induction n arbitrary: u dst src)
  case (Suc n)
  have u: "mapped (u(dst \<mapsto> m ! src)) (dst + 1) n" "u dst \<noteq> None" using Suc.prems by (auto simp: mapped_def)
  have "copy_to_user n (u(dst \<mapsto> m ! src)) (dst + 1) m (src + 1) =
      Some (store (u(dst \<mapsto> m ! src)) (dst + 1) (chunk m (src + 1) n))"
    using Suc.prems by (intro Suc.IH u) simp
  then show ?case using Suc.prems u(2) by (simp add: rd_def uput_def drop_chunk_Cons store_Cons)
qed simp

lemma mapped_mono: "mapped u a n \<Longrightarrow> a \<le> b \<Longrightarrow> b + k \<le> a + n \<Longrightarrow> mapped u b k"
  by (simp add: mapped_def)

section \<open>Splitting the command line\<close>

function words :: "u8 set \<Rightarrow> bytes \<Rightarrow> bytes list" where
  "words D xs = (let ys = dropWhile (\<lambda>b. b \<in> D) xs in
     if ys = [] then [] else takeWhile (\<lambda>b. b \<notin> D) ys # words D (tl (dropWhile (\<lambda>b. b \<notin> D) ys)))"
  by pat_completeness auto
termination
proof (relation "measure (\<lambda>(D, xs). length xs)")
  fix D :: "u8 set" and xs ys :: bytes
  assume ys: "ys = dropWhile (\<lambda>b. b \<in> D) xs" "ys \<noteq> []"
  have "length (tl zs) < length ys" if "length zs \<le> length ys" for zs :: bytes
    using that ys(2) by (cases zs) auto
  then have "length (tl (dropWhile (\<lambda>b. b \<notin> D) ys)) < length ys" using length_dropWhile_le by blast
  also have "length ys \<le> length xs" using ys(1) length_dropWhile_le by simp
  finally show "((D, tl (dropWhile (\<lambda>b. b \<notin> D) ys)), D, xs) \<in> measure (\<lambda>(D, xs). length xs)" by simp
qed simp

declare words.simps [simp del]

lemma words_none: "set xs \<subseteq> D \<Longrightarrow> words D xs = []"
  by (subst words.simps) (simp add: dropWhile_eq_Nil_conv [THEN iffD2] subset_iff)

lemma words_last:
  "set us \<subseteq> D \<Longrightarrow> tok \<noteq> [] \<Longrightarrow> set tok \<inter> D = {} \<Longrightarrow> words D (us @ tok) = [tok]"
proof -
  assume a: "set us \<subseteq> D" "tok \<noteq> []" "set tok \<inter> D = {}"
  have "dropWhile (\<lambda>b. b \<in> D) (us @ tok) = tok"
    using a by (cases tok) (auto simp: dropWhile_append subset_iff)
  moreover have t: "takeWhile (\<lambda>b. b \<notin> D) tok = tok" "dropWhile (\<lambda>b. b \<notin> D) tok = []" using a(3) by auto
  moreover have "words D [] = []" by (rule words_none) simp
  ultimately show ?thesis using a(2) by (subst words.simps) (simp add: t del: takeWhile_eq_all_conv dropWhile_eq_Nil_conv)
qed

lemma words_more:
  "set us \<subseteq> D \<Longrightarrow> tok \<noteq> [] \<Longrightarrow> set tok \<inter> D = {} \<Longrightarrow> z \<in> D \<Longrightarrow>
   words D (us @ tok @ z # zs) = tok # words D zs"
proof -
  assume a: "set us \<subseteq> D" "tok \<noteq> []" "set tok \<inter> D = {}" "z \<in> D"
  have "dropWhile (\<lambda>b. b \<in> D) (us @ tok @ z # zs) = tok @ z # zs"
    using a by (cases tok) (auto simp: dropWhile_append subset_iff)
  moreover have "takeWhile (\<lambda>b. b \<notin> D) (tok @ z # zs) = tok" "dropWhile (\<lambda>b. b \<notin> D) (tok @ z # zs) = z # zs"
    using a(3,4) by (auto simp: takeWhile_append dropWhile_append)
  ultimately show ?thesis by (subst words.simps) simp
qed

text \<open>Every string is delimiters only, or one last word, or a word, a delimiter and a rest.\<close>

lemma words_cases:
  obtains (none) "set xs \<subseteq> D"
  | (last) us tok where "xs = us @ tok" "set us \<subseteq> D" "tok \<noteq> []" "set tok \<inter> D = {}"
  | (more) us tok z zs where "xs = us @ tok @ z # zs" "set us \<subseteq> D" "tok \<noteq> []" "set tok \<inter> D = {}" "z \<in> D"
proof -
  define us where "us = takeWhile (\<lambda>b. b \<in> D) xs"
  define ys where "ys = dropWhile (\<lambda>b. b \<in> D) xs"
  define tok where "tok = takeWhile (\<lambda>b. b \<notin> D) ys"
  have xs: "xs = us @ ys" by (simp add: us_def ys_def)
  have us: "set us \<subseteq> D" by (auto simp: us_def dest: set_takeWhileD)
  have tok: "set tok \<inter> D = {}" by (auto simp: tok_def dest: set_takeWhileD)
  show thesis
  proof (cases ys)
    case Nil
    then show ?thesis using none us xs by simp
  next
    case (Cons y ys')
    then have "y \<notin> D" using hd_dropWhile [of "\<lambda>b. b \<in> D" xs] by (simp add: ys_def)
    then have ne: "tok \<noteq> []" by (simp add: tok_def Cons)
    show ?thesis
    proof (cases "dropWhile (\<lambda>b. b \<notin> D) ys")
      case Nil
      then have "tok = ys" by (metis takeWhile_dropWhile_id append_Nil2 tok_def)
      then show ?thesis using last us ne tok xs by blast
    next
      case (Cons z zs)
      then have "z \<in> D" using hd_dropWhile [of "\<lambda>b. b \<notin> D" ys] by simp
      moreover have "ys = tok @ z # zs" by (metis takeWhile_dropWhile_id tok_def Cons)
      ultimately show ?thesis using more us ne tok xs by simp
    qed
  qed
qed

text \<open>
  The parsing loop on the string \<open>xs\<close> that starts after \<open>pre\<close>: the delimiters lie in \<open>pre\<close>, which
  the loop does not change, and the new entries of \<open>argv\<close> point to the words.
\<close>

lemma prefix_str:
  assumes "is_str (pre @ xs) d" "d + length (cstr (pre @ xs) d) < length pre"
  shows "is_str (pre @ ys) d" "cstr (pre @ ys) d = cstr (pre @ xs) d"
proof -
  let ?m = "pre @ xs"
  obtain rest where r: "?m = take d ?m @ cstr ?m d @ 0 # rest" "d \<noteq> 0" "d < length ?m"
    using assms(1) by (rule is_str_split)
  have t: "take d ?m = take d pre" "length (take d pre) = d" using assms(2) by simp_all
  have "pre = take (length pre) (take d pre @ cstr ?m d @ 0 # rest)" using r(1) t(1) by (metis append_eq_conv_conj)
  then have "pre = take d pre @ cstr ?m d @ 0 # take (length pre - d - length (cstr ?m d) - 1) rest"
    using assms(2) t(2) by (simp add: take_Cons' Suc_diff_Suc)
  then have "pre @ ys = take d pre @ cstr ?m d @ 0 # (take (length pre - d - length (cstr ?m d) - 1) rest @ ys)"
    by (metis append_assoc append_Cons)
  from is_strI [OF this t(2) cstr_nonzero r(2)]
  show "is_str (pre @ ys) d" "cstr (pre @ ys) d = cstr ?m d" by blast+
qed

lemma parse_words:
  assumes "m = pre @ xs @ 0 # rest" "0 \<notin> set xs" "is_str m d" "d + length (cstr m d) < length pre"
    "s = length pre \<or> s = NULL \<and> sv = length pre" "length pre \<noteq> 0" "D = set (cstr m d)"
  shows "\<exists>toks m' ys. Option.bind (strtok_r m s d sv) (\<lambda>(token, sv, m). parse_loop (Suc n) m d token sv argv) =
      Some (argv @ toks, m') \<and> m' = pre @ ys @ 0 # rest \<and> length ys = length xs \<and>
    map (cstr m') toks = take (Suc n) (words D xs) \<and> (\<forall>t\<in>set toks. is_str m' t)"
  using assms
proof (induction n arbitrary: m pre xs s sv argv)
  case (0 m pre xs s sv argv)
  note prems = "0"
  show ?case
  proof (cases xs D rule: words_cases)
    case none
    then have "strtok_r m s d sv = Some (NULL, length pre + length xs, m)"
      using prems by (intro strtok_r_end) auto
    then show ?thesis using prems(1) none words_none [of xs D] by auto
  next
    case (last us tok)
    then have "strtok_r m s d sv = Some (length pre + length us, length pre + length us + length tok, m)"
      using prems by (subst strtok_r_token [of m d pre us tok 0 rest "length pre"]) auto
    moreover have "is_str m (length pre + length us)" "cstr m (length pre + length us) = tok"
      using is_strI [of m "pre @ us" tok rest] prems last by auto
    ultimately show ?thesis using prems last words_last [of us D tok]
      by (intro exI [of _ "[length pre + length us]"] exI [of _ m] exI [of _ xs]) simp
  next
    case (more us tok z zs)
    let ?m = "pre @ us @ tok @ 0 # zs @ 0 # rest"
    have "strtok_r m s d sv = Some (length pre + length us, length pre + length us + length tok + 1, ?m)"
      using prems more by (subst strtok_r_token [of m d pre us tok z "zs @ 0 # rest" "length pre"]) auto
    moreover have "is_str ?m (length pre + length us)" "cstr ?m (length pre + length us) = tok"
      using is_strI [of ?m "pre @ us" tok "zs @ 0 # rest"] prems more by auto
    ultimately show ?thesis using prems more words_more [of us D tok z zs]
      by (intro exI [of _ "[length pre + length us]"] exI [of _ ?m] exI [of _ "us @ tok @ 0 # zs"]) simp
  qed
next
  case (Suc n m pre xs s sv argv)
  note prems = Suc.prems
  show ?case
  proof (cases xs D rule: words_cases)
    case none
    then have "strtok_r m s d sv = Some (NULL, length pre + length xs, m)"
      using prems by (intro strtok_r_end) auto
    then show ?thesis using prems(1) none words_none [of xs D] by auto
  next
    case (last us tok)
    let ?t = "length pre + length us"
    have "strtok_r m s d sv = Some (?t, ?t + length tok, m)"
      using prems last by (subst strtok_r_token [of m d pre us tok 0 rest "length pre"]) auto
    moreover have "is_str m ?t" "cstr m ?t = tok"
      using is_strI [of m "pre @ us" tok rest] prems last by auto
    moreover have "strtok_r m NULL d (?t + length tok) = Some (NULL, ?t + length tok, m)"
      using strtok_r_end [of m d "pre @ us @ tok" "[]" rest "?t + length tok" NULL "?t + length tok"] prems last
      by simp
    ultimately show ?thesis using prems last words_last [of us D tok]
      by (intro exI [of _ "[?t]"] exI [of _ m] exI [of _ xs]) simp
  next
    case (more us tok z zs)
    let ?t = "length pre + length us"
    let ?pre = "pre @ us @ tok @ [0]"
    let ?m = "?pre @ zs @ 0 # rest"
    have st: "strtok_r m s d sv = Some (?t, ?t + length tok + 1, ?m)"
      using prems more by (subst strtok_r_token [of m d pre us tok z "zs @ 0 # rest" "length pre"]) auto
    have dl: "is_str ?m d" "cstr ?m d = cstr m d"
      using prefix_str [of pre "xs @ 0 # rest" d "us @ tok @ [0] @ zs @ 0 # rest"] prems(1,3,4) by simp_all
    have "\<exists>toks m' ys. Option.bind (strtok_r ?m NULL d (?t + length tok + 1))
          (\<lambda>(token, sv, m). parse_loop (Suc n) m d token sv (argv @ [?t])) = Some ((argv @ [?t]) @ toks, m') \<and>
        m' = ?pre @ ys @ 0 # rest \<and> length ys = length zs \<and>
        map (cstr m') toks = take (Suc n) (words D zs) \<and> (\<forall>t\<in>set toks. is_str m' t)"
      by (rule Suc.IH) (use prems more dl in auto)
    then obtain toks m' ys where r: "Option.bind (strtok_r ?m NULL d (?t + length tok + 1))
          (\<lambda>(token, sv, m). parse_loop (Suc n) m d token sv (argv @ [?t])) = Some ((argv @ [?t]) @ toks, m')"
        "m' = ?pre @ ys @ 0 # rest" "length ys = length zs" "map (cstr m') toks = take (Suc n) (words D zs)"
        "\<forall>t\<in>set toks. is_str m' t" by blast
    have "is_str m' ?t" "cstr m' ?t = tok"
      using is_strI [of m' "pre @ us" tok "ys @ 0 # rest"] prems more r(2) by auto
    moreover have "words D xs = tok # words D zs" using more words_more by blast
    ultimately show ?thesis using r st prems(6) more
      by (intro exI [of _ "?t # toks"] exI [of _ m'] exI [of _ "us @ tok @ 0 # ys"]) auto
  qed
qed

section \<open>The stack\<close>

definition room :: "bytes list \<Rightarrow> nat" where
  "room ws = (\<Sum>w\<leftarrow>ws. length w + 1)"

lemma bytes_at_append: "bytes_at u a (xs @ ys) \<longleftrightarrow> bytes_at u a xs \<and> bytes_at u (a + length xs) ys"
proof (intro iffI conjI)
  assume l: "bytes_at u a (xs @ ys)"
  show "bytes_at u a xs" using l by (force simp: bytes_at_def nth_append)
  show "bytes_at u (a + length xs) ys" unfolding bytes_at_def
  proof (intro allI impI)
    fix i assume "i < length ys"
    then show "u (a + length xs + i) = Some (ys ! i)"
      using l [unfolded bytes_at_def, rule_format, of "length xs + i"] by (simp add: add.assoc)
  qed
next
  assume r: "bytes_at u a xs \<and> bytes_at u (a + length xs) ys"
  show "bytes_at u a (xs @ ys)" unfolding bytes_at_def
  proof (intro allI impI)
    fix i assume i: "i < length (xs @ ys)"
    show "u (a + i) = Some ((xs @ ys) ! i)"
    proof (cases "i < length xs")
      case True
      then show ?thesis using r by (simp add: bytes_at_def nth_append)
    next
      case False
      then show ?thesis using r i [simplified]
        by (auto simp: bytes_at_def nth_append dest: spec [of _ "i - length xs"])
    qed
  qed
qed

lemma bytes_at_cong: "bytes_at u a bs \<Longrightarrow> (\<And>x. a \<le> x \<Longrightarrow> u' x = u x) \<Longrightarrow> bytes_at u' a bs"
  by (simp add: bytes_at_def)

lemma chunk_cstr0: "is_str m a \<Longrightarrow> chunk m a (length (cstr m a) + 1) = cstr m a @ [0]"
proof -
  assume a: "is_str m a"
  then obtain rest where "m = take a m @ cstr m a @ 0 # rest" "a < length m" by (rule is_str_split)
  then have "drop a m = cstr m a @ 0 # rest" by (metis append_eq_conv_conj length_take less_imp_le min.absorb2)
  then show ?thesis by (simp add: chunk_def)
qed

lemma push_strings_ok:
  assumes "\<forall>a\<in>set as. is_str m a" "t = room (map (cstr m) as)" "t \<le> esp" "mapped u lo (esp - lo)" "lo \<le> esp - t"
  shows "\<exists>ps u'. push_strings as m u esp ptrs = Some (esp - t, ps @ ptrs, u') \<and> mapped u' lo (esp - lo) \<and>
    (\<forall>x \<ge> esp. u' x = u x) \<and> (\<forall>p\<in>set ps. esp - t \<le> p) \<and>
    list_all2 (\<lambda>p a. bytes_at u' p (cstr m a @ [0])) ps (rev as)"
  using assms
proof (induction as arbitrary: u esp ptrs t)
  case (Cons a as)
  let ?n = "length (cstr m a) + 1"
  let ?e = "esp - ?n"
  let ?u = "store u ?e (cstr m a @ [0])"
  have t: "t = ?n + room (map (cstr m) as)" using Cons.prems(2) by (simp add: room_def)
  have a: "is_str m a" using Cons.prems(1) by simp
  have "mapped u ?e ?n" using Cons.prems(3-5) t by (intro mapped_mono [OF Cons.prems(4)]) auto
  then have cp: "copy_to_user ?n u ?e m a = Some ?u"
    using is_str_bound [OF a] by (subst copy_to_user_store) (simp_all add: chunk_cstr0 [OF a, simplified])
  let ?r = "room (map (cstr m) as)"
  have "mapped ?u lo (?e - lo)" using Cons.prems(3-5) t by (intro mapped_store mapped_mono [OF Cons.prems(4)]) auto
  moreover have "?r \<le> ?e" "lo \<le> ?e - ?r" using Cons.prems(3,5) unfolding t by linarith+
  moreover have "\<forall>a\<in>set as. is_str m a" using Cons.prems(1) by simp
  ultimately have "\<exists>ps u'. push_strings as m ?u ?e (?e # ptrs) = Some (?e - ?r, ps @ ?e # ptrs, u') \<and>
      mapped u' lo (?e - lo) \<and> (\<forall>x \<ge> ?e. u' x = ?u x) \<and> (\<forall>p\<in>set ps. ?e - ?r \<le> p) \<and>
      list_all2 (\<lambda>p a. bytes_at u' p (cstr m a @ [0])) ps (rev as)"
    by (intro Cons.IH refl)
  then obtain ps u' where r: "push_strings as m ?u ?e (?e # ptrs) = Some (?e - ?r, ps @ ?e # ptrs, u')"
    "\<forall>x \<ge> ?e. u' x = ?u x" "\<forall>p\<in>set ps. ?e - ?r \<le> p" "mapped u' lo (?e - lo)"
    "list_all2 (\<lambda>p a. bytes_at u' p (cstr m a @ [0])) ps (rev as)"
    by blast
  have "bytes_at ?u ?e (cstr m a @ [0])" by (rule bytes_at_store)
  then have b: "bytes_at u' ?e (cstr m a @ [0])" by (rule bytes_at_cong) (use r(2) in simp)
  have above: "\<forall>x \<ge> esp. u' x = u x" using r(2) Cons.prems(3) t by (simp add: store_def)
  have map: "mapped u' lo (esp - lo)" unfolding mapped_def
  proof (intro allI impI)
    fix x assume x: "lo \<le> x \<and> x < lo + (esp - lo)"
    show "u' x \<noteq> None"
    proof (cases "x < ?e")
      case True
      then show ?thesis using x r(4) by (simp add: mapped_def)
    next
      case False
      then show ?thesis using x r(2) mapped_store [OF Cons.prems(4), of ?e "cstr m a @ [0]"]
        by (simp add: mapped_def)
    qed
  qed
  have e: "?e - room (map (cstr m) as) = esp - t" "esp - t \<le> ?e" using t by simp_all
  have "push_strings (a # as) m u esp ptrs = Some (esp - t, (ps @ [?e]) @ ptrs, u')"
    using r(1) cp e(1) a by (simp add: strlen_eq Let_def del: copy_to_user.simps)
  moreover have "\<forall>p\<in>set (ps @ [?e]). esp - t \<le> p" using r(3) e by auto
  moreover have "list_all2 (\<lambda>p a. bytes_at u' p (cstr m a @ [0])) (ps @ [?e]) (rev (a # as))"
    using r(5) b by (simp add: list_all2_appendI)
  ultimately show ?case using above map by blast
qed (simp add: room_def)

definition words32 :: "nat list \<Rightarrow> bytes" where
  "words32 vs = concat (map (le_bytes 4) vs)"

lemma words32_simps [simp]:
  "words32 [] = []" "words32 (v # vs) = le_bytes 4 v @ words32 vs" "words32 (vs @ ws) = words32 vs @ words32 ws"
  by (simp_all add: words32_def)

lemma length_words32 [simp]: "length (words32 vs) = 4 * length vs"
  by (induction vs) simp_all

text \<open>Pushing a word on a stack that already holds \<open>vs\<close>.\<close>

lemma push_word:
  assumes "bytes_at u esp (words32 vs)" "mapped u lo (esp - lo)" "lo + 4 \<le> esp"
  shows "uput32 u (esp - 4) v = Some (store u (esp - 4) (le_bytes 4 v)) \<and>
    bytes_at (store u (esp - 4) (le_bytes 4 v)) (esp - 4) (words32 (v # vs)) \<and>
    mapped (store u (esp - 4) (le_bytes 4 v)) lo (esp - 4 - lo)"
proof -
  have "mapped u (esp - 4) 4" using assms(3) by (intro mapped_mono [OF assms(2)]) auto
  then have "uput32 u (esp - 4) v = Some (store u (esp - 4) (le_bytes 4 v))" by (rule uput32_store)
  moreover have "bytes_at (store u (esp - 4) (le_bytes 4 v)) esp (words32 vs)"
    using assms(1,3) by (intro bytes_at_store_above) auto
  then have "bytes_at (store u (esp - 4) (le_bytes 4 v)) (esp - 4) (words32 (v # vs))"
    using assms(3) by (simp add: bytes_at_append)
  moreover have "mapped (store u (esp - 4) (le_bytes 4 v)) lo (esp - 4 - lo)"
    using assms(3) by (intro mapped_store mapped_mono [OF assms(2)]) auto
  ultimately show ?thesis by blast
qed

lemma push_pointers_ok:
  assumes "bytes_at u esp (words32 vs)" "mapped u lo (esp - lo)" "lo + 4 * length ps \<le> esp"
  shows "\<exists>u'. push_pointers ps u esp = Some (esp - 4 * length ps, u') \<and>
    bytes_at u' (esp - 4 * length ps) (words32 (rev ps @ vs)) \<and>
    mapped u' lo (esp - 4 * length ps - lo) \<and> (\<forall>x \<ge> esp. u' x = u x)"
  using assms
proof (induction ps arbitrary: u esp vs)
  case (Cons p ps)
  let ?u = "store u (esp - 4) (le_bytes 4 p)"
  have w: "uput32 u (esp - 4) p = Some ?u" "bytes_at ?u (esp - 4) (words32 (p # vs))" "mapped ?u lo (esp - 4 - lo)"
    using push_word [OF Cons.prems(1,2)] Cons.prems(3) by simp_all
  have "lo + 4 * length ps \<le> esp - 4" using Cons.prems(3) by simp
  from Cons.IH [OF w(2,3) this] obtain u' where u': "push_pointers ps ?u (esp - 4) = Some (esp - 4 - 4 * length ps, u')"
      "bytes_at u' (esp - 4 - 4 * length ps) (words32 (rev ps @ p # vs))"
      "mapped u' lo (esp - 4 - 4 * length ps - lo)" "\<forall>x \<ge> esp - 4. u' x = ?u x"
    by blast
  have "\<forall>x \<ge> esp. u' x = u x" using u'(4) Cons.prems(3) by (simp add: store_def)
  moreover have "esp - 4 - 4 * length ps = esp - 4 * length (p # ps)" by simp
  ultimately show ?case using u'(1-3) w(1) by (simp add: Let_def)
qed simp

section \<open>The whole\<close>

text \<open>The frame below the strings: sentinel, pointers, array address, count and return address.\<close>

lemma push_frame_ok:
  assumes "mapped u lo (e - lo)" "lo + 4 * length ps + 16 \<le> e" "e3 = e - 4 - 4 * length ps"
  shows "\<exists>u2 u3 u4 u5 u6. uput32 u (e - 4) 0 = Some u2 \<and> push_pointers (rev ps) u2 (e - 4) = Some (e3, u3) \<and>
    uput32 u3 (e3 - 4) e3 = Some u4 \<and> uput32 u4 (e3 - 4 - 4) argc = Some u5 \<and> uput32 u5 (e3 - 4 - 4 - 4) 0 = Some u6 \<and>
    bytes_at u6 (e3 - 4 - 4 - 4) (words32 ([0, argc, e3] @ ps @ [0])) \<and> (\<forall>x \<ge> e. u6 x = u x)"
proof -
  define u2 where "u2 = store u (e - 4) (le_bytes 4 0)"
  have u2: "uput32 u (e - 4) 0 = Some u2" "bytes_at u2 (e - 4) (words32 [0])" "mapped u2 lo (e - 4 - lo)"
    using push_word [of u e "[]" lo 0] assms(1,2) unfolding u2_def by (simp_all add: bytes_at_def)
  have "lo + 4 * length (rev ps) \<le> e - 4" using assms(2) by simp
  from push_pointers_ok [OF u2(2,3) this] obtain u3 where u3: "push_pointers (rev ps) u2 (e - 4) = Some (e3, u3)"
      "bytes_at u3 e3 (words32 (ps @ [0]))" "mapped u3 lo (e3 - lo)" "\<forall>x \<ge> e - 4. u3 x = u2 x"
    using assms(3) by auto
  define u4 where "u4 = store u3 (e3 - 4) (le_bytes 4 e3)"
  have u4: "uput32 u3 (e3 - 4) e3 = Some u4" "bytes_at u4 (e3 - 4) (words32 (e3 # ps @ [0]))"
      "mapped u4 lo (e3 - 4 - lo)"
    using push_word [OF u3(2,3), of e3] assms(2,3) unfolding u4_def by auto
  define u5 where "u5 = store u4 (e3 - 4 - 4) (le_bytes 4 argc)"
  have u5: "uput32 u4 (e3 - 4 - 4) argc = Some u5"
      "bytes_at u5 (e3 - 4 - 4) (words32 (argc # e3 # ps @ [0]))" "mapped u5 lo (e3 - 4 - 4 - lo)"
    using push_word [OF u4(2,3), of argc] assms(2,3) unfolding u5_def by auto
  define u6 where "u6 = store u5 (e3 - 4 - 4 - 4) (le_bytes 4 0)"
  have u6: "uput32 u5 (e3 - 4 - 4 - 4) 0 = Some u6"
      "bytes_at u6 (e3 - 4 - 4 - 4) (words32 (0 # argc # e3 # ps @ [0]))"
    using push_word [OF u5(2,3), of 0] assms(2,3) unfolding u6_def by auto
  have "\<forall>x \<ge> e. u6 x = u x" using u3(4) assms(2,3) by (simp add: u6_def u5_def u4_def u2_def store_above)
  then show ?thesis using u2(1) u3(1) u4(1) u5(1) u6 by auto
qed

section \<open>Which addresses are written\<close>

definition same_dom :: "umem \<Rightarrow> umem \<Rightarrow> bool" where
  "same_dom u u' \<longleftrightarrow> (\<forall>x. u' x = None \<longleftrightarrow> u x = None)"

lemma same_dom_trans [trans]: "same_dom u u' \<Longrightarrow> same_dom u' u'' \<Longrightarrow> same_dom u u''"
  by (simp add: same_dom_def)

lemma uput_dom: "uput u a b = Some u' \<Longrightarrow> same_dom u u' \<and> u a \<noteq> None"
  by (auto simp: uput_def same_dom_def split: if_splits)

lemma uput_bytes_dom: "uput_bytes bs u a = Some u' \<Longrightarrow> same_dom u u'"
  by (induction bs arbitrary: u a) (auto simp: bind_eq_Some_conv same_dom_def dest!: uput_dom)

lemma uput32_dom: "uput32 u a v = Some u' \<Longrightarrow> same_dom u u' \<and> u a \<noteq> None"
proof -
  assume p: "uput32 u a v = Some u'"
  have "length (le_bytes 4 v) = 4" by simp
  then obtain b bs where "le_bytes 4 v = b # bs" by (cases "le_bytes 4 v") auto
  then have "u a \<noteq> None" using p by (auto simp: uput32_def bind_eq_Some_conv dest: uput_dom)
  then show ?thesis using p uput_bytes_dom by (simp add: uput32_def)
qed

lemma copy_to_user_dom: "copy_to_user n u dst m src = Some u' \<Longrightarrow> same_dom u u'"
  by (induction n arbitrary: u dst src) (auto simp: bind_eq_Some_conv same_dom_def dest!: uput_dom)

lemma push_strings_dom:
  "push_strings as m u esp ptrs = Some (esp', ps, u') \<Longrightarrow> (\<forall>a\<in>set as. is_str m a) \<Longrightarrow>
   same_dom u u' \<and> esp' = esp - room (map (cstr m) as) \<and> length ps = length as + length ptrs"
proof (induction as arbitrary: u esp ptrs)
  case (Cons a as)
  let ?e = "esp - (length (cstr m a) + 1)"
  obtain u1 where u1: "copy_to_user (length (cstr m a) + 1) u ?e m a = Some u1"
      "push_strings as m u1 ?e (?e # ptrs) = Some (esp', ps, u')"
    using Cons.prems by (auto simp: bind_eq_Some_conv strlen_eq Let_def simp del: copy_to_user.simps)
  have "same_dom u1 u' \<and> esp' = ?e - room (map (cstr m) as) \<and> length ps = length as + length (?e # ptrs)"
    using Cons.IH [OF u1(2)] Cons.prems(2) by simp
  then show ?case using same_dom_trans [OF copy_to_user_dom [OF u1(1)]] by (simp add: room_def)
qed (simp add: same_dom_def room_def)

lemma push_pointers_dom:
  "push_pointers ps u esp = Some (esp', u') \<Longrightarrow> same_dom u u' \<and> esp' = esp - 4 * length ps"
proof (induction ps arbitrary: u esp)
  case (Cons p ps)
  obtain u1 where "uput32 u (esp - 4) p = Some u1" "push_pointers ps u1 (esp - 4) = Some (esp', u')"
    using Cons.prems by (auto simp: bind_eq_Some_conv Let_def)
  then show ?case using Cons.IH uput32_dom same_dom_trans by fastforce
qed (simp add: same_dom_def)

text \<open>Nothing below the stack pointer changes.\<close>

lemma uput32_below: "uput32 u a v = Some u' \<Longrightarrow> x < a \<Longrightarrow> u' x = u x"
proof -
  have "uput_bytes bs u a = Some u' \<Longrightarrow> x < a \<Longrightarrow> u' x = u x" for bs
    by (induction bs arbitrary: u a) (auto simp: bind_eq_Some_conv uput_def split: if_splits)
  then show "uput32 u a v = Some u' \<Longrightarrow> x < a \<Longrightarrow> u' x = u x" by (simp add: uput32_def)
qed

lemma copy_to_user_below: "copy_to_user n u dst m src = Some u' \<Longrightarrow> x < dst \<Longrightarrow> u' x = u x"
  by (induction n arbitrary: u dst src) (auto simp: bind_eq_Some_conv uput_def split: if_splits)

lemma push_strings_below: "push_strings as m u esp ptrs = Some (esp', ps, u') \<Longrightarrow> esp' \<le> esp \<and> (\<forall>x<esp'. u' x = u x)"
proof (induction as arbitrary: u esp ptrs)
  case (Cons a as)
  obtain len u1 where u1: "copy_to_user (len + 1) u (esp - (len + 1)) m a = Some u1"
      "push_strings as m u1 (esp - (len + 1)) ((esp - (len + 1)) # ptrs) = Some (esp', ps, u')"
    using Cons.prems by (auto simp: bind_eq_Some_conv Let_def simp del: copy_to_user.simps)
  from Cons.IH [OF u1(2)] copy_to_user_below [OF u1(1)] show ?case by auto
qed simp

lemma push_pointers_below: "push_pointers ps u esp = Some (esp', u') \<Longrightarrow> esp' \<le> esp \<and> (\<forall>x<esp'. u' x = u x)"
proof (induction ps arbitrary: u esp)
  case (Cons p ps)
  obtain u1 where u1: "uput32 u (esp - 4) p = Some u1" "push_pointers ps u1 (esp - 4) = Some (esp', u')"
    using Cons.prems by (auto simp: bind_eq_Some_conv Let_def)
  from Cons.IH [OF u1(2)] uput32_below [OF u1(1)] show ?case by auto
qed simp

text \<open>
  Copying the command line to the page \<open>p\<close> and parsing up to \<open>N\<close> words there: only the page changes.
\<close>

lemma parse_command:
  assumes "is_str m cmdline" "is_str m d" "cstr m d = [32]" "d + 1 < p" "p + PGSIZE \<le> length m"
    "p + PGSIZE \<le> cmdline \<or> cmdline + length (cstr m cmdline) < p"
    "ws = take N (words {32} (take (PGSIZE - 1) (cstr m cmdline)))" "N \<noteq> 0"
  obtains m1 token sv m2 argv m' where "strlcpy m p cmdline PGSIZE = Some (length (cstr m cmdline), m1)"
    "strtok_r m1 p d NULL = Some (token, sv, m2)" "parse_loop N m2 d token sv [] = Some (argv, m')"
    "map (cstr m') argv = ws" "\<forall>t\<in>set argv. is_str m' t" "length m' = length m" "\<forall>x<length m. x < p \<or> p + PGSIZE \<le> x \<longrightarrow> m' ! x = m ! x"
proof -
  obtain n where N: "N = Suc n" using assms(8) by (cases N) auto
  let ?xs = "take (PGSIZE - 1) (cstr m cmdline)"
  let ?m = "overlay m p (?xs @ [0])"
  let ?pre = "take p m"
  have p: "p \<noteq> NULL" "0 < PGSIZE" "length ?pre = p" using assms(4,5) by (simp_all add: PGSIZE_def)
  have cp: "strlcpy m p cmdline PGSIZE = Some (length (cstr m cmdline), ?m)"
    using assms(1,5,6) p by (intro strlcpy_overlay) auto
  define rest where "rest = drop (p + length ?xs + 1) m"
  have m1: "?m = ?pre @ ?xs @ 0 # rest" by (simp add: overlay_def rest_def)
  have nz: "0 \<notin> set ?xs" using cstr_nonzero [of m cmdline] by (metis in_set_takeD)
  have mm: "m = ?pre @ drop p m" by simp
  have dl: "is_str ?m d" "cstr ?m d = [32]"
    using prefix_str [of ?pre "drop p m" d "?xs @ 0 # rest"] assms(2-4) p m1 by (simp_all flip: mm)
  have "\<exists>toks m' ys. Option.bind (strtok_r ?m p d NULL) (\<lambda>(token, sv, m). parse_loop (Suc n) m d token sv []) =
      Some ([] @ toks, m') \<and> m' = ?pre @ ys @ 0 # rest \<and> length ys = length ?xs \<and>
      map (cstr m') toks = take (Suc n) (words {32} ?xs) \<and> (\<forall>t\<in>set toks. is_str m' t)"
    by (rule parse_words [OF m1 nz dl(1)]) (use dl p assms(4) in auto)
  then obtain toks m' ys where pr: "Option.bind (strtok_r ?m p d NULL) (\<lambda>(token, sv, m). parse_loop (Suc n) m d token sv []) =
      Some (toks, m')" "map (cstr m') toks = take (Suc n) (words {32} ?xs)" "\<forall>t\<in>set toks. is_str m' t" "m' = ?pre @ ys @ 0 # rest"
      "length ys = length ?xs"
    by auto
  have x: "length ?xs + 1 \<le> PGSIZE" by (simp add: PGSIZE_def)
  have ov: "m' = overlay m p (ys @ [0])" using pr(4,5) by (simp add: overlay_def rest_def)
  have "length m' = length m" "\<forall>x<length m. x < p \<or> p + PGSIZE \<le> x \<longrightarrow> m' ! x = m ! x"
    using x pr(5) assms(5) unfolding ov by (auto simp: nth_overlay)
  moreover obtain token sv m2 where "strtok_r ?m p d NULL = Some (token, sv, m2)"
      "parse_loop (Suc n) m2 d token sv [] = Some (toks, m')"
    using pr(1) by (auto simp: bind_eq_Some_conv)
  ultimately show ?thesis using cp pr(2,3) assms(7) N that by metis
qed

lemma first_word:
  assumes "is_str m cmdline" "is_str m d" "cstr m d = [32]" "d + 1 < p" "p + PGSIZE \<le> length m"
    "p + PGSIZE \<le> cmdline \<or> cmdline + length (cstr m cmdline) < p" "ws = words {32} (take (PGSIZE - 1) (cstr m cmdline))"
  obtains m1 token sv m2 where "strlcpy m p cmdline PGSIZE = Some (length (cstr m cmdline), m1)" "strtok_r m1 p d NULL = Some (token, sv, m2)"
    "length m2 = length m" "\<forall>x<length m. x < p \<or> p + PGSIZE \<le> x \<longrightarrow> m2 ! x = m ! x" "ws \<noteq> [] \<Longrightarrow> token \<noteq> NULL \<and> cstr m2 token = hd ws"
proof -
  have ws: "take 1 ws = take 1 (words {32} (take (PGSIZE - 1) (cstr m cmdline)))" using assms(7) by simp
  obtain m1 token sv m2 argv m' where p: "strlcpy m p cmdline PGSIZE = Some (length (cstr m cmdline), m1)" "strtok_r m1 p d NULL = Some (token, sv, m2)"
      "parse_loop 1 m2 d token sv [] = Some (argv, m')" "map (cstr m') argv = take 1 ws"
      "length m' = length m" "\<forall>x<length m. x < p \<or> p + PGSIZE \<le> x \<longrightarrow> m' ! x = m ! x"
    by (rule parse_command [OF assms(1-6) ws]) simp
  have "m' = m2" "argv = (if token = NULL then [] else [token])" using p(3) by (auto split: if_splits)
  then show ?thesis using that p by (cases ws) (auto split: if_splits)
qed

lemma push_arguments_ok:
  assumes "is_str m cmdline" "is_str m d" "cstr m d = [32]" "d + 1 < p" "p + PGSIZE \<le> length m"
    "p + PGSIZE \<le> cmdline \<or> cmdline + length (cstr m cmdline) < p"
    "ws = take 128 (words {32} (take (PGSIZE - 1) (cstr m cmdline)))"
    "n = room ws + 3 + 4 * length ws + 16" "n \<le> esp" "mapped u (esp - n) n"
  shows "\<exists>esp' u' m' ptrs. push_arguments m d (Some p) u esp cmdline = Some (True, esp', u', m') \<and>
    esp' mod 4 = 0 \<and> esp - n \<le> esp' \<and> (\<forall>x \<ge> esp. u' x = u x) \<and>
    bytes_at u' esp' (words32 ([0, length ws, esp' + 12] @ ptrs @ [0])) \<and>
    list_all2 (\<lambda>q w. bytes_at u' q (w @ [0])) ptrs ws \<and> same_dom u u' \<and> (\<forall>x<esp'. u' x = u x) \<and>
    length m' = length m \<and> (\<forall>x<length m. x < p \<or> p + PGSIZE \<le> x \<longrightarrow> m' ! x = m ! x)"
proof -
  obtain m1 token sv m2 argv m' where parse: "strlcpy m p cmdline PGSIZE = Some (length (cstr m cmdline), m1)"
    "strtok_r m1 p d NULL = Some (token, sv, m2)" "parse_loop 128 m2 d token sv [] = Some (argv, m')"
    and argv: "map (cstr m') argv = ws" "\<forall>t\<in>set argv. is_str m' t"
    and same: "length m' = length m" "\<forall>x<length m. x < p \<or> p + PGSIZE \<le> x \<longrightarrow> m' ! x = m ! x"
    by (rule parse_command [OF assms(1-7)]) simp
  have len: "length argv = length ws" using argv(1) by (metis length_map)
  let ?lo = "esp - n" and ?e1 = "esp - room ws"
  have "room (map (cstr m') (rev argv)) = room ws"
    using argv(1) by (simp add: room_def rev_map [symmetric] sum_list_rev)
  moreover have "mapped u ?lo (esp - ?lo)" using assms(9,10) by simp
  ultimately have "\<exists>ps u'. push_strings (rev argv) m' u esp [] = Some (?e1, ps @ [], u') \<and>
      mapped u' ?lo (esp - ?lo) \<and> (\<forall>x \<ge> esp. u' x = u x) \<and> (\<forall>q\<in>set ps. ?e1 \<le> q) \<and>
      list_all2 (\<lambda>q a. bytes_at u' q (cstr m' a @ [0])) ps (rev (rev argv))"
    using argv(2) assms(8,9) by (intro push_strings_ok) auto
  then obtain ps u1 where ps: "push_strings (rev argv) m' u esp [] = Some (?e1, ps, u1)"
      "mapped u1 ?lo (esp - ?lo)" "\<forall>x \<ge> esp. u1 x = u x" "\<forall>q\<in>set ps. ?e1 \<le> q"
      "list_all2 (\<lambda>q a. bytes_at u1 q (cstr m' a @ [0])) ps argv"
    by auto
  have lenp: "length ps = length ws" using ps(5) len by (auto dest: list_all2_lengthD)
  define e2 where "e2 = ?e1 - ?e1 mod 4"
  define e3 where "e3 = e2 - 4 - 4 * length ps"
  have e2: "e2 mod 4 = 0" "e2 \<le> ?e1" "?e1 \<le> e2 + 3" by (simp_all add: e2_def minus_mod_eq_mult_div)
  have lo: "?lo + 4 * length ps + 16 \<le> e2" using e2(3) assms(8,9) lenp by linarith
  have "e2 - ?lo \<le> esp - ?lo" using e2(2) by (intro diff_le_mono) simp
  then have map2: "mapped u1 ?lo (e2 - ?lo)" by (intro mapped_mono [OF ps(2)] order_refl add_left_mono)
  obtain u2 u3 u4 u5 u6 where fr: "uput32 u1 (e2 - 4) 0 = Some u2" "push_pointers (rev ps) u2 (e2 - 4) = Some (e3, u3)"
    "uput32 u3 (e3 - 4) e3 = Some u4" "uput32 u4 (e3 - 4 - 4) (length argv) = Some u5" "uput32 u5 (e3 - 4 - 4 - 4) 0 = Some u6"
    "bytes_at u6 (e3 - 4 - 4 - 4) (words32 ([0, length argv, e3] @ ps @ [0]))" "\<forall>x \<ge> e2. u6 x = u1 x"
    using push_frame_ok [OF map2 lo e3_def] by blast
  have "push_arguments m d (Some p) u esp cmdline = Some (True, e3 - 4 - 4 - 4, u6, m')"
    using parse ps(1) fr(1-5) by (simp add: push_arguments_def Let_def e2_def [symmetric] del: parse_loop.simps diff_diff_left)
  moreover have "(e3 - 4 - 4 - 4) mod 4 = 0" using e2(1) lo by (simp add: e3_def mod_eq_0_iff_dvd dvd_diff_nat)
  moreover have "e3 - 4 - 4 - 4 + 12 = e3" "esp - n \<le> e3 - 4 - 4 - 4" using lo by (simp_all add: e3_def)
  moreover have "\<forall>x \<ge> esp. u6 x = u x" using fr(7) ps(3) e2(2) by simp
  moreover have "list_all2 (\<lambda>q w. bytes_at u6 q (w @ [0])) ps ws"
    unfolding argv(1) [symmetric] list_all2_map2
    using ps(5) by (rule list.rel_mono_strong) (use ps(4) e2(2) fr(7) in \<open>auto elim!: bytes_at_cong\<close>)
  moreover have "same_dom u u6"
    using push_strings_dom [OF ps(1)] argv(2) fr(1-5) by (auto simp: same_dom_def dest!: uput32_dom push_pointers_dom)
  moreover have "\<forall>x<e3 - 4 - 4 - 4. u6 x = u x"
    using push_strings_below [OF ps(1)] push_pointers_below [OF fr(2)] fr(1,3-5) e2(2) by (auto simp: uput32_below)
  ultimately show ?thesis using fr(6) len same by metis
qed

text \<open>
  C14. When the command line is a string, a page is available and the stack has room, the stack
  \<open>push_arguments\<close> builds is the one the System V convention asks for: from the word-aligned stack
  pointer up, a null return address, the number of words, the address of the array, the array of
  pointers with its null sentinel; the \<open>i\<close>th pointer points to the \<open>i\<close>th word of the command line
  with its terminator. The words are at most 128, of the first 4095 characters.
\<close>

theorem push_arguments_layout:
  assumes "is_str m cmdline" "is_str m d" "cstr m d = [32]" "d + 1 < p" "p + PGSIZE \<le> length m"
    "p + PGSIZE \<le> cmdline \<or> cmdline + length (cstr m cmdline) < p"
    "ws = take 128 (words {32} (take (PGSIZE - 1) (cstr m cmdline)))"
    "n = room ws + 3 + 4 * length ws + 16" "n \<le> esp" "mapped u (esp - n) n"
  shows "\<exists>esp' u' m' ptrs. push_arguments m d (Some p) u esp cmdline = Some (True, esp', u', m') \<and>
    esp' mod 4 = 0 \<and> esp - n \<le> esp' \<and> (\<forall>x \<ge> esp. u' x = u x) \<and>
    bytes_at u' esp' (words32 ([0, length ws, esp' + 12] @ ptrs @ [0])) \<and>
    list_all2 (\<lambda>q w. bytes_at u' q (w @ [0])) ptrs ws"
  using push_arguments_ok [OF assms] by (elim exE conjE) (intro exI conjI, assumption+)

text \<open>Address 1 holds the delimiters, 3 the command line \<open>a b\<close>, and a page starts at 8.\<close>

definition sample_kernel :: bytes where
  "sample_kernel = [0, 32, 0, 97, 32, 98, 0, 0] @ replicate PGSIZE 0"

lemma sample_kernel_strings:
  "is_str sample_kernel 3" "cstr sample_kernel 3 = [97, 32, 98]" "is_str sample_kernel 1" "cstr sample_kernel 1 = [32]"
  "8 + PGSIZE \<le> length sample_kernel"
  by (simp_all add: is_str_def cstr_def sample_kernel_def)

lemma sample_words: "take 128 (words {32} (take (PGSIZE - 1) [97, 32, 98])) = [[97], [98]]"
proof -
  have "words {32} ([] @ [97] @ 32 # ([] @ [98])) = [97] # words {32} ([] @ [98 :: u8])"
    by (rule words_more) simp_all
  also have "words {32} ([] @ [98 :: u8]) = [[98]]" by (rule words_last) simp_all
  finally show ?thesis by (simp add: PGSIZE_def)
qed

theorem push_arguments_layout_witness:
  "\<exists>esp u m ptrs. push_arguments sample_kernel 1 (Some 8) (\<lambda>_. Some 0) 8192 3 = Some (True, esp, u, m) \<and>
     bytes_at u esp (words32 ([0, 2, esp + 12] @ ptrs @ [0])) \<and>
     list_all2 (\<lambda>q w. bytes_at u q (w @ [0])) ptrs [[97], [98]]"
proof -
  let ?n = "room [[97], [98]] + 3 + 4 * length [[97 :: u8], [98]] + 16"
  have "?n \<le> 8192" "mapped (\<lambda>_. Some 0) (8192 - ?n) ?n" by (simp_all add: room_def mapped_def)
  moreover have "[[97], [98]] = take 128 (words {32} (take (PGSIZE - 1) (cstr sample_kernel 3)))"
    by (simp only: sample_kernel_strings(2) sample_words)
  moreover have "1 + 1 < (8 :: nat)" "8 + PGSIZE \<le> 3 \<or> 3 + length (cstr sample_kernel 3) < 8"
    by (simp_all add: sample_kernel_strings(2))
  ultimately obtain esp u m ptrs where
    "push_arguments sample_kernel 1 (Some 8) (\<lambda>_. Some 0) 8192 3 = Some (True, esp, u, m)"
    "bytes_at u esp (words32 ([0, length [[97 :: u8], [98]], esp + 12] @ ptrs @ [0]))"
    "list_all2 (\<lambda>q w. bytes_at u q (w @ [0])) ptrs [[97], [98]]"
    using push_arguments_layout [OF sample_kernel_strings(1,3,4) _ sample_kernel_strings(5) _ _ refl] by blast
  then show ?thesis by (intro exI [of _ esp] exI [of _ u] exI [of _ m] exI [of _ ptrs]) (simp add: numeral_2_eq_2)
qed

section \<open>Command lines that do not fit\<close>


text \<open>A command line of one word of 4090 letters, in a page of kernel memory of its own.\<close>

definition long_kernel :: bytes where
  "long_kernel = [0, 32, 0] @ replicate 4090 97 @ 0 # replicate PGSIZE 0"


end
