(* ===== verification/System_Calls.thy ===== *)
theory System_Calls
  imports FS_Properties Arguments
begin

text \<open>
  The system calls (\<^verbatim>\<open>userprog/syscall.c\<close>) of one process, and the part of \<open>process_exit\<close>
  (\<^verbatim>\<open>userprog/process.c\<close>) that closes its files. The state has the memory as the kernel sees it while
  the process runs: user pages below \<open>PHYS_BASE\<close>, kernel memory above it. An access to an address
  that is not mapped, or a write to a page that is read-only, stops the kernel, because \<open>kill\<close> panics
  when the fault comes from kernel code.

  \<open>process_execute\<close> and \<open>process_wait\<close> are outcomes of the handler, with their arguments. A file name is read
  up to its terminator when the call is made.
\<close>

section \<open>State\<close>

text \<open>The fields of \<open>struct thread\<close> that the system calls use.\<close>

record uproc =
  fd_table :: "nat list"
  next_fd :: nat
  exit_status :: int
  exec_file :: nat

text \<open>\<open>keys\<close> is what \<open>input_getc\<close> returns, \<open>screen\<close> what \<open>putbuf\<close> has been given, \<open>lock_held\<close> whether the process holds \<open>filesys_lock\<close>.\<close>

record sys =
  memory :: umem
  can_write :: "nat \<Rightarrow> bool"
  proc :: uproc
  vfs :: fs
  lock_held :: bool
  eax :: nat
  screen :: bytes
  keys :: "nat \<Rightarrow> u8"
  keys_read :: nat

datatype outcome = Resume | Thread_Exit | Power_Off | Execute bytes | Wait_For int

definition u32_of :: "int \<Rightarrow> nat" where
  "u32_of x = nat (x mod 2 ^ 32)"

section \<open>User memory\<close>

text \<open>\<open>pagedir_get_page (pd, a) != NULL\<close>\<close>

definition user_page :: "sys \<Rightarrow> nat \<Rightarrow> bool" where
  "user_page s a \<longleftrightarrow> memory s a \<noteq> None"

definition check_valid_ptr :: "sys \<Rightarrow> nat \<Rightarrow> bool" where
  "check_valid_ptr s vaddr = list_all (\<lambda>i. let p = wrap32 (vaddr + i)
     in \<not> (p = NULL \<or> \<not> is_user_vaddr p \<or> \<not> user_page s p)) [0, 1, 2, 3]"

primrec check_valid_range :: "sys \<Rightarrow> nat \<Rightarrow> nat \<Rightarrow> bool" where
  "check_valid_range s vaddr 0 = True"
| "check_valid_range s vaddr (Suc n) = (check_valid_ptr s vaddr \<and> check_valid_range s (wrap32 (vaddr + 1)) n)"

text \<open>A failed check ends the process.\<close>

definition invalid :: "sys \<Rightarrow> (outcome \<times> sys) option" where
  "invalid s = Some (Thread_Exit, s\<lparr>proc := (proc s)\<lparr>exit_status := -1\<rparr>\<rparr>)"

definition load8 :: "sys \<Rightarrow> nat \<Rightarrow> u8 option" where
  "load8 s a = memory s (wrap32 a)"

definition load32 :: "sys \<Rightarrow> nat \<Rightarrow> nat option" where
  "load32 s a = do {
     b0 \<leftarrow> load8 s a; b1 \<leftarrow> load8 s (a + 1); b2 \<leftarrow> load8 s (a + 2); b3 \<leftarrow> load8 s (a + 3);
     Some (of_le [b0, b1, b2, b3]) }"

definition store8 :: "sys \<Rightarrow> nat \<Rightarrow> u8 \<Rightarrow> sys option" where
  "store8 s a b = do {
     ASSERT (can_write s (wrap32 a));
     m \<leftarrow> uput (memory s) (wrap32 a) b;
     Some (s\<lparr>memory := m\<rparr>) }"

primrec store_bytes :: "bytes \<Rightarrow> sys \<Rightarrow> nat \<Rightarrow> sys option" where
  "store_bytes [] s a = Some s"
| "store_bytes (b # bs) s a = do { s \<leftarrow> store8 s a b; store_bytes bs s (a + 1) }"

primrec load_bytes :: "nat \<Rightarrow> sys \<Rightarrow> nat \<Rightarrow> bytes option" where
  "load_bytes 0 s a = Some []"
| "load_bytes (Suc n) s a = do { b \<leftarrow> load8 s a; bs \<leftarrow> load_bytes n s (a + 1); Some (b # bs) }"

function load_string :: "sys \<Rightarrow> nat \<Rightarrow> bytes option" where
  "load_string s a =
     (if a < 2 ^ 32
      then do {
        b \<leftarrow> load8 s a;
        if b = 0 then Some [] else do { bs \<leftarrow> load_string s (a + 1); Some (b # bs) } }
      else None)"
  by pat_completeness auto
termination by (relation "measure (\<lambda>(s, a). 2 ^ 32 - a)") auto

declare load_string.simps [simp del]

section \<open>The calls\<close>

definition acquire :: "sys \<Rightarrow> sys option" where
  "acquire s = do { ASSERT (\<not> lock_held s); Some (s\<lparr>lock_held := True\<rparr>) }"

definition release :: "sys \<Rightarrow> sys option" where
  "release s = do { ASSERT (lock_held s); Some (s\<lparr>lock_held := False\<rparr>) }"

definition set_eax :: "int \<Rightarrow> sys \<Rightarrow> (outcome \<times> sys) option" where
  "set_eax v s = Some (Resume, s\<lparr>eax := u32_of v\<rparr>)"

text \<open>An open file of the process: \<open>fd >= 2 && fd < 128 && fd_table[fd] != NULL\<close>.\<close>

definition fd_file :: "sys \<Rightarrow> int \<Rightarrow> nat" where
  "fd_file s fd = (if 2 \<le> fd \<and> fd < 128 then fd_table (proc s) ! nat fd else NULL)"

definition sys_open :: "sys \<Rightarrow> nat \<Rightarrow> (outcome \<times> sys) option" where
  "sys_open s esp =
     (if \<not> check_valid_ptr s (esp + 4) then invalid s
      else do {
        open_file \<leftarrow> load32 s (esp + 4);
        if \<not> check_valid_ptr s open_file then invalid s
        else do {
          s \<leftarrow> acquire s;
          name \<leftarrow> load_string s open_file;
          (opened_file, v) \<leftarrow> filesys_open (vfs s) name;
          s \<leftarrow> release (s\<lparr>vfs := v\<rparr>);
          if opened_file = NULL then set_eax (-1) s
          else if next_fd (proc s) < 128
          then set_eax (int (next_fd (proc s)))
                 (s\<lparr>proc := (proc s)\<lparr>fd_table := (fd_table (proc s))[next_fd (proc s) := opened_file],
                                    next_fd := next_fd (proc s) + 1\<rparr>\<rparr>)
          else set_eax (-1) s } })"

definition sys_close :: "sys \<Rightarrow> nat \<Rightarrow> (outcome \<times> sys) option" where
  "sys_close s esp =
     (if \<not> check_valid_ptr s (esp + 4) then invalid s
      else do {
        a \<leftarrow> load32 s (esp + 4);
        let close_fd = s32 (int a);
        if fd_file s close_fd \<noteq> NULL
        then do {
          s \<leftarrow> acquire s;
          v \<leftarrow> file_close (vfs s) (fd_file s close_fd);
          s \<leftarrow> release (s\<lparr>vfs := v\<rparr>);
          Some (Resume, s\<lparr>proc := (proc s)\<lparr>fd_table := (fd_table (proc s))[nat close_fd := NULL]\<rparr>\<rparr>) }
        else Some (Resume, s) })"

definition sys_exec :: "sys \<Rightarrow> nat \<Rightarrow> (outcome \<times> sys) option" where
  "sys_exec s esp =
     (if \<not> check_valid_ptr s (esp + 4) then invalid s
      else do {
        cmd_line \<leftarrow> load32 s (esp + 4);
        if \<not> check_valid_ptr s cmd_line then invalid s
        else do { cmd \<leftarrow> load_string s cmd_line; Some (Execute cmd, s) } })"

definition sys_wait :: "sys \<Rightarrow> nat \<Rightarrow> (outcome \<times> sys) option" where
  "sys_wait s esp =
     (if \<not> check_valid_ptr s (esp + 4) then invalid s
      else do { pid \<leftarrow> load32 s (esp + 4); Some (Wait_For (s32 (int pid)), s) })"

text \<open>The unsigned size becomes an \<open>off_t\<close>. \<open>junk\<close> is the stack of \<open>dir_add\<close>.\<close>

definition sys_create :: "bytes \<Rightarrow> sys \<Rightarrow> nat \<Rightarrow> (outcome \<times> sys) option" where
  "sys_create junk s esp =
     (if \<not> check_valid_ptr s (esp + 4) \<or> \<not> check_valid_ptr s (esp + 8) then invalid s
      else do {
        create_file \<leftarrow> load32 s (esp + 4);
        initial_size \<leftarrow> load32 s (esp + 8);
        if \<not> check_valid_ptr s create_file then invalid s
        else do {
          s \<leftarrow> acquire s;
          name \<leftarrow> load_string s create_file;
          (ok, v) \<leftarrow> filesys_create (vfs s) name (s32 (int initial_size)) junk;
          s \<leftarrow> release (s\<lparr>vfs := v\<rparr>);
          set_eax (if ok then 1 else 0) s } })"

definition sys_remove :: "sys \<Rightarrow> nat \<Rightarrow> (outcome \<times> sys) option" where
  "sys_remove s esp =
     (if \<not> check_valid_ptr s (esp + 4) then invalid s
      else do {
        remove_file \<leftarrow> load32 s (esp + 4);
        if \<not> check_valid_ptr s remove_file then invalid s
        else do {
          s \<leftarrow> acquire s;
          name \<leftarrow> load_string s remove_file;
          (ok, v) \<leftarrow> filesys_remove (vfs s) name;
          s \<leftarrow> release (s\<lparr>vfs := v\<rparr>);
          set_eax (if ok then 1 else 0) s } })"

definition sys_exit :: "sys \<Rightarrow> nat \<Rightarrow> (outcome \<times> sys) option" where
  "sys_exit s esp =
     (if \<not> check_valid_ptr s (esp + 4) then invalid s
      else do {
        status \<leftarrow> load32 s (esp + 4);
        Some (Thread_Exit, s\<lparr>proc := (proc s)\<lparr>exit_status := s32 (int status)\<rparr>\<rparr>) })"

primrec getc_loop :: "nat \<Rightarrow> sys \<Rightarrow> nat \<Rightarrow> sys option" where
  "getc_loop 0 s a = Some s"
| "getc_loop (Suc n) s a = do {
     s \<leftarrow> store8 (s\<lparr>keys_read := keys_read s + 1\<rparr>) a (keys s (keys_read s));
     getc_loop n s (a + 1) }"

definition sys_read :: "sys \<Rightarrow> nat \<Rightarrow> (outcome \<times> sys) option" where
  "sys_read s esp =
     (if \<not> check_valid_ptr s (esp + 4) \<or> \<not> check_valid_ptr s (esp + 8) \<or> \<not> check_valid_ptr s (esp + 12) then invalid s
      else do {
        a \<leftarrow> load32 s (esp + 4);
        let fd = s32 (int a);
        buffer \<leftarrow> load32 s (esp + 8);
        size \<leftarrow> load32 s (esp + 12);
        if \<not> check_valid_ptr s buffer \<or> (size > 0 \<and> \<not> check_valid_ptr s (buffer + size - 1)) then invalid s
        else if fd = 0 then do { s \<leftarrow> getc_loop size s buffer; set_eax (int size) s }
        else if fd_file s fd \<noteq> NULL
        then do {
          s \<leftarrow> acquire s;
          (bs, v) \<leftarrow> file_read (vfs s) (fd_file s fd) (s32 (int size));
          s \<leftarrow> store_bytes bs (s\<lparr>vfs := v\<rparr>) buffer;
          s \<leftarrow> release s;
          set_eax (int (length bs)) s }
        else set_eax (-1) s })"

text \<open>
  The arguments are read before they are checked. \<open>file_write\<close> reads the buffer as far as it writes:
  what it would read past the mapped part stops the kernel.
\<close>

primrec mapped_bytes :: "nat \<Rightarrow> sys \<Rightarrow> nat \<Rightarrow> bytes" where
  "mapped_bytes 0 s a = []"
| "mapped_bytes (Suc n) s a = (case load8 s a of None \<Rightarrow> [] | Some b \<Rightarrow> b # mapped_bytes n s (a + 1))"

definition sys_write :: "sys \<Rightarrow> nat \<Rightarrow> (outcome \<times> sys) option" where
  "sys_write s esp = do {
     a \<leftarrow> load32 s (esp + 4);
     let fd = s32 (int a);
     buffer \<leftarrow> load32 s (esp + 8);
     size \<leftarrow> load32 s (esp + 12);
     if \<not> check_valid_ptr s (esp + 4) \<or> \<not> check_valid_ptr s (esp + 8) \<or> \<not> check_valid_ptr s (esp + 12) \<or>
        \<not> check_valid_ptr s buffer
     then invalid s
     else if fd = 1
     then do {
       bs \<leftarrow> load_bytes size s buffer;
       set_eax (int size) (s\<lparr>screen := screen s @ bs\<rparr>) }
     else if fd_file s fd \<noteq> NULL
     then do {
       s \<leftarrow> acquire s;
       let n = nat (s32 (int size));
       let bs = mapped_bytes n s buffer;
       (written, v) \<leftarrow> file_write (vfs s) (fd_file s fd) (bs @ replicate (n - length bs) 0) (int n);
       ASSERT (written \<le> int (length bs));
       s \<leftarrow> release (s\<lparr>vfs := v\<rparr>);
       set_eax written s }
     else set_eax (-1) s }"

definition sys_filesize :: "sys \<Rightarrow> nat \<Rightarrow> (outcome \<times> sys) option" where
  "sys_filesize s esp =
     (if \<not> check_valid_ptr s (esp + 4) then invalid s
      else do {
        a \<leftarrow> load32 s (esp + 4);
        let f = fd_file s (s32 (int a));
        if f \<noteq> NULL
        then do { s \<leftarrow> acquire s; n \<leftarrow> file_length (vfs s) f; s \<leftarrow> release s; set_eax n s }
        else set_eax (-1) s })"

definition sys_seek :: "sys \<Rightarrow> nat \<Rightarrow> (outcome \<times> sys) option" where
  "sys_seek s esp =
     (if \<not> check_valid_ptr s (esp + 4) \<or> \<not> check_valid_ptr s (esp + 8) then invalid s
      else do {
        a \<leftarrow> load32 s (esp + 4);
        position \<leftarrow> load32 s (esp + 8);
        let f = fd_file s (s32 (int a));
        if f \<noteq> NULL
        then do {
          s \<leftarrow> acquire s;
          v \<leftarrow> file_seek (vfs s) f (s32 (int position));
          s \<leftarrow> release (s\<lparr>vfs := v\<rparr>);
          Some (Resume, s) }
        else Some (Resume, s) })"

definition sys_tell :: "sys \<Rightarrow> nat \<Rightarrow> (outcome \<times> sys) option" where
  "sys_tell s esp =
     (if \<not> check_valid_ptr s (esp + 4) then invalid s
      else do {
        a \<leftarrow> load32 s (esp + 4);
        let f = fd_file s (s32 (int a));
        if f \<noteq> NULL
        then do { s \<leftarrow> acquire s; n \<leftarrow> file_tell (vfs s) f; s \<leftarrow> release s; set_eax n s }
        else set_eax (-1) s })"

definition syscall_handler :: "bytes \<Rightarrow> nat \<Rightarrow> sys \<Rightarrow> (outcome \<times> sys) option" where
  "syscall_handler junk esp s =
     (if \<not> check_valid_ptr s esp \<or> \<not> check_valid_ptr s (esp + 3) then invalid s
      else do {
        syscall_num \<leftarrow> load32 s esp;
        if syscall_num = 0 then Some (Power_Off, s)
        else if syscall_num = 1 then sys_exit s esp
        else if syscall_num = 2 then sys_exec s esp
        else if syscall_num = 3 then sys_wait s esp
        else if syscall_num = 4 then sys_create junk s esp
        else if syscall_num = 5 then sys_remove s esp
        else if syscall_num = 6 then sys_open s esp
        else if syscall_num = 7 then sys_filesize s esp
        else if syscall_num = 8 then sys_read s esp
        else if syscall_num = 9 then sys_write s esp
        else if syscall_num = 10 then sys_seek s esp
        else if syscall_num = 11 then sys_tell s esp
        else if syscall_num = 12 then sys_close s esp
        else Some (Thread_Exit, s) })"

section \<open>The end of a process\<close>

text \<open>The loop of \<open>process_exit\<close> over the table, then the executable. The lock is not taken.\<close>

fun close_fds :: "nat list \<Rightarrow> sys \<Rightarrow> sys option" where
  "close_fds [] s = Some s"
| "close_fds (i # is) s =
     (if fd_table (proc s) ! i \<noteq> NULL
      then do {
        v \<leftarrow> file_close (vfs s) (fd_table (proc s) ! i);
        close_fds is (s\<lparr>vfs := v, proc := (proc s)\<lparr>fd_table := (fd_table (proc s))[i := NULL]\<rparr>\<rparr>) }
      else close_fds is s)"

definition close_exec :: "sys \<Rightarrow> sys option" where
  "close_exec s =
     (if exec_file (proc s) \<noteq> NULL
      then do {
        v \<leftarrow> file_close (vfs s) (exec_file (proc s));
        Some (s\<lparr>vfs := v, proc := (proc s)\<lparr>exec_file := NULL\<rparr>\<rparr>) }
      else Some s)"

definition process_exit_files :: "sys \<Rightarrow> sys option" where
  "process_exit_files s = do { s \<leftarrow> close_fds [2..<128] s; close_exec s }"

end
