(* ===== verification/System_Call_Safety.thy ===== *)
theory System_Call_Safety
  imports System_Calls
begin

text \<open>
  What the system calls keep. \<open>sys_inv\<close> is the invariant of a process between two calls: the file system
  is consistent, the table of open files has distinct live handles in the slots that were handed out, and
  \<open>filesys_lock\<close> is free. The effect lemmas read the refinement of the file system as facts about its handles.
\<close>

section \<open>The invariant of a process\<close>

definition open_files :: "uproc \<Rightarrow> nat set" where
  "open_files p = set (fd_table p) \<union> {exec_file p} - {NULL}"

definition table_ok :: "uproc \<Rightarrow> bool" where
  "table_ok p \<longleftrightarrow> length (fd_table p) = 128 \<and> 2 \<le> next_fd p \<and> next_fd p \<le> 128 \<and>
     (\<forall>i<128. fd_table p ! i \<noteq> NULL \<longrightarrow> 2 \<le> i \<and> i < next_fd p) \<and>
     (\<forall>i<128. \<forall>j<128. fd_table p ! i = fd_table p ! j \<longrightarrow> fd_table p ! i \<noteq> NULL \<longrightarrow> i = j) \<and>
     (exec_file p \<noteq> NULL \<longrightarrow> exec_file p \<notin> set (fd_table p))"

definition sys_inv :: "sys \<Rightarrow> bool" where
  "sys_inv s \<longleftrightarrow> fs_inv (vfs s) \<and> \<not> lock_held s \<and> table_ok (proc s) \<and> open_files (proc s) \<subseteq> dom (handles (vfs s))"

text \<open>The open files of other processes stay as they are, and stay out of the table.\<close>

definition others_kept :: "sys \<Rightarrow> sys \<Rightarrow> bool" where
  "others_kept s s' \<longleftrightarrow> (\<forall>g\<in>dom (handles (vfs s)) - open_files (proc s).
     handles (vfs s') g = handles (vfs s) g \<and> g \<notin> open_files (proc s'))"

definition keeps :: "sys \<Rightarrow> sys \<Rightarrow> bool" where
  "keeps s s' \<longleftrightarrow> sys_inv s' \<and> others_kept s s'"

lemma others_kept_trans:
  assumes "others_kept s s1" "others_kept s1 s2"
  shows "others_kept s s2"
  unfolding others_kept_def
proof
  fix g assume g: "g \<in> dom (handles (vfs s)) - open_files (proc s)"
  then have g1: "handles (vfs s1) g = handles (vfs s) g" "g \<notin> open_files (proc s1)" using assms(1) by (auto simp: others_kept_def)
  then have "g \<in> dom (handles (vfs s1)) - open_files (proc s1)" using g by auto
  then show "handles (vfs s2) g = handles (vfs s) g \<and> g \<notin> open_files (proc s2)" using assms(2) g1(1) by (simp add: others_kept_def)
qed

lemma keeps_same:
  assumes "sys_inv s" "vfs s' = vfs s" "lock_held s' = lock_held s"
    "fd_table (proc s') = fd_table (proc s)" "next_fd (proc s') = next_fd (proc s)" "exec_file (proc s') = exec_file (proc s)"
  shows "keeps s s'"
  using assms by (simp add: keeps_def sys_inv_def table_ok_def open_files_def others_kept_def)

lemma keeps_same_state: "sys_inv s \<Longrightarrow> keeps s s"
  by (simp add: keeps_def others_kept_def)

lemma keeps_files:
  assumes "sys_inv s" "proc s' = proc s" "\<not> lock_held s'" "fs_inv (vfs s')"
    "handles (vfs s') = handles (vfs s) \<or> (\<exists>f h. f \<in> open_files (proc s) \<and> handles (vfs s') = (handles (vfs s))(f \<mapsto> h))"
  shows "keeps s s'"
  using assms by (auto simp: keeps_def sys_inv_def others_kept_def)

lemma fd_file_open:
  assumes "sys_inv s" "fd_file s fd \<noteq> NULL"
  shows "fd_file s fd \<in> open_files (proc s)" "fd_file s fd \<in> dom (a_handles (abs_fs (vfs s)))" "2 \<le> fd" "fd < 128"
    "fd_file s fd = fd_table (proc s) ! nat fd"
proof -
  show fd: "2 \<le> fd" "fd < 128" "fd_file s fd = fd_table (proc s) ! nat fd" using assms(2) by (auto simp: fd_file_def split: if_splits)
  then show "fd_file s fd \<in> open_files (proc s)"
    using assms by (auto simp: open_files_def sys_inv_def table_ok_def)
  then show "fd_file s fd \<in> dom (a_handles (abs_fs (vfs s)))" using assms(1) by (auto simp: sys_inv_def abs_fs_def)
qed

lemma table_ok_open:
  assumes "table_ok p" "next_fd p < 128" "f \<noteq> NULL" "f \<notin> open_files p"
  shows "table_ok (p\<lparr>fd_table := (fd_table p)[next_fd p := f], next_fd := next_fd p + 1\<rparr>)"
    "open_files (p\<lparr>fd_table := (fd_table p)[next_fd p := f], next_fd := next_fd p + 1\<rparr>) \<subseteq> insert f (open_files p)"
proof -
  have "f \<notin> set (fd_table p)" "f \<noteq> exec_file p" using assms(3,4) by (auto simp: open_files_def)
  moreover have "\<forall>i<128. fd_table p ! i \<noteq> f" using calculation(1) assms(1) by (auto simp: table_ok_def)
  ultimately show "table_ok (p\<lparr>fd_table := (fd_table p)[next_fd p := f], next_fd := next_fd p + 1\<rparr>)"
    using assms(1-3) set_update_subset_insert [of "fd_table p" "next_fd p" f]
    unfolding table_ok_def by (auto simp: nth_list_update less_Suc_eq)
  show "open_files (p\<lparr>fd_table := (fd_table p)[next_fd p := f], next_fd := next_fd p + 1\<rparr>) \<subseteq> insert f (open_files p)"
    using set_update_subset_insert [of "fd_table p" "next_fd p" f] by (auto simp: open_files_def)
qed

lemma table_ok_close:
  assumes "table_ok p" "i < 128" "fd_table p ! i \<noteq> NULL"
  shows "table_ok (p\<lparr>fd_table := (fd_table p)[i := NULL]\<rparr>)"
    "open_files (p\<lparr>fd_table := (fd_table p)[i := NULL]\<rparr>) = open_files p - {fd_table p ! i}"
proof -
  have l: "length (fd_table p) = 128" using assms(1) by (simp add: table_ok_def)
  have s: "x \<in> set ((fd_table p)[i := NULL]) \<and> x \<noteq> NULL \<longleftrightarrow> x \<in> set (fd_table p) \<and> x \<noteq> NULL \<and> x \<noteq> fd_table p ! i" for x
    using assms l unfolding in_set_conv_nth table_ok_def by (auto simp: nth_list_update)
  have e: "exec_file p \<noteq> NULL \<Longrightarrow> exec_file p \<notin> set (fd_table p)" using assms(1) by (simp add: table_ok_def)
  show "table_ok (p\<lparr>fd_table := (fd_table p)[i := NULL]\<rparr>)"
  proof -
    have n: "(fd_table p)[i := NULL] ! j = (if j = i then NULL else fd_table p ! j)" if "j < 128" for j
      using that l by (simp add: nth_list_update)
    have "exec_file p \<noteq> NULL \<Longrightarrow> exec_file p \<notin> set ((fd_table p)[i := NULL])" using s [of "exec_file p"] e by blast
    then show ?thesis using assms(1) unfolding table_ok_def by (simp add: n l)
  qed
  show "open_files (p\<lparr>fd_table := (fd_table p)[i := NULL]\<rparr>) = open_files p - {fd_table p ! i}"
  proof (rule set_eqI)
    fix x
    have "fd_table p ! i \<in> set (fd_table p)" using assms(2) l by simp
    then show "x \<in> open_files (p\<lparr>fd_table := (fd_table p)[i := NULL]\<rparr>) \<longleftrightarrow> x \<in> open_files p - {fd_table p ! i}"
      using s [of x] e assms(3) by (cases "x = exec_file p") (auto simp: open_files_def)
  qed
qed

section \<open>Effects of the file system on its handles\<close>

lemma call_effect:
  assumes "fs_inv v" "length junk = 20" "valid_call (abs_fs v) c" "fs_exec junk v c = Some (r, v')"
  shows "fs_inv v' \<and> spec (abs_fs v) c r (abs_fs v')"
  using fs_exec_implements [OF assms(1,3,2)] assms(4) by (simp add: implements_def)

lemma junk_exists: "\<exists>j :: bytes. length j = 20"
  by (rule exI [of _ "replicate 20 0"]) simp

lemma handles_abs: "a_handles (abs_fs v) = handles v"
  by (simp add: abs_fs_def)

lemma create_negative:
  assumes "fs_inv v" "len < 0" "filesys_create v name len junk = Some (ok, v')"
  shows "fs_inv v' \<and> abs_fs v' = abs_fs v"
proof -
  obtain d p s1 G1 where s1: "dir_open_root v = Some (d, s1)" "inv (files v) G1 (\<lambda>_. 0) s1" "root_open s1 d p" "sees v s1" "live s1 = live v"
      "d \<noteq> 0" "files_kept (files v) v s1" "closable (files v) (dirs v) G1 d v s1" "free_map s1 = free_map v"
    by (rule with_root [OF fs_invD [OF assms(1)]])
  from s1(2) show ?thesis
  proof (cases rule: free_map_allocate_ok [where cnt = 1, consumes 1, case_names none some])
    case none
    obtain s3 where s3: "dir_close s1 d = Some s3" "inv (files v) (dirs v) (\<lambda>_. 0) s3" "sees s1 s3" "dirs s3 = dirs v" "files_kept (files v) s1 s3"
      by (rule closableD [OF s1(8,2) refl])
    have u: "unchanged (files v) v s3"
      unfolding unchanged_def using s1(4,7) s3(3-5) sees_trans files_kept_trans by metis
    then have "fs_inv s3" using s3(2) by (intro inv_same_tables) (simp_all add: unchanged_def sees_def)
    then show ?thesis using abs_unchanged [OF _ u] assms(3) s1(1,6) s3(1) none(1)
      by (simp add: filesys_create_split create_step_def)
  next
    case (some n s2)
    then show ?thesis using assms(2,3) s1(1,6) by (simp add: filesys_create_split create_step_def inode_create_def)
  qed
qed

lemma create_effect:
  assumes "fs_inv v" "0 \<notin> set name" "length junk = 20" "len < 2 ^ 31" "filesys_create v name len junk = Some (ok, v')"
  shows "fs_inv v' \<and> handles v' = handles v"
proof (cases "len < 0")
  case True
  then show ?thesis using create_negative [OF assms(1) _ assms(5)] handles_abs by metis
next
  case False
  then have "valid_call (abs_fs v) (Create name len)" using assms(2,4) by simp
  from call_effect [OF assms(1,3) this, of "Flag ok" v'] assms(5) show ?thesis
    by (auto simp: fs_exec_def handles_abs [symmetric])
qed

lemma remove_effect:
  assumes "fs_inv v" "0 \<notin> set name" "filesys_remove v name = Some (ok, v')"
  shows "fs_inv v' \<and> handles v' = handles v"
proof -
  obtain j :: bytes where j: "length j = 20" using junk_exists by blast
  have "valid_call (abs_fs v) (Remove name)" using assms(2) by simp
  from call_effect [OF assms(1) j this, of "Flag ok" v'] assms(3) show ?thesis
    by (auto simp: fs_exec_def handles_abs [symmetric] collect_def)
qed

lemma open_effect:
  assumes "fs_inv v" "0 \<notin> set name" "filesys_open v name = Some (f, v')"
  shows "fs_inv v'" "f = NULL \<and> handles v' = handles v \<or> f \<noteq> NULL \<and> handles v f = None \<and> (\<exists>h. handles v' = (handles v)(f \<mapsto> h))"
proof -
  obtain j :: bytes where j: "length j = 20" using junk_exists by blast
  have "valid_call (abs_fs v) (Open name)" using assms(2) by simp
  from call_effect [OF assms(1) j this, of "Handle f" v'] assms(3)
  have "fs_inv v' \<and> spec (abs_fs v) (Open name) (Handle f) (abs_fs v')" by (simp add: fs_exec_def)
  then show "fs_inv v'" "f = NULL \<and> handles v' = handles v \<or> f \<noteq> NULL \<and> handles v f = None \<and> (\<exists>h. handles v' = (handles v)(f \<mapsto> h))"
    by (auto simp: handles_abs [symmetric] split: option.splits)
qed

lemma close_effect:
  assumes "fs_inv v" "f \<in> dom (handles v)"
  obtains v' where "file_close v f = Some v'" "fs_inv v'" "handles v' = (handles v)(f := None)" "names v' = names v"
proof -
  obtain j :: bytes where j: "length j = 20" using junk_exists by blast
  have "valid_call (abs_fs v) (Close f)" using assms(2) by (simp add: handles_abs)
  from fs_exec_implements [OF assms(1) this j] obtain r v' where v': "fs_exec j v (Close f) = Some (r, v')" "fs_inv v'"
    "abs_fs v' = collect ((abs_fs v)\<lparr>a_handles := (a_handles (abs_fs v))(f := None)\<rparr>)" by (auto simp: implements_def)
  from v'(3) have "handles v' = (handles v)(f := None)" unfolding handles_abs [symmetric] by (simp add: collect_def)
  moreover have "names v' = names v" using arg_cong [where f = a_names, OF v'(3)] by (simp add: collect_def abs_fs_def)
  ultimately show ?thesis using that v'(1,2) by (auto simp: fs_exec_def)
qed

lemma file_read_neg: "n < 0 \<Longrightarrow> file_read v f n = file_read v f 0"
  by (simp add: file_read_def inode_read_at_def read_loop.simps)

lemma read_effect:
  assumes "fs_inv v" "f \<in> dom (handles v)" "n < 2 ^ 31" "file_read v f n = Some (bs, v')"
  shows "fs_inv v' \<and> (\<exists>h. handles v' = (handles v)(f \<mapsto> h))"
proof -
  obtain j :: bytes where j: "length j = 20" using junk_exists by blast
  have "valid_call (abs_fs v) (Read f (nat n))" using assms(2,3) by (simp add: handles_abs)
  moreover have "fs_exec j v (Read f (nat n)) = Some (Bytes bs, v')"
    using assms(4) by (cases "n < 0") (simp_all add: fs_exec_def file_read_neg)
  ultimately have "fs_inv v' \<and> spec (abs_fs v) (Read f (nat n)) (Bytes bs) (abs_fs v')" by (rule call_effect [OF assms(1) j])
  then show ?thesis by (auto simp: handles_abs [symmetric])
qed

lemma write_effect:
  assumes "fs_inv v" "f \<in> dom (handles v)" "length buf < 2 ^ 31" "file_write v f buf (int (length buf)) = Some (k, v')"
  shows "fs_inv v' \<and> (\<exists>h. handles v' = (handles v)(f \<mapsto> h))"
proof -
  obtain j :: bytes where j: "length j = 20" using junk_exists by blast
  have "valid_call (abs_fs v) (Write f buf)" using assms(2,3) by (simp add: handles_abs)
  moreover have "fs_exec j v (Write f buf) = Some (Number k, v')" using assms(4) by (simp add: fs_exec_def)
  ultimately have "fs_inv v' \<and> spec (abs_fs v) (Write f buf) (Number k) (abs_fs v')" by (rule call_effect [OF assms(1) j])
  then show ?thesis by (auto simp: handles_abs [symmetric])
qed

lemma seek_effect:
  assumes "fs_inv v" "f \<in> dom (handles v)" "pos < 2 ^ 31" "file_seek v f pos = Some v'"
  shows "fs_inv v' \<and> (\<exists>h. handles v' = (handles v)(f \<mapsto> h))"
proof -
  obtain j :: bytes where j: "length j = 20" using junk_exists by blast
  have "0 \<le> pos" using assms(4) by (auto simp: file_seek_def split: if_splits Option.bind_splits)
  then have "valid_call (abs_fs v) (Seek f pos)" using assms(2,3) by (simp add: handles_abs)
  moreover have "fs_exec j v (Seek f pos) = Some (Nothing, v')" using assms(4) by (simp add: fs_exec_def)
  ultimately have "fs_inv v' \<and> spec (abs_fs v) (Seek f pos) (Nothing) (abs_fs v')" by (rule call_effect [OF assms(1) j])
  then show ?thesis by (auto simp: handles_abs [symmetric])
qed

section \<open>User memory\<close>

lemma s32_less: "s32 x < 2 ^ 31"
  by (simp add: s32_def)

lemma load_string_no_null: "load_string s a = Some bs \<Longrightarrow> 0 \<notin> set bs"
proof (induction s a arbitrary: bs rule: load_string.induct)
  case (1 s a)
  then obtain b where b: "a < 2 ^ 32" "load8 s a = Some b" by (subst (asm) (2) load_string.simps) (auto simp: bind_eq_Some_conv split: if_splits)
  show ?case
  proof (cases "b = 0")
    case True
    then show ?thesis using "1.prems" b by (subst (asm) load_string.simps) simp
  next
    case False
    then obtain cs where "load_string s (a + 1) = Some cs" "bs = b # cs"
      using "1.prems" b by (subst (asm) load_string.simps) (auto simp: bind_eq_Some_conv)
    then show ?thesis using "1.IH" [OF b False] False by simp
  qed
qed

lemma store8_frame: "store8 s a b = Some s' \<Longrightarrow> \<exists>m. s' = s\<lparr>memory := m\<rparr>"
  by (auto simp: store8_def split: Option.bind_splits if_splits)

lemma store_bytes_frame: "store_bytes bs s a = Some s' \<Longrightarrow> \<exists>m. s' = s\<lparr>memory := m\<rparr>"
proof (induction bs arbitrary: s a)
  case (Cons b bs)
  then show ?case by (fastforce simp: bind_eq_Some_conv dest: store8_frame)
qed (auto intro: exI [of _ "memory s'"])

lemma getc_loop_frame: "getc_loop n s a = Some s' \<Longrightarrow> \<exists>m k. s' = s\<lparr>memory := m, keys_read := k\<rparr>"
proof (induction n arbitrary: s a)
  case (Suc n)
  then show ?case by (fastforce simp: bind_eq_Some_conv dest: store8_frame)
next
  case 0
  then have "s' = s\<lparr>memory := memory s, keys_read := keys_read s\<rparr>" by simp
  then show ?case by blast
qed

lemma length_mapped_bytes: "length (mapped_bytes n s a) \<le> n"
  by (induction n arbitrary: a) (auto split: option.split)

section \<open>Every call keeps the invariant\<close>

lemmas call_simps = bind_eq_Some_conv invalid_def set_eax_def acquire_def release_def Let_def

lemma own_dom: "sys_inv s \<Longrightarrow> fd_file s fd \<noteq> NULL \<Longrightarrow> fd_file s fd \<in> dom (handles (vfs s))"
  using fd_file_open(2) by (simp add: handles_abs)

lemma fd_file_cong [simp]: "fd_file (s\<lparr>lock_held := b\<rparr>) fd = fd_file s fd"
  by (simp add: fd_file_def)

lemma invD_fs: "sys_inv s \<Longrightarrow> fs_inv (vfs s)" "sys_inv s \<Longrightarrow> \<not> lock_held s"
  by (simp_all add: sys_inv_def)

lemma invalid_keeps: "sys_inv s \<Longrightarrow> invalid s = Some (out, s') \<Longrightarrow> keeps s s'"
  by (auto simp: invalid_def intro: keeps_same)

lemma sys_open_keeps:
  assumes "sys_inv s" "sys_open s esp = Some (out, s')"
  shows "keeps s s'"
proof (cases "invalid s = Some (out, s')")
  case False
  with assms(2) obtain a name f v where
    o: "load_string (s\<lparr>lock_held := True\<rparr>) a = Some name" "filesys_open (vfs s) name = Some (f, v)" and
    s': "(if f = NULL then set_eax (-1) (s\<lparr>vfs := v, lock_held := False\<rparr>)
          else if next_fd (proc s) < 128
          then set_eax (int (next_fd (proc s))) (s\<lparr>vfs := v, lock_held := False,
                 proc := (proc s)\<lparr>fd_table := (fd_table (proc s))[next_fd (proc s) := f], next_fd := next_fd (proc s) + 1\<rparr>\<rparr>)
          else set_eax (-1) (s\<lparr>vfs := v, lock_held := False\<rparr>)) = Some (out, s')"
    by (auto simp: sys_open_def acquire_def release_def bind_eq_Some_conv split: if_splits)
  note e = open_effect [OF invD_fs(1) [OF assms(1)] load_string_no_null [OF o(1)] o(2)]
  have p: "table_ok (proc s)" "open_files (proc s) \<subseteq> dom (handles (vfs s))" using assms(1) by (simp_all add: sys_inv_def)
  show ?thesis
  proof (cases "f \<noteq> NULL \<and> next_fd (proc s) < 128")
    case True
    let ?p = "(proc s)\<lparr>fd_table := (fd_table (proc s))[next_fd (proc s) := f], next_fd := next_fd (proc s) + 1\<rparr>"
    obtain h where h: "handles (vfs s) f = None" "handles v = (handles (vfs s))(f \<mapsto> h)" using e(2) True by auto
    have s2: "s' = s\<lparr>vfs := v, lock_held := False, proc := ?p, eax := eax s'\<rparr>" using s' True by (auto simp: set_eax_def)
    have f: "f \<notin> open_files (proc s)" using h(1) p(2) by auto
    note t = table_ok_open [OF p(1) conjunct2 [OF True] conjunct1 [OF True] f]
    have "sys_inv s'" using t p(2) e(1) h(2) by (subst s2) (auto simp: sys_inv_def)
    moreover have "others_kept s s'" using h t(2) by (subst s2) (auto simp: others_kept_def)
    ultimately show ?thesis by (simp add: keeps_def)
  next
    case False
    then have s2: "s' = s\<lparr>vfs := v, lock_held := False, eax := eax s'\<rparr>" using s' by (auto simp: set_eax_def split: if_splits)
    have h: "\<forall>g\<in>dom (handles (vfs s)). handles v g = handles (vfs s) g" using e(2) by auto
    have "open_files (proc s) \<subseteq> dom (handles v)" using h p(2) by (metis domIff subset_iff)
    then have "sys_inv s'" using p(1) e(1) by (subst s2) (simp add: sys_inv_def)
    moreover have "others_kept s s'" using h by (subst s2) (simp add: others_kept_def)
    ultimately show ?thesis by (simp add: keeps_def)
  qed
qed (use invalid_keeps assms(1) in blast)

lemma sys_close_keeps:
  assumes "sys_inv s" "sys_close s esp = Some (out, s')"
  shows "keeps s s'"
proof (cases "s' = s \<or> invalid s = Some (out, s')")
  case True
  then show ?thesis using invalid_keeps [OF assms(1)] keeps_same_state [OF assms(1)] by blast
next
  case False
  with assms(2) obtain fd v where c: "fd_file s fd \<noteq> NULL" "file_close (vfs s) (fd_file s fd) = Some v"
    "s' = s\<lparr>vfs := v, lock_held := False, proc := (proc s)\<lparr>fd_table := (fd_table (proc s))[nat fd := NULL]\<rparr>\<rparr>"
    by (auto simp: sys_close_def acquire_def release_def bind_eq_Some_conv Let_def split: if_splits)
  note o = fd_file_open [OF assms(1) c(1)]
  have v: "fs_inv v" "handles v = (handles (vfs s))(fd_file s fd := None)"
    using close_effect [OF invD_fs(1) [OF assms(1)] own_dom [OF assms(1) c(1)]] c(2) by auto
  have i: "nat fd < 128" "fd_table (proc s) ! nat fd \<noteq> NULL" using o(3-5) c(1) by simp_all
  have p: "table_ok (proc s)" "open_files (proc s) \<subseteq> dom (handles (vfs s))" using assms(1) by (simp_all add: sys_inv_def)
  note t = table_ok_close [OF p(1) i]
  have "sys_inv s'" using t p(2) v o(5) by (auto simp: sys_inv_def c(3))
  moreover have "others_kept s s'" using v(2) o(1) t(2) by (auto simp: others_kept_def c(3))
  ultimately show ?thesis by (simp add: keeps_def)
qed

lemma sys_create_keeps:
  assumes "sys_inv s" "length junk = 20" "sys_create junk s esp = Some (out, s')"
  shows "keeps s s'"
proof (cases "invalid s = Some (out, s')")
  case False
  with assms(3) obtain a n name ok v where
    o: "load_string (s\<lparr>lock_held := True\<rparr>) a = Some name" "filesys_create (vfs s) name (s32 n) junk = Some (ok, v)" and
    s': "s' = s\<lparr>vfs := v, lock_held := False, eax := eax s'\<rparr>"
    by (auto simp: sys_create_def acquire_def release_def set_eax_def bind_eq_Some_conv split: if_splits)
  note e = create_effect [OF invD_fs(1) [OF assms(1)] load_string_no_null [OF o(1)] assms(2) s32_less o(2)]
  show ?thesis by (subst s', rule keeps_files [OF assms(1)]) (use e in simp_all)
qed (use invalid_keeps assms(1) in blast)

lemma sys_remove_keeps:
  assumes "sys_inv s" "sys_remove s esp = Some (out, s')"
  shows "keeps s s'"
proof (cases "invalid s = Some (out, s')")
  case False
  with assms(2) obtain a name ok v where
    o: "load_string (s\<lparr>lock_held := True\<rparr>) a = Some name" "filesys_remove (vfs s) name = Some (ok, v)" and
    s': "s' = s\<lparr>vfs := v, lock_held := False, eax := eax s'\<rparr>"
    by (auto simp: sys_remove_def acquire_def release_def set_eax_def bind_eq_Some_conv split: if_splits)
  note e = remove_effect [OF invD_fs(1) [OF assms(1)] load_string_no_null [OF o(1)] o(2)]
  show ?thesis by (subst s', rule keeps_files [OF assms(1)]) (use e in simp_all)
qed (use invalid_keeps assms(1) in blast)

lemma keeps_owned:
  assumes "sys_inv s" "proc s' = proc s" "\<not> lock_held s'" "fd_file s fd \<noteq> NULL"
    "fs_inv (vfs s') \<and> (\<exists>h. handles (vfs s') = (handles (vfs s))(fd_file s fd \<mapsto> h))"
  shows "keeps s s'"
  using keeps_files [OF assms(1-3)] fd_file_open(1) [OF assms(1,4)] assms(5) by blast

lemma sys_read_keeps:
  assumes "sys_inv s" "sys_read s esp = Some (out, s')"
  shows "keeps s s'"
proof (cases "\<exists>m k e. s' = s\<lparr>memory := m, keys_read := k, eax := e\<rparr> \<or> invalid s = Some (out, s')")
  case True
  then show ?thesis using invalid_keeps [OF assms(1)] by (elim exE disjE) (auto intro: keeps_same [OF assms(1)])
next
  case False
  have g: "set_eax (int n) s2 \<noteq> Some (out, s')" if "getc_loop n s a = Some s2" for n a s2
    using getc_loop_frame [OF that] False by (auto simp: set_eax_def)
  have n: "set_eax x s \<noteq> Some (out, s')" for x
  proof
    assume "set_eax x s = Some (out, s')"
    then have "s' = s\<lparr>memory := memory s, keys_read := keys_read s, eax := u32_of x\<rparr>" by (auto simp: set_eax_def)
    then show False using False by blast
  qed
  have i: "invalid s \<noteq> Some (out, s')" using False by blast
  obtain fd b size bs v s2 where o: "fd_file s fd \<noteq> NULL" "file_read (vfs s) (fd_file s fd) (s32 size) = Some (bs, v)"
    "store_bytes bs (s\<lparr>lock_held := True, vfs := v\<rparr>) b = Some s2" "s' = s2\<lparr>lock_held := False, eax := eax s'\<rparr>"
    using assms(2) g n i
    by (auto simp: sys_read_def acquire_def release_def set_eax_def bind_eq_Some_conv Let_def split: if_splits)
  obtain m where "s2 = s\<lparr>lock_held := True, vfs := v, memory := m\<rparr>" using store_bytes_frame [OF o(3)] by blast
  then have s': "proc s' = proc s" "\<not> lock_held s'" "vfs s' = v" by (subst o(4), simp)+
  show ?thesis
    using read_effect [OF invD_fs(1) [OF assms(1)] own_dom [OF assms(1) o(1)] s32_less o(2)] s'
    by (intro keeps_owned [OF assms(1) _ _ o(1)]) simp_all
qed

lemma sys_write_keeps:
  assumes "sys_inv s" "sys_write s esp = Some (out, s')"
  shows "keeps s s'"
proof (cases "\<exists>m e. s' = s\<lparr>screen := m, eax := e\<rparr> \<or> invalid s = Some (out, s')")
  case True
  then show ?thesis using invalid_keeps [OF assms(1)] by (elim exE disjE) (auto intro: keeps_same [OF assms(1)])
next
  case False
  have n: "set_eax x s \<noteq> Some (out, s')" for x
  proof
    assume "set_eax x s = Some (out, s')"
    then have "s' = s\<lparr>screen := screen s, eax := u32_of x\<rparr>" by (auto simp: set_eax_def)
    then show False using False by blast
  qed
  have c: "set_eax x (s\<lparr>screen := m\<rparr>) \<noteq> Some (out, s')" for x m using False by (auto simp: set_eax_def)
  have i: "invalid s \<noteq> Some (out, s')" using False by blast
  obtain fd b size bs k v where o: "fd_file s fd \<noteq> NULL" "bs = mapped_bytes (nat (s32 size)) (s\<lparr>lock_held := True\<rparr>) b"
    "file_write (vfs s) (fd_file s fd) (bs @ replicate (nat (s32 size) - length bs) 0) (int (nat (s32 size))) = Some (k, v)"
    "s' = s\<lparr>vfs := v, lock_held := False, eax := eax s'\<rparr>"
    using assms(2) n i c
    by (auto simp: sys_write_def acquire_def release_def set_eax_def bind_eq_Some_conv Let_def simp del: int_nat_eq split: if_splits)
  have l: "length (bs @ replicate (nat (s32 size) - length bs) 0) = nat (s32 size)" using length_mapped_bytes o(2) by simp
  have s': "proc s' = proc s" "\<not> lock_held s'" "vfs s' = v" by (subst o(4), simp)+
  have "nat (s32 size) < 2 ^ 31" using s32_less [of size] by simp
  then show ?thesis
    using write_effect [OF invD_fs(1) [OF assms(1)] own_dom [OF assms(1) o(1)], of "bs @ replicate (nat (s32 size) - length bs) 0"] o(3) l s'
    by (intro keeps_owned [OF assms(1) _ _ o(1)]) simp_all
qed

lemma sys_seek_keeps:
  assumes "sys_inv s" "sys_seek s esp = Some (out, s')"
  shows "keeps s s'"
proof (cases "s' = s \<or> invalid s = Some (out, s')")
  case True
  then show ?thesis using invalid_keeps [OF assms(1)] keeps_same [OF assms(1)] by blast
next
  case False
  with assms(2) obtain fd pos v where o: "fd_file s fd \<noteq> NULL" "file_seek (vfs s) (fd_file s fd) (s32 pos) = Some v"
    "s' = s\<lparr>lock_held := False, vfs := v\<rparr>"
    by (auto simp: sys_seek_def acquire_def release_def bind_eq_Some_conv Let_def split: if_splits)
  then show ?thesis
    using seek_effect [OF invD_fs(1) [OF assms(1)] own_dom [OF assms(1) o(1)] s32_less o(2)]
    by (intro keeps_owned [OF assms(1) _ _ o(1)]) simp_all
qed

lemma sys_query_keeps:
  assumes "sys_inv s"
  shows "sys_filesize s esp = Some (out, s') \<Longrightarrow> keeps s s'" "sys_tell s esp = Some (out, s') \<Longrightarrow> keeps s s'"
    "sys_exit s esp = Some (out, s') \<Longrightarrow> keeps s s'" "sys_exec s esp = Some (out, s') \<Longrightarrow> keeps s s'"
    "sys_wait s esp = Some (out, s') \<Longrightarrow> keeps s s'"
  using assms invD_fs(2) [OF assms]
  by (auto simp: sys_filesize_def sys_tell_def sys_exit_def sys_exec_def sys_wait_def call_simps split: if_splits
      intro: keeps_same keeps_same_state)

lemma syscall_keeps:
  assumes "sys_inv s" "length junk = 20" "syscall_handler junk esp s = Some (out, s')"
  shows "keeps s s'"
proof (cases "(out, s') = (Power_Off, s) \<or> (out, s') = (Thread_Exit, s) \<or> invalid s = Some (out, s')")
  case True
  then show ?thesis using invalid_keeps [OF assms(1)] keeps_same [OF assms(1)] by auto
next
  case False
  let ?R = "Some (out, s')"
  have "sys_exit s esp = ?R \<or> sys_exec s esp = ?R \<or> sys_wait s esp = ?R \<or> sys_create junk s esp = ?R \<or> sys_remove s esp = ?R \<or>
      sys_open s esp = ?R \<or> sys_filesize s esp = ?R \<or> sys_read s esp = ?R \<or> sys_write s esp = ?R \<or> sys_seek s esp = ?R \<or>
      sys_tell s esp = ?R \<or> sys_close s esp = ?R"
  proof (cases "load32 s esp")
    case None
    then show ?thesis using assms(3) False by (simp add: syscall_handler_def split: if_splits)
  next
    case (Some n)
    then show ?thesis using assms(3) False by (simp add: syscall_handler_def split: if_split_asm)
  qed
  then show ?thesis
    by (elim disjE) (fact sys_query_keeps [OF assms(1)] sys_open_keeps [OF assms(1)] sys_close_keeps [OF assms(1)]
      sys_create_keeps [OF assms(1,2)] sys_remove_keeps [OF assms(1)] sys_read_keeps [OF assms(1)] sys_write_keeps [OF assms(1)]
      sys_seek_keeps [OF assms(1)])+
qed

section \<open>A process from its first call to its end\<close>

text \<open>
  Between two calls the program runs: it changes user memory, and other input arrives. A call that
  returns to it is a step; the others end the run.
\<close>

inductive process_runs :: "bytes \<Rightarrow> sys \<Rightarrow> sys \<Rightarrow> bool" for junk where
  runs_start: "process_runs junk s s"
| runs_user: "process_runs junk s s1 \<Longrightarrow> (\<forall>a. m a \<noteq> memory s1 a \<longrightarrow> is_user_vaddr a \<and> can_write s1 a \<and> memory s1 a \<noteq> None \<and> m a \<noteq> None) \<Longrightarrow>
    process_runs junk s (s1\<lparr>memory := m, keys := k\<rparr>)"
| runs_call: "process_runs junk s s1 \<Longrightarrow> syscall_handler junk esp s1 = Some (Resume, s2) \<Longrightarrow> process_runs junk s s2"

lemma process_runs_keeps:
  assumes "process_runs junk s s'" "sys_inv s" "length junk = 20"
  shows "keeps s s'"
  using assms
proof (induction rule: process_runs.induct)
  case (runs_start s)
  then show ?case by (simp add: keeps_same_state)
next
  case (runs_user s s1 m k)
  then have k: "keeps s s1" by blast
  then have "keeps s1 (s1\<lparr>memory := m, keys := k\<rparr>)" by (intro keeps_same) (simp_all add: keeps_def)
  then show ?case using k others_kept_trans by (auto simp: keeps_def)
next
  case (runs_call s s1 esp s2)
  then have k: "keeps s s1" by blast
  then have "keeps s1 s2" using syscall_keeps [OF _ runs_call.prems(2) runs_call.hyps(2)] by (simp add: keeps_def)
  then show ?case using k others_kept_trans by (auto simp: keeps_def)
qed

text \<open>Closing the table: what is left to close after the slots below \<open>n\<close>.\<close>

lemma close_fds_ok:
  assumes "sys_inv s" "set is \<subseteq> {..<128}"
  shows "\<exists>s'. close_fds is s = Some s' \<and> sys_inv s' \<and> names (vfs s') = names (vfs s) \<and> exec_file (proc s') = exec_file (proc s) \<and>
    (\<forall>i<128. fd_table (proc s') ! i = (if i \<in> set is then NULL else fd_table (proc s) ! i)) \<and>
    (\<forall>g. handles (vfs s') g = (if g \<in> open_files (proc s) - open_files (proc s') then None else handles (vfs s) g)) \<and>
    open_files (proc s') \<subseteq> open_files (proc s)"
  using assms
proof (induction "is" arbitrary: s)
  case (Cons i js)
  let ?t = "fd_table (proc s)"
  show ?case
  proof (cases "?t ! i = NULL")
    case True
    have "set js \<subseteq> {..<128}" using Cons.prems(2) by simp
    from Cons.IH [OF Cons.prems(1) this] show ?thesis using True by auto
  next
    case False
    have i: "i < 128" using Cons.prems(2) by simp
    have p: "table_ok (proc s)" "open_files (proc s) \<subseteq> dom (handles (vfs s))" "fs_inv (vfs s)" using Cons.prems(1) by (simp_all add: sys_inv_def)
    have o: "?t ! i \<in> open_files (proc s)" using p(1) i False by (auto simp: open_files_def table_ok_def)
    obtain v where v: "file_close (vfs s) (?t ! i) = Some v" "fs_inv v" "handles v = (handles (vfs s))(?t ! i := None)" "names v = names (vfs s)"
      by (rule close_effect [OF p(3)]) (use o p(2) in auto)
    define s1 where "s1 = s\<lparr>vfs := v, proc := (proc s)\<lparr>fd_table := ?t[i := NULL]\<rparr>\<rparr>"
    note t = table_ok_close [OF p(1) i False]
    have o1: "open_files (proc s1) = open_files (proc s) - {?t ! i}" using t(2) by (simp add: s1_def)
    have "sys_inv s1" using t p(2) v(2,3) Cons.prems(1) by (auto simp: s1_def sys_inv_def)
    then obtain s' where s': "close_fds js s1 = Some s'" "sys_inv s'" "names (vfs s') = names (vfs s1)" "exec_file (proc s') = exec_file (proc s1)"
      "\<forall>j<128. fd_table (proc s') ! j = (if j \<in> set js then NULL else fd_table (proc s1) ! j)"
      "\<forall>g. handles (vfs s') g = (if g \<in> open_files (proc s1) - open_files (proc s') then None else handles (vfs s1) g)"
      "open_files (proc s') \<subseteq> open_files (proc s1)"
      using Cons.IH [of s1] Cons.prems(2) by auto
    have "close_fds (i # js) s = Some s'" using False v(1) s'(1) by (simp add: s1_def)
    moreover have "\<forall>j<128. fd_table (proc s') ! j = (if j \<in> set (i # js) then NULL else ?t ! j)"
      using s'(5) p(1) by (auto simp: s1_def table_ok_def nth_list_update)
    moreover have "\<forall>g. handles (vfs s') g = (if g \<in> open_files (proc s) - open_files (proc s') then None else handles (vfs s) g)"
      using s'(6,7) v(3) o o1 by (auto simp: s1_def)
    ultimately show ?thesis using s'(2-4,7) v(4) o1 by (auto simp: s1_def)
  qed
qed simp

lemma process_exit_files_ok:
  assumes "sys_inv s"
  obtains s' where "process_exit_files s = Some s'" "fs_inv (vfs s')" "names (vfs s') = names (vfs s)" "open_files (proc s') = {}"
    "handles (vfs s') = handles (vfs s) |` (- open_files (proc s))"
proof -
  have r: "set [2..<128] \<subseteq> {..<128 :: nat}" unfolding set_upt by auto
  obtain s1 where s1: "close_fds [2..<128] s = Some s1" "sys_inv s1" "names (vfs s1) = names (vfs s)" "exec_file (proc s1) = exec_file (proc s)"
      "\<forall>i<128. fd_table (proc s1) ! i = (if i \<in> set [2..<128] then NULL else fd_table (proc s) ! i)"
      "\<forall>g. handles (vfs s1) g = (if g \<in> open_files (proc s) - open_files (proc s1) then None else handles (vfs s) g)"
      "open_files (proc s1) \<subseteq> open_files (proc s)"
    using close_fds_ok [OF assms r] by blast
  have t: "table_ok (proc s1)" "open_files (proc s1) \<subseteq> dom (handles (vfs s1))" "fs_inv (vfs s1)" using s1(2) by (simp_all add: sys_inv_def)
  have "fd_table (proc s1) ! i = NULL" if "i < 128" for i
  proof -
    have "fd_table (proc s1) ! i = NULL \<or> 2 \<le> i" using that t(1) unfolding table_ok_def by blast
    then show ?thesis using that s1(5) unfolding set_upt by auto
  qed
  then have n: "set (fd_table (proc s1)) \<subseteq> {NULL}" using t(1) by (auto simp: table_ok_def in_set_conv_nth)
  show ?thesis
  proof (cases "exec_file (proc s1) = NULL")
    case True
    have "open_files (proc s1) = {}" using n True by (auto simp: open_files_def)
    moreover have "process_exit_files s = Some s1" using s1(1) True by (simp add: process_exit_files_def close_exec_def)
    moreover have "handles (vfs s1) = handles (vfs s) |` (- open_files (proc s))"
      using s1(6) calculation(1) by (simp add: restrict_map_def fun_eq_iff)
    ultimately show ?thesis using that [of s1] s1(3) t(3) by blast
  next
    case False
    have o: "open_files (proc s1) = {exec_file (proc s1)}" using n False by (auto simp: open_files_def)
    obtain v where v: "file_close (vfs s1) (exec_file (proc s1)) = Some v" "fs_inv v"
      "handles v = (handles (vfs s1))(exec_file (proc s1) := None)" "names v = names (vfs s1)"
      by (rule close_effect [OF t(3)]) (use o t(2) in auto)
    have "open_files ((proc s1)\<lparr>exec_file := NULL\<rparr>) = {}" using n by (auto simp: open_files_def)
    moreover have "handles v = handles (vfs s) |` (- open_files (proc s))"
      using s1(6,7) v(3) o by (auto simp: restrict_map_def fun_eq_iff)
    ultimately show ?thesis using that [of "s1\<lparr>vfs := v, proc := (proc s1)\<lparr>exec_file := NULL\<rparr>\<rparr>"] s1(1,3) v False
      by (simp add: process_exit_files_def close_exec_def)
  qed
qed

section \<open>Reading into user memory\<close>

text \<open>The stack of a caller: the number of the call and its arguments, all in user memory.\<close>

definition call_args :: "sys \<Rightarrow> nat \<Rightarrow> nat \<Rightarrow> nat list \<Rightarrow> bool" where
  "call_args s esp num args \<longleftrightarrow> check_valid_ptr s esp \<and> check_valid_ptr s (esp + 3) \<and> load32 s esp = Some num \<and>
     (\<forall>i<length args. check_valid_ptr s (esp + 4 * (i + 1)) \<and> load32 s (esp + 4 * (i + 1)) = Some (args ! i))"

lemma call_args_arg:
  assumes "call_args s esp num args"
  shows "length args = 3 \<Longrightarrow> check_valid_ptr s (esp + 12) \<and> load32 s (esp + 12) = Some (args ! 2)"
    "2 \<le> length args \<Longrightarrow> check_valid_ptr s (esp + 8) \<and> load32 s (esp + 8) = Some (args ! 1)"
    "1 \<le> length args \<Longrightarrow> check_valid_ptr s (esp + 4) \<and> load32 s (esp + 4) = Some (args ! 0)"
  using assms [unfolded call_args_def] by (auto dest: spec [of _ 2] spec [of _ 1] spec [of _ 0])

lemma store_bytes_ok:
  assumes "\<forall>x. a \<le> x \<and> x < a + length bs \<longrightarrow> memory s x \<noteq> None \<and> can_write s x" "a + length bs \<le> 2 ^ 32"
  shows "store_bytes bs s a = Some (s\<lparr>memory := store (memory s) a bs\<rparr>)"
  using assms
proof (induction bs arbitrary: s a)
  case (Cons b bs)
  have "store8 s a b = Some (s\<lparr>memory := (memory s)(a \<mapsto> b)\<rparr>)"
    using Cons.prems by (simp add: store8_def uput_def wrap32_def)
  moreover have "store_bytes bs (s\<lparr>memory := (memory s)(a \<mapsto> b)\<rparr>) (a + 1) =
      Some (s\<lparr>memory := store ((memory s)(a \<mapsto> b)) (a + 1) bs\<rparr>)"
    by (subst Cons.IH) (use Cons.prems in auto)
  ultimately show ?case by (simp add: store_Cons)
qed simp

lemma sys_read_ok:
  assumes "sys_inv s" "call_args s esp 8 [fd, buffer, sz]" "handles (vfs s) (fd_file s (s32 (int fd))) = Some h" "fd_file s (s32 (int fd)) \<noteq> NULL"
    "check_valid_ptr s buffer" "0 < sz" "check_valid_ptr s (buffer + sz - 1)" "sz < 2 ^ 31" "buffer + sz \<le> PHYS_BASE"
    "\<forall>a. buffer \<le> a \<and> a < buffer + sz \<longrightarrow> memory s a \<noteq> None \<and> can_write s a"
  shows "\<exists>s'. syscall_handler junk esp s = Some (Resume, s') \<and>
    (let bs = chunk (data_of (abs_fs (vfs s)) (h_object h)) (nat (h_pos h)) sz
     in eax s' = length bs \<and> memory s' = store (memory s) buffer bs \<and>
        handles (vfs s') = (handles (vfs s))(fd_file s (s32 (int fd)) \<mapsto> h\<lparr>h_pos := h_pos h + int (length bs)\<rparr>))"
proof -
  let ?f = "fd_file s (s32 (int fd))" and ?bs = "chunk (data_of (abs_fs (vfs s)) (h_object h)) (nat (h_pos h)) sz"
  obtain j :: bytes where j: "length j = 20" using junk_exists by blast
  have szi: "s32 (int sz) = int sz" using assms(8) by (intro s32_id) (simp add: s32_range_def)
  have "valid_call (abs_fs (vfs s)) (Read ?f sz)" using assms(3,8) by (auto simp: handles_abs)
  from fs_exec_implements [OF invD_fs(1) [OF assms(1)] this j] obtain r v where
    v: "fs_exec j (vfs s) (Read ?f sz) = Some (r, v)" "fs_inv v" "spec (abs_fs (vfs s)) (Read ?f sz) r (abs_fs v)" by (auto simp: implements_def)
  then have rd: "file_read (vfs s) ?f (s32 (int sz)) = Some (?bs, v)" and
    hd: "handles v = (handles (vfs s))(?f \<mapsto> h\<lparr>h_pos := h_pos h + int (length ?bs)\<rparr>)"
    using assms(3) unfolding szi handles_abs [symmetric] by (auto simp: fs_exec_def)
  have l: "length ?bs \<le> sz" by (simp add: chunk_def)
  have st: "store_bytes ?bs (s\<lparr>lock_held := True, vfs := v\<rparr>) buffer = Some (s\<lparr>lock_held := True, vfs := v, memory := store (memory s) buffer ?bs\<rparr>)"
    by (subst store_bytes_ok) (use l assms(9,10) in \<open>auto simp: PHYS_BASE_def\<close>)
  have f0: "s32 (int fd) \<noteq> 0" using fd_file_open(3) [OF assms(1,4)] by auto
  note a = call_args_arg [OF assms(2)] and c = assms(2) [unfolded call_args_def]
  have "sys_read s esp = Some (Resume, s\<lparr>lock_held := False, vfs := v, memory := store (memory s) buffer ?bs, eax := u32_of (int (length ?bs))\<rparr>)"
    using a assms(4-7) f0 rd st invD_fs(2) [OF assms(1)]
    by (simp add: sys_read_def acquire_def release_def set_eax_def numeral_2_eq_2)
  moreover have "syscall_handler junk esp s = sys_read s esp" using c by (simp add: syscall_handler_def)
  moreover have "u32_of (int (length ?bs)) = length ?bs" using l assms(8) by (simp add: u32_of_def)
  ultimately show ?thesis using hd by (simp add: Let_def)
qed

end
