(* ===== verification/System_Call_Properties.thy ===== *)
theory System_Call_Properties
  imports System_Call_Safety
begin

text \<open>
  The properties of the system calls, with a sample process on the sample file system: one page of
  user memory that holds its stack and a buffer, and one open file.
\<close>

definition sample_stack :: bytes where
  "sample_stack = [8, 0, 0, 0, 2, 0, 0, 0, 0, 20, 0, 0, 5, 0, 0, 0] @ [10, 0, 0, 0, 2, 0, 0, 0, 0, 0, 0, 128]"

definition sample_process :: sys where
  "sample_process = \<lparr>memory = (\<lambda>a. if 4096 \<le> a \<and> a < 4124 then Some (sample_stack ! (a - 4096)) else if 4124 \<le> a \<and> a < 8192 then Some 0 else None),
     can_write = (\<lambda>a. 4096 \<le> a \<and> a < 8192),
     proc = \<lparr>fd_table = (replicate 128 NULL)[2 := fst sample_opened], next_fd = 3, exit_status = -1, exec_file = NULL\<rparr>,
     vfs = snd sample_opened, lock_held = False, eax = 0, screen = [], keys = (\<lambda>_. 0), keys_read = 0\<rparr>"

lemma sample_handle:
  "handles (snd sample_opened) = [fst sample_opened \<mapsto> the (handles (snd sample_opened) (fst sample_opened))]"
  "h_pos (the (handles (snd sample_opened) (fst sample_opened))) = 0"
  "data_of (abs_fs (snd sample_opened)) (h_object (the (handles (snd sample_opened) (fst sample_opened)))) = replicate 100 0"
  using sample_opened_ok(2) by (auto simp: handles_abs [symmetric] data_of_def)

lemma sample_not_null: "fst sample_opened \<noteq> NULL"
proof -
  obtain f v where o: "filesys_open sample_created [97] = Some (f, v)" "sample_opened = (f, v)"
    using implements_open [OF sample_created_ok(1), of "[97]" "[]"] by (auto simp: implements_def fs_exec_def sample_opened_def)
  have "handles v f \<noteq> None" using sample_handle(1) o(2) by (metis fst_conv snd_conv fun_upd_same option.discI)
  moreover have "handles sample_created = Map.empty" using sample_created_ok(3) by (auto simp: handles_abs [symmetric])
  ultimately show ?thesis unfolding o(2) using open_effect(2) [OF sample_created_ok(1) _ o(1)] by auto
qed

lemma sample_process_inv: "sys_inv sample_process"
proof -
  have n: "((replicate 128 NULL)[2 := fst sample_opened]) ! i = (if i = 2 then fst sample_opened else NULL)" if "i < 128" for i
    using that by (simp add: nth_list_update)
  have "table_ok (proc sample_process)" by (simp add: sample_process_def table_ok_def n)
  moreover have "open_files (proc sample_process) \<subseteq> {fst sample_opened}"
    using set_update_subset_insert [of "replicate 128 NULL" 2 "fst sample_opened"] by (auto simp: sample_process_def open_files_def)
  moreover have "fst sample_opened \<in> dom (handles (snd sample_opened))" by (subst sample_handle(1)) simp
  ultimately show ?thesis using sample_opened_ok(1) by (auto simp: sys_inv_def sample_process_def)
qed

lemma sample_args:
  "call_args sample_process 4096 8 [2, 5120, 5]" "call_args sample_process 4112 10 [2, 2147483648]"
  "fd_file sample_process (s32 (int 2)) = fst sample_opened"
  by (simp_all add: call_args_def check_valid_ptr_def load32_def load8_def wrap32_def is_user_vaddr_def user_page_def PHYS_BASE_def
      sample_process_def sample_stack_def of_le_def fd_file_def s32_def less_Suc_eq all_conj_distrib nth_list_update)

lemma sample_buffer:
  "check_valid_ptr sample_process 5120" "check_valid_ptr sample_process (5120 + 5 - 1)"
  "\<forall>a. 5120 \<le> a \<and> a < 5120 + 5 \<longrightarrow> memory sample_process a \<noteq> None \<and> can_write sample_process a"
  by (simp_all add: check_valid_ptr_def wrap32_def is_user_vaddr_def user_page_def PHYS_BASE_def sample_process_def)

lemma sample_fd: "handles (vfs sample_process) (fd_file sample_process (s32 (int 2))) = Some (the (handles (snd sample_opened) (fst sample_opened)))"
proof -
  have "handles (snd sample_opened) (fst sample_opened) \<noteq> None" by (metis sample_handle(1) fun_upd_same option.discI)
  then show ?thesis unfolding sample_args(3) by (simp add: sample_process_def)
qed

lemma sample_call:
  "fd_file sample_process (s32 (int 2)) \<noteq> NULL" "0 < (5 :: nat)" "(5 :: nat) < 2 ^ 31" "5120 + 5 \<le> PHYS_BASE"
  "length (chunk (data_of (abs_fs (vfs sample_process)) (h_object (the (handles (snd sample_opened) (fst sample_opened)))))
     (nat (h_pos (the (handles (snd sample_opened) (fst sample_opened))))) 5) = 5"
  using sample_not_null sample_handle(2,3) unfolding sample_args(3) by (simp_all add: PHYS_BASE_def sample_process_def chunk_def)

lemmas sample_read_call = sample_process_inv sample_args(1) sample_fd sample_call(1) sample_buffer(1) sample_call(2) sample_buffer(2)
  sample_call(3,4) sample_buffer(3)

lemma sample_read: "\<exists>s'. syscall_handler junk 4096 sample_process = Some (Resume, s')"
  using sys_read_ok [OF sample_read_call] by blast



text \<open>
  C28. The end of a process: the loop of \<open>process_exit\<close> returns, closes every file of the table and the
  executable and nothing else, and leaves the names and the consistency of the file system.
\<close>

theorem process_exit_closes_files:
  assumes "sys_inv s"
  shows "\<exists>s'. process_exit_files s = Some s' \<and> fs_inv (vfs s') \<and> names (vfs s') = names (vfs s) \<and> open_files (proc s') = {} \<and>
    handles (vfs s') = handles (vfs s) |` (- open_files (proc s))"
  by (rule process_exit_files_ok [OF assms]) blast

theorem process_exit_closes_files_witness:
  "\<exists>s'. process_exit_files sample_process = Some s' \<and> open_files (proc s') = {}"
  using process_exit_closes_files [OF sample_process_inv] by blast

text \<open>
  C17. Reading from a file into user memory: with its arguments on the user stack and a writable buffer of
  \<open>sz\<close> bytes, the read call returns to the program with the number of bytes between the position
  of the file and its end, at most \<open>sz\<close>; exactly those bytes are in the buffer, no other byte of
  memory has changed, and the position has moved past them.
\<close>

theorem sys_read_delivers:
  assumes "sys_inv s" "call_args s esp 8 [fd, buffer, sz]" "handles (vfs s) (fd_file s (s32 (int fd))) = Some h" "fd_file s (s32 (int fd)) \<noteq> NULL"
    "check_valid_ptr s buffer" "0 < sz" "check_valid_ptr s (buffer + sz - 1)" "sz < 2 ^ 31" "buffer + sz \<le> PHYS_BASE"
    "\<forall>a. buffer \<le> a \<and> a < buffer + sz \<longrightarrow> memory s a \<noteq> None \<and> can_write s a"
  shows "\<exists>s'. syscall_handler junk esp s = Some (Resume, s') \<and>
    (let bs = chunk (data_of (abs_fs (vfs s)) (h_object h)) (nat (h_pos h)) sz
     in eax s' = length bs \<and> bytes_at (memory s') buffer bs \<and> (\<forall>a. a < buffer \<or> buffer + length bs \<le> a \<longrightarrow> memory s' a = memory s a) \<and>
        handles (vfs s') = (handles (vfs s))(fd_file s (s32 (int fd)) \<mapsto> h\<lparr>h_pos := h_pos h + int (length bs)\<rparr>))"
  using sys_read_ok [OF assms, of junk] by (auto simp: Let_def store_def bytes_at_def)

theorem sys_read_delivers_witness:
  "\<exists>s'. syscall_handler [] 4096 sample_process = Some (Resume, s') \<and> eax s' = 5"
  using sys_read_delivers [OF sample_read_call, of "[]"] unfolding Let_def sample_call(5) by blast

text \<open>
  C35. A program can stop the kernel with one seek: the position is unsigned in the call and becomes a
  signed offset, so every position from two to the 31 on reaches the assertion of \<open>file_seek\<close> as a
  negative number.
\<close>

theorem sys_seek_stops_kernel:
  assumes "sys_inv s" "call_args s esp 10 [fd, pos]" "fd_file s (s32 (int fd)) \<noteq> NULL" "2 ^ 31 \<le> pos" "pos < 2 ^ 32"
  shows "syscall_handler junk esp s = None"
proof -
  have "(int pos + 2 ^ 31) mod 2 ^ 32 = int pos - 2 ^ 31" using assms(4,5) by (intro int_mod_pos_eq [where q = 1]) simp_all
  then have "s32 (int pos) < 0" using assms(5) by (simp add: s32_def)
  then have "file_seek v f (s32 (int pos)) = None" for v f by (simp add: file_seek_def)
  moreover have "syscall_handler junk esp s = sys_seek s esp" using assms(2) by (simp add: syscall_handler_def call_args_def)
  ultimately show ?thesis using call_args_arg(2,3) [OF assms(2)] assms(3) invD_fs(2) [OF assms(1)]
    by (simp add: sys_seek_def acquire_def)
qed

theorem sys_seek_stops_kernel_witness: "syscall_handler [] 4112 sample_process = None"
  using sys_seek_stops_kernel [OF sample_process_inv sample_args(2)] sample_not_null sample_args(3) by simp

end
