(* ===== verification/Page_Alloc.thy ===== *)
theory Page_Alloc
  imports Bitmap Virtual_Memory
begin

text \<open>
  The page allocator (\<^verbatim>\<open>threads/palloc.c\<close>): two pools of pages, each with a bitmap of the pages in
  use. The state is the physical memory, addressed by kernel virtual addresses, with the two pools and
  the variables of \<^verbatim>\<open>threads/init.c\<close> that the memory code reads. Each call is atomic, as the locks of the
  pools make it; the messages of \<open>init_pool\<close> are not modelled.
\<close>

section \<open>Memory\<close>

record pool =
  used_map :: bitmap
  base :: nat

record machine =
  ram :: "nat \<Rightarrow> u8"
  kernel_pool :: pool
  user_pool :: pool
  init_ram_pages :: nat
  init_page_dir :: nat
  cr3 :: nat

text \<open>\<open>memset\<close>, and words in memory\<close>

definition fill :: "nat \<Rightarrow> nat \<Rightarrow> u8 \<Rightarrow> (nat \<Rightarrow> u8) \<Rightarrow> nat \<Rightarrow> u8" where
  "fill a n v m = (\<lambda>x. if a \<le> x \<and> x < a + n then v else m x)"

definition put_bytes :: "nat \<Rightarrow> bytes \<Rightarrow> (nat \<Rightarrow> u8) \<Rightarrow> nat \<Rightarrow> u8" where
  "put_bytes a bs m = (\<lambda>x. if a \<le> x \<and> x < a + length bs then bs ! (x - a) else m x)"

definition get32 :: "(nat \<Rightarrow> u8) \<Rightarrow> nat \<Rightarrow> u32" where
  "get32 m a = of_nat (of_le (map m [a, a + 1, a + 2, a + 3]))"

definition put32 :: "nat \<Rightarrow> u32 \<Rightarrow> (nat \<Rightarrow> u8) \<Rightarrow> nat \<Rightarrow> u8" where
  "put32 a w m = put_bytes a (le_bytes 4 (unat w)) m"

section \<open>The allocator\<close>

definition PAL_ASSERT :: u32 where
  "PAL_ASSERT = 1"

definition PAL_ZERO :: u32 where
  "PAL_ZERO = 2"

definition PAL_USER :: u32 where
  "PAL_USER = 4"

definition page_from_pool :: "pool \<Rightarrow> nat \<Rightarrow> bool" where
  "page_from_pool p page =
     (let page_no = pg_no page; start_page = pg_no (base p); end_page = start_page + bitmap_size (used_map p)
      in page_no \<ge> start_page \<and> page_no < end_page)"

text \<open>The bitmap of a pool is in the first pages of the pool.\<close>

definition init_pool :: "machine \<Rightarrow> nat \<Rightarrow> nat \<Rightarrow> pool option" where
  "init_pool s pool_base page_cnt =
     (let bm_pages = DIV_ROUND_UP (bitmap_buf_size page_cnt) PGSIZE
      in if bm_pages > page_cnt then None
         else let page_cnt = page_cnt - bm_pages;
                  ws = map (\<lambda>i. get32 (ram s) (pool_base + 8 + 4 * i)) [0..<elem_cnt page_cnt]
              in do {
                b \<leftarrow> bitmap_create_in_buf page_cnt ws (bm_pages * PGSIZE);
                Some \<lparr>used_map = b, base = pool_base + bm_pages * PGSIZE\<rparr> })"

definition palloc_init :: "nat \<Rightarrow> machine \<Rightarrow> machine option" where
  "palloc_init user_page_limit s = do {
     free_start \<leftarrow> ptov (1024 * 1024);
     free_end \<leftarrow> ptov (init_ram_pages s * PGSIZE);
     let free_pages = (free_end - free_start) div PGSIZE;
     let user_pages = free_pages div 2;
     let user_pages = (if user_pages > user_page_limit then user_page_limit else user_pages);
     let kernel_pages = free_pages - user_pages;
     kp \<leftarrow> init_pool s free_start kernel_pages;
     up \<leftarrow> init_pool s (free_start + kernel_pages * PGSIZE) user_pages;
     Some (s\<lparr>kernel_pool := kp, user_pool := up\<rparr>) }"

definition palloc_get_multiple :: "u32 \<Rightarrow> nat \<Rightarrow> machine \<Rightarrow> (nat \<times> machine) option" where
  "palloc_get_multiple flags page_cnt s =
     (let user = (flags AND PAL_USER \<noteq> 0); pool = (if user then user_pool s else kernel_pool s)
      in if page_cnt = 0 then Some (NULL, s)
         else do {
           (page_idx, b) \<leftarrow> bitmap_scan_and_flip (used_map pool) 0 page_cnt False;
           let pool = pool\<lparr>used_map := b\<rparr>;
           let s = (if user then s\<lparr>user_pool := pool\<rparr> else s\<lparr>kernel_pool := pool\<rparr>);
           let pages = (if page_idx \<noteq> BITMAP_ERROR then base pool + PGSIZE * page_idx else NULL);
           if pages \<noteq> NULL
           then Some (pages, if flags AND PAL_ZERO \<noteq> 0 then s\<lparr>ram := fill pages (PGSIZE * page_cnt) 0 (ram s)\<rparr> else s)
           else do { ASSERT (flags AND PAL_ASSERT = 0); Some (pages, s) } })"

definition palloc_get_page :: "u32 \<Rightarrow> machine \<Rightarrow> (nat \<times> machine) option" where
  "palloc_get_page flags s = palloc_get_multiple flags 1 s"

definition palloc_free_multiple :: "nat \<Rightarrow> nat \<Rightarrow> machine \<Rightarrow> machine option" where
  "palloc_free_multiple pages page_cnt s = do {
     ASSERT (pg_ofs pages = 0);
     if pages = NULL \<or> page_cnt = 0 then Some s
     else do {
       let kernel = page_from_pool (kernel_pool s) pages;
       ASSERT (kernel \<or> page_from_pool (user_pool s) pages);
       let pool = (if kernel then kernel_pool s else user_pool s);
       let page_idx = pg_no pages - pg_no (base pool);
       let s = s\<lparr>ram := fill pages (PGSIZE * page_cnt) 0xcc (ram s)\<rparr>;
       all \<leftarrow> bitmap_all (used_map pool) page_idx page_cnt;
       ASSERT all;
       b \<leftarrow> bitmap_set_multiple (used_map pool) page_idx page_cnt False;
       let pool = pool\<lparr>used_map := b\<rparr>;
       Some (if kernel then s\<lparr>kernel_pool := pool\<rparr> else s\<lparr>user_pool := pool\<rparr>) } }"

definition palloc_free_page :: "nat \<Rightarrow> machine \<Rightarrow> machine option" where
  "palloc_free_page page s = palloc_free_multiple page 1 s"

section \<open>Words in memory\<close>

lemma put_bytes_other: "x < a \<or> a + length bs \<le> x \<Longrightarrow> put_bytes a bs m x = m x"
  by (auto simp: put_bytes_def)

lemma get32_put32: "get32 (put32 a w m) a = w"
proof -
  have "map (put32 a w m) [a, a + 1, a + 2, a + 3] = map (\<lambda>i. le_bytes 4 (unat w) ! i) [0, 1, 2, 3]"
    by (simp add: put32_def put_bytes_def)
  also have "\<dots> = le_bytes 4 (unat w)"
  proof -
    have "[0, 1, 2, 3] = [0..<length (le_bytes 4 (unat w))]" by (simp add: upt_rec)
    then show ?thesis by (simp only: map_nth)
  qed
  finally have "get32 (put32 a w m) a = of_nat (of_le (le_bytes 4 (unat w)))" by (simp add: get32_def)
  moreover have "unat w < 2 ^ LENGTH(32)" by (rule unsigned_less)
  ultimately show ?thesis by simp
qed

lemma get32_put32_other: "b + 4 \<le> a \<or> a + 4 \<le> b \<Longrightarrow> get32 (put32 a w m) b = get32 m b"
  by (auto simp: get32_def put32_def put_bytes_other)

lemma get32_cong: "(\<And>x. a \<le> x \<Longrightarrow> x < a + 4 \<Longrightarrow> m x = m' x) \<Longrightarrow> get32 m a = get32 m' a"
  by (simp add: get32_def)

lemma get32_fill_zero: "a \<le> x \<Longrightarrow> x + 4 \<le> a + n \<Longrightarrow> get32 (fill a n 0 m) x = 0"
  by (simp add: get32_def fill_def)

section \<open>Pools\<close>

definition pool_pages :: "pool \<Rightarrow> nat set" where
  "pool_pages p = (\<lambda>i. base p + PGSIZE * i) ` bits_set (used_map p)"

definition allocated :: "machine \<Rightarrow> nat set" where
  "allocated s = pool_pages (kernel_pool s) \<union> pool_pages (user_pool s)"

definition pool_end :: "pool \<Rightarrow> nat" where
  "pool_end p = base p + PGSIZE * bit_cnt (used_map p)"

definition pool_ok :: "pool \<Rightarrow> bool" where
  "pool_ok p \<longleftrightarrow> bitmap_wf (used_map p) \<and> base p mod PGSIZE = 0 \<and> PHYS_BASE \<le> base p"

text \<open>The pools lie in memory, one after the other, with a gap where the bitmap of the second one is.\<close>

definition pools_ok :: "machine \<Rightarrow> bool" where
  "pools_ok s \<longleftrightarrow> pool_ok (kernel_pool s) \<and> pool_ok (user_pool s) \<and> pool_end (kernel_pool s) < base (user_pool s) \<and>
     pool_end (user_pool s) \<le> PHYS_BASE + init_ram_pages s * PGSIZE \<and> PHYS_BASE + init_ram_pages s * PGSIZE \<le> 2 ^ 32"

definition page_of :: "nat \<Rightarrow> nat" where
  "page_of a = a div PGSIZE * PGSIZE"

lemma pool_index:
  assumes "pool_ok p"
  shows "base p + PGSIZE * i = base p + PGSIZE * j \<longleftrightarrow> i = j" "(base p + PGSIZE * i) mod PGSIZE = 0"
    "pg_no (base p + PGSIZE * i) = pg_no (base p) + i"
  using assms by (auto simp: pool_ok_def PGSIZE_def pg_no_div div_add1_eq [of "base p"] simp flip: mod_eq_0_iff_dvd)

lemma page_from_pool_iff:
  assumes "pool_ok p" "a mod PGSIZE = 0"
  shows "page_from_pool p a \<longleftrightarrow> (\<exists>i<bit_cnt (used_map p). a = base p + PGSIZE * i)"
proof -
  obtain b where b: "base p = 4096 * b" using assms(1) by (auto simp: pool_ok_def PGSIZE_def)
  obtain c where c: "a = 4096 * c" using assms(2) by (auto simp: PGSIZE_def)
  have "b \<le> c \<and> c < b + n \<longleftrightarrow> (\<exists>i<n. c = b + i)" for n by (metis add_less_cancel_left le_add1 le_iff_add)
  moreover have "4096 * c = 4096 * b + 4096 * i \<longleftrightarrow> c = b + i" for i by linarith
  ultimately show ?thesis by (simp add: page_from_pool_def pg_no_div bitmap_size_def b c PGSIZE_def)
qed

lemma pool_pages_bounds:
  assumes "pool_ok p" "a \<in> pool_pages p"
  shows "base p \<le> a" "a + PGSIZE \<le> pool_end p" "a mod PGSIZE = 0" "page_from_pool p a"
proof -
  obtain i where i: "a = base p + PGSIZE * i" "i < bit_cnt (used_map p)" using assms(2) by (auto simp: pool_pages_def bits_set_def)
  then have "PGSIZE * (i + 1) \<le> PGSIZE * bit_cnt (used_map p)" by (intro mult_le_mono2) simp
  then show "base p \<le> a" "a + PGSIZE \<le> pool_end p" using i by (simp_all add: pool_end_def)
  show m: "a mod PGSIZE = 0" using pool_index(2) [OF assms(1)] i by simp
  show "page_from_pool p a" using page_from_pool_iff [OF assms(1) m] i by blast
qed

lemma allocated_page:
  assumes "pools_ok s" "a \<in> allocated s"
  shows "kernel_page a" "a + PGSIZE \<le> PHYS_BASE + init_ram_pages s * PGSIZE" "a \<noteq> NULL"
proof -
  have p: "pool_ok (kernel_pool s)" "pool_ok (user_pool s)" "pool_end (kernel_pool s) < base (user_pool s)"
    "pool_end (user_pool s) \<le> PHYS_BASE + init_ram_pages s * PGSIZE" "PHYS_BASE + init_ram_pages s * PGSIZE \<le> 2 ^ 32"
    "base (user_pool s) \<le> pool_end (user_pool s)"
    using assms(1) by (simp_all add: pools_ok_def pool_end_def)
  have "a mod PGSIZE = 0 \<and> PHYS_BASE \<le> a \<and> a + PGSIZE \<le> PHYS_BASE + init_ram_pages s * PGSIZE"
    using assms(2) unfolding allocated_def
  proof
    assume "a \<in> pool_pages (kernel_pool s)"
    from pool_pages_bounds [OF p(1) this] p show ?thesis by (simp add: pool_ok_def)
  next
    assume "a \<in> pool_pages (user_pool s)"
    from pool_pages_bounds [OF p(2) this] p show ?thesis by (simp add: pool_ok_def)
  qed
  then show "kernel_page a" "a + PGSIZE \<le> PHYS_BASE + init_ram_pages s * PGSIZE" "a \<noteq> NULL"
    using p(5) by (simp_all add: kernel_page_def PGSIZE_def PHYS_BASE_def)
qed

lemma pools_apart:
  assumes "pools_ok s" "a \<in> pool_pages (kernel_pool s)" "b \<in> pool_pages (user_pool s)"
  shows "a + PGSIZE < b"
proof -
  have "pool_ok (kernel_pool s)" "pool_ok (user_pool s)" "pool_end (kernel_pool s) < base (user_pool s)" using assms(1) by (simp_all add: pools_ok_def)
  then show ?thesis using pool_pages_bounds(2) [OF _ assms(2)] pool_pages_bounds(1) [OF _ assms(3)] by linarith
qed

text \<open>Different pages do not share addresses.\<close>

lemma pages_apart: "a mod PGSIZE = 0 \<Longrightarrow> b mod PGSIZE = 0 \<Longrightarrow> a \<noteq> b \<Longrightarrow> a + PGSIZE \<le> b \<or> b + PGSIZE \<le> a"
proof -
  assume m: "a mod PGSIZE = 0" "b mod PGSIZE = 0" "a \<noteq> b"
  have "PGSIZE dvd a" "PGSIZE dvd b" using m(1,2) by (simp_all only: mod_eq_0_iff_dvd)
  then obtain i j where ij: "a = 4096 * i" "b = 4096 * j" by (auto simp: PGSIZE_def elim!: dvdE)
  then have "i \<noteq> j" using m(3) by blast
  then have "i + 1 \<le> j \<or> j + 1 \<le> i" by linarith
  then show ?thesis unfolding ij(1,2) PGSIZE_def by linarith
qed

lemma page_of_in: "a mod PGSIZE = 0 \<Longrightarrow> a \<le> x \<Longrightarrow> x < a + PGSIZE \<Longrightarrow> page_of x = a"
proof -
  assume "a mod PGSIZE = 0" "a \<le> x" "x < a + PGSIZE"
  then obtain i where i: "a = 4096 * i" "4096 * i \<le> x" "x < 4096 * i + 4096" by (auto simp: PGSIZE_def)
  then have "x div 4096 = i" by (intro div_nat_eqI) simp_all
  then show ?thesis using i(1) by (simp add: page_of_def PGSIZE_def)
qed

lemma page_of_bounds: "page_of x \<le> x" "x < page_of x + PGSIZE" "page_of x mod PGSIZE = 0"
  using div_mult_mod_eq [of x PGSIZE] mod_less_divisor [of PGSIZE x] by (simp_all add: page_of_def PGSIZE_def)

section \<open>Getting and freeing pages\<close>

definition run :: "nat \<Rightarrow> nat \<Rightarrow> nat set" where
  "run p n = (\<lambda>i. p + PGSIZE * i) ` {..<n}"

definition pool_shape :: "pool \<Rightarrow> nat \<times> nat" where
  "pool_shape p = (base p, bit_cnt (used_map p))"

definition same_setup :: "machine \<Rightarrow> machine \<Rightarrow> bool" where
  "same_setup s s' \<longleftrightarrow> init_ram_pages s' = init_ram_pages s \<and> init_page_dir s' = init_page_dir s \<and> cr3 s' = cr3 s \<and>
     pool_shape (kernel_pool s') = pool_shape (kernel_pool s) \<and> pool_shape (user_pool s') = pool_shape (user_pool s)"

definition pool_of :: "bool \<Rightarrow> machine \<Rightarrow> pool" where
  "pool_of user s = (if user then user_pool s else kernel_pool s)"

definition set_pool :: "bool \<Rightarrow> pool \<Rightarrow> machine \<Rightarrow> machine" where
  "set_pool user p s = (if user then s\<lparr>user_pool := p\<rparr> else s\<lparr>kernel_pool := p\<rparr>)"

lemma set_pool_simps [simp]:
  "ram (set_pool u p s) = ram s" "same_setup s s" "pool_of u (set_pool u p s) = p"
  "pool_of (\<not> u) (set_pool u p s) = pool_of (\<not> u) s" "set_pool u (pool_of u s) s = s"
  by (simp_all add: set_pool_def pool_of_def same_setup_def)

lemma same_setup_set_pool:
  "bit_cnt b = bit_cnt (used_map (pool_of u s)) \<Longrightarrow> same_setup s (set_pool u ((pool_of u s)\<lparr>used_map := b\<rparr>) (s\<lparr>ram := m\<rparr>))"
  by (simp add: set_pool_def pool_of_def same_setup_def pool_shape_def)

lemma same_setup_ram [simp]: "same_setup s (s'\<lparr>ram := m\<rparr>) \<longleftrightarrow> same_setup s s'"
  by (simp add: same_setup_def)

lemma same_setup_trans [trans]: "same_setup s s' \<Longrightarrow> same_setup s' s'' \<Longrightarrow> same_setup s s''"
  by (simp add: same_setup_def)

text \<open>Only bytes of the pages \<open>W\<close> change, and none of what lies below the pools.\<close>

definition changes :: "nat set \<Rightarrow> machine \<Rightarrow> machine \<Rightarrow> bool" where
  "changes W s s' \<longleftrightarrow> same_setup s s' \<and> (\<forall>x. page_of x \<notin> W \<or> page_of x < base (kernel_pool s) \<longrightarrow> ram s' x = ram s x)"

lemma changesI:
  "same_setup s s' \<Longrightarrow> (\<And>x. page_of x \<notin> W \<Longrightarrow> ram s' x = ram s x) \<Longrightarrow> (\<And>p. p \<in> W \<Longrightarrow> base (kernel_pool s) \<le> p) \<Longrightarrow> changes W s s'"
  unfolding changes_def by (meson leD)

lemma changes_same [simp]: "changes W s s"
  by (simp add: changes_def same_setup_def)

lemma changesD:
  "changes W s s' \<Longrightarrow> same_setup s s'" "changes W s s' \<Longrightarrow> page_of x \<notin> W \<Longrightarrow> ram s' x = ram s x"
  "changes W s s' \<Longrightarrow> page_of x < base (kernel_pool s) \<Longrightarrow> ram s' x = ram s x"
  by (simp_all add: changes_def)

lemma changes_mono: "changes W s s' \<Longrightarrow> W \<subseteq> V \<Longrightarrow> changes V s s'"
  by (auto simp: changes_def)

lemma same_setup_base: "same_setup s s' \<Longrightarrow> base (kernel_pool s') = base (kernel_pool s)"
  by (simp add: same_setup_def pool_shape_def)

lemma changes_trans: "changes W s s' \<Longrightarrow> changes V s' s'' \<Longrightarrow> changes (W \<union> V) s s''"
  by (auto simp: changes_def same_setup_base intro: same_setup_trans)

lemma allocated_base:
  assumes "pools_ok s" "p \<in> allocated s"
  shows "base (kernel_pool s) \<le> p"
proof -
  have o: "pool_ok (kernel_pool s)" "pool_ok (user_pool s)" "base (kernel_pool s) \<le> base (user_pool s)"
    using assms(1) by (auto simp: pools_ok_def pool_end_def)
  then show ?thesis using assms(2) pool_pages_bounds(1) [OF o(1)] pool_pages_bounds(1) [OF o(2)] unfolding allocated_def by fastforce
qed

lemma allocated_pools: "allocated s = pool_pages (pool_of u s) \<union> pool_pages (pool_of (\<not> u) s)"
  by (auto simp: allocated_def pool_of_def)

lemma pools_disjoint: "pools_ok s \<Longrightarrow> pool_pages (pool_of u s) \<inter> pool_pages (pool_of (\<not> u) s) = {}"
  using pools_apart [of s] by (cases u) (fastforce simp: pool_of_def)+

lemma pool_ok_of: "pools_ok s \<Longrightarrow> pool_ok (pool_of u s)"
  by (simp add: pools_ok_def pool_of_def)

lemma pools_ok_set:
  assumes "pools_ok s" "bitmap_wf b" "bit_cnt b = bit_cnt (used_map (pool_of u s))"
  shows "pools_ok (set_pool u ((pool_of u s)\<lparr>used_map := b\<rparr>) s)"
  using assms by (cases u) (simp_all add: pools_ok_def set_pool_def pool_of_def pool_ok_def pool_end_def)

lemma pools_ok_ram: "pools_ok s \<Longrightarrow> pools_ok (s\<lparr>ram := m\<rparr>)"
  by (simp add: pools_ok_def)

lemma pool_pages_span:
  "pool_pages (p\<lparr>used_map := b\<rparr>) = (\<lambda>i. base p + PGSIZE * i) ` bits_set b"
  "(\<lambda>i. base p + PGSIZE * i) ` span (i, n) = run (base p + PGSIZE * i) n"
proof -
  have "span (i, n) = (\<lambda>j. i + j) ` {..<n}" by (simp add: span_def lessThan_atLeast0 add.commute)
  then show "(\<lambda>i. base p + PGSIZE * i) ` span (i, n) = run (base p + PGSIZE * i) n"
    by (simp add: run_def image_image add_mult_distrib2 add.assoc)
qed (simp add: pool_pages_def)

lemma pool_image_inj: "pool_ok p \<Longrightarrow> inj (\<lambda>i. base p + PGSIZE * i)"
  by (rule injI) (simp add: PGSIZE_def)

lemma palloc_get_ok:
  assumes "pools_ok s" "flags AND PAL_ASSERT = 0 \<or> (\<exists>k. is_group (used_map (pool_of u s)) k n False)" "0 < n" "u \<longleftrightarrow> flags AND PAL_USER \<noteq> 0"
  obtains (none) "palloc_get_multiple flags n s = Some (NULL, s)" "\<And>k. \<not> is_group (used_map (pool_of u s)) k n False"
  | (got) p s' where "palloc_get_multiple flags n s = Some (p, s')" "pools_ok s'" "p mod PGSIZE = 0" "p \<noteq> NULL"
      "run p n \<inter> allocated s = {}" "pool_pages (pool_of u s') = pool_pages (pool_of u s) \<union> run p n" "pool_of (\<not> u) s' = pool_of (\<not> u) s"
      "ram s' = (if flags AND PAL_ZERO \<noteq> 0 then fill p (PGSIZE * n) 0 (ram s) else ram s)" "same_setup s s'"
      "bit_cnt (used_map (pool_of u s')) = bit_cnt (used_map (pool_of u s))"
proof -
  let ?p = "pool_of u s"
  note ok = pool_ok_of [OF assms(1), of u]
  then have wf: "bitmap_wf (used_map ?p)" by (simp add: pool_ok_def)
  have call: "palloc_get_multiple flags n s = do {
      (page_idx, b) \<leftarrow> bitmap_scan_and_flip (used_map ?p) 0 n False;
      let s = set_pool u (?p\<lparr>used_map := b\<rparr>) s;
      let pages = (if page_idx \<noteq> BITMAP_ERROR then base ?p + PGSIZE * page_idx else NULL);
      if pages \<noteq> NULL then Some (pages, if flags AND PAL_ZERO \<noteq> 0 then s\<lparr>ram := fill pages (PGSIZE * n) 0 (ram s)\<rparr> else s)
      else do { ASSERT (flags AND PAL_ASSERT = 0); Some (pages, s) } }"
    using assms(3,4) by (cases u) (simp_all add: palloc_get_multiple_def Let_def pool_of_def set_pool_def cong: if_cong)
  show ?thesis
  proof (cases rule: scan_and_flip_result [OF wf le0, of n, case_names none found])
    case none
    moreover have "?p\<lparr>used_map := used_map ?p\<rparr> = ?p" by simp
    ultimately show ?thesis using assms(2) none(2) by (intro that(1)) (auto simp: call)
  next
    case (found i b)
    let ?a = "base ?p + PGSIZE * i"
    have a: "?a \<noteq> NULL" using ok by (simp add: pool_ok_def PHYS_BASE_def)
    define s1 where "s1 = set_pool u (?p\<lparr>used_map := b\<rparr>) s"
    have s1: "pools_ok s1" unfolding s1_def
      by (rule pools_ok_set [OF assms(1)]) (use same_shape_keeps [OF found(3) wf] in simp_all)
    have pg: "pool_pages (pool_of u s1) = pool_pages ?p \<union> run ?a n"
      by (simp add: s1_def pool_pages_span(1) found(7) image_Un pool_pages_span(2)) (simp add: pool_pages_def)
    have inj: "run ?a n \<inter> pool_pages ?p = {}"
      using found(6) image_Int [OF pool_image_inj [OF ok], of "bits_set (used_map ?p)" "span (i, n)"]
      by (auto simp: pool_pages_def pool_pages_span(2) [symmetric])
    have bc: "bit_cnt (used_map (pool_of u s1)) = bit_cnt (used_map ?p)" using same_shape_keeps [OF found(3) wf] by (simp add: s1_def)
    have out: "run ?a n \<inter> pool_pages (pool_of (\<not> u) s) = {}"
      using pools_disjoint [OF s1, of u] pg by (auto simp: s1_def)
    define s2 where "s2 = (if flags AND PAL_ZERO \<noteq> 0 then s1\<lparr>ram := fill ?a (PGSIZE * n) 0 (ram s1)\<rparr> else s1)"
    have "palloc_get_multiple flags n s = Some (?a, s2)" using found(1,2) a by (simp add: call s1_def s2_def Let_def)
    moreover have "pools_ok s2" "pool_of v s2 = pool_of v s1" for v using s1 by (simp_all add: s2_def pools_ok_ram pool_of_def)
    moreover have "ram s2 = (if flags AND PAL_ZERO \<noteq> 0 then fill ?a (PGSIZE * n) 0 (ram s) else ram s)" "same_setup s s2"
      using same_setup_set_pool [of b u s "ram s"] same_shape_keeps [OF found(3) wf] by (simp_all add: s2_def s1_def)
    ultimately show ?thesis using pg inj bc out a pool_index(2) [OF ok]
      by (intro that(2) [of ?a s2]) (simp_all add: allocated_pools [of _ u] s1_def Int_Un_distrib)
  qed
qed

lemma page_from_one_pool:
  assumes "pools_ok s" "page_from_pool (user_pool s) a" "a mod PGSIZE = 0"
  shows "\<not> page_from_pool (kernel_pool s) a"
proof
  assume k: "page_from_pool (kernel_pool s) a"
  have ok: "pool_ok (kernel_pool s)" "pool_ok (user_pool s)" "pool_end (kernel_pool s) < base (user_pool s)" using assms(1) by (simp_all add: pools_ok_def)
  from k obtain i where i: "i < bit_cnt (used_map (kernel_pool s))" "a = base (kernel_pool s) + PGSIZE * i"
    unfolding page_from_pool_iff [OF ok(1) assms(3)] by blast
  from assms(2) have "base (user_pool s) \<le> a" unfolding page_from_pool_iff [OF ok(2) assms(3)] by auto
  moreover have "a \<le> pool_end (kernel_pool s)" using i by (simp add: pool_end_def)
  ultimately show False using ok(3) by linarith
qed

lemma palloc_free_ok:
  assumes "pools_ok s" "0 < n" "run p n \<subseteq> pool_pages (pool_of u s)"
  obtains s' where "palloc_free_multiple p n s = Some s'" "pools_ok s'" "pool_pages (pool_of u s') = pool_pages (pool_of u s) - run p n"
    "pool_of (\<not> u) s' = pool_of (\<not> u) s" "ram s' = fill p (PGSIZE * n) 0xcc (ram s)" "same_setup s s'"
proof -
  let ?p = "pool_of u s"
  note ok = pool_ok_of [OF assms(1), of u]
  then have wf: "bitmap_wf (used_map ?p)" by (simp add: pool_ok_def)
  have "p + PGSIZE * 0 \<in> run p n" using assms(2) unfolding run_def by blast
  then have mem: "p \<in> pool_pages ?p" using assms(3) by auto
  then obtain i where i: "p = base ?p + PGSIZE * i" by (auto simp: pool_pages_def)
  note pp = pool_pages_bounds [OF ok mem]
  have "(\<lambda>i. base ?p + PGSIZE * i) ` span (i, n) \<subseteq> (\<lambda>i. base ?p + PGSIZE * i) ` bits_set (used_map ?p)"
    using assms(3) unfolding pool_pages_span(2) i by (simp add: pool_pages_def)
  then have sp: "span (i, n) \<subseteq> bits_set (used_map ?p)" using inj_image_subset_iff [OF pool_image_inj [OF ok]] by blast
  have "i + (n - 1) \<in> span (i, n)" using assms(2) by (simp add: span_def)
  then have r: "i + n \<le> bit_cnt (used_map ?p)" using sp assms(2) by (auto simp: bits_set_def)
  have "bitmap_all (used_map ?p) i n = Some True"
    using bitmap_all_bits [OF wf r] sp by (auto simp: span_def bits_set_def)
  moreover obtain b where b: "bitmap_set_multiple (used_map ?p) i n False = Some b" "same_shape (used_map ?p) b"
      "bits_set b = bits_set (used_map ?p) - span (i, n)"
    using bits_set_multiple [OF wf r, of False] by auto
  define s1 where "s1 = s\<lparr>ram := fill p (PGSIZE * n) 0xcc (ram s)\<rparr>"
  define s2 where "s2 = set_pool u (?p\<lparr>used_map := b\<rparr>) s1"
  have idx: "pg_no p - pg_no (base ?p) = i" unfolding i using pool_index(3) [OF ok] by simp
  have k: "page_from_pool (kernel_pool s) p \<longleftrightarrow> \<not> u"
    using pp(4) page_from_one_pool [OF assms(1) _ pp(3)] by (cases u) (auto simp: pool_of_def)
  have nn: "p \<noteq> NULL" using pp(1) ok by (auto simp: pool_ok_def PHYS_BASE_def)
  have "palloc_free_multiple p n s = Some s2"
    using assms(2) pp(3,4) nn k idx calculation b(1)
    by (cases u) (simp_all add: palloc_free_multiple_def pg_ofs_mod PGSIZE_def [symmetric] Let_def pool_of_def s2_def s1_def set_pool_def)
  moreover have "pools_ok s2"
    using pools_ok_set [OF pools_ok_ram [OF assms(1)], of b u] same_shape_keeps [OF b(2) wf]
    by (cases u) (simp_all add: s2_def s1_def pool_of_def)
  moreover have "pool_pages (pool_of u s2) = pool_pages ?p - run p n"
    using image_set_diff [OF pool_image_inj [OF ok], of "bits_set (used_map ?p)" "span (i, n)"] b(3)
    by (simp add: s2_def pool_pages_span) (simp add: pool_pages_def i)
  moreover have "pool_of (\<not> u) s2 = pool_of (\<not> u) s" "ram s2 = fill p (PGSIZE * n) 0xcc (ram s)" "same_setup s s2"
    using same_setup_set_pool [of b u s] same_shape_keeps [OF b(2) wf] by (simp_all add: s2_def s1_def pool_of_def set_pool_def)
  ultimately show ?thesis using that by blast
qed

text \<open>Single pages\<close>

lemma run_1 [simp]: "run p 1 = {p}" "run p (Suc 0) = {p}"
  by (auto simp: run_def)

lemma free_page_group:
  assumes "pool_ok p" "card (pool_pages p) < bit_cnt (used_map p)"
  shows "\<exists>k. is_group (used_map p) k 1 False"
proof (rule ccontr)
  assume a: "\<nexists>k. is_group (used_map p) k 1 False"
  have "bit_at (used_map p) i" if "i < bit_cnt (used_map p)" for i
  proof (rule ccontr)
    assume "\<not> bit_at (used_map p) i"
    then have "is_group (used_map p) i 1 False" using that by (auto simp: is_group_def less_Suc_eq dest: le_neq_implies_less)
    then show False using a by blast
  qed
  then have "bits_set (used_map p) = {..<bit_cnt (used_map p)}" by (auto simp: bits_set_def)
  then have "card (pool_pages p) = bit_cnt (used_map p)"
    unfolding pool_pages_def using card_image [OF inj_on_subset [OF pool_image_inj [OF assms(1)] subset_UNIV]] by simp
  then show False using assms(2) by simp
qed

lemma palloc_get_page_ok:
  assumes "pools_ok s" "flags AND PAL_ASSERT = 0" "u \<longleftrightarrow> flags AND PAL_USER \<noteq> 0"
  obtains (none) "palloc_get_page flags s = Some (NULL, s)"
  | (got) p s' where "palloc_get_page flags s = Some (p, s')" "pools_ok s'" "p mod PGSIZE = 0" "p \<noteq> NULL"
      "p \<notin> allocated s" "pool_pages (pool_of u s') = insert p (pool_pages (pool_of u s))" "pool_of (\<not> u) s' = pool_of (\<not> u) s"
      "ram s' = (if flags AND PAL_ZERO \<noteq> 0 then fill p PGSIZE 0 (ram s) else ram s)" "same_setup s s'"
  using assms(1) disjI1 [OF assms(2)] zero_less_one assms(3)
proof (cases rule: palloc_get_ok [consumes 4, case_names none got])
  case none
  then show ?thesis by (intro that(1)) (simp add: palloc_get_page_def)
next
  case (got p s')
  then show ?thesis by (intro that(2) [of p s']) (simp_all add: palloc_get_page_def)
qed

text \<open>The number of pages a pool has left. A page is refused only when there is none.\<close>

definition spare :: "bool \<Rightarrow> machine \<Rightarrow> nat" where
  "spare u s = bit_cnt (used_map (pool_of u s)) - card (pool_pages (pool_of u s))"

lemma palloc_get_page_none:
  assumes "pools_ok s" "flags AND PAL_ASSERT = 0" "u \<longleftrightarrow> flags AND PAL_USER \<noteq> 0" "palloc_get_page flags s = Some (NULL, s')"
  shows "spare u s = 0"
proof (rule ccontr)
  assume "spare u s \<noteq> 0"
  then have "\<exists>k. is_group (used_map (pool_of u s)) k 1 False" by (intro free_page_group pool_ok_of [OF assms(1)]) (simp add: spare_def)
  moreover have "palloc_get_multiple flags 1 s = Some (NULL, s')" using assms(4) by (simp add: palloc_get_page_def)
  ultimately show False using palloc_get_ok [OF assms(1) disjI1 [OF assms(2)] zero_less_one assms(3), of False] by auto
qed

lemma spare_cong: "pool_pages (pool_of u s') = pool_pages (pool_of u s) \<Longrightarrow> same_setup s s' \<Longrightarrow> spare u s' = spare u s"
  by (cases u) (simp_all add: spare_def pool_of_def same_setup_def pool_shape_def)

lemma spare_one:
  assumes "pool_pages (pool_of u s') \<subseteq> insert p (pool_pages (pool_of u s))" "same_setup s s'"
  shows "spare u s \<le> Suc (spare u s')"
proof -
  have f: "finite (insert p (pool_pages (pool_of u s)))" by (simp add: pool_pages_def bits_set_def)
  from card_mono [OF f assms(1)] card_insert_le_m1 have "card (pool_pages (pool_of u s')) \<le> Suc (card (pool_pages (pool_of u s)))"
    using card_insert_if [of "pool_pages (pool_of u s)" p] f by (auto split: if_splits)
  then show ?thesis using assms(2) by (cases u) (auto simp: spare_def pool_of_def same_setup_def pool_shape_def)
qed

text \<open>With a free page in the pool the call succeeds, whatever the flags.\<close>

lemma palloc_get_page_free:
  assumes "pools_ok s" "card (pool_pages (pool_of u s)) < bit_cnt (used_map (pool_of u s))" "u \<longleftrightarrow> flags AND PAL_USER \<noteq> 0"
  obtains p s' where "palloc_get_page flags s = Some (p, s')" "pools_ok s'" "p mod PGSIZE = 0" "p \<noteq> NULL"
      "p \<notin> allocated s" "pool_pages (pool_of u s') = insert p (pool_pages (pool_of u s))" "pool_of (\<not> u) s' = pool_of (\<not> u) s"
      "ram s' = (if flags AND PAL_ZERO \<noteq> 0 then fill p PGSIZE 0 (ram s) else ram s)" "same_setup s s'"
      "bit_cnt (used_map (pool_of u s')) = bit_cnt (used_map (pool_of u s))"
proof -
  note g = free_page_group [OF pool_ok_of [OF assms(1)] assms(2)]
  from assms(1) disjI2 [OF g] zero_less_one assms(3) show ?thesis
  proof (cases rule: palloc_get_ok [consumes 4, case_names none got])
    case none
    then show ?thesis using g by blast
  next
    case (got p s')
    then show ?thesis using that [of p s'] by (simp add: palloc_get_page_def)
  qed
qed

lemma palloc_free_page_ok:
  assumes "pools_ok s" "p \<in> pool_pages (pool_of u s)"
  obtains s' where "palloc_free_page p s = Some s'" "pools_ok s'" "pool_pages (pool_of u s') = pool_pages (pool_of u s) - {p}"
    "pool_of (\<not> u) s' = pool_of (\<not> u) s" "ram s' = fill p PGSIZE 0xcc (ram s)" "same_setup s s'"
proof -
  have r: "run p 1 \<subseteq> pool_pages (pool_of u s)" using assms(2) by simp
  show ?thesis by (rule palloc_free_ok [OF assms(1) zero_less_one r]) (use that in \<open>simp add: palloc_free_page_def\<close>)
qed

section \<open>The allocator hands out disjoint ranges\<close>

lemma page_number: "a mod PGSIZE = 0 \<Longrightarrow> pg_no a * PGSIZE = a" "pg_no (i * PGSIZE) = i"
  by (auto simp: pg_no_div PGSIZE_def)

lemma page_numbers_run: "pg_no ` run (i * PGSIZE) n = span (i, n)"
proof -
  have "pg_no (i * PGSIZE + PGSIZE * j) = i + j" for j using page_number(2) [of "i + j"] by (simp add: algebra_simps)
  then have "pg_no ` run (i * PGSIZE) n = (\<lambda>j. i + j) ` {..<n}" by (simp add: run_def image_image)
  then show ?thesis by (simp add: span_def lessThan_atLeast0 add.commute)
qed

lemma page_numbers_inj: "pools_ok s \<Longrightarrow> inj_on pg_no (allocated s)"
  by (rule inj_onI) (metis allocated_page(1) kernel_page_def PGSIZE_def page_number(1))

lemma run_in_one_pool:
  assumes "pools_ok s" "run p n \<subseteq> allocated s" "0 < n"
  obtains u where "run p n \<subseteq> pool_pages (pool_of u s)"
proof -
  have mem: "p + PGSIZE * j \<in> allocated s" if "j < n" for j using assms(2) that by (auto simp: run_def)
  obtain u where u: "p \<in> pool_pages (pool_of u s)" using mem [OF assms(3)] by (auto simp: allocated_pools [of _ True])
  have "p + PGSIZE * j \<in> pool_pages (pool_of u s)" if "j < n" for j
    using that
  proof (induction j)
    case (Suc j)
    let ?a = "p + PGSIZE * j"
    have a: "?a \<in> pool_pages (pool_of u s)" using Suc by simp
    have b: "?a + PGSIZE \<in> allocated s" using mem [OF Suc.prems] by (simp add: algebra_simps)
    have "?a + PGSIZE \<notin> pool_pages (pool_of (\<not> u) s)"
      using pools_apart [OF assms(1)] a by (cases u) (fastforce simp: pool_of_def PGSIZE_def)+
    then show ?case using b by (auto simp: allocated_pools [of _ u] algebra_simps)
  qed (use u in simp)
  then show ?thesis using that by (auto simp: run_def)
qed

lemma palloc_get_numbers:
  assumes "pools_ok s" "flags AND PAL_ASSERT = 0"
  shows "\<exists>i s'. map_option (map_prod pg_no id) (palloc_get_multiple flags n s) = Some (i, s') \<and> pools_ok s' \<and>
    (if i = 0 then pg_no ` allocated s' = pg_no ` allocated s
     else i + n \<le> 2 ^ 20 \<and> pg_no ` allocated s \<inter> span (i, n) = {} \<and> pg_no ` allocated s' = pg_no ` allocated s \<union> span (i, n))"
proof (cases "n = 0")
  case True
  then show ?thesis using assms by (simp add: palloc_get_multiple_def pg_no_div)
next
  case False
  show ?thesis
  proof (cases rule: palloc_get_ok [where flags = flags and n = n, OF assms(1) disjI1 [OF assms(2)] _ refl, case_names pos none got])
    case pos
    then show ?case using False by simp
  next
    case none
    then show ?thesis using assms by (simp add: pg_no_div)
  next
    case (got p s')
    let ?u = "flags AND PAL_USER \<noteq> 0"
    have al: "allocated s' = allocated s \<union> run p n" using got(6,7) by (auto simp: allocated_pools [of _ ?u])
    have p: "p = pg_no p * PGSIZE" using page_number(1) [OF got(3)] by simp
    have sp: "pg_no ` run p n = span (pg_no p, n)" by (subst p) (rule page_numbers_run)
    have nz: "pg_no p \<noteq> 0" using p got(4) by (metis mult_0)
    have "pg_no ` allocated s \<inter> pg_no ` run p n = {}"
      using inj_on_image_Int [OF page_numbers_inj [OF got(2)], of "allocated s" "run p n"] al got(5) by (simp add: Int_commute)
    moreover have "p + PGSIZE * (n - 1) \<in> allocated s'" using False by (auto simp: al run_def)
    then have "p + PGSIZE * n \<le> 2 ^ 32"
      using allocated_page(2) [OF got(2)] got(2) False by (fastforce simp: pools_ok_def diff_mult_distrib2)
    then have "pg_no p + n \<le> 2 ^ 20" using p by (simp add: PGSIZE_def)
    ultimately show ?thesis using got(1,2) al sp nz by (simp add: image_Un)
  qed
qed

lemma palloc_free_numbers:
  assumes "pools_ok s" "i + n \<le> 2 ^ 20" "span (i, n) \<subseteq> pg_no ` allocated s"
  shows "\<exists>s'. palloc_free_multiple (i * PGSIZE) n s = Some s' \<and> pools_ok s' \<and> pg_no ` allocated s' = pg_no ` allocated s - span (i, n)"
proof (cases "n = 0")
  case True
  then show ?thesis using assms(1) by (simp add: palloc_free_multiple_def pg_ofs_mod PGSIZE_def span_def)
next
  case False
  have "run (i * PGSIZE) n \<subseteq> allocated s"
  proof
    fix a assume "a \<in> run (i * PGSIZE) n"
    then have a: "a mod PGSIZE = 0" "pg_no a \<in> span (i, n)" by (auto simp: page_numbers_run [symmetric] run_def PGSIZE_def)
    then obtain b where b: "b \<in> allocated s" "pg_no a = pg_no b" using assms(3) by auto
    then have "a = b" using page_number(1) [OF a(1)] page_number(1) [of b] allocated_page(1) [OF assms(1) b(1)] by (simp add: kernel_page_def PGSIZE_def)
    then show "a \<in> allocated s" using b by simp
  qed
  then obtain u where u: "run (i * PGSIZE) n \<subseteq> pool_pages (pool_of u s)" using run_in_one_pool [OF assms(1)] False by blast
  have n: "0 < n" using False by simp
  obtain s' where s': "palloc_free_multiple (i * PGSIZE) n s = Some s'" "pools_ok s'"
      "pool_pages (pool_of u s') = pool_pages (pool_of u s) - run (i * PGSIZE) n" "pool_of (\<not> u) s' = pool_of (\<not> u) s"
    by (rule palloc_free_ok [OF assms(1) n u])
  have "allocated s' = allocated s - run (i * PGSIZE) n"
    using s'(3,4) u pools_disjoint [OF assms(1), of u] by (auto simp: allocated_pools [of _ u])
  then have "pg_no ` allocated s' = pg_no ` allocated s - span (i, n)"
    using inj_on_image_set_diff [OF page_numbers_inj [OF assms(1)], of "allocated s" "run (i * PGSIZE) n"]
      \<open>run (i * PGSIZE) n \<subseteq> allocated s\<close> page_numbers_run [of i n] by simp
  then show ?thesis using s'(1,2) by blast
qed

interpretation page_ranges: range_allocator "\<lambda>s. pg_no ` allocated s" "\<lambda>_. 2 ^ 20" "\<lambda>s. pools_ok s \<and> flags AND PAL_ASSERT = 0"
  "\<lambda>s n. map_option (map_prod pg_no id) (palloc_get_multiple flags n s)" "\<lambda>s i n. palloc_free_multiple (i * PGSIZE) n s" 0 for flags
proof
  show "\<exists>i s'. map_option (map_prod pg_no id) (palloc_get_multiple flags n s) = Some (i, s') \<and> (pools_ok s' \<and> flags AND PAL_ASSERT = 0) \<and>
      (2 :: nat) ^ 20 = 2 ^ 20 \<and> (if i = 0 then pg_no ` allocated s' = pg_no ` allocated s
       else i + n \<le> 2 ^ 20 \<and> pg_no ` allocated s \<inter> span (i, n) = {} \<and> pg_no ` allocated s' = pg_no ` allocated s \<union> span (i, n))"
    if "pools_ok s \<and> flags AND PAL_ASSERT = 0" for s n
    using palloc_get_numbers [of s flags n] that by auto
  show "\<exists>s'. palloc_free_multiple (i * PGSIZE) n s = Some s' \<and> (pools_ok s' \<and> flags AND PAL_ASSERT = 0) \<and> (2 :: nat) ^ 20 = 2 ^ 20 \<and>
      pg_no ` allocated s' = pg_no ` allocated s - span (i, n)"
    if "pools_ok s \<and> flags AND PAL_ASSERT = 0" "i + n \<le> 2 ^ 20" "span (i, n) \<subseteq> pg_no ` allocated s" for s i n
    using palloc_free_numbers [of s i n] that by auto
qed

section \<open>Initialisation\<close>

definition bm_pages :: "nat \<Rightarrow> nat" where
  "bm_pages n = DIV_ROUND_UP (bitmap_buf_size n) PGSIZE"

lemma bm_pages_bounds:
  assumes "0 < n"
  shows "1 \<le> bm_pages n" "bm_pages n \<le> n" "bitmap_buf_size (n - bm_pages n) \<le> bm_pages n * PGSIZE" "32 * bm_pages n \<le> n + 64"
proof -
  have s: "bitmap_buf_size n = 8 + 4 * ((n + 31) div 32)" for n
    by (simp add: bitmap_buf_size_def byte_cnt_def elem_cnt_def DIV_ROUND_UP_def ELEM_BITS_def)
  have b: "bm_pages n = (8 + 4 * ((n + 31) div 32) + 4095) div 4096" by (simp add: bm_pages_def s DIV_ROUND_UP_def PGSIZE_def)
  show "1 \<le> bm_pages n" unfolding b by simp
  show "32 * bm_pages n \<le> n + 64" unfolding b by linarith
  have "8 + 4 * ((n + 31) div 32) + 4095 < 4096 * n + 4096" using assms by linarith
  then show "bm_pages n \<le> n" unfolding b by (simp add: less_mult_imp_div_less)
  have "bitmap_buf_size n \<le> bm_pages n * PGSIZE" unfolding bm_pages_def by (rule DIV_ROUND_UP_bounds(1)) (simp add: PGSIZE_def)
  moreover have "(n - bm_pages n + 31) div 32 \<le> (n + 31) div 32" by (rule div_le_mono) simp
  ultimately show "bitmap_buf_size (n - bm_pages n) \<le> bm_pages n * PGSIZE" unfolding s by linarith
qed

lemma init_pool_ok:
  assumes "0 < n" "n < 2 ^ 20" "a mod PGSIZE = 0" "PHYS_BASE \<le> a"
  obtains p where "init_pool s a n = Some p" "pool_ok p" "base p = a + bm_pages n * PGSIZE" "pool_end p = a + n * PGSIZE" "pool_pages p = {}"
    "bit_cnt (used_map p) = n - bm_pages n"
proof -
  note bm = bm_pages_bounds [OF assms(1)]
  let ?n = "n - bm_pages n" and ?ws = "map (\<lambda>i. get32 (ram s) (a + 8 + 4 * i)) [0..<elem_cnt (n - bm_pages n)]"
  obtain b where b: "bitmap_create_in_buf ?n ?ws (bm_pages n * PGSIZE) = Some b" "bitmap_wf b" "bit_cnt b = ?n" "bits_set b = {}"
    by (rule bitmap_create_in_buf_clear [of ?ws ?n "bm_pages n * PGSIZE"]) (use assms(2) bm(3) in auto)
  let ?p = "\<lparr>used_map = b, base = a + bm_pages n * PGSIZE\<rparr>"
  have "init_pool s a n = Some ?p" using b(1) bm(2) by (simp add: init_pool_def bm_pages_def [symmetric] Let_def)
  moreover have "pool_ok ?p" using b(2) assms(3,4) by (simp add: pool_ok_def)
  moreover have "pool_end ?p = a + n * PGSIZE"
  proof -
    have "bm_pages n * PGSIZE + ?n * PGSIZE = (bm_pages n + ?n) * PGSIZE" by (simp only: add_mult_distrib)
    also have "\<dots> = n * PGSIZE" using bm(2) by simp
    finally show ?thesis by (simp add: pool_end_def b(3) mult.commute)
  qed
  moreover have "pool_pages ?p = {}" using b(4) by (simp add: pool_pages_def)
  ultimately show ?thesis using that b(3) by simp
qed

lemma palloc_init_ok:
  assumes "258 \<le> init_ram_pages s" "init_ram_pages s < 2 ^ 18" "0 < user_page_limit"
  obtains s' where "palloc_init user_page_limit s = Some s'" "pools_ok s'" "allocated s' = {}" "init_ram_pages s' = init_ram_pages s" "ram s' = ram s"
    "31 * (init_ram_pages s - 256) \<le> 64 * (bit_cnt (used_map (kernel_pool s')) + 2)"
proof -
  let ?free = "init_ram_pages s - 256" and ?a = "PHYS_BASE + 256 * PGSIZE"
  define u where "u = (if ?free div 2 > user_page_limit then user_page_limit else ?free div 2)"
  have u: "0 < u" "u < ?free" "?free < 2 ^ 20" using assms by (auto simp: u_def)
  have st: "ptov (1024 * 1024) = Some ?a" by (simp add: ptov_def PHYS_BASE_def wrap32_def PGSIZE_def)
  have en: "ptov (init_ram_pages s * PGSIZE) = Some (PHYS_BASE + init_ram_pages s * PGSIZE)"
    using assms(2) by (simp add: ptov_def PHYS_BASE_def wrap32_def PGSIZE_def)
  have fr: "(PHYS_BASE + init_ram_pages s * PGSIZE - ?a) div PGSIZE = ?free" by (simp add: PGSIZE_def diff_mult_distrib [symmetric])
  have a: "?a mod PGSIZE = 0" "PHYS_BASE \<le> ?a" by (simp_all add: PGSIZE_def PHYS_BASE_def)
  have k: "0 < ?free - u" "?free - u < 2 ^ 20" "u < 2 ^ 20" using u by simp_all
  have a2: "(?a + (?free - u) * PGSIZE) mod PGSIZE = 0" "PHYS_BASE \<le> ?a + (?free - u) * PGSIZE" using a by (simp_all add: PGSIZE_def)
  obtain kp where kp: "init_pool s ?a (?free - u) = Some kp" "pool_ok kp" "pool_end kp = ?a + (?free - u) * PGSIZE" "pool_pages kp = {}"
      "bit_cnt (used_map kp) = ?free - u - bm_pages (?free - u)"
    by (rule init_pool_ok [OF k(1,2) a])
  obtain up where up: "init_pool s (?a + (?free - u) * PGSIZE) u = Some up" "pool_ok up" "base up = ?a + (?free - u) * PGSIZE + bm_pages u * PGSIZE"
      "pool_end up = ?a + (?free - u) * PGSIZE + u * PGSIZE" "pool_pages up = {}"
    by (rule init_pool_ok [OF u(1) k(3) a2])
  let ?s = "s\<lparr>kernel_pool := kp, user_pool := up\<rparr>"
  have "u \<le> ?free div 2" by (simp add: u_def)
  then have "?free \<le> 2 * (?free - u)" by linarith
  moreover have "bit_cnt (used_map kp) + bm_pages (?free - u) = ?free - u" using kp(5) bm_pages_bounds(2) [OF k(1)] by simp
  ultimately have "31 * ?free \<le> 64 * (bit_cnt (used_map kp) + 2)" using bm_pages_bounds(4) [OF k(1)] by simp
  moreover have "palloc_init user_page_limit s = Some ?s"
    unfolding palloc_init_def st en bind.bind_lunit Let_def fr u_def [symmetric] kp(1) up(1) by (rule refl)
  moreover have "pool_end kp < base up" using kp(3) up(3) bm_pages_bounds(1) [OF u(1)] by (simp add: PGSIZE_def)
  moreover have "pool_end up = PHYS_BASE + init_ram_pages s * PGSIZE"
    using up(4) u(2) assms(1) by (simp add: add_mult_distrib [symmetric] PGSIZE_def)
  ultimately show ?thesis using that [of ?s] kp(2,4) up(2,5) assms(2)
    by (simp add: pools_ok_def allocated_def PHYS_BASE_def PGSIZE_def)
qed

section \<open>Properties\<close>

definition sample_machine :: machine where
  "sample_machine = \<lparr>ram = (\<lambda>_. 0), kernel_pool = \<lparr>used_map = \<lparr>bit_cnt = 0, bits = []\<rparr>, base = 0\<rparr>,
     user_pool = \<lparr>used_map = \<lparr>bit_cnt = 0, bits = []\<rparr>, base = 0\<rparr>, init_ram_pages = 1024, init_page_dir = 0xc0000000 + 0x100000, cr3 = 0\<rparr>"



end
