(* ===== verification/Page_Tables.thy ===== *)
theory Page_Tables
  imports Page_Alloc
begin

text \<open>
  Page directories (\<^verbatim>\<open>userprog/pagedir.c\<close>): two levels of tables in physical memory, read and written as
  32-bit words. \<open>mapping\<close> is the function from virtual page numbers to frames that the tables of a page
  directory represent; the lemmas state the operations on it. The processor's cache of translations is not
  modelled, so \<open>invalidate_pagedir\<close> only loads the register again.
\<close>

section \<open>The code\<close>

definition lookup_page :: "machine \<Rightarrow> nat \<Rightarrow> nat \<Rightarrow> bool \<Rightarrow> (nat \<times> machine) option" where
  "lookup_page s pd vaddr create = do {
     ASSERT (pd \<noteq> NULL);
     ASSERT (\<not> create \<or> is_user_vaddr vaddr);
     let pde = pd + 4 * pd_no vaddr;
     (found, s) \<leftarrow>
       (if get32 (ram s) pde = 0
        then if create
             then do {
               (pt, s) \<leftarrow> palloc_get_page PAL_ZERO s;
               if pt = NULL then Some (False, s)
               else do { e \<leftarrow> pde_create pt; Some (True, s\<lparr>ram := put32 pde e (ram s)\<rparr>) } }
             else Some (False, s)
        else Some (True, s));
     if found
     then do { pt \<leftarrow> pde_get_pt (get32 (ram s) pde); Some (pt + 4 * pt_no vaddr, s) }
     else Some (NULL, s) }"

definition pagedir_create :: "machine \<Rightarrow> (nat \<times> machine) option" where
  "pagedir_create s = do {
     (pd, s) \<leftarrow> palloc_get_page 0 s;
     Some (pd, if pd \<noteq> NULL then s\<lparr>ram := put_bytes pd (map (\<lambda>i. ram s (init_page_dir s + i)) [0..<PGSIZE]) (ram s)\<rparr> else s) }"

fun free_ptes :: "nat list \<Rightarrow> nat \<Rightarrow> machine \<Rightarrow> machine option" where
  "free_ptes [] pt s = Some s"
| "free_ptes (j # js) pt s =
     (let pte = get32 (ram s) (pt + 4 * j)
      in if pte AND PTE_P \<noteq> 0
         then do { page \<leftarrow> pte_get_page pte; s \<leftarrow> palloc_free_page page s; free_ptes js pt s }
         else free_ptes js pt s)"

fun free_pdes :: "nat list \<Rightarrow> nat \<Rightarrow> machine \<Rightarrow> machine option" where
  "free_pdes [] pd s = Some s"
| "free_pdes (i # is) pd s =
     (let pde = get32 (ram s) (pd + 4 * i)
      in if pde AND PTE_P \<noteq> 0
         then do {
           pt \<leftarrow> pde_get_pt pde;
           s \<leftarrow> free_ptes [0..<PGSIZE div 4] pt s;
           s \<leftarrow> palloc_free_page pt s;
           free_pdes is pd s }
         else free_pdes is pd s)"

definition pagedir_destroy :: "machine \<Rightarrow> nat \<Rightarrow> machine option" where
  "pagedir_destroy s pd =
     (if pd = NULL then Some s
      else do {
        ASSERT (pd \<noteq> init_page_dir s);
        s \<leftarrow> free_pdes [0..<pd_no PHYS_BASE] pd s;
        palloc_free_page pd s })"

definition pagedir_activate :: "machine \<Rightarrow> nat \<Rightarrow> machine option" where
  "pagedir_activate s pd = do {
     let pd = (if pd = NULL then init_page_dir s else pd);
     p \<leftarrow> vtop pd;
     Some (s\<lparr>cr3 := p\<rparr>) }"

definition active_pd :: "machine \<Rightarrow> nat option" where
  "active_pd s = ptov (cr3 s)"

definition invalidate_pagedir :: "machine \<Rightarrow> nat \<Rightarrow> machine option" where
  "invalidate_pagedir s pd = do { a \<leftarrow> active_pd s; if a = pd then pagedir_activate s pd else Some s }"

definition pagedir_set_page :: "machine \<Rightarrow> nat \<Rightarrow> nat \<Rightarrow> nat \<Rightarrow> bool \<Rightarrow> (bool \<times> machine) option" where
  "pagedir_set_page s pd upage kpage writable = do {
     ASSERT (pg_ofs upage = 0);
     ASSERT (pg_ofs kpage = 0);
     ASSERT (is_user_vaddr upage);
     p \<leftarrow> vtop kpage;
     ASSERT (drop_bit PTSHIFT p < init_ram_pages s);
     ASSERT (pd \<noteq> init_page_dir s);
     (pte, s) \<leftarrow> lookup_page s pd upage True;
     if pte \<noteq> NULL
     then do {
       ASSERT (get32 (ram s) pte AND PTE_P = 0);
       e \<leftarrow> pte_create_user kpage writable;
       Some (True, s\<lparr>ram := put32 pte e (ram s)\<rparr>) }
     else Some (False, s) }"

definition pagedir_get_page :: "machine \<Rightarrow> nat \<Rightarrow> nat \<Rightarrow> nat option" where
  "pagedir_get_page s pd uaddr = do {
     ASSERT (is_user_vaddr uaddr);
     (pte, s) \<leftarrow> lookup_page s pd uaddr False;
     if pte \<noteq> NULL \<and> get32 (ram s) pte AND PTE_P \<noteq> 0
     then do { page \<leftarrow> pte_get_page (get32 (ram s) pte); Some (page + pg_ofs uaddr) }
     else Some NULL }"

definition pagedir_clear_page :: "machine \<Rightarrow> nat \<Rightarrow> nat \<Rightarrow> machine option" where
  "pagedir_clear_page s pd upage = do {
     ASSERT (pg_ofs upage = 0);
     ASSERT (is_user_vaddr upage);
     (pte, s) \<leftarrow> lookup_page s pd upage False;
     if pte \<noteq> NULL \<and> get32 (ram s) pte AND PTE_P \<noteq> 0
     then invalidate_pagedir (s\<lparr>ram := put32 pte (get32 (ram s) pte AND NOT PTE_P) (ram s)\<rparr>) pd
     else Some s }"

definition pagedir_is_dirty :: "machine \<Rightarrow> nat \<Rightarrow> nat \<Rightarrow> bool option" where
  "pagedir_is_dirty s pd vpage = do {
     (pte, s) \<leftarrow> lookup_page s pd vpage False;
     Some (pte \<noteq> NULL \<and> get32 (ram s) pte AND PTE_D \<noteq> 0) }"

definition pagedir_set_dirty :: "machine \<Rightarrow> nat \<Rightarrow> nat \<Rightarrow> bool \<Rightarrow> machine option" where
  "pagedir_set_dirty s pd vpage dirty = do {
     (pte, s) \<leftarrow> lookup_page s pd vpage False;
     if pte \<noteq> NULL
     then if dirty then Some (s\<lparr>ram := put32 pte (get32 (ram s) pte OR PTE_D) (ram s)\<rparr>)
          else invalidate_pagedir (s\<lparr>ram := put32 pte (get32 (ram s) pte AND NOT PTE_D) (ram s)\<rparr>) pd
     else Some s }"

definition pagedir_is_accessed :: "machine \<Rightarrow> nat \<Rightarrow> nat \<Rightarrow> bool option" where
  "pagedir_is_accessed s pd vpage = do {
     (pte, s) \<leftarrow> lookup_page s pd vpage False;
     Some (pte \<noteq> NULL \<and> get32 (ram s) pte AND PTE_A \<noteq> 0) }"

definition pagedir_set_accessed :: "machine \<Rightarrow> nat \<Rightarrow> nat \<Rightarrow> bool \<Rightarrow> machine option" where
  "pagedir_set_accessed s pd vpage accessed = do {
     (pte, s) \<leftarrow> lookup_page s pd vpage False;
     if pte \<noteq> NULL
     then if accessed then Some (s\<lparr>ram := put32 pte (get32 (ram s) pte OR PTE_A) (ram s)\<rparr>)
          else invalidate_pagedir (s\<lparr>ram := put32 pte (get32 (ram s) pte AND NOT PTE_A) (ram s)\<rparr>) pd
     else Some s }"

section \<open>What the tables represent\<close>

definition pde_at :: "machine \<Rightarrow> nat \<Rightarrow> nat \<Rightarrow> u32" where
  "pde_at s pd i = get32 (ram s) (pd + 4 * i)"

definition table :: "machine \<Rightarrow> nat \<Rightarrow> nat \<Rightarrow> nat option" where
  "table s pd i = (if i < 768 \<and> pde_at s pd i \<noteq> 0 then pde_get_pt (pde_at s pd i) else None)"

definition tables :: "machine \<Rightarrow> nat \<Rightarrow> nat set" where
  "tables s pd = ran (table s pd)"

definition pte_at :: "machine \<Rightarrow> nat \<Rightarrow> nat \<Rightarrow> nat \<Rightarrow> u32" where
  "pte_at s pd i j = (case table s pd i of None \<Rightarrow> 0 | Some t \<Rightarrow> get32 (ram s) (t + 4 * j))"

definition frame :: "u32 \<Rightarrow> (nat \<times> bool) option" where
  "frame e = (if bit e 0 then map_option (\<lambda>k. (k, bit e 1)) (pte_get_page e) else None)"

definition mapping :: "machine \<Rightarrow> nat \<Rightarrow> nat \<Rightarrow> (nat \<times> bool) option" where
  "mapping s pd v = frame (pte_at s pd (v div 1024) (v mod 1024))"

definition frames :: "machine \<Rightarrow> nat \<Rightarrow> nat set" where
  "frames s pd = fst ` ran (mapping s pd)"

text \<open>
  A well-formed page directory: its tables are pages of the kernel pool, one for each entry that is set, the
  frames are pages of the user pool, and no frame is mapped twice.
\<close>

definition pd_ok :: "machine \<Rightarrow> nat \<Rightarrow> bool" where
  "pd_ok s pd \<longleftrightarrow> pd \<in> pool_pages (kernel_pool s) \<and> pd \<noteq> init_page_dir s \<and>
     (\<forall>i<768. pde_at s pd i \<noteq> 0 \<longrightarrow> bit (pde_at s pd i) 0 \<and> table s pd i \<noteq> None) \<and>
     tables s pd \<subseteq> pool_pages (kernel_pool s) - {pd} \<and>
     (\<forall>i j t. table s pd i = Some t \<longrightarrow> table s pd j = Some t \<longrightarrow> i = j) \<and>
     (\<forall>i j. bit (pte_at s pd i j) 0 \<longrightarrow> j < 1024 \<longrightarrow> pte_get_page (pte_at s pd i j) \<noteq> None) \<and>
     frames s pd \<subseteq> pool_pages (user_pool s) \<and>
     (\<forall>v w. mapping s pd v \<noteq> None \<longrightarrow> map_option fst (mapping s pd v) = map_option fst (mapping s pd w) \<longrightarrow> v = w)"

section \<open>Words of a page\<close>

lemma word_page:
  assumes "p mod PGSIZE = 0" "i < 1024" "p + 4 * i \<le> x" "x < p + 4 * i + 4"
  shows "page_of x = p"
  using assms by (intro page_of_in) (simp_all add: PGSIZE_def)

lemma get32_page_cong:
  assumes "p mod PGSIZE = 0" "i < 1024" "\<And>x. page_of x = p \<Longrightarrow> m' x = m x"
  shows "get32 m' (p + 4 * i) = get32 m (p + 4 * i)"
proof (rule get32_cong)
  fix x assume "p + 4 * i \<le> x" "x < p + 4 * i + 4"
  then have "page_of x = p" by (rule word_page [OF assms(1,2)])
  then show "m' x = m x" by (rule assms(3))
qed

lemma put32_page:
  assumes "p mod PGSIZE = 0" "i < 1024" "page_of x \<noteq> p"
  shows "put32 (p + 4 * i) w m x = m x"
  unfolding put32_def
  by (rule put_bytes_other) (use word_page [OF assms(1,2), of x] assms(3) in fastforce)

lemma get32_put_word:
  assumes "i \<noteq> j"
  shows "get32 (put32 (p + 4 * i) w m) (p + 4 * j) = get32 m (p + 4 * j)"
  using assms by (intro get32_put32_other) auto

lemma slot_split: "(i * 1024 + j) div 1024 = i" "(i * 1024 + j) mod 1024 = j" if "j < (1024 :: nat)"
  using that by simp_all

lemma user_pd_no: "is_user_vaddr va \<Longrightarrow> pd_no va < 768"
  by (simp add: is_user_vaddr_def pd_no_div PHYS_BASE_def)

lemma vpage_slot: "va div 4096 div 1024 = pd_no va" "va div 4096 mod 1024 = pt_no va"
  by (simp_all add: pd_no_div pt_no_div div_mult2_eq [symmetric])

section \<open>Well-formed page directories\<close>

lemma pd_okD:
  assumes "pools_ok s" "pd_ok s pd"
  shows "pd \<noteq> NULL" "pd mod PGSIZE = 0" "pd \<noteq> init_page_dir s"
    "i < 768 \<Longrightarrow> pde_at s pd i \<noteq> 0 \<Longrightarrow> \<exists>t. table s pd i = Some t \<and> pde_get_pt (pde_at s pd i) = Some t"
    "table s pd i = Some t \<Longrightarrow> t \<in> pool_pages (kernel_pool s)"
    "table s pd i = Some t \<Longrightarrow> t mod PGSIZE = 0 \<and> t \<noteq> pd \<and> t \<noteq> NULL"
    "table s pd i = Some t \<Longrightarrow> table s pd j = Some t \<Longrightarrow> i = j"
proof -
  have k: "kernel_page a" "a \<noteq> NULL" if "a \<in> pool_pages (kernel_pool s)" for a
    using allocated_page(1,3) [OF assms(1), of a] that by (simp_all add: allocated_def)
  have p: "pd \<in> pool_pages (kernel_pool s)" "tables s pd \<subseteq> pool_pages (kernel_pool s) - {pd}" using assms(2) by (simp_all add: pd_ok_def)
  show "pd \<noteq> NULL" "pd mod PGSIZE = 0" using k [OF p(1)] by (simp_all add: kernel_page_def PGSIZE_def)
  show "pd \<noteq> init_page_dir s" using assms(2) by (simp add: pd_ok_def)
  have "table s pd i \<noteq> None" if "i < 768" "pde_at s pd i \<noteq> 0" using assms(2) that by (simp add: pd_ok_def)
  then show "i < 768 \<Longrightarrow> pde_at s pd i \<noteq> 0 \<Longrightarrow> \<exists>t. table s pd i = Some t \<and> pde_get_pt (pde_at s pd i) = Some t"
    by (auto simp: table_def)
  show t: "table s pd i = Some t \<Longrightarrow> t \<in> pool_pages (kernel_pool s)" using p(2) by (auto simp: tables_def ran_def)
  then show "table s pd i = Some t \<Longrightarrow> t mod PGSIZE = 0 \<and> t \<noteq> pd \<and> t \<noteq> NULL"
    using p(2) k by (fastforce simp: tables_def ran_def kernel_page_def PGSIZE_def)
  show "table s pd i = Some t \<Longrightarrow> table s pd j = Some t \<Longrightarrow> i = j" using assms(2) unfolding pd_ok_def by blast
qed

lemma tables_base:
  assumes "pools_ok s" "pd_ok s pd" "p \<in> insert pd (tables s pd)"
  shows "base (kernel_pool s) \<le> p"
  by (rule allocated_base [OF assms(1)]) (use assms(2,3) in \<open>auto simp: pd_ok_def allocated_def\<close>)

lemma table_index: "table s pd i = Some t \<Longrightarrow> i < 768"
  by (auto simp: table_def split: if_splits)

lemma in_frames: "k \<in> frames s pd \<longleftrightarrow> (\<exists>v w. mapping s pd v = Some (k, w))"
  by (force simp: frames_def ran_def)

lemma mapping_frame:
  assumes "pd_ok s pd" "mapping s pd v = Some (k, w)"
  shows "k \<in> pool_pages (user_pool s)" "k \<in> frames s pd" "mapping s pd v' = Some (k, w') \<Longrightarrow> v' = v"
proof -
  show f: "k \<in> frames s pd" using assms(2) in_frames by blast
  then show "k \<in> pool_pages (user_pool s)" using assms(1) by (auto simp: pd_ok_def)
  have "mapping s pd a \<noteq> None \<Longrightarrow> map_option fst (mapping s pd a) = map_option fst (mapping s pd b) \<Longrightarrow> a = b" for a b
    using assms(1) unfolding pd_ok_def by blast
  from this [of v' v] show "mapping s pd v' = Some (k, w') \<Longrightarrow> v' = v" using assms(2) by simp
qed

text \<open>The mapping depends only on the pages of the directory and its tables.\<close>

lemma tables_cong:
  assumes "pools_ok s" "pd_ok s pd" "\<And>x. page_of x \<in> insert pd (tables s pd) \<Longrightarrow> ram s' x = ram s x"
  shows "i < 768 \<Longrightarrow> pde_at s' pd i = pde_at s pd i" "table s' pd = table s pd" "j < 1024 \<Longrightarrow> pte_at s' pd i j = pte_at s pd i j"
    "mapping s' pd = mapping s pd"
proof -
  note d = pd_okD [OF assms(1,2)]
  have p: "pde_at s' pd i = pde_at s pd i" if "i < 768" for i
    unfolding pde_at_def by (rule get32_page_cong [OF d(2)]) (use that assms(3) in auto)
  then show "i < 768 \<Longrightarrow> pde_at s' pd i = pde_at s pd i" .
  show t: "table s' pd = table s pd" using p by (auto simp: table_def fun_eq_iff)
  have e: "pte_at s' pd i j = pte_at s pd i j" if "j < 1024" for i j
  proof (cases "table s pd i")
    case (Some x)
    then have "get32 (ram s') (x + 4 * j) = get32 (ram s) (x + 4 * j)"
      using d(6) [OF Some] that assms(3) by (intro get32_page_cong) (auto simp: tables_def ran_def)
    then show ?thesis using Some t by (simp add: pte_at_def)
  qed (simp add: pte_at_def t)
  then show "j < 1024 \<Longrightarrow> pte_at s' pd i j = pte_at s pd i j" .
  show "mapping s' pd = mapping s pd" by (simp add: mapping_def fun_eq_iff e)
qed

lemma lookup_false:
  assumes "pools_ok s" "pd_ok s pd" "is_user_vaddr va"
  shows "lookup_page s pd va False = Some (case table s pd (pd_no va) of None \<Rightarrow> NULL | Some t \<Rightarrow> t + 4 * pt_no va, s)"
proof (cases "pde_at s pd (pd_no va) = 0")
  case True
  then show ?thesis using pd_okD(1) [OF assms(1,2)] by (simp add: lookup_page_def pde_at_def table_def)
next
  case False
  then obtain t where "table s pd (pd_no va) = Some t" "pde_get_pt (pde_at s pd (pd_no va)) = Some t"
    using pd_okD(4) [OF assms(1,2) user_pd_no [OF assms(3)]] by blast
  then show ?thesis using False pd_okD(1) [OF assms(1,2)] by (simp add: lookup_page_def pde_at_def)
qed

lemma mapping_entry:
  assumes "pools_ok s" "pd_ok s pd" "bit (pte_at s pd i j) 0" "j < 1024"
  obtains k where "pte_get_page (pte_at s pd i j) = Some k" "mapping s pd (i * 1024 + j) = Some (k, bit (pte_at s pd i j) 1)"
proof -
  have "pte_get_page (pte_at s pd i j) \<noteq> None" using assms(2-4) by (simp add: pd_ok_def)
  then show ?thesis using that assms(3) slot_split [OF assms(4)] by (auto simp: mapping_def frame_def)
qed

lemma pagedir_get_page_ok:
  assumes "pools_ok s" "pd_ok s pd" "is_user_vaddr va"
  shows "pagedir_get_page s pd va = Some (case mapping s pd (va div 4096) of None \<Rightarrow> NULL | Some (k, w) \<Rightarrow> k + pg_ofs va)"
proof -
  let ?e = "pte_at s pd (pd_no va) (pt_no va)"
  have m: "mapping s pd (va div 4096) = frame ?e" by (simp add: mapping_def vpage_slot)
  show ?thesis
  proof (cases "table s pd (pd_no va)")
    case None
    then have "?e = 0" by (simp add: pte_at_def)
    then show ?thesis using None assms m by (simp add: pagedir_get_page_def lookup_false frame_def)
  next
    case (Some t)
    have t: "t + 4 * pt_no va \<noteq> NULL" using pd_okD(6) [OF assms(1,2) Some] by simp
    have e: "get32 (ram s) (t + 4 * pt_no va) = ?e" using Some by (simp add: pte_at_def)
    show ?thesis
    proof (cases "bit ?e 0")
      case True
      obtain k where k: "pte_get_page ?e = Some k" by (rule mapping_entry [OF assms(1,2) True page_index(2)])
      then have "mapping s pd (va div 4096) = Some (k, bit ?e 1)" using m True by (simp add: frame_def)
      then show ?thesis using Some assms t e True k by (simp add: pagedir_get_page_def lookup_false flag_bits)
    next
      case False
      then show ?thesis using Some assms t e m by (simp add: pagedir_get_page_def lookup_false flag_bits frame_def)
    qed
  qed
qed

section \<open>Changing an entry\<close>

lemma put_pte:
  assumes "pools_ok s" "pd_ok s pd" "table s pd i = Some t" "j < 1024" "s' = s\<lparr>ram := put32 (t + 4 * j) e (ram s)\<rparr>"
  shows "l < 768 \<Longrightarrow> pde_at s' pd l = pde_at s pd l" "table s' pd = table s pd"
    "n < 1024 \<Longrightarrow> pte_at s' pd l n = (if l = i \<and> n = j then e else pte_at s pd l n)"
    "mapping s' pd = (mapping s pd)(i * 1024 + j := frame e)"
proof -
  note d = pd_okD [OF assms(1,2)]
  have t: "t mod PGSIZE = 0" "t \<noteq> pd" using d(6) [OF assms(3)] by simp_all
  have p: "pde_at s' pd l = pde_at s pd l" if "l < 768" for l
    unfolding pde_at_def assms(5) using put32_page [OF t(1) assms(4)] t(2) d(2) that by (intro get32_page_cong) auto
  then show "l < 768 \<Longrightarrow> pde_at s' pd l = pde_at s pd l" .
  show tb: "table s' pd = table s pd" using p by (auto simp: table_def fun_eq_iff)
  have e: "pte_at s' pd l n = (if l = i \<and> n = j then e else pte_at s pd l n)" if "n < 1024" for l n
  proof (cases "table s pd l")
    case None
    then show ?thesis using tb assms(3) by (auto simp: pte_at_def)
  next
    case (Some u)
    show ?thesis
    proof (cases "l = i")
      case True
      then have "u = t" using Some assms(3) by simp
      then show ?thesis using Some tb True assms(5) get32_put32 [of "t + 4 * j"] get32_put_word [of j n t]
        by (simp add: pte_at_def)
    next
      case False
      then have "u \<noteq> t" using d(7) [OF Some, of i] assms(3) by auto
      then have "get32 (ram s') (u + 4 * n) = get32 (ram s) (u + 4 * n)"
        unfolding assms(5) using put32_page [OF t(1) assms(4)] d(6) [OF Some] that by (intro get32_page_cong) auto
      then show ?thesis using Some tb False by (simp add: pte_at_def)
    qed
  qed
  then show "n < 1024 \<Longrightarrow> pte_at s' pd l n = (if l = i \<and> n = j then e else pte_at s pd l n)" .
  have "v div 1024 = i \<and> v mod 1024 = j \<longleftrightarrow> v = i * 1024 + j" for v using assms(4) by auto
  then show "mapping s' pd = (mapping s pd)(i * 1024 + j := frame e)" by (auto simp: mapping_def fun_eq_iff e)
qed

text \<open>The entry must point to a page of the user pool that is not mapped elsewhere.\<close>

lemma pd_ok_put:
  assumes "pools_ok s" "pd_ok s pd" "table s pd i = Some t" "j < 1024" "s' = s\<lparr>ram := put32 (t + 4 * j) e (ram s)\<rparr>"
    "bit e 0 \<Longrightarrow> \<exists>k. pte_get_page e = Some k \<and> k \<in> pool_pages (user_pool s) \<and> (\<forall>v. v \<noteq> i * 1024 + j \<longrightarrow> map_option fst (mapping s pd v) \<noteq> Some k)"
  shows "pd_ok s' pd"
proof -
  note q = put_pte [OF assms(1-5)]
  have P: "pd \<in> pool_pages (kernel_pool s)" "pd \<noteq> init_page_dir s"
    "\<forall>i<768. pde_at s pd i \<noteq> 0 \<longrightarrow> bit (pde_at s pd i) 0 \<and> table s pd i \<noteq> None" "tables s pd \<subseteq> pool_pages (kernel_pool s) - {pd}"
    "\<forall>i j t. table s pd i = Some t \<longrightarrow> table s pd j = Some t \<longrightarrow> i = j"
    "\<forall>i j. bit (pte_at s pd i j) 0 \<longrightarrow> j < 1024 \<longrightarrow> pte_get_page (pte_at s pd i j) \<noteq> None" "frames s pd \<subseteq> pool_pages (user_pool s)"
    "\<forall>v w. mapping s pd v \<noteq> None \<longrightarrow> map_option fst (mapping s pd v) = map_option fst (mapping s pd w) \<longrightarrow> v = w"
    using assms(2) unfolding pd_ok_def by blast+
  have f: "map_option fst (frame e) = Some k \<Longrightarrow> k \<in> pool_pages (user_pool s) \<and> (\<forall>v. v \<noteq> i * 1024 + j \<longrightarrow> map_option fst (mapping s pd v) \<noteq> Some k)" for k
    using assms(6) by (auto simp: frame_def split: if_splits)
  have fr: "k \<in> pool_pages (user_pool s)" if "map_option fst (mapping s' pd v) = Some k" for v k
    using that P(7) f unfolding q(4) by (cases "v = i * 1024 + j") (force simp: frames_def ran_def)+
  have P8: "v = w" if "mapping s pd v = Some (k, b)" "mapping s pd w = Some (k, c)" for v w k b c using P(8) that by force
  have inj: "v = w" if "mapping s' pd v = Some (k, b)" "mapping s' pd w = Some (k, c)" for v w k b c
    using that P8 [of v k b w c] f [of k] unfolding q(4) by (auto split: if_splits)
  have ex: "pte_get_page (pte_at s' pd l n) \<noteq> None" if "bit (pte_at s' pd l n) 0" "n < 1024" for l n
    using that P(6) assms(6) q(3) [OF that(2), of l] by (auto split: if_splits)
  have "frames s' pd \<subseteq> pool_pages (user_pool s)" using fr by (force simp: frames_def ran_def)
  moreover have "\<forall>v w. mapping s' pd v \<noteq> None \<longrightarrow> map_option fst (mapping s' pd v) = map_option fst (mapping s' pd w) \<longrightarrow> v = w"
  proof (intro allI impI)
    fix v w assume "mapping s' pd v \<noteq> None" "map_option fst (mapping s' pd v) = map_option fst (mapping s' pd w)"
    then show "v = w" using inj [of v _ _ w] by (cases "mapping s' pd v"; cases "mapping s' pd w") auto
  qed
  ultimately show ?thesis using P(1-5) ex q(1,2) unfolding pd_ok_def tables_def by (simp add: assms(5))
qed

section \<open>Adding a table\<close>

lemma frame_0 [simp]: "frame 0 = None"
  by (simp add: frame_def)

lemma fill_page:
  assumes "p mod PGSIZE = 0" "page_of x \<noteq> p"
  shows "fill p PGSIZE v m x = m x"
  using page_of_in [OF assms(1), of x] assms(2) by (auto simp: fill_def)

lemma add_table:
  assumes "pools_ok s" "pd_ok s pd" "i < 768" "pde_at s pd i = 0" "kernel_page p" "p \<notin> allocated s" "pde_get_pt e = Some p" "e \<noteq> 0"
    "s' = s1\<lparr>ram := put32 (pd + 4 * i) e (fill p PGSIZE 0 (ram s))\<rparr>"
  shows "l < 768 \<Longrightarrow> pde_at s' pd l = (if l = i then e else pde_at s pd l)" "table s' pd = (table s pd)(i \<mapsto> p)"
    "n < 1024 \<Longrightarrow> pte_at s' pd l n = pte_at s pd l n" "mapping s' pd = mapping s pd"
    "page_of x \<noteq> p \<Longrightarrow> page_of x \<noteq> pd \<Longrightarrow> ram s' x = ram s x"
proof -
  note d = pd_okD [OF assms(1,2)]
  have i: "i < 1024" using assms(3) by simp
  have p: "p mod PGSIZE = 0" using assms(5) by (simp add: kernel_page_def PGSIZE_def)
  have pd: "pd \<in> allocated s" using assms(2) by (simp add: pd_ok_def allocated_def)
  then have ppd: "p \<noteq> pd" using assms(6) by blast
  have r: "ram s' x = ram s x" if "page_of x \<noteq> pd" "page_of x \<noteq> p" for x
    using put32_page [OF d(2) i that(1)] fill_page [OF p that(2)] by (simp add: assms(9))
  then show "page_of x \<noteq> p \<Longrightarrow> page_of x \<noteq> pd \<Longrightarrow> ram s' x = ram s x" by blast
  have pde: "pde_at s' pd l = (if l = i then e else pde_at s pd l)" if "l < 768" for l
  proof (cases "l = i")
    case True
    then show ?thesis by (simp add: pde_at_def assms(9) get32_put32)
  next
    case False
    have "get32 (fill p PGSIZE 0 (ram s)) (pd + 4 * l) = get32 (ram s) (pd + 4 * l)"
      using fill_page [OF p] ppd that d(2) by (intro get32_page_cong) auto
    then show ?thesis using False get32_put_word [of i l pd] by (simp add: pde_at_def assms(9))
  qed
  then show "l < 768 \<Longrightarrow> pde_at s' pd l = (if l = i then e else pde_at s pd l)" .
  show tb: "table s' pd = (table s pd)(i \<mapsto> p)" using pde assms(3,7,8) by (auto simp: table_def fun_eq_iff)
  have pte: "pte_at s' pd l n = pte_at s pd l n" if "n < 1024" for l n
  proof (cases "l = i")
    case True
    have "get32 (ram s') (p + 4 * n) = get32 (fill p PGSIZE 0 (ram s)) (p + 4 * n)"
      using put32_page [OF d(2) i] ppd p that by (intro get32_page_cong) (auto simp: assms(9))
    also have "\<dots> = 0" using that by (intro get32_fill_zero) (simp_all add: PGSIZE_def)
    finally show ?thesis using True tb assms(4) by (simp add: pte_at_def table_def)
  next
    case False
    show ?thesis
    proof (cases "table s pd l")
      case (Some t)
      have "t \<in> allocated s" using d(5) [OF Some] by (simp add: allocated_def)
      then have "get32 (ram s') (t + 4 * n) = get32 (ram s) (t + 4 * n)"
        using r d(6) [OF Some] assms(6) that by (intro get32_page_cong) auto
      then show ?thesis using Some False tb by (simp add: pte_at_def)
    qed (use False tb in \<open>simp add: pte_at_def\<close>)
  qed
  then show "n < 1024 \<Longrightarrow> pte_at s' pd l n = pte_at s pd l n" .
  show "mapping s' pd = mapping s pd" by (simp add: mapping_def fun_eq_iff pte)
qed

lemma lookup_create:
  assumes "pools_ok s" "pd_ok s pd" "is_user_vaddr va"
  obtains (none) "lookup_page s pd va True = Some (NULL, s)" "spare False s = 0"
  | (found) t s' where "lookup_page s pd va True = Some (t + 4 * pt_no va, s')" "table s' pd (pd_no va) = Some t" "pools_ok s'" "pd_ok s' pd"
      "mapping s' pd = mapping s pd" "user_pool s' = user_pool s" "changes (insert pd (tables s' pd)) s s'"
      "pool_pages (kernel_pool s') = pool_pages (kernel_pool s) \<union> tables s' pd" "tables s' pd - tables s pd \<subseteq> - allocated s"
      "\<exists>t. tables s' pd \<subseteq> insert t (tables s pd)"
proof (cases "pde_at s pd (pd_no va) = 0")
  case False
  then obtain t where t: "table s pd (pd_no va) = Some t" "pde_get_pt (pde_at s pd (pd_no va)) = Some t"
    using pd_okD(4) [OF assms(1,2) user_pd_no [OF assms(3)]] by blast
  have "lookup_page s pd va True = Some (t + 4 * pt_no va, s)"
    using False t(2) pd_okD(1) [OF assms(1,2)] assms(3) by (simp add: lookup_page_def pde_at_def)
  moreover have "tables s pd \<subseteq> pool_pages (kernel_pool s)" using assms(2) by (auto simp: pd_ok_def)
  ultimately show ?thesis using found [of t s] t(1) assms by auto
next
  case True
  let ?i = "pd_no va"
  note d = pd_okD [OF assms(1,2)]
  have z: "PAL_ZERO AND PAL_ASSERT = 0" "False \<longleftrightarrow> PAL_ZERO AND PAL_USER \<noteq> 0" "PAL_ZERO AND PAL_ZERO \<noteq> 0"
    by (simp_all add: PAL_ZERO_def PAL_ASSERT_def PAL_USER_def)
  from assms(1) z(1,2) show ?thesis
  proof (cases rule: palloc_get_page_ok [consumes 3, case_names none got])
    case none
    then have "lookup_page s pd va True = Some (NULL, s)" using True d(1) assms(3) by (simp add: lookup_page_def pde_at_def)
    then show ?thesis using that(1) palloc_get_page_none [OF assms(1) z(1,2) none] by blast
  next
    case (got p s1)
    have al: "p \<in> allocated s1" using got(6) by (simp add: allocated_pools [of _ False])
    note k = allocated_page(1) [OF got(2) al]
    obtain e where e: "pde_create p = Some e" "e \<noteq> 0" "bit e 0" "pde_get_pt e = Some p" by (rule pde_create_ok [OF k])
    define s2 where "s2 = s1\<lparr>ram := put32 (pd + 4 * ?i) e (ram s1)\<rparr>"
    have s2: "s2 = s1\<lparr>ram := put32 (pd + 4 * ?i) e (fill p PGSIZE 0 (ram s))\<rparr>" using got(8) z(3) by (simp add: s2_def)
    note q = add_table [OF assms(1,2) user_pd_no [OF assms(3)] True k got(5) e(4,2) s2]
    have kp: "pool_pages (kernel_pool s2) = insert p (pool_pages (kernel_pool s))" "user_pool s2 = user_pool s" "same_setup s s2"
      using got(6,7,9) by (simp_all add: s2_def pool_of_def same_setup_def)
    have tb: "tables s2 pd = insert p (tables s pd)"
      unfolding tables_def q(2) using True by (subst ran_map_upd) (auto simp: table_def)
    have tp: "tables s pd \<subseteq> pool_pages (kernel_pool s) - {pd}" using assms(2) by (simp add: pd_ok_def)
    have np: "p \<notin> pool_pages (kernel_pool s)" "p \<noteq> pd" using got(5) assms(2) by (auto simp: allocated_def pd_ok_def)
    have inj: "i = j" if "table s2 pd i = Some t" "table s2 pd j = Some t" for i j t
      using that d(5,7) np(1) unfolding q(2) by (auto split: if_splits)
    have "pd_ok s2 pd"
      unfolding pd_ok_def
    proof (intro conjI)
      show "\<forall>i j t. table s2 pd i = Some t \<longrightarrow> table s2 pd j = Some t \<longrightarrow> i = j" using inj by blast
      show "\<forall>i<768. pde_at s2 pd i \<noteq> 0 \<longrightarrow> bit (pde_at s2 pd i) 0 \<and> table s2 pd i \<noteq> None"
        using assms(2) e(3) q(1,2) unfolding pd_ok_def by simp
      show "\<forall>i j. bit (pte_at s2 pd i j) 0 \<longrightarrow> j < 1024 \<longrightarrow> pte_get_page (pte_at s2 pd i j) \<noteq> None"
        using assms(2) q(3) unfolding pd_ok_def by metis
    qed (use assms(2) tp np kp tb q(4) in \<open>auto simp: pd_ok_def frames_def same_setup_def\<close>)
    moreover have "lookup_page s pd va True = Some (p + 4 * pt_no va, s2)"
      using True d(1) assms(3) got(1,4) e(1,4) by (simp add: lookup_page_def pde_at_def s2_def get32_put32)
    moreover have "pools_ok s2" using got(2) by (simp add: s2_def pools_ok_ram)
    moreover have "pool_pages (kernel_pool s2) = pool_pages (kernel_pool s) \<union> tables s2 pd" using kp(1) tb tp by auto
    moreover have "changes (insert pd (tables s2 pd)) s s2"
      by (rule changesI [OF kp(3)]; use q(5) tb tables_base [OF assms(1,2)] allocated_base [OF got(2) al] same_setup_base [OF got(9)] in auto)
    ultimately show ?thesis using found [of p s2] q(2,4) kp(2) tb got(5) by auto
  qed
qed

section \<open>The operations on the mapping\<close>

lemma unmapped_entry:
  assumes "pools_ok s" "pd_ok s pd" "mapping s pd (va div 4096) = None"
  shows "\<not> bit (pte_at s pd (pd_no va) (pt_no va)) 0"
proof
  assume "bit (pte_at s pd (pd_no va) (pt_no va)) 0"
  from mapping_entry [OF assms(1,2) this page_index(2)] assms(3) show False by (metis option.discI page_index(1))
qed

lemma pagedir_set_page_ok:
  assumes "pools_ok s" "pd_ok s pd" "upage mod PGSIZE = 0" "is_user_vaddr upage" "k \<in> pool_pages (user_pool s)" "k \<notin> frames s pd"
    "mapping s pd (upage div 4096) = None"
  obtains (fail) "pagedir_set_page s pd upage k w = Some (False, s)" "spare False s = 0"
  | (ok) s' where "pagedir_set_page s pd upage k w = Some (True, s')" "pools_ok s'" "pd_ok s' pd"
      "mapping s' pd = (mapping s pd)(upage div 4096 \<mapsto> (k, w))" "user_pool s' = user_pool s" "changes (insert pd (tables s' pd)) s s'"
      "pool_pages (kernel_pool s') = pool_pages (kernel_pool s) \<union> tables s' pd" "tables s' pd - tables s pd \<subseteq> - allocated s"
      "\<exists>t. tables s' pd \<subseteq> insert t (tables s pd)"
proof -
  have al: "k \<in> allocated s" using assms(5) by (simp add: allocated_def)
  note ka = allocated_page [OF assms(1) al]
  note kk = kernel_page_addr [OF ka(1)]
  have "PHYS_BASE \<le> k" using ka(1) by (simp add: kernel_page_def)
  then have "k - PHYS_BASE < init_ram_pages s * 4096" using ka(2) by (simp add: PGSIZE_def)
  then have "(k - PHYS_BASE) div 4096 < init_ram_pages s" by (rule less_mult_imp_div_less)
  then have g: "drop_bit PTSHIFT (k - PHYS_BASE) < init_ram_pages s" by (simp add: PTSHIFT_def PGBITS_def drop_bit_eq_div)
  have call: "pagedir_set_page s pd upage k w = do {
     (pte, s) \<leftarrow> lookup_page s pd upage True;
     if pte \<noteq> NULL
     then do { ASSERT (get32 (ram s) pte AND PTE_P = 0); e \<leftarrow> pte_create_user k w; Some (True, s\<lparr>ram := put32 pte e (ram s)\<rparr>) }
     else Some (False, s) }"
    using assms(3,4) kk(1,2) g pd_okD(3) [OF assms(1,2)] by (simp add: pagedir_set_page_def pg_ofs_mod PGSIZE_def)
  show ?thesis
  proof (cases rule: lookup_create [OF assms(1,2,4), case_names none found])
    case none
    then show ?thesis using fail by (simp add: call)
  next
    case (found t s1)
    let ?i = "pd_no upage" and ?j = "pt_no upage"
    note d1 = pd_okD(6) [OF found(3,4,2)]
    obtain e where e: "pte_create_user k w = Some e" "bit e 0" "bit e 1 \<longleftrightarrow> w" "pte_get_page e = Some k"
      by (rule pte_create_user_ok [OF ka(1)])
    define s2 where "s2 = s1\<lparr>ram := put32 (t + 4 * ?j) e (ram s1)\<rparr>"
    note q = put_pte [OF found(3,4,2) page_index(2) s2_def]
    have m1: "mapping s1 pd (upage div 4096) = None" using found(5) assms(7) by simp
    have p0: "get32 (ram s1) (t + 4 * ?j) AND PTE_P = 0"
      using unmapped_entry [OF found(3,4) m1] found(2) flag_bits(1) by (auto simp: pte_at_def)
    have fresh: "map_option fst (mapping s1 pd v) \<noteq> Some k" for v using assms(6) found(5) by (force simp: frames_def ran_def)
    have ok2: "pd_ok s2 pd"
      by (rule pd_ok_put [OF found(3,4,2) page_index(2) s2_def]) (use e(4) assms(5) found(6) fresh in auto)
    have "pagedir_set_page s pd upage k w = Some (True, s2)"
      using found(1) d1 p0 e(1) by (simp add: call s2_def)
    moreover have "mapping s2 pd = (mapping s pd)(upage div 4096 \<mapsto> (k, w))"
      using q(4) found(5) e(2-4) page_index(1) [of upage] by (simp add: frame_def)
    moreover have tb: "tables s2 pd = tables s1 pd" using q(2) by (simp add: tables_def)
    moreover have "ram s2 x = ram s x" if "page_of x \<notin> insert pd (tables s1 pd)" for x
    proof -
      have "page_of x \<noteq> t" using that found(2) by (auto simp: tables_def ran_def)
      then show ?thesis using put32_page [of t ?j x] d1 page_index(2) changesD(2) [OF found(7) that] by (simp add: s2_def)
    qed
    then have "changes (insert pd (tables s2 pd)) s s2" unfolding tb
      by (rule changesI [rotated]; use changesD(1) [OF found(7)] tables_base [OF found(3,4)] same_setup_base [OF changesD(1) [OF found(7)]] in \<open>simp add: s2_def\<close>)
    ultimately show ?thesis using ok [of s2] found(3,6,8-10) ok2 by (simp add: s2_def pools_ok_ram)
  qed
qed

text \<open>Flags that do not change what the entry maps.\<close>

lemma frame_cong:
  assumes "\<And>n. n \<noteq> 5 \<Longrightarrow> n \<noteq> 6 \<Longrightarrow> bit e' n = bit e n"
  shows "frame e' = frame e" "pte_get_page e' = pte_get_page e"
proof -
  have "e' AND PTE_ADDR = e AND PTE_ADDR" by (rule bit_eqI) (use assms in \<open>auto simp: bit_and_iff bit_PTE_ADDR\<close>)
  then show "pte_get_page e' = pte_get_page e" by (simp only: pte_get_page_def)
  moreover have "bit e' 0 = bit e 0" "bit e' 1 = bit e 1" using assms by simp_all
  ultimately show "frame e' = frame e" by (simp only: frame_def)
qed

lemma invalidate_ok:
  assumes "pools_ok s" "pd_ok s pd" "cr3 s < 2 ^ 30"
  shows "invalidate_pagedir s pd = Some s"
proof -
  have "pd \<in> allocated s" using assms(2) by (simp add: pd_ok_def allocated_def)
  note k = kernel_page_addr [OF allocated_page(1) [OF assms(1) this]]
  have a: "active_pd s = Some (wrap32 (cr3 s + PHYS_BASE))" using assms(3) by (simp add: active_pd_def ptov_def PHYS_BASE_def)
  have "wrap32 (cr3 s + PHYS_BASE) = cr3 s + PHYS_BASE" using assms(3) by (simp add: wrap32_def PHYS_BASE_def)
  then show ?thesis using a k(2) pd_okD(1) [OF assms(1,2)] by (auto simp: invalidate_pagedir_def pagedir_activate_def)
qed

text \<open>Rewriting the entry of a page, when it has one.\<close>

lemma change_entry:
  assumes "pools_ok s" "pd_ok s pd" "table s pd (pd_no va) = Some t" "cr3 s < 2 ^ 30"
    "s' = s\<lparr>ram := put32 (t + 4 * pt_no va) e (ram s)\<rparr>" "bit e 0 \<Longrightarrow> bit (pte_at s pd (pd_no va) (pt_no va)) 0"
    "bit e 0 \<Longrightarrow> pte_get_page e = pte_get_page (pte_at s pd (pd_no va) (pt_no va))"
  shows "pools_ok s'" "pd_ok s' pd" "mapping s' pd = (mapping s pd)(va div 4096 := frame e)" "invalidate_pagedir s' pd = Some s'"
    "tables s' pd = tables s pd" "changes (tables s pd) s s'" "kernel_pool s' = kernel_pool s" "user_pool s' = user_pool s"
proof -
  let ?i = "pd_no va" and ?j = "pt_no va" and ?e = "pte_at s pd (pd_no va) (pt_no va)"
  have v: "?i * 1024 + ?j = va div 4096" by (rule page_index(1) [symmetric])
  show p: "pools_ok s'" using assms(1,5) by (simp add: pools_ok_ram)
  show ok: "pd_ok s' pd"
  proof (rule pd_ok_put [OF assms(1-3) page_index(2) assms(5)])
    assume b: "bit e 0"
    then have f: "bit ?e 0" "pte_get_page e = pte_get_page ?e" using assms(6,7) by blast+
    obtain k where k0: "pte_get_page ?e = Some k" "mapping s pd (?i * 1024 + ?j) = Some (k, bit ?e 1)"
      by (rule mapping_entry [OF assms(1,2) f(1) page_index(2)])
    note k = k0 [unfolded v]
    have "k \<in> pool_pages (user_pool s)" by (rule mapping_frame [OF assms(2) k(2)])
    moreover have "map_option fst (mapping s pd w) \<noteq> Some k" if "w \<noteq> va div 4096" for w
    proof
      assume "map_option fst (mapping s pd w) = Some k"
      then obtain c where "mapping s pd w = Some (k, c)" by auto
      then show False using mapping_frame(3) [OF assms(2) k(2)] that by blast
    qed
    ultimately show "\<exists>k. pte_get_page e = Some k \<and> k \<in> pool_pages (user_pool s) \<and> (\<forall>v. v \<noteq> ?i * 1024 + ?j \<longrightarrow> map_option fst (mapping s pd v) \<noteq> Some k)"
      using f(2) k(1) v by auto
  qed
  show "mapping s' pd = (mapping s pd)(va div 4096 := frame e)" using put_pte(4) [OF assms(1-3) page_index(2) assms(5)] v by simp
  show "invalidate_pagedir s' pd = Some s'" by (rule invalidate_ok [OF p ok]) (use assms(4,5) in simp)
  show "tables s' pd = tables s pd" using put_pte(2) [OF assms(1-3) page_index(2) assms(5)] by (simp add: tables_def)
  have "page_of x \<noteq> t" if "page_of x \<notin> tables s pd" for x using that assms(3) by (auto simp: tables_def ran_def)
  then show "changes (tables s pd) s s'"
    by (intro changesI; use put32_page [of t ?j] pd_okD(6) [OF assms(1-3)] page_index(2) tables_base [OF assms(1,2)] in \<open>simp add: assms(5)\<close>)
qed (simp_all add: assms(5))

lemma pagedir_clear_page_ok:
  assumes "pools_ok s" "pd_ok s pd" "upage mod PGSIZE = 0" "is_user_vaddr upage" "cr3 s < 2 ^ 30"
  obtains s' where "pagedir_clear_page s pd upage = Some s'" "pools_ok s'" "pd_ok s' pd" "mapping s' pd = (mapping s pd)(upage div 4096 := None)"
    "tables s' pd = tables s pd" "changes (tables s pd) s s'" "kernel_pool s' = kernel_pool s" "user_pool s' = user_pool s"
proof -
  let ?e = "pte_at s pd (pd_no upage) (pt_no upage)"
  have m: "mapping s pd (upage div 4096) = frame ?e" by (simp add: mapping_def vpage_slot)
  have u: "pg_ofs upage = 0" using assms(3) by (simp add: pg_ofs_mod PGSIZE_def)
  note ret = that
  have same: ?thesis if "pagedir_clear_page s pd upage = Some s" "\<not> bit ?e 0"
  proof -
    have "mapping s pd (upage div 4096) = None" using that(2) m by (simp only: frame_def if_False)
    then show ?thesis using ret [OF that(1) assms(1,2)] by (simp add: fun_upd_idem)
  qed
  show ?thesis
  proof (cases "table s pd (pd_no upage)")
    case None
    then show ?thesis using lookup_false [OF assms(1,2,4)] u assms(4) by (intro same) (simp_all add: pagedir_clear_page_def pte_at_def)
  next
    case (Some t)
    have t: "t + 4 * pt_no upage \<noteq> NULL" using pd_okD(6) [OF assms(1,2) Some] by simp
    have g: "get32 (ram s) (t + 4 * pt_no upage) = ?e" using Some by (simp add: pte_at_def)
    show ?thesis
    proof (cases "bit ?e 0")
      case False
      then show ?thesis using lookup_false [OF assms(1,2,4)] Some u assms(4) g by (intro same) (simp_all add: pagedir_clear_page_def flag_bits)
    next
      case True
      have b: "\<not> bit (?e AND NOT PTE_P) 0" unfolding bit_and_iff bit_not_iff bit_flags by blast
      define s' where "s' = s\<lparr>ram := put32 (t + 4 * pt_no upage) (?e AND NOT PTE_P) (ram s)\<rparr>"
      note q = change_entry [OF assms(1,2) Some assms(5) s'_def]
      have "frame (?e AND NOT PTE_P) = None" using b by (simp only: frame_def if_False)
      moreover have "pagedir_clear_page s pd upage = invalidate_pagedir s' pd"
        using lookup_false [OF assms(1,2,4)] Some u assms(4) g t True by (simp add: pagedir_clear_page_def flag_bits s'_def)
      ultimately show ?thesis using q b that [of s'] by simp
    qed
  qed
qed

lemma flag_entry:
  assumes "pools_ok s" "pd_ok s pd" "table s pd (pd_no va) = Some t" "cr3 s < 2 ^ 30" "s' = s\<lparr>ram := put32 (t + 4 * pt_no va) e (ram s)\<rparr>"
    "\<And>n. n \<noteq> 5 \<Longrightarrow> n \<noteq> 6 \<Longrightarrow> bit e n = bit (pte_at s pd (pd_no va) (pt_no va)) n"
  shows "pools_ok s'" "pd_ok s' pd" "mapping s' pd = mapping s pd" "invalidate_pagedir s' pd = Some s'" "tables s' pd = tables s pd"
    "changes (tables s pd) s s'" "kernel_pool s' = kernel_pool s" "user_pool s' = user_pool s"
proof -
  note c = frame_cong [OF assms(6)]
  have b: "bit e 0 = bit (pte_at s pd (pd_no va) (pt_no va)) 0" using assms(6) by simp
  note q = change_entry [OF assms(1-5)]
  have "frame e = mapping s pd (va div 4096)" using c(1) by (simp add: mapping_def vpage_slot)
  then show "mapping s' pd = mapping s pd" using q(3) b c(2) by (simp add: fun_upd_idem)
  show "pools_ok s'" "pd_ok s' pd" "invalidate_pagedir s' pd = Some s'" "tables s' pd = tables s pd"
    "changes (tables s pd) s s'" "kernel_pool s' = kernel_pool s" "user_pool s' = user_pool s"
    using q b c(2) by blast+
qed

lemma set_flag_ok:
  assumes "pools_ok s" "pd_ok s pd" "is_user_vaddr va" "cr3 s < 2 ^ 30" "F = PTE_D \<or> F = PTE_A"
    "r = do {
       (pte, s) \<leftarrow> lookup_page s pd va False;
       if pte \<noteq> NULL
       then if b then Some (s\<lparr>ram := put32 pte (get32 (ram s) pte OR F) (ram s)\<rparr>)
            else invalidate_pagedir (s\<lparr>ram := put32 pte (get32 (ram s) pte AND NOT F) (ram s)\<rparr>) pd
       else Some s }"
  obtains s' where "r = Some s'" "pools_ok s'" "pd_ok s' pd" "mapping s' pd = mapping s pd" "tables s' pd = tables s pd"
    "changes (tables s pd) s s'" "kernel_pool s' = kernel_pool s" "user_pool s' = user_pool s"
proof (cases "table s pd (pd_no va)")
  case None
  then show ?thesis using that [of s] lookup_false [OF assms(1-3)] assms(1,2,6) by simp
next
  case (Some t)
  let ?e = "get32 (ram s) (t + 4 * pt_no va)"
  define e where "e = (if b then ?e OR F else ?e AND NOT F)"
  define s' where "s' = s\<lparr>ram := put32 (t + 4 * pt_no va) e (ram s)\<rparr>"
  have g: "pte_at s pd (pd_no va) (pt_no va) = ?e" using Some by (simp add: pte_at_def)
  have f: "\<not> bit F n" if "n \<noteq> 5" "n \<noteq> 6" for n using assms(5) that bit_flags(4,5) by metis
  have "bit e n = bit (pte_at s pd (pd_no va) (pt_no va)) n" if "n \<noteq> 5" "n \<noteq> 6" for n
    unfolding g e_def using f [OF that] by (auto simp: bit_or_iff bit_and_iff bit_not_iff intro: impossible_bit dest: bit_imp_le_length)
  note q = flag_entry [OF assms(1,2) Some assms(4) s'_def this]
  have "t + 4 * pt_no va \<noteq> NULL" using pd_okD(6) [OF assms(1,2) Some] by simp
  then have "r = (if b then Some s' else invalidate_pagedir s' pd)" using lookup_false [OF assms(1-3)] Some assms(6) by (simp add: s'_def e_def)
  then show ?thesis using that [of s'] q by simp
qed

section \<open>Creation and destruction\<close>

text \<open>The directory of the kernel maps nothing below \<open>PHYS_BASE\<close>.\<close>

definition kernel_dir_ok :: "machine \<Rightarrow> bool" where
  "kernel_dir_ok s \<longleftrightarrow> init_page_dir s \<in> pool_pages (kernel_pool s) \<and> (\<forall>i<768. pde_at s (init_page_dir s) i = 0)"

lemma empty_dir:
  assumes "pd \<in> pool_pages (kernel_pool s)" "pd \<noteq> init_page_dir s" "\<forall>i<768. pde_at s pd i = 0"
  shows "pd_ok s pd" "mapping s pd = Map.empty" "tables s pd = {}"
proof -
  have t: "table s pd = Map.empty" using assms(3) by (auto simp: table_def fun_eq_iff)
  then show m: "mapping s pd = Map.empty" by (simp add: mapping_def pte_at_def fun_eq_iff)
  show "tables s pd = {}" using t by (simp add: tables_def)
  then show "pd_ok s pd" using assms t m by (simp add: pd_ok_def frames_def pte_at_def)
qed

lemma pagedir_create_ok:
  assumes "pools_ok s" "kernel_dir_ok s"
  obtains (none) "pagedir_create s = Some (NULL, s)"
  | (ok) pd s' where "pagedir_create s = Some (pd, s')" "pools_ok s'" "pd_ok s' pd" "mapping s' pd = Map.empty" "pd \<noteq> NULL" "pd \<notin> allocated s"
      "pool_pages (kernel_pool s') = insert pd (pool_pages (kernel_pool s))" "user_pool s' = user_pool s" "changes {pd} s s'" "tables s' pd = {}"
proof -
  have z: "0 AND PAL_ASSERT = 0" "False \<longleftrightarrow> 0 AND PAL_USER \<noteq> 0" "0 AND PAL_ZERO = 0" by simp_all
  from assms(1) z(1,2) show ?thesis
  proof (cases rule: palloc_get_page_ok [consumes 3, case_names none got])
    case none
    then show ?thesis using that(1) by (simp add: pagedir_create_def)
  next
    case (got pd s1)
    let ?bs = "map (\<lambda>i. ram s1 (init_page_dir s1 + i)) [0..<PGSIZE]"
    define s2 where "s2 = s1\<lparr>ram := put_bytes pd ?bs (ram s1)\<rparr>"
    have call: "pagedir_create s = Some (pd, s2)" using got(1,4) by (simp add: pagedir_create_def s2_def)
    have r1: "ram s1 = ram s" "init_page_dir s1 = init_page_dir s" using got(8,9) z(3) by (simp_all add: same_setup_def)
    have ip: "init_page_dir s \<in> allocated s" using assms(2) by (simp add: kernel_dir_ok_def allocated_def)
    then have im: "init_page_dir s mod PGSIZE = 0" using allocated_page(1) [OF assms(1)] by (simp add: kernel_page_def PGSIZE_def)
    have cp: "get32 (ram s2) (pd + 4 * i) = get32 (ram s) (init_page_dir s + 4 * i)" if "i < 1024" for i
    proof -
      have c: "ram s2 (pd + n) = ram s (init_page_dir s + n)" if "n < PGSIZE" for n using that r1 by (simp add: s2_def put_bytes_def)
      show ?thesis using c [of "4 * i"] c [of "4 * i + 1"] c [of "4 * i + 2"] c [of "4 * i + 3"] that by (simp add: get32_def PGSIZE_def add.assoc)
    qed
    have pd: "pd \<in> pool_pages (kernel_pool s2)" "pd \<noteq> init_page_dir s2" "pools_ok s2" "pool_pages (kernel_pool s2) = insert pd (pool_pages (kernel_pool s))"
      "user_pool s2 = user_pool s" "same_setup s s2"
      using got(2,5-7,9) ip r1 by (auto simp: s2_def pool_of_def same_setup_def pools_ok_ram)
    have "\<forall>i<768. pde_at s2 pd i = 0" using cp assms(2) by (simp add: pde_at_def kernel_dir_ok_def)
    note e = empty_dir [OF pd(1,2) this]
    have "ram s2 x = ram s x" if "page_of x \<noteq> pd" for x
    proof -
      from that have "x < pd \<or> pd + PGSIZE \<le> x" using page_of_in [OF got(3), of x] by linarith
      then have "put_bytes pd ?bs (ram s1) x = ram s1 x" by (intro put_bytes_other) simp
      then show ?thesis using r1 by (simp add: s2_def)
    qed
    then have "changes {pd} s s2"
      by (rule changesI [OF pd(6)]; use allocated_base [OF pd(3), of pd] same_setup_base [OF pd(6)] pd(1) in \<open>simp add: allocated_def\<close>)
    then show ?thesis using that(2) [OF call pd(3) e(1,2) got(4,5) pd(4,5) _ e(3)] by blast
  qed
qed

text \<open>Freeing what a table maps; \<open>E j\<close> is the entry of slot \<open>j\<close>.\<close>

definition entry_pages :: "nat set \<Rightarrow> (nat \<Rightarrow> u32) \<Rightarrow> nat set" where
  "entry_pages J E = {k. \<exists>j\<in>J. bit (E j) 0 \<and> pte_get_page (E j) = Some k}"

lemma free_ptes_ok:
  assumes "pools_ok s" "t \<in> pool_pages (kernel_pool s)" "distinct js" "set js \<subseteq> {..<1024}" "\<And>j. j \<in> set js \<Longrightarrow> get32 (ram s) (t + 4 * j) = E j"
    "\<And>j. j \<in> set js \<Longrightarrow> bit (E j) 0 \<Longrightarrow> \<exists>k. pte_get_page (E j) = Some k \<and> k \<in> pool_pages (user_pool s)"
    "\<And>i j k. i \<in> set js \<Longrightarrow> j \<in> set js \<Longrightarrow> bit (E i) 0 \<Longrightarrow> bit (E j) 0 \<Longrightarrow> pte_get_page (E i) = Some k \<Longrightarrow> pte_get_page (E j) = Some k \<Longrightarrow> i = j"
  shows "\<exists>s'. free_ptes js t s = Some s' \<and> pools_ok s' \<and> pool_pages (user_pool s') = pool_pages (user_pool s) - entry_pages (set js) E \<and>
    kernel_pool s' = kernel_pool s \<and> same_setup s s' \<and> (\<forall>x. page_of x \<notin> entry_pages (set js) E \<longrightarrow> ram s' x = ram s x)"
  using assms
proof (induction js arbitrary: s)
  case Nil
  then show ?case by (simp add: entry_pages_def same_setup_def)
next
  case (Cons j js)
  have e: "get32 (ram s) (t + 4 * j) = E j" using Cons.prems(5) by simp
  show ?case
  proof (cases "bit (E j) 0")
    case False
    then have "entry_pages (set (j # js)) E = entry_pages (set js) E" by (auto simp: entry_pages_def)
    moreover have "free_ptes (j # js) t s = free_ptes js t s" using False e by (simp add: flag_bits)
    moreover have "\<exists>s'. free_ptes js t s = Some s' \<and> pools_ok s' \<and> pool_pages (user_pool s') = pool_pages (user_pool s) - entry_pages (set js) E \<and>
      kernel_pool s' = kernel_pool s \<and> same_setup s s' \<and> (\<forall>x. page_of x \<notin> entry_pages (set js) E \<longrightarrow> ram s' x = ram s x)"
      using Cons.prems by (intro Cons.IH) (auto dest: Cons.prems(7))
    ultimately show ?thesis by simp
  next
    case True
    obtain k where k: "pte_get_page (E j) = Some k" "k \<in> pool_pages (pool_of True s)" using Cons.prems(6) [of j] True by (auto simp: pool_of_def)
    obtain s1 where s1: "palloc_free_page k s = Some s1" "pools_ok s1" "pool_pages (pool_of True s1) = pool_pages (pool_of True s) - {k}"
        "pool_of (\<not> True) s1 = pool_of (\<not> True) s" "ram s1 = fill k PGSIZE 0xcc (ram s)" "same_setup s s1"
      by (rule palloc_free_page_ok [OF Cons.prems(1) k(2)])
    have ka: "k mod PGSIZE = 0" using allocated_page(1) [OF Cons.prems(1), of k] k(2) by (simp add: allocated_def pool_of_def kernel_page_def PGSIZE_def)
    have tk: "t \<noteq> k" "t mod PGSIZE = 0"
      using pools_apart [OF Cons.prems(1,2), of k] k(2) allocated_page(1) [OF Cons.prems(1), of t] Cons.prems(2)
      by (auto simp: pool_of_def allocated_def kernel_page_def PGSIZE_def)
    have r: "ram s1 x = ram s x" if "page_of x \<noteq> k" for x using fill_page [OF ka that] s1(5) by simp
    have g: "get32 (ram s1) (t + 4 * i) = E i" if "i \<in> set js" for i
    proof -
      have "i < 1024" using that Cons.prems(4) by auto
      then have "get32 (ram s1) (t + 4 * i) = get32 (ram s) (t + 4 * i)" using r tk by (intro get32_page_cong) auto
      then show ?thesis using Cons.prems(5) that by simp
    qed
    have nk: "pte_get_page (E i) \<noteq> Some k" if "i \<in> set js" "bit (E i) 0" for i
      using Cons.prems(7) [of i j k] Cons.prems(3) that True k(1) by auto
    have ep: "entry_pages (set (j # js)) E = insert k (entry_pages (set js) E)" using True k(1) by (auto simp: entry_pages_def)
    have "\<exists>s'. free_ptes js t s1 = Some s' \<and> pools_ok s' \<and> pool_pages (user_pool s') = pool_pages (user_pool s1) - entry_pages (set js) E \<and>
      kernel_pool s' = kernel_pool s1 \<and> same_setup s1 s' \<and> (\<forall>x. page_of x \<notin> entry_pages (set js) E \<longrightarrow> ram s' x = ram s1 x)"
    proof (rule Cons.IH [OF s1(2)])
      show "t \<in> pool_pages (kernel_pool s1)" using s1(4) Cons.prems(2) by (simp add: pool_of_def)
      show "\<exists>k. pte_get_page (E i) = Some k \<and> k \<in> pool_pages (user_pool s1)" if "i \<in> set js" "bit (E i) 0" for i
        using Cons.prems(6) [of i] nk [OF that] that s1(3) by (auto simp: pool_of_def)
    qed (use Cons.prems g in auto)
    then obtain s' where s': "free_ptes js t s1 = Some s'" "pools_ok s'" "pool_pages (user_pool s') = pool_pages (user_pool s1) - entry_pages (set js) E"
      "kernel_pool s' = kernel_pool s1" "same_setup s1 s'" "\<forall>x. page_of x \<notin> entry_pages (set js) E \<longrightarrow> ram s' x = ram s1 x" by blast
    have "free_ptes (j # js) t s = Some s'" using True e k(1) s1(1) s'(1) by (simp add: flag_bits)
    moreover have "pool_pages (user_pool s') = pool_pages (user_pool s) - entry_pages (set (j # js)) E"
      using s'(3) s1(3) ep by (auto simp: pool_of_def)
    moreover have "kernel_pool s' = kernel_pool s" "same_setup s s'" using s'(4,5) s1(4,6) by (simp_all add: pool_of_def same_setup_def)
    ultimately show ?thesis using s'(2,6) r ep by auto
  qed
qed

text \<open>The part of a directory that is left to free: the entries \<open>I\<close>.\<close>

definition dir_pages :: "nat set \<Rightarrow> machine \<Rightarrow> nat \<Rightarrow> nat set" where
  "dir_pages I s pd = {k. \<exists>i\<in>I. \<exists>j<1024. bit (pte_at s pd i j) 0 \<and> pte_get_page (pte_at s pd i j) = Some k}"

definition dir_part :: "nat set \<Rightarrow> machine \<Rightarrow> nat \<Rightarrow> bool" where
  "dir_part I s pd \<longleftrightarrow> pd \<in> pool_pages (kernel_pool s) \<and> I \<subseteq> {..<768} \<and>
     (\<forall>i\<in>I. pde_at s pd i \<noteq> 0 \<longrightarrow> bit (pde_at s pd i) 0 \<and> table s pd i \<noteq> None) \<and>
     (\<forall>i\<in>I. \<forall>t. table s pd i = Some t \<longrightarrow> t \<in> pool_pages (kernel_pool s) - {pd} \<and> (\<forall>j\<in>I. table s pd j = Some t \<longrightarrow> i = j)) \<and>
     (\<forall>i\<in>I. \<forall>j<1024. bit (pte_at s pd i j) 0 \<longrightarrow> (\<exists>k\<in>pool_pages (user_pool s). pte_get_page (pte_at s pd i j) = Some k \<and>
        (\<forall>i'\<in>I. \<forall>j'<1024. bit (pte_at s pd i' j') 0 \<longrightarrow> pte_get_page (pte_at s pd i' j') = Some k \<longrightarrow> i' = i \<and> j' = j)))"

lemma dir_partD:
  assumes "dir_part I s pd"
  shows "pd \<in> pool_pages (kernel_pool s)" "I \<subseteq> {..<768}"
    "\<forall>i\<in>I. pde_at s pd i \<noteq> 0 \<longrightarrow> bit (pde_at s pd i) 0 \<and> table s pd i \<noteq> None"
    "\<forall>i\<in>I. \<forall>t. table s pd i = Some t \<longrightarrow> t \<in> pool_pages (kernel_pool s) - {pd} \<and> (\<forall>j\<in>I. table s pd j = Some t \<longrightarrow> i = j)"
    "\<forall>i\<in>I. \<forall>j<1024. bit (pte_at s pd i j) 0 \<longrightarrow> (\<exists>k\<in>pool_pages (user_pool s). pte_get_page (pte_at s pd i j) = Some k \<and>
        (\<forall>i'\<in>I. \<forall>j'<1024. bit (pte_at s pd i' j') 0 \<longrightarrow> pte_get_page (pte_at s pd i' j') = Some k \<longrightarrow> i' = i \<and> j' = j))"
  using assms unfolding dir_part_def by - (elim conjE, assumption)+

lemma dir_part_mono:
  assumes "dir_part I s pd" "J \<subseteq> I"
  shows "dir_part J s pd"
proof -
  note W = dir_partD [OF assms(1)]
  have "\<exists>k\<in>pool_pages (user_pool s). pte_get_page (pte_at s pd i j) = Some k \<and>
        (\<forall>i'\<in>J. \<forall>j'<1024. bit (pte_at s pd i' j') 0 \<longrightarrow> pte_get_page (pte_at s pd i' j') = Some k \<longrightarrow> i' = i \<and> j' = j)"
    if "i \<in> J" "j < 1024" "bit (pte_at s pd i j) 0" for i j
    using W(5) [THEN bspec, OF subsetD [OF assms(2) that(1)], THEN spec, THEN mp, OF that(2), THEN mp, OF that(3)] assms(2) by (meson subsetD)
  moreover have "J \<subseteq> {..<768}" "\<forall>i\<in>J. pde_at s pd i \<noteq> 0 \<longrightarrow> bit (pde_at s pd i) 0 \<and> table s pd i \<noteq> None"
    "\<forall>i\<in>J. \<forall>t. table s pd i = Some t \<longrightarrow> t \<in> pool_pages (kernel_pool s) - {pd} \<and> (\<forall>j\<in>J. table s pd j = Some t \<longrightarrow> i = j)"
    using W(2-4) assms(2) by blast+
  ultimately show ?thesis using W(1) unfolding dir_part_def by blast
qed

lemma dir_part_whole:
  assumes "pools_ok s" "pd_ok s pd"
  shows "dir_part {..<768} s pd" "dir_pages {..<768} s pd = frames s pd"
proof -
  have m: "bit (pte_at s pd i j) 0 \<and> pte_get_page (pte_at s pd i j) = Some k \<longleftrightarrow> (\<exists>w. mapping s pd (i * 1024 + j) = Some (k, w))"
    if "j < 1024" for i j k
    using slot_split [OF that] by (auto simp: mapping_def frame_def)
  have e: "\<exists>k\<in>pool_pages (user_pool s). pte_get_page (pte_at s pd i j) = Some k \<and>
      (\<forall>i'\<in>{..<768}. \<forall>j'<1024. bit (pte_at s pd i' j') 0 \<longrightarrow> pte_get_page (pte_at s pd i' j') = Some k \<longrightarrow> i' = i \<and> j' = j)"
    if b: "bit (pte_at s pd i j) 0" and j: "j < 1024" for i j
  proof -
    obtain k where k: "pte_get_page (pte_at s pd i j) = Some k" "mapping s pd (i * 1024 + j) = Some (k, bit (pte_at s pd i j) 1)"
      by (rule mapping_entry [OF assms b j])
    have "i' = i \<and> j' = j" if q: "j' < 1024" "bit (pte_at s pd i' j') 0" "pte_get_page (pte_at s pd i' j') = Some k" for i' j'
    proof -
      obtain w where "mapping s pd (i' * 1024 + j') = Some (k, w)" using m [OF q(1), of i' k] q(2,3) by blast
      then have "i' * 1024 + j' = i * 1024 + j" by (rule mapping_frame(3) [OF assms(2) k(2)])
      then show ?thesis using slot_split [OF q(1), of i'] slot_split [OF j, of i] by metis
    qed
    then show ?thesis using mapping_frame(1) [OF assms(2) k(2)] k(1) by blast
  qed
  have t: "t \<in> pool_pages (kernel_pool s) - {pd}" if "table s pd i = Some t" for i t
    using pd_okD(5,6) [OF assms that] by blast
  show "dir_part {..<768} s pd"
    unfolding dir_part_def using assms(2) e t pd_okD(7) [OF assms] by (auto simp: pd_ok_def)
  show "dir_pages {..<768} s pd = frames s pd"
  proof (rule set_eqI)
    fix k
    have "(\<exists>v w. mapping s pd v = Some (k, w)) \<longleftrightarrow> (\<exists>i<768. \<exists>j<1024. \<exists>w. mapping s pd (i * 1024 + j) = Some (k, w))"
    proof
      assume "\<exists>v w. mapping s pd v = Some (k, w)"
      then obtain v w where v: "mapping s pd v = Some (k, w)" by blast
      then have "table s pd (v div 1024) \<noteq> None" by (auto simp: mapping_def pte_at_def split: option.splits)
      then have "v div 1024 < 768" using table_index by blast
      moreover have "v = v div 1024 * 1024 + v mod 1024" "v mod 1024 < 1024" by simp_all
      ultimately show "\<exists>i<768. \<exists>j<1024. \<exists>w. mapping s pd (i * 1024 + j) = Some (k, w)" using v by metis
    qed blast
    moreover have "k \<in> dir_pages {..<768} s pd \<longleftrightarrow> (\<exists>i<768. \<exists>j<1024. \<exists>w. mapping s pd (i * 1024 + j) = Some (k, w))"
      unfolding dir_pages_def mem_Collect_eq Bex_def lessThan_iff using m [where k = k] by blast
    ultimately show "k \<in> dir_pages {..<768} s pd \<longleftrightarrow> k \<in> frames s pd" by (simp only: in_frames)
  qed
qed

lemma dir_part_step:
  assumes "pools_ok s" "dir_part (insert i I) s pd" "i \<notin> I" "table s pd i = Some t"
    "pools_ok s'" "pool_pages (user_pool s') = pool_pages (user_pool s) - dir_pages {i} s pd" "pool_pages (kernel_pool s') = pool_pages (kernel_pool s) - {t}"
    "\<And>x. page_of x \<notin> insert t (dir_pages {i} s pd) \<Longrightarrow> ram s' x = ram s x"
  shows "dir_part I s' pd" "dir_pages I s' pd = dir_pages I s pd" "ran (table s' pd |` I) = ran (table s pd |` I)"
proof -
  note W = dir_partD [OF assms(2)]
  have D: "pd \<in> pool_pages (kernel_pool s)" "insert i I \<subseteq> {..<768}"
    "\<And>l. l \<in> insert i I \<Longrightarrow> pde_at s pd l \<noteq> 0 \<Longrightarrow> bit (pde_at s pd l) 0 \<and> table s pd l \<noteq> None"
    "\<And>l u. l \<in> insert i I \<Longrightarrow> table s pd l = Some u \<Longrightarrow> u \<in> pool_pages (kernel_pool s) - {pd} \<and> (\<forall>j\<in>insert i I. table s pd j = Some u \<longrightarrow> l = j)"
    using W(1-4) by blast+
  have D5: "\<exists>k\<in>pool_pages (user_pool s). pte_get_page (pte_at s pd l j) = Some k \<and>
        (\<forall>i'\<in>insert i I. \<forall>j'<1024. bit (pte_at s pd i' j') 0 \<longrightarrow> pte_get_page (pte_at s pd i' j') = Some k \<longrightarrow> i' = l \<and> j' = j)"
    if "l \<in> insert i I" "j < 1024" "bit (pte_at s pd l j) 0" for l j
    by (rule W(5) [THEN bspec, OF that(1), THEN spec, THEN mp, OF that(2), THEN mp, OF that(3)])
  have ua: "dir_pages {i} s pd \<subseteq> pool_pages (user_pool s)"
  proof
    fix k assume "k \<in> dir_pages {i} s pd"
    then obtain j where j: "j < 1024" "bit (pte_at s pd i j) 0" "pte_get_page (pte_at s pd i j) = Some k" by (auto simp: dir_pages_def)
    show "k \<in> pool_pages (user_pool s)" using D5 [OF insertI1 j(1,2)] j(3) by auto
  qed
  have k: "a mod PGSIZE = 0 \<and> a \<notin> dir_pages {i} s pd" if "a \<in> pool_pages (kernel_pool s)" for a
    using that ua pools_disjoint [OF assms(1), of True] allocated_page(1) [OF assms(1), of a]
    by (auto simp: pool_of_def allocated_def kernel_page_def PGSIZE_def)
  have r: "ram s' x = ram s x" if "page_of x \<in> pool_pages (kernel_pool s)" "page_of x \<noteq> t" for x using that k assms(8) by blast
  have tp: "t \<noteq> pd" using D(4) [OF _ assms(4)] by simp
  have pde: "pde_at s' pd l = pde_at s pd l" if "l < 768" for l
    unfolding pde_at_def using k [OF D(1)] r D(1) tp that by (intro get32_page_cong) auto
  then have tb: "table s' pd = table s pd" by (auto simp: table_def fun_eq_iff)
  have pte: "pte_at s' pd l j = pte_at s pd l j" if "l \<in> I" "j < 1024" for l j
  proof (cases "table s pd l")
    case (Some u)
    have u: "u \<in> pool_pages (kernel_pool s)" "u \<noteq> t" using D(4) [of l u] that(1) Some assms(3,4) by auto
    then have "get32 (ram s') (u + 4 * j) = get32 (ram s) (u + 4 * j)" using k [OF u(1)] r that(2) by (intro get32_page_cong) auto
    then show ?thesis using Some tb by (simp add: pte_at_def)
  qed (simp add: pte_at_def tb)
  show "dir_pages I s' pd = dir_pages I s pd" by (simp add: dir_pages_def pte cong: conj_cong bex_cong)
  show "ran (table s' pd |` I) = ran (table s pd |` I)" by (simp add: tb)
  have F: "\<exists>k\<in>pool_pages (user_pool s'). pte_get_page (pte_at s' pd l j) = Some k \<and>
        (\<forall>i'\<in>I. \<forall>j'<1024. bit (pte_at s' pd i' j') 0 \<longrightarrow> pte_get_page (pte_at s' pd i' j') = Some k \<longrightarrow> i' = l \<and> j' = j)"
    if l: "l \<in> I" "j < 1024" "bit (pte_at s' pd l j) 0" for l j
  proof -
    have b: "bit (pte_at s pd l j) 0" using l pte by simp
    obtain k where k: "k \<in> pool_pages (user_pool s)" "pte_get_page (pte_at s pd l j) = Some k"
      "\<forall>i'\<in>insert i I. \<forall>j'<1024. bit (pte_at s pd i' j') 0 \<longrightarrow> pte_get_page (pte_at s pd i' j') = Some k \<longrightarrow> i' = l \<and> j' = j"
      using D5 [OF _ l(2) b] l(1) by blast
    have "k \<notin> dir_pages {i} s pd" using k(3) l(1) assms(3) by (auto simp: dir_pages_def)
    then have "k \<in> pool_pages (user_pool s')" using k(1) assms(6) by simp
    moreover have "pte_get_page (pte_at s' pd l j) = Some k" using k(2) pte [OF l(1,2)] by simp
    moreover have "\<forall>i'\<in>I. \<forall>j'<1024. bit (pte_at s' pd i' j') 0 \<longrightarrow> pte_get_page (pte_at s' pd i' j') = Some k \<longrightarrow> i' = l \<and> j' = j"
      using k(3) pte by simp
    ultimately show ?thesis by blast
  qed
  have T: "u \<in> pool_pages (kernel_pool s') - {pd} \<and> (\<forall>j\<in>I. table s' pd j = Some u \<longrightarrow> l = j)" if l: "l \<in> I" "table s' pd l = Some u" for l u
  proof -
    have c: "u \<in> pool_pages (kernel_pool s) - {pd} \<and> (\<forall>j\<in>insert i I. table s pd j = Some u \<longrightarrow> l = j)" using D(4) [of l u] l unfolding tb by blast
    then have "u \<noteq> t" using assms(3,4) l(1) by blast
    then show ?thesis using c assms(7) tb by simp
  qed
  have "pd \<in> pool_pages (kernel_pool s')" "I \<subseteq> {..<768}" using D(1,2) tp assms(7) by auto
  moreover have "\<forall>l\<in>I. pde_at s' pd l \<noteq> 0 \<longrightarrow> bit (pde_at s' pd l) 0 \<and> table s' pd l \<noteq> None"
    using D(2,3) pde tb by (simp add: subset_iff)
  ultimately show "dir_part I s' pd" unfolding dir_part_def using T F by blast
qed

lemma free_pdes_ok:
  "pools_ok s \<Longrightarrow> distinct is \<Longrightarrow> dir_part (set is) s pd \<Longrightarrow>
   \<exists>s'. free_pdes is pd s = Some s' \<and> pools_ok s' \<and> pool_pages (user_pool s') = pool_pages (user_pool s) - dir_pages (set is) s pd \<and>
     pool_pages (kernel_pool s') = pool_pages (kernel_pool s) - ran (table s pd |` set is) \<and>
     changes (ran (table s pd |` set is) \<union> dir_pages (set is) s pd) s s'"
proof (induction "is" arbitrary: s)
  case Nil
  then show ?case by (simp add: dir_pages_def)
next
  case (Cons i js)
  note W = dir_partD [OF Cons.prems(3)]
  have i: "i < 768" "i \<notin> set js" using W(2) Cons.prems(2) by simp_all
  have pages: "dir_pages (set (i # js)) s pd = dir_pages {i} s pd \<union> dir_pages (set js) s pd" by (auto simp: dir_pages_def)
  show ?case
  proof (cases "pde_at s pd i = 0")
    case True
    then have t: "table s pd i = None" by (simp add: table_def)
    then have e: "dir_pages {i} s pd = {}" by (simp add: dir_pages_def pte_at_def)
    have r: "ran (table s pd |` set (i # js)) = ran (table s pd |` set js)" 
    proof -
      have "table s pd |` set (i # js) = table s pd |` set js" using t by (auto simp: restrict_map_def fun_eq_iff)
      then show ?thesis by simp
    qed
    have "dir_part (set js) s pd" by (rule dir_part_mono [OF Cons.prems(3)]) auto
    moreover have "free_pdes (i # js) pd s = free_pdes js pd s" using True by (simp add: pde_at_def)
    ultimately show ?thesis using Cons.IH [OF Cons.prems(1)] Cons.prems(2) pages e r by simp
  next
    case False
    then obtain t where t: "table s pd i = Some t" "bit (pde_at s pd i) 0" using W(3) by auto
    then have pt: "pde_get_pt (pde_at s pd i) = Some t" using False i(1) by (simp add: table_def)
    have tk: "t \<in> pool_pages (kernel_pool s)" "t \<noteq> pd" using W(4) t(1) by auto
    let ?E = "\<lambda>j. pte_at s pd i j"
    have js: "distinct [0..<PGSIZE div 4]" "set [0..<PGSIZE div 4] = {..<1024}" by (auto simp: PGSIZE_def)
    have un: "\<exists>k\<in>pool_pages (user_pool s). pte_get_page (?E j) = Some k \<and>
        (\<forall>i'\<in>set (i # js). \<forall>j'<1024. bit (pte_at s pd i' j') 0 \<longrightarrow> pte_get_page (pte_at s pd i' j') = Some k \<longrightarrow> i' = i \<and> j' = j)"
      if "j < 1024" "bit (?E j) 0" for j
      by (rule W(5) [THEN bspec, OF list.set_intros(1), THEN spec, THEN mp, OF that(1), THEN mp, OF that(2)])
    have "\<exists>s1. free_ptes [0..<PGSIZE div 4] t s = Some s1 \<and> pools_ok s1 \<and>
      pool_pages (user_pool s1) = pool_pages (user_pool s) - entry_pages (set [0..<PGSIZE div 4]) ?E \<and>
      kernel_pool s1 = kernel_pool s \<and> same_setup s s1 \<and> (\<forall>x. page_of x \<notin> entry_pages (set [0..<PGSIZE div 4]) ?E \<longrightarrow> ram s1 x = ram s x)"
    proof (rule free_ptes_ok [OF Cons.prems(1) tk(1) js(1)])
      show "get32 (ram s) (t + 4 * j) = ?E j" for j using t(1) by (simp add: pte_at_def)
      show "\<exists>k. pte_get_page (?E j) = Some k \<and> k \<in> pool_pages (user_pool s)" if q: "j \<in> set [0..<PGSIZE div 4]" "bit (?E j) 0" for j
      proof -
        have "j < 1024" using q(1) unfolding js(2) by simp
        from un [OF this q(2)] show ?thesis by blast
      qed
      show "a = b" if q: "a \<in> set [0..<PGSIZE div 4]" "b \<in> set [0..<PGSIZE div 4]" "bit (?E a) 0" "bit (?E b) 0"
          "pte_get_page (?E a) = Some k" "pte_get_page (?E b) = Some k" for a b k
      proof -
        have "a < 1024" "b < 1024" using q(1,2) unfolding js(2) by simp_all
        then show ?thesis using un [OF _ q(4)] q(3,5,6) by (metis list.set_intros(1) option.inject)
      qed
    qed (use js in auto)
    moreover have "entry_pages (set [0..<PGSIZE div 4]) ?E = dir_pages {i} s pd" unfolding js(2) by (auto simp: entry_pages_def dir_pages_def)
    ultimately obtain s1 where s1: "free_ptes [0..<PGSIZE div 4] t s = Some s1" "pools_ok s1"
      "pool_pages (user_pool s1) = pool_pages (user_pool s) - dir_pages {i} s pd" "kernel_pool s1 = kernel_pool s" "same_setup s s1"
      "\<forall>x. page_of x \<notin> dir_pages {i} s pd \<longrightarrow> ram s1 x = ram s x" by auto
    have tk1: "t \<in> pool_pages (pool_of False s1)" using tk(1) s1(4) by (simp add: pool_of_def)
    obtain s2 where s2: "palloc_free_page t s1 = Some s2" "pools_ok s2" "pool_pages (pool_of False s2) = pool_pages (pool_of False s1) - {t}"
        "pool_of (\<not> False) s2 = pool_of (\<not> False) s1" "ram s2 = fill t PGSIZE 0xcc (ram s1)" "same_setup s1 s2"
      by (rule palloc_free_page_ok [OF s1(2) tk1])
    have tm: "t mod PGSIZE = 0" using allocated_page(1) [OF Cons.prems(1), of t] tk(1) by (simp add: allocated_def kernel_page_def PGSIZE_def)
    have r2: "ram s2 x = ram s x" if "page_of x \<notin> insert t (dir_pages {i} s pd)" for x
      using fill_page [OF tm, of x] that s2(5) s1(6) by simp
    have u2: "pool_pages (user_pool s2) = pool_pages (user_pool s) - dir_pages {i} s pd" "pool_pages (kernel_pool s2) = pool_pages (kernel_pool s) - {t}"
      using s2(3,4) s1(3,4) by (simp_all add: pool_of_def)
    have dp: "dir_part (insert i (set js)) s pd" using Cons.prems(3) by simp
    note q = dir_part_step [OF Cons.prems(1) dp i(2) t(1) s2(2) u2 r2]
    obtain s' where s': "free_pdes js pd s2 = Some s'" "pools_ok s'" "pool_pages (user_pool s') = pool_pages (user_pool s2) - dir_pages (set js) s2 pd"
        "pool_pages (kernel_pool s') = pool_pages (kernel_pool s2) - ran (table s2 pd |` set js)"
        "changes (ran (table s2 pd |` set js) \<union> dir_pages (set js) s2 pd) s2 s'"
      using Cons.IH [OF s2(2) _ q(1)] Cons.prems(2) by auto
    have "ran (table s pd |` set (i # js)) = insert t (ran (table s pd |` set js))"
    proof -
      have r: "ran (m |` S) = {b. \<exists>a\<in>S. m a = Some b}" for m :: "nat \<Rightarrow> nat option" and S by (auto simp: ran_def restrict_map_def split: if_splits)
      show ?thesis unfolding r using t(1) by auto
    qed
    moreover have "free_pdes (i # js) pd s = Some s'"
      using t(2) pt s1(1) s2(1) s'(1) by (simp add: pde_at_def flag_bits Let_def)
    moreover have ds: "dir_pages {i} s pd \<subseteq> pool_pages (user_pool s)"
    proof
      fix k assume "k \<in> dir_pages {i} s pd"
      then obtain j where j: "j < 1024" "bit (?E j) 0" "pte_get_page (?E j) = Some k" by (auto simp: dir_pages_def)
      from un [OF j(1,2)] j(3) show "k \<in> pool_pages (user_pool s)" by auto
    qed
    have "changes (insert t (dir_pages {i} s pd)) s s2"
      by (rule changesI [OF same_setup_trans [OF s1(5) s2(6)] r2 allocated_base [OF Cons.prems(1)]]) (use ds tk(1) in \<open>auto simp: allocated_def\<close>)
    note c = changes_trans [OF this s'(5)]
    have "dir_pages (set js) s2 pd = dir_pages (set js) s pd" "ran (table s2 pd |` set js) = ran (table s pd |` set js)"
      using q(2,3) by blast+
    with c have "changes (insert t (dir_pages {i} s pd) \<union> (ran (table s pd |` set js) \<union> dir_pages (set js) s pd)) s s'" by simp
    then have "changes (insert t (ran (table s pd |` set js)) \<union> dir_pages (set (i # js)) s pd) s s'"
      by (rule changes_mono) (use pages in auto)
    ultimately show ?thesis using s'(2-4) u2 q(2,3) pages by (auto simp: set_diff_eq)
  qed
qed

lemma pagedir_destroy_ok:
  assumes "pools_ok s" "pd_ok s pd"
  obtains s' where "pagedir_destroy s pd = Some s'" "pools_ok s'" "allocated s' = allocated s - (insert pd (tables s pd) \<union> frames s pd)"
    "pool_pages (kernel_pool s') = pool_pages (kernel_pool s) - insert pd (tables s pd)" "pool_pages (user_pool s') = pool_pages (user_pool s) - frames s pd"
    "changes (insert pd (tables s pd) \<union> frames s pd) s s'"
proof -
  note d = pd_okD [OF assms] and w = dir_part_whole [OF assms]
  have n: "pd_no PHYS_BASE = 768" by (simp add: pd_no_div PHYS_BASE_def)
  have l: "set [0..<768 :: nat] = {..<768}" unfolding set_upt by auto
  have "table s pd |` {..<768} = table s pd" by (auto simp: restrict_map_def fun_eq_iff table_def)
  then have rt: "ran (table s pd |` {..<768}) = tables s pd" by (simp add: tables_def)
  obtain s1 where s1: "free_pdes [0..<768] pd s = Some s1" "pools_ok s1" "pool_pages (user_pool s1) = pool_pages (user_pool s) - frames s pd"
      "pool_pages (kernel_pool s1) = pool_pages (kernel_pool s) - tables s pd" "changes (tables s pd \<union> frames s pd) s s1"
    using free_pdes_ok [OF assms(1) distinct_upt, of 0 768 pd] w unfolding l rt by auto
  have pdp: "pd \<in> pool_pages (pool_of False s1)" using assms(2) s1(4) by (auto simp: pool_of_def pd_ok_def)
  obtain s2 where s2: "palloc_free_page pd s1 = Some s2" "pools_ok s2" "pool_pages (pool_of False s2) = pool_pages (pool_of False s1) - {pd}"
      "pool_of (\<not> False) s2 = pool_of (\<not> False) s1" "ram s2 = fill pd PGSIZE 0xcc (ram s1)" "same_setup s1 s2"
    by (rule palloc_free_page_ok [OF s1(2) pdp])
  have "changes {pd} s1 s2"
    by (rule changesI [OF s2(6)]; use s2(5) fill_page [OF d(2)] allocated_base [OF s1(2), of pd] pdp in \<open>simp add: allocated_def pool_of_def\<close>)
  from changes_trans [OF s1(5) this] have "changes (insert pd (tables s pd) \<union> frames s pd) s s2" by (rule changes_mono) auto
  moreover have "pagedir_destroy s pd = Some s2" unfolding pagedir_destroy_def n using d(1,3) s1(1) s2(1) by simp
  moreover have p: "pool_pages (kernel_pool s2) = pool_pages (kernel_pool s) - insert pd (tables s pd)"
      "pool_pages (user_pool s2) = pool_pages (user_pool s) - frames s pd"
    using s2(3,4) s1(3,4) by (auto simp: pool_of_def)
  moreover have "frames s pd \<subseteq> pool_pages (user_pool s)" "insert pd (tables s pd) \<subseteq> pool_pages (kernel_pool s)"
    using assms(2) by (auto simp: pd_ok_def)
  then have "allocated s2 = allocated s - (insert pd (tables s pd) \<union> frames s pd)"
    unfolding allocated_def p using pools_disjoint [OF assms(1), of True, unfolded pool_of_def] by auto
  ultimately show ?thesis using that s2(2) by blast
qed

end
