(* ===== verification/Memory_Boot.thy ===== *)
theory Memory_Boot
  imports Page_Tables
begin

text \<open>
  Setting up memory: \<open>paging_init\<close> of \<^verbatim>\<open>threads/init.c\<close>, which builds the page directory of the
  kernel after \<open>palloc_init\<close>. The bounds of the kernel's text come from the linker and are arguments.
\<close>

section \<open>The code\<close>

fun paging_loop :: "nat list \<Rightarrow> nat \<Rightarrow> nat \<Rightarrow> nat \<Rightarrow> nat \<Rightarrow> machine \<Rightarrow> machine option" where
  "paging_loop [] pd pt text_start text_end s = Some s"
| "paging_loop (page # pages) pd pt text_start text_end s = do {
     vaddr \<leftarrow> ptov (page * PGSIZE);
     let pde_idx = pd_no vaddr;
     let pte_idx = pt_no vaddr;
     let in_kernel_text = (text_start \<le> vaddr \<and> vaddr < text_end);
     (pt, s) \<leftarrow>
       (if get32 (ram s) (pd + 4 * pde_idx) = 0
        then do {
          (pt, s) \<leftarrow> palloc_get_page (PAL_ASSERT OR PAL_ZERO) s;
          e \<leftarrow> pde_create pt;
          Some (pt, s\<lparr>ram := put32 (pd + 4 * pde_idx) e (ram s)\<rparr>) }
        else Some (pt, s));
     e \<leftarrow> pte_create_kernel vaddr (\<not> in_kernel_text);
     paging_loop pages pd pt text_start text_end (s\<lparr>ram := put32 (pt + 4 * pte_idx) e (ram s)\<rparr>) }"

definition paging_init :: "nat \<Rightarrow> nat \<Rightarrow> machine \<Rightarrow> machine option" where
  "paging_init text_start text_end s = do {
     (pd, s) \<leftarrow> palloc_get_page (PAL_ASSERT OR PAL_ZERO) s;
     let s = s\<lparr>init_page_dir := pd\<rparr>;
     s \<leftarrow> paging_loop [0..<init_ram_pages s] pd NULL text_start text_end s;
     p \<leftarrow> vtop (init_page_dir s);
     Some (s\<lparr>cr3 := p\<rparr>) }"

section \<open>The kernel's mapping\<close>

definition kernel_vaddr :: "nat \<Rightarrow> nat" where
  "kernel_vaddr page = PHYS_BASE + page * PGSIZE"

definition kernel_entry :: "nat \<Rightarrow> nat \<Rightarrow> nat \<Rightarrow> u32" where
  "kernel_entry text_start text_end page =
     the (pte_create_kernel (kernel_vaddr page) (\<not> (text_start \<le> kernel_vaddr page \<and> kernel_vaddr page < text_end)))"

lemma kernel_vaddr_ok:
  assumes "page < 2 ^ 18"
  shows "kernel_page (kernel_vaddr page)" "ptov (page * PGSIZE) = Some (kernel_vaddr page)"
    "pd_no (kernel_vaddr page) = 768 + page div 1024" "pt_no (kernel_vaddr page) = page mod 1024"
proof -
  have a: "(3221225472 + page * 4096) div 4096 = 786432 + page" by simp
  show "kernel_page (kernel_vaddr page)" using assms by (simp add: kernel_page_def kernel_vaddr_def PHYS_BASE_def PGSIZE_def)
  show "ptov (page * PGSIZE) = Some (kernel_vaddr page)"
    using assms by (simp add: ptov_def kernel_vaddr_def PHYS_BASE_def PGSIZE_def wrap32_def)
  have "(3221225472 + page * 4096) div 4194304 = (786432 + page) div 1024" using a div_mult2_eq [of "3221225472 + page * 4096" 4096 1024] by simp
  then show "pd_no (kernel_vaddr page) = 768 + page div 1024" by (simp add: pd_no_div kernel_vaddr_def PHYS_BASE_def PGSIZE_def)
  show "pt_no (kernel_vaddr page) = page mod 1024"
    using a mod_mult_self1 [of page 768 1024] by (simp add: pt_no_div kernel_vaddr_def PHYS_BASE_def PGSIZE_def add.commute)
qed

lemma pte_create_kernel_ok:
  assumes "kernel_page p"
  obtains e where "pte_create_kernel p w = Some e" "bit e 0" "bit e 1 \<longleftrightarrow> w" "\<not> bit e 2" "pte_get_page e = Some p"
proof -
  note k = kernel_page_addr [OF assms]
  define g where "g = (if w then PTE_W else 0)"
  define e where "e = of_nat (p - PHYS_BASE) OR PTE_P OR g"
  have g: "bit g n \<longleftrightarrow> w \<and> n = 1" for n by (cases w) (simp_all add: g_def bit_flags(2))
  have ef: "e = of_nat (p - PHYS_BASE) OR (PTE_P OR g)" unfolding e_def by (simp only: or.assoc)
  have "n < 12" if "bit (PTE_P OR g) n" for n using that unfolding bit_or_iff bit_flags g by auto
  then have "unat (e AND PTE_ADDR) = p - PHYS_BASE" unfolding ef using k(3,4) by (intro entry_addr) simp_all
  then have "pte_get_page e = Some p" using k(5) by (simp only: pte_get_page_def)
  moreover have "pte_create_kernel p w = Some e"
    unfolding pte_create_kernel_def k(1,2) e_def g_def by (simp only: ASSERT_simps bind.bind_lunit simp_thms)
  moreover have "bit e n \<longleftrightarrow> n = 0 \<or> w \<and> n = 1" if "n < 12" for n
  proof -
    have "\<not> bit (of_nat (p - PHYS_BASE) :: u32) n" using page_aligned_bit [OF k(3) that] by (simp only: bit_of_nat_iff) simp
    then show ?thesis unfolding e_def bit_or_iff bit_flags g by blast
  qed
  ultimately show ?thesis using that [of e] by simp
qed

text \<open>After \<open>n\<close> pages; \<open>T c\<close> is the table for the \<open>c\<close>-th four megabytes.\<close>

definition tables_for :: "nat \<Rightarrow> nat" where
  "tables_for n = (n + 1023) div 1024"

definition boot_core :: "nat \<Rightarrow> nat \<Rightarrow> (nat \<Rightarrow> nat) \<Rightarrow> nat \<Rightarrow> nat \<Rightarrow> nat \<Rightarrow> machine \<Rightarrow> bool" where
  "boot_core C n T pd a b s \<longleftrightarrow> pools_ok s \<and> pd \<in> pool_pages (kernel_pool s) \<and> C \<le> 256 \<and> n \<le> 1024 * C \<and>
     (\<forall>i<768. pde_at s pd i = 0) \<and> (\<forall>c<256. C \<le> c \<longrightarrow> pde_at s pd (768 + c) = 0) \<and>
     (\<forall>c<C. pde_at s pd (768 + c) \<noteq> 0 \<and> pde_get_pt (pde_at s pd (768 + c)) = Some (T c) \<and> T c \<in> pool_pages (kernel_pool s) \<and> T c \<noteq> pd) \<and>
     inj_on T {..<C} \<and> (\<forall>m<n. get32 (ram s) (T (m div 1024) + 4 * (m mod 1024)) = kernel_entry a b m)"

lemma tables_for_step:
  "n mod 1024 = 0 \<Longrightarrow> tables_for n = n div 1024 \<and> tables_for (n + 1) = n div 1024 + 1"
  "n mod 1024 \<noteq> 0 \<Longrightarrow> tables_for n = n div 1024 + 1 \<and> tables_for (n + 1) = n div 1024 + 1 \<and> (n - 1) div 1024 = n div 1024"
proof -
  define q r where "q = n div 1024" "r = n mod 1024"
  have n: "n = q * 1024 + r" "r < 1024" by (simp_all add: q_r_def)
  show "tables_for n = n div 1024 \<and> tables_for (n + 1) = n div 1024 + 1" if "n mod 1024 = 0"
    using that n(1) unfolding q_r_def(2) [symmetric] q_r_def(1) [symmetric] tables_for_def by simp
  show "tables_for n = n div 1024 + 1 \<and> tables_for (n + 1) = n div 1024 + 1 \<and> (n - 1) div 1024 = n div 1024" if "n mod 1024 \<noteq> 0"
    using that n(2) unfolding q_r_def(2) [symmetric] q_r_def(1) [symmetric] tables_for_def n(1)
    by (intro conjI div_nat_eqI) simp_all
qed

lemma boot_coreD:
  assumes "boot_core C n T pd a b s"
  shows "pools_ok s" "pd mod PGSIZE = 0" "pd \<in> allocated s" "c < C \<Longrightarrow> T c mod PGSIZE = 0 \<and> T c \<in> allocated s \<and> T c \<noteq> pd"
    "m < n \<Longrightarrow> m div 1024 < C" "inj_on T {..<C}"
proof -
  show "inj_on T {..<C}" using assms unfolding boot_core_def by (elim conjE)
  show p: "pools_ok s" using assms by (simp add: boot_core_def)
  have k: "a mod PGSIZE = 0 \<and> a \<in> allocated s" if "a \<in> pool_pages (kernel_pool s)" for a
    using that allocated_page(1) [OF p, of a] by (simp add: allocated_def kernel_page_def PGSIZE_def)
  show "pd mod PGSIZE = 0" "pd \<in> allocated s" using assms k [of pd] by (simp_all add: boot_core_def)
  show "c < C \<Longrightarrow> T c mod PGSIZE = 0 \<and> T c \<in> allocated s \<and> T c \<noteq> pd" using assms k [of "T c"] by (simp add: boot_core_def)
  have "n \<le> 1024 * C" using assms by (simp add: boot_core_def)
  then show "m < n \<Longrightarrow> m div 1024 < C" by (intro less_mult_imp_div_less) simp
qed

text \<open>Adding a table\<close>

lemma boot_add_table:
  assumes "boot_core C n T pd a b s" "C < 256" "kernel_page p" "p \<notin> allocated s" "pde_get_pt e = Some p" "e \<noteq> 0"
    "pools_ok s1" "pool_pages (kernel_pool s1) = insert p (pool_pages (kernel_pool s))"
    "s' = s1\<lparr>ram := put32 (pd + 4 * (768 + C)) e (fill p PGSIZE 0 (ram s))\<rparr>"
  shows "boot_core (C + 1) n (T(C := p)) pd a b s'"
proof -
  note d = boot_coreD [OF assms(1)]
  have p: "p mod PGSIZE = 0" "p \<noteq> pd" using assms(3,4) d(3) by (auto simp: kernel_page_def PGSIZE_def)
  have i: "768 + C < 1024" using assms(2) by simp
  have r: "ram s' x = ram s x" if "page_of x \<noteq> pd" "page_of x \<noteq> p" for x
    using put32_page [OF d(2) i that(1)] fill_page [OF p(1) that(2)] by (simp add: assms(9))
  have pde: "pde_at s' pd l = (if l = 768 + C then e else pde_at s pd l)" if "l < 1024" for l
  proof (cases "l = 768 + C")
    case False
    have "get32 (fill p PGSIZE 0 (ram s)) (pd + 4 * l) = get32 (ram s) (pd + 4 * l)"
      using fill_page [OF p(1)] p(2) that d(2) by (intro get32_page_cong) auto
    then show ?thesis using False get32_put_word [of "768 + C" l pd] by (simp add: pde_at_def assms(9))
  qed (simp add: pde_at_def assms(9) get32_put32)
  have ent: "get32 (ram s') ((T(C := p)) (m div 1024) + 4 * (m mod 1024)) = kernel_entry a b m" if "m < n" for m
  proof -
    note c = d(5) [OF that]
    note t = d(4) [OF c]
    have "T (m div 1024) \<noteq> p" using t assms(4) by blast
    then have "get32 (ram s') (T (m div 1024) + 4 * (m mod 1024)) = get32 (ram s) (T (m div 1024) + 4 * (m mod 1024))"
      using r t by (intro get32_page_cong) auto
    then show ?thesis using c assms(1) that by (simp add: boot_core_def)
  qed
  have inj: "inj_on (T(C := p)) {..<C + 1}"
  proof -
    have "inj_on (T(C := p)) {..<C} \<longleftrightarrow> inj_on T {..<C}" by (rule inj_on_cong) simp
    moreover have "p \<notin> (T(C := p)) ` {..<C}" using d(4) assms(4) by auto
    ultimately show ?thesis using d(6) by (simp add: lessThan_Suc)
  qed
  show ?thesis unfolding boot_core_def
  proof (intro conjI)
    show "pools_ok s'" using assms(7,9) by (simp add: pools_ok_ram)
    show "\<forall>c<C + 1. pde_at s' pd (768 + c) \<noteq> 0 \<and> pde_get_pt (pde_at s' pd (768 + c)) = Some ((T(C := p)) c) \<and>
        (T(C := p)) c \<in> pool_pages (kernel_pool s') \<and> (T(C := p)) c \<noteq> pd"
      using assms(1,2,5,6,8) pde p(2) by (auto simp: boot_core_def assms(9) less_Suc_eq)
  qed (use assms(1,2,8,9) pde ent inj in \<open>auto simp: boot_core_def\<close>)
qed

text \<open>Setting an entry\<close>

lemma boot_put_entry:
  assumes "boot_core C n T pd a b s" "n div 1024 < C"
    "s' = s\<lparr>ram := put32 (T (n div 1024) + 4 * (n mod 1024)) (kernel_entry a b n) (ram s)\<rparr>"
  shows "boot_core C (n + 1) T pd a b s'"
proof -
  note d = boot_coreD [OF assms(1)]
  note t = d(4) [OF assms(2)]
  have j: "n mod 1024 < 1024" by simp
  have r: "ram s' x = ram s x" if "page_of x \<noteq> T (n div 1024)" for x
    using put32_page [OF conjunct1 [OF t] j that] by (simp add: assms(3))
  have pde: "pde_at s' pd l = pde_at s pd l" if "l < 1024" for l
    unfolding pde_at_def using r t that d(2) by (intro get32_page_cong) auto
  have old: "get32 (ram s') (T (m div 1024) + 4 * (m mod 1024)) = kernel_entry a b m" if "m < n" for m
  proof -
    have o: "get32 (ram s) (T (m div 1024) + 4 * (m mod 1024)) = kernel_entry a b m" using assms(1) that by (simp add: boot_core_def)
    note c = d(5) [OF that]
    show ?thesis
    proof (cases "m div 1024 = n div 1024")
      case True
      then have "m mod 1024 \<noteq> n mod 1024" using that by (metis div_mult_mod_eq less_irrefl)
      then show ?thesis using o get32_put_word [of "n mod 1024" "m mod 1024"] True by (simp add: assms(3))
    next
      case False
      then have "T (m div 1024) \<noteq> T (n div 1024)" using inj_onD [OF d(6)] assms(2) c by blast
      then have "get32 (ram s') (T (m div 1024) + 4 * (m mod 1024)) = get32 (ram s) (T (m div 1024) + 4 * (m mod 1024))"
        using r d(4) [OF c] by (intro get32_page_cong) auto
      then show ?thesis using o by simp
    qed
  qed
  have new: "get32 (ram s') (T (n div 1024) + 4 * (n mod 1024)) = kernel_entry a b n" by (simp add: assms(3) get32_put32)
  have "n + 1 \<le> 1024 * C" using assms(2) by (simp add: div_less_iff_less_mult [symmetric] Suc_le_eq mult.commute)
  moreover have "\<forall>m<n + 1. get32 (ram s') (T (m div 1024) + 4 * (m mod 1024)) = kernel_entry a b m" using old new by (metis less_SucE Suc_eq_plus1)
  moreover have "kernel_pool s' = kernel_pool s" "pools_ok s'" using d(1) by (simp_all add: assms(3) pools_ok_ram)
  ultimately show ?thesis using assms(1) pde unfolding boot_core_def by simp
qed

lemma kernel_entry_eq:
  "page < 2 ^ 18 \<Longrightarrow> pte_create_kernel (kernel_vaddr page) (\<not> (a \<le> kernel_vaddr page \<and> kernel_vaddr page < b)) = Some (kernel_entry a b page)"
  using pte_create_kernel_ok [OF kernel_vaddr_ok(1)] unfolding kernel_entry_def by (metis option.sel)

lemma tables_for_mono: "m \<le> n \<Longrightarrow> tables_for m \<le> tables_for n"
  by (simp add: tables_for_def div_le_mono)

lemma card_insert_page: "card (insert p S) \<le> card S + 1"
  by (metis Suc_eq_plus1 card.infinite card_insert_le_m1 card_insert_if finite_insert le_SucI order_refl zero_le)

lemma boot_step:
  assumes "boot_core (tables_for n) n T pd a b s" "0 < n \<longrightarrow> pt = T ((n - 1) div 1024)" "n < 2 ^ 18"
    "card (pool_pages (kernel_pool s)) \<le> 1 + tables_for n" "1 + tables_for (n + 1) \<le> bit_cnt (used_map (kernel_pool s))"
  obtains s' T' pt' where "paging_loop (n # ps) pd pt a b s = paging_loop ps pd pt' a b s'" "boot_core (tables_for (n + 1)) (n + 1) T' pd a b s'"
    "pt' = T' (n div 1024)" "card (pool_pages (kernel_pool s')) \<le> 1 + tables_for (n + 1)" "same_setup s s'" "user_pool s' = user_pool s"
    "bit_cnt (used_map (kernel_pool s')) = bit_cnt (used_map (kernel_pool s))"
proof -
  note v = kernel_vaddr_ok [OF assms(3)]
  note d = boot_coreD [OF assms(1)]
  have c: "n div 1024 < 256" using assms(3) by simp
  let ?i = "768 + n div 1024" and ?j = "n mod 1024"
  have call: "paging_loop (n # ps) pd pt a b s = do {
     (pt, s) \<leftarrow> (if pde_at s pd ?i = 0
        then do { (pt, s) \<leftarrow> palloc_get_page (PAL_ASSERT OR PAL_ZERO) s; e \<leftarrow> pde_create pt;
                  Some (pt, s\<lparr>ram := put32 (pd + 4 * ?i) e (ram s)\<rparr>) }
        else Some (pt, s));
     paging_loop ps pd pt a b (s\<lparr>ram := put32 (pt + 4 * ?j) (kernel_entry a b n) (ram s)\<rparr>) }"
    using kernel_entry_eq [OF assms(3), of a b] by (simp add: v pde_at_def)
  show ?thesis
  proof (cases "n mod 1024 = 0")
    case True
    note t = tables_for_step(1) [OF True]
    have z: "pde_at s pd ?i = 0" using assms(1) c t unfolding boot_core_def by simp
    have room: "card (pool_pages (pool_of False s)) < bit_cnt (used_map (pool_of False s))" using assms(4,5) t by (simp add: pool_of_def)
    have fl: "False \<longleftrightarrow> (PAL_ASSERT OR PAL_ZERO) AND PAL_USER \<noteq> 0" "(PAL_ASSERT OR PAL_ZERO) AND PAL_ZERO \<noteq> 0"
      by (simp_all add: PAL_ASSERT_def PAL_ZERO_def PAL_USER_def)
    obtain p s1 where g: "palloc_get_page (PAL_ASSERT OR PAL_ZERO) s = Some (p, s1)" "pools_ok s1" "p \<notin> allocated s"
        "pool_pages (pool_of False s1) = insert p (pool_pages (pool_of False s))" "pool_of (\<not> False) s1 = pool_of (\<not> False) s"
        "ram s1 = (if (PAL_ASSERT OR PAL_ZERO) AND PAL_ZERO \<noteq> 0 then fill p PGSIZE 0 (ram s) else ram s)" "same_setup s s1"
        "bit_cnt (used_map (pool_of False s1)) = bit_cnt (used_map (pool_of False s))"
      by (rule palloc_get_page_free [OF d(1) room fl(1)])
    have kp: "pool_pages (kernel_pool s1) = insert p (pool_pages (kernel_pool s))" "user_pool s1 = user_pool s"
      "bit_cnt (used_map (kernel_pool s1)) = bit_cnt (used_map (kernel_pool s))"
      using g(4,5,8) by (simp_all add: pool_of_def)
    have "p \<in> allocated s1" using kp(1) by (simp add: allocated_def)
    note k = allocated_page(1) [OF g(2) this]
    obtain e where e: "pde_create p = Some e" "e \<noteq> 0" "pde_get_pt e = Some p" by (rule pde_create_ok [OF k])
    define s2 where "s2 = s1\<lparr>ram := put32 (pd + 4 * ?i) e (ram s1)\<rparr>"
    have s2: "s2 = s1\<lparr>ram := put32 (pd + 4 * (768 + tables_for n)) e (fill p PGSIZE 0 (ram s))\<rparr>" using g(6) fl(2) t by (simp add: s2_def)
    have c': "tables_for n < 256" using c t by simp
    note b2 = boot_add_table [OF assms(1) c' k g(3) e(3,2) g(2) kp(1) s2]
    define s3 where "s3 = s2\<lparr>ram := put32 (p + 4 * ?j) (kernel_entry a b n) (ram s2)\<rparr>"
    have b3: "boot_core (tables_for n + 1) (n + 1) (T(tables_for n := p)) pd a b s3"
      by (rule boot_put_entry [OF b2]) (use t in \<open>simp_all add: s3_def\<close>)
    have "paging_loop (n # ps) pd pt a b s = paging_loop ps pd p a b s3" unfolding call s3_def s2_def using z g(1) e(1) by simp
    moreover have "card (pool_pages (kernel_pool s3)) \<le> 1 + tables_for (n + 1)"
      using assms(4) t card_insert_page [of p "pool_pages (kernel_pool s)"] kp(1) by (simp add: s3_def s2_def)
    ultimately show ?thesis using that [of p s3 "T(tables_for n := p)"] b3 t kp(2,3) g(7)
      by (simp add: s3_def s2_def same_setup_def)
  next
    case False
    note t = tables_for_step(2) [OF False]
    have n0: "0 < n" using False by (cases n) auto
    have z: "pde_at s pd ?i \<noteq> 0" using assms(1) t unfolding boot_core_def by simp
    have pt: "pt = T (n div 1024)" using assms(2) n0 t by simp
    define s3 where "s3 = s\<lparr>ram := put32 (T (n div 1024) + 4 * ?j) (kernel_entry a b n) (ram s)\<rparr>"
    have "boot_core (tables_for n) (n + 1) T pd a b s3" by (rule boot_put_entry [OF assms(1) _ s3_def]) (use t in simp)
    moreover have "paging_loop (n # ps) pd pt a b s = paging_loop ps pd pt a b s3" unfolding call s3_def using z pt by simp
    ultimately show ?thesis using that [of pt s3 T] pt t assms(4) by (simp add: s3_def same_setup_def)
  qed
qed

lemma paging_loop_ok:
  "boot_core (tables_for n) n T pd a b s \<Longrightarrow> (0 < n \<longrightarrow> pt = T ((n - 1) div 1024)) \<Longrightarrow> n + k \<le> 2 ^ 18 \<Longrightarrow>
   card (pool_pages (kernel_pool s)) \<le> 1 + tables_for n \<Longrightarrow> 1 + tables_for (n + k) \<le> bit_cnt (used_map (kernel_pool s)) \<Longrightarrow>
   \<exists>s' T'. paging_loop [n..<n + k] pd pt a b s = Some s' \<and> boot_core (tables_for (n + k)) (n + k) T' pd a b s' \<and> same_setup s s' \<and>
     user_pool s' = user_pool s"
proof (induction k arbitrary: n T pt s)
  case 0
  then show ?case by (auto simp: same_setup_def)
next
  case (Suc k)
  have n: "n < 2 ^ 18" "1 + tables_for (n + 1) \<le> bit_cnt (used_map (kernel_pool s))"
    using Suc.prems(3,5) tables_for_mono [of "n + 1" "n + Suc k"] by simp_all
  obtain s1 T1 pt1 where s1: "paging_loop (n # [n + 1..<n + 1 + k]) pd pt a b s = paging_loop [n + 1..<n + 1 + k] pd pt1 a b s1"
      "boot_core (tables_for (n + 1)) (n + 1) T1 pd a b s1" "pt1 = T1 (n div 1024)" "card (pool_pages (kernel_pool s1)) \<le> 1 + tables_for (n + 1)"
      "same_setup s s1" "user_pool s1 = user_pool s" "bit_cnt (used_map (kernel_pool s1)) = bit_cnt (used_map (kernel_pool s))"
    by (rule boot_step [OF Suc.prems(1,2) n(1) Suc.prems(4) n(2)])
  have "\<exists>s' T'. paging_loop [n + 1..<n + 1 + k] pd pt1 a b s1 = Some s' \<and> boot_core (tables_for (n + 1 + k)) (n + 1 + k) T' pd a b s' \<and> same_setup s1 s' \<and>
     user_pool s' = user_pool s1"
    by (rule Suc.IH [OF s1(2)]) (use s1(3,4,7) Suc.prems(3,5) in simp_all)
  moreover have "[n..<n + Suc k] = n # [n + 1..<n + 1 + k]" by (simp add: upt_conv_Cons)
  ultimately show ?case using s1(1,5,6) by (auto simp: same_setup_def)
qed

text \<open>A kernel directory with every physical page mapped at its kernel address.\<close>

definition kernel_mapped :: "nat \<Rightarrow> nat \<Rightarrow> machine \<Rightarrow> bool" where
  "kernel_mapped text_start text_end s \<longleftrightarrow>
     (\<forall>page<init_ram_pages s. \<exists>pt. pde_get_pt (pde_at s (init_page_dir s) (768 + page div 1024)) = Some pt \<and>
        pde_at s (init_page_dir s) (768 + page div 1024) \<noteq> 0 \<and>
        get32 (ram s) (pt + 4 * (page mod 1024)) = kernel_entry text_start text_end page)"

lemma paging_init_ok:
  assumes "pools_ok s" "allocated s = {}" "1024 \<le> init_ram_pages s" "init_ram_pages s < 2 ^ 18"
    "31 * (init_ram_pages s - 256) \<le> 64 * (bit_cnt (used_map (kernel_pool s)) + 2)"
  obtains s' where "paging_init text_start text_end s = Some s'" "pools_ok s'" "kernel_dir_ok s'" "kernel_mapped text_start text_end s'"
    "cr3 s' = init_page_dir s' - PHYS_BASE" "init_ram_pages s' = init_ram_pages s" "user_pool s' = user_pool s"
proof -
  let ?N = "init_ram_pages s"
  have e: "pool_pages (kernel_pool s) = {}" using assms(2) by (simp add: allocated_def)
  have "31 * ?N \<le> 64 * (bit_cnt (used_map (kernel_pool s)) + 2) + 7936" using assms(3,5) by simp
  moreover have "1024 * tables_for ?N \<le> ?N + 1023" unfolding tables_for_def by simp
  ultimately have room: "1 + tables_for ?N \<le> bit_cnt (used_map (kernel_pool s))" using assms(3) by (simp add: algebra_simps)
  have fl: "False \<longleftrightarrow> (PAL_ASSERT OR PAL_ZERO) AND PAL_USER \<noteq> 0" "(PAL_ASSERT OR PAL_ZERO) AND PAL_ZERO \<noteq> 0"
    by (simp_all add: PAL_ASSERT_def PAL_ZERO_def PAL_USER_def)
  have "card (pool_pages (pool_of False s)) < bit_cnt (used_map (pool_of False s))" using e room by (simp add: pool_of_def)
  then obtain pd s1 where g: "palloc_get_page (PAL_ASSERT OR PAL_ZERO) s = Some (pd, s1)" "pools_ok s1"
      "pool_pages (pool_of False s1) = insert pd (pool_pages (pool_of False s))" "pool_of (\<not> False) s1 = pool_of (\<not> False) s"
      "ram s1 = (if (PAL_ASSERT OR PAL_ZERO) AND PAL_ZERO \<noteq> 0 then fill pd PGSIZE 0 (ram s) else ram s)" "same_setup s s1"
      "bit_cnt (used_map (pool_of False s1)) = bit_cnt (used_map (pool_of False s))"
    by (rule palloc_get_page_free [OF assms(1) _ fl(1)])
  have kp: "pool_pages (kernel_pool s1) = {pd}" "user_pool s1 = user_pool s" "bit_cnt (used_map (kernel_pool s1)) = bit_cnt (used_map (kernel_pool s))"
    using g(3,4,7) e by (simp_all add: pool_of_def)
  define s2 where "s2 = s1\<lparr>init_page_dir := pd\<rparr>"
  have p2: "pools_ok s2" using g(2) by (simp add: s2_def pools_ok_def)
  have z: "pde_at s2 pd i = 0" if "i < 1024" for i using that g(5) fl(2) by (simp add: s2_def pde_at_def get32_fill_zero PGSIZE_def)
  have t0: "tables_for 0 = 0" by (simp add: tables_for_def)
  have "boot_core (tables_for 0) 0 (\<lambda>_. 0) pd text_start text_end s2" unfolding boot_core_def t0 using p2 z kp(1) by (simp add: s2_def)
  moreover have "card (pool_pages (kernel_pool s2)) \<le> 1 + tables_for 0" using kp(1) by (simp add: s2_def)
  moreover have "1 + tables_for (0 + ?N) \<le> bit_cnt (used_map (kernel_pool s2))" using room kp(3) by (simp add: s2_def)
  ultimately obtain s3 T where s3: "paging_loop [0..<0 + ?N] pd NULL text_start text_end s2 = Some s3"
      "boot_core (tables_for (0 + ?N)) (0 + ?N) T pd text_start text_end s3" "same_setup s2 s3" "user_pool s3 = user_pool s2"
    using paging_loop_ok [of 0 "\<lambda>_. 0" pd text_start text_end s2 NULL ?N] assms(4) by auto
  note d = boot_coreD [OF s3(2)]
  have ip: "init_page_dir s3 = pd" "init_ram_pages s3 = ?N" "init_ram_pages s1 = ?N"
    using s3(3) g(6) by (simp_all add: same_setup_def s2_def)
  have "pd \<in> allocated s3" using s3(2) by (simp add: boot_core_def allocated_def)
  note k = kernel_page_addr [OF allocated_page(1) [OF d(1) this]]
  define s4 where "s4 = s3\<lparr>cr3 := pd - PHYS_BASE\<rparr>"
  have same: "pde_at s4 = pde_at s3" "ram s4 = ram s3" by (simp_all add: s4_def pde_at_def fun_eq_iff)
  have "paging_init text_start text_end s = Some s4"
    using g(1) s3(1) ip k(2) unfolding paging_init_def by (simp add: s2_def [symmetric] s4_def)
  moreover have "pools_ok s4" using d(1) by (simp add: s4_def pools_ok_def)
  moreover have "kernel_dir_ok s4" using s3(2) ip(1) same unfolding kernel_dir_ok_def boot_core_def by (simp add: s4_def)
  moreover have "kernel_mapped text_start text_end s4" unfolding kernel_mapped_def
  proof (intro allI impI)
    fix page assume "page < init_ram_pages s4"
    then have m: "page < ?N" using ip(2) by (simp add: s4_def)
    have "page div 1024 < tables_for ?N" using m unfolding tables_for_def by linarith
    with m s3(2) show "\<exists>pt. pde_get_pt (pde_at s4 (init_page_dir s4) (768 + page div 1024)) = Some pt \<and>
        pde_at s4 (init_page_dir s4) (768 + page div 1024) \<noteq> 0 \<and> get32 (ram s4) (pt + 4 * (page mod 1024)) = kernel_entry text_start text_end page"
      unfolding boot_core_def same by (simp add: s4_def ip(1))
  qed
  ultimately show ?thesis using that [of s4] ip kp(2) s3(4) by (simp add: s4_def s2_def)
qed

section \<open>Properties\<close>

text \<open>
  C24. Booting: with at least four and less than a thousand and twenty-four megabytes of memory, \<open>palloc_init\<close>
  followed by \<open>paging_init\<close> returns, the processor is given a directory of the kernel pool, the pages of user
  virtual memory are all unmapped in it, and the entry of every page of physical memory, found through the
  directory the way the processor does, is present, closed to user processes, names that page, and is
  read-only exactly for the kernel's text.
\<close>

theorem boot_maps_memory:
  assumes "1024 \<le> init_ram_pages s" "init_ram_pages s < 2 ^ 18" "0 < user_page_limit"
  shows "\<exists>s0 s'. palloc_init user_page_limit s = Some s0 \<and> paging_init text_start text_end s0 = Some s' \<and> pools_ok s' \<and>
    kernel_dir_ok s' \<and> ptov (cr3 s') = Some (init_page_dir s') \<and>
    (\<forall>page<init_ram_pages s. \<exists>pt e. pde_get_pt (get32 (ram s') (init_page_dir s' + 4 * pd_no (PHYS_BASE + page * PGSIZE))) = Some pt \<and>
       e = get32 (ram s') (pt + 4 * pt_no (PHYS_BASE + page * PGSIZE)) \<and> bit e 0 \<and> \<not> bit e 2 \<and>
       pte_get_page e = Some (PHYS_BASE + page * PGSIZE) \<and>
       (bit e 1 \<longleftrightarrow> \<not> (text_start \<le> PHYS_BASE + page * PGSIZE \<and> PHYS_BASE + page * PGSIZE < text_end)))"
proof -
  have "258 \<le> init_ram_pages s" using assms(1) by simp
  then obtain s0 where s0: "palloc_init user_page_limit s = Some s0" "pools_ok s0" "allocated s0 = {}" "init_ram_pages s0 = init_ram_pages s"
      "31 * (init_ram_pages s - 256) \<le> 64 * (bit_cnt (used_map (kernel_pool s0)) + 2)"
    by (rule palloc_init_ok [OF _ assms(2,3)])
  note n = s0(4)
  obtain s' where s': "paging_init text_start text_end s0 = Some s'" "pools_ok s'" "kernel_dir_ok s'" "kernel_mapped text_start text_end s'"
      "cr3 s' = init_page_dir s' - PHYS_BASE" "init_ram_pages s' = init_ram_pages s0"
    by (rule paging_init_ok [OF s0(2,3)]) (use assms s0(5) n in simp_all)
  have "init_page_dir s' \<in> allocated s'" using s'(3) by (simp add: kernel_dir_ok_def allocated_def)
  note k = kernel_page_addr [OF allocated_page(1) [OF s'(2) this]]
  have "\<exists>pt e. pde_get_pt (get32 (ram s') (init_page_dir s' + 4 * pd_no (PHYS_BASE + page * PGSIZE))) = Some pt \<and>
       e = get32 (ram s') (pt + 4 * pt_no (PHYS_BASE + page * PGSIZE)) \<and> bit e 0 \<and> \<not> bit e 2 \<and>
       pte_get_page e = Some (PHYS_BASE + page * PGSIZE) \<and>
       (bit e 1 \<longleftrightarrow> \<not> (text_start \<le> PHYS_BASE + page * PGSIZE \<and> PHYS_BASE + page * PGSIZE < text_end))" if q: "page < init_ram_pages s" for page
  proof -
    have p: "page < 2 ^ 18" using q assms(2) by simp
    note v = kernel_vaddr_ok [OF p, unfolded kernel_vaddr_def]
    have "pte_get_page (kernel_entry text_start text_end page) = Some (PHYS_BASE + page * PGSIZE)" "bit (kernel_entry text_start text_end page) 0"
      "\<not> bit (kernel_entry text_start text_end page) 2"
      "bit (kernel_entry text_start text_end page) 1 \<longleftrightarrow> \<not> (text_start \<le> PHYS_BASE + page * PGSIZE \<and> PHYS_BASE + page * PGSIZE < text_end)"
      using pte_create_kernel_ok [OF v(1), of "\<not> (text_start \<le> PHYS_BASE + page * PGSIZE \<and> PHYS_BASE + page * PGSIZE < text_end)"]
      unfolding kernel_entry_def kernel_vaddr_def by (metis option.sel)+
    moreover obtain pt where "pde_get_pt (get32 (ram s') (init_page_dir s' + 4 * (768 + page div 1024))) = Some pt"
        "get32 (ram s') (pt + 4 * (page mod 1024)) = kernel_entry text_start text_end page"
      using q s'(4,6) n unfolding kernel_mapped_def pde_at_def by auto
    ultimately show ?thesis unfolding v(3,4) by metis
  qed
  with s0(1) s'(1-3,5) k(5) show ?thesis by (metis (no_types, lifting))
qed

theorem boot_maps_memory_witness:
  "\<exists>s0 s'. palloc_init 1000 sample_machine = Some s0 \<and> paging_init 0xc0020000 0xc0040000 s0 = Some s' \<and> kernel_dir_ok s'"
  using boot_maps_memory [of sample_machine 1000 "0xc0020000" "0xc0040000"] by (simp add: sample_machine_def) blast

end
