(* ===== verification/Address_Spaces.thy ===== *)
theory Address_Spaces
  imports Memory_Boot
begin

text \<open>
  Several page directories at once. \<open>install_page\<close> of \<^verbatim>\<open>userprog/process.c\<close> puts a page of the user pool into
  the directory of the process; the calls that the kernel makes for its processes are put in sequences
  \<open>space_calls\<close>, and \<open>space_spec\<close> says what each of them does to the maps from virtual pages to frames.
  \<open>spaces_ok\<close> is the invariant: the directories are well formed and share no page with each other or with
  the pages \<open>K\<close> of the kernel.
\<close>

section \<open>The code\<close>

definition install_page :: "machine \<Rightarrow> nat \<Rightarrow> nat \<Rightarrow> nat \<Rightarrow> bool \<Rightarrow> (bool \<times> machine) option" where
  "install_page s pagedir upage kpage writable = do {
     p \<leftarrow> pagedir_get_page s pagedir upage;
     if p = NULL then pagedir_set_page s pagedir upage kpage writable else Some (False, s) }"

section \<open>Sequences of calls\<close>

text \<open>\<open>pds\<close> are the directories in use; a call that names none of them is left out.\<close>

datatype space_call = Create | Destroy nat | Activate nat | Install nat nat bool | Clear nat nat | Set_Dirty nat nat bool | Set_Accessed nat nat bool

fun space_step :: "space_call \<Rightarrow> machine \<times> nat list \<Rightarrow> (machine \<times> nat list) option" where
  "space_step Create (s, pds) = do { (pd, s) \<leftarrow> pagedir_create s; Some (s, if pd = NULL then pds else pds @ [pd]) }"
| "space_step (Destroy i) (s, pds) =
     (if i < length pds then do { s \<leftarrow> pagedir_destroy s (pds ! i); Some (s, take i pds @ drop (Suc i) pds) } else Some (s, pds))"
| "space_step (Activate i) (s, pds) = do { s \<leftarrow> pagedir_activate s (if i < length pds then pds ! i else NULL); Some (s, pds) }"
| "space_step (Install i upage writable) (s, pds) =
     (if i < length pds
      then do {
        (kpage, s) \<leftarrow> palloc_get_page PAL_USER s;
        if kpage = NULL then Some (s, pds)
        else do {
          (ok, s) \<leftarrow> install_page s (pds ! i) upage kpage writable;
          s \<leftarrow> (if ok then Some s else palloc_free_page kpage s);
          Some (s, pds) } }
      else Some (s, pds))"
| "space_step (Clear i upage) (s, pds) =
     (if i < length pds then do { s \<leftarrow> pagedir_clear_page s (pds ! i) upage; Some (s, pds) } else Some (s, pds))"
| "space_step (Set_Dirty i vpage b) (s, pds) =
     (if i < length pds then do { s \<leftarrow> pagedir_set_dirty s (pds ! i) vpage b; Some (s, pds) } else Some (s, pds))"
| "space_step (Set_Accessed i vpage b) (s, pds) =
     (if i < length pds then do { s \<leftarrow> pagedir_set_accessed s (pds ! i) vpage b; Some (s, pds) } else Some (s, pds))"

primrec space_calls :: "space_call list \<Rightarrow> machine \<times> nat list \<Rightarrow> (machine \<times> nat list) option" where
  "space_calls [] s = Some s"
| "space_calls (c # cs) s = do { s \<leftarrow> space_step c s; space_calls cs s }"

text \<open>The addresses are user pages.\<close>

fun call_ok :: "space_call \<Rightarrow> bool" where
  "call_ok (Install i upage w) \<longleftrightarrow> upage mod PGSIZE = 0 \<and> is_user_vaddr upage"
| "call_ok (Clear i upage) \<longleftrightarrow> upage mod PGSIZE = 0 \<and> is_user_vaddr upage"
| "call_ok (Set_Dirty i vpage b) \<longleftrightarrow> is_user_vaddr vpage"
| "call_ok (Set_Accessed i vpage b) \<longleftrightarrow> is_user_vaddr vpage"
| "call_ok _ \<longleftrightarrow> True"

text \<open>What the calls do to the maps of the processes.\<close>

type_synonym space = "nat \<Rightarrow> (nat \<times> bool) option"

fun space_spec :: "space_call \<Rightarrow> space list \<Rightarrow> space list \<Rightarrow> bool" where
  "space_spec Create ms ms' \<longleftrightarrow> ms' = ms \<or> ms' = ms @ [Map.empty]"
| "space_spec (Destroy i) ms ms' \<longleftrightarrow> ms' = take i ms @ drop (Suc i) ms"
| "space_spec (Install i upage w) ms ms' \<longleftrightarrow> ms' = ms \<or>
     i < length ms \<and> (ms ! i) (upage div PGSIZE) = None \<and>
     (\<exists>k. (\<forall>m\<in>set ms. k \<notin> fst ` ran m) \<and> ms' = ms[i := (ms ! i)(upage div PGSIZE \<mapsto> (k, w))])"
| "space_spec (Clear i upage) ms ms' \<longleftrightarrow> ms' = (if i < length ms then ms[i := (ms ! i)(upage div PGSIZE := None)] else ms)"
| "space_spec _ ms ms' \<longleftrightarrow> ms' = ms"

primrec space_specs :: "space_call list \<Rightarrow> space list \<Rightarrow> space list \<Rightarrow> bool" where
  "space_specs [] ms ms' \<longleftrightarrow> ms' = ms"
| "space_specs (c # cs) ms ms' \<longleftrightarrow> (\<exists>m. space_spec c ms m \<and> space_specs cs m ms')"

section \<open>The pages of a directory\<close>

definition owned :: "machine \<Rightarrow> nat \<Rightarrow> nat set" where
  "owned s pd = insert pd (tables s pd) \<union> frames s pd"

lemma owned_allocated: "pd_ok s pd \<Longrightarrow> owned s pd \<subseteq> allocated s"
  by (auto simp: owned_def pd_ok_def allocated_def)

lemma pd_ok_kept:
  assumes "pools_ok s" "pd_ok s pd" "changes W s s'" "W \<inter> insert pd (tables s pd) = {}"
    "insert pd (tables s pd) \<subseteq> pool_pages (kernel_pool s')" "frames s pd \<subseteq> pool_pages (user_pool s')"
  shows "pd_ok s' pd" "mapping s' pd = mapping s pd" "owned s' pd = owned s pd" "tables s' pd = tables s pd"
proof -
  have r: "ram s' x = ram s x" if "page_of x \<in> insert pd (tables s pd)" for x
    by (rule changesD(2) [OF assms(3)]) (use that assms(4) in blast)
  note t = tables_cong [OF assms(1,2) r]
  have i: "init_page_dir s' = init_page_dir s" using changesD(1) [OF assms(3)] by (simp add: same_setup_def)
  show m: "mapping s' pd = mapping s pd" using t(4) by blast
  have tb: "table s' pd = table s pd" using t(2) by blast
  show o: "owned s' pd = owned s pd" by (simp add: owned_def tables_def frames_def m tb)
  show "tables s' pd = tables s pd" by (simp add: tables_def tb)
  have tf: "tables s' pd = tables s pd" "frames s' pd = frames s pd" by (simp_all add: tables_def frames_def m tb)
  have p: "\<forall>i<768. pde_at s' pd i \<noteq> 0 \<longrightarrow> bit (pde_at s' pd i) 0 \<and> table s' pd i \<noteq> None"
    using assms(2) t(1) tb unfolding pd_ok_def by simp
  have q: "\<forall>i j. bit (pte_at s' pd i j) 0 \<longrightarrow> j < 1024 \<longrightarrow> pte_get_page (pte_at s' pd i j) \<noteq> None"
    using assms(2) t(3) unfolding pd_ok_def by metis
  show "pd_ok s' pd" using assms(2,5,6) i p q m tb tf unfolding pd_ok_def by auto
qed

lemma install_page_ok:
  assumes "pools_ok s" "pd_ok s pd" "upage mod PGSIZE = 0" "is_user_vaddr upage" "k \<in> pool_pages (user_pool s)" "k \<notin> frames s pd"
  obtains (fail) "install_page s pd upage k w = Some (False, s)" "mapping s pd (upage div PGSIZE) \<noteq> None \<or> spare False s = 0"
  | (ok) s' where "install_page s pd upage k w = Some (True, s')" "pools_ok s'" "pd_ok s' pd" "mapping s pd (upage div PGSIZE) = None"
      "mapping s' pd = (mapping s pd)(upage div PGSIZE \<mapsto> (k, w))" "user_pool s' = user_pool s" "changes (insert pd (tables s' pd)) s s'"
      "pool_pages (kernel_pool s') = pool_pages (kernel_pool s) \<union> tables s' pd" "tables s' pd - tables s pd \<subseteq> - allocated s"
      "\<exists>t. tables s' pd \<subseteq> insert t (tables s pd)"
proof -
  have g: "pagedir_get_page s pd upage = Some (case mapping s pd (upage div PGSIZE) of None \<Rightarrow> NULL | Some (k, w) \<Rightarrow> k + pg_ofs upage)"
    using pagedir_get_page_ok [OF assms(1,2,4)] by (simp add: PGSIZE_def)
  show ?thesis
  proof (cases "mapping s pd (upage div PGSIZE)")
    case None
    then have c: "install_page s pd upage k w = pagedir_set_page s pd upage k w" using g by (simp add: install_page_def)
    have m: "mapping s pd (upage div 4096) = None" using None by (simp add: PGSIZE_def)
    show ?thesis
    proof (cases rule: pagedir_set_page_ok [OF assms m, where w = w, case_names fail ok])
      case fail
      then show ?thesis using that(1) c by simp
    next
      case (ok s')
      then show ?thesis using that(2) [of s'] c None by (simp add: PGSIZE_def)
    qed
  next
    case (Some a)
    obtain k' w' where a: "a = (k', w')" by fastforce
    have "k' \<in> pool_pages (user_pool s)" using mapping_frame(1) [OF assms(2)] Some a by blast
    then have "k' \<in> allocated s" by (simp add: allocated_def)
    from allocated_page(1) [OF assms(1) this] have "k' \<noteq> 0" by (auto simp: kernel_page_def PHYS_BASE_def)
    then show ?thesis using that(1) g Some a by (simp add: install_page_def)
  qed
qed

section \<open>The invariant\<close>

definition spaces_ok :: "nat set \<Rightarrow> machine \<Rightarrow> nat list \<Rightarrow> bool" where
  "spaces_ok K s pds \<longleftrightarrow> pools_ok s \<and> kernel_dir_ok s \<and> cr3 s < 2 ^ 30 \<and> K \<subseteq> allocated s \<and> init_page_dir s \<in> K \<and>
     (\<forall>i<length pds. pd_ok s (pds ! i) \<and> owned s (pds ! i) \<inter> K = {}) \<and>
     (\<forall>i<length pds. \<forall>j<length pds. i \<noteq> j \<longrightarrow> owned s (pds ! i) \<inter> owned s (pds ! j) = {})"

text \<open>The kernel's own memory: the pages \<open>K\<close> and all that lies below the pools.\<close>

definition kernel_kept :: "nat set \<Rightarrow> machine \<Rightarrow> machine \<Rightarrow> bool" where
  "kernel_kept K s s' \<longleftrightarrow> init_page_dir s' = init_page_dir s \<and> init_ram_pages s' = init_ram_pages s \<and>
     base (kernel_pool s') = base (kernel_pool s) \<and> (\<forall>x. page_of x \<in> K \<or> page_of x < base (kernel_pool s) \<longrightarrow> ram s' x = ram s x)"

lemma spaces_okD:
  assumes "spaces_ok K s pds"
  shows "pools_ok s" "kernel_dir_ok s" "cr3 s < 2 ^ 30" "K \<subseteq> allocated s" "init_page_dir s \<in> K"
    "i < length pds \<Longrightarrow> pd_ok s (pds ! i)" "i < length pds \<Longrightarrow> owned s (pds ! i) \<inter> K = {}"
    "i < length pds \<Longrightarrow> j < length pds \<Longrightarrow> i \<noteq> j \<Longrightarrow> owned s (pds ! i) \<inter> owned s (pds ! j) = {}"
  using assms unfolding spaces_ok_def by blast+

lemma kernel_dir_kept:
  assumes "pools_ok s" "kernel_dir_ok s" "changes W s s'" "init_page_dir s \<notin> W" "init_page_dir s \<in> pool_pages (kernel_pool s')"
  shows "kernel_dir_ok s'"
proof -
  have i: "init_page_dir s' = init_page_dir s" using changesD(1) [OF assms(3)] by (simp add: same_setup_def)
  have "init_page_dir s \<in> allocated s" using assms(2) by (simp add: kernel_dir_ok_def allocated_def)
  from allocated_page(1) [OF assms(1) this] have m: "init_page_dir s mod PGSIZE = 0" by (simp add: kernel_page_def PGSIZE_def)
  have "pde_at s' (init_page_dir s) l = pde_at s (init_page_dir s) l" if "l < 1024" for l
    unfolding pde_at_def by (rule get32_page_cong [OF m that]) (use changesD(2) [OF assms(3)] assms(4) in simp)
  then show ?thesis using assms(2,5) i by (simp add: kernel_dir_ok_def)
qed

lemma kernel_kept_changes: "changes W s s' \<Longrightarrow> W \<inter> K = {} \<Longrightarrow> kernel_kept K s s'"
  by (auto simp: changes_def kernel_kept_def same_setup_def pool_shape_def)

lemma map_update_one:
  assumes "i < length xs" "\<And>j. j < length xs \<Longrightarrow> j \<noteq> i \<Longrightarrow> f (xs ! j) = g (xs ! j)"
  shows "map f xs = (map g xs)[i := f (xs ! i)]"
proof (rule nth_equalityI)
  show "map f xs ! j = (map g xs)[i := f (xs ! i)] ! j" if "j < length (map f xs)" for j
    using that assms by (cases "j = i") simp_all
qed simp

text \<open>Changing one directory keeps the others.\<close>

lemma spaces_update:
  assumes "spaces_ok K s pds" "i < length pds" "pools_ok s'" "pd_ok s' (pds ! i)" "changes W s s'" "W \<inter> allocated s \<subseteq> owned s (pds ! i)"
    "owned s' (pds ! i) \<inter> allocated s \<subseteq> owned s (pds ! i)" "pool_pages (kernel_pool s) \<subseteq> pool_pages (kernel_pool s')"
    "pool_pages (user_pool s) \<subseteq> pool_pages (user_pool s')"
  shows "spaces_ok K s' pds" "map (mapping s') pds = (map (mapping s) pds)[i := mapping s' (pds ! i)]" "kernel_kept K s s'"
proof -
  note D = spaces_okD [OF assms(1)]
  have al: "allocated s \<subseteq> allocated s'" using assms(8,9) by (auto simp: allocated_def)
  have wk: "W \<inter> K = {}" using D(4) D(7) [OF assms(2)] assms(6) by blast
  show kept: "kernel_kept K s s'" by (rule kernel_kept_changes [OF assms(5) wk])
  have other: "pd_ok s' (pds ! j) \<and> mapping s' (pds ! j) = mapping s (pds ! j) \<and> owned s' (pds ! j) = owned s (pds ! j)"
    if "j < length pds" "j \<noteq> i" for j
  proof -
    have oa: "owned s (pds ! j) \<subseteq> allocated s" by (rule owned_allocated [OF D(6) [OF that(1)]])
    then have "W \<inter> owned s (pds ! j) = {}" using D(8) [OF that(1) assms(2) that(2)] assms(6) by blast
    then have w: "W \<inter> insert (pds ! j) (tables s (pds ! j)) = {}" unfolding owned_def by blast
    have "insert (pds ! j) (tables s (pds ! j)) \<subseteq> pool_pages (kernel_pool s')" "frames s (pds ! j) \<subseteq> pool_pages (user_pool s')"
      using D(6) [OF that(1)] assms(8,9) by (auto simp: pd_ok_def)
    from pd_ok_kept [OF D(1) D(6) [OF that(1)] assms(5) w this] show ?thesis by blast
  qed
  show "map (mapping s') pds = (map (mapping s) pds)[i := mapping s' (pds ! i)]"
    by (rule map_update_one [OF assms(2)]) (use other in blast)
  have ip: "init_page_dir s \<notin> W" "init_page_dir s \<in> pool_pages (kernel_pool s')" using wk D(2,5) assms(8) by (auto simp: kernel_dir_ok_def)
  have own: "owned s' (pds ! j) \<inter> allocated s \<subseteq> owned s (pds ! j)" if "j < length pds" for j
    using other [OF that] assms(7) by (cases "j = i") auto
  have one: "owned s' (pds ! j) \<inter> K = {}" if "j < length pds" for j using own [OF that] D(4) D(7) [OF that] by blast
  have two: "owned s' (pds ! j) \<inter> owned s' (pds ! l) = {}" if "j < length pds" "l < length pds" "j \<noteq> l" for j l
  proof -
    have part: "owned s' (pds ! a) \<inter> owned s' (pds ! b) = {}" if q: "a < length pds" "b < length pds" "a \<noteq> b" "b \<noteq> i" for a b
    proof -
      have b: "owned s' (pds ! b) = owned s (pds ! b)" using other [OF q(2,4)] by blast
      then show ?thesis using own [OF q(1)] D(8) [OF q(1-3)] owned_allocated [OF D(6) [OF q(2)]] by blast
    qed
    show ?thesis using part [of j l] part [of l j] that by (cases "l = i") auto
  qed
  have "cr3 s' < 2 ^ 30" "init_page_dir s' \<in> K" using changesD(1) [OF assms(5)] D(3,5) by (simp_all add: same_setup_def)
  moreover have "pd_ok s' (pds ! j)" if "j < length pds" for j using other [OF that] assms(4) by (cases "j = i") auto
  moreover have "K \<subseteq> allocated s'" using D(4) al by blast
  ultimately show "spaces_ok K s' pds"
    unfolding spaces_ok_def using assms(3) one two kernel_dir_kept [OF D(1,2) assms(5) ip] by simp
qed

lemma space_other:
  assumes "spaces_ok K s pds" "j < length pds" "changes W s s'" "W \<inter> owned s (pds ! j) = {}"
    "owned s (pds ! j) \<inter> pool_pages (kernel_pool s) \<subseteq> pool_pages (kernel_pool s')" "owned s (pds ! j) \<inter> pool_pages (user_pool s) \<subseteq> pool_pages (user_pool s')"
  shows "pd_ok s' (pds ! j)" "mapping s' (pds ! j) = mapping s (pds ! j)" "owned s' (pds ! j) = owned s (pds ! j)"
proof -
  note D = spaces_okD [OF assms(1)] and o = spaces_okD(6) [OF assms(1,2)]
  have w: "W \<inter> insert (pds ! j) (tables s (pds ! j)) = {}" using assms(4) by (auto simp: owned_def)
  have "insert (pds ! j) (tables s (pds ! j)) \<subseteq> pool_pages (kernel_pool s)" "frames s (pds ! j) \<subseteq> pool_pages (user_pool s)"
    using o by (auto simp: pd_ok_def)
  then have p: "insert (pds ! j) (tables s (pds ! j)) \<subseteq> pool_pages (kernel_pool s')" "frames s (pds ! j) \<subseteq> pool_pages (user_pool s')"
    using assms(5,6) unfolding owned_def by blast+
  from pd_ok_kept [OF D(1) o assms(3) w p]
  show "pd_ok s' (pds ! j)" "mapping s' (pds ! j) = mapping s (pds ! j)" "owned s' (pds ! j) = owned s (pds ! j)" by blast+
qed

lemma spaces_create:
  assumes "spaces_ok K s pds"
  obtains s' pds' where "space_step Create (s, pds) = Some (s', pds')" "spaces_ok K s' pds'" "kernel_kept K s s'"
    "map (mapping s') pds' = map (mapping s) pds \<or> map (mapping s') pds' = map (mapping s) pds @ [Map.empty]"
proof (cases rule: pagedir_create_ok [OF spaces_okD(1,2) [OF assms], case_names none ok])
  case none
  then show ?thesis using that [of s pds] assms by (simp add: kernel_kept_def)
next
  case (ok pd s')
  note D = spaces_okD [OF assms]
  have "frames s' pd = {}" using ok(4) by (simp add: frames_def)
  then have o: "owned s' pd = {pd}" using ok(10) by (simp add: owned_def)
  have other: "pd_ok s' (pds ! j)" "mapping s' (pds ! j) = mapping s (pds ! j)" "owned s' (pds ! j) = owned s (pds ! j)" "pd \<notin> owned s (pds ! j)"
    if "j < length pds" for j
  proof -
    show n: "pd \<notin> owned s (pds ! j)" using owned_allocated [OF D(6) [OF that]] ok(6) by blast
    show "pd_ok s' (pds ! j)" "mapping s' (pds ! j) = mapping s (pds ! j)" "owned s' (pds ! j) = owned s (pds ! j)"
      by (rule space_other [OF assms that ok(9)]; use n ok(7,8) in auto)+
  qed
  have k: "pd \<notin> K" "K \<subseteq> allocated s'" using D(4) ok(6-8) by (auto simp: allocated_def)
  have ip: "init_page_dir s \<notin> {pd}" "init_page_dir s \<in> pool_pages (kernel_pool s')" using k D(2,5) ok(7) by (auto simp: kernel_dir_ok_def)
  have "cr3 s' < 2 ^ 30" "init_page_dir s' \<in> K" using changesD(1) [OF ok(9)] D(3,5) by (simp_all add: same_setup_def)
  then have "spaces_ok K s' (pds @ [pd])"
    unfolding spaces_ok_def using ok(2,3) k o other D(7,8) kernel_dir_kept [OF D(1,2) ok(9) ip]
    by (simp add: nth_append less_Suc_eq)
  moreover have "map (mapping s') (pds @ [pd]) = map (mapping s) pds @ [Map.empty]"
    using other(2) ok(4) by (auto simp: in_set_conv_nth)
  moreover have "kernel_kept K s s'" by (rule kernel_kept_changes [OF ok(9)]) (use k in simp)
  ultimately show ?thesis using that [of s' "pds @ [pd]"] ok(1,5) by simp
qed

lemma nth_removed:
  assumes "j < length (take i xs @ drop (Suc i) xs)" "i < length xs"
  obtains l where "l < length xs" "l \<noteq> i" "(take i xs @ drop (Suc i) xs) ! j = xs ! l" "l = (if j < i then j else Suc j)"
proof -
  let ?l = "if j < i then j else Suc j"
  have "?l < length xs" "?l \<noteq> i" using assms by (auto split: if_splits)
  moreover have "(take i xs @ drop (Suc i) xs) ! j = xs ! ?l" using assms by (simp add: nth_append min_def)
  ultimately show ?thesis using that by blast
qed

lemma spaces_destroy:
  assumes "spaces_ok K s pds" "i < length pds"
  obtains s' where "pagedir_destroy s (pds ! i) = Some s'" "spaces_ok K s' (take i pds @ drop (Suc i) pds)" "kernel_kept K s s'"
    "map (mapping s') (take i pds @ drop (Suc i) pds) = take i (map (mapping s) pds) @ drop (Suc i) (map (mapping s) pds)"
proof -
  note D = spaces_okD [OF assms(1)]
  let ?pd = "pds ! i" and ?ps = "take i pds @ drop (Suc i) pds"
  obtain s' where s': "pagedir_destroy s ?pd = Some s'" "pools_ok s'" "allocated s' = allocated s - (insert ?pd (tables s ?pd) \<union> frames s ?pd)"
      "pool_pages (kernel_pool s') = pool_pages (kernel_pool s) - insert ?pd (tables s ?pd)" "pool_pages (user_pool s') = pool_pages (user_pool s) - frames s ?pd"
      "changes (insert ?pd (tables s ?pd) \<union> frames s ?pd) s s'"
    by (rule pagedir_destroy_ok [OF D(1) D(6) [OF assms(2)]])
  note c = s'(6) [folded owned_def]
  have other: "pd_ok s' (pds ! j)" "mapping s' (pds ! j) = mapping s (pds ! j)" "owned s' (pds ! j) = owned s (pds ! j)"
    if "j < length pds" "j \<noteq> i" for j
  proof -
    have n: "owned s ?pd \<inter> owned s (pds ! j) = {}" using D(8) [OF assms(2) that(1)] that(2) by blast
    then have "owned s (pds ! j) \<inter> pool_pages (kernel_pool s) \<subseteq> pool_pages (kernel_pool s')" "owned s (pds ! j) \<inter> pool_pages (user_pool s) \<subseteq> pool_pages (user_pool s')"
      using s'(4,5) unfolding owned_def by blast+
    from space_other [OF assms(1) that(1) c n this]
    show "pd_ok s' (pds ! j)" "mapping s' (pds ! j) = mapping s (pds ! j)" "owned s' (pds ! j) = owned s (pds ! j)" by blast+
  qed
  have k: "owned s ?pd \<inter> K = {}" by (rule D(7) [OF assms(2)])
  then have k2: "K \<subseteq> allocated s'" using D(4) s'(3) unfolding owned_def by blast
  have ip: "init_page_dir s \<notin> owned s ?pd" "init_page_dir s \<in> pool_pages (kernel_pool s')"
    using k D(2,5) s'(4) by (auto simp: kernel_dir_ok_def owned_def)
  have "cr3 s' < 2 ^ 30" "init_page_dir s' \<in> K" using changesD(1) [OF c] D(3,5) by (simp_all add: same_setup_def)
  moreover have "pd_ok s' (?ps ! j) \<and> owned s' (?ps ! j) \<inter> K = {}" if "j < length ?ps" for j
    using nth_removed [OF that assms(2)] other D(7) by metis
  moreover have "owned s' (?ps ! j) \<inter> owned s' (?ps ! l) = {}" if q: "j < length ?ps" "l < length ?ps" "j \<noteq> l" for j l
  proof -
    obtain a b where a: "a < length pds" "a \<noteq> i" "?ps ! j = pds ! a" "a = (if j < i then j else Suc j)"
      and b: "b < length pds" "b \<noteq> i" "?ps ! l = pds ! b" "b = (if l < i then l else Suc l)"
      using nth_removed [OF q(1) assms(2)] nth_removed [OF q(2) assms(2)] by metis
    have "a \<noteq> b" using a(4) b(4) q(3) by (simp split: if_splits)
    then show ?thesis using other(3) [OF a(1,2)] other(3) [OF b(1,2)] D(8) [OF a(1) b(1)] a(3) b(3) by simp
  qed
  ultimately have "spaces_ok K s' ?ps"
    unfolding spaces_ok_def using s'(2) k2 kernel_dir_kept [OF D(1,2) c ip] by blast
  moreover have "map (mapping s') ?ps = take i (map (mapping s) pds) @ drop (Suc i) (map (mapping s) pds)"
    unfolding take_map drop_map map_append [symmetric]
  proof (rule nth_equalityI)
    fix j assume "j < length (map (mapping s') ?ps)"
    then have j: "j < length ?ps" by simp
    show "map (mapping s') ?ps ! j = map (mapping s) ?ps ! j" using nth_removed [OF j assms(2)] other(2) j by (metis nth_map)
  qed simp
  moreover have "kernel_kept K s s'" by (rule kernel_kept_changes [OF c k])
  ultimately show ?thesis using that s'(1) by blast
qed

lemma spaces_same_pools:
  assumes "spaces_ok K s pds" "i < length pds" "pools_ok s'" "pd_ok s' (pds ! i)" "tables s' (pds ! i) = tables s (pds ! i)"
    "frames s' (pds ! i) \<subseteq> frames s (pds ! i)" "changes (tables s (pds ! i)) s s'" "kernel_pool s' = kernel_pool s" "user_pool s' = user_pool s"
  shows "spaces_ok K s' pds" "map (mapping s') pds = (map (mapping s) pds)[i := mapping s' (pds ! i)]" "kernel_kept K s s'"
  using assms(5-9) by (intro spaces_update [OF assms(1-4,7)]; auto simp: owned_def)+

lemma spaces_clear:
  assumes "spaces_ok K s pds" "i < length pds" "upage mod PGSIZE = 0" "is_user_vaddr upage"
  obtains s' where "pagedir_clear_page s (pds ! i) upage = Some s'" "spaces_ok K s' pds" "kernel_kept K s s'"
    "map (mapping s') pds = (map (mapping s) pds)[i := (mapping s (pds ! i))(upage div PGSIZE := None)]"
proof -
  note D = spaces_okD [OF assms(1)]
  obtain s' where s': "pagedir_clear_page s (pds ! i) upage = Some s'" "pools_ok s'" "pd_ok s' (pds ! i)"
      "mapping s' (pds ! i) = (mapping s (pds ! i))(upage div 4096 := None)" "tables s' (pds ! i) = tables s (pds ! i)" "changes (tables s (pds ! i)) s s'"
      "kernel_pool s' = kernel_pool s" "user_pool s' = user_pool s"
    by (rule pagedir_clear_page_ok [OF D(1) D(6) [OF assms(2)] assms(3,4) D(3)])
  have "frames s' (pds ! i) \<subseteq> frames s (pds ! i)" unfolding frames_def s'(4) by (auto simp: ran_def split: if_splits)
  note q = spaces_same_pools [OF assms(1,2) s'(2,3,5) this s'(6-8)]
  show ?thesis by (rule that [OF s'(1) q(1,3)]) (use q(2) s'(4) in \<open>simp add: PGSIZE_def\<close>)
qed

lemma spaces_flag:
  assumes "spaces_ok K s pds" "i < length pds" "is_user_vaddr va"
  shows "\<exists>s'. pagedir_set_dirty s (pds ! i) va b = Some s' \<and> spaces_ok K s' pds \<and> kernel_kept K s s' \<and> map (mapping s') pds = map (mapping s) pds"
    and "\<exists>s'. pagedir_set_accessed s (pds ! i) va b = Some s' \<and> spaces_ok K s' pds \<and> kernel_kept K s s' \<and> map (mapping s') pds = map (mapping s) pds"
proof -
  note D = spaces_okD [OF assms(1)]
  have c: "spaces_ok K s' pds \<and> kernel_kept K s s' \<and> map (mapping s') pds = map (mapping s) pds"
    if q: "pools_ok s'" "pd_ok s' (pds ! i)" "mapping s' (pds ! i) = mapping s (pds ! i)" "tables s' (pds ! i) = tables s (pds ! i)"
      "changes (tables s (pds ! i)) s s'" "kernel_pool s' = kernel_pool s" "user_pool s' = user_pool s" for s'
  proof -
    have "frames s' (pds ! i) \<subseteq> frames s (pds ! i)" by (simp add: frames_def q(3))
    note r = spaces_same_pools [OF assms(1,2) q(1,2,4) this q(5-7)]
    have "(map (mapping s) pds)[i := mapping s' (pds ! i)] = map (mapping s) pds" using assms(2) q(3) by (simp add: list_update_same_conv)
    then show ?thesis using r by simp
  qed
  show "\<exists>s'. pagedir_set_dirty s (pds ! i) va b = Some s' \<and> spaces_ok K s' pds \<and> kernel_kept K s s' \<and> map (mapping s') pds = map (mapping s) pds"
    by (rule set_flag_ok [OF D(1) D(6) [OF assms(2)] assms(3) D(3) disjI1 [OF refl] pagedir_set_dirty_def]) (use c in blast)
  show "\<exists>s'. pagedir_set_accessed s (pds ! i) va b = Some s' \<and> spaces_ok K s' pds \<and> kernel_kept K s s' \<and> map (mapping s') pds = map (mapping s) pds"
    by (rule set_flag_ok [OF D(1) D(6) [OF assms(2)] assms(3) D(3) disjI2 [OF refl] pagedir_set_accessed_def]) (use c in blast)
qed

lemma spaces_activate:
  assumes "spaces_ok K s pds"
  obtains s' where "pagedir_activate s (if i < length pds then pds ! i else NULL) = Some s'" "spaces_ok K s' pds" "kernel_kept K s s'"
    "map (mapping s') pds = map (mapping s) pds"
proof -
  note D = spaces_okD [OF assms]
  let ?pd = "if i < length pds then pds ! i else init_page_dir s"
  have "?pd \<in> allocated s" using D(2,6) by (auto simp: kernel_dir_ok_def pd_ok_def allocated_def)
  from allocated_page(1) [OF D(1) this] have kp: "kernel_page ?pd" .
  note k = kernel_page_addr [OF kp]
  have n: "?pd \<noteq> NULL" using kp by (auto simp: kernel_page_def PHYS_BASE_def)
  define s' where "s' = s\<lparr>cr3 := ?pd - PHYS_BASE\<rparr>"
  have c: "pagedir_activate s (if i < length pds then pds ! i else NULL) = Some s'"
    using k(2) n by (cases "i < length pds") (simp_all add: pagedir_activate_def s'_def)
  have r: "ram s' = ram s" by (simp add: s'_def)
  have pde: "pde_at s' = pde_at s" by (simp add: fun_eq_iff pde_at_def r)
  then have tb: "table s' = table s" by (simp add: fun_eq_iff table_def)
  have pte: "pte_at s' = pte_at s" unfolding fun_eq_iff pte_at_def tb r by simp
  then have m: "mapping s' = mapping s" by (simp add: fun_eq_iff mapping_def)
  have "tables s' = tables s" "frames s' = frames s" by (simp_all add: fun_eq_iff tables_def frames_def tb m)
  note e = pde tb pte m this
  have p: "pools_ok s' = pools_ok s" "kernel_dir_ok s' = kernel_dir_ok s" "allocated s' = allocated s" "owned s' = owned s" "pd_ok s' = pd_ok s"
    unfolding pools_ok_def kernel_dir_ok_def allocated_def owned_def pd_ok_def fun_eq_iff e by (simp_all add: s'_def)
  have "spaces_ok K s' pds" using assms k(4) unfolding spaces_ok_def p by (simp add: s'_def)
  then show ?thesis using that [OF c] m by (simp add: kernel_kept_def s'_def)
qed

text \<open>A page taken from the user pool, with anything written to it.\<close>

definition new_page :: "machine \<Rightarrow> nat \<Rightarrow> machine \<Rightarrow> bool" where
  "new_page s k s1 \<longleftrightarrow> pools_ok s1 \<and> k mod PGSIZE = 0 \<and> k \<noteq> NULL \<and> k \<notin> allocated s \<and>
     pool_pages (user_pool s1) = insert k (pool_pages (user_pool s)) \<and> kernel_pool s1 = kernel_pool s \<and> changes {k} s s1"

lemma get_user_page:
  assumes "pools_ok s" "flags AND PAL_ASSERT = 0" "flags AND PAL_USER \<noteq> 0"
  obtains (none) "palloc_get_page flags s = Some (NULL, s)"
  | (got) k s1 where "palloc_get_page flags s = Some (k, s1)" "new_page s k s1" "flags AND PAL_ZERO \<noteq> 0 \<Longrightarrow> ram s1 = fill k PGSIZE 0 (ram s)"
proof -
  have u: "True \<longleftrightarrow> flags AND PAL_USER \<noteq> 0" using assms(3) by simp
  from assms(1,2) u show ?thesis
  proof (cases rule: palloc_get_page_ok [consumes 3, case_names none got])
    case none
    then show ?thesis by (rule that(1))
  next
    case (got k s1)
    have p: "pool_pages (user_pool s1) = insert k (pool_pages (user_pool s))" "kernel_pool s1 = kernel_pool s"
      using got(6,7) by (simp_all add: pool_of_def)
    have "k \<in> allocated s1" using p(1) by (simp add: allocated_def)
    from allocated_base [OF got(2) this] have "base (kernel_pool s) \<le> k" using p(2) by simp
    then have "changes {k} s s1" by (intro changesI [OF got(9)]) (use got(8) fill_page [OF got(3)] in auto)
    then show ?thesis using that(2) [OF got(1)] got(2-5,8) p by (simp add: new_page_def)
  qed
qed

lemma new_page_write:
  assumes "new_page s k s1" "\<And>x. page_of x \<noteq> k \<Longrightarrow> r x = ram s1 x"
  shows "new_page s k (s1\<lparr>ram := r\<rparr>)"
proof -
  note n = assms(1) [unfolded new_page_def]
  have "base (kernel_pool s) \<le> k" using n allocated_base [of s1 k] by (auto simp: allocated_def)
  then have "changes {k} s (s1\<lparr>ram := r\<rparr>)"
    by (intro changesI) (use n changesD(1,2) [of "{k}" s s1] assms(2) in auto)
  then show ?thesis using n by (simp add: new_page_def pools_ok_ram)
qed

text \<open>Writing to other pages while the pools end up as they were.\<close>

lemma spaces_rewrite:
  assumes "spaces_ok K s pds" "pools_ok s'" "pool_pages (kernel_pool s') = pool_pages (kernel_pool s)" "pool_pages (user_pool s') = pool_pages (user_pool s)"
    "changes W s s'" "W \<inter> K = {}" "\<And>j. j < length pds \<Longrightarrow> W \<inter> insert (pds ! j) (tables s (pds ! j)) = {}"
  shows "spaces_ok K s' pds" "kernel_kept K s s'" "map (mapping s') pds = map (mapping s) pds"
proof -
  note D = spaces_okD [OF assms(1)]
  have other: "pd_ok s' (pds ! j)" "mapping s' (pds ! j) = mapping s (pds ! j)" "owned s' (pds ! j) = owned s (pds ! j)" if "j < length pds" for j
    by (rule pd_ok_kept [OF D(1) D(6) [OF that] assms(5) assms(7) [OF that]]; use D(6) [OF that] assms(3,4) in \<open>auto simp: pd_ok_def\<close>)+
  have al: "allocated s' = allocated s" by (simp add: allocated_def assms(3,4))
  have ip: "init_page_dir s \<notin> W" "init_page_dir s \<in> pool_pages (kernel_pool s')" using D(2,5) assms(3,6) by (auto simp: kernel_dir_ok_def)
  have "cr3 s' < 2 ^ 30" "init_page_dir s' \<in> K" using changesD(1) [OF assms(5)] D(3,5) by (simp_all add: same_setup_def)
  then show "spaces_ok K s' pds"
    unfolding spaces_ok_def using assms(2) D(4,7,8) other al kernel_dir_kept [OF D(1,2) assms(5) ip] by simp
  show "kernel_kept K s s'" by (rule kernel_kept_changes [OF assms(5,6)])
  show "map (mapping s') pds = map (mapping s) pds" using other(2) by (auto simp: in_set_conv_nth)
qed

lemma discard_new:
  assumes "spaces_ok K s pds" "new_page s k s1"
  obtains s2 where "palloc_free_page k s1 = Some s2" "spaces_ok K s2 pds" "kernel_kept K s s2" "map (mapping s2) pds = map (mapping s) pds" "changes {k} s s2"
proof -
  note D = spaces_okD [OF assms(1)] and n = assms(2) [unfolded new_page_def]
  have ku: "k \<in> pool_pages (pool_of True s1)" using n by (simp add: pool_of_def)
  obtain s2 where s2: "palloc_free_page k s1 = Some s2" "pools_ok s2" "pool_pages (pool_of True s2) = pool_pages (pool_of True s1) - {k}"
      "pool_of (\<not> True) s2 = pool_of (\<not> True) s1" "ram s2 = fill k PGSIZE 0xcc (ram s1)" "same_setup s1 s2"
    by (rule palloc_free_page_ok [OF _ ku]) (use n in blast)
  have "base (kernel_pool s1) \<le> k" using n allocated_base [of s1 k] by (auto simp: allocated_def)
  then have "changes {k} s1 s2" by (intro changesI [OF s2(6)]) (use s2(5) fill_page [of k] n in auto)
  with n have "changes ({k} \<union> {k}) s s2" by (blast intro: changes_trans)
  then have c2: "changes {k} s s2" by simp
  have p2: "pool_pages (user_pool s2) = pool_pages (user_pool s)" "kernel_pool s2 = kernel_pool s"
    using s2(3,4) n by (auto simp: pool_of_def allocated_def)
  have "{k} \<inter> insert (pds ! j) (tables s (pds ! j)) = {}" if "j < length pds" for j
    using owned_allocated [OF D(6) [OF that]] n by (auto simp: owned_def)
  from spaces_rewrite [OF assms(1) s2(2) _ p2(1) c2 _ this] show ?thesis using that s2(1) c2 p2(2) D(4) n by (auto simp: subset_iff)
qed

text \<open>
  A page of the kernel pool that is taken, written and given back; in between the pages \<open>F\<close> of the user pool
  may be written too.
\<close>

lemma kernel_temp:
  assumes "spaces_ok K s pds" "palloc_get_page 0 s = Some (p, s1)" "p \<noteq> NULL" "F \<subseteq> pool_pages (user_pool s)" "F \<inter> K = {}"
    "\<And>x. page_of x \<noteq> p \<Longrightarrow> page_of x \<notin> F \<Longrightarrow> r x = ram s x"
  obtains s3 where "palloc_free_page p (s1\<lparr>ram := r\<rparr>) = Some s3" "spaces_ok K s3 pds" "kernel_kept K s s3" "map (mapping s3) pds = map (mapping s) pds"
    "changes (insert p F) s s3" "\<And>x. page_of x \<noteq> p \<Longrightarrow> ram s3 x = r x" "\<And>u. spare u s3 = spare u s"
proof -
  note D = spaces_okD [OF assms(1)]
  have z: "0 AND PAL_ASSERT = 0" "False \<longleftrightarrow> 0 AND PAL_USER \<noteq> 0" "0 AND PAL_ZERO = 0" by simp_all
  have g: "pools_ok s1 \<and> p mod PGSIZE = 0 \<and> p \<notin> allocated s \<and> pool_pages (kernel_pool s1) = insert p (pool_pages (kernel_pool s)) \<and>
      user_pool s1 = user_pool s \<and> same_setup s s1"
    by (rule palloc_get_page_ok [OF D(1) z(1,2)]) (use assms(2,3) in \<open>auto simp: pool_of_def\<close>)
  let ?s = "s1\<lparr>ram := r\<rparr>"
  have ok: "pools_ok ?s" "p \<in> pool_pages (pool_of False ?s)" using g by (simp_all add: pools_ok_ram pool_of_def)
  obtain s3 where s3: "palloc_free_page p ?s = Some s3" "pools_ok s3" "pool_pages (pool_of False s3) = pool_pages (pool_of False ?s) - {p}"
      "pool_of (\<not> False) s3 = pool_of (\<not> False) ?s" "ram s3 = fill p PGSIZE 0xcc (ram ?s)" "same_setup ?s s3"
    by (rule palloc_free_page_ok [OF ok])
  have p3: "pool_pages (kernel_pool s3) = pool_pages (kernel_pool s)" "pool_pages (user_pool s3) = pool_pages (user_pool s)"
    using s3(3,4) g by (auto simp: pool_of_def allocated_def)
  have r3: "ram s3 x = r x" if "page_of x \<noteq> p" for x using s3(5) fill_page [of p] g that by simp
  have "base (kernel_pool s) \<le> p" using g allocated_base [of s1 p] same_setup_base [of s s1] by (auto simp: allocated_def)
  moreover have "base (kernel_pool s) \<le> q" if "q \<in> F" for q using allocated_base [OF D(1), of q] that assms(4) by (auto simp: allocated_def)
  moreover have su: "same_setup s s3" using g s3(6) by (auto simp: same_setup_def)
  ultimately have c: "changes (insert p F) s s3" by (intro changesI) (use r3 assms(6) in auto)
  have "insert p F \<inter> insert (pds ! j) (tables s (pds ! j)) = {}" if "j < length pds" for j
  proof -
    have "insert (pds ! j) (tables s (pds ! j)) \<subseteq> pool_pages (kernel_pool s)" using D(6) [OF that] by (auto simp: pd_ok_def)
    then show ?thesis using g assms(4) pools_disjoint [OF D(1), of True] by (auto simp: pool_of_def allocated_def)
  qed
  note w = spaces_rewrite [OF assms(1) s3(2) p3 c _ this]
  have "spare u s3 = spare u s" for u by (rule spare_cong [OF _ su]) (use p3 in \<open>simp add: pool_of_def\<close>)
  then show ?thesis using w that [OF s3(1) _ _ _ c r3] assms(5) D(4) g by blast
qed

lemma install_new:
  assumes "spaces_ok K s pds" "i < length pds" "upage mod PGSIZE = 0" "is_user_vaddr upage" "new_page s k s1"
  obtains (fail) s2 where "install_page s1 (pds ! i) upage k w = Some (False, s1)" "palloc_free_page k s1 = Some s2" "spaces_ok K s2 pds"
      "kernel_kept K s s2" "map (mapping s2) pds = map (mapping s) pds" "changes {k} s s2" "mapping s (pds ! i) (upage div PGSIZE) \<noteq> None \<or> spare False s = 0"
  | (ok) s2 where "install_page s1 (pds ! i) upage k w = Some (True, s2)" "spaces_ok K s2 pds" "kernel_kept K s s2"
      "mapping s (pds ! i) (upage div PGSIZE) = None"
      "map (mapping s2) pds = (map (mapping s) pds)[i := (mapping s (pds ! i))(upage div PGSIZE \<mapsto> (k, w))]"
      "changes (insert k (insert (pds ! i) (tables s2 (pds ! i)))) s s2" "\<And>x. page_of x = k \<Longrightarrow> ram s2 x = ram s1 x" "\<And>u. spare u s \<le> Suc (spare u s2)"
proof -
  note D = spaces_okD [OF assms(1)] and n = assms(5) [unfolded new_page_def]
  let ?pd = "pds ! i"
  have o: "pd_ok s ?pd" by (rule D(6) [OF assms(2)])
  have f: "k \<notin> frames s ?pd" "k \<notin> owned s ?pd" using owned_allocated [OF o] n by (auto simp: owned_def)
  have sub: "insert ?pd (tables s ?pd) \<subseteq> pool_pages (kernel_pool s)" "frames s ?pd \<subseteq> pool_pages (user_pool s)" using o by (auto simp: pd_ok_def)
  have c1: "changes {k} s s1" using n by blast
  have o1: "pd_ok s1 ?pd" "mapping s1 ?pd = mapping s ?pd" "owned s1 ?pd = owned s ?pd" "tables s1 ?pd = tables s ?pd"
    by (rule pd_ok_kept [OF D(1) o c1]; use sub n f(2) in \<open>auto simp: owned_def\<close>)+
  have f1: "k \<notin> frames s1 ?pd" "k \<in> pool_pages (user_pool s1)" "pools_ok s1" "k mod PGSIZE = 0" using f(1) o1(2) n by (simp_all add: frames_def)
  show ?thesis
  proof (cases rule: install_page_ok [OF f1(3) o1(1) assms(3,4) f1(2,1), where w = w, case_names fail ok])
    case fail
    have "spare False s1 = spare False s" using n by (simp add: spare_def pool_of_def)
    then have "mapping s ?pd (upage div PGSIZE) \<noteq> None \<or> spare False s = 0" using fail(2) o1(2) by simp
    then show ?thesis using discard_new [OF assms(1,5)] that(1) [OF fail(1)] by metis
  next
    case (ok s2)
    from changes_trans [OF c1 ok(7)] have c2: "changes (insert k (insert ?pd (tables s2 ?pd))) s s2" by (rule changes_mono) auto
    have t: "tables s2 ?pd \<inter> allocated s \<subseteq> tables s ?pd" using ok(9) n unfolding o1(4) allocated_def by auto
    then have "insert k (insert ?pd (tables s2 ?pd)) \<inter> allocated s \<subseteq> owned s ?pd" using n by (auto simp: owned_def)
    moreover have "owned s2 ?pd \<inter> allocated s \<subseteq> owned s ?pd"
    proof -
      have "frames s2 ?pd \<subseteq> insert k (frames s ?pd)" unfolding frames_def ok(5) o1(2) by (auto simp: ran_def split: if_splits)
      then show ?thesis using t n by (auto simp: owned_def)
    qed
    moreover have "pool_pages (kernel_pool s) \<subseteq> pool_pages (kernel_pool s2)" "pool_pages (user_pool s) \<subseteq> pool_pages (user_pool s2)"
      using ok(6,8) n by auto
    ultimately have q: "spaces_ok K s2 pds" "map (mapping s2) pds = (map (mapping s) pds)[i := mapping s2 ?pd]" "kernel_kept K s s2"
      using spaces_update [OF assms(1,2) ok(2,3) c2] by blast+
    have "k \<notin> insert ?pd (tables s2 ?pd)"
      using pools_disjoint [OF ok(2), of True] f1(2) ok(3,6) by (auto simp: pool_of_def pd_ok_def)
    then have r: "ram s2 x = ram s1 x" if "page_of x = k" for x using changesD(2) [OF ok(7)] that by simp
    obtain t where "tables s2 ?pd \<subseteq> insert t (tables s ?pd)" using ok(10) o1(4) by auto
    then have "pool_pages (kernel_pool s2) \<subseteq> insert t (pool_pages (kernel_pool s))" "pool_pages (user_pool s2) \<subseteq> insert k (pool_pages (user_pool s))"
      using ok(6,8) n sub(1) by auto
    then have "spare u s \<le> Suc (spare u s2)" for u
      using spare_one [OF _ changesD(1) [OF c2], of u t] spare_one [OF _ changesD(1) [OF c2], of u k] by (cases u) (simp_all add: pool_of_def)
    then show ?thesis by (intro that(2) [OF ok(1) q(1,3) _ _ c2 r]) (use ok(4,5) o1(2) q(2) in simp_all)
  qed
qed

lemma spaces_install:
  assumes "spaces_ok K s pds" "i < length pds" "upage mod PGSIZE = 0" "is_user_vaddr upage"
  shows "\<exists>s'. space_step (Install i upage w) (s, pds) = Some (s', pds) \<and> spaces_ok K s' pds \<and> kernel_kept K s s' \<and>
    space_spec (Install i upage w) (map (mapping s) pds) (map (mapping s') pds)"
proof -
  note D = spaces_okD [OF assms(1)]
  have z: "PAL_USER AND PAL_ASSERT = 0" "PAL_USER AND PAL_USER \<noteq> 0" by (simp_all add: PAL_USER_def PAL_ASSERT_def)
  show ?thesis
  proof (cases rule: get_user_page [OF D(1) z, case_names none got])
    case none
    then show ?thesis using assms(1,2) by (simp add: kernel_kept_def)
  next
    case (got k s1)
    have k: "k \<noteq> NULL" "k \<notin> allocated s" using got(2) by (simp_all add: new_page_def)
    show ?thesis
    proof (cases rule: install_new [OF assms got(2), where w = w, case_names fail ok])
      case (fail s2)
      then show ?thesis using assms(2) got(1) k(1) by simp
    next
      case (ok s2)
      have "k \<notin> fst ` ran m" if "m \<in> set (map (mapping s) pds)" for m
      proof -
        obtain j where j: "j < length pds" "m = mapping s (pds ! j)" using \<open>m \<in> set (map (mapping s) pds)\<close> by (auto simp: in_set_conv_nth)
        then show ?thesis using owned_allocated [OF D(6) [OF j(1)]] k(2) by (auto simp: owned_def frames_def)
      qed
      then have "space_spec (Install i upage w) (map (mapping s) pds) (map (mapping s2) pds)"
        unfolding space_spec.simps by (intro disjI2 conjI exI [of _ k]) (use assms(2) ok(4,5) in simp_all)
      moreover have "space_step (Install i upage w) (s, pds) = Some (s2, pds)" using assms(2) got(1) k(1) ok(1) by simp
      ultimately show ?thesis using ok(2,3) by blast
    qed
  qed
qed

lemma kernel_kept_trans: "kernel_kept K s s' \<Longrightarrow> kernel_kept K s' s'' \<Longrightarrow> kernel_kept K s s''"
  by (simp add: kernel_kept_def)

lemma space_step_ok:
  assumes "spaces_ok K s pds" "call_ok c"
  obtains s' pds' where "space_step c (s, pds) = Some (s', pds')" "spaces_ok K s' pds'" "kernel_kept K s s'"
    "space_spec c (map (mapping s) pds) (map (mapping s') pds')"
proof -
  note ret = that
  have skip: ?thesis if "space_step c (s, pds) = Some (s, pds)" "space_spec c (map (mapping s) pds) (map (mapping s) pds)"
    by (rule ret [OF that(1) assms(1) _ that(2)]) (simp add: kernel_kept_def)
  show ?thesis
  proof (cases c)
    case Create
    obtain s' pds' where "space_step Create (s, pds) = Some (s', pds')" "spaces_ok K s' pds'" "kernel_kept K s s'"
        "map (mapping s') pds' = map (mapping s) pds \<or> map (mapping s') pds' = map (mapping s) pds @ [Map.empty]"
      by (rule spaces_create [OF assms(1)])
    then show ?thesis using that [of s' pds'] Create by simp
  next
    case (Destroy i)
    show ?thesis
    proof (cases "i < length pds")
      case True
      show ?thesis by (rule spaces_destroy [OF assms(1) True]) (use that Destroy True in simp)
    qed (use skip Destroy in simp)
  next
    case (Activate i)
    show ?thesis by (rule spaces_activate [OF assms(1), of i]) (use that Activate in simp)
  next
    case (Install i upage w)
    then show ?thesis using spaces_install [OF assms(1), of i upage w] assms(2) skip that by (cases "i < length pds") auto
  next
    case (Clear i upage)
    then have u: "upage mod PGSIZE = 0" "is_user_vaddr upage" using assms(2) by simp_all
    show ?thesis
    proof (cases "i < length pds")
      case True
      show ?thesis by (rule spaces_clear [OF assms(1) True u]) (use that Clear True in simp)
    qed (use skip Clear in simp)
  next
    case (Set_Dirty i va b)
    then show ?thesis using spaces_flag(1) [OF assms(1), of i va b] assms(2) skip that by (cases "i < length pds") auto
  next
    case (Set_Accessed i va b)
    then show ?thesis using spaces_flag(2) [OF assms(1), of i va b] assms(2) skip that by (cases "i < length pds") auto
  qed
qed

lemma space_calls_ok:
  "spaces_ok K s pds \<Longrightarrow> list_all call_ok cs \<Longrightarrow>
   \<exists>s' pds'. space_calls cs (s, pds) = Some (s', pds') \<and> spaces_ok K s' pds' \<and> kernel_kept K s s' \<and>
     space_specs cs (map (mapping s) pds) (map (mapping s') pds')"
proof (induction cs arbitrary: s pds)
  case (Cons c cs)
  obtain s1 p1 where 1: "space_step c (s, pds) = Some (s1, p1)" "spaces_ok K s1 p1" "kernel_kept K s s1"
      "space_spec c (map (mapping s) pds) (map (mapping s1) p1)"
    by (rule space_step_ok [OF Cons.prems(1), of c]) (use Cons.prems(2) in simp)
  from Cons.IH [OF 1(2)] Cons.prems(2) 1 show ?case by (auto intro: kernel_kept_trans)
qed (simp add: kernel_kept_def)

section \<open>Properties\<close>

lemma booted_spaces:
  assumes "1024 \<le> init_ram_pages s" "init_ram_pages s < 2 ^ 18" "0 < user_page_limit"
  obtains s0 s1 where "palloc_init user_page_limit s = Some s0" "paging_init text_start text_end s0 = Some s1" "spaces_ok (allocated s1) s1 []"
proof -
  have "258 \<le> init_ram_pages s" using assms(1) by simp
  then obtain s0 where s0: "palloc_init user_page_limit s = Some s0" "pools_ok s0" "allocated s0 = {}" "init_ram_pages s0 = init_ram_pages s"
      "31 * (init_ram_pages s - 256) \<le> 64 * (bit_cnt (used_map (kernel_pool s0)) + 2)"
    by (rule palloc_init_ok [OF _ assms(2,3)])
  obtain s1 where s1: "paging_init text_start text_end s0 = Some s1" "pools_ok s1" "kernel_dir_ok s1" "cr3 s1 = init_page_dir s1 - PHYS_BASE"
    by (rule paging_init_ok [OF s0(2,3), of text_start text_end]) (use assms s0(4,5) in simp_all)
  have i: "init_page_dir s1 \<in> allocated s1" using s1(3) by (simp add: kernel_dir_ok_def allocated_def)
  have "spaces_ok (allocated s1) s1 []"
    unfolding spaces_ok_def using s1(2-4) i kernel_page_addr(4) [OF allocated_page(1) [OF s1(2) i]] by simp
  with s0(1) s1(1) show ?thesis by (rule that)
qed

text \<open>
  C5. Page directories stay well formed and apart: after booting, whatever directories are created, destroyed
  and activated and whatever pages are installed, cleared and marked in them, every call returns; the tables of
  every directory are pages of the kernel pool and the frames it maps are pages of the user pool, each mapped
  once; no page belongs to two directories; and no byte of the pages the kernel itself had in use after
  booting is changed.
\<close>

theorem page_directories_well_formed:
  assumes "1024 \<le> init_ram_pages s" "init_ram_pages s < 2 ^ 18" "0 < user_page_limit" "list_all call_ok cs"
  shows "\<exists>s0 s1 s' pds. palloc_init user_page_limit s = Some s0 \<and> paging_init text_start text_end s0 = Some s1 \<and>
    space_calls cs (s1, []) = Some (s', pds) \<and> pools_ok s' \<and> (\<forall>i<length pds. pd_ok s' (pds ! i)) \<and>
    (\<forall>i<length pds. \<forall>j<length pds. i \<noteq> j \<longrightarrow> owned s' (pds ! i) \<inter> owned s' (pds ! j) = {}) \<and>
    (\<forall>x. page_of x \<in> allocated s1 \<longrightarrow> ram s' x = ram s1 x)"
proof -
  obtain s0 s1 where 1: "palloc_init user_page_limit s = Some s0" "paging_init text_start text_end s0 = Some s1" "spaces_ok (allocated s1) s1 []"
    by (rule booted_spaces [OF assms(1-3)])
  from space_calls_ok [OF 1(3) assms(4)] obtain s' pds where 2: "space_calls cs (s1, []) = Some (s', pds)" "spaces_ok (allocated s1) s' pds"
      "kernel_kept (allocated s1) s1 s'" by blast
  with 1(1,2) spaces_okD(1,6,8) [OF 2(2)] show ?thesis unfolding kernel_kept_def by blast
qed

theorem page_directories_well_formed_witness:
  "\<exists>s0 s1 s' pds. palloc_init 1000 sample_machine = Some s0 \<and> paging_init 0xc0020000 0xc0040000 s0 = Some s1 \<and>
    space_calls [Create, Install 0 0x8048000 True, Clear 0 0x8048000, Destroy 0] (s1, []) = Some (s', pds) \<and> pools_ok s'"
  using page_directories_well_formed [of sample_machine 1000 "[Create, Install 0 0x8048000 True, Clear 0 0x8048000, Destroy 0]" "0xc0020000" "0xc0040000"]
  by (simp add: sample_machine_def PGSIZE_def is_user_vaddr_def PHYS_BASE_def) blast

text \<open>
  C8. The page directories implement maps from virtual pages to frames: after booting, the calls return, and
  they change the maps of the processes as the specification says (a page is installed with a frame that no
  process has, or not at all; clearing removes one page of one process; marking changes none), and
  \<open>pagedir_get_page\<close> finds at every user address what the map says.
\<close>

theorem address_spaces_refine_maps:
  assumes "1024 \<le> init_ram_pages s" "init_ram_pages s < 2 ^ 18" "0 < user_page_limit" "list_all call_ok cs"
  shows "\<exists>s0 s1 s' pds. palloc_init user_page_limit s = Some s0 \<and> paging_init text_start text_end s0 = Some s1 \<and>
    space_calls cs (s1, []) = Some (s', pds) \<and> space_specs cs [] (map (mapping s') pds) \<and>
    (\<forall>i<length pds. \<forall>uaddr. is_user_vaddr uaddr \<longrightarrow> pagedir_get_page s' (pds ! i) uaddr =
       Some (case mapping s' (pds ! i) (uaddr div PGSIZE) of None \<Rightarrow> NULL | Some (kpage, writable) \<Rightarrow> kpage + uaddr mod PGSIZE))"
proof -
  obtain s0 s1 where 1: "palloc_init user_page_limit s = Some s0" "paging_init text_start text_end s0 = Some s1" "spaces_ok (allocated s1) s1 []"
    by (rule booted_spaces [OF assms(1-3)])
  from space_calls_ok [OF 1(3) assms(4)] obtain s' pds where 2: "space_calls cs (s1, []) = Some (s', pds)" "spaces_ok (allocated s1) s' pds"
      "space_specs cs [] (map (mapping s') pds)" by auto
  note D = spaces_okD [OF 2(2)]
  have "pagedir_get_page s' (pds ! i) uaddr =
       Some (case mapping s' (pds ! i) (uaddr div PGSIZE) of None \<Rightarrow> NULL | Some (kpage, writable) \<Rightarrow> kpage + uaddr mod PGSIZE)"
    if "i < length pds" "is_user_vaddr uaddr" for i uaddr
    using pagedir_get_page_ok [OF D(1) D(6) [OF that(1)] that(2)] unfolding pg_ofs_mod PGSIZE_def .
  with 1(1,2) 2(1,3) show ?thesis by blast
qed

theorem address_spaces_refine_maps_witness:
  "\<exists>s0 s1 s' pds. palloc_init 1000 sample_machine = Some s0 \<and> paging_init 0xc0020000 0xc0040000 s0 = Some s1 \<and>
    space_calls [Create, Install 0 0x8048000 True] (s1, []) = Some (s', pds) \<and>
    space_specs [Create, Install 0 0x8048000 True] [] (map (mapping s') pds)"
proof -
  have "1024 \<le> init_ram_pages sample_machine" "init_ram_pages sample_machine < 2 ^ 18" "0 < (1000 :: nat)"
    "list_all call_ok [Create, Install 0 0x8048000 True]"
    by (simp_all add: sample_machine_def PGSIZE_def is_user_vaddr_def PHYS_BASE_def)
  from address_spaces_refine_maps [OF this, of "0xc0020000" "0xc0040000"] show ?thesis by blast
qed

text \<open>
  C22. Destroying a directory gives back exactly what it holds: the page of the directory, its page tables and
  the frames it maps, and no other page; no byte of another page changes.
\<close>

theorem pagedir_destroy_returns_pages:
  assumes "pools_ok s" "pd_ok s pd"
  shows "\<exists>s'. pagedir_destroy s pd = Some s' \<and> pools_ok s' \<and> allocated s' = allocated s - owned s pd \<and>
    (\<forall>x. page_of x \<notin> owned s pd \<longrightarrow> ram s' x = ram s x)"
  by (rule pagedir_destroy_ok [OF assms]) (auto simp: owned_def changes_def)

definition sample_space :: machine where
  "sample_space = \<lparr>ram = (\<lambda>_. 0), kernel_pool = \<lparr>used_map = \<lparr>bit_cnt = 2, bits = [3]\<rparr>, base = 0xc0200000\<rparr>,
     user_pool = \<lparr>used_map = \<lparr>bit_cnt = 2, bits = [0]\<rparr>, base = 0xc0300000\<rparr>, init_ram_pages = 1024, init_page_dir = 0xc0200000, cr3 = 0x200000\<rparr>"

lemma sample_space_ok: "pools_ok sample_space" "pd_ok sample_space 0xc0201000"
proof -
  show "pools_ok sample_space"
    by (simp add: sample_space_def pools_ok_def pool_ok_def pool_end_def bitmap_wf_def PHYS_BASE_def PGSIZE_def elem_cnt_def DIV_ROUND_UP_def ELEM_BITS_def)
  have "1 \<in> bits_set (used_map (kernel_pool sample_space))"
    by (simp add: sample_space_def bits_set_def bit_at_def elem_idx_def ELEM_BITS_def)
  then have "0xc0201000 \<in> pool_pages (kernel_pool sample_space)"
    unfolding pool_pages_def by (rule image_eqI [rotated]) (simp add: sample_space_def PGSIZE_def)
  then show "pd_ok sample_space 0xc0201000"
    by (rule empty_dir) (simp_all add: sample_space_def pde_at_def get32_def)
qed

theorem pagedir_destroy_returns_pages_witness:
  "\<exists>s'. pagedir_destroy sample_space 0xc0201000 = Some s' \<and> allocated s' = allocated sample_space - owned sample_space 0xc0201000"
  using pagedir_destroy_returns_pages [OF sample_space_ok] by blast

end
