(* ===== verification/Process_Load.thy ===== *)
theory Process_Load
  imports FS_Refinement Arguments Address_Spaces
begin

text \<open>
  Loading a program: \<open>load\<close> of \<^verbatim>\<open>userprog/process.c\<close> and its helpers, on the machine's memory and the
  file system. The structures of an executable are decoded from the bytes of the file. The directory of
  the running process is passed as an argument, and so is the address \<open>d\<close> of the kernel's string literal
  \<open>" "\<close>. \<open>tss_update\<close>, the other half of \<open>process_activate\<close>, only writes a field for the processor.
\<close>

section \<open>Executable files\<close>

record Elf32_Ehdr =
  e_ident :: bytes
  e_type :: nat
  e_machine :: nat
  e_version :: nat
  e_entry :: nat
  e_phoff :: nat
  e_shoff :: nat
  e_flags :: nat
  e_ehsize :: nat
  e_phentsize :: nat
  e_phnum :: nat
  e_shentsize :: nat
  e_shnum :: nat
  e_shstrndx :: nat

record Elf32_Phdr =
  p_type :: nat
  p_offset :: nat
  p_vaddr :: nat
  p_paddr :: nat
  p_filesz :: nat
  p_memsz :: nat
  p_flags :: nat
  p_align :: nat

text \<open>The members at their offsets, as the compiler lays the structures out.\<close>

definition ehdr_of :: "bytes \<Rightarrow> Elf32_Ehdr" where
  "ehdr_of bs = \<lparr>e_ident = chunk bs 0 16, e_type = of_le (chunk bs 16 2), e_machine = of_le (chunk bs 18 2),
     e_version = of_le (chunk bs 20 4), e_entry = of_le (chunk bs 24 4), e_phoff = of_le (chunk bs 28 4),
     e_shoff = of_le (chunk bs 32 4), e_flags = of_le (chunk bs 36 4), e_ehsize = of_le (chunk bs 40 2),
     e_phentsize = of_le (chunk bs 42 2), e_phnum = of_le (chunk bs 44 2), e_shentsize = of_le (chunk bs 46 2),
     e_shnum = of_le (chunk bs 48 2), e_shstrndx = of_le (chunk bs 50 2)\<rparr>"

definition phdr_of :: "bytes \<Rightarrow> Elf32_Phdr" where
  "phdr_of bs = \<lparr>p_type = of_le (chunk bs 0 4), p_offset = of_le (chunk bs 4 4), p_vaddr = of_le (chunk bs 8 4),
     p_paddr = of_le (chunk bs 12 4), p_filesz = of_le (chunk bs 16 4), p_memsz = of_le (chunk bs 20 4),
     p_flags = of_le (chunk bs 24 4), p_align = of_le (chunk bs 28 4)\<rparr>"

definition EHDR_SIZE :: nat where
  "EHDR_SIZE = 52"

definition PHDR_SIZE :: nat where
  "PHDR_SIZE = 32"

definition PT_NULL :: nat where
  "PT_NULL = 0"

definition PT_LOAD :: nat where
  "PT_LOAD = 1"

definition PT_DYNAMIC :: nat where
  "PT_DYNAMIC = 2"

definition PT_INTERP :: nat where
  "PT_INTERP = 3"

definition PT_NOTE :: nat where
  "PT_NOTE = 4"

definition PT_SHLIB :: nat where
  "PT_SHLIB = 5"

definition PT_PHDR :: nat where
  "PT_PHDR = 6"

definition PT_STACK :: nat where
  "PT_STACK = 0x6474e551"

definition PF_W :: nat where
  "PF_W = 2"

section \<open>The code\<close>

text \<open>Subtraction of unsigned 32-bit integers.\<close>

definition sub32 :: "nat \<Rightarrow> nat \<Rightarrow> nat" where
  "sub32 a b = (a + 2 ^ 32 - b) mod 2 ^ 32"

definition ROUND_UP32 :: "nat \<Rightarrow> nat \<Rightarrow> nat" where
  "ROUND_UP32 x step = wrap32 (wrap32 (x + step - 1) div step * step)"

definition validate_segment :: "Elf32_Phdr \<Rightarrow> fs \<Rightarrow> nat \<Rightarrow> bool option" where
  "validate_segment phdr v file =
     (if pg_ofs (p_offset phdr) \<noteq> pg_ofs (p_vaddr phdr) then Some False
      else do {
        len \<leftarrow> file_length v file;
        if int (p_offset phdr) > len mod 2 ^ 32 then Some False
        else if p_memsz phdr < p_filesz phdr then Some False
        else if p_memsz phdr = 0 then Some False
        else if \<not> is_user_vaddr (p_vaddr phdr) then Some False
        else if \<not> is_user_vaddr (wrap32 (p_vaddr phdr + p_memsz phdr)) then Some False
        else if wrap32 (p_vaddr phdr + p_memsz phdr) < p_vaddr phdr then Some False
        else if p_vaddr phdr < PGSIZE then Some False
        else Some True })"

text \<open>The loop of \<open>load_segment\<close>; not returning is \<open>None\<close>.\<close>

partial_function (option) load_pages :: "nat \<Rightarrow> nat \<Rightarrow> bool \<Rightarrow> nat \<Rightarrow> nat \<Rightarrow> nat \<Rightarrow> machine \<Rightarrow> fs \<Rightarrow> (bool \<times> machine \<times> fs) option" where
  "load_pages pagedir file writable upage read_bytes zero_bytes s v =
     (if read_bytes > 0 \<or> zero_bytes > 0
      then do {
        let page_read_bytes = (if read_bytes < PGSIZE then read_bytes else PGSIZE);
        let page_zero_bytes = PGSIZE - page_read_bytes;
        (kpage, s) \<leftarrow> palloc_get_page PAL_USER s;
        if kpage = NULL then Some (False, s, v)
        else do {
          (data, v) \<leftarrow> file_read v file (int page_read_bytes);
          let s = s\<lparr>ram := put_bytes kpage data (ram s)\<rparr>;
          if length data \<noteq> page_read_bytes
          then do { s \<leftarrow> palloc_free_page kpage s; Some (False, s, v) }
          else do {
            let s = s\<lparr>ram := fill (kpage + page_read_bytes) page_zero_bytes 0 (ram s)\<rparr>;
            (ok, s) \<leftarrow> install_page s pagedir upage kpage writable;
            if \<not> ok
            then do { s \<leftarrow> palloc_free_page kpage s; Some (False, s, v) }
            else load_pages pagedir file writable (wrap32 (upage + PGSIZE)) (sub32 read_bytes page_read_bytes)
                   (sub32 zero_bytes page_zero_bytes) s v } } }
      else Some (True, s, v))"

definition load_segment :: "nat \<Rightarrow> nat \<Rightarrow> int \<Rightarrow> nat \<Rightarrow> nat \<Rightarrow> nat \<Rightarrow> bool \<Rightarrow> machine \<Rightarrow> fs \<Rightarrow> (bool \<times> machine \<times> fs) option" where
  "load_segment pagedir file ofs upage read_bytes zero_bytes writable s v = do {
     ASSERT (wrap32 (read_bytes + zero_bytes) mod PGSIZE = 0);
     ASSERT (pg_ofs upage = 0);
     ASSERT (ofs smod int PGSIZE = 0);
     v \<leftarrow> file_seek v file ofs;
     load_pages pagedir file writable upage read_bytes zero_bytes s v }"

definition setup_stack :: "nat \<Rightarrow> machine \<Rightarrow> (bool \<times> nat \<times> machine) option" where
  "setup_stack pagedir s = do {
     (kpage, s) \<leftarrow> palloc_get_page (PAL_USER OR PAL_ZERO) s;
     if kpage \<noteq> NULL
     then do {
       (success, s) \<leftarrow> install_page s pagedir (PHYS_BASE - PGSIZE) kpage True;
       if success then Some (True, PHYS_BASE, s)
       else do { s \<leftarrow> palloc_free_page kpage s; Some (False, NULL, s) } }
     else Some (False, NULL, s) }"

text \<open>One program header.\<close>

definition load_phdr :: "nat \<Rightarrow> nat \<Rightarrow> Elf32_Phdr \<Rightarrow> machine \<Rightarrow> fs \<Rightarrow> (bool \<times> machine \<times> fs) option" where
  "load_phdr pagedir file phdr s v =
     (if p_type phdr = PT_DYNAMIC \<or> p_type phdr = PT_INTERP \<or> p_type phdr = PT_SHLIB then Some (False, s, v)
      else if p_type phdr = PT_LOAD
      then do {
        ok \<leftarrow> validate_segment phdr v file;
        if ok
        then do {
          let writable = (p_flags phdr AND PF_W \<noteq> 0);
          let file_page = p_offset phdr - pg_ofs (p_offset phdr);
          let mem_page = p_vaddr phdr - pg_ofs (p_vaddr phdr);
          let page_offset = pg_ofs (p_vaddr phdr);
          let (read_bytes, zero_bytes) =
            (if p_filesz phdr > 0
             then (wrap32 (page_offset + p_filesz phdr),
                   sub32 (ROUND_UP32 (wrap32 (page_offset + p_memsz phdr)) PGSIZE) (wrap32 (page_offset + p_filesz phdr)))
             else (0, ROUND_UP32 (wrap32 (page_offset + p_memsz phdr)) PGSIZE));
          load_segment pagedir file (s32 (int file_page)) mem_page read_bytes zero_bytes writable s v }
        else Some (False, s, v) }
      else Some (True, s, v))"

primrec load_phdrs :: "nat \<Rightarrow> nat \<Rightarrow> nat \<Rightarrow> int \<Rightarrow> machine \<Rightarrow> fs \<Rightarrow> (bool \<times> machine \<times> fs) option" where
  "load_phdrs 0 pagedir file file_ofs s v = Some (True, s, v)"
| "load_phdrs (Suc n) pagedir file file_ofs s v = do {
     len \<leftarrow> file_length v file;
     if file_ofs < 0 \<or> file_ofs > len then Some (False, s, v)
     else do {
       v \<leftarrow> file_seek v file file_ofs;
       (data, v) \<leftarrow> file_read v file (int PHDR_SIZE);
       if length data \<noteq> PHDR_SIZE then Some (False, s, v)
       else do {
         (ok, s, v) \<leftarrow> load_phdr pagedir file (phdr_of data) s v;
         if ok then load_phdrs n pagedir file (s32 (file_ofs + int PHDR_SIZE)) s v else Some (False, s, v) } } }"

definition ehdr_ok :: "Elf32_Ehdr \<Rightarrow> bool" where
  "ehdr_ok ehdr \<longleftrightarrow> take 7 (e_ident ehdr) = [0x7f, 0x45, 0x4c, 0x46, 1, 1, 1] \<and> e_type ehdr = 2 \<and> e_machine ehdr = 3 \<and>
     e_version ehdr = 1 \<and> e_phentsize ehdr = PHDR_SIZE \<and> e_phnum ehdr \<le> 1024"

text \<open>
  The string library works on the bytes of memory as a list; user memory, as the kernel sees it through the
  directory, is the partial map of the writable pages, since a write to any other address faults.
\<close>

definition kmem :: "machine \<Rightarrow> bytes" where
  "kmem s = map (ram s) [0..<2 ^ 32]"

definition set_kmem :: "bytes \<Rightarrow> machine \<Rightarrow> machine" where
  "set_kmem m s = s\<lparr>ram := (\<lambda>a. if a < length m then m ! a else ram s a)\<rparr>"

definition user_mem :: "machine \<Rightarrow> nat \<Rightarrow> umem" where
  "user_mem s pd = (\<lambda>a. if is_user_vaddr a
     then (case mapping s pd (a div PGSIZE) of Some (k, True) \<Rightarrow> Some (ram s (k + a mod PGSIZE)) | _ \<Rightarrow> None)
     else None)"

definition set_user_mem :: "umem \<Rightarrow> nat \<Rightarrow> machine \<Rightarrow> machine" where
  "set_user_mem u pd s = s\<lparr>ram := (\<lambda>x.
     case find (\<lambda>v. mapping s pd v = Some (page_of x, True)) [0..<PHYS_BASE div PGSIZE] of
       Some v \<Rightarrow> the (u (v * PGSIZE + x mod PGSIZE)) | None \<Rightarrow> ram s x)\<rparr>"

text \<open>The call of \<open>push_arguments\<close>, with the page it takes for its copy of the command line.\<close>

definition load_arguments :: "nat \<Rightarrow> nat \<Rightarrow> nat \<Rightarrow> nat \<Rightarrow> machine \<Rightarrow> (bool \<times> nat \<times> machine) option" where
  "load_arguments d pagedir esp file_name s = do {
     (cmd_copy, s) \<leftarrow> palloc_get_page 0 s;
     (success, esp, u, m) \<leftarrow> push_arguments (kmem s) d (if cmd_copy = NULL then None else Some cmd_copy) (user_mem s pagedir) esp file_name;
     let s = set_user_mem u pagedir (set_kmem m s);
     s \<leftarrow> (if cmd_copy = NULL then Some s else palloc_free_page cmd_copy s);
     Some (success, esp, s) }"

text \<open>\<open>filesys_open\<close> on the first word of the command line; \<open>dir_lookup\<close> has an assertion that there is one.\<close>

definition open_program :: "bytes \<Rightarrow> nat \<Rightarrow> fs \<Rightarrow> (nat \<times> fs) option" where
  "open_program m prog_name v =
     (if prog_name = NULL
      then do { (dir, v) \<leftarrow> dir_open_root v; ASSERT (dir = NULL); v \<leftarrow> dir_close v dir; file_open v NULL }
      else filesys_open v (cstr m prog_name))"

text \<open>From the open file to the entry point; the result has \<open>success\<close>, \<open>eip\<close> and \<open>esp\<close>.\<close>

definition load_file :: "nat \<Rightarrow> nat \<Rightarrow> nat \<Rightarrow> nat \<Rightarrow> machine \<Rightarrow> fs \<Rightarrow> (bool \<times> nat \<times> nat \<times> machine \<times> fs) option" where
  "load_file d pagedir file file_name s v = do {
     (data, v) \<leftarrow> file_read v file (int EHDR_SIZE);
     if length data \<noteq> EHDR_SIZE \<or> \<not> ehdr_ok (ehdr_of data) then Some (False, 0, 0, s, v)
     else do {
       (ok, s, v) \<leftarrow> load_phdrs (e_phnum (ehdr_of data)) pagedir file (s32 (int (e_phoff (ehdr_of data)))) s v;
       if \<not> ok then Some (False, 0, 0, s, v)
       else do {
         (ok, esp, s) \<leftarrow> setup_stack pagedir s;
         if \<not> ok then Some (False, 0, esp, s, v)
         else do {
           (ok, esp, s) \<leftarrow> load_arguments d pagedir esp file_name s;
           Some (ok, if ok then e_entry (ehdr_of data) else 0, esp, s, v) } } } }"

text \<open>The result has \<open>success\<close>, \<open>eip\<close>, \<open>esp\<close>, the directory and the executable of the thread.\<close>

definition load :: "nat \<Rightarrow> nat \<Rightarrow> machine \<Rightarrow> fs \<Rightarrow> (bool \<times> nat \<times> nat \<times> nat \<times> nat \<times> machine \<times> fs) option" where
  "load d file_name s v = do {
     (pd, s) \<leftarrow> pagedir_create s;
     if pd = NULL then Some (False, 0, 0, pd, NULL, s, v)
     else do {
       s \<leftarrow> pagedir_activate s pd;
       (fn_copy, s) \<leftarrow> palloc_get_page 0 s;
       if fn_copy = NULL then Some (False, 0, 0, pd, NULL, s, v)
       else do {
         (_, m) \<leftarrow> strlcpy (kmem s) fn_copy file_name PGSIZE;
         (prog_name, _, m) \<leftarrow> strtok_r m fn_copy d NULL;
         (file, v) \<leftarrow> open_program m prog_name v;
         s \<leftarrow> palloc_free_page fn_copy (set_kmem m s);
         if file = NULL then Some (False, 0, 0, pd, NULL, s, v)
         else do {
           (success, eip, esp, s, v) \<leftarrow> load_file d pd file file_name s v;
           if success
           then do { v \<leftarrow> file_deny_write v file; Some (True, eip, esp, pd, file, s, v) }
           else do { v \<leftarrow> file_close v file; Some (False, eip, esp, pd, NULL, s, v) } } } } }"

section \<open>The file\<close>

text \<open>An open file with contents \<open>bs\<close> at position \<open>pos\<close>, and what a step of the loader leaves alone.\<close>

definition file_at :: "fs \<Rightarrow> nat \<Rightarrow> bytes \<Rightarrow> nat \<Rightarrow> bool" where
  "file_at v file bs pos \<longleftrightarrow> fs_inv v \<and> (\<exists>h. a_handles (abs_fs v) file = Some h \<and> data_of (abs_fs v) (h_object h) = bs \<and> h_pos h = int pos)"

definition reads_only :: "nat \<Rightarrow> fs \<Rightarrow> fs \<Rightarrow> bool" where
  "reads_only file v v' \<longleftrightarrow> a_names (abs_fs v') = a_names (abs_fs v) \<and> a_data (abs_fs v') = a_data (abs_fs v) \<and>
     (\<forall>g. map_option h_object (a_handles (abs_fs v') g) = map_option h_object (a_handles (abs_fs v) g)) \<and>
     (\<forall>g. g \<noteq> file \<longrightarrow> a_handles (abs_fs v') g = a_handles (abs_fs v) g)"

lemma reads_only_refl [simp]: "reads_only file v v"
  by (simp add: reads_only_def)

lemma reads_only_trans: "reads_only file v v' \<Longrightarrow> reads_only file v' v'' \<Longrightarrow> reads_only file v v''"
  by (simp add: reads_only_def)

lemma file_at_length:
  assumes "file_at v file bs pos"
  shows "length bs < 2 ^ 31" "file_length v file = Some (int (length bs))"
proof -
  obtain h where h: "fs_inv v" "handles v file = Some h" "data_of (abs_fs v) (h_object h) = bs"
    using assms by (auto simp: file_at_def abs_fs_def)
  obtain fl where fl: "file \<noteq> free_map_file v" "files v file = Some fl" "sector_of v (f_inode fl) = Some (h_object h)"
    using h(2) by (auto simp: handles_def split: if_splits option.splits)
  have "h_object h \<in> objects (names v) (handles v)" using h(2) by (auto simp: objects_def ran_def)
  then have bs: "bs = content v (h_object h)" using h(3) by (simp add: abs_fs_def)
  then show "file_length v file = Some (int (length bs))" using file_length_ok [OF fs_invD [OF h(1)] fl(2,1,3)] by simp
  have "inode_fits (fs_device v) (dinode (fs_device v) (h_object h))"
    by (rule file_inode [OF fs_invD [OF h(1)] fl(2,1)]) (use fl(3) in auto)
  then show "length bs < 2 ^ 31" using invD(2) [OF fs_invD [OF h(1)]] by (auto simp: bs content_def inode_fits_def nat_less_iff)
qed

lemma file_exec:
  assumes "fs_inv v" "valid_call (abs_fs v) c"
  obtains r v' where "fs_exec (replicate 20 0) v c = Some (r, v')" "fs_inv v'" "spec (abs_fs v) c r (abs_fs v')"
  using fs_exec_implements [OF assms, of "replicate 20 0"] by (auto simp: implements_def)

lemma file_read_step:
  assumes "file_at v file bs pos" "n < 2 ^ 31"
  obtains v' where "file_read v file (int n) = Some (chunk bs pos n, v')" "file_at v' file bs (pos + length (chunk bs pos n))" "reads_only file v v'"
proof -
  obtain h where h: "fs_inv v" "a_handles (abs_fs v) file = Some h" "data_of (abs_fs v) (h_object h) = bs" "h_pos h = int pos"
    using assms(1) by (auto simp: file_at_def)
  have "valid_call (abs_fs v) (Read file n)" using h(2) assms(2) by auto
  then obtain r v' where r: "fs_exec (replicate 20 0) v (Read file n) = Some (r, v')" "fs_inv v'" "spec (abs_fs v) (Read file n) r (abs_fs v')"
    by (rule file_exec [OF h(1)])
  let ?b = "chunk bs pos n"
  have a: "r = Bytes ?b" "abs_fs v' = (abs_fs v)\<lparr>a_handles := (a_handles (abs_fs v))(file \<mapsto> h\<lparr>h_pos := int pos + int (length ?b)\<rparr>)\<rparr>"
    using r(3) h(2-4) by auto
  have "file_read v file (int n) = Some (?b, v')" using r(1) a(1) by (auto simp: fs_exec_def)
  moreover have "file_at v' file bs (pos + length ?b)" using r(2) h(3) by (simp add: file_at_def a(2) data_of_def)
  moreover have "reads_only file v v'" using h(2) by (simp add: reads_only_def a(2))
  ultimately show ?thesis by (rule that)
qed

lemma file_seek_step:
  assumes "file_at v file bs pos" "0 \<le> ofs" "ofs < 2 ^ 31"
  obtains v' where "file_seek v file ofs = Some v'" "file_at v' file bs (nat ofs)" "reads_only file v v'"
proof -
  obtain h where h: "fs_inv v" "a_handles (abs_fs v) file = Some h" "data_of (abs_fs v) (h_object h) = bs"
    using assms(1) by (auto simp: file_at_def)
  have "valid_call (abs_fs v) (Seek file ofs)" using h(2) assms(2,3) by auto
  then obtain r v' where r: "fs_exec (replicate 20 0) v (Seek file ofs) = Some (r, v')" "fs_inv v'" "spec (abs_fs v) (Seek file ofs) r (abs_fs v')"
    by (rule file_exec [OF h(1)])
  have a: "abs_fs v' = (abs_fs v)\<lparr>a_handles := (a_handles (abs_fs v))(file \<mapsto> h\<lparr>h_pos := ofs\<rparr>)\<rparr>" using r(3) h(2) by auto
  have "file_seek v file ofs = Some v'" using r(1) by (auto simp: fs_exec_def)
  moreover have "file_at v' file bs (nat ofs)" using r(2) h(3) assms(2) by (simp add: file_at_def a data_of_def)
  moreover have "reads_only file v v'" using h(2) by (simp add: reads_only_def a)
  ultimately show ?thesis by (rule that)
qed

section \<open>The memory of a process\<close>

text \<open>What a process sees at an address: the byte, and whether it may write it.\<close>

definition uview :: "machine \<Rightarrow> nat \<Rightarrow> nat \<Rightarrow> (u8 \<times> bool) option" where
  "uview s pd a = map_option (\<lambda>(k, w). (ram s (k + a mod PGSIZE), w)) (mapping s pd (a div PGSIZE))"

lemma frame_page: "k mod PGSIZE = 0 \<Longrightarrow> page_of (k + a mod PGSIZE) = k"
  by (rule page_of_in) (simp_all add: PGSIZE_def)

lemma uview_kept:
  assumes "pools_ok s" "pd_ok s pd" "mapping s' pd = mapping s pd" "changes W s s'" "W \<inter> frames s pd = {}"
  shows "uview s' pd = uview s pd"
proof
  fix a
  show "uview s' pd a = uview s pd a"
  proof (cases "mapping s pd (a div PGSIZE)")
    case (Some e)
    obtain k w where e: "e = (k, w)" by fastforce
    have k: "k \<in> frames s pd" using Some e unfolding in_frames by blast
    then have "k \<in> allocated s" using assms(2) by (auto simp: pd_ok_def allocated_def)
    from allocated_page(1) [OF assms(1) this] have "k mod PGSIZE = 0" by (simp add: kernel_page_def PGSIZE_def)
    then have "ram s' (k + a mod PGSIZE) = ram s (k + a mod PGSIZE)"
      using k assms(5) frame_page by (intro changesD(2) [OF assms(4)]) auto
    then show ?thesis using Some e assms(3) by (simp add: uview_def)
  qed (simp add: uview_def assms(3))
qed

lemma uview_other:
  assumes "spaces_ok K s pds" "i < length pds" "mapping s' (pds ! i) = mapping s (pds ! i)" "changes W s s'" "W \<inter> frames s (pds ! i) = {}"
  shows "uview s' (pds ! i) = uview s (pds ! i)"
  using spaces_okD [OF assms(1)] assms(2-5) by (intro uview_kept) auto

text \<open>A page with the bytes \<open>f\<close> at \<open>upage\<close>.\<close>

definition with_page :: "nat \<Rightarrow> (nat \<Rightarrow> u8) \<Rightarrow> bool \<Rightarrow> (nat \<Rightarrow> (u8 \<times> bool) option) \<Rightarrow> nat \<Rightarrow> (u8 \<times> bool) option" where
  "with_page upage f w u a = (if upage \<le> a \<and> a < upage + PGSIZE then Some (f (a - upage), w) else u a)"

definition unmapped :: "nat \<Rightarrow> nat \<Rightarrow> (nat \<Rightarrow> (u8 \<times> bool) option) \<Rightarrow> bool" where
  "unmapped upage n u \<longleftrightarrow> (\<forall>a. upage \<le> a \<and> a < upage + n \<longrightarrow> u a = None)"

lemma in_page: "upage mod PGSIZE = 0 \<Longrightarrow> a div PGSIZE = upage div PGSIZE \<longleftrightarrow> upage \<le> a \<and> a < upage + PGSIZE"
  using page_of_in [of upage a] page_of_bounds(1,2) [of a] by (auto simp: page_of_def PGSIZE_def)

lemma install_view:
  assumes "spaces_ok K s pds" "i < length pds" "upage mod PGSIZE = 0" "is_user_vaddr upage" "new_page s k s1"
  obtains (fail) s2 where "install_page s1 (pds ! i) upage k w = Some (False, s1)" "palloc_free_page k s1 = Some s2" "spaces_ok K s2 pds"
      "kernel_kept K s s2" "map (uview s2) pds = map (uview s) pds" "uview s (pds ! i) upage \<noteq> None \<or> spare False s = 0"
  | (ok) s2 where "install_page s1 (pds ! i) upage k w = Some (True, s2)" "spaces_ok K s2 pds" "kernel_kept K s s2"
      "map (uview s2) pds = (map (uview s) pds)[i := with_page upage (\<lambda>n. ram s1 (k + n)) w (uview s (pds ! i))]"
      "unmapped upage PGSIZE (uview s (pds ! i))" "\<And>u. spare u s \<le> Suc (spare u s2)"
proof -
  note D = spaces_okD [OF assms(1)] and n = assms(5) [unfolded new_page_def]
  have nk: "k \<notin> frames s (pds ! j)" if "j < length pds" for j using owned_allocated [OF D(6) [OF that]] n by (auto simp: owned_def)
  show ?thesis
  proof (cases rule: install_new [OF assms, where w = w, case_names fail ok])
    case (fail s2)
    have "uview s2 (pds ! j) = uview s (pds ! j)" if "j < length pds" for j
      by (rule uview_other [OF assms(1) that _ fail(6)]) (use fail(5) nk that in \<open>auto simp: list_eq_iff_nth_eq\<close>)
    then have "map (uview s2) pds = map (uview s) pds" by (auto simp: in_set_conv_nth)
    moreover have "uview s (pds ! i) upage \<noteq> None \<or> spare False s = 0" using fail(7) by (auto simp: uview_def)
    ultimately show ?thesis using that(1) fail(1-4) by blast
  next
    case (ok s2)
    note D2 = spaces_okD [OF ok(2)]
    let ?W = "insert k (insert (pds ! i) (tables s2 (pds ! i)))"
    have map2: "mapping s2 (pds ! j) = (if j = i then (mapping s (pds ! i))(upage div PGSIZE \<mapsto> (k, w)) else mapping s (pds ! j))" if "j < length pds" for j
      using ok(5) that by (auto simp: list_eq_iff_nth_eq nth_list_update)
    have dj: "?W \<inter> frames s (pds ! j) = {}" if "j < length pds" for j
    proof -
      have "x \<in> frames s2 (pds ! j)" if x: "x \<in> frames s (pds ! j)" for x
      proof -
        obtain y b where "mapping s (pds ! j) y = Some (x, b)" using x unfolding in_frames by blast
        then have "mapping s2 (pds ! j) y = Some (x, b)" using map2 [OF \<open>j < length pds\<close>] ok(4) by (cases "j = i") auto
        then show ?thesis unfolding in_frames by blast
      qed
      then have "frames s (pds ! j) \<subseteq> pool_pages (user_pool s2)" using D2(6) [OF that] by (auto simp: pd_ok_def)
      moreover have "insert (pds ! i) (tables s2 (pds ! i)) \<subseteq> pool_pages (kernel_pool s2)" using D2(6) [OF assms(2)] by (auto simp: pd_ok_def)
      ultimately show ?thesis using nk [OF that] pools_disjoint [OF D2(1), of True] by (auto simp: pool_of_def)
    qed
    have vi: "uview s2 (pds ! i) = with_page upage (\<lambda>n. ram s1 (k + n)) w (uview s (pds ! i))"
    proof
      fix a
      show "uview s2 (pds ! i) a = with_page upage (\<lambda>n. ram s1 (k + n)) w (uview s (pds ! i)) a"
      proof (cases "a div PGSIZE = upage div PGSIZE")
        case True
        then have b: "upage \<le> a" "a < upage + PGSIZE" using in_page [OF assms(3)] by blast+
        then have "a mod PGSIZE = a - upage" using assms(3) True by (metis add_diff_cancel_left' minus_div_mult_eq_mod minus_mod_eq_div_mult diff_zero)
        then show ?thesis using True b ok(7) frame_page [of k a] n map2 [OF assms(2)] by (simp add: uview_def with_page_def)
      next
        case False
        then have b: "\<not> (upage \<le> a \<and> a < upage + PGSIZE)" using in_page [OF assms(3)] by blast
        show ?thesis
        proof (cases "mapping s (pds ! i) (a div PGSIZE)")
          case None
          then show ?thesis using False b map2 [OF assms(2)] by (simp add: uview_def with_page_def)
        next
          case (Some e)
          obtain k' w' where e: "e = (k', w')" by fastforce
          have k': "k' \<in> frames s (pds ! i)" using Some e unfolding in_frames by blast
          then have "k' \<in> allocated s" using D(6) [OF assms(2)] by (auto simp: pd_ok_def allocated_def)
          from allocated_page(1) [OF D(1) this] have "k' mod PGSIZE = 0" by (simp add: kernel_page_def PGSIZE_def)
          then have "ram s2 (k' + a mod PGSIZE) = ram s (k' + a mod PGSIZE)"
            by (intro changesD(2) [OF ok(6)]) (use frame_page [of k' a] k' dj [OF assms(2)] in auto)
          then show ?thesis using False b Some e map2 [OF assms(2)] by (auto simp: uview_def with_page_def)
        qed
      qed
    qed
    have "uview s2 (pds ! j) = uview s (pds ! j)" if "j < length pds" "j \<noteq> i" for j
      by (rule uview_other [OF assms(1) that(1) _ ok(6) dj [OF that(1)]]) (use map2 [OF that(1)] that(2) in simp)
    from map_update_one [of i pds "uview s2" "uview s", OF assms(2) this]
    have "map (uview s2) pds = (map (uview s) pds)[i := with_page upage (\<lambda>n. ram s1 (k + n)) w (uview s (pds ! i))]" by (simp add: vi)
    moreover have "unmapped upage PGSIZE (uview s (pds ! i))"
      unfolding unmapped_def using in_page [OF assms(3)] ok(4) by (metis uview_def option.map_disc_iff)
    ultimately show ?thesis using that(2) [OF ok(1-3)] ok(8) by blast
  qed
qed

section \<open>Loading a segment\<close>

definition with_segment :: "nat \<Rightarrow> bytes \<Rightarrow> nat \<Rightarrow> bool \<Rightarrow> (nat \<Rightarrow> (u8 \<times> bool) option) \<Rightarrow> nat \<Rightarrow> (u8 \<times> bool) option" where
  "with_segment upage bs zeros w u a =
     (if upage \<le> a \<and> a < upage + length bs + zeros then Some (if a < upage + length bs then bs ! (a - upage) else 0, w) else u a)"

lemma outside_page: "k mod PGSIZE = 0 \<Longrightarrow> page_of x \<noteq> k \<Longrightarrow> x < k \<or> k + PGSIZE \<le> x"
  using page_of_in [of k x] by linarith

text \<open>The page that one turn of the loop builds.\<close>

lemma page_contents:
  assumes "k mod PGSIZE = 0" "length data = n" "n \<le> PGSIZE" "r = fill (k + n) (PGSIZE - n) 0 (put_bytes k data m)"
  shows "page_of x \<noteq> k \<Longrightarrow> r x = m x" "j < PGSIZE \<Longrightarrow> r (k + j) = (if j < n then data ! j else 0)"
proof -
  show "r x = m x" if "page_of x \<noteq> k"
    using outside_page [OF assms(1) that] assms(2,3) by (auto simp: assms(4) fill_def put_bytes_def)
  show "r (k + j) = (if j < n then data ! j else 0)" if "j < PGSIZE"
    using that assms(2,3) by (auto simp: assms(4) fill_def put_bytes_def)
qed

lemma segment_step:
  assumes "n = min read PGSIZE" "read + zero = PGSIZE * Suc m" "data = chunk bs pos n" "length data = n"
    "upage \<le> 2 ^ 32 - PGSIZE" "\<And>j. j < PGSIZE \<Longrightarrow> f j = (if j < n then data ! j else 0)" "pos + read \<le> length bs"
  shows "with_segment (upage + PGSIZE) (chunk bs (pos + n) (read - n)) (zero - (PGSIZE - n)) w (with_page upage f w u) =
    with_segment upage (chunk bs pos read) zero w u"
proof
  fix a
  have l: "length (chunk bs pos read) = read" "length (chunk bs (pos + n) (read - n)) = read - n" using assms(1,7) by (auto simp: length_chunk)
  show "with_segment (upage + PGSIZE) (chunk bs (pos + n) (read - n)) (zero - (PGSIZE - n)) w (with_page upage f w u) a =
    with_segment upage (chunk bs pos read) zero w u a"
  proof (cases "upage \<le> a \<and> a < upage + PGSIZE")
    case True
    then have j: "a - upage < PGSIZE" by linarith
    have "f (a - upage) = (if a < upage + read then chunk bs pos read ! (a - upage) else 0)"
      using assms(6) [OF j] assms(1,3,4,7) True j l by (auto simp: nth_chunk min_def split: if_splits)
    moreover have "a < upage + read + zero" using True assms(2) by simp
    ultimately show ?thesis using True l by (simp add: with_segment_def with_page_def)
  next
    case False
    have b: "upage + PGSIZE + (read - n) + (zero - (PGSIZE - n)) = upage + read + zero" using assms(1,2) by (auto simp: min_def)
    show ?thesis
    proof (cases "upage + PGSIZE \<le> a \<and> a < upage + read + zero")
      case True
      have "upage + PGSIZE + (read - n) = (if read < PGSIZE then upage + PGSIZE else upage + read)" using assms(1) by (auto simp: min_def)
      then show ?thesis using True False l b assms(1,7) by (auto simp: with_segment_def nth_chunk min_def split: if_splits)
    next
      case out: False
      then show ?thesis using False l b by (auto simp: with_segment_def with_page_def)
    qed
  qed
qed

lemma sub32_id: "b \<le> a \<Longrightarrow> a < 2 ^ 32 \<Longrightarrow> sub32 a b = a - b"
proof -
  assume "b \<le> a" "a < 2 ^ 32"
  then have e: "a + 2 ^ 32 - b = a - b + 2 ^ 32" "a - b < 2 ^ 32" by simp_all
  show ?thesis unfolding sub32_def e(1) mod_add_self2 by (rule mod_less [OF e(2)])
qed

text \<open>
  How loading ends: with everything but the process \<open>i\<close> as it was. It succeeds if \<open>c\<close> holds and the pools have
  \<open>m\<close> pages, and then the process sees \<open>u\<close>.
\<close>

definition segment_done ::
  "nat set \<Rightarrow> nat list \<Rightarrow> nat \<Rightarrow> nat \<Rightarrow> bytes \<Rightarrow> machine \<Rightarrow> fs \<Rightarrow> bool \<Rightarrow> nat \<Rightarrow> (nat \<Rightarrow> (u8 \<times> bool) option) \<Rightarrow> (bool \<times> machine \<times> fs) option \<Rightarrow> bool" where
  "segment_done K pds i file bs s v c m u r \<longleftrightarrow> (\<exists>ok s' v' pos. r = Some (ok, s', v') \<and> spaces_ok K s' pds \<and> kernel_kept K s s' \<and>
     file_at v' file bs pos \<and> reads_only file v v' \<and> (\<forall>j<length pds. j \<noteq> i \<longrightarrow> uview s' (pds ! j) = uview s (pds ! j)) \<and>
     (if ok then c \<and> uview s' (pds ! i) = u \<and> (\<forall>b. spare b s \<le> spare b s' + m) else c \<longrightarrow> (\<exists>b. spare b s < m)))"

lemma map_nth_eq: "map f xs = map g xs \<Longrightarrow> j < length xs \<Longrightarrow> f (xs ! j) = g (xs ! j)"
  by (metis nth_map length_map)

lemma segment_failed:
  assumes "spaces_ok K s' pds" "kernel_kept K s s'" "file_at v' file bs pos" "reads_only file v v'" "map (uview s') pds = map (uview s) pds"
    "c \<Longrightarrow> \<exists>b. spare b s < m"
  shows "segment_done K pds i file bs s v c m u (Some (False, s', v'))"
  unfolding segment_done_def
  by (intro exI [of _ False] exI [of _ s'] exI [of _ v'] exI [of _ pos]) (use assms(1-4,6) map_nth_eq [OF assms(5)] in simp)

lemma segment_more:
  assumes "segment_done K pds i file bs s1 v1 c m u r" "kernel_kept K s s1" "reads_only file v v1"
    "\<And>j. j < length pds \<Longrightarrow> j \<noteq> i \<Longrightarrow> uview s1 (pds ! j) = uview s (pds ! j)" "\<And>b. spare b s \<le> spare b s1 + k" "c \<longleftrightarrow> c'" "c \<Longrightarrow> u = u'"
  shows "segment_done K pds i file bs s v c' (k + m) u' r"
proof -
  obtain ok s' v' pos where r: "r = Some (ok, s', v')" "spaces_ok K s' pds" "kernel_kept K s1 s'" "file_at v' file bs pos" "reads_only file v1 v'"
      "\<forall>j<length pds. j \<noteq> i \<longrightarrow> uview s' (pds ! j) = uview s1 (pds ! j)"
      "if ok then c \<and> uview s' (pds ! i) = u \<and> (\<forall>b. spare b s1 \<le> spare b s' + m) else c \<longrightarrow> (\<exists>b. spare b s1 < m)"
    using assms(1) unfolding segment_done_def by blast
  have "spare b s \<le> spare b s' + (k + m)" if "spare b s1 \<le> spare b s' + m" for b using assms(5) [of b] that by linarith
  moreover have "spare b s < k + m" if "spare b s1 < m" for b using assms(5) [of b] that by linarith
  ultimately have "if ok then c' \<and> uview s' (pds ! i) = u' \<and> (\<forall>b. spare b s \<le> spare b s' + (k + m)) else c' \<longrightarrow> (\<exists>b. spare b s < k + m)"
    using r(7) assms(6,7) by (auto split: if_splits)
  then show ?thesis unfolding segment_done_def
    by (intro exI [of _ ok] exI [of _ s'] exI [of _ v'] exI [of _ pos])
      (use r assms(4) kernel_kept_trans [OF assms(2) r(3)] reads_only_trans [OF assms(3) r(5)] in simp)
qed

lemma unmapped_page:
  assumes "unmapped upage PGSIZE u"
  shows "unmapped (upage + PGSIZE) (PGSIZE * m) (with_page upage f w u) \<longleftrightarrow> unmapped upage (PGSIZE * Suc m) u"
proof -
  have "u x = None" if "unmapped (upage + PGSIZE) (PGSIZE * m) (with_page upage f w u)" "upage \<le> x" "x < upage + PGSIZE * Suc m" for x
    using assms that by (cases "x < upage + PGSIZE") (auto simp: unmapped_def with_page_def)
  then show ?thesis by (auto simp: unmapped_def with_page_def)
qed

lemma load_pages_ok:
  "spaces_ok K s pds \<Longrightarrow> i < length pds \<Longrightarrow> file_at v file bs pos \<Longrightarrow> upage mod PGSIZE = 0 \<Longrightarrow> read + zero = PGSIZE * m \<Longrightarrow>
   upage + read + zero \<le> PHYS_BASE \<Longrightarrow> pos \<le> length bs \<Longrightarrow>
   segment_done K pds i file bs s v (pos + read \<le> length bs \<and> unmapped upage (read + zero) (uview s (pds ! i))) m
     (with_segment upage (chunk bs pos read) zero w (uview s (pds ! i))) (load_pages (pds ! i) file w upage read zero s v)"
proof (induction m arbitrary: s v upage read zero pos)
  case 0
  then have z: "read = 0" "zero = 0" by simp_all
  have "with_segment upage (chunk bs pos read) zero w (uview s (pds ! i)) = uview s (pds ! i)" by (rule ext) (auto simp: z with_segment_def)
  moreover have "load_pages (pds ! i) file w upage read zero s v = Some (True, s, v)" by (subst load_pages.simps) (simp add: z)
  moreover have "pos + read \<le> length bs \<and> unmapped upage (read + zero) (uview s (pds ! i))" using 0(7) by (auto simp: z unmapped_def)
  ultimately show ?case using 0(1,3) by (auto simp: segment_done_def kernel_kept_def)
next
  case (Suc m)
  note D = spaces_okD [OF Suc.prems(1)]
  define n where "n = min read PGSIZE"
  have n: "(if read < PGSIZE then read else PGSIZE) = n" "n \<le> read" "n \<le> PGSIZE" "PGSIZE - n \<le> zero" "\<not> (read = 0 \<and> zero = 0)"
    using Suc.prems(5) by (auto simp: n_def min_def PGSIZE_def)
  have sz: "read < 2 ^ 32" "zero < 2 ^ 32" "upage < PHYS_BASE" "n < 2 ^ 31"
    using Suc.prems(5,6) n(3) by (auto simp: PHYS_BASE_def PGSIZE_def)
  have up: "is_user_vaddr upage" using sz(3) by (simp add: is_user_vaddr_def)
  have bnd: "upage + PGSIZE \<le> PHYS_BASE" using Suc.prems(5,6) by simp
  then have wr: "wrap32 (upage + PGSIZE) = upage + PGSIZE" by (simp add: wrap32_def PHYS_BASE_def)
  have fl: "PAL_USER AND PAL_ASSERT = 0" "PAL_USER AND PAL_USER \<noteq> 0" by (simp_all add: PAL_USER_def PAL_ASSERT_def)
  show ?case
  proof (cases rule: get_user_page [OF D(1) fl, case_names none got])
    case none
    then have "load_pages (pds ! i) file w upage read zero s v = Some (False, s, v)" using n(5) by (subst load_pages.simps) auto
    moreover have "spare True s = 0" by (rule palloc_get_page_none [OF D(1) fl(1) _ none]) (use fl(2) in blast)
    then have "\<exists>b. spare b s < Suc m" by (metis zero_less_Suc)
    ultimately show ?thesis using segment_failed [OF Suc.prems(1) _ Suc.prems(3) reads_only_refl, of s] by (simp add: kernel_kept_def)
  next
    case (got k s1)
    have k: "k \<noteq> NULL" "k mod PGSIZE = 0" using got(2) by (simp_all add: new_page_def)
    obtain v1 where v1: "file_read v file (int n) = Some (chunk bs pos n, v1)" "file_at v1 file bs (pos + length (chunk bs pos n))" "reads_only file v v1"
      by (rule file_read_step [OF Suc.prems(3) sz(4)])
    let ?data = "chunk bs pos n"
    have ld: "length ?data \<le> n" by (simp add: chunk_def)
    define s2 where "s2 = s1\<lparr>ram := put_bytes k ?data (ram s1)\<rparr>"
    have np2: "new_page s k s2" unfolding s2_def
      by (rule new_page_write [OF got(2)]) (use outside_page [OF k(2)] ld n(3) in \<open>fastforce simp: put_bytes_def\<close>)
    show ?thesis
    proof (cases "length ?data = n")
      case False
      obtain s3 where s3: "palloc_free_page k s2 = Some s3" "spaces_ok K s3 pds" "kernel_kept K s s3" "map (mapping s3) pds = map (mapping s) pds" "changes {k} s s3"
        by (rule discard_new [OF Suc.prems(1) np2])
      have "uview s3 (pds ! j) = uview s (pds ! j)" if "j < length pds" for j
        by (rule uview_other [OF Suc.prems(1) that _ s3(5)])
          (use s3(4) that np2 owned_allocated [OF D(6) [OF that]] in \<open>auto simp: list_eq_iff_nth_eq new_page_def owned_def\<close>)
      then have "map (uview s3) pds = map (uview s) pds" by (auto simp: in_set_conv_nth)
      moreover have "load_pages (pds ! i) file w upage read zero s v = Some (False, s3, v1)"
        using n got(1) k(1) v1(1) False s3(1) by (subst load_pages.simps) (auto simp: Let_def s2_def)
      moreover have "\<not> pos + read \<le> length bs" using False n(2) by (auto simp: chunk_def)
      ultimately show ?thesis using segment_failed [OF s3(2,3) v1(2,3)] by simp
    next
      case True
      define r where "r = fill (k + n) (PGSIZE - n) 0 (put_bytes k ?data (ram s1))"
      define s3 where "s3 = s1\<lparr>ram := r\<rparr>"
      note pc = page_contents [OF k(2) True n(3) r_def]
      have np3: "new_page s k s3" unfolding s3_def by (rule new_page_write [OF got(2)]) (use pc(1) in blast)
      have s3: "s2\<lparr>ram := fill (k + n) (PGSIZE - n) 0 (ram s2)\<rparr> = s3" by (simp add: s2_def s3_def r_def)
      have pos: "pos + n \<le> length bs" using True Suc.prems(7) by (simp add: chunk_def)
      show ?thesis
      proof (cases rule: install_view [OF Suc.prems(1,2,4) up np3, where w = w, case_names fail ok])
        case (fail s4)
        have "load_pages (pds ! i) file w upage read zero s v = Some (False, s4, v1)"
          using n got(1) k(1) v1(1) True fail(1,2) s3 by (subst load_pages.simps) (auto simp: Let_def s2_def [symmetric])
        moreover have "\<exists>b. spare b s < Suc m" if "unmapped upage (read + zero) (uview s (pds ! i))"
        proof -
          have "uview s (pds ! i) upage = None" using that Suc.prems(5) by (simp add: unmapped_def PGSIZE_def)
          then show ?thesis using fail(6) by (metis zero_less_Suc)
        qed
        ultimately show ?thesis using segment_failed [OF fail(3,4) v1(2,3) fail(5)] by simp
      next
        case (ok s4)
        have e: "load_pages (pds ! i) file w upage read zero s v = load_pages (pds ! i) file w (upage + PGSIZE) (read - n) (zero - (PGSIZE - n)) s4 v1"
          using n got(1) k(1) v1(1) True ok(1) s3 sub32_id [OF n(2) sz(1)] sub32_id [OF n(4) sz(2)] wr
          by (subst load_pages.simps) (auto simp: Let_def s2_def [symmetric])
        have vi: "uview s4 (pds ! i) = with_page upage (\<lambda>n. ram s3 (k + n)) w (uview s (pds ! i))"
          using arg_cong [OF ok(4), of "\<lambda>xs. xs ! i"] Suc.prems(2) by simp
        have vj: "uview s4 (pds ! j) = uview s (pds ! j)" if "j < length pds" "j \<noteq> i" for j
          using arg_cong [OF ok(4), of "\<lambda>xs. xs ! j"] that by simp
        have IH: "segment_done K pds i file bs s4 v1 (pos + n + (read - n) \<le> length bs \<and> unmapped (upage + PGSIZE) (read - n + (zero - (PGSIZE - n))) (uview s4 (pds ! i))) m
            (with_segment (upage + PGSIZE) (chunk bs (pos + n) (read - n)) (zero - (PGSIZE - n)) w (uview s4 (pds ! i)))
            (load_pages (pds ! i) file w (upage + PGSIZE) (read - n) (zero - (PGSIZE - n)) s4 v1)"
          by (rule Suc.IH [OF ok(2) Suc.prems(2)]) (use v1(2) True Suc.prems(4-6) n pos in \<open>auto simp: PGSIZE_def\<close>)
        have rz: "read - n + (zero - (PGSIZE - n)) = PGSIZE * m" using Suc.prems(5) n(2-4) by simp
        have c: "pos + n + (read - n) \<le> length bs \<and> unmapped (upage + PGSIZE) (read - n + (zero - (PGSIZE - n))) (uview s4 (pds ! i)) \<longleftrightarrow>
            pos + read \<le> length bs \<and> unmapped upage (read + zero) (uview s (pds ! i))"
          unfolding rz Suc.prems(5) vi using n(2) unmapped_page [OF ok(5), of m] by simp
        have "with_segment (upage + PGSIZE) (chunk bs (pos + n) (read - n)) (zero - (PGSIZE - n)) w (uview s4 (pds ! i)) =
            with_segment upage (chunk bs pos read) zero w (uview s (pds ! i))" if full: "pos + n + (read - n) \<le> length bs \<and> unmapped (upage + PGSIZE) (read - n + (zero - (PGSIZE - n))) (uview s4 (pds ! i))"
          unfolding vi by (rule segment_step [OF n_def Suc.prems(5) refl True]) (use bnd pc(2) c full in \<open>simp_all add: s3_def PHYS_BASE_def\<close>)
        from segment_more [OF IH ok(3) v1(3) vj _ c this, of 1] show ?thesis using ok(6) unfolding e by simp
      qed
    qed
  qed
qed

lemma load_segment_ok:
  assumes "spaces_ok K s pds" "i < length pds" "file_at v file bs pos" "upage mod PGSIZE = 0" "read + zero = PGSIZE * m"
    "upage + read + zero \<le> PHYS_BASE" "ofs mod PGSIZE = 0" "ofs \<le> length bs"
  shows "segment_done K pds i file bs s v (ofs + read \<le> length bs \<and> unmapped upage (read + zero) (uview s (pds ! i))) m
    (with_segment upage (chunk bs ofs read) zero w (uview s (pds ! i))) (load_segment (pds ! i) file (int ofs) upage read zero w s v)"
proof -
  have b: "int ofs < 2 ^ 31" using file_at_length(1) [OF assms(3)] assms(8) by simp
  obtain v1 where v1: "file_seek v file (int ofs) = Some v1" "file_at v1 file bs (nat (int ofs))" "reads_only file v v1"
    by (rule file_seek_step [OF assms(3) _ b]) simp
  have "read + zero < 2 ^ 32" using assms(6) by (simp add: PHYS_BASE_def)
  then have w: "wrap32 (read + zero) mod PGSIZE = 0" using assms(5) by (simp add: wrap32_id)
  have "int ofs smod int PGSIZE = int (ofs mod PGSIZE)" by (simp add: signed_modulo_int_def sgn_if zmod_int)
  then have "load_segment (pds ! i) file (int ofs) upage read zero w s v = load_pages (pds ! i) file w upage read zero s v1"
    using v1(1) w assms(4,7) by (simp add: load_segment_def pg_ofs_mod PGSIZE_def)
  moreover have "file_at v1 file bs ofs" using v1(2) by simp
  note lp = load_pages_ok [OF assms(1,2) this assms(4-6,8), of w]
  ultimately show ?thesis using segment_more [OF lp _ v1(3), of s 0] by (simp add: kernel_kept_def)
qed

text \<open>When a program header is accepted, and what it does to the memory of the process.\<close>

definition segment_valid :: "bytes \<Rightarrow> Elf32_Phdr \<Rightarrow> bool" where
  "segment_valid bs p \<longleftrightarrow> p_offset p mod PGSIZE = p_vaddr p mod PGSIZE \<and> p_offset p \<le> length bs \<and> p_filesz p \<le> p_memsz p \<and>
     0 < p_memsz p \<and> PGSIZE \<le> p_vaddr p \<and> p_vaddr p + p_memsz p < PHYS_BASE"

definition phdr_pages :: "Elf32_Phdr \<Rightarrow> nat" where
  "phdr_pages p = (if p_type p = PT_LOAD then ROUND_UP32 (p_vaddr p mod PGSIZE + p_memsz p) PGSIZE div PGSIZE else 0)"

definition phdr_valid :: "bytes \<Rightarrow> Elf32_Phdr \<Rightarrow> (nat \<Rightarrow> (u8 \<times> bool) option) \<Rightarrow> bool" where
  "phdr_valid bs p u \<longleftrightarrow> p_type p \<notin> {PT_DYNAMIC, PT_INTERP, PT_SHLIB} \<and>
     (p_type p = PT_LOAD \<longrightarrow> segment_valid bs p \<and> p_offset p + p_filesz p \<le> length bs \<and> unmapped (page_of (p_vaddr p)) (PGSIZE * phdr_pages p) u)"

definition phdr_view :: "bytes \<Rightarrow> Elf32_Phdr \<Rightarrow> (nat \<Rightarrow> (u8 \<times> bool) option) \<Rightarrow> nat \<Rightarrow> (u8 \<times> bool) option" where
  "phdr_view bs p u =
     (if p_type p \<noteq> PT_LOAD then u
      else let start = page_of (p_vaddr p); pages = ROUND_UP32 (p_vaddr p - start + p_memsz p) PGSIZE;
               read = (if p_filesz p > 0 then p_vaddr p - start + p_filesz p else 0)
           in with_segment start (chunk bs (page_of (p_offset p)) read) (pages - read) (p_flags p AND PF_W \<noteq> 0) u)"

definition phdr_words :: "Elf32_Phdr \<Rightarrow> bool" where
  "phdr_words p \<longleftrightarrow> p_offset p < 2 ^ 32 \<and> p_vaddr p < 2 ^ 32 \<and> p_filesz p < 2 ^ 32 \<and> p_memsz p < 2 ^ 32"

lemma phdr_words_of: "phdr_words (phdr_of data)" if "length data = PHDR_SIZE"
proof -
  have "of_le (chunk data n 4) < 2 ^ 32" if "n + 4 \<le> 32" for n
    using of_le_bound [of "chunk data n 4"] that \<open>length data = PHDR_SIZE\<close> by (simp add: PHDR_SIZE_def)
  then show ?thesis by (simp add: phdr_words_def phdr_of_def)
qed

lemma validate_segment_ok:
  assumes "file_at v file bs pos" "phdr_words p"
  shows "validate_segment p v file = Some (segment_valid bs p)"
proof -
  note l = file_at_length [OF assms(1)] and p = assms(2) [unfolded phdr_words_def]
  have lm: "int (length bs) mod 4294967296 = int (length bs)" using l(1) by (intro mod_pos_pos_trivial) simp_all
  have w: "\<not> is_user_vaddr (p_vaddr p) \<or> \<not> is_user_vaddr (wrap32 (p_vaddr p + p_memsz p)) \<or> wrap32 (p_vaddr p + p_memsz p) < p_vaddr p \<longleftrightarrow>
      \<not> p_vaddr p + p_memsz p < PHYS_BASE"
  proof (cases "p_vaddr p + p_memsz p < 2 ^ 32")
    case True
    then have "wrap32 (p_vaddr p + p_memsz p) = p_vaddr p + p_memsz p" by (rule wrap32_id)
    then show ?thesis by (auto simp: is_user_vaddr_def)
  next
    case False
    have "p_vaddr p + p_memsz p - 2 ^ 32 < 2 ^ 32" using p by linarith
    then have "(p_vaddr p + p_memsz p) mod 2 ^ 32 = p_vaddr p + p_memsz p - 2 ^ 32" using False by (metis le_mod_geq mod_less not_le)
    moreover have "p_vaddr p + p_memsz p - 2 ^ 32 < p_vaddr p" using p False by linarith
    ultimately have "wrap32 (p_vaddr p + p_memsz p) < p_vaddr p" by (simp only: wrap32_def)
    moreover have "\<not> p_vaddr p + p_memsz p < PHYS_BASE" using False by (simp add: PHYS_BASE_def)
    ultimately show ?thesis by blast
  qed
  show ?thesis using l(2) w unfolding validate_segment_def segment_valid_def by (auto simp: pg_ofs_mod PGSIZE_def lm)
qed

lemma ROUND_UP32_page:
  assumes "x < PHYS_BASE"
  obtains m where "ROUND_UP32 x PGSIZE = PGSIZE * m" "x \<le> PGSIZE * m" "PGSIZE * m < x + PGSIZE"
proof -
  let ?m = "(x + 4095) div 4096"
  have "x + 4095 < 2 ^ 32" using assms by (simp add: PHYS_BASE_def)
  moreover have "?m * 4096 \<le> x + 4095" "x \<le> ?m * 4096" by linarith+
  ultimately have "ROUND_UP32 x PGSIZE = PGSIZE * ?m" "x \<le> PGSIZE * ?m" "PGSIZE * ?m < x + PGSIZE"
    by (simp_all add: ROUND_UP32_def wrap32_id PGSIZE_def)
  then show ?thesis by (rule that)
qed

lemma page_of_offset: "x - pg_ofs x = page_of x" "page_of x + x mod PGSIZE = x" "x - page_of x = x mod PGSIZE" "pg_ofs x = x mod PGSIZE"
proof -
  show "pg_ofs x = x mod PGSIZE" by (simp add: pg_ofs_mod PGSIZE_def)
  then show "x - pg_ofs x = page_of x" by (simp add: page_of_def minus_mod_eq_div_mult)
  show "page_of x + x mod PGSIZE = x" by (simp add: page_of_def)
  then show "x - page_of x = x mod PGSIZE" by linarith
qed

lemma load_phdr_ok:
  assumes "spaces_ok K s pds" "i < length pds" "file_at v file bs pos" "phdr_words p"
  shows "segment_done K pds i file bs s v (phdr_valid bs p (uview s (pds ! i))) (phdr_pages p) (phdr_view bs p (uview s (pds ! i))) (load_phdr (pds ! i) file p s v)"
proof -
  have no: "segment_done K pds i file bs s v c m u (Some (False, s, v))" if "\<not> c" for c m u
    by (rule segment_failed [OF assms(1) _ assms(3)]) (use that in \<open>simp_all add: kernel_kept_def\<close>)
  consider (bad) "p_type p \<in> {PT_DYNAMIC, PT_INTERP, PT_SHLIB}" | (load) "p_type p = PT_LOAD" | (skip) "p_type p \<notin> {PT_DYNAMIC, PT_INTERP, PT_SHLIB, PT_LOAD}"
    by blast
  then show ?thesis
  proof cases
    case bad
    then have "load_phdr (pds ! i) file p s v = Some (False, s, v)" "\<not> phdr_valid bs p (uview s (pds ! i))" by (auto simp: load_phdr_def phdr_valid_def)
    then show ?thesis using no by simp
  next
    case skip
    then have "load_phdr (pds ! i) file p s v = Some (True, s, v)" by (simp add: load_phdr_def)
    then show ?thesis using assms(1,3) skip by (auto simp: segment_done_def kernel_kept_def phdr_valid_def phdr_view_def)
  next
    case load
    have t: "p_type p \<noteq> PT_DYNAMIC" "p_type p \<noteq> PT_INTERP" "p_type p \<noteq> PT_SHLIB"
      using load by (simp_all add: PT_LOAD_def PT_DYNAMIC_def PT_INTERP_def PT_SHLIB_def)
    note va = validate_segment_ok [OF assms(3,4)]
    show ?thesis
    proof (cases "segment_valid bs p")
      case False
      then have "load_phdr (pds ! i) file p s v = Some (False, s, v)" "\<not> phdr_valid bs p (uview s (pds ! i))" using va load t by (auto simp: load_phdr_def phdr_valid_def)
      then show ?thesis using no by simp
    next
      case True
      note V = True [unfolded segment_valid_def]
      let ?o = "p_vaddr p mod PGSIZE" and ?w = "p_flags p AND PF_W \<noteq> 0"
      have x: "?o + p_memsz p < PHYS_BASE" using V page_of_offset(2) [of "p_vaddr p"] by linarith
      obtain m where m: "ROUND_UP32 (?o + p_memsz p) PGSIZE = PGSIZE * m" "?o + p_memsz p \<le> PGSIZE * m" "PGSIZE * m < ?o + p_memsz p + PGSIZE"
        by (rule ROUND_UP32_page [OF x])
      define rd where "rd = (if p_filesz p > 0 then ?o + p_filesz p else 0)"
      have rd: "rd \<le> PGSIZE * m" using m(2) V by (simp add: rd_def)
      have up: "page_of (p_vaddr p) + PGSIZE * m \<le> PHYS_BASE"
      proof -
        obtain a where a: "page_of (p_vaddr p) = PGSIZE * a" by (metis page_of_def mult.commute)
        have "PGSIZE * (a + m) < PGSIZE * 786432 + PGSIZE" using a m(3) V page_of_offset(2) [of "p_vaddr p"] by (simp add: distrib_left PHYS_BASE_def PGSIZE_def)
        then have "a + m \<le> 786432" by (simp add: PGSIZE_def)
        then show ?thesis using a by (simp add: PGSIZE_def PHYS_BASE_def)
      qed
      have wr: "wrap32 (?o + p_memsz p) = ?o + p_memsz p" "wrap32 (?o + p_filesz p) = ?o + p_filesz p"
        using x V by (auto intro!: wrap32_id simp: PHYS_BASE_def)
      have pm: "PGSIZE * m < 2 ^ 32" using up by (simp add: PHYS_BASE_def)
      have sb: "p_filesz p > 0 \<Longrightarrow> sub32 (PGSIZE * m) (?o + p_filesz p) = PGSIZE * m - rd" using sub32_id [OF rd pm] by (simp add: rd_def)
      have fp: "page_of (p_offset p) \<le> length bs" "page_of (p_offset p) mod PGSIZE = 0" using V page_of_bounds(1) [of "p_offset p"] page_of_bounds(3) by (auto intro: order_trans)
      have "int (page_of (p_offset p)) < 2 ^ 31" using fp(1) file_at_length(1) [OF assms(3)] by simp
      then have s32: "s32 (int (page_of (p_offset p))) = int (page_of (p_offset p))" by (intro s32_id) (simp add: s32_range_def)
      have call: "load_phdr (pds ! i) file p s v = load_segment (pds ! i) file (int (page_of (p_offset p))) (page_of (p_vaddr p)) rd (PGSIZE * m - rd) ?w s v"
        unfolding load_phdr_def Let_def page_of_offset(1) using va True load t wr sb s32 m(1) by (simp add: page_of_offset(4) rd_def)
      have mm: "rd + (PGSIZE * m - rd) = PGSIZE * m" "phdr_pages p = m" using rd load m(1) by (simp_all add: phdr_pages_def PGSIZE_def)
      have "segment_done K pds i file bs s v (page_of (p_offset p) + rd \<le> length bs \<and> unmapped (page_of (p_vaddr p)) (rd + (PGSIZE * m - rd)) (uview s (pds ! i))) m
          (with_segment (page_of (p_vaddr p)) (chunk bs (page_of (p_offset p)) rd) (PGSIZE * m - rd) ?w (uview s (pds ! i)))
          (load_phdr (pds ! i) file p s v)"
        unfolding call by (rule load_segment_ok [OF assms(1-3) page_of_bounds(3)]) (use rd up fp in auto)
      moreover have "page_of (p_offset p) + rd \<le> length bs \<and> unmapped (page_of (p_vaddr p)) (rd + (PGSIZE * m - rd)) (uview s (pds ! i)) \<longleftrightarrow> phdr_valid bs p (uview s (pds ! i))"
        using True load t V fp(1) page_of_offset(2) [of "p_offset p"] mm by (auto simp: phdr_valid_def rd_def)
      moreover have "phdr_view bs p (uview s (pds ! i)) =
          with_segment (page_of (p_vaddr p)) (chunk bs (page_of (p_offset p)) rd) (PGSIZE * m - rd) ?w (uview s (pds ! i))"
        using load m(1) by (simp add: phdr_view_def Let_def page_of_offset rd_def)
      ultimately show ?thesis using mm(2) by simp
    qed
  qed
qed

section \<open>The program headers\<close>

text \<open>The \<open>n\<close> headers at offset \<open>ofs\<close>: when all of them are accepted, the pages they take, and the memory they describe.\<close>

primrec phdrs_valid :: "nat \<Rightarrow> bytes \<Rightarrow> nat \<Rightarrow> (nat \<Rightarrow> (u8 \<times> bool) option) \<Rightarrow> bool" where
  "phdrs_valid 0 bs ofs u \<longleftrightarrow> True"
| "phdrs_valid (Suc n) bs ofs u \<longleftrightarrow> ofs + PHDR_SIZE \<le> length bs \<and> phdr_valid bs (phdr_of (chunk bs ofs PHDR_SIZE)) u \<and>
     phdrs_valid n bs (ofs + PHDR_SIZE) (phdr_view bs (phdr_of (chunk bs ofs PHDR_SIZE)) u)"

primrec phdrs_pages :: "nat \<Rightarrow> bytes \<Rightarrow> nat \<Rightarrow> nat" where
  "phdrs_pages 0 bs ofs = 0"
| "phdrs_pages (Suc n) bs ofs = phdr_pages (phdr_of (chunk bs ofs PHDR_SIZE)) + phdrs_pages n bs (ofs + PHDR_SIZE)"

primrec phdrs_view :: "nat \<Rightarrow> bytes \<Rightarrow> nat \<Rightarrow> (nat \<Rightarrow> (u8 \<times> bool) option) \<Rightarrow> nat \<Rightarrow> (u8 \<times> bool) option" where
  "phdrs_view 0 bs ofs u = u"
| "phdrs_view (Suc n) bs ofs u = phdrs_view n bs (ofs + PHDR_SIZE) (phdr_view bs (phdr_of (chunk bs ofs PHDR_SIZE)) u)"

lemma load_phdrs_ok:
  "spaces_ok K s pds \<Longrightarrow> i < length pds \<Longrightarrow> file_at v file bs pos \<Longrightarrow> file_ofs < 2 ^ 31 \<Longrightarrow>
   segment_done K pds i file bs s v (0 \<le> file_ofs \<and> phdrs_valid n bs (nat file_ofs) (uview s (pds ! i)) \<or> n = 0) (phdrs_pages n bs (nat file_ofs))
     (phdrs_view n bs (nat file_ofs) (uview s (pds ! i))) (load_phdrs n (pds ! i) file file_ofs s v)"
proof (induction n arbitrary: s v pos file_ofs)
  case 0
  then show ?case by (auto simp: segment_done_def kernel_kept_def)
next
  case (Suc n)
  note l = file_at_length [OF Suc.prems(3)]
  have no: "segment_done K pds i file bs s v c m u (Some (False, s, v'))" if "file_at v' file bs p" "reads_only file v v'" "\<not> c" for c m u v' p
    by (rule segment_failed [OF Suc.prems(1) _ that(1,2)]) (use that(3) in \<open>simp_all add: kernel_kept_def\<close>)
  show ?case
  proof (cases "file_ofs < 0 \<or> int (length bs) < file_ofs")
    case True
    then have e: "load_phdrs (Suc n) (pds ! i) file file_ofs s v = Some (False, s, v)" using l(2) by simp
    show ?thesis unfolding e by (rule no [OF Suc.prems(3) reads_only_refl]) (use True in \<open>auto simp: PHDR_SIZE_def\<close>)
  next
    case False
    then have ge: "0 \<le> file_ofs" "file_ofs \<le> int (length bs)" by simp_all
    obtain v1 where v1: "file_seek v file file_ofs = Some v1" "file_at v1 file bs (nat file_ofs)" "reads_only file v v1"
      by (rule file_seek_step [OF Suc.prems(3) ge(1) Suc.prems(4)])
    have ps: "PHDR_SIZE < 2 ^ 31" by (simp add: PHDR_SIZE_def)
    let ?data = "chunk bs (nat file_ofs) PHDR_SIZE"
    obtain v2 where v2: "file_read v1 file (int PHDR_SIZE) = Some (?data, v2)" "file_at v2 file bs (nat file_ofs + length ?data)" "reads_only file v1 v2"
      by (rule file_read_step [OF v1(2) ps])
    note ro = reads_only_trans [OF v1(3) v2(3)]
    show ?thesis
    proof (cases "length ?data = PHDR_SIZE")
      case False
      then have "load_phdrs (Suc n) (pds ! i) file file_ofs s v = Some (False, s, v2)" "\<not> nat file_ofs + PHDR_SIZE \<le> length bs"
        using l(2) ge v1(1) v2(1) by auto
      then show ?thesis using no [OF v2(2) ro] by simp
    next
      case True
      have le: "nat file_ofs + PHDR_SIZE \<le> length bs" using True by (auto simp: chunk_def PHDR_SIZE_def)
      have nx: "s32 (file_ofs + int PHDR_SIZE) = file_ofs + int PHDR_SIZE" "file_ofs + int PHDR_SIZE < 2 ^ 31" "nat (file_ofs + int PHDR_SIZE) = nat file_ofs + PHDR_SIZE"
        using le l(1) ge(1) by (auto intro!: s32_id simp: s32_range_def)
      let ?p = "phdr_of ?data" and ?u = "uview s (pds ! i)"
      have "segment_done K pds i file bs s v2 (phdr_valid bs ?p ?u) (phdr_pages ?p) (phdr_view bs ?p ?u) (load_phdr (pds ! i) file ?p s v2)"
        by (rule load_phdr_ok [OF Suc.prems(1,2) v2(2) phdr_words_of [OF True]])
      then obtain ok s3 v3 p3 where r: "load_phdr (pds ! i) file ?p s v2 = Some (ok, s3, v3)" "spaces_ok K s3 pds" "kernel_kept K s s3"
          "file_at v3 file bs p3" "reads_only file v2 v3" "\<forall>j<length pds. j \<noteq> i \<longrightarrow> uview s3 (pds ! j) = uview s (pds ! j)"
          "if ok then phdr_valid bs ?p ?u \<and> uview s3 (pds ! i) = phdr_view bs ?p ?u \<and> (\<forall>b. spare b s \<le> spare b s3 + phdr_pages ?p)
           else phdr_valid bs ?p ?u \<longrightarrow> (\<exists>b. spare b s < phdr_pages ?p)"
        unfolding segment_done_def by blast
      note ro3 = reads_only_trans [OF ro r(5)]
      show ?thesis
      proof (cases ok)
        case False
        then have e: "load_phdrs (Suc n) (pds ! i) file file_ofs s v = Some (False, s3, v3)" using l(2) ge v1(1) v2(1) True r(1) by simp
        have "\<exists>b. spare b s < phdrs_pages (Suc n) bs (nat file_ofs)" if "phdr_valid bs ?p ?u" using r(7) False that by (auto intro: trans_less_add1)
        then show ?thesis unfolding e segment_done_def
          by (intro exI [of _ False] exI [of _ s3] exI [of _ v3] exI [of _ p3]) (use r(2-6) ro3 in auto)
      next
        case yes: True
        then have e: "load_phdrs (Suc n) (pds ! i) file file_ofs s v = load_phdrs n (pds ! i) file (file_ofs + int PHDR_SIZE) s3 v3"
          using l(2) ge v1(1) v2(1) True r(1) nx(1) by simp
        have IH: "segment_done K pds i file bs s3 v3 (0 \<le> file_ofs + int PHDR_SIZE \<and> phdrs_valid n bs (nat file_ofs + PHDR_SIZE) (uview s3 (pds ! i)) \<or> n = 0)
            (phdrs_pages n bs (nat file_ofs + PHDR_SIZE)) (phdrs_view n bs (nat file_ofs + PHDR_SIZE) (uview s3 (pds ! i)))
            (load_phdrs n (pds ! i) file (file_ofs + int PHDR_SIZE) s3 v3)"
          using Suc.IH [OF r(2) Suc.prems(2) r(4) nx(2)] unfolding nx(3) .
        have "segment_done K pds i file bs s v (0 \<le> file_ofs \<and> phdrs_valid (Suc n) bs (nat file_ofs) ?u \<or> Suc n = 0)
            (phdr_pages ?p + phdrs_pages n bs (nat file_ofs + PHDR_SIZE)) (phdrs_view (Suc n) bs (nat file_ofs) ?u)
            (load_phdrs n (pds ! i) file (file_ofs + int PHDR_SIZE) s3 v3)"
          by (rule segment_more [OF IH r(3) ro3]) (use r(6,7) yes le ge(1) in auto)
        then show ?thesis unfolding e by simp
      qed
    qed
  qed
qed

end
