(* ===== verification/Load_Properties.thy ===== *)
theory Load_Properties
  imports Process_Load FS_Properties
begin

text \<open>
  What \<open>load\<close> promises: whatever the file contains, it returns; the memory of the new process is what the
  program headers of the executable describe, with the stack and the arguments above it; and nothing else
  changes, in memory or in the file system.
\<close>

section \<open>The stack\<close>

text \<open>Steps that change no process but \<open>i\<close>.\<close>

definition only_process :: "nat set \<Rightarrow> nat list \<Rightarrow> nat \<Rightarrow> machine \<Rightarrow> machine \<Rightarrow> bool" where
  "only_process K pds i s s' \<longleftrightarrow> spaces_ok K s' pds \<and> kernel_kept K s s' \<and> (\<forall>j<length pds. j \<noteq> i \<longrightarrow> uview s' (pds ! j) = uview s (pds ! j))"

lemma only_process_trans: "only_process K pds i s s' \<Longrightarrow> only_process K pds i s' s'' \<Longrightarrow> only_process K pds i s s''"
  unfolding only_process_def using kernel_kept_trans by auto

lemma with_page_cong: "(\<And>n. n < PGSIZE \<Longrightarrow> f n = g n) \<Longrightarrow> with_page upage f w u = with_page upage g w u"
  by (auto simp: with_page_def fun_eq_iff)

lemma setup_stack_ok:
  assumes "spaces_ok K s pds" "i < length pds"
  shows "\<exists>ok esp s'. setup_stack (pds ! i) s = Some (ok, esp, s') \<and> only_process K pds i s s' \<and>
    (if ok then esp = PHYS_BASE \<and> uview s' (pds ! i) = with_page (PHYS_BASE - PGSIZE) (\<lambda>_. 0) True (uview s (pds ! i)) \<and>
       unmapped (PHYS_BASE - PGSIZE) PGSIZE (uview s (pds ! i)) \<and> (\<forall>b. spare b s \<le> Suc (spare b s'))
     else unmapped (PHYS_BASE - PGSIZE) PGSIZE (uview s (pds ! i)) \<longrightarrow> (\<exists>b. spare b s = 0))"
proof -
  note D = spaces_okD [OF assms(1)]
  have fl: "(PAL_USER OR PAL_ZERO) AND PAL_ASSERT = 0" "(PAL_USER OR PAL_ZERO) AND PAL_USER \<noteq> 0" "(PAL_USER OR PAL_ZERO) AND PAL_ZERO \<noteq> 0"
    by (simp_all add: PAL_USER_def PAL_ASSERT_def PAL_ZERO_def)
  have up: "(PHYS_BASE - PGSIZE) mod PGSIZE = 0" "is_user_vaddr (PHYS_BASE - PGSIZE)" by (simp_all add: PHYS_BASE_def PGSIZE_def is_user_vaddr_def)
  show ?thesis
  proof (cases rule: get_user_page [OF D(1) fl(1,2), case_names none got])
    case none
    moreover have "spare True s = 0" by (rule palloc_get_page_none [OF D(1) fl(1) _ none]) (use fl(2) in blast)
    ultimately show ?thesis using assms(1) by (auto simp: setup_stack_def only_process_def kernel_kept_def)
  next
    case (got k s1)
    have k: "k \<noteq> NULL" using got(2) by (simp add: new_page_def)
    show ?thesis
    proof (cases rule: install_view [OF assms up got(2), where w = True, case_names fail ok])
      case (fail s2)
      have "\<exists>b. spare b s = 0" if "unmapped (PHYS_BASE - PGSIZE) PGSIZE (uview s (pds ! i))"
        using that fail(6) by (auto simp: unmapped_def PGSIZE_def)
      moreover have "setup_stack (pds ! i) s = Some (False, NULL, s2)" using fail(1,2) got(1) k by (simp add: setup_stack_def)
      moreover have "only_process K pds i s s2" using fail(3,4) map_nth_eq [OF fail(5)] by (simp add: only_process_def)
      ultimately show ?thesis by auto
    next
      case (ok s2)
      have z: "with_page (PHYS_BASE - PGSIZE) (\<lambda>n. ram s1 (k + n)) True u = with_page (PHYS_BASE - PGSIZE) (\<lambda>_. 0) True u" for u
        by (rule with_page_cong) (simp add: got(3) [OF fl(3)] fill_def)
      have v: "uview s2 (pds ! j) = (map (uview s) pds)[i := with_page (PHYS_BASE - PGSIZE) (\<lambda>_. 0) True (uview s (pds ! i))] ! j" if "j < length pds" for j
        using arg_cong [OF ok(4), of "\<lambda>xs. xs ! j"] that z by simp
      have "only_process K pds i s s2" using ok(2,3) v by (simp add: only_process_def)
      moreover have "setup_stack (pds ! i) s = Some (True, PHYS_BASE, s2)" using got(1) k ok(1) by (simp add: setup_stack_def)
      ultimately show ?thesis using v [OF assms(2)] assms(2) ok(5,6) by auto
    qed
  qed
qed

section \<open>The arguments\<close>

text \<open>A string in memory that the kernel keeps.\<close>

definition kernel_string :: "nat set \<Rightarrow> machine \<Rightarrow> nat \<Rightarrow> bytes \<Rightarrow> bool" where
  "kernel_string K s a bs \<longleftrightarrow> a \<noteq> NULL \<and> a + length bs < 2 ^ 32 \<and> 0 \<notin> set bs \<and>
     (\<forall>i\<le>length bs. ram s (a + i) = (bs @ [0]) ! i \<and> (page_of (a + i) \<in> K \<or> page_of (a + i) < base (kernel_pool s)))"

lemma kernel_string_kept: "kernel_string K s a bs \<Longrightarrow> kernel_kept K s s' \<Longrightarrow> kernel_string K s' a bs"
  unfolding kernel_string_def kernel_kept_def by metis

lemma length_kmem [simp]: "length (kmem s) = 2 ^ 32"
  by (simp add: kmem_def)

lemma nth_kmem: "a < 2 ^ 32 \<Longrightarrow> kmem s ! a = ram s a"
  unfolding kmem_def by (subst nth_map) (simp_all del: upt_rec_numeral)

lemma kernel_string_cstr:
  assumes "kernel_string K s a bs"
  shows "is_str (kmem s) a" "cstr (kmem s) a = bs"
proof -
  note k = assms [unfolded kernel_string_def]
  let ?m = "kmem s" and ?n = "length bs + 1"
  have "chunk ?m a ?n = bs @ [0]"
  proof (rule nth_equalityI)
    show "length (chunk ?m a ?n) = length (bs @ [0])" using k by (simp add: length_chunk)
    show "chunk ?m a ?n ! i = (bs @ [0]) ! i" if "i < length (chunk ?m a ?n)" for i
    proof -
      have i: "i \<le> length bs" "a + i < 2 ^ 32" using that k by (simp_all add: length_chunk)
      then have "chunk ?m a ?n ! i = ?m ! (a + i)" using k by (intro nth_chunk) simp_all
      also have "\<dots> = ram s (a + i)" by (rule nth_kmem [OF i(2)])
      finally show ?thesis using k i(1) by simp
    qed
  qed
  then have e: "?m = take a ?m @ bs @ 0 # drop (a + ?n) ?m"
    using append_take_drop_id [of a ?m] append_take_drop_id [of ?n "drop a ?m"] by (simp add: chunk_def add.commute)
  have l: "length (take a ?m) = a" using k by simp
  show "is_str ?m a" "cstr ?m a = bs" by (rule is_strI [OF e l], use k in simp_all)+
qed

lemma kernel_string_apart:
  assumes "pools_ok s" "K \<subseteq> allocated s" "kernel_string K s a bs" "p mod PGSIZE = 0" "p \<notin> allocated s" "base (kernel_pool s) \<le> p"
  shows "p + PGSIZE \<le> a \<or> a + length bs < p"
proof (rule ccontr)
  assume "\<not> ?thesis"
  then have b: "a < p + PGSIZE" "p \<le> a + length bs" by simp_all
  define i where "i = (if p \<le> a then 0 else p - a)"
  have "i \<le> length bs" "p \<le> a + i" "a + i < p + PGSIZE" using b by (auto simp: i_def PGSIZE_def)
  moreover from this have "page_of (a + i) = p" by (intro page_of_in [OF assms(4)])
  ultimately show False using assms(2,3,5,6) by (auto simp: kernel_string_def)
qed

text \<open>User memory and what the process sees.\<close>

lemma mapping_ram:
  assumes "ram s' = ram s"
  shows "mapping s' = mapping s"
  unfolding fun_eq_iff mapping_def pte_at_def table_def pde_at_def assms by simp

lemma user_mem_view: "user_mem s pd a = (if is_user_vaddr a then (case uview s pd a of Some (b, True) \<Rightarrow> Some b | _ \<Rightarrow> None) else None)"
  by (auto simp: user_mem_def uview_def split: option.splits bool.splits)

definition written :: "umem \<Rightarrow> (nat \<Rightarrow> (u8 \<times> bool) option) \<Rightarrow> nat \<Rightarrow> (u8 \<times> bool) option" where
  "written u' u a = (if u' a = None then u a else map_option (\<lambda>b. (b, True)) (u' a))"

lemma set_user_mem_frame:
  assumes "k mod PGSIZE = 0" "mapping s pd v = Some (k, w)" "\<And>v' w'. mapping s pd v' = Some (k, w') \<Longrightarrow> v' = v"
  shows "ram (set_user_mem u pd s) (k + n mod PGSIZE) =
    (if w \<and> v < PHYS_BASE div PGSIZE then the (u (v * PGSIZE + n mod PGSIZE)) else ram s (k + n mod PGSIZE))"
proof -
  have m: "(k + n mod PGSIZE) mod PGSIZE = n mod PGSIZE" using assms(1) by (metis mod_add_left_eq add_0 mod_mod_trivial)
  let ?P = "\<lambda>v. mapping s pd v = Some (page_of (k + n mod PGSIZE), True)" and ?xs = "[0..<PHYS_BASE div PGSIZE]"
  have P: "?P v' \<longleftrightarrow> v' = v \<and> w" for v'
    using frame_page [OF assms(1), of n] assms(2) assms(3) [of v' True] by auto
  have "find ?P ?xs = (if w \<and> v < PHYS_BASE div PGSIZE then Some v else None)"
  proof (cases "find ?P ?xs")
    case None
    then have "\<not> (v \<in> set ?xs \<and> w)" using P by (auto simp: find_None_iff)
    then show ?thesis using None by auto
  next
    case (Some v')
    then have "?P v'" "v' \<in> set ?xs" by (auto simp: find_Some_iff in_set_conv_nth)
    then show ?thesis using Some P by auto
  qed
  then show ?thesis by (simp add: set_user_mem_def m)
qed

lemma set_user_mem_other: "page_of x \<notin> frames s pd \<Longrightarrow> ram (set_user_mem u pd s) x = ram s x"
proof -
  assume x: "page_of x \<notin> frames s pd"
  have "find (\<lambda>v. mapping s pd v = Some (page_of x, True)) xs = None" for xs
    using x by (auto simp: find_None_iff in_frames)
  then show ?thesis by (simp add: set_user_mem_def)
qed

lemma user_page_number: "a div PGSIZE < PHYS_BASE div PGSIZE \<longleftrightarrow> is_user_vaddr a"
  by (simp add: is_user_vaddr_def PHYS_BASE_def PGSIZE_def div_less_iff_less_mult)

lemma set_user_mem_same: "set_user_mem (user_mem s pd) pd s = s"
proof -
  have "(case find (\<lambda>v. mapping s pd v = Some (page_of x, True)) [0..<PHYS_BASE div PGSIZE] of
      Some v \<Rightarrow> the (user_mem s pd (v * PGSIZE + x mod PGSIZE)) | None \<Rightarrow> ram s x) = ram s x" for x
  proof (cases "find (\<lambda>v. mapping s pd v = Some (page_of x, True)) [0..<PHYS_BASE div PGSIZE]")
    case (Some v)
    then have v: "mapping s pd v = Some (page_of x, True)" "v < PHYS_BASE div PGSIZE" by (auto simp: find_Some_iff)
    have "(v * PGSIZE + x mod PGSIZE) div PGSIZE = v" "(v * PGSIZE + x mod PGSIZE) mod PGSIZE = x mod PGSIZE" by (simp_all add: PGSIZE_def)
    then show ?thesis using Some v user_page_number [of "v * PGSIZE + x mod PGSIZE"] page_of_offset(2) [of x] by (simp add: user_mem_def)
  qed simp
  then show ?thesis by (simp add: set_user_mem_def)
qed

lemma arguments_written:
  assumes "spaces_ok K s pds" "i < length pds" "palloc_get_page 0 s = Some (p, s1)" "p \<noteq> NULL" "length m = 2 ^ 32"
    "\<forall>x<2 ^ 32. x < p \<or> p + PGSIZE \<le> x \<longrightarrow> m ! x = kmem s ! x" "same_dom (user_mem s (pds ! i)) u"
  obtains s3 where "palloc_free_page p (set_user_mem u (pds ! i) (set_kmem m s1)) = Some s3" "only_process K pds i s s3"
    "uview s3 (pds ! i) = written u (uview s (pds ! i))"
proof -
  note D = spaces_okD [OF assms(1)] and o = spaces_okD(6) [OF assms(1,2)]
  let ?pd = "pds ! i" and ?s2 = "set_kmem m s1"
  have z: "0 AND PAL_ASSERT = 0" "False \<longleftrightarrow> 0 AND PAL_USER \<noteq> 0" "0 AND PAL_ZERO = 0" by simp_all
  have g: "p mod PGSIZE = 0 \<and> p \<notin> allocated s \<and> ram s1 = ram s"
    by (rule palloc_get_page_ok [OF D(1) z(1,2)]) (use assms(3,4) in auto)
  have r2: "ram ?s2 x = ram s x" if "page_of x \<noteq> p" for x
  proof -
    have "x < p \<or> p + PGSIZE \<le> x" using outside_page [OF _ that] g by simp
    then show ?thesis using g assms(5,6) nth_kmem [of x s] by (auto simp: set_kmem_def)
  qed
  have own: "owned s ?pd \<subseteq> allocated s" by (rule owned_allocated [OF o])
  have m2: "mapping ?s2 ?pd = mapping s ?pd"
    by (rule tables_cong(4) [OF D(1) o]) (rule r2, use g own in \<open>auto simp: owned_def\<close>)
  have f2: "frames ?s2 ?pd = frames s ?pd" by (simp add: frames_def m2)
  define r where "r = ram (set_user_mem u ?pd ?s2)"
  have e: "set_user_mem u ?pd ?s2 = s1\<lparr>ram := r\<rparr>" by (simp add: r_def set_user_mem_def set_kmem_def)
  have F: "frames s ?pd \<subseteq> pool_pages (user_pool s)" "frames s ?pd \<inter> K = {}" using o D(7) [OF assms(2)] by (auto simp: pd_ok_def owned_def)
  have r: "r x = ram s x" if "page_of x \<noteq> p" "page_of x \<notin> frames s ?pd" for x
    using set_user_mem_other [of x ?s2 ?pd u] that f2 r2 by (simp add: r_def)
  obtain s3 where s3: "palloc_free_page p (s1\<lparr>ram := r\<rparr>) = Some s3" "spaces_ok K s3 pds" "kernel_kept K s s3" "map (mapping s3) pds = map (mapping s) pds"
    "changes (insert p (frames s ?pd)) s s3" "\<And>x. page_of x \<noteq> p \<Longrightarrow> ram s3 x = r x"
    by (rule kernel_temp [OF assms(1,3,4) F r]) (assumption | rule that)+
  note m3 = map_nth_eq [OF s3(4)]
  have "uview s3 (pds ! j) = uview s (pds ! j)" if "j < length pds" "j \<noteq> i" for j
  proof (rule uview_other [OF assms(1) that(1) m3 [OF that(1)] s3(5)])
    show "insert p (frames s ?pd) \<inter> frames s (pds ! j) = {}"
      using D(8) [OF assms(2) that(1)] that(2) owned_allocated [OF D(6) [OF that(1)]] g by (auto simp: owned_def)
  qed
  then have "only_process K pds i s s3" using s3(2,3) by (simp add: only_process_def)
  moreover have "uview s3 ?pd = written u (uview s ?pd)"
  proof
    fix a
    have d: "u a = None \<longleftrightarrow> user_mem s ?pd a = None" using assms(7) by (simp add: same_dom_def)
    show "uview s3 ?pd a = written u (uview s ?pd) a"
    proof (cases "mapping s ?pd (a div PGSIZE)")
      case None
      then show ?thesis using d m3 [OF assms(2)] by (simp add: uview_def written_def user_mem_def)
    next
      case (Some x)
      obtain k w where x: "x = (k, w)" by fastforce
      note k = mapping_frame [OF o Some [unfolded x]]
      have ka: "k \<in> allocated s" using k(1) by (simp add: allocated_def)
      from allocated_page(1) [OF D(1) this] have kp: "k mod PGSIZE = 0" by (simp add: kernel_page_def PGSIZE_def)
      have pg: "page_of (k + a mod PGSIZE) \<noteq> p" using frame_page [OF kp] ka g by auto
      have "r (k + a mod PGSIZE) = (if w \<and> is_user_vaddr a then the (u a) else ram s (k + a mod PGSIZE))"
        using set_user_mem_frame [OF kp, of ?s2 ?pd "a div PGSIZE" w u a, unfolded m2, OF Some [unfolded x] k(3)] r2 [OF pg]
        by (simp add: r_def user_page_number)
      moreover have "u a \<noteq> None \<longleftrightarrow> w \<and> is_user_vaddr a" using d Some x by (cases w) (simp_all add: user_mem_def)
      ultimately show ?thesis using s3(6) [OF pg] m3 [OF assms(2)] Some x by (cases "w \<and> is_user_vaddr a") (auto simp: uview_def written_def)
    qed
  qed
  ultimately show ?thesis using that s3(1) e by simp
qed

text \<open>
  The frame of the words \<open>ws\<close> at the stack pointer: the return address, the count, the array and its address;
  and the bytes it takes at most.
\<close>

definition arguments_at :: "umem \<Rightarrow> nat \<Rightarrow> bytes list \<Rightarrow> bool" where
  "arguments_at u esp ws \<longleftrightarrow> esp mod 4 = 0 \<and> (\<exists>ptrs. bytes_at u esp (words32 ([0, length ws, esp + 12] @ ptrs @ [0])) \<and>
     list_all2 (\<lambda>q w. bytes_at u q (w @ [0])) ptrs ws)"

definition frame_room :: "bytes list \<Rightarrow> nat" where
  "frame_room ws = room ws + 3 + 4 * length ws + 16"

text \<open>The command line, the string of delimiters and the words.\<close>

definition command_line :: "nat set \<Rightarrow> machine \<Rightarrow> nat \<Rightarrow> nat \<Rightarrow> bytes list \<Rightarrow> bool" where
  "command_line K s d file_name ws \<longleftrightarrow> kernel_string K s d [32] \<and> d + 1 < base (kernel_pool s) \<and>
     (\<exists>bs. kernel_string K s file_name bs \<and> ws = words {32} (take (PGSIZE - 1) bs))"

lemma command_line_kept: "command_line K s d file_name ws \<Longrightarrow> kernel_kept K s s' \<Longrightarrow> command_line K s' d file_name ws"
proof -
  assume c: "command_line K s d file_name ws" and k: "kernel_kept K s s'"
  have "base (kernel_pool s') = base (kernel_pool s)" using k by (simp add: kernel_kept_def)
  then show ?thesis using c kernel_string_kept [OF _ k] unfolding command_line_def by auto
qed

lemma user_mem_written:
  assumes "same_dom (user_mem s pd) u" "uview s' pd = written u (uview s pd)"
  shows "user_mem s' pd = u"
proof
  fix a
  have d: "u a = None \<longleftrightarrow> user_mem s pd a = None" using assms(1) by (simp add: same_dom_def)
  show "user_mem s' pd a = u a"
  proof (cases "u a")
    case None
    then have "user_mem s' pd a = user_mem s pd a" by (simp add: user_mem_view [of _ _ a] assms(2) written_def)
    then show ?thesis using d None by simp
  next
    case (Some b)
    then have "is_user_vaddr a" using d by (auto simp: user_mem_def split: if_splits)
    then show ?thesis using Some by (simp add: user_mem_view [of _ _ a] assms(2) written_def)
  qed
qed

lemma kernel_page_bounds:
  assumes "spaces_ok K s pds" "palloc_get_page 0 s = Some (p, s1)" "p \<noteq> NULL"
  shows "p mod PGSIZE = 0" "p \<notin> allocated s" "ram s1 = ram s" "base (kernel_pool s) \<le> p" "p + PGSIZE \<le> 2 ^ 32"
proof -
  have z: "0 AND PAL_ASSERT = 0" "False \<longleftrightarrow> 0 AND PAL_USER \<noteq> 0" "0 AND PAL_ZERO = 0" by simp_all
  have g: "pools_ok s1 \<and> p mod PGSIZE = 0 \<and> p \<notin> allocated s \<and> p \<in> allocated s1 \<and> ram s1 = ram s \<and> same_setup s s1"
    by (rule palloc_get_page_ok [OF spaces_okD(1) [OF assms(1)] z(1,2)]) (use assms(2,3) in \<open>auto simp: pool_of_def allocated_def\<close>)
  then show "p mod PGSIZE = 0" "p \<notin> allocated s" "ram s1 = ram s" by blast+
  show "base (kernel_pool s) \<le> p" using g allocated_base [of s1 p] same_setup_base [of s s1] by simp
  show "p + PGSIZE \<le> 2 ^ 32" using g allocated_page(2) [of s1 p] by (auto simp: pools_ok_def)
qed

lemma command_line_strings:
  assumes "spaces_ok K s pds" "command_line K s d file_name ws" "p mod PGSIZE = 0" "p \<notin> allocated s" "base (kernel_pool s) \<le> p"
  shows "is_str (kmem s) file_name" "is_str (kmem s) d" "cstr (kmem s) d = [32]" "d + 1 < p"
    "p + PGSIZE \<le> file_name \<or> file_name + length (cstr (kmem s) file_name) < p" "ws = words {32} (take (PGSIZE - 1) (cstr (kmem s) file_name))"
proof -
  obtain bs where c: "kernel_string K s d [32]" "d + 1 < base (kernel_pool s)" "kernel_string K s file_name bs" "ws = words {32} (take (PGSIZE - 1) bs)"
    using assms(2) by (auto simp: command_line_def)
  note f = kernel_string_cstr [OF c(3)] and D = spaces_okD [OF assms(1)]
  show "is_str (kmem s) file_name" "is_str (kmem s) d" "cstr (kmem s) d = [32]" by (rule f(1) kernel_string_cstr [OF c(1)])+
  show "d + 1 < p" using c(2) assms(5) by simp
  show "ws = words {32} (take (PGSIZE - 1) (cstr (kmem s) file_name))" unfolding f(2) by (rule c(4))
  show "p + PGSIZE \<le> file_name \<or> file_name + length (cstr (kmem s) file_name) < p"
    unfolding f(2) by (rule kernel_string_apart [OF D(1,4) c(3) assms(3-5)])
qed

lemma load_arguments_ok:
  assumes "spaces_ok K s pds" "i < length pds" "command_line K s d file_name ws" "frame_room (take 128 ws) \<le> PGSIZE"
    "\<And>a. PHYS_BASE - PGSIZE \<le> a \<Longrightarrow> a < PHYS_BASE \<Longrightarrow> \<exists>b. uview s (pds ! i) a = Some (b, True)"
  shows "\<exists>ok esp s'. load_arguments d (pds ! i) PHYS_BASE file_name s = Some (ok, esp, s') \<and> only_process K pds i s s' \<and>
    (if ok then arguments_at (user_mem s' (pds ! i)) esp (take 128 ws) \<and> PHYS_BASE - frame_room (take 128 ws) \<le> esp \<and> esp < PHYS_BASE \<and>
       (\<forall>a<esp. uview s' (pds ! i) a = uview s (pds ! i) a) else spare False s = 0)"
proof -
  note D = spaces_okD [OF assms(1)]
  let ?pd = "pds ! i" and ?ws = "take 128 ws"
  obtain p s1 where g: "palloc_get_page 0 s = Some (p, s1)" "p = NULL \<Longrightarrow> s1 = s"
    by (rule palloc_get_page_ok [OF D(1), of 0 False]) auto
  show ?thesis
  proof (cases "p = NULL")
    case True
    have "set_kmem (kmem s) s = s" by (simp add: set_kmem_def nth_kmem if_distrib cong: if_cong)
    moreover have "set_user_mem (user_mem s ?pd) ?pd s = s" by (rule set_user_mem_same)
    ultimately have "load_arguments d ?pd PHYS_BASE file_name s = Some (False, PHYS_BASE, s)"
      using g True by (simp add: load_arguments_def push_arguments_def)
    moreover have "spare False s = 0" by (rule palloc_get_page_none [OF D(1), of 0]) (use g(1) True in simp_all)
    ultimately show ?thesis using assms(1) by (auto simp: only_process_def kernel_kept_def)
  next
    case False
    note b = kernel_page_bounds [OF assms(1) g(1) False]
    note c = command_line_strings [OF assms(1,3) b(1,2,4)]
    have n: "frame_room ?ws \<le> PHYS_BASE" using assms(4) by (simp add: PHYS_BASE_def PGSIZE_def)
    have mp: "mapped (user_mem s ?pd) (PHYS_BASE - frame_room ?ws) (frame_room ?ws)"
      unfolding mapped_def
    proof (intro allI impI)
      fix x assume "PHYS_BASE - frame_room ?ws \<le> x \<and> x < PHYS_BASE - frame_room ?ws + frame_room ?ws"
      then have x: "PHYS_BASE - PGSIZE \<le> x" "x < PHYS_BASE" using assms(4) n by auto
      then obtain y where "uview s ?pd x = Some (y, True)" using assms(5) by blast
      then show "user_mem s ?pd x \<noteq> None" using x(2) by (simp add: user_mem_view is_user_vaddr_def)
    qed
    have ws: "?ws = take 128 (words {32} (take (PGSIZE - 1) (cstr (kmem s) file_name)))" using c(6) by simp
    obtain esp u m ptrs where q: "push_arguments (kmem s) d (Some p) (user_mem s ?pd) PHYS_BASE file_name = Some (True, esp, u, m)"
        "esp mod 4 = 0" "PHYS_BASE - frame_room ?ws \<le> esp" "bytes_at u esp (words32 ([0, length ?ws, esp + 12] @ ptrs @ [0]))"
        "list_all2 (\<lambda>q w. bytes_at u q (w @ [0])) ptrs ?ws" "same_dom (user_mem s ?pd) u" "\<forall>x<esp. u x = user_mem s ?pd x"
        "length m = length (kmem s)" "\<forall>x<length (kmem s). x < p \<or> p + PGSIZE \<le> x \<longrightarrow> m ! x = kmem s ! x"
      using push_arguments_ok [OF c(1-4) _ c(5) ws frame_room_def n mp] b(5) by auto
    have m: "length m = 2 ^ 32" "\<forall>x<2 ^ 32. x < p \<or> p + PGSIZE \<le> x \<longrightarrow> m ! x = kmem s ! x" using q(8,9) unfolding length_kmem by blast+
    obtain s3 where s3: "palloc_free_page p (set_user_mem u ?pd (set_kmem m s1)) = Some s3" "only_process K pds i s s3"
        "uview s3 ?pd = written u (uview s ?pd)"
      by (rule arguments_written [OF assms(1,2) g(1) False m q(6)])
    have um: "user_mem s3 ?pd = u" by (rule user_mem_written [OF q(6) s3(3)])
    have "kmem s1 = kmem s" "user_mem s1 ?pd = user_mem s ?pd" unfolding kmem_def user_mem_def b(3) mapping_ram [OF b(3)] by simp_all
    then have "load_arguments d ?pd PHYS_BASE file_name s = Some (True, esp, s3)" using g(1) False q(1) s3(1) by (simp add: load_arguments_def)
    moreover have "arguments_at (user_mem s3 ?pd) esp ?ws" unfolding arguments_at_def um using q(2,4,5) by blast
    moreover have "uview s3 ?pd a = uview s ?pd a" if "a < esp" for a
      using q(7) that by (auto simp: s3(3) written_def user_mem_view split: option.splits bool.splits if_splits)
    moreover have "u esp \<noteq> None" using q(4) [unfolded bytes_at_def, rule_format, of 0] by simp
    then have "user_mem s ?pd esp \<noteq> None" using q(6) [unfolded same_dom_def, rule_format, of esp] by simp
    then have "esp < PHYS_BASE" by (auto simp: user_mem_def is_user_vaddr_def split: if_splits)
    ultimately show ?thesis using s3(2) q(3) by auto
  qed
qed

section \<open>The executable\<close>

text \<open>The header of a file, the files that can be run, and the memory they describe.\<close>

definition header :: "bytes \<Rightarrow> Elf32_Ehdr" where
  "header bs = ehdr_of (take EHDR_SIZE bs)"

definition runnable :: "bytes \<Rightarrow> bool" where
  "runnable bs \<longleftrightarrow> EHDR_SIZE \<le> length bs \<and> ehdr_ok (header bs) \<and> phdrs_valid (e_phnum (header bs)) bs (e_phoff (header bs)) Map.empty \<and>
     unmapped (PHYS_BASE - PGSIZE) PGSIZE (phdrs_view (e_phnum (header bs)) bs (e_phoff (header bs)) Map.empty)"

definition program_pages :: "bytes \<Rightarrow> nat" where
  "program_pages bs = phdrs_pages (e_phnum (header bs)) bs (e_phoff (header bs)) + 1"

definition program_image :: "bytes \<Rightarrow> nat \<Rightarrow> (u8 \<times> bool) option" where
  "program_image bs = with_page (PHYS_BASE - PGSIZE) (\<lambda>_. 0) True (phdrs_view (e_phnum (header bs)) bs (e_phoff (header bs)) Map.empty)"

lemma phoff_s32:
  assumes "length bs < 2 ^ 31" "phoff < 2 ^ 32"
  shows "0 \<le> s32 (int phoff) \<and> phdrs_valid n bs (nat (s32 (int phoff))) u \<or> n = 0 \<longleftrightarrow> phdrs_valid n bs phoff u" "s32 (int phoff) < 2 ^ 31"
    "phdrs_valid n bs phoff u \<Longrightarrow> phdrs_view n bs (nat (s32 (int phoff))) u = phdrs_view n bs phoff u"
    "phdrs_valid n bs phoff u \<Longrightarrow> phdrs_pages n bs (nat (s32 (int phoff))) = phdrs_pages n bs phoff"
proof -
  have small: "s32 (int phoff) = int phoff" if "phoff < 2 ^ 31" using that by (intro s32_id) (simp add: s32_range_def)
  have big: "s32 (int phoff) < 0" if "\<not> phoff < 2 ^ 31"
  proof -
    have "(int phoff - 2 ^ 31 + 2 ^ 32) mod 2 ^ 32 = int phoff - 2 ^ 31"
      unfolding mod_add_self2 by (rule mod_pos_pos_trivial) (use that assms(2) in simp_all)
    moreover have "int phoff - 2 ^ 31 + 2 ^ 32 = int phoff + 2 ^ 31" by simp
    ultimately have "(int phoff + 2 ^ 31) mod 2 ^ 32 = int phoff - 2 ^ 31" by (simp only:)
    then show ?thesis using assms(2) by (simp add: s32_def)
  qed
  show "s32 (int phoff) < 2 ^ 31" using small big by (cases "phoff < 2 ^ 31") simp_all
  have no: "n = 0" if "\<not> phoff < 2 ^ 31" "phdrs_valid n bs phoff u" using that assms(1) by (cases n) simp_all
  show "0 \<le> s32 (int phoff) \<and> phdrs_valid n bs (nat (s32 (int phoff))) u \<or> n = 0 \<longleftrightarrow> phdrs_valid n bs phoff u"
    using small big no by (cases "phoff < 2 ^ 31") auto
  show "phdrs_view n bs (nat (s32 (int phoff))) u = phdrs_view n bs phoff u" "phdrs_pages n bs (nat (s32 (int phoff))) = phdrs_pages n bs phoff"
    if "phdrs_valid n bs phoff u"
    using small no [OF _ that] by (cases "phoff < 2 ^ 31"; auto)+
qed

lemma load_file_ok:
  assumes "spaces_ok K s pds" "i < length pds" "file_at v file bs 0" "command_line K s d file_name ws" "frame_room (take 128 ws) \<le> PGSIZE"
    "uview s (pds ! i) = Map.empty"
  shows "\<exists>ok eip esp s' v' pos. load_file d (pds ! i) file file_name s v = Some (ok, eip, esp, s', v') \<and> only_process K pds i s s' \<and>
    file_at v' file bs pos \<and> reads_only file v v' \<and>
    (if ok then runnable bs \<and> eip = e_entry (header bs) \<and> arguments_at (user_mem s' (pds ! i)) esp (take 128 ws) \<and>
       PHYS_BASE - frame_room (take 128 ws) \<le> esp \<and> esp < PHYS_BASE \<and> (\<forall>a<esp. uview s' (pds ! i) a = program_image bs a)
     else runnable bs \<longrightarrow> (\<exists>b. spare b s < program_pages bs + 1))"
proof -
  let ?pd = "pds ! i" and ?h = "header bs"
  have es: "EHDR_SIZE < 2 ^ 31" by (simp add: EHDR_SIZE_def)
  obtain v1 where v1: "file_read v file (int EHDR_SIZE) = Some (chunk bs 0 EHDR_SIZE, v1)" "file_at v1 file bs (0 + length (chunk bs 0 EHDR_SIZE))"
      "reads_only file v v1"
    by (rule file_read_step [OF assms(3) es])
  have ch: "chunk bs 0 EHDR_SIZE = take EHDR_SIZE bs" by (simp add: chunk_def)
  have no: "only_process K pds i s s" using assms(1) by (simp add: only_process_def kernel_kept_def)
  show ?thesis
  proof (cases "length (take EHDR_SIZE bs) \<noteq> EHDR_SIZE \<or> \<not> ehdr_ok ?h")
    case True
    then have "load_file d ?pd file file_name s v = Some (False, 0, 0, s, v1)" using v1(1) by (auto simp: load_file_def ch header_def)
    moreover have "\<not> runnable bs" using True by (auto simp: runnable_def)
    ultimately show ?thesis using no v1(2,3) by auto
  next
    case False
    then have hd: "EHDR_SIZE \<le> length bs" "ehdr_ok ?h" by auto
    have "of_le (chunk (take EHDR_SIZE bs) 28 4) < 256 ^ length (chunk (take EHDR_SIZE bs) 28 4)" by (rule of_le_bound)
    then have ph: "e_phoff ?h < 2 ^ 32" using hd(1) by (simp add: header_def ehdr_of_def EHDR_SIZE_def)
    note p = phoff_s32 [OF file_at_length(1) [OF assms(3)] ph]
    let ?n = "e_phnum ?h" and ?ofs = "s32 (int (e_phoff ?h))"
    obtain ok2 s2 v2 pos2 where 2: "load_phdrs ?n ?pd file ?ofs s v1 = Some (ok2, s2, v2)" "spaces_ok K s2 pds" "kernel_kept K s s2"
        "file_at v2 file bs pos2" "reads_only file v1 v2" "\<forall>j<length pds. j \<noteq> i \<longrightarrow> uview s2 (pds ! j) = uview s (pds ! j)"
        "if ok2 then (0 \<le> ?ofs \<and> phdrs_valid ?n bs (nat ?ofs) (uview s ?pd) \<or> ?n = 0) \<and> uview s2 ?pd = phdrs_view ?n bs (nat ?ofs) (uview s ?pd) \<and>
           (\<forall>b. spare b s \<le> spare b s2 + phdrs_pages ?n bs (nat ?ofs))
         else (0 \<le> ?ofs \<and> phdrs_valid ?n bs (nat ?ofs) (uview s ?pd) \<or> ?n = 0) \<longrightarrow> (\<exists>b. spare b s < phdrs_pages ?n bs (nat ?ofs))"
      using load_phdrs_ok [OF assms(1,2) v1(2) p(2), of ?n] unfolding segment_done_def by blast
    note p' = p(1,3,4) [where n = ?n and u = "Map.empty :: nat \<Rightarrow> (u8 \<times> bool) option"]
    note ro = reads_only_trans [OF v1(3) 2(5)]
    have o2: "only_process K pds i s s2" using 2(2,3,6) by (simp add: only_process_def)
    have call: "load_file d ?pd file file_name s v = (if \<not> ok2 then Some (False, 0, 0, s2, v2) else do {
         (ok, esp, s) \<leftarrow> setup_stack ?pd s2;
         if \<not> ok then Some (False, 0, esp, s, v2)
         else do { (ok, esp, s) \<leftarrow> load_arguments d ?pd esp file_name s; Some (ok, if ok then e_entry ?h else 0, esp, s, v2) } })"
      using v1(1) hd 2(1) unfolding load_file_def ch header_def by (simp cong: if_cong)
    show ?thesis
    proof (cases ok2)
      case False
      have "\<exists>b. spare b s < program_pages bs + 1" if run: "runnable bs"
      proof -
        obtain b where "spare b s < phdrs_pages ?n bs (e_phoff ?h)" using run False 2(7) p' assms(6) by (auto simp: runnable_def)
        then have "spare b s < program_pages bs + 1" by (simp add: program_pages_def)
        then show ?thesis ..
      qed
      then show ?thesis using call o2 2(4) ro False by auto
    next
      case True
      then have u2: "phdrs_valid ?n bs (e_phoff ?h) Map.empty" "uview s2 ?pd = phdrs_view ?n bs (e_phoff ?h) Map.empty"
          "\<And>b. spare b s \<le> spare b s2 + phdrs_pages ?n bs (e_phoff ?h)"
        using 2(7) p' assms(6) by auto
      obtain ok3 esp3 s3 where 3: "setup_stack ?pd s2 = Some (ok3, esp3, s3)" "only_process K pds i s2 s3"
          "if ok3 then esp3 = PHYS_BASE \<and> uview s3 ?pd = with_page (PHYS_BASE - PGSIZE) (\<lambda>_. 0) True (uview s2 ?pd) \<and>
             unmapped (PHYS_BASE - PGSIZE) PGSIZE (uview s2 ?pd) \<and> (\<forall>b. spare b s2 \<le> Suc (spare b s3))
           else unmapped (PHYS_BASE - PGSIZE) PGSIZE (uview s2 ?pd) \<longrightarrow> (\<exists>b. spare b s2 = 0)"
        using setup_stack_ok [OF 2(2) assms(2)] by blast
      note o3 = only_process_trans [OF o2 3(2)]
      show ?thesis
      proof (cases ok3)
        case False
        have "\<exists>b. spare b s < program_pages bs + 1" if run: "runnable bs"
        proof -
          obtain b where "spare b s2 = 0" using run False 3(3) u2(2) by (auto simp: runnable_def)
          then show ?thesis using u2(3) [of b] by (auto simp: program_pages_def intro!: exI [of _ b])
        qed
        then show ?thesis using call True False 3(1) o3 2(4) ro by auto
      next
        case yes: True
        then have u3: "esp3 = PHYS_BASE" "uview s3 ?pd = program_image bs" "unmapped (PHYS_BASE - PGSIZE) PGSIZE (uview s2 ?pd)" "\<And>b. spare b s2 \<le> Suc (spare b s3)"
          using 3(3) u2(2) by (simp_all add: program_image_def)
        have ok: "spaces_ok K s3 pds" "command_line K s3 d file_name ws"
          using o3 command_line_kept [OF assms(4)] by (auto simp: only_process_def)
        have "\<exists>b. uview s3 ?pd a = Some (b, True)" if "PHYS_BASE - PGSIZE \<le> a" "a < PHYS_BASE" for a
          using that by (simp add: u3(2) program_image_def with_page_def PHYS_BASE_def PGSIZE_def)
        from load_arguments_ok [OF ok(1) assms(2) ok(2) assms(5) this] obtain ok4 esp4 s4 where
          4: "load_arguments d ?pd PHYS_BASE file_name s3 = Some (ok4, esp4, s4)" "only_process K pds i s3 s4"
            "if ok4 then arguments_at (user_mem s4 ?pd) esp4 (take 128 ws) \<and> PHYS_BASE - frame_room (take 128 ws) \<le> esp4 \<and> esp4 < PHYS_BASE \<and>
               (\<forall>a<esp4. uview s4 ?pd a = uview s3 ?pd a) else spare False s3 = 0" by blast
        have "load_file d ?pd file file_name s v = Some (ok4, if ok4 then e_entry ?h else 0, esp4, s4, v2)"
          using call True yes 3(1) 4(1) u3(1) by simp
        moreover have "runnable bs" using hd u2(1,2) u3(3) by (simp add: runnable_def)
        moreover have "spare False s < program_pages bs + 1" if "\<not> ok4"
          using 4(3) that u2(3) [of False] u3(4) [of False] by (simp add: program_pages_def)
        ultimately show ?thesis using 2(4) ro only_process_trans [OF o3 4(2)] 4(3) u3(2) by auto
      qed
    qed
  qed
qed

section \<open>From the command line to the process\<close>

lemma uview_ram:
  assumes "ram s' = ram s"
  shows "uview s' = uview s"
  unfolding fun_eq_iff uview_def assms mapping_ram [OF assms] by simp

lemma new_process:
  assumes "spaces_ok K s pds"
  obtains (none) "pagedir_create s = Some (NULL, s)" "spare False s = 0"
  | (ok) pd s1 s2 where "pagedir_create s = Some (pd, s1)" "pd \<noteq> NULL" "pagedir_activate s1 pd = Some s2" "spaces_ok K s2 (pds @ [pd])"
      "kernel_kept K s s2" "\<And>j. j < length pds \<Longrightarrow> uview s2 (pds ! j) = uview s (pds ! j)" "uview s2 pd = Map.empty"
      "\<And>b. spare b s \<le> Suc (spare b s2)"
proof (cases rule: pagedir_create_ok [OF spaces_okD(1,2) [OF assms], case_names none ok])
  case none
  obtain p s0 where g: "palloc_get_page 0 s = Some (p, s0)" by (rule palloc_get_page_ok [OF spaces_okD(1) [OF assms], of 0 False]) auto
  then have "p = NULL" using none by (auto simp: pagedir_create_def split: if_splits)
  then have "spare False s = 0" by (intro palloc_get_page_none [OF spaces_okD(1) [OF assms], of 0 False]) (use g in simp_all)
  with none show ?thesis by (rule that(1))
next
  case (ok pd s1)
  note D = spaces_okD [OF assms]
  obtain s' pds' where c: "space_step Create (s, pds) = Some (s', pds')" "spaces_ok K s' pds'" "kernel_kept K s s'"
      "map (mapping s') pds' = map (mapping s) pds \<or> map (mapping s') pds' = map (mapping s) pds @ [Map.empty]"
    by (rule spaces_create [OF assms])
  then have e: "s' = s1" "pds' = pds @ [pd]" using ok(1,5) by auto
  have m: "map (mapping s1) pds = map (mapping s) pds" using c(4) by (auto simp: e)
  obtain s2 where a: "pagedir_activate s1 (if length pds < length (pds @ [pd]) then (pds @ [pd]) ! length pds else NULL) = Some s2" "spaces_ok K s2 (pds @ [pd])"
      "kernel_kept K s1 s2" "map (mapping s2) (pds @ [pd]) = map (mapping s1) (pds @ [pd])"
    by (rule spaces_activate [OF c(2) [unfolded e], of "length pds"])
  then have ap: "pagedir_activate s1 pd = Some s2" by simp
  then have same: "ram s2 = ram s1" "kernel_pool s2 = kernel_pool s1" "user_pool s2 = user_pool s1"
    by (auto simp: pagedir_activate_def bind_eq_Some_conv split: if_splits)
  note v2 = uview_ram [OF same(1)]
  have "spare b s \<le> Suc (spare b s1)" for b
    by (rule spare_one [OF _ changesD(1) [OF ok(9)], where p = pd]) (use ok(7,8) in \<open>auto simp: pool_of_def\<close>)
  moreover have "spare b s2 = spare b s1" for b by (simp add: spare_def pool_of_def same)
  ultimately have sp: "spare b s \<le> Suc (spare b s2)" for b by simp
  have "uview s2 (pds ! j) = uview s (pds ! j)" if "j < length pds" for j
    unfolding v2 by (rule uview_other [OF assms that map_nth_eq [OF m that] ok(9)])
      (use owned_allocated [OF D(6) [OF that]] ok(6) in \<open>auto simp: owned_def\<close>)
  moreover have "uview s2 pd = Map.empty" unfolding v2 by (simp add: fun_eq_iff uview_def ok(4))
  ultimately show ?thesis using that(2) [OF ok(1,5) ap a(2)] kernel_kept_trans [OF c(3) [unfolded e] a(3)] sp by blast
qed

lemma program_name:
  assumes "spaces_ok K s pds" "command_line K s d file_name ws" "ws \<noteq> []" "palloc_get_page 0 s = Some (p, s1)" "p \<noteq> NULL"
  obtains n m1 token sv m2 s3 where "strlcpy (kmem s1) p file_name PGSIZE = Some (n, m1)" "strtok_r m1 p d NULL = Some (token, sv, m2)"
    "token \<noteq> NULL" "cstr m2 token = hd ws" "palloc_free_page p (set_kmem m2 s1) = Some s3" "spaces_ok K s3 pds" "kernel_kept K s s3"
    "\<And>j. j < length pds \<Longrightarrow> uview s3 (pds ! j) = uview s (pds ! j)" "\<And>b. spare b s3 = spare b s"
proof -
  note b = kernel_page_bounds [OF assms(1,4,5)] and D = spaces_okD [OF assms(1)]
  note c = command_line_strings [OF assms(1,2) b(1,2,4)]
  have km: "kmem s1 = kmem s" by (simp add: kmem_def b(3))
  have pl: "p + PGSIZE \<le> length (kmem s)" using b(5) by simp
  obtain m1 token sv m2 where w: "strlcpy (kmem s) p file_name PGSIZE = Some (length (cstr (kmem s) file_name), m1)" "strtok_r m1 p d NULL = Some (token, sv, m2)"
      "length m2 = length (kmem s)" "\<forall>x<length (kmem s). x < p \<or> p + PGSIZE \<le> x \<longrightarrow> m2 ! x = kmem s ! x" "ws \<noteq> [] \<Longrightarrow> token \<noteq> NULL \<and> cstr m2 token = hd ws"
    by (rule first_word [OF c(1-4) pl c(5,6)]) (assumption | rule that)+
  have r: "ram (set_kmem m2 s1) x = ram s x" if "page_of x \<noteq> p" "page_of x \<notin> {}" for x
  proof -
    have "x < p \<or> p + PGSIZE \<le> x" using outside_page [OF b(1) that(1)] by simp
    then show ?thesis using w(3,4) nth_kmem [of x s] b(3) by (auto simp: set_kmem_def)
  qed
  obtain s3 where s3: "palloc_free_page p (s1\<lparr>ram := ram (set_kmem m2 s1)\<rparr>) = Some s3" "spaces_ok K s3 pds" "kernel_kept K s s3"
      "map (mapping s3) pds = map (mapping s) pds" "changes (insert p {}) s s3" "\<And>b. spare b s3 = spare b s"
    by (rule kernel_temp [OF assms(1,4,5) empty_subsetI Int_empty_left r]) (assumption | rule that)+
  have e: "s1\<lparr>ram := ram (set_kmem m2 s1)\<rparr> = set_kmem m2 s1" by (simp add: set_kmem_def)
  have "uview s3 (pds ! j) = uview s (pds ! j)" if "j < length pds" for j
    by (rule uview_other [OF assms(1) that map_nth_eq [OF s3(4) that] s3(5)])
      (use owned_allocated [OF D(6) [OF that]] b(2) in \<open>auto simp: owned_def\<close>)
  then show ?thesis using that w(1,2) w(5) [OF assms(3)] s3(1-3,6) unfolding e km by blast
qed

section \<open>The file system\<close>

lemma collect_abs: "collect (abs_fs v) = abs_fs v"
  by (auto simp: collect_def abs_fs_def view_def restrict_map_def fun_eq_iff)

lemma open_program_ok:
  assumes "fs_inv v" "token \<noteq> NULL" "cstr m token = name"
  obtains (absent) v1 where "open_program m token v = Some (NULL, v1)" "fs_inv v1" "abs_fs v1 = abs_fs v" "a_names (abs_fs v) name = None"
  | (found) f n v1 where "open_program m token v = Some (f, v1)" "f \<noteq> NULL" "a_names (abs_fs v) name = Some n" "a_handles (abs_fs v) f = None"
      "file_at v1 f (data_of (abs_fs v) n) 0" "abs_fs v1 = (abs_fs v)\<lparr>a_handles := (a_handles (abs_fs v))(f \<mapsto> \<lparr>h_object = n, h_pos = 0, h_deny = False\<rparr>)\<rparr>"
proof -
  have "valid_call (abs_fs v) (Open name)" using assms(3) cstr_nonzero [of m token] by simp
  then obtain r v1 where r: "fs_exec (replicate 20 0) v (Open name) = Some (r, v1)" "fs_inv v1" "spec (abs_fs v) (Open name) r (abs_fs v1)"
    by (rule file_exec [OF assms(1)])
  have op: "open_program m token v = filesys_open v name" using assms(2,3) by (simp add: open_program_def)
  obtain f where f: "filesys_open v name = Some (f, v1)" "r = Handle f" using r(1) by (auto simp: fs_exec_def)
  show ?thesis
  proof (cases "a_names (abs_fs v) name")
    case None
    then show ?thesis using that(1) r(2,3) f op by simp
  next
    case (Some n)
    then have a: "f \<noteq> NULL" "a_handles (abs_fs v) f = None"
        "abs_fs v1 = (abs_fs v)\<lparr>a_handles := (a_handles (abs_fs v))(f \<mapsto> \<lparr>h_object = n, h_pos = 0, h_deny = False\<rparr>)\<rparr>"
      using r(3) f(2) by auto
    then have "file_at v1 f (data_of (abs_fs v) n) 0" using r(2) by (simp add: file_at_def data_of_def)
    then show ?thesis using that(2) Some a f(1) op by simp
  qed
qed

lemma close_program:
  assumes "file_at v2 file bs pos" "reads_only file v1 v2" "a_handles (abs_fs v) file = None"
    "abs_fs v1 = (abs_fs v)\<lparr>a_handles := (a_handles (abs_fs v))(file \<mapsto> h)\<rparr>"
  obtains v3 where "file_close v2 file = Some v3" "fs_inv v3" "abs_fs v3 = abs_fs v"
proof -
  have "fs_inv v2" "valid_call (abs_fs v2) (Close file)" using assms(1) by (auto simp: file_at_def)
  then obtain r v3 where r: "fs_exec (replicate 20 0) v2 (Close file) = Some (r, v3)" "fs_inv v3" "spec (abs_fs v2) (Close file) r (abs_fs v3)"
    by (rule file_exec)
  have "(a_handles (abs_fs v2))(file := None) = a_handles (abs_fs v)" using assms(2-4) by (auto simp: reads_only_def fun_eq_iff)
  then have "(abs_fs v2)\<lparr>a_handles := (a_handles (abs_fs v2))(file := None)\<rparr> = abs_fs v" using assms(2,4) by (simp add: reads_only_def)
  then have "abs_fs v3 = abs_fs v" using r(3) collect_abs [of v] by simp
  moreover have "file_close v2 file = Some v3" using r(1) by (auto simp: fs_exec_def)
  ultimately show ?thesis using that r(2) by blast
qed

lemma deny_program:
  assumes "file_at v2 file bs pos" "reads_only file v1 v2" "abs_fs v1 = (abs_fs v)\<lparr>a_handles := (a_handles (abs_fs v))(file \<mapsto> h)\<rparr>"
  obtains v3 h' where "file_deny_write v2 file = Some v3" "fs_inv v3" "abs_fs v3 = (abs_fs v)\<lparr>a_handles := (a_handles (abs_fs v))(file \<mapsto> h')\<rparr>"
    "h_object h' = h_object h" "h_deny h'"
proof -
  have "fs_inv v2" "valid_call (abs_fs v2) (Deny file)" using assms(1) by (auto simp: file_at_def)
  then obtain r v3 where r: "fs_exec (replicate 20 0) v2 (Deny file) = Some (r, v3)" "fs_inv v3" "spec (abs_fs v2) (Deny file) r (abs_fs v3)"
    by (rule file_exec)
  obtain h2 where h2: "a_handles (abs_fs v2) file = Some h2" "abs_fs v3 = (abs_fs v2)\<lparr>a_handles := (a_handles (abs_fs v2))(file \<mapsto> h2\<lparr>h_deny := True\<rparr>)\<rparr>"
    using r(3) by auto
  have ob: "map_option h_object (a_handles (abs_fs v2) file) = map_option h_object (a_handles (abs_fs v1) file)" using assms(2) unfolding reads_only_def by blast
  have "(a_handles (abs_fs v2))(file \<mapsto> h2\<lparr>h_deny := True\<rparr>) = (a_handles (abs_fs v))(file \<mapsto> h2\<lparr>h_deny := True\<rparr>)"
    using assms(2,3) by (auto simp: reads_only_def fun_eq_iff)
  then have "abs_fs v3 = (abs_fs v)\<lparr>a_handles := (a_handles (abs_fs v))(file \<mapsto> h2\<lparr>h_deny := True\<rparr>)\<rparr>"
    unfolding h2(2) using assms(2,3) by (simp add: reads_only_def)
  moreover have "file_deny_write v2 file = Some v3" using r(1) by (auto simp: fs_exec_def)
  ultimately show ?thesis using that [of v3 "h2\<lparr>h_deny := True\<rparr>"] r(2) h2(1) ob assms(3) by simp
qed

section \<open>Loading a program\<close>

text \<open>What a load leaves behind, for the processes \<open>pds\<close> there were and the one that is started.\<close>

definition loaded ::
  "nat set \<Rightarrow> nat list \<Rightarrow> bytes list \<Rightarrow> machine \<Rightarrow> fs \<Rightarrow> bool \<Rightarrow> nat \<Rightarrow> nat \<Rightarrow> nat \<Rightarrow> nat \<Rightarrow> machine \<Rightarrow> fs \<Rightarrow> bool" where
  "loaded K pds ws s v success eip esp pd exec s' v' \<longleftrightarrow>
     fs_inv v' \<and> spaces_ok K s' (if pd = NULL then pds else pds @ [pd]) \<and> kernel_kept K s s' \<and> (\<forall>j<length pds. uview s' (pds ! j) = uview s (pds ! j)) \<and>
     (if success
      then pd \<noteq> NULL \<and> (\<exists>n h. a_names (abs_fs v) (hd ws) = Some n \<and> runnable (data_of (abs_fs v) n) \<and> eip = e_entry (header (data_of (abs_fs v) n)) \<and>
        arguments_at (user_mem s' pd) esp (take 128 ws) \<and> PHYS_BASE - frame_room (take 128 ws) \<le> esp \<and> esp < PHYS_BASE \<and>
        (\<forall>a<esp. uview s' pd a = program_image (data_of (abs_fs v) n) a) \<and>
        a_handles (abs_fs v) exec = None \<and> h_object h = n \<and> h_deny h \<and> abs_fs v' = (abs_fs v)\<lparr>a_handles := (a_handles (abs_fs v))(exec \<mapsto> h)\<rparr>)
      else abs_fs v' = abs_fs v \<and> (\<forall>n. a_names (abs_fs v) (hd ws) = Some n \<and> runnable (data_of (abs_fs v) n) \<longrightarrow>
        (\<exists>b. spare b s < program_pages (data_of (abs_fs v) n) + 2)))"

lemma load_ok:
  assumes "spaces_ok K s pds" "fs_inv v" "command_line K s d file_name ws" "ws \<noteq> []" "frame_room (take 128 ws) \<le> PGSIZE"
  shows "\<exists>success eip esp pd exec s' v'. load d file_name s v = Some (success, eip, esp, pd, exec, s', v') \<and> loaded K pds ws s v success eip esp pd exec s' v'"
proof (cases rule: new_process [OF assms(1), case_names none ok])
  case none
  moreover have "\<exists>b. spare b s < k + 2" for k using none(2) by (intro exI [of _ False]) simp
  ultimately show ?thesis using assms(1,2) by (auto simp: load_def loaded_def kernel_kept_def)
next
  case (ok pd s1 s2)
  let ?ps = "pds @ [pd]"
  have cl: "command_line K s2 d file_name ws" by (rule command_line_kept [OF assms(3) ok(5)])
  obtain p s3 where g: "palloc_get_page 0 s2 = Some (p, s3)" "p = NULL \<Longrightarrow> s3 = s2"
    by (rule palloc_get_page_ok [OF spaces_okD(1) [OF ok(4)], of 0 False]) auto
  show ?thesis
  proof (cases "p = NULL")
    case True
    then have e: "load d file_name s v = Some (False, 0, 0, pd, NULL, s2, v)" using ok(1-3) g by (simp add: load_def)
    have "spare False s2 = 0" by (rule palloc_get_page_none [OF spaces_okD(1) [OF ok(4)], of 0]) (use g True in simp_all)
    then have "\<exists>b. spare b s < program_pages bs + 2" for bs using ok(8) [of False] by (intro exI [of _ False]) simp
    then have "loaded K pds ws s v False 0 0 pd NULL s2 v" using ok(2,4-6) assms(2) by (simp add: loaded_def)
    then show ?thesis using e by blast
  next
    case False
    obtain n m1 token sv m2 s4 where 4: "strlcpy (kmem s3) p file_name PGSIZE = Some (n, m1)" "strtok_r m1 p d NULL = Some (token, sv, m2)"
      "token \<noteq> NULL" "cstr m2 token = hd ws" "palloc_free_page p (set_kmem m2 s3) = Some s4" "spaces_ok K s4 ?ps" "kernel_kept K s2 s4"
      "\<And>j. j < length ?ps \<Longrightarrow> uview s4 (?ps ! j) = uview s2 (?ps ! j)" "\<And>b. spare b s4 = spare b s2"
      by (rule program_name [OF ok(4) cl assms(4) g(1) False]) (assumption | rule that)+
    note k4 = kernel_kept_trans [OF ok(5) 4(7)]
    have u4: "uview s4 (pds ! j) = uview s (pds ! j)" if "j < length pds" for j using 4(8) [of j] ok(6) [OF that] that by (simp add: nth_append)
    have e4: "uview s4 pd = Map.empty" using 4(8) [of "length pds"] ok(7) by simp
    show ?thesis
    proof (cases rule: open_program_ok [OF assms(2) 4(3,4), case_names absent found])
      case (absent v1)
      then have "load d file_name s v = Some (False, 0, 0, pd, NULL, s4, v1)" using ok(1-3) g(1) False 4(1,2,5) by (simp add: load_def)
      then show ?thesis using absent(2-4) 4(6) k4 u4 ok(2) by (auto simp: loaded_def)
    next
      case (found f n v1)
      let ?bs = "data_of (abs_fs v) n"
      have i: "length pds < length ?ps" "uview s4 (?ps ! length pds) = Map.empty" using e4 by simp_all
      obtain success eip esp s5 v2 pos where 5: "load_file d pd f file_name s4 v1 = Some (success, eip, esp, s5, v2)" "only_process K ?ps (length pds) s4 s5"
          "file_at v2 f ?bs pos" "reads_only f v1 v2"
          "if success then runnable ?bs \<and> eip = e_entry (header ?bs) \<and> arguments_at (user_mem s5 pd) esp (take 128 ws) \<and>
             PHYS_BASE - frame_room (take 128 ws) \<le> esp \<and> esp < PHYS_BASE \<and> (\<forall>a<esp. uview s5 pd a = program_image ?bs a)
           else runnable ?bs \<longrightarrow> (\<exists>b. spare b s4 < program_pages ?bs + 1)"
        using load_file_ok [OF 4(6) i(1) found(5) command_line_kept [OF cl 4(7)] assms(5) i(2), unfolded nth_append_length] by blast
      have s5: "spaces_ok K s5 ?ps" "kernel_kept K s s5" "\<forall>j<length pds. uview s5 (pds ! j) = uview s (pds ! j)"
        using 5(2) u4 kernel_kept_trans [OF k4] by (auto simp: only_process_def nth_append)
      have call: "load d file_name s v = (if success then do { v \<leftarrow> file_deny_write v2 f; Some (True, eip, esp, pd, f, s5, v) }
          else do { v \<leftarrow> file_close v2 f; Some (False, eip, esp, pd, NULL, s5, v) })"
        using ok(1-3) g(1) False 4(1,2,5) found(1,2) 5(1) by (simp add: load_def)
      show ?thesis
      proof (cases success)
        case True
        obtain v3 h' where 3: "file_deny_write v2 f = Some v3" "fs_inv v3" "abs_fs v3 = (abs_fs v)\<lparr>a_handles := (a_handles (abs_fs v))(f \<mapsto> h')\<rparr>"
            "h_object h' = n" "h_deny h'"
          by (rule deny_program [OF 5(3,4) found(6)]) simp
        have "loaded K pds ws s v True eip esp pd f s5 v3"
          unfolding loaded_def using 3(2) s5 ok(2) 5(5) True found(3,4) 3(3-5) by auto
        then show ?thesis using call True 3(1) by auto
      next
        case False
        obtain v3 where 3: "file_close v2 f = Some v3" "fs_inv v3" "abs_fs v3 = abs_fs v"
          by (rule close_program [OF 5(3,4) found(4,6)])
        have "\<exists>b. spare b s < program_pages ?bs + 2" if run: "runnable ?bs"
        proof -
          obtain b where "spare b s4 < program_pages ?bs + 1" using run False 5(5) by auto
          then have "spare b s < program_pages ?bs + 2" using ok(8) [of b] 4(9) [of b] by simp
          then show ?thesis ..
        qed
        then have "loaded K pds ws s v False eip esp pd NULL s5 v3" using s5 ok(2) 3 found(3) by (simp add: loaded_def)
        then show ?thesis using call False 3(1) by auto
      qed
    qed
  qed
qed

text \<open>
  C6. Loading a program: \<open>load\<close> returns, for every command line with a word in it whose arguments fit into a
  page, and for every content of the file. It succeeds exactly when the first word names a file with
  acceptable headers and segments that do not overlap, unless the pools run out of pages: it needs as many pages
  of each pool as the memory of the program has, and two more. If it succeeds, the new process sees below its stack pointer exactly what the program headers
  describe (the bytes of the file, then zeros, writable only where a header says so) and at the stack pointer
  the arguments, it starts at the entry point, and the file is open and cannot be written. Otherwise the file
  system is as it was. No other process sees a change, and the kernel's memory is unchanged.
\<close>

theorem load_correct:
  assumes "spaces_ok K s pds" "fs_inv v" "command_line K s d file_name ws" "ws \<noteq> []" "frame_room (take 128 ws) \<le> PGSIZE"
  shows "\<exists>success eip esp pd exec s' v'. load d file_name s v = Some (success, eip, esp, pd, exec, s', v') \<and>
    fs_inv v' \<and> spaces_ok K s' (if pd = NULL then pds else pds @ [pd]) \<and> kernel_kept K s s' \<and> (\<forall>j<length pds. uview s' (pds ! j) = uview s (pds ! j)) \<and>
    (if success
     then pd \<noteq> NULL \<and> (\<exists>n h. a_names (abs_fs v) (hd ws) = Some n \<and> runnable (data_of (abs_fs v) n) \<and> eip = e_entry (header (data_of (abs_fs v) n)) \<and>
       arguments_at (user_mem s' pd) esp (take 128 ws) \<and> PHYS_BASE - frame_room (take 128 ws) \<le> esp \<and> esp < PHYS_BASE \<and>
       (\<forall>a<esp. uview s' pd a = program_image (data_of (abs_fs v) n) a) \<and>
       a_handles (abs_fs v) exec = None \<and> h_object h = n \<and> h_deny h \<and> abs_fs v' = (abs_fs v)\<lparr>a_handles := (a_handles (abs_fs v))(exec \<mapsto> h)\<rparr>)
     else abs_fs v' = abs_fs v \<and> (\<forall>n. a_names (abs_fs v) (hd ws) = Some n \<and> runnable (data_of (abs_fs v) n) \<longrightarrow>
       (\<exists>b. spare b s < program_pages (data_of (abs_fs v) n) + 2)))"
  using load_ok [OF assms] unfolding loaded_def .

text \<open>Address \<open>0xc0000001\<close> holds the delimiters and \<open>0xc0000003\<close> the command line \<open>a b\<close>.\<close>

definition sample_boot_memory :: machine where
  "sample_boot_memory = \<lparr>ram = (\<lambda>_. 0)(0xc0000001 := 32, 0xc0000003 := 97, 0xc0000004 := 32, 0xc0000005 := 98),
     kernel_pool = \<lparr>used_map = \<lparr>bit_cnt = 8, bits = [1]\<rparr>, base = 0xc0200000\<rparr>,
     user_pool = \<lparr>used_map = \<lparr>bit_cnt = 8, bits = [0]\<rparr>, base = 0xc0300000\<rparr>, init_ram_pages = 1024, init_page_dir = 0xc0200000, cr3 = 0x200000\<rparr>"

lemma sample_boot_spaces: "spaces_ok {0xc0200000} sample_boot_memory []"
proof -
  have p: "pools_ok sample_boot_memory"
    by (simp add: sample_boot_memory_def pools_ok_def pool_ok_def pool_end_def bitmap_wf_def PHYS_BASE_def PGSIZE_def elem_cnt_def DIV_ROUND_UP_def ELEM_BITS_def)
  have "0 \<in> bits_set (used_map (kernel_pool sample_boot_memory))"
    by (simp add: sample_boot_memory_def bits_set_def bit_at_def elem_idx_def ELEM_BITS_def)
  then have k: "0xc0200000 \<in> pool_pages (kernel_pool sample_boot_memory)"
    unfolding pool_pages_def by (rule image_eqI [rotated]) (simp add: sample_boot_memory_def)
  have "kernel_dir_ok sample_boot_memory"
    using k by (simp add: kernel_dir_ok_def) (simp add: sample_boot_memory_def pde_at_def get32_def)
  then show ?thesis using p k by (simp add: spaces_ok_def allocated_def) (simp add: sample_boot_memory_def)
qed

lemma sample_boot_command: "command_line {0xc0200000} sample_boot_memory 0xc0000001 0xc0000003 [[97], [98]]"
proof -
  let ?w = "words {32} (take (PGSIZE - 1) [97, 32, 98 :: u8])"
  have "length (take 128 ?w) = 2" unfolding sample_words by simp
  then have "take 128 ?w = ?w" by (simp add: min_def split: if_splits)
  then have w: "?w = [[97], [98]]" using sample_words by simp
  have 1: "kernel_string {0xc0200000} sample_boot_memory 0xc0000001 [32]"
    by (simp add: kernel_string_def sample_boot_memory_def page_of_def PGSIZE_def le_Suc_eq)
  have 2: "kernel_string {0xc0200000} sample_boot_memory 0xc0000003 [97, 32, 98]"
    by (simp add: kernel_string_def sample_boot_memory_def page_of_def PGSIZE_def le_Suc_eq)
  show ?thesis unfolding command_line_def
    by (intro conjI exI [of _ "[97, 32, 98]"]) (use 1 2 w in \<open>simp_all add: sample_boot_memory_def\<close>)
qed

text \<open>
  An executable with one segment that maps the file itself at \<open>0x8048000\<close>, read-only, written to the file \<open>a\<close>.
\<close>

definition sample_executable :: bytes where
  "sample_executable =
     [0x7f, 0x45, 0x4c, 0x46, 1, 1, 1, 0, 0, 0, 0, 0, 0, 0, 0, 0, 2, 0, 3, 0, 1, 0, 0, 0, 0x54, 0x80, 4, 8, 52, 0, 0, 0,
      0, 0, 0, 0, 0, 0, 0, 0, 52, 0, 32, 0, 1, 0, 0, 0, 0, 0, 0, 0,
      1, 0, 0, 0, 0, 0, 0, 0, 0, 0x80, 4, 8, 0, 0x80, 4, 8, 100, 0, 0, 0, 100, 0, 0, 0, 5, 0, 0, 0, 0, 0x10, 0, 0]"

definition sample_program :: fs where
  "sample_program = snd (the (file_write (snd sample_opened) (fst sample_opened) sample_executable 84))"

definition sample_file :: bytes where
  "sample_file = sample_executable @ replicate 16 0"

lemma sample_program_ok: "fs_inv sample_program" "\<exists>n. a_names (abs_fs sample_program) [97] = Some n \<and> data_of (abs_fs sample_program) n = sample_file"
proof -
  let ?s = "snd sample_opened" and ?f = "fst sample_opened"
  obtain n where n: "abs_fs ?s = \<lparr>a_names = [[97] \<mapsto> n], a_data = [n \<mapsto> replicate 100 0], a_handles = [?f \<mapsto> \<lparr>h_object = n, h_pos = 0, h_deny = False\<rparr>]\<rparr>"
    using sample_opened_ok(2) by blast
  have l: "length sample_executable = 84" by (simp add: sample_executable_def)
  have "valid_call (abs_fs ?s) (Write ?f sample_executable)" by (simp add: n l)
  then obtain r s' where r: "fs_exec (replicate 20 0) ?s (Write ?f sample_executable) = Some (r, s')" "fs_inv s'"
      "spec (abs_fs ?s) (Write ?f sample_executable) r (abs_fs s')"
    by (rule file_exec [OF sample_opened_ok(1)])
  have e: "sample_program = s'" using r(1) l by (auto simp: sample_program_def fs_exec_def)
  show "fs_inv sample_program" using r(2) e by simp
  have "a_names (abs_fs s') [97] = Some n" "a_data (abs_fs s') n = Some (overlay (replicate 100 0) 0 sample_executable)"
    using r(3) l by (auto simp: n denied_def data_of_def)
  moreover have "overlay (replicate 100 0) 0 sample_executable = sample_file" by (simp add: overlay_def sample_file_def l)
  ultimately show "\<exists>n. a_names (abs_fs sample_program) [97] = Some n \<and> data_of (abs_fs sample_program) n = sample_file"
    by (auto simp: e data_of_def)
qed

lemma sample_file_header: "e_phnum (header sample_file) = 1" "e_phoff (header sample_file) = 52" "e_entry (header sample_file) = 0x8048054"
  "ehdr_ok (header sample_file)" "EHDR_SIZE \<le> length sample_file" "length sample_file = 100"
  by (simp_all add: header_def sample_file_def sample_executable_def ehdr_of_def ehdr_ok_def EHDR_SIZE_def PHDR_SIZE_def chunk_def)

lemma sample_file_phdr: "phdr_of (chunk sample_file 52 PHDR_SIZE) =
    \<lparr>p_type = 1, p_offset = 0, p_vaddr = 0x8048000, p_paddr = 0x8048000, p_filesz = 100, p_memsz = 100, p_flags = 5, p_align = 0x1000\<rparr>"
  by (simp add: phdr_of_def sample_file_def sample_executable_def PHDR_SIZE_def chunk_def)

lemma sample_file_view: "phdrs_view 1 sample_file 52 Map.empty = with_segment 0x8048000 sample_file 3996 False Map.empty"
proof -
  have "chunk sample_file 0 100 = sample_file" by (simp add: chunk_def sample_file_header(6))
  then show ?thesis by (simp add: sample_file_phdr phdr_view_def PT_LOAD_def PF_W_def page_of_def ROUND_UP32_def wrap32_def Let_def) (simp add: PGSIZE_def)
qed

lemma sample_runnable: "runnable sample_file" "program_pages sample_file = 2"
proof -
  have "unmapped (PHYS_BASE - PGSIZE) PGSIZE (phdrs_view 1 sample_file 52 Map.empty)"
    unfolding sample_file_view by (simp add: unmapped_def with_segment_def PHYS_BASE_def PGSIZE_def sample_file_header(6))
  moreover have "phdrs_valid 1 sample_file 52 Map.empty"
    by (simp add: sample_file_phdr [unfolded PHDR_SIZE_def] phdr_valid_def segment_valid_def unmapped_def sample_file_header(6) PHDR_SIZE_def PT_LOAD_def PT_DYNAMIC_def PT_INTERP_def PT_SHLIB_def PGSIZE_def PHYS_BASE_def)
  ultimately show "runnable sample_file" using sample_file_header by (simp add: runnable_def)
  show "program_pages sample_file = 2"
    by (simp add: program_pages_def sample_file_header sample_file_phdr phdr_pages_def PT_LOAD_def ROUND_UP32_def wrap32_def PGSIZE_def)
qed

lemma sample_boot_spare: "4 \<le> spare b sample_boot_memory"
proof -
  have "bits_set (used_map (pool_of b sample_boot_memory)) \<subseteq> {0}"
    by (auto simp: sample_boot_memory_def pool_of_def bits_set_def bit_at_def elem_idx_def ELEM_BITS_def bit_1_iff split: if_splits)
  then have "card (pool_pages (pool_of b sample_boot_memory)) \<le> card {0 :: nat}"
    unfolding pool_pages_def by (meson card_image_le card_mono finite.intros le_trans finite_subset)
  moreover have "bit_cnt (used_map (pool_of b sample_boot_memory)) = 8" by (simp add: sample_boot_memory_def pool_of_def)
  ultimately show ?thesis by (simp add: spare_def)
qed

theorem load_correct_witness:
  "\<exists>esp pd exec s' v'. load 0xc0000001 0xc0000003 sample_boot_memory sample_program = Some (True, 0x8048054, esp, pd, exec, s', v') \<and>
    uview s' pd 0x8048000 = Some (0x7f, False) \<and> arguments_at (user_mem s' pd) esp [[97], [98]]"
proof -
  obtain n where n: "a_names (abs_fs sample_program) [97] = Some n" "data_of (abs_fs sample_program) n = sample_file" using sample_program_ok(2) by blast
  have ws: "[[97 :: u8], [98]] \<noteq> []" "frame_room (take 128 [[97 :: u8], [98]]) \<le> PGSIZE" by (simp_all add: frame_room_def room_def PGSIZE_def)
  from load_correct [OF sample_boot_spaces sample_program_ok(1) sample_boot_command ws] obtain success eip esp pd exec s' v' where
    r: "load 0xc0000001 0xc0000003 sample_boot_memory sample_program = Some (success, eip, esp, pd, exec, s', v')" and
    yes: "success \<Longrightarrow> \<exists>n. a_names (abs_fs sample_program) (hd [[97], [98]]) = Some n \<and> eip = e_entry (header (data_of (abs_fs sample_program) n)) \<and>
      arguments_at (user_mem s' pd) esp (take 128 [[97], [98]]) \<and> PHYS_BASE - frame_room (take 128 [[97 :: u8], [98]]) \<le> esp \<and>
      (\<forall>a<esp. uview s' pd a = program_image (data_of (abs_fs sample_program) n) a)" and
    no: "\<not> success \<Longrightarrow> \<forall>n. a_names (abs_fs sample_program) (hd [[97], [98]]) = Some n \<and> runnable (data_of (abs_fs sample_program) n) \<longrightarrow>
      (\<exists>b. spare b sample_boot_memory < program_pages (data_of (abs_fs sample_program) n) + 2)"
    by (elim exE conjE) (metis (no_types, lifting))
  have success
  proof (rule ccontr)
    assume "\<not> success"
    then obtain b where "spare b sample_boot_memory < 4" using no n sample_runnable by auto
    then show False using sample_boot_spare [of b] by simp
  qed
  from yes [OF this] n have f: "eip = 0x8048054" "arguments_at (user_mem s' pd) esp [[97], [98]]" "PHYS_BASE - frame_room (take 128 [[97 :: u8], [98]]) \<le> esp"
      "\<And>a. a < esp \<Longrightarrow> uview s' pd a = program_image sample_file a"
    by (auto simp: sample_file_header(3))
  have "program_image sample_file 0x8048000 = Some (0x7f, False)"
    using sample_file_view sample_file_header(1,2,6)
    by (simp add: program_image_def with_page_def with_segment_def PHYS_BASE_def PGSIZE_def) (simp add: sample_file_def sample_executable_def)
  moreover have "0x8048000 < PHYS_BASE - frame_room (take 128 [[97 :: u8], [98]])" by (simp add: frame_room_def room_def PHYS_BASE_def)
  ultimately have "uview s' pd 0x8048000 = Some (0x7f, False)" using f(3,4) by simp
  then show ?thesis using r f(1,2) \<open>success\<close> by auto
qed

end
