(* ===== verification/Spec2Isabelle.thy ===== *)
theory Spec2Isabelle
  imports List_Refinement Bitmap Fixed_Point Thread_Safety FS_Properties Hash_Table System_Call_Properties Load_Properties
begin

text \<open>
  A verification development of the Pintos kernel under \<^verbatim>\<open>src/pintos/src\<close>: a teaching operating
  system for the i386, with kernel threads, a file system and user programs.

  \<^bold>\<open>The program.\<close> At boot, \<^verbatim>\<open>threads/init.c\<close> sets up memory (\<^verbatim>\<open>palloc.c\<close>, \<open>paging_init\<close>), threads and
  the file system. Threads (\<^verbatim>\<open>threads/thread.c\<close>) wait for each other on the objects of \<^verbatim>\<open>threads/synch.c\<close>
  and are preempted by the timer (\<^verbatim>\<open>devices/timer.c\<close>, \<^verbatim>\<open>threads/interrupt.c\<close>); ready threads, sleepers and
  waiters are kept on the lists of \<^verbatim>\<open>lib/kernel/list.c\<close>. A process is a thread with a page directory
  (\<^verbatim>\<open>userprog/pagedir.c\<close>); it enters the kernel through \<^verbatim>\<open>userprog/syscall.c\<close>, which calls the file system
  (\<^verbatim>\<open>filesys/\<close>). The file system keeps inodes, a free map (a bitmap in a file) and one directory on a
  device of \<^verbatim>\<open>devices/block.c\<close>.

  \<^bold>\<open>How code is modelled.\<close> Each C function is one HOL function on explicit state. A result of type
  \<open>'a option\<close> is \<open>None\<close> where the kernel stops: a failed \<open>ASSERT\<close>, a \<open>PANIC\<close>, or an access to memory
  that is not there. That a function returns is therefore part of every theorem that gives its value.
  32-bit integers are words, or integers with the wrap-around written out (\<open>wrap32\<close>, \<open>s32\<close>);
  pointers are natural numbers and \<open>NULL\<close> is 0. Where \<open>malloc\<close> may fail the state says which
  calls fail, and the theorems hold for every choice.

  \<^bold>\<open>The theories.\<close>

  \<^item> \<open>Pintos_Prelude\<close>: machine integers, \<open>ASSERT\<close>, generic lemmas, and the locale \<open>range_allocator\<close>, the
    contract of an allocator of ranges, interpreted for bitmaps (\<open>Bitmap\<close>) and for pages (\<open>Page_Alloc\<close>).
    \<open>Byte_Encoding\<close>: little-endian integers in memory.
  \<^item> \<open>Kernel_List\<close>, \<open>Merge_Runs\<close>, \<open>List_Refinement\<close>: \<^verbatim>\<open>lib/kernel/list.c\<close> on a store of links. The pointer
    operations are refined to operations on sequences; \<open>list_sort\<close> is the stable sort.
  \<^item> \<open>Bitmap\<close>: \<^verbatim>\<open>lib/kernel/bitmap.c\<close> on arrays of 32-bit words; the scan is an exact first fit.
  \<^item> \<open>Hash_Table\<close>: \<^verbatim>\<open>lib/kernel/hash.c\<close>; the table refines a finite map, and rehashing and iteration end.
  \<^item> \<open>C_Strings\<close>: \<^verbatim>\<open>lib/string.c\<close> on a byte memory. \<open>Arguments\<close>: \<open>push_arguments\<close> of \<^verbatim>\<open>userprog/process.c\<close>.
  \<^item> \<open>Fixed_Point\<close>: \<^verbatim>\<open>threads/fixed-point.h\<close> and the formulas of the feedback scheduler, with bounds that
    exclude overflow.
  \<^item> \<open>Threads\<close> and \<open>Scheduling\<close>: \<^verbatim>\<open>threads/thread.c\<close> with the timer interrupt, and its invariant. \<open>Synch\<close>:
    \<^verbatim>\<open>threads/synch.c\<close>, each operation cut into the sections during which interrupts are off; an inductive
    relation interleaves the sections of all threads with ticks. \<open>Interleaving\<close> and \<open>Kernel_Steps\<close> prove the
    invariants of all interleavings by rule induction; \<open>Thread_Safety\<close> draws the consequences.
  \<^item> \<open>Block_Device\<close>, \<open>Inode_IO\<close>, \<open>File_System\<close>: \<^verbatim>\<open>devices/block.c\<close> and all of \<^verbatim>\<open>filesys/\<close> except \<^verbatim>\<open>fsutil.c\<close>;
    structures on disk are encoded byte for byte. \<open>Directory\<close>, \<open>FS_Invariant\<close>, \<open>FS_Operations\<close>, \<open>FS_Names\<close>,
    \<open>FS_Files\<close>, \<open>FS_Calls\<close>, \<open>FS_Handles\<close>: the invariant, and what each call does under it. \<open>FS_Mount\<close>,
    \<open>FS_Format\<close>: starting, stopping and formatting. \<open>FS_Refinement\<close>: the abstract specification with names,
    byte sequences and positions only. \<open>FS_Properties\<close>: the theorems about the file system as a whole.
  \<^item> \<open>Virtual_Memory\<close>: \<^verbatim>\<open>threads/vaddr.h\<close> and \<^verbatim>\<open>threads/pte.h\<close>. \<open>Page_Alloc\<close>: \<^verbatim>\<open>threads/palloc.c\<close>.
    \<open>Page_Tables\<close>: \<^verbatim>\<open>userprog/pagedir.c\<close> on page tables that lie in the bytes of memory; the operations are
    stated on the map from virtual pages to frames the tables represent. \<open>Memory_Boot\<close>: \<open>paging_init\<close>.
    \<open>Address_Spaces\<close>: \<open>install_page\<close> of \<^verbatim>\<open>userprog/process.c\<close> and any sequence of calls on many directories; they
    refine a list of maps and share no page. \<open>Process_Load\<close>: \<open>load\<close> of \<^verbatim>\<open>userprog/process.c\<close>, from the
    headers of an executable to the memory of the process; its loop over pages is a partial function, and the
    lemmas show that it returns. \<open>Load_Properties\<close>: the stack, the arguments and the whole of \<open>load\<close>; the state of
    memory is related to what each process sees (\<open>uview\<close>), and the file system to its abstract state.
  \<^item> \<open>System_Calls\<close>, \<open>System_Call_Safety\<close>, \<open>System_Call_Properties\<close>: every case of \<open>syscall_handler\<close> and the
    files part of \<open>process_exit\<close>, on the file system model and user memory; a process may do anything in
    user mode between two calls.

  \<^bold>\<open>Bounds and fuel.\<close> Loops are structural recursions or have a termination proof; the read and write loops
  of inodes and of \<open>list_sort\<close> end by a measure. \<open>donate_loop\<close> takes its limit of eight from the code. The
  page allocator is stated for memories of less than one gigabyte, which is what fits above \<open>PHYS_BASE\<close>.

  \<^bold>\<open>Not modelled.\<close> Device drivers and other hardware access (\<^verbatim>\<open>ide.c\<close>, \<^verbatim>\<open>kbd.c\<close>, \<^verbatim>\<open>serial.c\<close>, \<^verbatim>\<open>vga.c\<close>,
  \<^verbatim>\<open>pit.c\<close>, \<^verbatim>\<open>rtc.c\<close>, \<^verbatim>\<open>speaker.c\<close>, \<^verbatim>\<open>shutdown.c\<close>, descriptor tables), assembly code, console output and
  formatting, the translation cache of the processor, and programs that do not run in the kernel
  (\<^verbatim>\<open>lib/user\<close>, \<^verbatim>\<open>examples\<close>, \<^verbatim>\<open>tests\<close>, \<^verbatim>\<open>utils\<close>). The context switch is a change of the running
  thread. Interrupt levels appear as the granularity of the steps.
\<close>

end
